(* ===== verification/Prelude.thy ===== *)
theory Prelude
  imports Main "HOL-Library.Word" "HOL-Library.AList" "HOL-Library.Multiset"
begin

text \<open>
  The vocabulary every component theory shares: the machine integers and byte strings of
  the Rust sources, results with an error side, the slice operations of the standard
  library with their out-of-range behaviour written out, the little- and big-endian
  encodings of words, and UTF-8 as far as the sources look at it.

  Conventions of the development.
  \<^item> \<open>u8\<close>, \<open>u16\<close>, \<open>u32\<close>, \<open>u64\<close> and \<open>i64\<close> are words of that width; addition wraps as it
    does in the release profile the wheel is built with. Signed values are read with
    \<open>sint\<close>. A \<open>usize\<close> that only ever is the length of a buffer or an index below one is a
    \<open>nat\<close>; a \<open>usize\<close> that is computed from values off the wire, or that the code guards
    against overflow, has its bound written out.
  \<^item> A \<open>Result<T, E>\<close> is a sum \<open>'e + 'a\<close> with the error on the left, an \<open>Option<T>\<close> is an
    \<open>option\<close>; \<open>and_then\<close> is the question mark operator.
  \<^item> A method taking \<open>&mut self\<close> is a function from the old state that returns the new one.
    A type behind a \<open>Mutex\<close> is its contents: every method of the sources takes the lock for
    its whole body, so concurrent calls are sequences of these functions.
\<close>

type_synonym u8 = "8 word"
type_synonym u16 = "16 word"
type_synonym u32 = "32 word"
type_synonym u64 = "64 word"
type_synonym i32 = "32 word"
type_synonym i64 = "64 word"
type_synonym bytes = "u8 list"

named_theorems wire_simps \<open>how byte-level encoders and decoders unfold\<close>
named_theorems result_simps \<open>how results are threaded\<close>

subsection \<open>Results\<close>

fun and_then :: "'e + 'a \<Rightarrow> ('a \<Rightarrow> 'e + 'b) \<Rightarrow> 'e + 'b" where
  "and_then (Inl e) f = Inl e"
| "and_then (Inr a) f = f a"

fun ok_or :: "'e \<Rightarrow> 'a option \<Rightarrow> 'e + 'a" where
  "ok_or e None = Inl e"
| "ok_or e (Some a) = Inr a"

fun is_ok :: "'e + 'a \<Rightarrow> bool" where
  "is_ok (Inl e) = False"
| "is_ok (Inr a) = True"

lemma and_then_Inr_iff [result_simps]:
  "and_then r f = Inr b \<longleftrightarrow> (\<exists>a. r = Inr a \<and> f a = Inr b)"
  by (cases r) auto

lemma and_then_Inl_iff [result_simps]:
  "and_then r f = Inl e \<longleftrightarrow> r = Inl e \<or> (\<exists>a. r = Inr a \<and> f a = Inl e)"
  by (cases r) auto

lemma ok_or_Inr_iff [result_simps, simp]: "ok_or e x = Inr a \<longleftrightarrow> x = Some a"
  by (cases x) auto

lemma ok_or_Inl_iff [result_simps, simp]: "ok_or e x = Inl e' \<longleftrightarrow> x = None \<and> e = e'"
  by (cases x) auto

lemma is_ok_iff: "is_ok r \<longleftrightarrow> (\<exists>a. r = Inr a)"
  by (cases r) auto

subsection \<open>Slices\<close>

text \<open>
  \<open>get_range xs i j\<close> is \<open>xs.get(i..j)\<close>; \<open>get_from xs i\<close> is \<open>xs.get(i..)\<close> and \<open>get_at\<close> is
  \<open>xs.get(i)\<close>: all are \<open>None\<close> out of range. \<open>write_at i ys xs\<close> is
  \<open>xs[i..i + ys.len()].copy_from_slice(ys)\<close>, which the sources only reach in range.
\<close>

definition get_range :: "'a list \<Rightarrow> nat \<Rightarrow> nat \<Rightarrow> 'a list option" where
  "get_range xs i j = (if i \<le> j \<and> j \<le> length xs then Some (take (j - i) (drop i xs)) else None)"

definition get_from :: "'a list \<Rightarrow> nat \<Rightarrow> 'a list option" where
  "get_from xs i = (if i \<le> length xs then Some (drop i xs) else None)"

definition get_at :: "'a list \<Rightarrow> nat \<Rightarrow> 'a option" where
  "get_at xs i = (if i < length xs then Some (xs ! i) else None)"

definition write_at :: "nat \<Rightarrow> 'a list \<Rightarrow> 'a list \<Rightarrow> 'a list" where
  "write_at i ys xs = take i xs @ ys @ drop (i + length ys) xs"

lemma length_write_at [simp]:
  "i + length ys \<le> length xs \<Longrightarrow> length (write_at i ys xs) = length xs"
  by (simp add: write_at_def)

lemma get_range_Some_iff:
  "get_range xs i j = Some ys \<longleftrightarrow> i \<le> j \<and> j \<le> length xs \<and> ys = take (j - i) (drop i xs)"
  by (auto simp: get_range_def)

lemma get_range_append_left:
  "j \<le> length xs \<Longrightarrow> get_range (xs @ ys) i j = get_range xs i j"
  by (auto simp: get_range_def)

lemma length_get_range: "get_range xs i j = Some ys \<Longrightarrow> length ys = j - i"
  by (auto simp: get_range_def split: if_splits)

subsection \<open>Words as byte strings\<close>

primrec of_le_bytes :: "u8 list \<Rightarrow> 'a::len word" where
  "of_le_bytes [] = 0"
| "of_le_bytes (b # bs) = or (ucast b) (push_bit 8 (of_le_bytes bs))"

definition le_bytes :: "nat \<Rightarrow> 'a::len word \<Rightarrow> u8 list" where
  "le_bytes n w = map (\<lambda>i. ucast (drop_bit (8 * i) w)) [0..<n]"

definition of_be_bytes :: "u8 list \<Rightarrow> 'a::len word" where
  "of_be_bytes bs = of_le_bytes (rev bs)"

definition be_bytes :: "nat \<Rightarrow> 'a::len word \<Rightarrow> u8 list" where
  "be_bytes n w = rev (le_bytes n w)"

lemma length_le_bytes [simp]: "length (le_bytes n w) = n"
  by (simp add: le_bytes_def)

lemma length_be_bytes [simp]: "length (be_bytes n w) = n"
  by (simp add: be_bytes_def)

lemma bit_of_le_bytes:
  "bit (of_le_bytes bs :: 'a::len word) k \<longleftrightarrow>
     k < LENGTH('a) \<and> k div 8 < length bs \<and> bit (bs ! (k div 8)) (k mod 8)"
proof (induction bs arbitrary: k)
  case Nil
  then show ?case by simp
next
  case (Cons b bs)
  show ?case
  proof (cases "k < 8")
    case True
    then show ?thesis by (auto simp: bit_simps Cons.IH dest: bit_imp_le_length)
  next
    case False
    then have "k div 8 = Suc ((k - 8) div 8)" "k mod 8 = (k - 8) mod 8"
      by (simp_all add: le_div_geq le_mod_geq)
    moreover have "\<not> bit b k"
      using False bit_imp_le_length [of b k] by auto
    ultimately show ?thesis
      using False by (auto simp: bit_simps Cons.IH)
  qed
qed

lemma of_le_bytes_le_bytes:
  assumes "LENGTH('a) \<le> 8 * n"
  shows "of_le_bytes (le_bytes n w) = (w :: 'a::len word)"
proof (rule bit_word_eqI)
  fix k assume k: "k < LENGTH('a)"
  with assms have "k div 8 < n" by auto
  moreover have "8 * (k div 8) + k mod 8 = k" by simp
  moreover have "k mod 8 < 8" by simp
  ultimately show "bit (of_le_bytes (le_bytes n w) :: 'a word) k \<longleftrightarrow> bit w k"
    using k by (simp add: bit_of_le_bytes le_bytes_def bit_simps)
qed

lemma le_bytes_of_le_bytes:
  assumes "8 * length bs \<le> LENGTH('a)"
  shows "le_bytes (length bs) (of_le_bytes bs :: 'a::len word) = bs"
proof (rule nth_equalityI)
  show "length (le_bytes (length bs) (of_le_bytes bs :: 'a word)) = length bs" by simp
next
  fix i assume "i < length (le_bytes (length bs) (of_le_bytes bs :: 'a word))"
  then have i: "i < length bs" by simp
  show "le_bytes (length bs) (of_le_bytes bs :: 'a word) ! i = bs ! i"
  proof (rule bit_word_eqI)
    fix k :: nat assume "k < LENGTH(8)"
    then have k: "k < 8" by simp
    have idx: "(8 * i + k) div 8 = i" "(8 * i + k) mod 8 = k" using k by auto
    have "8 * i + k < 8 * length bs" using i k by auto
    then have "8 * i + k < LENGTH('a)" using assms by auto
    then show "bit (le_bytes (length bs) (of_le_bytes bs :: 'a word) ! i) k = bit (bs ! i) k"
      using i k by (simp add: le_bytes_def bit_simps bit_of_le_bytes idx)
  qed
qed

lemma of_be_bytes_be_bytes:
  "LENGTH('a) \<le> 8 * n \<Longrightarrow> of_be_bytes (be_bytes n w) = (w :: 'a::len word)"
  by (simp add: of_be_bytes_def be_bytes_def of_le_bytes_le_bytes)

lemma be_bytes_of_be_bytes:
  "8 * length bs \<le> LENGTH('a) \<Longrightarrow> be_bytes (length bs) (of_be_bytes bs :: 'a::len word) = bs"
  using le_bytes_of_le_bytes [of "rev bs", where 'a = 'a]
  by (simp add: of_be_bytes_def be_bytes_def)

subsection \<open>UTF-8\<close>

text \<open>
  A Rust \<open>str\<close> is its UTF-8 bytes; in the model it is a \<open>string\<close> whose \<open>char\<close>s are those
  bytes. \<open>utf8_valid\<close> is the table of well-formed byte sequences that \<open>std::str::from_utf8\<close>
  checks. \<open>utf8_chars\<close> is \<open>str::chars\<close>, each character standing as its own encoding.
\<close>

definition as_bytes :: "string \<Rightarrow> bytes" where
  "as_bytes s = map of_char s"

definition utf8_cont :: "u8 \<Rightarrow> bool" where
  "utf8_cont b \<longleftrightarrow> 0x80 \<le> b \<and> b \<le> 0xBF"

fun utf8_valid :: "bytes \<Rightarrow> bool" where
  "utf8_valid [] = True"
| "utf8_valid (a # as) =
     (if a < 0x80 then utf8_valid as
      else if 0xC2 \<le> a \<and> a \<le> 0xDF then
        (case as of b # bs \<Rightarrow> utf8_cont b \<and> utf8_valid bs | _ \<Rightarrow> False)
      else if 0xE0 \<le> a \<and> a \<le> 0xEF then
        (case as of
           b # c # cs \<Rightarrow>
             (if a = 0xE0 then 0xA0 \<le> b \<and> b \<le> 0xBF
              else if a = 0xED then 0x80 \<le> b \<and> b \<le> 0x9F
              else utf8_cont b) \<and> utf8_cont c \<and> utf8_valid cs
         | _ \<Rightarrow> False)
      else if 0xF0 \<le> a \<and> a \<le> 0xF4 then
        (case as of
           b # c # d # ds \<Rightarrow>
             (if a = 0xF0 then 0x90 \<le> b \<and> b \<le> 0xBF
              else if a = 0xF4 then 0x80 \<le> b \<and> b \<le> 0x8F
              else utf8_cont b) \<and> utf8_cont c \<and> utf8_cont d \<and> utf8_valid ds
         | _ \<Rightarrow> False)
      else False)"

definition from_utf8 :: "bytes \<Rightarrow> string option" where
  "from_utf8 bs = (if utf8_valid bs then Some (map (char_of \<circ> unat) bs) else None)"

lemma length_as_bytes [simp]: "length (as_bytes s) = length s"
  by (simp add: as_bytes_def)

lemma as_bytes_Nil [simp]: "as_bytes [] = []"
  by (simp add: as_bytes_def)

lemma unat_of_char_u8 [simp]: "unat (of_char c :: u8) = of_char c"
proof -
  have "(of_char c :: u8) = of_nat (of_char c)"
    by (simp add: of_nat_of_char)
  moreover have "(of_char c :: nat) < 256"
    by (metis of_char_mod_256 mod_less_divisor zero_less_numeral)
  ultimately show ?thesis
    by (simp add: unat_of_nat)
qed

lemma map_char_of_as_bytes [simp]: "map (char_of \<circ> unat) (as_bytes s) = s"
  by (simp add: as_bytes_def map_idI)

lemma from_utf8_as_bytes: "utf8_valid (as_bytes s) \<Longrightarrow> from_utf8 (as_bytes s) = Some s"
  by (simp add: from_utf8_def del: list.map_comp map_map)

lemma utf8_valid_ascii: "(\<forall>b \<in> set bs. b < 0x80) \<Longrightarrow> utf8_valid bs"
  by (induction bs) auto

text \<open>
  \<open>str::chars\<close>: a lead byte with the continuation bytes after it. \<open>str_trim\<close> is \<open>str::trim\<close>,
  which strips the characters with the Unicode property White\_Space at both ends, and
  \<open>parse_usize\<close> is \<open>str::parse::<usize>\<close> on a 64-bit target.
\<close>

definition char_cont :: "char \<Rightarrow> bool" where
  "char_cont c \<longleftrightarrow> utf8_cont (of_char c)"

function utf8_chars :: "string \<Rightarrow> string list" where
  "utf8_chars [] = []"
| "utf8_chars (c # cs) = (c # takeWhile char_cont cs) # utf8_chars (dropWhile char_cont cs)"
  by pat_completeness auto
termination
  by (relation "measure length") (auto simp: length_dropWhile_le le_imp_less_Suc)

lemma concat_utf8_chars [simp]: "concat (utf8_chars s) = s"
  by (induction s rule: utf8_chars.induct) auto

lemma utf8_chars_eq_Nil_iff [simp]: "utf8_chars s = [] \<longleftrightarrow> s = []"
  by (cases s) auto

text \<open>\<open>[String]::join\<close>.\<close>

fun str_join :: "string \<Rightarrow> string list \<Rightarrow> string" where
  "str_join sep [] = []"
| "str_join sep [x] = x"
| "str_join sep (x # y # ys) = x @ sep @ str_join sep (y # ys)"

definition white_space_chars :: "string list" where
  "white_space_chars = map (map char_of)
     ([[9], [10], [11], [12], [13], [32], [0xC2, 0x85], [0xC2, 0xA0], [0xE1, 0x9A, 0x80],
       [0xE2, 0x80, 0xA8], [0xE2, 0x80, 0xA9], [0xE2, 0x80, 0xAF], [0xE2, 0x81, 0x9F],
       [0xE3, 0x80, 0x80]] @ map (\<lambda>k. [0xE2, 0x80, 0x80 + k]) [0..<11] :: nat list list)"

definition str_trim :: "string \<Rightarrow> string" where
  "str_trim s =
     (let ws = (\<lambda>c. c \<in> set white_space_chars)
      in concat (rev (dropWhile ws (rev (dropWhile ws (utf8_chars s))))))"

definition digit_value :: "char \<Rightarrow> nat option" where
  "digit_value c = (if 48 \<le> (of_char c :: nat) \<and> (of_char c :: nat) \<le> 57
                    then Some (of_char c - 48) else None)"

fun parse_digits :: "nat \<Rightarrow> string \<Rightarrow> nat option" where
  "parse_digits acc [] = Some acc"
| "parse_digits acc (c # cs) =
     (case digit_value c of
        None \<Rightarrow> None
      | Some d \<Rightarrow> if acc * 10 + d < 2 ^ 64 then parse_digits (acc * 10 + d) cs else None)"

definition parse_usize :: "string \<Rightarrow> nat option" where
  "parse_usize s =
     (case s of
        [] \<Rightarrow> None
      | [c] \<Rightarrow> parse_digits 0 [c]
      | c # cs \<Rightarrow> if c = CHR ''+'' then parse_digits 0 cs else parse_digits 0 (c # cs))"

lemma parse_digits_bound: "acc < 2 ^ 64 \<Longrightarrow> parse_digits acc s = Some n \<Longrightarrow> n < 2 ^ 64"
  by (induction acc s rule: parse_digits.induct) (auto split: option.splits if_splits)

lemma parse_usize_bound:
  assumes "parse_usize s = Some n"
  shows "n < 2 ^ 64"
proof -
  from assms obtain t where "parse_digits 0 t = Some n"
    by (auto simp only: parse_usize_def split: list.splits if_splits)
  then show ?thesis by (rule parse_digits_bound [of 0, rotated]) simp
qed

subsection \<open>Decimal numbers\<close>

text \<open>\<open>dec_string\<close> is how an unsigned integer is displayed; parsing it gives it back.\<close>

definition digit_char :: "nat \<Rightarrow> char" where
  "digit_char d = char_of (48 + d)"

function dec_string :: "nat \<Rightarrow> string" where
  "dec_string n = (if n < 10 then [digit_char n] else dec_string (n div 10) @ [digit_char (n mod 10)])"
  by pat_completeness auto
termination
  by (relation "measure id") auto

declare dec_string.simps [simp del]

lemma of_char_digit_char: "d < 10 \<Longrightarrow> (of_char (digit_char d) :: nat) = 48 + d"
  by (simp add: digit_char_def)

lemma digit_value_digit_char [simp]: "d < 10 \<Longrightarrow> digit_value (digit_char d) = Some d"
  by (simp add: digit_value_def of_char_digit_char)

lemma parse_digits_append:
  "parse_digits acc (xs @ ys) = Option.bind (parse_digits acc xs) (\<lambda>a. parse_digits a ys)"
  by (induction acc xs rule: parse_digits.induct) (auto split: option.splits)

lemma parse_digits_dec_string: "n < 2 ^ 64 \<Longrightarrow> parse_digits 0 (dec_string n) = Some n"
proof (induction n rule: dec_string.induct)
  case (1 n)
  show ?case
  proof (cases "n < 10")
    case False
    then have "parse_digits 0 (dec_string (n div 10)) = Some (n div 10)" using 1 by simp
    moreover have "n div 10 * 10 + n mod 10 = n" by simp
    ultimately show ?thesis using False 1(2)
      by (simp add: dec_string.simps [of n] parse_digits_append)
  qed (use 1(2) in \<open>simp add: dec_string.simps [of n]\<close>)
qed

lemma dec_string_digits: "c \<in> set (dec_string n) \<Longrightarrow> \<exists>d < 10. c = digit_char d"
proof (induction n rule: dec_string.induct)
  case (1 n)
  then show ?case
    by (cases "n < 10") (auto simp: dec_string.simps [of n] intro: exI [of _ "n mod 10"])
qed

lemma dec_string_neq_Nil [simp]: "dec_string n \<noteq> []"
  by (simp add: dec_string.simps [of n])

lemma dec_string_not_plus: "CHR ''+'' \<notin> set (dec_string n)"
proof
  assume "CHR ''+'' \<in> set (dec_string n)"
  then obtain d where "d < 10" "CHR ''+'' = digit_char d" using dec_string_digits by blast
  then have "(of_char CHR ''+'' :: nat) = 48 + d" using of_char_digit_char by metis
  then show False by simp
qed

lemma parse_usize_no_plus:
  "s \<noteq> [] \<Longrightarrow> CHR ''+'' \<notin> set s \<Longrightarrow> parse_usize s = parse_digits 0 s"
  by (auto simp only: parse_usize_def list.set split: list.splits if_splits)

lemma parse_usize_dec_string: "n < 2 ^ 64 \<Longrightarrow> parse_usize (dec_string n) = Some n"
  by (simp add: parse_usize_no_plus dec_string_not_plus parse_digits_dec_string)

text \<open>\<open>str::rsplit_once\<close> on a one-byte pattern.\<close>

definition rsplit_once :: "char \<Rightarrow> string \<Rightarrow> (string \<times> string) option" where
  "rsplit_once c s =
     (case dropWhile (\<lambda>d. d \<noteq> c) (rev s) of
        [] \<Rightarrow> None
      | _ # front \<Rightarrow> Some (rev front, rev (takeWhile (\<lambda>d. d \<noteq> c) (rev s))))"

lemma rsplit_once_append: "c \<notin> set t \<Longrightarrow> rsplit_once c (s @ c # t) = Some (s, t)"
  by (simp add: rsplit_once_def takeWhile_append dropWhile_append)

lemma rsplit_once_Some: "rsplit_once c s = Some (a, b) \<Longrightarrow> s = a @ c # b \<and> c \<notin> set b"
proof -
  assume "rsplit_once c s = Some (a, b)"
  then obtain x front where d: "dropWhile (\<lambda>d. d \<noteq> c) (rev s) = x # front"
    and a: "a = rev front" and b: "b = rev (takeWhile (\<lambda>d. d \<noteq> c) (rev s))"
    by (auto simp: rsplit_once_def split: list.splits)
  have "x = c" using d by (metis (mono_tags) dropWhile_eq_Cons_conv)
  moreover have "rev s = takeWhile (\<lambda>d. d \<noteq> c) (rev s) @ x # front"
    using takeWhile_dropWhile_id [of "\<lambda>d. d \<noteq> c" "rev s"] d by simp
  then have "s = a @ x # b" using a b by (metis rev_append rev_rev_ident rev.simps(2) append_assoc append_Cons append_Nil)
  moreover have "c \<notin> set b" using b by (auto dest: set_takeWhileD)
  ultimately show ?thesis by simp
qed

subsection \<open>Hash maps\<close>

text \<open>A hash map is an association list with distinct keys.\<close>

abbreviation distinct_keys :: "('k \<times> 'v) list \<Rightarrow> bool" where
  "distinct_keys m \<equiv> distinct (map fst m)"

declare map_of_eq_Some_iff [simp del] Some_eq_map_of_iff [simp del]

lemma map_of_filter_distinct:
  "distinct_keys m \<Longrightarrow>
     map_of (filter P m) k = (case map_of m k of Some v \<Rightarrow> if P (k, v) then Some v else None | None \<Rightarrow> None)"
proof (induction m)
  case (Cons kv m)
  have "map_of m (fst kv) = None" using Cons.prems by (simp add: map_of_eq_None_iff)
  then show ?case using Cons by (cases kv) (auto split: option.splits)
qed simp

lemma distinct_keys_filter: "distinct_keys m \<Longrightarrow> distinct_keys (filter P m)"
  by (rule distinct_map_filter)

lemmas alist_simps = update_conv' delete_conv'

end
