(* ===== verification/Ipc_Wire.thy ===== *)
theory Ipc_Wire
  imports Prelude
begin

text \<open>
  The frame format every process puts on a channel, from
  \<open>runtime/streamlib-ipc-types/src/lib.rs\<close>: the fixed-width port key, the frame header in
  front of every payload, and the topic key and event payload of the event bus. A header is
  \<open>[port_key: 64][timestamp_ns: 8][len: 4]\<close>, a port key \<open>[len: 1][name: 63]\<close>.

  The lemmas show that writing and reading a header are inverse, that the two readers agree
  on the port, that a length prefix or a stamped length that the buffer does not support is
  refused rather than clamped, and that no two names share a port key.
\<close>

subsection \<open>Port keys\<close>

abbreviation MAX_PORT_KEY_SIZE :: nat where "MAX_PORT_KEY_SIZE \<equiv> 64"
abbreviation MAX_NAME_BYTES :: nat where "MAX_NAME_BYTES \<equiv> 63"
abbreviation MAX_EVENT_PAYLOAD_SIZE :: nat where "MAX_EVENT_PAYLOAD_SIZE \<equiv> 8192"
abbreviation MAX_TOPIC_KEY_SIZE :: nat where "MAX_TOPIC_KEY_SIZE \<equiv> 128"
abbreviation FRAME_HEADER_SIZE :: nat where "FRAME_HEADER_SIZE \<equiv> 76"

datatype port_key_error = TooLong nat nat

record port_key =
  pk_len :: u8
  pk_name :: bytes

definition port_key_default :: port_key where
  "port_key_default = \<lparr>pk_len = 0, pk_name = replicate MAX_NAME_BYTES 0\<rparr>"

definition wire_name_len_prefix_within_capacity :: "u8 \<Rightarrow> u8 option" where
  "wire_name_len_prefix_within_capacity len_prefix =
     (if unat len_prefix \<le> MAX_NAME_BYTES then Some len_prefix else None)"

definition port_key_new :: "string \<Rightarrow> port_key_error + port_key" where
  "port_key_new name =
     (let bytes = as_bytes name in
      if MAX_NAME_BYTES < length bytes then Inl (TooLong (length bytes) MAX_NAME_BYTES)
      else Inr \<lparr>pk_len = of_nat (length bytes),
                pk_name = write_at 0 bytes (replicate MAX_NAME_BYTES 0)\<rparr>)"

text \<open>
  The source slices \<open>name[..len]\<close>, which panics past the field; \<open>port_key_wf\<close> is the
  invariant that rules it out, kept by both constructors.
\<close>

definition port_key_as_str :: "port_key \<Rightarrow> string" where
  "port_key_as_str key =
     (case from_utf8 (take (unat (pk_len key)) (pk_name key)) of Some s \<Rightarrow> s | None \<Rightarrow> [])"

definition port_key_wf :: "port_key \<Rightarrow> bool" where
  "port_key_wf key \<longleftrightarrow> unat (pk_len key) \<le> MAX_NAME_BYTES \<and> length (pk_name key) = MAX_NAME_BYTES"

lemma unat_of_nat_name_len [simp]: "n \<le> MAX_NAME_BYTES \<Longrightarrow> unat (of_nat n :: u8) = n"
  by (simp add: unat_of_nat)

lemma port_key_new_Inr_iff:
  "port_key_new name = Inr key \<longleftrightarrow>
     length name \<le> MAX_NAME_BYTES \<and> pk_len key = of_nat (length name) \<and>
     pk_name key = as_bytes name @ replicate (MAX_NAME_BYTES - length name) 0"
  by (cases key) (auto simp: port_key_new_def Let_def write_at_def)

lemma port_key_new_wf: "port_key_new name = Inr key \<Longrightarrow> port_key_wf key"
  by (auto simp: port_key_new_Inr_iff port_key_wf_def)

lemma port_key_new_as_str:
  "port_key_new name = Inr key \<Longrightarrow> utf8_valid (as_bytes name) \<Longrightarrow> port_key_as_str key = name"
  by (auto simp: port_key_new_Inr_iff port_key_as_str_def from_utf8_as_bytes)

lemma port_key_new_inj:
  assumes "port_key_new a = Inr key" "port_key_new b = Inr key"
  shows "a = b"
proof -
  from assms have len: "length a = length b"
    by (auto simp: port_key_new_Inr_iff) (metis unat_of_nat_name_len)
  with assms have "as_bytes a = as_bytes b"
    by (auto simp: port_key_new_Inr_iff)
  then show ?thesis
    by (metis map_char_of_as_bytes)
qed

subsection \<open>Frame headers\<close>

record frame_header =
  fh_port_key :: port_key
  fh_timestamp_ns :: i64
  fh_len :: u32

definition frame_header_new :: "string \<Rightarrow> i64 \<Rightarrow> u32 \<Rightarrow> port_key_error + frame_header" where
  "frame_header_new port timestamp_ns data_len =
     and_then (port_key_new port) (\<lambda>key.
       Inr \<lparr>fh_port_key = key, fh_timestamp_ns = timestamp_ns, fh_len = data_len\<rparr>)"

text \<open>\<open>None\<close> is the index panic on a buffer shorter than a header.\<close>

definition write_to_slice :: "frame_header \<Rightarrow> bytes \<Rightarrow> bytes option" where
  "write_to_slice hdr buf =
     (if length buf < FRAME_HEADER_SIZE then None
      else
        (let buf = write_at 0 [pk_len (fh_port_key hdr)] buf;
             buf = write_at 1 (pk_name (fh_port_key hdr)) buf;
             t = MAX_PORT_KEY_SIZE;
             buf = write_at t (le_bytes 8 (fh_timestamp_ns hdr)) buf;
             buf = write_at (t + 8) (le_bytes 4 (fh_len hdr)) buf
         in Some buf))"

definition read_from_slice :: "bytes \<Rightarrow> frame_header option" where
  "read_from_slice buf =
     (if length buf < FRAME_HEADER_SIZE then None
      else
        (let len = (case wire_name_len_prefix_within_capacity (buf ! 0) of
                      Some l \<Rightarrow> l | None \<Rightarrow> 0);
             key = \<lparr>pk_len = len, pk_name = take MAX_NAME_BYTES (drop 1 buf)\<rparr>;
             t = MAX_PORT_KEY_SIZE
         in Some \<lparr>fh_port_key = key,
                  fh_timestamp_ns = of_le_bytes (take 8 (drop t buf)),
                  fh_len = of_le_bytes (take 4 (drop (t + 8) buf))\<rparr>))"

definition read_port_from_slice :: "bytes \<Rightarrow> string" where
  "read_port_from_slice buf =
     (case buf of
        [] \<Rightarrow> []
      | len_prefix # _ \<Rightarrow>
          (case wire_name_len_prefix_within_capacity len_prefix of
             None \<Rightarrow> []
           | Some len \<Rightarrow>
               (case Option.bind (get_range buf 1 (1 + unat len)) from_utf8 of
                  Some s \<Rightarrow> s | None \<Rightarrow> [])))"

definition read_payload_from_slice :: "bytes \<Rightarrow> bytes option" where
  "read_payload_from_slice buf =
     Option.bind (get_from buf FRAME_HEADER_SIZE) (\<lambda>body.
       Option.bind (read_from_slice buf) (\<lambda>hdr. get_range body 0 (unat (fh_len hdr))))"

definition frame_header_port :: "frame_header \<Rightarrow> string" where
  "frame_header_port hdr = port_key_as_str (fh_port_key hdr)"

text \<open>What a written buffer looks like: the four fields in order, then the old tail.\<close>

definition frame_header_bytes :: "frame_header \<Rightarrow> bytes" where
  "frame_header_bytes hdr =
     pk_len (fh_port_key hdr) # pk_name (fh_port_key hdr) @
     le_bytes 8 (fh_timestamp_ns hdr) @ le_bytes 4 (fh_len hdr)"

lemma length_frame_header_bytes:
  "port_key_wf (fh_port_key hdr) \<Longrightarrow> length (frame_header_bytes hdr) = FRAME_HEADER_SIZE"
  by (simp add: frame_header_bytes_def port_key_wf_def)

lemma write_at_append_drop:
  "length pre = i \<Longrightarrow> write_at i ys (pre @ drop i buf) = (pre @ ys) @ drop (i + length ys) buf"
  by (simp add: write_at_def add.commute)

lemma write_to_slice_eq:
  assumes wf: "port_key_wf (fh_port_key hdr)" and buf: "FRAME_HEADER_SIZE \<le> length buf"
  shows "write_to_slice hdr buf = Some (frame_header_bytes hdr @ drop FRAME_HEADER_SIZE buf)"
proof -
  let ?k = "fh_port_key hdr"
  have n: "length (pk_name ?k) = 63" using wf by (simp add: port_key_wf_def)
  have "write_at 0 [pk_len ?k] buf = [pk_len ?k] @ drop 1 buf"
    by (simp add: write_at_def)
  then have "write_to_slice hdr buf =
      Some (write_at 72 (le_bytes 4 (fh_len hdr)) (write_at 64 (le_bytes 8 (fh_timestamp_ns hdr))
        (write_at 1 (pk_name ?k) ([pk_len ?k] @ drop 1 buf))))"
    using buf by (simp add: write_to_slice_def Let_def)
  also have "write_at 1 (pk_name ?k) ([pk_len ?k] @ drop 1 buf) =
      ([pk_len ?k] @ pk_name ?k) @ drop 64 buf"
    using write_at_append_drop [of "[pk_len ?k]" 1 "pk_name ?k" buf] by (simp add: n)
  also have "write_at 64 (le_bytes 8 (fh_timestamp_ns hdr)) \<dots> =
      (([pk_len ?k] @ pk_name ?k) @ le_bytes 8 (fh_timestamp_ns hdr)) @ drop 72 buf"
    by (subst write_at_append_drop) (simp_all add: n)
  also have "write_at 72 (le_bytes 4 (fh_len hdr)) \<dots> =
      ((([pk_len ?k] @ pk_name ?k) @ le_bytes 8 (fh_timestamp_ns hdr)) @ le_bytes 4 (fh_len hdr))
        @ drop 76 buf"
    by (subst write_at_append_drop) (simp_all add: n)
  finally show ?thesis by (simp add: frame_header_bytes_def)
qed

lemma read_from_slice_frame_header_bytes:
  assumes wf: "port_key_wf (fh_port_key hdr)"
  shows "read_from_slice (frame_header_bytes hdr @ rest) = Some hdr"
proof -
  have n: "length (pk_name (fh_port_key hdr)) = 63" using wf by (simp add: port_key_wf_def)
  have "wire_name_len_prefix_within_capacity (pk_len (fh_port_key hdr)) =
      Some (pk_len (fh_port_key hdr))"
    using wf by (simp add: port_key_wf_def wire_name_len_prefix_within_capacity_def)
  then show ?thesis
    using length_frame_header_bytes [OF wf]
    by (simp add: read_from_slice_def Let_def frame_header_bytes_def n of_le_bytes_le_bytes)
qed

lemma read_port_from_slice_frame_header_bytes:
  assumes wf: "port_key_wf (fh_port_key hdr)"
  shows "read_port_from_slice (frame_header_bytes hdr @ rest) = frame_header_port hdr"
proof -
  have n: "length (pk_name (fh_port_key hdr)) = 63" and l: "unat (pk_len (fh_port_key hdr)) \<le> 63"
    using wf by (simp_all add: port_key_wf_def)
  then show ?thesis
    by (simp add: read_port_from_slice_def frame_header_bytes_def frame_header_port_def
        wire_name_len_prefix_within_capacity_def get_range_def port_key_as_str_def)
qed

lemma read_from_slice_Some:
  "FRAME_HEADER_SIZE \<le> length buf \<Longrightarrow> \<exists>hdr. read_from_slice buf = Some hdr"
  by (simp add: read_from_slice_def Let_def)

lemma read_from_slice_wf:
  "read_from_slice buf = Some hdr \<Longrightarrow> port_key_wf (fh_port_key hdr)"
  by (auto simp: read_from_slice_def Let_def port_key_wf_def
      wire_name_len_prefix_within_capacity_def split: if_splits)

lemma read_from_slice_port_agrees:
  assumes "read_from_slice buf = Some hdr"
  shows "read_port_from_slice buf = frame_header_port hdr"
proof -
  from assms have len: "76 \<le> length buf" and
    key: "fh_port_key hdr = \<lparr>pk_len = (case wire_name_len_prefix_within_capacity (buf ! 0) of
        Some l \<Rightarrow> l | None \<Rightarrow> 0), pk_name = take 63 (drop 1 buf)\<rparr>"
    by (auto simp: read_from_slice_def Let_def split: if_splits)
  obtain b rest where buf: "buf = b # rest" using len by (cases buf) auto
  show ?thesis
  proof (cases "unat b \<le> 63")
    case True
    with len key show ?thesis
      by (simp add: buf read_port_from_slice_def frame_header_port_def port_key_as_str_def
          wire_name_len_prefix_within_capacity_def get_range_def min_def)
  next
    case False
    with len key show ?thesis
      by (simp add: buf read_port_from_slice_def frame_header_port_def port_key_as_str_def
          wire_name_len_prefix_within_capacity_def from_utf8_def)
  qed
qed

lemma read_payload_from_slice_Some_iff:
  "read_payload_from_slice buf = Some payload \<longleftrightarrow>
     (\<exists>hdr. read_from_slice buf = Some hdr \<and>
        FRAME_HEADER_SIZE + unat (fh_len hdr) \<le> length buf \<and>
        payload = take (unat (fh_len hdr)) (drop FRAME_HEADER_SIZE buf))"
  using read_from_slice_Some [of buf]
  by (auto simp: read_payload_from_slice_def get_from_def get_range_def bind_eq_Some_conv
      read_from_slice_def split: if_splits)

subsection \<open>Event payloads\<close>

text \<open>
  Unlike a port key, a topic key and an event payload truncate what does not fit.
\<close>

record topic_key =
  tk_len :: u8
  tk_name :: bytes

definition topic_key_new :: "string \<Rightarrow> topic_key" where
  "topic_key_new name =
     (let bytes = as_bytes name;
          len = min (length bytes) (MAX_TOPIC_KEY_SIZE - 1)
      in \<lparr>tk_len = of_nat len,
          tk_name = write_at 0 (take len bytes) (replicate (MAX_TOPIC_KEY_SIZE - 1) 0)\<rparr>)"

definition topic_key_as_str :: "topic_key \<Rightarrow> string" where
  "topic_key_as_str key =
     (case from_utf8 (take (unat (tk_len key)) (tk_name key)) of Some s \<Rightarrow> s | None \<Rightarrow> [])"

record event_payload =
  ep_topic_key :: topic_key
  ep_timestamp_ns :: i64
  ep_len :: u32
  ep_data :: bytes

definition event_payload_new :: "string \<Rightarrow> i64 \<Rightarrow> bytes \<Rightarrow> event_payload" where
  "event_payload_new topic timestamp_ns data =
     (let len = min (length data) MAX_EVENT_PAYLOAD_SIZE
      in \<lparr>ep_topic_key = topic_key_new topic, ep_timestamp_ns = timestamp_ns,
          ep_len = of_nat len,
          ep_data = write_at 0 (take len data) (replicate MAX_EVENT_PAYLOAD_SIZE 0)\<rparr>)"

definition event_payload_data :: "event_payload \<Rightarrow> bytes" where
  "event_payload_data p = take (unat (ep_len p)) (ep_data p)"

definition event_payload_topic :: "event_payload \<Rightarrow> string" where
  "event_payload_topic p = topic_key_as_str (ep_topic_key p)"

lemma event_payload_data_new:
  "event_payload_data (event_payload_new topic ts data) = take MAX_EVENT_PAYLOAD_SIZE data"
  by (simp add: event_payload_data_def event_payload_new_def Let_def write_at_def unat_of_nat
      min_def)

lemma event_payload_topic_new:
  assumes "length topic < MAX_TOPIC_KEY_SIZE" "utf8_valid (as_bytes topic)"
  shows "event_payload_topic (event_payload_new topic ts data) = topic"
  using assms
  by (simp add: event_payload_topic_def event_payload_new_def topic_key_as_str_def
      topic_key_new_def Let_def write_at_def unat_of_nat from_utf8_as_bytes min_def)

subsection \<open>Properties\<close>

text \<open>C28: a frame header survives the wire. Writing the header that \<open>FrameHeader::new\<close> builds
  for a valid port name into any buffer long enough for one, and reading that buffer back,
  gives the header again; both readers name the port the author wrote, and the bytes behind
  the header are untouched.\<close>

theorem frame_header_roundtrip:
  assumes "length port \<le> MAX_NAME_BYTES" "utf8_valid (as_bytes port)"
    and "FRAME_HEADER_SIZE \<le> length buf"
  shows "\<exists>hdr out. frame_header_new port ts len = Inr hdr \<and> write_to_slice hdr buf = Some out \<and>
      length out = length buf \<and> read_from_slice out = Some hdr \<and>
      fh_timestamp_ns hdr = ts \<and> fh_len hdr = len \<and>
      frame_header_port hdr = port \<and> read_port_from_slice out = port \<and>
      drop FRAME_HEADER_SIZE out = drop FRAME_HEADER_SIZE buf"
proof -
  from assms(1) obtain key where key: "port_key_new port = Inr key"
    by (auto simp: port_key_new_def Let_def)
  define hdr where "hdr = \<lparr>fh_port_key = key, fh_timestamp_ns = ts, fh_len = len\<rparr>"
  have wf: "port_key_wf (fh_port_key hdr)"
    using key by (simp add: hdr_def port_key_new_wf)
  have port: "frame_header_port hdr = port"
    using key assms(2) by (simp add: hdr_def frame_header_port_def port_key_new_as_str)
  show ?thesis
    using key wf port assms(3) length_frame_header_bytes [OF wf]
    by (intro exI [of _ hdr] exI [of _ "frame_header_bytes hdr @ drop FRAME_HEADER_SIZE buf"])
      (simp add: write_to_slice_eq read_from_slice_frame_header_bytes
        read_port_from_slice_frame_header_bytes frame_header_new_def hdr_def)
qed

theorem frame_header_roundtrip_witness:
  "\<exists>hdr out. frame_header_new ''video_in'' 7 2 = Inr hdr \<and>
      write_to_slice hdr (replicate 78 9) = Some out \<and>
      length out = length (replicate 78 (9::u8)) \<and> read_from_slice out = Some hdr \<and>
      fh_timestamp_ns hdr = 7 \<and> fh_len hdr = 2 \<and>
      frame_header_port hdr = ''video_in'' \<and> read_port_from_slice out = ''video_in'' \<and>
      drop FRAME_HEADER_SIZE out = drop FRAME_HEADER_SIZE (replicate 78 9)"
  by (rule frame_header_roundtrip) (simp_all add: as_bytes_def of_char_def)

text \<open>C29: a payload arrives whole or not at all. Write a header that stamps the length of a payload
  into a loaned slot, with any slack behind the payload: of the first \<open>n\<close> bytes of the slot a
  reader gets exactly the payload when they reach to its end, and nothing when they do not, never a
  shorter message and never a byte of the slack; and a header that stamps more than the slot
  holds reads as nothing.\<close>

theorem payload_arrives_whole_or_not_at_all:
  assumes hdr: "frame_header_new port ts (of_nat (length payload)) = Inr hdr" "length payload < 2 ^ 32"
    and out: "write_to_slice hdr (front @ payload @ slack) = Some out" "length front = FRAME_HEADER_SIZE"
    and long: "frame_header_new port ts len = Inr long_hdr" "length payload + length slack < unat len"
  shows "read_payload_from_slice (take n out) =
      (if FRAME_HEADER_SIZE + length payload \<le> n then Some payload else None) \<and>
    (\<exists>out'. write_to_slice long_hdr (front @ payload @ slack) = Some out' \<and> read_payload_from_slice out' = None)"
proof -
  have wf: "port_key_wf (fh_port_key hdr)" "port_key_wf (fh_port_key long_hdr)"
    using hdr(1) long(1) port_key_new_wf by (auto simp: frame_header_new_def result_simps)
  have len: "fh_len hdr = of_nat (length payload)" "fh_len long_hdr = len"
    using hdr(1) long(1) by (auto simp: frame_header_new_def result_simps)
  have u: "unat (of_nat (length payload) :: u32) = length payload" using hdr(2) by (simp add: unat_of_nat)
  have w: "out = frame_header_bytes hdr @ payload @ slack"
    "write_to_slice long_hdr (front @ payload @ slack) = Some (frame_header_bytes long_hdr @ payload @ slack)"
    using out write_to_slice_eq [OF wf(1)] write_to_slice_eq [OF wf(2)] by simp_all
  note long_read = read_from_slice_frame_header_bytes [OF wf(2)] length_frame_header_bytes [OF wf(2)]
  have "read_payload_from_slice (frame_header_bytes long_hdr @ payload @ slack) \<noteq> Some x" for x
    using long(2) len(2) long_read by (auto simp: read_payload_from_slice_Some_iff)
  then have long_none: "read_payload_from_slice (frame_header_bytes long_hdr @ payload @ slack) = None" by blast
  have "read_payload_from_slice (take n out) =
      (if FRAME_HEADER_SIZE + length payload \<le> n then Some payload else None)"
  proof (cases "FRAME_HEADER_SIZE \<le> n")
    case True
    then have t: "take n out = frame_header_bytes hdr @ take (n - FRAME_HEADER_SIZE) (payload @ slack)"
      using w(1) length_frame_header_bytes [OF wf(1)] by simp
    have "read_payload_from_slice (take n out) = Some x \<longleftrightarrow>
        FRAME_HEADER_SIZE + length payload \<le> n \<and> x = payload" for x
      unfolding t read_payload_from_slice_Some_iff
      using read_from_slice_frame_header_bytes [OF wf(1)] length_frame_header_bytes [OF wf(1)] len(1) u True
      by auto
    then show ?thesis by (cases "read_payload_from_slice (take n out)") auto
  next
    case False
    then have "read_payload_from_slice (take n out) \<noteq> Some x" for x
      by (auto simp: read_payload_from_slice_Some_iff)
    with False show ?thesis by (cases "read_payload_from_slice (take n out)") auto
  qed
  then show ?thesis using w(2) long_none by blast
qed

theorem payload_arrives_whole_or_not_at_all_witness:
  "\<exists>hdr out. frame_header_new ''video'' 1 3 = Inr hdr \<and>
     write_to_slice hdr (replicate 76 0 @ [7, 8, 9] @ [1, 1]) = Some out \<and>
     read_payload_from_slice (take 79 out) = Some [7, 8, 9] \<and> read_payload_from_slice (take 78 out) = None"
proof -
  obtain hdr where hdr: "frame_header_new ''video'' 1 (of_nat (length [7 :: u8, 8, 9])) = Inr hdr"
    by (simp add: frame_header_new_def port_key_new_def)
  obtain long_hdr where long: "frame_header_new ''video'' 1 6 = Inr long_hdr"
    by (simp add: frame_header_new_def port_key_new_def)
  obtain out where out: "write_to_slice hdr (replicate 76 0 @ [7, 8, 9] @ [1, 1]) = Some out"
    by (simp add: write_to_slice_def Let_def)
  note whole = payload_arrives_whole_or_not_at_all [OF hdr _ out _ long]
  have "read_payload_from_slice (take 79 out) = Some [7, 8, 9]" "read_payload_from_slice (take 78 out) = None"
    using whole [of 79] whole [of 78] by simp_all
  then show ?thesis using hdr out by auto
qed

text \<open>C30: a frame can never be delivered to a port it was not stamped for. Whatever prefix of a
  written frame a reader is handed, the port it reads is the stamped one when the name is
  all there and the empty port, which matches no mailbox, when it is not; and a corrupted
  name-length prefix past the capacity of the field reads as the empty port as well, never
  as the full-width name a clamp would produce.\<close>

theorem port_routing_is_exact:
  assumes "frame_header_new port ts len = Inr hdr" "utf8_valid (as_bytes port)"
    and "write_to_slice hdr buf = Some out" "MAX_NAME_BYTES < unat corrupt_prefix"
  shows "read_port_from_slice (take n out) = (if length port < n then port else []) \<and>
    read_port_from_slice (out[0 := corrupt_prefix]) = []"
proof -
  from assms(1) have key: "port_key_new port = Inr (fh_port_key hdr)"
    by (auto simp: frame_header_new_def result_simps)
  then have wf: "port_key_wf (fh_port_key hdr)" by (rule port_key_new_wf)
  from assms(3) have "FRAME_HEADER_SIZE \<le> length buf"
    by (simp add: write_to_slice_def Let_def split: if_splits)
  with wf assms(3) have out: "out = frame_header_bytes hdr @ drop FRAME_HEADER_SIZE buf"
    by (simp add: write_to_slice_eq)
  obtain rest where "out = of_nat (length port) # as_bytes port @ rest" and "length port \<le> 63"
    using key out by (simp add: port_key_new_Inr_iff frame_header_bytes_def)
  with assms(2,4) show ?thesis
    by (cases n) (auto simp: read_port_from_slice_def wire_name_len_prefix_within_capacity_def
        get_range_def from_utf8_as_bytes from_utf8_def)
qed

theorem port_routing_is_exact_witness:
  "\<exists>hdr out. frame_header_new ''audio'' 1 0 = Inr hdr \<and>
     write_to_slice hdr (replicate 76 0) = Some out \<and>
     read_port_from_slice (take 3 out) = [] \<and> read_port_from_slice (take 30 out) = ''audio'' \<and>
     read_port_from_slice (out[0 := 64]) = []"
proof -
  have utf8: "utf8_valid (as_bytes ''audio'')" by (simp add: as_bytes_def of_char_def)
  obtain hdr where hdr: "frame_header_new ''audio'' 1 0 = Inr hdr"
    by (simp add: frame_header_new_def port_key_new_def)
  obtain out where out: "write_to_slice hdr (replicate 76 0) = Some out"
    by (simp add: write_to_slice_def Let_def)
  show ?thesis
    using hdr out port_routing_is_exact [OF hdr utf8 out, of 64 3]
      port_routing_is_exact [OF hdr utf8 out, of 64 30]
    by auto
qed

end
