(* ===== verification/Channel_Egress.thy ===== *)
theory Channel_Egress
  imports Prelude
begin

text \<open>
  What a channel publisher decides before it loans a frame, from
  \<open>runtime/streamlib-ipc-types/src/lib.rs\<close> (\<open>decide_channel_egress_admission\<close> and its
  diagnostics), and the ceiling it decides against, from
  \<open>runtime/streamlib-engine/src/iceoryx2/channel_ceiling.rs\<close>. The publisher's two counters
  are the record \<open>egress\<close>; a publisher's life is a fold of the decision over the sizes of
  its frames.

  The lemmas show that the tracked slot capacity always covers what was admitted, stays
  below twice the ceiling, only grows, and that the quarter-of-ceiling warning is raised at
  most once.
\<close>

datatype channel_trust_tier = Trusted | UntrustedSession

abbreviation TRUSTED_CHANNEL_PAYLOAD_CEILING_BYTES :: nat where
  "TRUSTED_CHANNEL_PAYLOAD_CEILING_BYTES \<equiv> 64 * 1024 * 1024"
abbreviation UNTRUSTED_SESSION_CHANNEL_PAYLOAD_CEILING_BYTES :: nat where
  "UNTRUSTED_SESSION_CHANNEL_PAYLOAD_CEILING_BYTES \<equiv> 16 * 1024 * 1024"

fun default_ceiling_bytes :: "channel_trust_tier \<Rightarrow> nat" where
  "default_ceiling_bytes Trusted = TRUSTED_CHANNEL_PAYLOAD_CEILING_BYTES"
| "default_ceiling_bytes UntrustedSession = UNTRUSTED_SESSION_CHANNEL_PAYLOAD_CEILING_BYTES"

fun trust_tier_as_str :: "channel_trust_tier \<Rightarrow> string" where
  "trust_tier_as_str Trusted = ''trusted''"
| "trust_tier_as_str UntrustedSession = ''untrusted-session''"

subsection \<open>The effective ceiling\<close>

text \<open>
  \<open>env\<close> is \<open>std::env::var\<close>, \<open>None\<close> for a variable that is unset or not UTF-8. The warning
  the source logs for an unusable value is not part of the result.
\<close>

definition effective_channel_ceiling_bytes ::
    "(string \<Rightarrow> string option) \<Rightarrow> channel_trust_tier \<Rightarrow> nat" where
  "effective_channel_ceiling_bytes env trust_tier =
     (let env_key = (case trust_tier of
            Trusted \<Rightarrow> ''STREAMLIB_MAX_PAYLOAD_BYTES_PER_CHANNEL_TRUSTED''
          | UntrustedSession \<Rightarrow> ''STREAMLIB_MAX_PAYLOAD_BYTES_PER_CHANNEL_UNTRUSTED_SESSION'');
          default_bytes = default_ceiling_bytes trust_tier
      in case env env_key of
           None \<Rightarrow> default_bytes
         | Some raw \<Rightarrow>
             (case parse_usize (str_trim raw) of
                Some bytes \<Rightarrow> if 0 < bytes then bytes else default_bytes
              | None \<Rightarrow> default_bytes))"

lemma effective_channel_ceiling_bytes_bounds:
  "0 < effective_channel_ceiling_bytes env tier \<and> effective_channel_ceiling_bytes env tier < 2 ^ 64"
  by (cases tier)
    (auto simp: effective_channel_ceiling_bytes_def Let_def dest: parse_usize_bound
      split: option.splits)

subsection \<open>Powers of two\<close>

text \<open>
  \<open>usize::next_power_of_two\<close>: the least power of two not below the argument, and 0 when
  that is \<open>2 ^ 64\<close> (the release profile's wrap).
\<close>

function power_of_two_from :: "nat \<Rightarrow> nat \<Rightarrow> nat" where
  "power_of_two_from p n = (if p < n \<and> 0 < p then power_of_two_from (2 * p) n else p)"
  by pat_completeness auto
termination
  by (relation "measure (\<lambda>(p, n). n - p)") auto

declare power_of_two_from.simps [simp del]

definition next_power_of_two :: "nat \<Rightarrow> nat" where
  "next_power_of_two n = power_of_two_from 1 n mod 2 ^ 64"

lemma power_of_two_from_props:
  assumes "0 < p"
  shows "n \<le> power_of_two_from p n \<and> p \<le> power_of_two_from p n \<and>
    (p < n \<longrightarrow> power_of_two_from p n < 2 * n) \<and> (\<exists>k. power_of_two_from p n = 2 ^ k * p)"
  using assms
proof (induction p n rule: power_of_two_from.induct)
  case (1 p n)
  show ?case
  proof (cases "p < n")
    case True
    with 1 have IH: "n \<le> power_of_two_from (2 * p) n" "2 * p \<le> power_of_two_from (2 * p) n"
      "2 * p < n \<longrightarrow> power_of_two_from (2 * p) n < 2 * n"
      "\<exists>k. power_of_two_from (2 * p) n = 2 ^ k * (2 * p)"
      by auto
    have eq: "power_of_two_from p n = power_of_two_from (2 * p) n"
      using True 1(2) by (simp add: power_of_two_from.simps [of p n])
    have "power_of_two_from (2 * p) n < 2 * n"
      using IH True by (cases "2 * p < n") (auto simp: power_of_two_from.simps [of "2 * p" n])
    moreover from IH(4) obtain k where k: "power_of_two_from (2 * p) n = 2 ^ k * (2 * p)" by blast
    moreover from k have "power_of_two_from (2 * p) n = 2 ^ Suc k * p" by simp
    then have "\<exists>k. power_of_two_from (2 * p) n = 2 ^ k * p" by blast
    ultimately show ?thesis using IH(1,2) unfolding eq by auto
  next
    case False
    then show ?thesis
      by (auto simp: power_of_two_from.simps [of p n] intro: exI [of _ 0])
  qed
qed

lemma next_power_of_two_props:
  assumes "0 < n" "n \<le> 2 ^ 63"
  shows "n \<le> next_power_of_two n" "next_power_of_two n < 2 * n" "\<exists>k. next_power_of_two n = 2 ^ k"
proof -
  from power_of_two_from_props [of 1 n] have P: "n \<le> power_of_two_from 1 n"
    "\<exists>k. power_of_two_from 1 n = 2 ^ k" "1 < n \<longrightarrow> power_of_two_from 1 n < 2 * n"
    by auto
  moreover have lt: "power_of_two_from 1 n < 2 * n"
    using P assms(1) power_of_two_from.simps [of 1 n] by (cases "1 < n") auto
  moreover have "power_of_two_from 1 n < 2 ^ 64"
    using lt assms(2) by simp
  ultimately show "n \<le> next_power_of_two n" "next_power_of_two n < 2 * n"
    "\<exists>k. next_power_of_two n = 2 ^ k"
    by (simp_all add: next_power_of_two_def)
qed

subsection \<open>The admission decision\<close>

record channel_segment_growth =
  old_segment_bytes :: nat
  new_segment_bytes :: nat
  crossed_quarter_ceiling :: bool

datatype channel_egress_admission =
  RefusedOverCeiling (refused_count: u64)
| Admitted (grew_to: "channel_segment_growth option")

record egress =
  refused_over_ceiling_count :: u64
  current_slot_capacity_bytes :: nat

definition decide_channel_egress_admission ::
    "nat \<Rightarrow> nat \<Rightarrow> egress \<Rightarrow> channel_egress_admission \<times> egress" where
  "decide_channel_egress_admission frame_total_bytes channel_ceiling_bytes st =
     (if channel_ceiling_bytes < frame_total_bytes then
        (let st = st\<lparr>refused_over_ceiling_count := refused_over_ceiling_count st + 1\<rparr>
         in (RefusedOverCeiling (refused_over_ceiling_count st), st))
      else if current_slot_capacity_bytes st < frame_total_bytes then
        (let old = current_slot_capacity_bytes st;
             new = next_power_of_two frame_total_bytes;
             quarter_ceiling_bytes = channel_ceiling_bytes div 4
         in (Admitted (Some \<lparr>old_segment_bytes = old, new_segment_bytes = new,
               crossed_quarter_ceiling =
                 (quarter_ceiling_bytes < new \<and> old \<le> quarter_ceiling_bytes)\<rparr>),
             st\<lparr>current_slot_capacity_bytes := new\<rparr>))
      else (Admitted None, st))"

datatype log_level = Info | Warn

record egress_log_line =
  ell_level :: log_level
  ell_prefix :: string
  ell_channel :: string
  ell_tier :: string
  ell_numbers :: "nat list"

text \<open>
  The log lines of \<open>emit_channel_egress_admission_tracing\<close> with their fields, in the order
  the source writes the numeric ones; the fixed message texts are left out.
\<close>

definition emit_channel_egress_admission_tracing ::
    "(string \<times> string) option \<Rightarrow> channel_trust_tier \<Rightarrow> string \<Rightarrow> nat \<Rightarrow> nat \<Rightarrow>
     channel_egress_admission \<Rightarrow> egress_log_line list" where
  "emit_channel_egress_admission_tracing log_prefix trust_tier channel_service_name
       channel_ceiling_bytes payload_total_bytes admission =
     (let prefix = (case log_prefix of
            Some (runtime_tag, processor_id) \<Rightarrow>
              ''['' @ runtime_tag @ '':'' @ processor_id @ ''] ''
          | None \<Rightarrow> []);
          line = (\<lambda>level ns. \<lparr>ell_level = level, ell_prefix = prefix,
            ell_channel = channel_service_name, ell_tier = trust_tier_as_str trust_tier,
            ell_numbers = ns\<rparr>)
      in case admission of
           RefusedOverCeiling refused \<Rightarrow>
             [line Warn [payload_total_bytes, channel_ceiling_bytes, unat refused]]
         | Admitted None \<Rightarrow> []
         | Admitted (Some growth) \<Rightarrow>
             line Info [old_segment_bytes growth, new_segment_bytes growth] #
             (if crossed_quarter_ceiling growth
              then [line Warn [new_segment_bytes growth, channel_ceiling_bytes]] else []))"

text \<open>A publisher's life: the decision folded over the sizes of the frames it is handed.\<close>

fun egress_run :: "nat \<Rightarrow> egress \<Rightarrow> nat list \<Rightarrow> channel_egress_admission list \<times> egress" where
  "egress_run ceiling st [] = ([], st)"
| "egress_run ceiling st (f # fs) =
     (let (a, st1) = decide_channel_egress_admission f ceiling st;
          (as, st2) = egress_run ceiling st1 fs
      in (a # as, st2))"

definition warns_quarter :: "channel_egress_admission \<Rightarrow> bool" where
  "warns_quarter a \<longleftrightarrow> (\<exists>g. a = Admitted (Some g) \<and> crossed_quarter_ceiling g)"

lemma decide_cases:
  obtains (refused) "ceiling < f" "decide_channel_egress_admission f ceiling st =
      (RefusedOverCeiling (refused_over_ceiling_count st + 1),
       st\<lparr>refused_over_ceiling_count := refused_over_ceiling_count st + 1\<rparr>)"
  | (grew) "f \<le> ceiling" "current_slot_capacity_bytes st < f"
      "decide_channel_egress_admission f ceiling st =
        (Admitted (Some \<lparr>old_segment_bytes = current_slot_capacity_bytes st,
           new_segment_bytes = next_power_of_two f,
           crossed_quarter_ceiling = (ceiling div 4 < next_power_of_two f \<and>
             current_slot_capacity_bytes st \<le> ceiling div 4)\<rparr>),
         st\<lparr>current_slot_capacity_bytes := next_power_of_two f\<rparr>)"
  | (fits) "f \<le> ceiling" "f \<le> current_slot_capacity_bytes st"
      "decide_channel_egress_admission f ceiling st = (Admitted None, st)"
proof (cases "ceiling < f")
  case True
  then show ?thesis by (intro refused) (simp_all add: decide_channel_egress_admission_def Let_def)
next
  case False
  then show ?thesis
    by (cases "current_slot_capacity_bytes st < f")
      (auto simp: decide_channel_egress_admission_def Let_def intro: grew fits)
qed

lemma decide_capacity:
  assumes "ceiling \<le> 2 ^ 63" "decide_channel_egress_admission f ceiling st = (a, st')"
  shows "current_slot_capacity_bytes st \<le> current_slot_capacity_bytes st'"
    and "f \<le> ceiling \<Longrightarrow> f \<le> current_slot_capacity_bytes st'"
    and "current_slot_capacity_bytes st' \<le> max (current_slot_capacity_bytes st) (2 * ceiling)"
    and "refused_over_ceiling_count st' =
      refused_over_ceiling_count st + (if ceiling < f then 1 else 0)"
    and "warns_quarter a \<longleftrightarrow> current_slot_capacity_bytes st \<le> ceiling div 4 \<and>
      ceiling div 4 < current_slot_capacity_bytes st'"
proof -
  have grown: "f \<le> next_power_of_two f" "next_power_of_two f \<le> 2 * ceiling"
    if "f \<le> ceiling" "current_slot_capacity_bytes st < f"
    using next_power_of_two_props [of f] assms(1) that by auto
  show "current_slot_capacity_bytes st \<le> current_slot_capacity_bytes st'"
    and "f \<le> ceiling \<Longrightarrow> f \<le> current_slot_capacity_bytes st'"
    and "current_slot_capacity_bytes st' \<le> max (current_slot_capacity_bytes st) (2 * ceiling)"
    and "refused_over_ceiling_count st' =
      refused_over_ceiling_count st + (if ceiling < f then 1 else 0)"
    and "warns_quarter a \<longleftrightarrow> current_slot_capacity_bytes st \<le> ceiling div 4 \<and>
      ceiling div 4 < current_slot_capacity_bytes st'"
    using assms(2) grown by (cases rule: decide_cases [of ceiling f st]; auto simp: warns_quarter_def)+
qed

lemma egress_run_contract:
  assumes "ceiling \<le> 2 ^ 63" "egress_run ceiling st fs = (as, st')"
  shows "length as = length fs \<and>
    refused_over_ceiling_count st' =
      refused_over_ceiling_count st + of_nat (length (filter ((<) ceiling) fs)) \<and>
    current_slot_capacity_bytes st \<le> current_slot_capacity_bytes st' \<and>
    (\<forall>f \<in> set fs. f \<le> ceiling \<longrightarrow> f \<le> current_slot_capacity_bytes st') \<and>
    current_slot_capacity_bytes st' \<le> max (current_slot_capacity_bytes st) (2 * ceiling) \<and>
    length (filter warns_quarter as) =
      (if current_slot_capacity_bytes st \<le> ceiling div 4 \<and>
          ceiling div 4 < current_slot_capacity_bytes st' then 1 else 0)"
  using assms(2)
proof (induction fs arbitrary: st as)
  case Nil
  then show ?case by simp
next
  case (Cons f fs)
  obtain a st1 where d: "decide_channel_egress_admission f ceiling st = (a, st1)" by fastforce
  obtain as2 where r: "egress_run ceiling st1 fs = (as2, st')" and as: "as = a # as2"
    using Cons.prems d by (auto split: prod.splits)
  note D = decide_capacity [OF assms(1) d] and I = Cons.IH [OF r]
  show ?case
    using D I unfolding as by (auto simp: max_def split: if_splits)
qed

subsection \<open>The capacity at every moment\<close>

text \<open>
  A power of two that covers \<open>n\<close> and is less than twice \<open>n\<close>: there is only one. The capacity a
  publisher should have after the frames \<open>fs\<close> is the one it started with while that is enough,
  and otherwise the power of two that covers the largest frame admitted so far.
\<close>

definition covering_power :: "nat \<Rightarrow> nat \<Rightarrow> bool" where
  "covering_power p n \<longleftrightarrow> (\<exists>k. p = 2 ^ k) \<and> n \<le> p \<and> p < 2 * n"

definition largest_admitted :: "nat \<Rightarrow> nat list \<Rightarrow> nat" where
  "largest_admitted ceiling fs = fold max (filter (\<lambda>f. f \<le> ceiling) fs) 0"

definition due_capacity :: "nat \<Rightarrow> nat \<Rightarrow> nat list \<Rightarrow> nat \<Rightarrow> bool" where
  "due_capacity ceiling primed fs c \<longleftrightarrow>
     (if largest_admitted ceiling fs \<le> primed then c = primed
      else covering_power c (largest_admitted ceiling fs))"

lemma largest_admitted_snoc:
  "largest_admitted ceiling (fs @ [f]) =
     (if f \<le> ceiling then max f (largest_admitted ceiling fs) else largest_admitted ceiling fs)"
  by (simp add: largest_admitted_def)

lemma largest_admitted_Nil [simp]: "largest_admitted ceiling [] = 0"
  by (simp add: largest_admitted_def)

lemma due_capacity_step:
  assumes "ceiling \<le> 2 ^ 63" "due_capacity ceiling primed fs (current_slot_capacity_bytes st)"
    "decide_channel_egress_admission f ceiling st = (a, st')"
  shows "due_capacity ceiling primed (fs @ [f]) (current_slot_capacity_bytes st')"
proof (cases rule: decide_cases [of ceiling f st])
  case refused
  then show ?thesis using assms(2,3) by (auto simp: due_capacity_def largest_admitted_snoc)
next
  case fits
  then show ?thesis using assms(2,3)
    by (auto simp: due_capacity_def largest_admitted_snoc covering_power_def split: if_splits)
next
  case grew
  then have "covering_power (next_power_of_two f) f"
    using next_power_of_two_props [of f] assms(1) by (auto simp: covering_power_def)
  moreover have "largest_admitted ceiling fs < f" "primed < f"
    using grew(2) assms(2) by (auto simp: due_capacity_def covering_power_def split: if_splits)
  ultimately show ?thesis using grew assms(3) by (auto simp: due_capacity_def largest_admitted_snoc)
qed

lemma egress_run_append:
  "egress_run ceiling st (xs @ ys) =
     (fst (egress_run ceiling st xs) @ fst (egress_run ceiling (snd (egress_run ceiling st xs)) ys),
      snd (egress_run ceiling (snd (egress_run ceiling st xs)) ys))"
  by (induction xs arbitrary: st) (simp_all add: split_def Let_def)

lemma length_egress_run [simp]: "length (fst (egress_run ceiling st fs)) = length fs"
  by (induction fs arbitrary: st) (simp_all add: split_def Let_def)

lemma egress_run_due_capacity:
  assumes "ceiling \<le> 2 ^ 63"
  shows "due_capacity ceiling (current_slot_capacity_bytes st) fs
    (current_slot_capacity_bytes (snd (egress_run ceiling st fs)))"
proof (induction fs rule: rev_induct)
  case Nil
  then show ?case by (simp add: due_capacity_def)
next
  case (snoc f fs)
  then show ?case using due_capacity_step [OF assms snoc, of f]
    by (cases "decide_channel_egress_admission f ceiling (snd (egress_run ceiling st fs))")
      (simp add: egress_run_append)
qed

lemma egress_run_at:
  fixes ceiling :: nat and st :: egress
  assumes "i < length fs" and before_def: "before = snd (egress_run ceiling st (take i fs))"
  shows "fst (egress_run ceiling st fs) ! i = fst (decide_channel_egress_admission (fs ! i) ceiling before)"
    and "snd (egress_run ceiling st (take (Suc i) fs)) = snd (decide_channel_egress_admission (fs ! i) ceiling before)"
proof -
  have fs: "fs = take i fs @ fs ! i # drop (Suc i) fs" by (rule id_take_nth_drop [OF assms(1)])
  show "fst (egress_run ceiling st fs) ! i = fst (decide_channel_egress_admission (fs ! i) ceiling before)"
    by (subst fs, subst egress_run_append)
      (use assms(1) in \<open>simp add: nth_append before_def split_def Let_def\<close>)
  show "snd (egress_run ceiling st (take (Suc i) fs)) = snd (decide_channel_egress_admission (fs ! i) ceiling before)"
    using assms(1) by (simp add: take_Suc_conv_app_nth egress_run_append before_def split_def Let_def)
qed

subsection \<open>Properties\<close>

text \<open>C31: what a channel publisher answers to every frame of any sequence, for a ceiling of at most
  \<open>2 ^ 63\<close> bytes (above it the next power of two may not exist). A frame is refused exactly when it
  is above the ceiling, with the number refused so far. Otherwise it fits the slot capacity at that
  moment: the one the publisher was primed with as long as that covers every frame admitted so far,
  and from then on the power of two that covers the largest of them and is less than twice as
  large. A growth is reported exactly when the capacity changes, from what it was to what it is; the
  quarter-of-ceiling warning is raised with the growth that crosses that line, so once in a run that
  crosses it and never otherwise; and the capacity never exceeds twice the ceiling or its primed
  value.\<close>

theorem egress_admission_over_a_run:
  assumes c: "ceiling \<le> 2 ^ 63" and run: "egress_run ceiling st fs = (as, st')"
  shows "\<exists>capacity. capacity (length fs) = current_slot_capacity_bytes st' \<and>
    (\<forall>i \<le> length fs. due_capacity ceiling (current_slot_capacity_bytes st) (take i fs) (capacity i)) \<and>
    length as = length fs \<and>
    (\<forall>i < length fs. as ! i =
       (if ceiling < fs ! i
        then RefusedOverCeiling (refused_over_ceiling_count st + of_nat (length (filter ((<) ceiling) (take (Suc i) fs))))
        else if capacity (Suc i) = capacity i then Admitted None
        else Admitted (Some \<lparr>old_segment_bytes = capacity i, new_segment_bytes = capacity (Suc i),
               crossed_quarter_ceiling = (capacity i \<le> ceiling div 4 \<and> ceiling div 4 < capacity (Suc i))\<rparr>))) \<and>
    (\<forall>i < length fs. fs ! i \<le> ceiling \<longrightarrow> fs ! i \<le> capacity (Suc i)) \<and>
    refused_over_ceiling_count st' =
      refused_over_ceiling_count st + of_nat (length (filter ((<) ceiling) fs)) \<and>
    current_slot_capacity_bytes st' \<le> max (current_slot_capacity_bytes st) (2 * ceiling) \<and>
    length (filter warns_quarter as) =
      (if current_slot_capacity_bytes st \<le> ceiling div 4 \<and>
          ceiling div 4 < current_slot_capacity_bytes st' then 1 else 0)"
proof -
  define state where "state i = snd (egress_run ceiling st (take i fs))" for i
  define capacity where "capacity i = current_slot_capacity_bytes (state i)" for i
  have as: "as = fst (egress_run ceiling st fs)" and st': "st' = state (length fs)"
    using run by (simp_all add: state_def)
  have due: "due_capacity ceiling (current_slot_capacity_bytes st) (take i fs) (capacity i)" for i
    unfolding capacity_def state_def by (rule egress_run_due_capacity [OF c])
  have refused_by: "refused_over_ceiling_count (state i) =
      refused_over_ceiling_count st + of_nat (length (filter ((<) ceiling) (take i fs)))" for i
    using egress_run_contract [OF c prod.collapse [symmetric], of st "take i fs"] by (simp add: state_def)
  have at: "as ! i = (if ceiling < fs ! i
        then RefusedOverCeiling (refused_over_ceiling_count st + of_nat (length (filter ((<) ceiling) (take (Suc i) fs))))
        else if capacity (Suc i) = capacity i then Admitted None
        else Admitted (Some \<lparr>old_segment_bytes = capacity i, new_segment_bytes = capacity (Suc i),
               crossed_quarter_ceiling = (capacity i \<le> ceiling div 4 \<and> ceiling div 4 < capacity (Suc i))\<rparr>))
      \<and> (fs ! i \<le> ceiling \<longrightarrow> fs ! i \<le> capacity (Suc i))" if i: "i < length fs" for i
  proof -
    have a: "as ! i = fst (decide_channel_egress_admission (fs ! i) ceiling (state i))"
      "state (Suc i) = snd (decide_channel_egress_admission (fs ! i) ceiling (state i))"
      using egress_run_at [OF i refl, of ceiling st] by (simp_all add: as state_def)
    have grows: "fs ! i \<le> next_power_of_two (fs ! i)" if "fs ! i \<le> ceiling" "capacity i < fs ! i"
      using next_power_of_two_props(1) [of "fs ! i"] that c by simp
    show ?thesis
    proof (cases rule: decide_cases [of ceiling "fs ! i" "state i"])
      case refused
      then show ?thesis using a refused_by [of "Suc i"] by simp
    next
      case grew
      then show ?thesis using a grows by (auto simp: capacity_def)
    next
      case fits
      then show ?thesis using a by (simp add: capacity_def)
    qed
  qed
  have "length as = length fs" by (simp add: as)
  moreover have "capacity (length fs) = current_slot_capacity_bytes st'" by (simp add: capacity_def st')
  ultimately show ?thesis using due at egress_run_contract [OF c run] by (intro exI [of _ capacity]) simp
qed

theorem egress_admission_over_a_run_witness:
  "\<exists>as st'. egress_run 100 \<lparr>refused_over_ceiling_count = 0, current_slot_capacity_bytes = 16\<rparr>
       [10, 101, 40, 60] = (as, st') \<and>
     length as = 4 \<and> as ! 1 = RefusedOverCeiling 1 \<and>
     refused_over_ceiling_count st' = 1 \<and> current_slot_capacity_bytes st' = 64 \<and>
     length (filter warns_quarter as) = 1"
proof -
  let ?st = "\<lparr>refused_over_ceiling_count = 0, current_slot_capacity_bytes = 16\<rparr>"
  obtain as st' where r: "egress_run 100 ?st [10, 101, 40, 60] = (as, st')" by fastforce
  have "next_power_of_two 40 = 64" by (simp add: next_power_of_two_def power_of_two_from.simps)
  then have c: "current_slot_capacity_bytes st' = 64"
    using r by (auto simp: decide_channel_egress_admission_def Let_def)
  have "(100 :: nat) \<le> 2 ^ 63" by simp
  from egress_admission_over_a_run [OF this r]
  have "length as = 4 \<and> as ! 1 = RefusedOverCeiling 1 \<and> refused_over_ceiling_count st' = 1 \<and>
      length (filter warns_quarter as) = 1"
    by (elim exE conjE) (drule spec [of _ 1], drule spec [of _ 1], simp add: c)
  then show ?thesis using r c by blast
qed

end
