(* ===== verification/Channel_Name.thy ===== *)
theory Channel_Name
  imports Ipc_Wire
begin

text \<open>
  The channel-name grammar of \<open>iceoryx2/channel_name.rs\<close>: validation of an explicit name,
  the deterministic name of a source output port, and the hash that shortens an over-long
  processor chunk. Errors are the four variants of the engine's error type the file raises.
\<close>

datatype channel_name_error =
  EmptyChannelName
| ChannelNameMustStartWithLowercase string
| InvalidChannelNameCharacter (name: string) (character: string)
| ChannelNameTooLong (name: string) (len: nat) (max_len: nat)

abbreviation MAX_CHANNEL_NAME_BYTES :: nat where
  "MAX_CHANNEL_NAME_BYTES \<equiv> MAX_NAME_BYTES"

abbreviation CHANNEL_CHUNK_SEPARATOR :: char where
  "CHANNEL_CHUNK_SEPARATOR \<equiv> CHR ''/''"

abbreviation CHANNEL_NAME_HASH_SUFFIX_HEX_LEN :: nat where
  "CHANNEL_NAME_HASH_SUFFIX_HEX_LEN \<equiv> 12"

subsection \<open>The grammar\<close>

text \<open>
  \<open>lower_byte\<close> is \<open>'a'..='z'\<close> and \<open>chunk_byte\<close> the chunk charset on a byte; a character of
  the source is the string of its UTF-8 bytes, so a multi-byte character is in neither.
\<close>

definition lower_byte :: "char \<Rightarrow> bool" where
  "lower_byte c \<longleftrightarrow> 97 \<le> (of_char c :: nat) \<and> (of_char c :: nat) \<le> 122"

definition chunk_byte :: "char \<Rightarrow> bool" where
  "chunk_byte c \<longleftrightarrow> lower_byte c \<or> 48 \<le> (of_char c :: nat) \<and> (of_char c :: nat) \<le> 57
     \<or> c = CHR ''-'' \<or> c = CHR ''_''"

definition is_ascii_lowercase :: "string \<Rightarrow> bool" where
  "is_ascii_lowercase c \<longleftrightarrow> (case c of [b] \<Rightarrow> lower_byte b | _ \<Rightarrow> False)"

definition is_channel_chunk_character :: "string \<Rightarrow> bool" where
  "is_channel_chunk_character c \<longleftrightarrow> (case c of [b] \<Rightarrow> chunk_byte b | _ \<Rightarrow> False)"

definition validate_channel_chunk_charset :: "string \<Rightarrow> channel_name_error + unit" where
  "validate_channel_chunk_charset s =
     (case utf8_chars s of
        [] \<Rightarrow> Inl EmptyChannelName
      | first # chars \<Rightarrow>
          if \<not> is_ascii_lowercase first then Inl (ChannelNameMustStartWithLowercase s)
          else (case find (\<lambda>c. \<not> is_channel_chunk_character c) chars of
                  Some c \<Rightarrow> Inl (InvalidChannelNameCharacter s c)
                | None \<Rightarrow> Inr ()))"

text \<open>\<open>str::split\<close> on a one-byte separator: always at least one piece.\<close>

fun split_on :: "char \<Rightarrow> string \<Rightarrow> string list" where
  "split_on d [] = [[]]"
| "split_on d (c # cs) =
     (if c = d then [] # split_on d cs
      else (case split_on d cs of [] \<Rightarrow> [[c]] | p # ps \<Rightarrow> (c # p) # ps))"

fun validate_each_chunk :: "string list \<Rightarrow> channel_name_error + unit" where
  "validate_each_chunk [] = Inr ()"
| "validate_each_chunk (c # cs) =
     and_then (validate_channel_chunk_charset c) (\<lambda>_. validate_each_chunk cs)"

definition validate_channel_chunks :: "string \<Rightarrow> channel_name_error + unit" where
  "validate_channel_chunks s =
     (if s = [] then Inl EmptyChannelName
      else validate_each_chunk (split_on CHANNEL_CHUNK_SEPARATOR s))"

definition validate_channel_name :: "string \<Rightarrow> channel_name_error + unit" where
  "validate_channel_name s =
     (if MAX_CHANNEL_NAME_BYTES < length s
      then Inl (ChannelNameTooLong s (length s) MAX_CHANNEL_NAME_BYTES)
      else validate_channel_chunks s)"

type_synonym channel_name = string

definition channel_name_new :: "string \<Rightarrow> channel_name_error + channel_name" where
  "channel_name_new s = and_then (validate_channel_name s) (\<lambda>_. Inr s)"

subsection \<open>The name of a source output port\<close>

definition byte_to_ascii_lowercase :: "char \<Rightarrow> char" where
  "byte_to_ascii_lowercase c =
     (if 65 \<le> (of_char c :: nat) \<and> (of_char c :: nat) \<le> 90 then char_of ((of_char c :: nat) + 32) else c)"

definition to_ascii_lowercase :: "string \<Rightarrow> string" where
  "to_ascii_lowercase s = map byte_to_ascii_lowercase s"

definition fnv1a_64 :: "bytes \<Rightarrow> u64" where
  "fnv1a_64 bs = fold (\<lambda>b hash. xor hash (ucast b) * 0x100000001b3) bs 0xcbf29ce484222325"

definition hex_digit :: "u64 \<Rightarrow> char" where
  "hex_digit n = ''0123456789abcdef'' ! unat (and n 15)"

definition format_016x :: "u64 \<Rightarrow> string" where
  "format_016x w = map (\<lambda>i. hex_digit (drop_bit (4 * (15 - i)) w)) [0..<16]"

definition is_char_boundary :: "string \<Rightarrow> nat \<Rightarrow> bool" where
  "is_char_boundary s i \<longleftrightarrow> i = 0 \<or> i = length s \<or> i < length s \<and> \<not> char_cont (s ! i)"

fun cut_to_char_boundary :: "string \<Rightarrow> nat \<Rightarrow> nat" where
  "cut_to_char_boundary s 0 = 0"
| "cut_to_char_boundary s (Suc k) =
     (if is_char_boundary s (Suc k) then Suc k else cut_to_char_boundary s k)"

definition hash_legalize_chunk :: "string \<Rightarrow> nat \<Rightarrow> string" where
  "hash_legalize_chunk chunk budget =
     (if length chunk \<le> budget then chunk
      else
        (let hash = fnv1a_64 (as_bytes chunk);
             suffix = format_016x hash;
             suffix = drop (length suffix - CHANNEL_NAME_HASH_SUFFIX_HEX_LEN) suffix;
             prefix_budget = budget - 1 - CHANNEL_NAME_HASH_SUFFIX_HEX_LEN;
             k = cut_to_char_boundary chunk (min prefix_budget (length chunk))
         in take k chunk @ ''-'' @ suffix))"

definition source_channel_name :: "string \<Rightarrow> string \<Rightarrow> channel_name_error + channel_name" where
  "source_channel_name source_processor source_output =
     (let processor = to_ascii_lowercase source_processor
      in and_then (validate_channel_chunk_charset processor) (\<lambda>_.
         and_then (validate_channel_chunk_charset source_output) (\<lambda>_.
           if length processor + 1 + length source_output \<le> MAX_CHANNEL_NAME_BYTES
           then Inr (processor @ [CHANNEL_CHUNK_SEPARATOR] @ source_output)
           else if 1 + length source_output \<le> MAX_CHANNEL_NAME_BYTES \<and>
                   CHANNEL_NAME_HASH_SUFFIX_HEX_LEN + 1
                     \<le> MAX_CHANNEL_NAME_BYTES - (1 + length source_output)
           then Inr (hash_legalize_chunk processor
                       (MAX_CHANNEL_NAME_BYTES - (1 + length source_output))
                     @ [CHANNEL_CHUNK_SEPARATOR] @ source_output)
           else Inl (ChannelNameTooLong source_output (length source_output)
                       (MAX_CHANNEL_NAME_BYTES - 1 - (CHANNEL_NAME_HASH_SUFFIX_HEX_LEN + 1))))))"

text \<open>A destination names an inbound link by the channel name it subscribed to.\<close>

datatype inbound_link_name = InboundLinkName (link_name_as_str: string)

subsection \<open>What validation accepts\<close>

definition chunk_ok :: "string \<Rightarrow> bool" where
  "chunk_ok s \<longleftrightarrow> (case s of [] \<Rightarrow> False | c # cs \<Rightarrow> lower_byte c \<and> (\<forall>d \<in> set cs. chunk_byte d))"

lemma is_channel_chunk_character_iff:
  "is_channel_chunk_character c \<longleftrightarrow> (\<exists>b. c = [b] \<and> chunk_byte b)"
  by (auto simp: is_channel_chunk_character_def split: list.splits)

lemma chunk_byte_not_cont: "chunk_byte c \<Longrightarrow> \<not> char_cont c"
proof -
  assume "chunk_byte c"
  then have "(of_char c :: nat) < 128" by (auto simp: chunk_byte_def lower_byte_def)
  then show ?thesis by (simp add: char_cont_def utf8_cont_def word_le_nat_alt)
qed

lemma lower_byte_chunk_byte: "lower_byte c \<Longrightarrow> chunk_byte c"
  by (simp add: chunk_byte_def)

lemma separator_not_chunk_byte [simp]: "\<not> chunk_byte CHR ''/''"
  by (simp add: chunk_byte_def lower_byte_def)

lemma hyphen_not_lower [simp]: "\<not> lower_byte CHR ''-''"
  by (simp add: lower_byte_def)

lemma chunk_ok_bytes: "chunk_ok s \<Longrightarrow> c \<in> set s \<Longrightarrow> chunk_byte c"
  by (auto simp: chunk_ok_def lower_byte_chunk_byte split: list.splits)

lemma utf8_chars_singletons:
  "(\<forall>c \<in> set (tl s). \<not> char_cont c) \<Longrightarrow> utf8_chars s = map (\<lambda>c. [c]) s"
proof (induction s rule: utf8_chars.induct)
  case (2 c cs)
  then have "takeWhile char_cont cs = []" "dropWhile char_cont cs = cs"
    by (cases cs; simp)+
  with 2 show ?case by (cases cs) auto
qed simp

lemma validate_channel_chunk_charset_iff:
  "validate_channel_chunk_charset s = Inr () \<longleftrightarrow> chunk_ok s"
proof
  assume "chunk_ok s"
  then obtain c cs where s: "s = c # cs" and c: "lower_byte c" and cs: "\<forall>d \<in> set cs. chunk_byte d"
    by (auto simp: chunk_ok_def split: list.splits)
  then have "utf8_chars s = map (\<lambda>c. [c]) s"
    by (intro utf8_chars_singletons) (auto simp: chunk_byte_not_cont)
  with s c cs show "validate_channel_chunk_charset s = Inr ()"
    by (auto simp: validate_channel_chunk_charset_def is_ascii_lowercase_def
        is_channel_chunk_character_def find_None_iff split: option.splits)
next
  assume A: "validate_channel_chunk_charset s = Inr ()"
  then obtain f chars where u: "utf8_chars s = f # chars" and f: "is_ascii_lowercase f"
    and ch: "\<forall>c \<in> set chars. is_channel_chunk_character c"
    by (auto simp: validate_channel_chunk_charset_def find_None_iff
        split: list.splits if_splits option.splits)
  from f obtain b where b: "f = [b]" "lower_byte b"
    by (auto simp: is_ascii_lowercase_def split: list.splits)
  have s: "s = b # concat chars" using concat_utf8_chars [of s] u b by simp
  have "\<forall>d \<in> set (concat chars). chunk_byte d"
    using ch by (auto simp: is_channel_chunk_character_iff)
  with s b show "chunk_ok s" by (simp add: chunk_ok_def)
qed

lemma validate_each_chunk_iff: "validate_each_chunk cs = Inr () \<longleftrightarrow> (\<forall>c \<in> set cs. chunk_ok c)"
  by (induction cs)
     (auto simp: and_then_Inr_iff validate_channel_chunk_charset_iff)

lemma split_on_neq_Nil [simp]: "split_on d s \<noteq> []"
  by (induction s) (auto split: list.splits)

lemma split_on_none: "d \<notin> set s \<Longrightarrow> split_on d s = [s]"
  by (induction s) auto

lemma split_on_append: "d \<notin> set s \<Longrightarrow> split_on d (s @ d # t) = s # split_on d t"
  by (induction s) auto

lemma validate_channel_name_iff:
  "validate_channel_name s = Inr () \<longleftrightarrow>
     length s \<le> 63 \<and> (\<forall>c \<in> set (split_on CHR ''/'' s). chunk_ok c)"
  by (auto simp: validate_channel_name_def validate_channel_chunks_def validate_each_chunk_iff
      chunk_ok_def)

subsection \<open>The generated name\<close>

lemma hex_digit_chunk_byte: "chunk_byte (hex_digit n)"
proof -
  have "unat (and n 15) < 16"
    using word_and_le1 [of n 15] by (simp add: word_le_nat_alt)
  then have "hex_digit n \<in> set ''0123456789abcdef''"
    unfolding hex_digit_def by (intro nth_mem) simp
  moreover have "\<forall>c \<in> set ''0123456789abcdef''. chunk_byte c"
    by (simp add: chunk_byte_def lower_byte_def)
  ultimately show ?thesis by blast
qed

lemma length_format_016x [simp]: "length (format_016x w) = 16"
  by (simp add: format_016x_def)

lemma format_016x_chunk_bytes: "c \<in> set (format_016x w) \<Longrightarrow> chunk_byte c"
  by (auto simp: format_016x_def hex_digit_chunk_byte)

lemma cut_to_char_boundary_ascii:
  assumes "\<forall>c \<in> set s. \<not> char_cont c" "k \<le> length s"
  shows "cut_to_char_boundary s k = k"
  using assms by (cases k) (auto simp: is_char_boundary_def)

lemma hash_legalize_chunk_eq:
  assumes "chunk_ok p" "budget < length p" "13 \<le> budget"
  shows "\<exists>suffix. hash_legalize_chunk p budget = take (budget - 13) p @ CHR ''-'' # suffix
     \<and> length suffix = 12 \<and> (\<forall>c \<in> set suffix. chunk_byte c)"
proof -
  have "\<forall>c \<in> set p. \<not> char_cont c"
    using assms(1) chunk_byte_not_cont chunk_ok_bytes by blast
  then have "cut_to_char_boundary p (budget - 13) = budget - 13"
    using assms by (intro cut_to_char_boundary_ascii) auto
  moreover have "min (budget - 13) (length p) = budget - 13" using assms by simp
  ultimately have "hash_legalize_chunk p budget =
      take (budget - 13) p @ CHR ''-'' # drop 4 (format_016x (fnv1a_64 (as_bytes p)))"
    using assms by (simp add: hash_legalize_chunk_def Let_def)
  moreover have "\<forall>c \<in> set (drop 4 (format_016x (fnv1a_64 (as_bytes p)))). chunk_byte c"
    by (meson format_016x_chunk_bytes in_set_dropD)
  ultimately show ?thesis by fastforce
qed

lemma chunk_ok_hash_legalized:
  assumes "chunk_ok p" "budget < length p" "13 \<le> budget"
  shows "chunk_ok (hash_legalize_chunk p budget) \<longleftrightarrow> 13 < budget"
    and "CHR ''/'' \<notin> set (hash_legalize_chunk p budget)"
    and "length (hash_legalize_chunk p budget) = budget"
proof -
  from hash_legalize_chunk_eq [OF assms] obtain suffix where
    eq: "hash_legalize_chunk p budget = take (budget - 13) p @ CHR ''-'' # suffix"
    and len: "length suffix = 12" and cs: "\<forall>c \<in> set suffix. chunk_byte c" by blast
  obtain c q where p: "p = c # q" using assms(1) by (cases p) (auto simp: chunk_ok_def)
  show "chunk_ok (hash_legalize_chunk p budget) \<longleftrightarrow> 13 < budget"
  proof (cases "budget = 13")
    case True
    then show ?thesis using eq by (simp add: chunk_ok_def)
  next
    case False
    with assms(3) obtain k where "budget - 13 = Suc k" by (metis Suc_diff_Suc le_neq_implies_less)
    with eq p have "hash_legalize_chunk p budget = c # take k q @ CHR ''-'' # suffix" by simp
    moreover have "\<forall>d \<in> set (take k q). chunk_byte d" and "lower_byte c"
      using assms(1) p by (auto simp: chunk_ok_def dest: in_set_takeD)
    ultimately have "chunk_ok (hash_legalize_chunk p budget)"
      using cs by (auto simp: chunk_ok_def chunk_byte_def)
    then show ?thesis using False assms(3) by simp
  qed
  show "CHR ''/'' \<notin> set (hash_legalize_chunk p budget)"
    using eq cs chunk_ok_bytes [OF assms(1), of "CHR ''/''"] by (auto dest!: in_set_takeD)
  show "length (hash_legalize_chunk p budget) = budget"
    using eq len assms by simp
qed

lemma length_to_ascii_lowercase [simp]: "length (to_ascii_lowercase s) = length s"
  by (simp add: to_ascii_lowercase_def)

text \<open>The shape of every generated name: a processor chunk without a separator, the
  separator, and the author's port name unchanged.\<close>

lemma source_channel_name_shape:
  assumes "source_channel_name p out = Inr n"
  shows "\<exists>chunk. n = chunk @ CHR ''/'' # out \<and> CHR ''/'' \<notin> set chunk \<and> chunk_ok out
     \<and> length n \<le> 63
     \<and> (chunk_ok chunk \<longleftrightarrow> \<not> (length out = 49 \<and> 13 < length p))
     \<and> (length p + 1 + length out \<le> 63 \<longrightarrow> chunk = to_ascii_lowercase p)"
proof -
  let ?p = "to_ascii_lowercase p" and ?b = "63 - (1 + length out)"
  from assms have ok: "chunk_ok ?p" "chunk_ok out"
    by (auto simp: source_channel_name_def Let_def and_then_Inr_iff
        validate_channel_chunk_charset_iff)
  show ?thesis
  proof (cases "length p + 1 + length out \<le> 63")
    case True
    with assms ok have "n = ?p @ CHR ''/'' # out"
      by (auto simp: source_channel_name_def Let_def and_then_Inr_iff)
    moreover have "CHR ''/'' \<notin> set ?p" using chunk_ok_bytes [OF ok(1)] by force
    ultimately show ?thesis using True ok by auto
  next
    case False
    with assms ok have n: "n = hash_legalize_chunk ?p ?b @ CHR ''/'' # out" and b: "13 \<le> ?b"
      by (auto simp: source_channel_name_def Let_def and_then_Inr_iff split: if_splits)
    have lt: "?b < length ?p" using False b by simp
    note H = chunk_ok_hash_legalized [OF ok(1) lt b]
    have "length n \<le> 63" using n H(3) b by simp
    moreover have "13 < ?b \<longleftrightarrow> \<not> (length out = 49 \<and> 13 < length p)" using lt b by auto
    ultimately show ?thesis using n H ok False by (intro exI [of _ "hash_legalize_chunk ?p ?b"]) auto
  qed
qed

subsection \<open>Properties\<close>

text \<open>C27: the name derived for a source output port. Whenever \<open>source_channel_name\<close> returns a
  name it fits the port key, ends in the separator and the author's port name unchanged, and
  has no other separator. It satisfies the channel grammar in every case but one: a port name
  of exactly 49 bytes behind a processor id of more than 13 leaves no byte for the readable
  prefix, and the generated chunk then starts with the hyphen before the hash.\<close>

theorem source_channel_name_contract:
  assumes "source_channel_name p out = Inr n"
  shows "length n \<le> 63 \<and> split_on CHR ''/'' n = [take (length n - length out - 1) n, out] \<and>
    (validate_channel_name n = Inr () \<longleftrightarrow> \<not> (length out = 49 \<and> 13 < length p))"
proof -
  from source_channel_name_shape [OF assms] obtain chunk where
    n: "n = chunk @ CHR ''/'' # out" and sep: "CHR ''/'' \<notin> set chunk" and out: "chunk_ok out"
    and len: "length n \<le> 63"
    and ok: "chunk_ok chunk \<longleftrightarrow> \<not> (length out = 49 \<and> 13 < length p)"
    by blast
  have "CHR ''/'' \<notin> set out" using chunk_ok_bytes [OF out] by force
  then have "split_on CHR ''/'' n = [chunk, out]"
    using n sep by (simp add: split_on_append split_on_none)
  with n len ok out show ?thesis by (simp add: validate_channel_name_iff)
qed

theorem source_channel_name_contract_witness:
  "\<exists>n. source_channel_name ''Pck2k9w8v0000xyz'' (replicate 49 CHR ''a'') = Inr n \<and>
     length n \<le> 63 \<and> validate_channel_name n \<noteq> Inr ()"
proof -
  let ?o = "replicate 49 CHR ''a''" and ?p = "''Pck2k9w8v0000xyz''"
  have "is_ok (source_channel_name ?p ?o)" by code_simp
  then obtain n where n: "source_channel_name ?p ?o = Inr n" by (auto simp: is_ok_iff)
  from source_channel_name_contract [OF n] have "length n \<le> 63"
    "validate_channel_name n = Inr () \<longleftrightarrow> \<not> (length ?o = 49 \<and> 13 < length ?p)" by blast+
  with n show ?thesis by auto
qed

text \<open>C26: distinct source output ports do not share a channel. Two ports with the same channel
  name have the same port name, whatever their processor ids; and when both joined names fit
  without shortening, the processor ids are the same up to ASCII case, which is all the
  derivation normalises.\<close>

theorem source_channel_name_injective:
  assumes "source_channel_name p1 out1 = Inr n" "source_channel_name p2 out2 = Inr n"
  shows "out1 = out2 \<and>
    (length p1 + 1 + length out1 \<le> 63 \<and> length p2 + 1 + length out2 \<le> 63 \<longrightarrow>
      to_ascii_lowercase p1 = to_ascii_lowercase p2)"
proof -
  from source_channel_name_shape [OF assms(1)] source_channel_name_shape [OF assms(2)]
  obtain c1 c2 where 1: "n = c1 @ CHR ''/'' # out1" "CHR ''/'' \<notin> set c1" "chunk_ok out1"
      "length p1 + 1 + length out1 \<le> 63 \<longrightarrow> c1 = to_ascii_lowercase p1"
    and 2: "n = c2 @ CHR ''/'' # out2" "CHR ''/'' \<notin> set c2" "chunk_ok out2"
      "length p2 + 1 + length out2 \<le> 63 \<longrightarrow> c2 = to_ascii_lowercase p2"
    by blast
  have "CHR ''/'' \<notin> set out1" "CHR ''/'' \<notin> set out2"
    using chunk_ok_bytes [OF 1(3)] chunk_ok_bytes [OF 2(3)] by force+
  with 1 2 have "[c1, out1] = [c2, out2]"
    by (metis split_on_append split_on_none)
  with 1 2 show ?thesis by auto
qed

theorem source_channel_name_injective_witness:
  "source_channel_name ''Pcam'' ''video_out'' = Inr ''pcam/video_out'' \<and>
   source_channel_name ''pCAM'' ''video_out'' = Inr ''pcam/video_out'' \<and>
   to_ascii_lowercase ''Pcam'' = to_ascii_lowercase ''pCAM''"
proof -
  have 1: "source_channel_name ''Pcam'' ''video_out'' = Inr ''pcam/video_out''" by code_simp
  have 2: "source_channel_name ''pCAM'' ''video_out'' = Inr ''pcam/video_out''" by code_simp
  from source_channel_name_injective [OF 1 2] 1 2 show ?thesis by simp
qed

end
