(* ===== verification/Mailbox.thy ===== *)
theory Mailbox
  imports Channel_Name
begin

text \<open>
  The consumer side of a channel: the delivery profile an input port declares
  (\<open>iceoryx2/delivery_profile.rs\<close>, \<open>read_mode.rs\<close>), the per-link eviction counters
  (\<open>dropped_bag_counters.rs\<close>) and the per-port mailbox (\<open>mailbox.rs\<close>) with its running
  measure total.

  The mailbox stands on crossbeam's \<open>ArrayQueue\<close>, which is not part of the repository: its
  operations are the argument \<open>aq\<close> of every mailbox operation and the locale
  \<open>bounded_queue\<close> states what its documentation promises. The mailbox operations are one
  step each; every caller in \<open>input.rs\<close> holds the port table's lock around them.
\<close>

subsection \<open>Delivery profiles\<close>

datatype read_mode = SkipToLatest | ReadNextInOrder

fun read_mode_as_manifest_str :: "read_mode \<Rightarrow> string" where
  "read_mode_as_manifest_str SkipToLatest = ''skip_to_latest''"
| "read_mode_as_manifest_str ReadNextInOrder = ''read_next_in_order''"

datatype delivery_profile = Newest | Ordered

record delivery_resolution =
  drain_order :: read_mode
  depth :: nat

fun delivery_resolve :: "delivery_profile \<Rightarrow> delivery_resolution" where
  "delivery_resolve Newest = \<lparr>drain_order = SkipToLatest, depth = 4\<rparr>"
| "delivery_resolve Ordered = \<lparr>drain_order = ReadNextInOrder, depth = 16\<rparr>"

definition render_delivery_profile_values :: "string" where
  "render_delivery_profile_values =
     str_join '', '' (map (\<lambda>v. [CHR 0x27] @ v @ [CHR 0x27]) [''newest'', ''ordered''])"

definition delivery_profile_from_manifest_str :: "string \<Rightarrow> string + delivery_profile" where
  "delivery_profile_from_manifest_str value =
     (if value = ''newest'' then Inr Newest
      else if value = ''ordered'' then Inr Ordered
      else Inl (''unknown delivery_profile value '' @ [CHR 0x27] @ value @ [CHR 0x27] @
                '', expected one of '' @ render_delivery_profile_values))"

fun delivery_profile_as_manifest_str :: "delivery_profile \<Rightarrow> string" where
  "delivery_profile_as_manifest_str Newest = ''newest''"
| "delivery_profile_as_manifest_str Ordered = ''ordered''"

record port_descriptor =
  port_name :: string
  port_delivery_profile :: "string option"

text \<open>\<open>port_info\<close> is the processor registry's lookup of a class's input and output ports.\<close>

definition delivery_profile_for_input_port ::
    "(string \<Rightarrow> (port_descriptor list \<times> port_descriptor list) option) \<Rightarrow> string \<Rightarrow> string \<Rightarrow>
      string + delivery_profile" where
  "delivery_profile_for_input_port port_info processor_type pname =
     (case port_info processor_type of
        None \<Rightarrow> Inr Newest
      | Some (inputs, outputs) \<Rightarrow>
          (case find (\<lambda>p. port_name p = pname) inputs of
             None \<Rightarrow> Inr Newest
           | Some port \<Rightarrow>
               (case port_delivery_profile port of
                  None \<Rightarrow> Inl (''input port '' @ [CHR 0x27] @ pname @ [CHR 0x27] @ '' on '' @
                    [CHR 0x27] @ processor_type @ [CHR 0x27] @
                    '' declares no delivery_profile. Every input port must declare one '' @
                    map char_of [0xE2, 0x80, 0x94 :: nat] @ '' '' @ render_delivery_profile_values @
                    ''. There is no default: channel policy is declared port-locally at the consuming input port'')
                | Some declared \<Rightarrow>
                    (case delivery_profile_from_manifest_str declared of
                       Inr profile \<Rightarrow> Inr profile
                     | Inl err \<Rightarrow> Inl (''input port '' @ [CHR 0x27] @ pname @ [CHR 0x27] @ '' on '' @
                         [CHR 0x27] @ processor_type @ [CHR 0x27] @ '' declared '' @ err)))))"

subsection \<open>Eviction counters\<close>

text \<open>
  A counter is shared between the port table and every queued frame of its link, so it is a
  handle into a store of counts; cloning copies the handle. The hash map from link ids to
  counters is an association list with distinct keys.
\<close>

type_synonym counter = nat
type_synonym counts = "u64 list"

definition record_one_dropped_bag :: "counter \<Rightarrow> counts \<Rightarrow> counts" where
  "record_one_dropped_bag c cs = cs[c := cs ! c + 1]"

definition dropped_bag_count :: "counter \<Rightarrow> counts \<Rightarrow> u64" where
  "dropped_bag_count c cs = cs ! c"

type_synonym dropped_bag_counts_by_inbound_link = "(string \<times> counter) list"

definition counter_for_inbound_link ::
    "string \<Rightarrow> dropped_bag_counts_by_inbound_link \<times> counts \<Rightarrow>
      counter \<times> dropped_bag_counts_by_inbound_link \<times> counts" where
  "counter_for_inbound_link link = (\<lambda>(per_link, cs).
     (case map_of per_link link of
        Some c \<Rightarrow> (c, per_link, cs)
      | None \<Rightarrow> (length cs, (link, length cs) # per_link, cs @ [0])))"

definition forget_inbound_link ::
    "string \<Rightarrow> dropped_bag_counts_by_inbound_link \<Rightarrow> dropped_bag_counts_by_inbound_link" where
  "forget_inbound_link link per_link = filter (\<lambda>(l, c). l \<noteq> link) per_link"

definition dropped_bag_count_snapshot_by_inbound_link ::
    "dropped_bag_counts_by_inbound_link \<Rightarrow> counts \<Rightarrow> (string \<rightharpoonup> u64)" where
  "dropped_bag_count_snapshot_by_inbound_link per_link cs =
     map_of (map (\<lambda>(l, c). (l, dropped_bag_count c cs)) per_link)"

definition total_dropped_bag_count :: "dropped_bag_counts_by_inbound_link \<Rightarrow> counts \<Rightarrow> u64" where
  "total_dropped_bag_count per_link cs = sum_list (map (\<lambda>(l, c). dropped_bag_count c cs) per_link)"

subsection \<open>The mailbox\<close>

text \<open>
  \<open>queue_ops\<close> is the part of \<open>ArrayQueue\<close> the mailbox calls. \<open>aq_push\<close> hands the element
  back on the left when the queue refuses it. An eviction notice is an effect on the state
  \<open>'w\<close> of whatever installed it.
\<close>

record ('q, 'a) queue_ops =
  aq_new :: "nat \<Rightarrow> 'q"
  aq_push :: "'q \<Rightarrow> 'a \<Rightarrow> 'a + 'q"
  aq_pop :: "'q \<Rightarrow> ('a \<times> 'q) option"
  aq_is_empty :: "'q \<Rightarrow> bool"
  aq_len :: "'q \<Rightarrow> nat"

record queued_frame =
  payload :: bytes
  dropped_bag_counter :: "counter option"
  inbound_link :: "inbound_link_name option"
  frame_measure :: u64

record delivered_bag =
  bag_payload :: bytes
  bag_inbound_link_name :: "inbound_link_name option"

definition delivered_of_frame :: "queued_frame \<Rightarrow> delivered_bag" where
  "delivered_of_frame f = \<lparr>bag_payload = payload f, bag_inbound_link_name = inbound_link f\<rparr>"

definition record_eviction :: "queued_frame \<Rightarrow> counts \<Rightarrow> counts" where
  "record_eviction f cs =
     (case dropped_bag_counter f of Some c \<Rightarrow> record_one_dropped_bag c cs | None \<Rightarrow> cs)"

record ('q, 'w) port_mailbox =
  queue :: 'q
  mb_capacity :: nat
  measure_fn :: "(bytes \<Rightarrow> u64) option"
  measure_total :: u64
  eviction_notice :: "('w \<Rightarrow> 'w) option"

type_synonym ('q, 'w) mailbox_state = "('q, 'w) port_mailbox \<times> counts \<times> 'w"

definition mailbox_new :: "('q, queued_frame) queue_ops \<Rightarrow> nat \<Rightarrow> ('q, 'w) port_mailbox" where
  "mailbox_new aq history =
     (let capacity = max history 1
      in \<lparr>queue = aq_new aq capacity, mb_capacity = capacity, measure_fn = None,
          measure_total = 0, eviction_notice = None\<rparr>)"

definition measuring_every_queued_frame_with ::
    "(bytes \<Rightarrow> u64) \<Rightarrow> ('q, 'w) port_mailbox \<Rightarrow> ('q, 'w) port_mailbox" where
  "measuring_every_queued_frame_with f mb = mb\<lparr>measure_fn := Some f\<rparr>"

definition reporting_every_eviction_to ::
    "('w \<Rightarrow> 'w) \<Rightarrow> ('q, 'w) port_mailbox \<Rightarrow> ('q, 'w) port_mailbox" where
  "reporting_every_eviction_to notice mb = mb\<lparr>eviction_notice := Some notice\<rparr>"

definition saturating_sub :: "u64 \<Rightarrow> u64 \<Rightarrow> u64" where
  "saturating_sub a b = (if b \<le> a then a - b else 0)"

definition take_out_of_the_total ::
    "queued_frame \<Rightarrow> ('q, 'w) port_mailbox \<Rightarrow> ('q, 'w) port_mailbox" where
  "take_out_of_the_total frame mb =
     (if frame_measure frame \<noteq> 0
      then mb\<lparr>measure_total := saturating_sub (measure_total mb) (frame_measure frame)\<rparr>
      else mb)"

definition measure_of :: "('q, 'w) port_mailbox \<Rightarrow> bytes \<Rightarrow> u64" where
  "measure_of mb p = (case measure_fn mb of Some f \<Rightarrow> f p | None \<Rightarrow> 0)"

definition evict_oldest ::
    "('q, queued_frame) queue_ops \<Rightarrow> ('q, 'w) mailbox_state \<Rightarrow> ('q, 'w) mailbox_state" where
  "evict_oldest aq = (\<lambda>(mb, cs, w).
     (case aq_pop aq (queue mb) of
        None \<Rightarrow> (mb, cs, w)
      | Some (evicted, q) \<Rightarrow>
          (take_out_of_the_total evicted (mb\<lparr>queue := q\<rparr>), record_eviction evicted cs,
           case eviction_notice mb of Some notice \<Rightarrow> notice w | None \<Rightarrow> w)))"

partial_function (option) push_frame ::
    "('q, queued_frame) queue_ops \<Rightarrow> queued_frame \<Rightarrow> ('q, 'w) mailbox_state \<Rightarrow>
      ('q, 'w) mailbox_state option" where
  "push_frame aq frame st =
     (case aq_push aq (queue (fst st)) frame of
        Inr q \<Rightarrow>
          (let mb = (fst st)\<lparr>queue := q\<rparr>
           in Some (if frame_measure frame \<noteq> 0
                    then mb\<lparr>measure_total := measure_total mb + frame_measure frame\<rparr> else mb,
                    snd st))
      | Inl rejected \<Rightarrow> push_frame aq rejected (evict_oldest aq st))"

definition push_frame_from_inbound_link ::
    "('q, queued_frame) queue_ops \<Rightarrow> bytes \<Rightarrow> counter \<Rightarrow> inbound_link_name \<Rightarrow>
      ('q, 'w) mailbox_state \<Rightarrow> ('q, 'w) mailbox_state option" where
  "push_frame_from_inbound_link aq p c link st =
     push_frame aq \<lparr>payload = p, dropped_bag_counter = Some c, inbound_link = Some link,
                    frame_measure = measure_of (fst st) p\<rparr> st"

definition push_frame_without_inbound_link_attribution ::
    "('q, queued_frame) queue_ops \<Rightarrow> bytes \<Rightarrow> ('q, 'w) mailbox_state \<Rightarrow>
      ('q, 'w) mailbox_state option" where
  "push_frame_without_inbound_link_attribution aq p st =
     push_frame aq \<lparr>payload = p, dropped_bag_counter = None, inbound_link = None,
                    frame_measure = measure_of (fst st) p\<rparr> st"

definition pop_frame ::
    "('q, queued_frame) queue_ops \<Rightarrow> ('q, 'w) port_mailbox \<Rightarrow>
      (queued_frame \<times> ('q, 'w) port_mailbox) option" where
  "pop_frame aq mb =
     (case aq_pop aq (queue mb) of
        None \<Rightarrow> None
      | Some (frame, q) \<Rightarrow> Some (frame, take_out_of_the_total frame (mb\<lparr>queue := q\<rparr>)))"

definition mailbox_pop ::
    "('q, queued_frame) queue_ops \<Rightarrow> ('q, 'w) port_mailbox \<Rightarrow>
      delivered_bag option \<times> ('q, 'w) port_mailbox" where
  "mailbox_pop aq mb =
     (case pop_frame aq mb of
        None \<Rightarrow> (None, mb)
      | Some (frame, mb) \<Rightarrow> (Some (delivered_of_frame frame), mb))"

partial_function (option) pop_latest_loop ::
    "('q, queued_frame) queue_ops \<Rightarrow> delivered_bag option \<Rightarrow> ('q, 'w) port_mailbox \<Rightarrow>
      (delivered_bag option \<times> ('q, 'w) port_mailbox) option" where
  "pop_latest_loop aq latest mb =
     (case pop_frame aq mb of
        None \<Rightarrow> Some (latest, mb)
      | Some r \<Rightarrow> pop_latest_loop aq (Some (delivered_of_frame (fst r))) (snd r))"

definition pop_latest ::
    "('q, queued_frame) queue_ops \<Rightarrow> ('q, 'w) port_mailbox \<Rightarrow>
      (delivered_bag option \<times> ('q, 'w) port_mailbox) option" where
  "pop_latest aq mb = pop_latest_loop aq None mb"

definition mailbox_is_empty :: "('q, queued_frame) queue_ops \<Rightarrow> ('q, 'w) port_mailbox \<Rightarrow> bool" where
  "mailbox_is_empty aq mb = aq_is_empty aq (queue mb)"

definition mailbox_len :: "('q, queued_frame) queue_ops \<Rightarrow> ('q, 'w) port_mailbox \<Rightarrow> nat" where
  "mailbox_len aq mb = aq_len aq (queue mb)"

partial_function (option) mailbox_drain ::
    "('q, queued_frame) queue_ops \<Rightarrow> bytes list \<Rightarrow> ('q, 'w) port_mailbox \<Rightarrow>
      (bytes list \<times> ('q, 'w) port_mailbox) option" where
  "mailbox_drain aq acc mb =
     (case mailbox_pop aq mb of
        (None, mb') \<Rightarrow> Some (acc, mb')
      | (Some bag, mb') \<Rightarrow> mailbox_drain aq (acc @ [bag_payload bag]) mb')"

partial_function (option) hand_every_queued_frame_over_to ::
    "('q, queued_frame) queue_ops \<Rightarrow> ('q, 'v) port_mailbox \<Rightarrow> ('q, 'w) mailbox_state \<Rightarrow>
      (('q, 'v) port_mailbox \<times> ('q, 'w) mailbox_state) option" where
  "hand_every_queued_frame_over_to aq mb replacement =
     (case pop_frame aq mb of
        None \<Rightarrow> Some (mb, replacement)
      | Some r \<Rightarrow>
          (case push_frame aq
                  ((fst r)\<lparr>frame_measure := measure_of (fst replacement) (payload (fst r))\<rparr>)
                  replacement of
             None \<Rightarrow> None
           | Some replacement' \<Rightarrow> hand_every_queued_frame_over_to aq (snd r) replacement'))"

subsection \<open>The queue's contract\<close>

locale bounded_queue =
  fixes aq :: "('q, 'a) queue_ops"
    and contents :: "'q \<Rightarrow> 'a list"
    and room :: "'q \<Rightarrow> nat"
  assumes new_queue: "0 < n \<Longrightarrow> contents (aq_new aq n) = [] \<and> room (aq_new aq n) = n"
    and push_room: "length (contents q) < room q \<Longrightarrow>
      \<exists>q'. aq_push aq q x = Inr q' \<and> contents q' = contents q @ [x] \<and> room q' = room q"
    and push_full: "room q \<le> length (contents q) \<Longrightarrow> aq_push aq q x = Inl x"
    and pop_empty: "contents q = [] \<Longrightarrow> aq_pop aq q = None"
    and pop_oldest: "contents q = x # xs \<Longrightarrow>
      \<exists>q'. aq_pop aq q = Some (x, q') \<and> contents q' = xs \<and> room q' = room q"
    and is_empty_queue: "aq_is_empty aq q \<longleftrightarrow> contents q = []"
    and len_queue: "aq_len aq q = length (contents q)"

text \<open>The contract is met by a list that remembers its capacity.\<close>

definition list_queue_ops :: "(nat \<times> 'a list, 'a) queue_ops" where
  "list_queue_ops =
     \<lparr>aq_new = (\<lambda>n. (n, [])),
      aq_push = (\<lambda>(n, xs) x. if length xs < n then Inr (n, xs @ [x]) else Inl x),
      aq_pop = (\<lambda>(n, xs). case xs of [] \<Rightarrow> None | y # ys \<Rightarrow> Some (y, (n, ys))),
      aq_is_empty = (\<lambda>(n, xs). xs = []),
      aq_len = (\<lambda>(n, xs). length xs)\<rparr>"

interpretation list_queue: bounded_queue list_queue_ops snd fst
  by unfold_locales (auto simp: list_queue_ops_def split: list.splits)

subsection \<open>A bounded drop-oldest FIFO\<close>

text \<open>
  The abstract mailbox: the frames queued, oldest first, and the log of the frames evicted.
\<close>

definition fifo_push :: "nat \<Rightarrow> 'a \<Rightarrow> 'a list \<times> 'a list \<Rightarrow> 'a list \<times> 'a list" where
  "fifo_push cap x = (\<lambda>(fs, evicted).
     if length fs < cap then (fs @ [x], evicted) else (tl fs @ [x], evicted @ [hd fs]))"

definition frames_total :: "queued_frame list \<Rightarrow> nat" where
  "frames_total fs = (\<Sum>f\<leftarrow>fs. unat (frame_measure f))"

text \<open>\<open>mailbox_sim\<close> ties a mailbox, the counter store and the notice's state to the abstract
  mailbox, from the counts \<open>cs0\<close> and the notice state \<open>w0\<close> at the start of the log.\<close>

definition mailbox_sim ::
    "('q \<Rightarrow> queued_frame list) \<Rightarrow> ('q \<Rightarrow> nat) \<Rightarrow> counts \<Rightarrow> 'w \<Rightarrow>
      ('q, 'w) mailbox_state \<Rightarrow> queued_frame list \<times> queued_frame list \<Rightarrow> bool" where
  "mailbox_sim contents room cs0 w0 = (\<lambda>(mb, cs, w) (fs, evicted).
     0 < mb_capacity mb \<and> room (queue mb) = mb_capacity mb \<and> contents (queue mb) = fs \<and>
     length fs \<le> mb_capacity mb \<and> unat (measure_total mb) = frames_total fs \<and>
     cs = fold record_eviction evicted cs0 \<and>
     w = (case eviction_notice mb of Some n \<Rightarrow> (n ^^ length evicted) w0 | None \<Rightarrow> w0))"

lemma frames_total_simps [simp]:
  "frames_total [] = 0"
  "frames_total (f # fs) = unat (frame_measure f) + frames_total fs"
  "frames_total (fs @ gs) = frames_total fs + frames_total gs"
  by (simp_all add: frames_total_def)

lemma frames_total_bound:
  assumes "\<forall>f \<in> set fs. unat (frame_measure f) \<le> b"
  shows "frames_total fs \<le> length fs * b"
  using assms by (induction fs) auto

lemma fits_if_bounded:
  assumes "\<forall>f \<in> set fs. unat (frame_measure f) \<le> b" "unat (frame_measure frame) \<le> b"
    and "length fs \<le> cap" "Suc cap * b < 2 ^ 64"
  shows "frames_total (fs @ [frame]) < 2 ^ 64"
proof -
  have "frames_total (fs @ [frame]) \<le> length (fs @ [frame]) * b"
    using assms by (intro frames_total_bound) auto
  also have "\<dots> \<le> Suc cap * b" using assms(3) by (intro mult_le_mono) auto
  finally show ?thesis using assms(4) by linarith
qed

lemma fifo_push_subset: "set (fst (fifo_push cap x (fs, evicted))) \<subseteq> insert x (set fs)"
  by (cases fs) (auto simp: fifo_push_def)

lemma take_out_of_the_total_simps [simp]:
  "queue (take_out_of_the_total f mb) = queue mb"
  "mb_capacity (take_out_of_the_total f mb) = mb_capacity mb"
  "measure_fn (take_out_of_the_total f mb) = measure_fn mb"
  "eviction_notice (take_out_of_the_total f mb) = eviction_notice mb"
  by (simp_all add: take_out_of_the_total_def)

lemma take_out_of_the_total_total:
  assumes "unat (measure_total mb) = unat (frame_measure f) + n"
  shows "unat (measure_total (take_out_of_the_total f mb)) = n"
proof -
  have "frame_measure f \<le> measure_total mb" using assms by (simp add: word_le_nat_alt)
  then show ?thesis using assms
    by (auto simp: take_out_of_the_total_def saturating_sub_def unat_sub)
qed

abbreviation same_settings :: "('q, 'w) port_mailbox \<Rightarrow> ('q, 'w) port_mailbox \<Rightarrow> bool" where
  "same_settings mb mb' \<equiv> mb_capacity mb' = mb_capacity mb \<and> measure_fn mb' = measure_fn mb \<and>
     eviction_notice mb' = eviction_notice mb"

lemma mailbox_simI:
  assumes "0 < mb_capacity mb" "room (queue mb) = mb_capacity mb" "contents (queue mb) = fs"
    "length fs \<le> mb_capacity mb" "unat (measure_total mb) = frames_total fs"
    "cs = fold record_eviction evicted cs0"
    "w = (case eviction_notice mb of Some n \<Rightarrow> (n ^^ length evicted) w0 | None \<Rightarrow> w0)"
  shows "mailbox_sim contents room cs0 w0 (mb, cs, w) (fs, evicted)"
  using assms by (simp add: mailbox_sim_def)

locale frame_queue = bounded_queue aq contents room
  for aq :: "('q, queued_frame) queue_ops" and contents and room
begin

lemma pop_frame_sim:
  assumes "contents (queue mb) = f # fs" "unat (measure_total mb) = unat (frame_measure f) + n"
  shows "\<exists>mb'. pop_frame aq mb = Some (f, mb') \<and> contents (queue mb') = fs \<and>
    room (queue mb') = room (queue mb) \<and> unat (measure_total mb') = n \<and> same_settings mb mb'"
proof -
  from pop_oldest [OF assms(1)] obtain q' where
    "aq_pop aq (queue mb) = Some (f, q')" "contents q' = fs" "room q' = room (queue mb)" by auto
  then show ?thesis
    using take_out_of_the_total_total [of "mb\<lparr>queue := q'\<rparr>" f n] assms(2)
    by (simp add: pop_frame_def)
qed

lemma push_frame_with_room:
  assumes sim: "mailbox_sim contents room cs0 w0 (mb, cs, w) (fs, evicted)"
    and len: "length fs < mb_capacity mb"
    and fits: "frames_total (fs @ [frame]) < 2 ^ 64"
  shows "\<exists>mb'. push_frame aq frame (mb, cs, w) = Some (mb', cs, w) \<and> same_settings mb mb' \<and>
    mailbox_sim contents room cs0 w0 (mb', cs, w) (fs @ [frame], evicted)"
proof -
  have "length (contents (queue mb)) < room (queue mb)"
    using sim len by (simp add: mailbox_sim_def)
  from push_room [OF this] obtain q' where q': "aq_push aq (queue mb) frame = Inr q'"
    "contents q' = contents (queue mb) @ [frame]" "room q' = room (queue mb)" by blast
  define mb' where "mb' = (let m = mb\<lparr>queue := q'\<rparr> in
    if frame_measure frame \<noteq> 0
    then m\<lparr>measure_total := measure_total m + frame_measure frame\<rparr> else m)"
  have "push_frame aq frame (mb, cs, w) = Some (mb', cs, w)"
    using q' by (simp add: push_frame.simps [of aq frame "(mb, cs, w)"] mb'_def Let_def)
  moreover have "unat (measure_total mb') = frames_total (fs @ [frame])"
    using sim fits by (auto simp: mb'_def Let_def mailbox_sim_def unat_word_ariths)
  moreover have "same_settings mb mb'" "queue mb' = q'"
    by (simp_all add: mb'_def Let_def)
  ultimately show ?thesis
    using sim q' len by (auto simp: mailbox_sim_def split: option.splits)
qed

lemma evict_oldest_sim:
  assumes sim: "mailbox_sim contents room cs0 w0 (mb, cs, w) (f # fs, evicted)"
  shows "\<exists>mb' cs' w'. evict_oldest aq (mb, cs, w) = (mb', cs', w') \<and> same_settings mb mb' \<and>
    mailbox_sim contents room cs0 w0 (mb', cs', w') (fs, evicted @ [f])"
proof -
  from sim have "contents (queue mb) = f # fs" by (simp add: mailbox_sim_def)
  from pop_oldest [OF this] obtain q' where q': "aq_pop aq (queue mb) = Some (f, q')"
    "contents q' = fs" "room q' = room (queue mb)" by auto
  let ?mb = "take_out_of_the_total f (mb\<lparr>queue := q'\<rparr>)"
  have "unat (measure_total ?mb) = frames_total fs"
    using sim by (intro take_out_of_the_total_total) (simp add: mailbox_sim_def)
  then have "mailbox_sim contents room cs0 w0 (?mb, record_eviction f cs,
      case eviction_notice mb of Some notice \<Rightarrow> notice w | None \<Rightarrow> w) (fs, evicted @ [f])"
    using sim q' by (auto simp: mailbox_sim_def split: option.splits)
  then show ?thesis using q' by (auto simp: evict_oldest_def)
qed

lemma push_frame_sim:
  assumes sim: "mailbox_sim contents room cs0 w0 (mb, cs, w) (fs, evicted)"
    and fits: "frames_total (fs @ [frame]) < 2 ^ 64"
  shows "\<exists>mb' cs' w'. push_frame aq frame (mb, cs, w) = Some (mb', cs', w') \<and>
    same_settings mb mb' \<and>
    mailbox_sim contents room cs0 w0 (mb', cs', w') (fifo_push (mb_capacity mb) frame (fs, evicted))"
proof (cases "length fs < mb_capacity mb")
  case True
  from push_frame_with_room [OF sim True fits] show ?thesis
    using True by (auto simp: fifo_push_def)
next
  case False
  with sim have "room (queue mb) \<le> length (contents (queue mb))" by (simp add: mailbox_sim_def)
  then have "aq_push aq (queue mb) frame = Inl frame" by (rule push_full)
  then have loop: "push_frame aq frame (mb, cs, w) = push_frame aq frame (evict_oldest aq (mb, cs, w))"
    by (simp add: push_frame.simps [of aq frame "(mb, cs, w)"])
  from False sim obtain f gs where fs: "fs = f # gs" by (cases fs) (auto simp: mailbox_sim_def)
  from evict_oldest_sim [OF sim [unfolded fs]] obtain mb1 cs1 w1 where
    ev: "evict_oldest aq (mb, cs, w) = (mb1, cs1, w1)" "same_settings mb mb1"
      "mailbox_sim contents room cs0 w0 (mb1, cs1, w1) (gs, evicted @ [f])" by blast
  moreover have "length gs < mb_capacity mb1" using sim fs ev(2) by (simp add: mailbox_sim_def)
  moreover have "frames_total (gs @ [frame]) < 2 ^ 64" using fits fs by simp
  ultimately show ?thesis
    using push_frame_with_room [of cs0 w0 mb1 cs1 w1 gs "evicted @ [f]" frame] False fs
    by (auto simp: loop fifo_push_def)
qed

lemma pop_frame_mailbox_sim:
  assumes sim: "mailbox_sim contents room cs0 w0 (mb, cs, w) (f # fs, evicted)"
  shows "\<exists>mb'. pop_frame aq mb = Some (f, mb') \<and> same_settings mb mb' \<and>
    mailbox_sim contents room cs0 w0 (mb', cs, w) (fs, evicted)"
  using pop_frame_sim [of mb f fs "frames_total fs"] sim
  by (auto simp: mailbox_sim_def split: option.splits)

lemma pop_frame_empty:
  assumes "mailbox_sim contents room cs0 w0 (mb, cs, w) ([], evicted)"
  shows "pop_frame aq mb = None"
  using assms pop_empty by (simp add: mailbox_sim_def pop_frame_def)

lemma pop_latest_loop_sim:
  assumes "mailbox_sim contents room cs0 w0 (mb, cs, w) (fs, evicted)"
  shows "\<exists>mb'. pop_latest_loop aq latest mb =
      Some (if fs = [] then latest else Some (delivered_of_frame (last fs)), mb') \<and>
    same_settings mb mb' \<and> mailbox_sim contents room cs0 w0 (mb', cs, w) ([], evicted)"
  using assms
proof (induction fs arbitrary: mb latest)
  case Nil
  then show ?case using pop_frame_empty [OF Nil] by (auto simp: pop_latest_loop.simps [of aq latest mb])
next
  case (Cons f fs)
  from pop_frame_mailbox_sim [OF Cons.prems] obtain mb1 where
    1: "pop_frame aq mb = Some (f, mb1)" "same_settings mb mb1"
    "mailbox_sim contents room cs0 w0 (mb1, cs, w) (fs, evicted)" by blast
  from Cons.IH [OF 1(3), of "Some (delivered_of_frame f)"] 1(1,2) show ?case
    by (auto simp: pop_latest_loop.simps [of aq latest mb])
qed

lemma hand_over_sim:
  assumes "mailbox_sim contents room cs1 w1 (mb, cs2, w2) (fs, log)"
    and "mailbox_sim contents room cs0 w0 (mb', cs, w) (gs, evicted)"
    and "\<forall>f \<in> set gs. unat (frame_measure f) \<le> b" "\<forall>p. unat (measure_of mb' p) \<le> b"
    and "Suc (mb_capacity mb') * b < 2 ^ 64"
  shows "\<exists>mb'' st''. hand_every_queued_frame_over_to aq mb (mb', cs, w) = Some (mb'', st'') \<and>
    mailbox_sim contents room cs1 w1 (mb'', cs2, w2) ([], log) \<and>
    mailbox_sim contents room cs0 w0 st''
      (fold (\<lambda>f. fifo_push (mb_capacity mb') (f\<lparr>frame_measure := measure_of mb' (payload f)\<rparr>))
        fs (gs, evicted))"
  using assms
proof (induction fs arbitrary: mb mb' cs w gs evicted)
  case Nil
  then show ?case using pop_frame_empty [OF Nil(1)]
    by (auto simp: hand_every_queued_frame_over_to.simps [of aq mb])
next
  case (Cons f fs)
  let ?re = "\<lambda>f. f\<lparr>frame_measure := measure_of mb' (payload f)\<rparr>"
  from pop_frame_mailbox_sim [OF Cons.prems(1)] obtain mb1 where
    1: "pop_frame aq mb = Some (f, mb1)"
    "mailbox_sim contents room cs1 w1 (mb1, cs2, w2) (fs, log)" by blast
  have "length gs \<le> mb_capacity mb'" using Cons.prems(2) by (simp add: mailbox_sim_def)
  then have "frames_total (gs @ [?re f]) < 2 ^ 64"
    using Cons.prems(3-5) by (intro fits_if_bounded) auto
  from push_frame_sim [OF Cons.prems(2) this] obtain mb2 cs3 w3 where
    2: "push_frame aq (?re f) (mb', cs, w) = Some (mb2, cs3, w3)" "same_settings mb' mb2"
    "mailbox_sim contents room cs0 w0 (mb2, cs3, w3) (fifo_push (mb_capacity mb') (?re f) (gs, evicted))"
    by blast
  obtain gs' ev' where p: "fifo_push (mb_capacity mb') (?re f) (gs, evicted) = (gs', ev')"
    by (cases "fifo_push (mb_capacity mb') (?re f) (gs, evicted)")
  then have sub: "\<forall>g \<in> set gs'. unat (frame_measure g) \<le> b"
    using Cons.prems(3,4) fifo_push_subset [of "mb_capacity mb'" "?re f" gs evicted] by auto
  have m: "measure_of mb2 = measure_of mb'" using 2(2) by (auto simp: measure_of_def fun_eq_iff)
  from Cons.IH [OF 1(2) 2(3) [unfolded p] sub] show ?case
    using 1(1) 2 p m Cons.prems(4,5)
    by (auto simp: hand_every_queued_frame_over_to.simps [of aq mb])
qed

end

interpretation list_frame_queue: frame_queue list_queue_ops snd fst
  by unfold_locales

subsection \<open>Sequences of calls\<close>

datatype mailbox_call =
  PushFrom bytes counter inbound_link_name
| Inject bytes
| Pop
| PopLatest

fun mailbox_step ::
    "('q, queued_frame) queue_ops \<Rightarrow> mailbox_call \<Rightarrow> ('q, 'w) mailbox_state \<Rightarrow>
      (delivered_bag option \<times> ('q, 'w) mailbox_state) option" where
  "mailbox_step aq (PushFrom p c link) st =
     map_option (Pair None) (push_frame_from_inbound_link aq p c link st)"
| "mailbox_step aq (Inject p) st =
     map_option (Pair None) (push_frame_without_inbound_link_attribution aq p st)"
| "mailbox_step aq Pop st =
     (case mailbox_pop aq (fst st) of (out, mb) \<Rightarrow> Some (out, mb, snd st))"
| "mailbox_step aq PopLatest st =
     map_option (\<lambda>(out, mb). (out, mb, snd st)) (pop_latest aq (fst st))"

fun mailbox_run ::
    "('q, queued_frame) queue_ops \<Rightarrow> mailbox_call list \<Rightarrow> ('q, 'w) mailbox_state \<Rightarrow>
      (delivered_bag option list \<times> ('q, 'w) mailbox_state) option" where
  "mailbox_run aq [] st = Some ([], st)"
| "mailbox_run aq (call # calls) st =
     (case mailbox_step aq call st of
        None \<Rightarrow> None
      | Some (out, st') \<Rightarrow> map_option (\<lambda>(outs, st''). (out # outs, st'')) (mailbox_run aq calls st'))"

fun fifo_step ::
    "(bytes \<Rightarrow> u64) \<Rightarrow> nat \<Rightarrow> mailbox_call \<Rightarrow> queued_frame list \<times> queued_frame list \<Rightarrow>
      delivered_bag option \<times> queued_frame list \<times> queued_frame list" where
  "fifo_step \<mu> cap (PushFrom p c link) s =
     (None, fifo_push cap \<lparr>payload = p, dropped_bag_counter = Some c, inbound_link = Some link,
                           frame_measure = \<mu> p\<rparr> s)"
| "fifo_step \<mu> cap (Inject p) s =
     (None, fifo_push cap \<lparr>payload = p, dropped_bag_counter = None, inbound_link = None,
                           frame_measure = \<mu> p\<rparr> s)"
| "fifo_step \<mu> cap Pop (fs, evicted) =
     (case fs of [] \<Rightarrow> (None, fs, evicted) | f # fs \<Rightarrow> (Some (delivered_of_frame f), fs, evicted))"
| "fifo_step \<mu> cap PopLatest (fs, evicted) =
     (if fs = [] then None else Some (delivered_of_frame (last fs)), [], evicted)"

fun fifo_run ::
    "(bytes \<Rightarrow> u64) \<Rightarrow> nat \<Rightarrow> mailbox_call list \<Rightarrow> queued_frame list \<times> queued_frame list \<Rightarrow>
      delivered_bag option list \<times> queued_frame list \<times> queued_frame list" where
  "fifo_run \<mu> cap [] s = ([], s)"
| "fifo_run \<mu> cap (call # calls) s =
     (case fifo_step \<mu> cap call s of (out, s') \<Rightarrow>
        (case fifo_run \<mu> cap calls s' of (outs, s'') \<Rightarrow> (out # outs, s'')))"

lemma fold_record_eviction_nth:
  assumes "c < length cs"
  shows "fold record_eviction evicted cs ! c =
    cs ! c + of_nat (length (filter (\<lambda>f. dropped_bag_counter f = Some c) evicted))"
  using assms
proof (induction evicted arbitrary: cs)
  case (Cons f evicted)
  have "length (record_eviction f cs) = length cs"
    by (simp add: record_eviction_def record_one_dropped_bag_def split: option.splits)
  moreover have "record_eviction f cs ! c =
      cs ! c + (if dropped_bag_counter f = Some c then 1 else 0)"
    using Cons.prems by (auto simp: record_eviction_def record_one_dropped_bag_def
        nth_list_update split: option.splits)
  ultimately show ?case using Cons.IH [of "record_eviction f cs"] Cons.prems by simp
qed simp

lemma fifo_push_conserves:
  assumes "0 < cap" "fifo_push cap x (fs, evicted) = (fs', evicted')"
  shows "evicted' @ fs' = evicted @ fs @ [x]"
  using assms by (cases fs) (auto simp: fifo_push_def split: if_splits)

lemma fifo_push_fold_conserves:
  assumes "0 < cap"
  shows "fold (\<lambda>f. fifo_push cap (g f)) xs (fs, evicted) = (fs', evicted') \<Longrightarrow>
    evicted' @ fs' = evicted @ fs @ map g xs"
proof (induction xs arbitrary: fs evicted)
  case (Cons x xs)
  obtain fs1 ev1 where 1: "fifo_push cap (g x) (fs, evicted) = (fs1, ev1)" by fastforce
  with Cons.IH [of fs1 ev1] Cons.prems fifo_push_conserves [OF assms 1] show ?case by simp
qed auto

context frame_queue
begin

lemma mailbox_step_sim:
  assumes sim: "mailbox_sim contents room cs0 w0 (mb, cs, w) (fs, evicted)"
    and bound: "\<forall>f \<in> set fs. unat (frame_measure f) \<le> b" "\<forall>p. unat (measure_of mb p) \<le> b"
    and cap: "Suc (mb_capacity mb) * b < 2 ^ 64"
  shows "\<exists>out mb' cs' w'. mailbox_step aq call (mb, cs, w) = Some (out, mb', cs', w') \<and>
    same_settings mb mb' \<and>
    fst (fifo_step (measure_of mb) (mb_capacity mb) call (fs, evicted)) = out \<and>
    mailbox_sim contents room cs0 w0 (mb', cs', w')
      (snd (fifo_step (measure_of mb) (mb_capacity mb) call (fs, evicted)))"
proof -
  have len: "length fs \<le> mb_capacity mb" using sim by (simp add: mailbox_sim_def)
  have push: "\<exists>mb' cs' w'. push_frame aq frame (mb, cs, w) = Some (mb', cs', w') \<and>
      same_settings mb mb' \<and> mailbox_sim contents room cs0 w0 (mb', cs', w')
        (fifo_push (mb_capacity mb) frame (fs, evicted))"
    if "unat (frame_measure frame) \<le> b" for frame
    using push_frame_sim [OF sim fits_if_bounded [OF bound(1) that len cap]] .
  show ?thesis
  proof (cases call)
    case (PushFrom p c link)
    then show ?thesis
      using push [of "\<lparr>payload = p, dropped_bag_counter = Some c, inbound_link = Some link,
          frame_measure = measure_of mb p\<rparr>"] bound(2)
      by (auto simp: push_frame_from_inbound_link_def)
  next
    case (Inject p)
    then show ?thesis
      using push [of "\<lparr>payload = p, dropped_bag_counter = None, inbound_link = None,
          frame_measure = measure_of mb p\<rparr>"] bound(2)
      by (auto simp: push_frame_without_inbound_link_attribution_def)
  next
    case Pop
    then show ?thesis
      using sim pop_frame_empty [of cs0 w0 mb cs w evicted]
        pop_frame_mailbox_sim [of cs0 w0 mb cs w _ _ evicted]
      by (cases fs) (force simp: mailbox_pop_def)+
  next
    case PopLatest
    then show ?thesis using pop_latest_loop_sim [OF sim, of None] by (auto simp: pop_latest_def)
  qed
qed

lemma fifo_step_bounded:
  assumes "\<forall>f \<in> set fs. unat (frame_measure f) \<le> b" "\<forall>p. unat (\<mu> p) \<le> b"
    and "snd (fifo_step \<mu> cap call (fs, evicted)) = (fs', evicted')"
  shows "\<forall>f \<in> set fs'. unat (frame_measure f) \<le> b"
  using assms fifo_push_subset [of cap _ fs evicted]
  by (cases call; cases fs) (fastforce simp: fifo_push_def split: if_splits)+

lemma mailbox_run_sim:
  assumes "mailbox_sim contents room cs0 w0 (mb, cs, w) (fs, evicted)"
    and "\<forall>f \<in> set fs. unat (frame_measure f) \<le> b" "\<forall>p. unat (measure_of mb p) \<le> b"
    and "Suc (mb_capacity mb) * b < 2 ^ 64"
  shows "\<exists>mb' cs' w'. mailbox_run aq calls (mb, cs, w) =
      Some (fst (fifo_run (measure_of mb) (mb_capacity mb) calls (fs, evicted)), mb', cs', w') \<and>
    same_settings mb mb' \<and>
    mailbox_sim contents room cs0 w0 (mb', cs', w')
      (snd (fifo_run (measure_of mb) (mb_capacity mb) calls (fs, evicted)))"
  using assms
proof (induction calls arbitrary: mb cs w fs evicted)
  case (Cons call calls)
  from mailbox_step_sim [OF Cons.prems, of call] obtain out mb1 cs1 w1 where
    1: "mailbox_step aq call (mb, cs, w) = Some (out, mb1, cs1, w1)" "same_settings mb mb1"
    "fst (fifo_step (measure_of mb) (mb_capacity mb) call (fs, evicted)) = out"
    "mailbox_sim contents room cs0 w0 (mb1, cs1, w1)
      (snd (fifo_step (measure_of mb) (mb_capacity mb) call (fs, evicted)))" by blast
  obtain fs1 ev1 where 2: "snd (fifo_step (measure_of mb) (mb_capacity mb) call (fs, evicted)) = (fs1, ev1)"
    by fastforce
  have m: "measure_of mb1 = measure_of mb" using 1(2) by (auto simp: measure_of_def fun_eq_iff)
  from Cons.IH [OF 1(4) [unfolded 2] fifo_step_bounded [OF Cons.prems(2,3) 2]]
  show ?case using 1 2 m Cons.prems(3,4)
    by (cases "fifo_step (measure_of mb) (mb_capacity mb) call (fs, evicted)")
       (auto split: prod.splits)
qed auto

end

subsection \<open>Properties\<close>

text \<open>C3: the mailbox is a bounded drop-oldest FIFO. On any lawful queue, and for a measure small
  enough that a full mailbox's total fits 64 bits, every sequence of pushes, injections, pops
  and newest-reads on a fresh mailbox returns (the eviction loop never spins) and delivers
  exactly what the abstract FIFO of depth \<open>max 1 history\<close> delivers; afterwards the queue holds
  exactly the abstract frames, the running total is the sum of their measures, every link's
  counter has grown by the number of its own frames evicted, and the eviction notice has fired
  once for each evicted frame.\<close>

theorem mailbox_refines_bounded_fifo:
  assumes queue: "bounded_queue aq contents room"
    and measure: "\<forall>p. unat (\<mu> p) \<le> b" "Suc (max history 1) * b < 2 ^ 64"
    and start: "mb = measuring_every_queued_frame_with \<mu>
      (reporting_every_eviction_to notice (mailbox_new aq history))"
    and spec: "fifo_run \<mu> (max history 1) calls ([], []) = (outs, fs, evicted)"
  shows "\<exists>mb' cs'. mailbox_run aq calls (mb, cs, w) =
      Some (outs, mb', cs', (notice ^^ length evicted) w) \<and>
    contents (queue mb') = fs \<and> length fs \<le> max history 1 \<and>
    unat (measure_total mb') = (\<Sum>f\<leftarrow>fs. unat (frame_measure f)) \<and>
    (\<forall>c < length cs. cs' ! c =
      cs ! c + of_nat (length (filter (\<lambda>f. dropped_bag_counter f = Some c) evicted)))"
proof -
  from queue have fq: "frame_queue aq contents room"
    by (simp add: frame_queue_def)
  have mb: "measure_of mb = \<mu>" "mb_capacity mb = max history 1" "eviction_notice mb = Some notice"
    by (simp_all add: start measure_of_def fun_eq_iff measuring_every_queued_frame_with_def
        reporting_every_eviction_to_def mailbox_new_def Let_def)
  have "mailbox_sim contents room cs w (mb, cs, w) ([], [])"
    using bounded_queue.new_queue [OF queue, of "max history 1"]
    by (intro mailbox_simI) (auto simp: start measuring_every_queued_frame_with_def
        reporting_every_eviction_to_def mailbox_new_def Let_def)
  from frame_queue.mailbox_run_sim [OF fq this, of b calls] mb measure spec
  obtain mb' cs' w' where "mailbox_run aq calls (mb, cs, w) = Some (outs, mb', cs', w')"
    "same_settings mb mb'" "mailbox_sim contents room cs w (mb', cs', w') (fs, evicted)" by auto
  with mb show ?thesis
    by (auto simp: mailbox_sim_def frames_total_def fold_record_eviction_nth)
qed

theorem mailbox_refines_bounded_fifo_witness:
  "\<exists>mb' cs'. mailbox_run list_queue_ops
      [PushFrom [1] 0 (InboundLinkName ''a''), PushFrom [2] 1 (InboundLinkName ''b''),
       PushFrom [3] 1 (InboundLinkName ''b''), Pop]
      (measuring_every_queued_frame_with (\<lambda>p. if p = [] then 0 else 1)
        (reporting_every_eviction_to Suc (mailbox_new list_queue_ops 2)), [0, 0], 0) =
    Some ([None, None, None,
           Some \<lparr>bag_payload = [2], bag_inbound_link_name = Some (InboundLinkName ''b'')\<rparr>],
      mb', cs', 1) \<and> measure_total mb' = 1 \<and> cs' ! 0 = 1 \<and> cs' ! 1 = 0"
proof -
  let ?calls = "[PushFrom [1] 0 (InboundLinkName ''a''), PushFrom [2] 1 (InboundLinkName ''b''),
       PushFrom [3] 1 (InboundLinkName ''b''), Pop]"
  let ?\<mu> = "\<lambda>p :: bytes. if p = [] then 0 else (1 :: u64)"
  let ?f = "\<lambda>p c l. \<lparr>payload = [p], dropped_bag_counter = Some c,
    inbound_link = Some (InboundLinkName l), frame_measure = 1\<rparr>"
  have spec: "fifo_run ?\<mu> (max 2 1) ?calls ([], []) =
      ([None, None, None, Some (delivered_of_frame (?f 2 1 ''b''))], [?f 3 1 ''b''], [?f 1 0 ''a''])"
    by (simp add: fifo_push_def delivered_of_frame_def)
  have "\<forall>p. unat (?\<mu> p) \<le> 1" "Suc (max 2 1) * 1 < (2 :: nat) ^ 64" by simp_all
  from mailbox_refines_bounded_fifo [OF list_queue.bounded_queue_axioms this refl spec,
      of Suc "[0, 0]" 0]
  obtain mb' cs' where r: "mailbox_run list_queue_ops ?calls
      (measuring_every_queued_frame_with ?\<mu>
        (reporting_every_eviction_to Suc (mailbox_new list_queue_ops 2)), [0, 0], 0) =
      Some ([None, None, None, Some (delivered_of_frame (?f 2 1 ''b''))], mb', cs', 1)"
    "unat (measure_total mb') = 1" "cs' ! 0 = 1" "cs' ! 1 = 0"
    by (fastforce simp: nth_Cons split: nat.splits)
  then have "measure_total mb' = 1" by (simp add: word_unat_eq_iff)
  with r show ?thesis by (auto simp: delivered_of_frame_def)
qed

text \<open>C14: settling a port's contract loses no frame silently. Handing a mailbox's frames over to
  its replacement ends with the old mailbox empty, and the frames the replacement evicted
  meanwhile followed by those it still holds are exactly the frames it held before followed by
  the old mailbox's frames in order, each re-measured and still carrying the link it arrived
  on; each eviction is charged to that link.\<close>

theorem hand_over_conserves_frames:
  assumes queue: "bounded_queue aq contents room"
    and old: "mailbox_sim contents room cs1 w1 (mb, cs1, w1) (fs, [])"
    and new: "mailbox_sim contents room cs w (mb', cs, w) (gs, [])"
    and bound: "\<forall>f \<in> set gs. unat (frame_measure f) \<le> b" "\<forall>p. unat (measure_of mb' p) \<le> b"
      "Suc (mb_capacity mb') * b < 2 ^ 64"
  shows "\<exists>mb'' mbr csr wr held evicted.
    hand_every_queued_frame_over_to aq mb (mb', cs, w) = Some (mb'', mbr, csr, wr) \<and>
    contents (queue mb'') = [] \<and> measure_total mb'' = 0 \<and>
    contents (queue mbr) = held \<and>
    evicted @ held = gs @ map (\<lambda>f. f\<lparr>frame_measure := measure_of mb' (payload f)\<rparr>) fs \<and>
    (\<forall>c < length cs. csr ! c =
      cs ! c + of_nat (length (filter (\<lambda>f. dropped_bag_counter f = Some c) evicted)))"
proof -
  from queue have fq: "frame_queue aq contents room" by (simp add: frame_queue_def)
  let ?push = "\<lambda>f. fifo_push (mb_capacity mb') (f\<lparr>frame_measure := measure_of mb' (payload f)\<rparr>)"
  obtain held evicted where fold: "fold ?push fs (gs, []) = (held, evicted)" by fastforce
  have "0 < mb_capacity mb'" using new by (simp add: mailbox_sim_def)
  from fifo_push_fold_conserves [OF this fold]
  have cons: "evicted @ held = gs @ map (\<lambda>f. f\<lparr>frame_measure := measure_of mb' (payload f)\<rparr>) fs"
    by simp
  from frame_queue.hand_over_sim [OF fq old new bound] obtain mb'' mbr csr wr where
    r: "hand_every_queued_frame_over_to aq mb (mb', cs, w) = Some (mb'', mbr, csr, wr)"
    "mailbox_sim contents room cs1 w1 (mb'', cs1, w1) ([], [])"
    "mailbox_sim contents room cs w (mbr, csr, wr) (held, evicted)"
    by (auto simp: fold)
  then have "contents (queue mb'') = []" "measure_total mb'' = 0" "contents (queue mbr) = held"
    "\<forall>c < length cs. csr ! c =
      cs ! c + of_nat (length (filter (\<lambda>f. dropped_bag_counter f = Some c) evicted))"
    by (auto simp: mailbox_sim_def fold_record_eviction_nth unat_eq_0)
  with r(1) cons show ?thesis by blast
qed

theorem hand_over_conserves_frames_witness:
  "\<exists>mb'' mbr csr wr held evicted.
    hand_every_queued_frame_over_to list_queue_ops
      ((mailbox_new list_queue_ops 2 :: (nat \<times> queued_frame list, unit) port_mailbox)\<lparr>queue := (2,
         [\<lparr>payload = [1], dropped_bag_counter = Some 0, inbound_link = None, frame_measure = 0\<rparr>,
          \<lparr>payload = [2], dropped_bag_counter = Some 0, inbound_link = None, frame_measure = 0\<rparr>])\<rparr>)
      (mailbox_new list_queue_ops 1, [0], ()) = Some (mb'', mbr, csr, wr) \<and>
    snd (queue mbr) = held \<and> csr ! 0 = of_nat (length (evicted :: queued_frame list)) \<and> length evicted + length held = 2"
proof -
  let ?f = "\<lambda>p. \<lparr>payload = [p], dropped_bag_counter = Some 0, inbound_link = None, frame_measure = 0\<rparr>"
  let ?old = "(mailbox_new list_queue_ops 2 :: (nat \<times> queued_frame list, unit) port_mailbox)\<lparr>queue := (2 :: nat, [?f 1, ?f 2])\<rparr>"
  have old: "mailbox_sim snd fst [] () (?old, [], ()) ([?f 1, ?f 2], [])"
    by (simp add: mailbox_sim_def mailbox_new_def list_queue_ops_def)
  have new: "mailbox_sim snd fst [0] () (mailbox_new list_queue_ops 1, [0], ()) ([], [])"
    by (simp add: mailbox_sim_def mailbox_new_def list_queue_ops_def)
  have b: "\<forall>f \<in> set []. unat (frame_measure f) \<le> 0"
    "\<forall>p. unat (measure_of (mailbox_new list_queue_ops 1 :: (_, unit) port_mailbox) p) \<le> 0"
    "Suc (mb_capacity (mailbox_new list_queue_ops 1 :: (nat \<times> queued_frame list, unit) port_mailbox)) * 0 < 2 ^ 64"
    by (simp_all add: measure_of_def mailbox_new_def)
  from hand_over_conserves_frames [OF list_queue.bounded_queue_axioms old new b]
  obtain mb'' mbr csr wr held evicted where
    r: "hand_every_queued_frame_over_to list_queue_ops ?old (mailbox_new list_queue_ops 1, [0], ()) =
        Some (mb'', mbr, csr, wr)" "snd (queue mbr) = held"
      "evicted @ held = [] @ map (\<lambda>f. f\<lparr>frame_measure := measure_of
        (mailbox_new list_queue_ops 1 :: (nat \<times> queued_frame list, unit) port_mailbox) (payload f)\<rparr>)
        [?f 1, ?f 2]"
      "\<forall>c < length [0 :: u64]. csr ! c = [0] ! c +
        of_nat (length (filter (\<lambda>f. dropped_bag_counter f = Some c) evicted))"
    by blast
  have "set evicted \<subseteq> set (evicted @ held)" by simp
  also have "\<dots> \<subseteq> {f. dropped_bag_counter f = Some 0}" unfolding r(3) append_Nil by simp
  finally have "set evicted \<subseteq> {f. dropped_bag_counter f = Some 0}" .
  then have "filter (\<lambda>f. dropped_bag_counter f = Some 0) evicted = evicted"
    by (simp only: filter_id_conv) blast
  with r(4) have "csr ! 0 = of_nat (length evicted)" by simp
  moreover have "length evicted + length held = 2"
    using arg_cong [OF r(3), of length] by simp
  ultimately show ?thesis using r(1,2)
    by - (rule exI [of _ mb''], rule exI [of _ mbr], rule exI [of _ csr], rule exI [of _ wr],
        rule exI [of _ held], rule exI [of _ evicted], intro conjI)
qed

text \<open>C34: delivery policy is declared, never guessed. For a port the registry knows, resolution
  succeeds exactly when the port's declaration is the manifest spelling of a profile, and then
  gives that profile; a missing or misspelt declaration is an error. The profile alone fixes
  drain order and depth.\<close>

theorem delivery_profile_resolution:
  assumes "port_info ty = Some (inputs, outputs)" "find (\<lambda>p. port_name p = pname) inputs = Some port"
  shows "delivery_profile_for_input_port port_info ty pname = Inr profile \<longleftrightarrow>
    port_delivery_profile port = Some (delivery_profile_as_manifest_str profile)"
  using assms
  by (cases profile)
     (auto simp: delivery_profile_for_input_port_def delivery_profile_from_manifest_str_def
        split: option.splits sum.splits if_splits)

theorem delivery_profile_resolution_witness:
  "delivery_profile_for_input_port
     (\<lambda>ty. Some ([\<lparr>port_name = ''in'', port_delivery_profile = Some ''ordered''\<rparr>], [])) ''T'' ''in'' =
     Inr Ordered"
  using delivery_profile_resolution
    [of "\<lambda>ty. Some ([\<lparr>port_name = ''in'', port_delivery_profile = Some ''ordered''\<rparr>], [])" "''T''"
      "[\<lparr>port_name = ''in'', port_delivery_profile = Some ''ordered''\<rparr>]" "[]" "''in''"
      "\<lparr>port_name = ''in'', port_delivery_profile = Some ''ordered''\<rparr>" Ordered]
  by simp

end
