(* ===== verification/Surface_Leases.thy ===== *)
theory Surface_Leases
  imports Prelude
begin

text \<open>
  Surface ids and check-out leases: the \<open><slot>#<generation>\<close> grammar of published frame ids
  (\<open>core/rhi/pixel_buffer_pool.rs\<close>) and the lease registry the surface-share service and the
  pixel-buffer pool share (\<open>core/context/surface_check_out_lease_registry.rs\<close>).

  A \<open>HashMap\<close> is an association list with distinct keys: \<open>AList.update\<close> is \<open>insert\<close>,
  \<open>AList.delete\<close> is \<open>remove\<close> and \<open>map_of\<close> is \<open>get\<close>. The registry's \<open>Mutex\<close> can be poisoned
  by a panic elsewhere; the flag says whether it is.
\<close>

subsection \<open>Published frame ids\<close>

record published_frame_id =
  pool_slot_id :: string
  frame_generation :: u64

definition frame_id_display :: "published_frame_id \<Rightarrow> string" where
  "frame_id_display f = pool_slot_id f @ ''#'' @ dec_string (unat (frame_generation f))"

definition is_ascii_digit :: "char \<Rightarrow> bool" where
  "is_ascii_digit c \<longleftrightarrow> 48 \<le> (of_char c :: nat) \<and> (of_char c :: nat) \<le> 57"

definition split_pool_slot_and_frame_generation :: "string \<Rightarrow> (string \<times> u64) option" where
  "split_pool_slot_and_frame_generation surface_id =
     (case rsplit_once CHR ''#'' surface_id of
        None \<Rightarrow> None
      | Some (pool_slot, generation_digits) \<Rightarrow>
          if pool_slot = [] \<or> generation_digits = [] \<or> \<not> list_all is_ascii_digit generation_digits
          then None
          else (case parse_usize generation_digits of
                  None \<Rightarrow> None
                | Some n \<Rightarrow> Some (pool_slot, of_nat n)))"

definition pool_slot_key_of_surface_id :: "string \<Rightarrow> string" where
  "pool_slot_key_of_surface_id surface_id =
     (case split_pool_slot_and_frame_generation surface_id of
        Some (pool_slot, _) \<Rightarrow> pool_slot
      | None \<Rightarrow> surface_id)"

definition frame_id_parse :: "string \<Rightarrow> published_frame_id option" where
  "frame_id_parse surface_id =
     (case split_pool_slot_and_frame_generation surface_id of
        Some (pool_slot, generation) \<Rightarrow>
          Some \<lparr>pool_slot_id = pool_slot, frame_generation = generation\<rparr>
      | None \<Rightarrow> None)"

lemma is_ascii_digit_dec_string: "list_all is_ascii_digit (dec_string n)"
  using dec_string_digits by (fastforce simp: list_all_iff is_ascii_digit_def of_char_digit_char)

lemma hash_notin_dec_string: "CHR ''#'' \<notin> set (dec_string n)"
  using is_ascii_digit_dec_string [of n] by (auto simp: list_all_iff is_ascii_digit_def)

lemma split_display:
  assumes "slot \<noteq> []"
  shows "split_pool_slot_and_frame_generation (slot @ CHR ''#'' # dec_string (unat (g :: u64))) = Some (slot, g)"
proof -
  have "unat g < 2 ^ 64" using unsigned_less [of g] by simp
  then show ?thesis using assms
    by (simp add: split_pool_slot_and_frame_generation_def rsplit_once_append hash_notin_dec_string
        is_ascii_digit_dec_string parse_usize_dec_string)
qed

lemma frame_id_split:
  "pool_slot_id f \<noteq> [] \<Longrightarrow>
     split_pool_slot_and_frame_generation (frame_id_display f) = Some (pool_slot_id f, frame_generation f)"
  by (simp add: frame_id_display_def split_display)

subsection \<open>The lease table\<close>

type_synonym holder_id = u64

datatype lease_error =
  SurfaceFrameRecycled string u64 u64
| LeaseRuntimeError string

record lease_table =
  outstanding_check_outs_by_surface_id :: "(string \<times> (holder_id \<times> u32) list) list"
  current_frame_generation_by_pool_slot :: "(string \<times> u64) list"

record lease_registry =
  lease_table :: lease_table
  next_holder_id :: u64
  poisoned :: bool

definition lease_registry_new :: lease_registry where
  "lease_registry_new =
     \<lparr>lease_table = \<lparr>outstanding_check_outs_by_surface_id = [],
                     current_frame_generation_by_pool_slot = []\<rparr>,
      next_holder_id = 0, poisoned = False\<rparr>"

definition lease_key_of_a_live_frame :: "lease_table \<Rightarrow> string \<Rightarrow> lease_error + string" where
  "lease_key_of_a_live_frame t surface_id =
     (case split_pool_slot_and_frame_generation surface_id of
        None \<Rightarrow> Inr surface_id
      | Some (pool_slot, published_generation) \<Rightarrow>
          (case map_of (current_frame_generation_by_pool_slot t) pool_slot of
             Some current \<Rightarrow>
               if current = published_generation then Inr pool_slot
               else Inl (SurfaceFrameRecycled surface_id published_generation current)
           | None \<Rightarrow> Inl (LeaseRuntimeError (''surface '' @ [CHR 0x27] @ surface_id @ [CHR 0x27] @
               '' carries a frame generation, but no producer has published that pool slot through this service; nothing proves the frame still exists, so the checkout is refused''))))"

definition publish_frame_generation_in_table :: "string \<Rightarrow> u64 \<Rightarrow> lease_table \<Rightarrow> lease_table" where
  "publish_frame_generation_in_table key g t =
     t\<lparr>current_frame_generation_by_pool_slot :=
         AList.update key g (current_frame_generation_by_pool_slot t)\<rparr>"

definition readable_table :: "lease_registry \<Rightarrow> lease_error + lease_table" where
  "readable_table r =
     (if poisoned r
      then Inl (LeaseRuntimeError ''the surface checkout lease table is poisoned; a thread panicked holding it, so no lease it records can be trusted'')
      else Inr (lease_table r))"

definition mint_holder_id :: "lease_registry \<Rightarrow> holder_id \<times> lease_registry" where
  "mint_holder_id r = (next_holder_id r, r\<lparr>next_holder_id := next_holder_id r + 1\<rparr>)"

definition get_or_default :: "('k \<times> 'v) list \<Rightarrow> 'k \<Rightarrow> 'v \<Rightarrow> 'v" where
  "get_or_default m k d = (case map_of m k of Some v \<Rightarrow> v | None \<Rightarrow> d)"

definition record_in_table :: "string \<Rightarrow> holder_id \<Rightarrow> lease_table \<Rightarrow> lease_table" where
  "record_in_table key h t =
     (let out = outstanding_check_outs_by_surface_id t;
          holders = get_or_default out key [];
          n = get_or_default holders h 0
      in t\<lparr>outstanding_check_outs_by_surface_id :=
             AList.update key (AList.update h (n + 1) holders) out\<rparr>)"

definition record_check_out_lease ::
    "string \<Rightarrow> holder_id \<Rightarrow> lease_registry \<Rightarrow> (lease_error + unit) \<times> lease_registry" where
  "record_check_out_lease surface_id h r =
     (case and_then (readable_table r) (\<lambda>t. lease_key_of_a_live_frame t surface_id) of
        Inl e \<Rightarrow> (Inl e, r)
      | Inr key \<Rightarrow> (Inr (), r\<lparr>lease_table := record_in_table key h (lease_table r)\<rparr>))"

definition refuse_a_retired_frame_id :: "string \<Rightarrow> lease_registry \<Rightarrow> lease_error + unit" where
  "refuse_a_retired_frame_id surface_id r =
     and_then (readable_table r) (\<lambda>t.
       and_then (lease_key_of_a_live_frame t surface_id) (\<lambda>_. Inr ()))"

definition current_frame_generation :: "string \<Rightarrow> lease_registry \<Rightarrow> lease_error + u64 option" where
  "current_frame_generation key r =
     and_then (readable_table r) (\<lambda>t. Inr (map_of (current_frame_generation_by_pool_slot t) key))"

definition publish_frame_generation ::
    "string \<Rightarrow> u64 \<Rightarrow> lease_registry \<Rightarrow> (lease_error + unit) \<times> lease_registry" where
  "publish_frame_generation key g r =
     (case readable_table r of
        Inl e \<Rightarrow> (Inl e, r)
      | Inr t \<Rightarrow> (Inr (), r\<lparr>lease_table := publish_frame_generation_in_table key g t\<rparr>))"

definition release_one_check_out_lease ::
    "string \<Rightarrow> holder_id \<Rightarrow> lease_registry \<Rightarrow> (lease_error + bool) \<times> lease_registry" where
  "release_one_check_out_lease surface_id h r =
     (let key = pool_slot_key_of_surface_id surface_id
      in case readable_table r of
           Inl e \<Rightarrow> (Inl e, r)
         | Inr t \<Rightarrow>
             (let out = outstanding_check_outs_by_surface_id t
              in case map_of out key of
                   None \<Rightarrow> (Inr False, r)
                 | Some holders \<Rightarrow>
                     (case map_of holders h of
                        None \<Rightarrow> (Inr False, r)
                      | Some outstanding \<Rightarrow>
                          (let outstanding = (if outstanding = 0 then 0 else outstanding - 1);
                               holders = (if outstanding = 0 then AList.delete h holders
                                          else AList.update h outstanding holders);
                               out = (if holders = [] then AList.delete key out
                                      else AList.update key holders out)
                           in (Inr True, r\<lparr>lease_table :=
                                 t\<lparr>outstanding_check_outs_by_surface_id := out\<rparr>\<rparr>)))))"

text \<open>\<open>HashMap::retain\<close> with a closure that edits the value it keeps.\<close>

definition drop_holder :: "holder_id \<Rightarrow> (string \<times> (holder_id \<times> u32) list) list \<Rightarrow>
    (string \<times> (holder_id \<times> u32) list) list" where
  "drop_holder h out =
     filter (\<lambda>(key, holders). holders \<noteq> []) (map (\<lambda>(key, holders). (key, AList.delete h holders)) out)"

definition release_every_check_out_lease_held_by ::
    "holder_id \<Rightarrow> lease_registry \<Rightarrow> (lease_error + nat) \<times> lease_registry" where
  "release_every_check_out_lease_held_by h r =
     (case readable_table r of
        Inl e \<Rightarrow> (Inl e, r)
      | Inr t \<Rightarrow>
          (let out = outstanding_check_outs_by_surface_id t;
               out' = drop_holder h out
           in (Inr (length out - length out'),
               r\<lparr>lease_table := t\<lparr>outstanding_check_outs_by_surface_id := out'\<rparr>\<rparr>)))"

definition outstanding_check_out_count :: "string \<Rightarrow> lease_registry \<Rightarrow> lease_error + u32" where
  "outstanding_check_out_count surface_id r =
     and_then (readable_table r) (\<lambda>t.
       Inr (case map_of (outstanding_check_outs_by_surface_id t) (pool_slot_key_of_surface_id surface_id) of
              Some holders \<Rightarrow> sum_list (map snd holders)
            | None \<Rightarrow> 0))"

definition hold_for_pool_slot_hand_off :: "lease_registry \<Rightarrow> lease_table option" where
  "hold_for_pool_slot_hand_off r = (if poisoned r then None else Some (lease_table r))"

definition is_checked_out_by_any_holder :: "lease_table \<Rightarrow> string \<Rightarrow> bool" where
  "is_checked_out_by_any_holder t surface_id \<longleftrightarrow>
     map_of (outstanding_check_outs_by_surface_id t) (pool_slot_key_of_surface_id surface_id) \<noteq> None"

subsection \<open>Lease accounting\<close>

text \<open>
  What the registry promises: a count per key and holder. \<open>lease_sim\<close> says that a table
  carries exactly the positive counts of \<open>C\<close>, each below \<open>2 ^ 32\<close>.
\<close>

type_synonym lease_counts = "string \<Rightarrow> holder_id \<Rightarrow> nat"

definition holders_count :: "(holder_id \<times> u32) list \<Rightarrow> holder_id \<Rightarrow> nat" where
  "holders_count hs h = unat (get_or_default hs h 0)"

definition holders_ok :: "(holder_id \<times> u32) list \<Rightarrow> bool" where
  "holders_ok hs \<longleftrightarrow> distinct_keys hs \<and> (\<forall>h. map_of hs h \<noteq> Some 0)"

definition lease_count :: "lease_table \<Rightarrow> lease_counts" where
  "lease_count t key = holders_count (get_or_default (outstanding_check_outs_by_surface_id t) key [])"

definition table_ok :: "lease_table \<Rightarrow> bool" where
  "table_ok t \<longleftrightarrow> distinct_keys (outstanding_check_outs_by_surface_id t) \<and>
     (\<forall>key hs. map_of (outstanding_check_outs_by_surface_id t) key = Some hs \<longrightarrow> hs \<noteq> [] \<and> holders_ok hs)"

definition add_lease :: "string \<Rightarrow> holder_id \<Rightarrow> lease_counts \<Rightarrow> lease_counts" where
  "add_lease key h C = C(key := (C key)(h := C key h + 1))"

definition sub_lease :: "string \<Rightarrow> holder_id \<Rightarrow> lease_counts \<Rightarrow> lease_counts" where
  "sub_lease key h C = C(key := (C key)(h := C key h - 1))"

definition drop_leases :: "holder_id \<Rightarrow> lease_counts \<Rightarrow> lease_counts" where
  "drop_leases h C = (\<lambda>key. (C key)(h := 0))"

lemma get_or_default_update [simp]:
  "get_or_default (AList.update k v m) k' d = (if k' = k then v else get_or_default m k' d)"
  by (simp add: get_or_default_def alist_simps)

lemma get_or_default_delete [simp]:
  "get_or_default (AList.delete k m) k' d = (if k' = k then d else get_or_default m k' d)"
  by (simp add: get_or_default_def alist_simps)

lemma AList_update_neq_Nil [simp]: "AList.update k v m \<noteq> []"
  by (cases m) auto

lemma AList_delete_Nil_iff: "AList.delete k m = [] \<longleftrightarrow> (\<forall>k'. k' \<noteq> k \<longrightarrow> map_of m k' = None)"
  by (induction m) (auto split: if_splits)

lemma holders_ok_record:
  assumes "holders_ok hs" "holders_count hs h + 1 < 2 ^ 32"
  shows "holders_ok (AList.update h (get_or_default hs h 0 + 1) hs)"
    and "holders_count (AList.update h (get_or_default hs h 0 + 1) hs) =
      (holders_count hs)(h := holders_count hs h + 1)"
proof -
  have u: "unat (get_or_default hs h 0 + 1) = holders_count hs h + 1"
    using assms(2) by (simp add: unat_word_ariths holders_count_def)
  then have "get_or_default hs h 0 + 1 \<noteq> 0" by (metis Suc_eq_plus1 nat.distinct(1) unat_0)
  with assms(1) show "holders_ok (AList.update h (get_or_default hs h 0 + 1) hs)"
    by (simp add: holders_ok_def alist_simps distinct_update)
  from u show "holders_count (AList.update h (get_or_default hs h 0 + 1) hs) =
      (holders_count hs)(h := holders_count hs h + 1)"
    by (simp add: holders_count_def fun_eq_iff)
qed

lemma table_ok_holders: "table_ok t \<Longrightarrow> holders_ok (get_or_default (outstanding_check_outs_by_surface_id t) key [])"
  by (cases "map_of (outstanding_check_outs_by_surface_id t) key")
     (auto simp: table_ok_def get_or_default_def holders_ok_def)

lemma table_ok_record:
  assumes "table_ok t" "lease_count t key h + 1 < 2 ^ 32"
  shows "table_ok (record_in_table key h t)"
    and "lease_count (record_in_table key h t) = add_lease key h (lease_count t)"
  using assms holders_ok_record [OF table_ok_holders [OF assms(1)], of key h]
  by (simp_all add: table_ok_def record_in_table_def Let_def alist_simps distinct_update
      lease_count_def add_lease_def fun_eq_iff)

lemma holders_ok_delete: "holders_ok hs \<Longrightarrow> holders_ok (AList.delete h hs)"
  "holders_count (AList.delete h hs) = (holders_count hs)(h := 0)"
  by (simp_all add: holders_ok_def alist_simps distinct_delete holders_count_def fun_eq_iff)

lemma holders_ok_lower:
  assumes "holders_ok hs" "n - 1 \<noteq> 0"
  shows "holders_ok (AList.update h (n - 1) hs)"
  using assms by (simp add: holders_ok_def alist_simps distinct_update)

lemma holders_count_Nil [simp]: "holders_count [] = (\<lambda>_. 0)"
  by (simp add: holders_count_def get_or_default_def fun_eq_iff)

lemma lease_count_positive_iff:
  assumes "table_ok t"
  shows "map_of (outstanding_check_outs_by_surface_id t) key \<noteq> None \<longleftrightarrow> (\<exists>h. 0 < lease_count t key h)"
proof (cases "map_of (outstanding_check_outs_by_surface_id t) key")
  case None
  then show ?thesis by (simp add: lease_count_def get_or_default_def)
next
  case (Some hs)
  with assms have ok: "hs \<noteq> []" "holders_ok hs" by (auto simp: table_ok_def)
  then obtain h n hs' where "hs = (h, n) # hs'" by (cases hs) auto
  then have "map_of hs h = Some n" by simp
  moreover have "n \<noteq> 0" using ok(2) calculation by (auto simp: holders_ok_def)
  ultimately have "0 < lease_count t key h"
    using Some by (simp add: lease_count_def get_or_default_def holders_count_def unat_gt_0)
  then show ?thesis using Some by auto
qed

lemma is_checked_out_iff:
  "table_ok t \<Longrightarrow> is_checked_out_by_any_holder t surface_id \<longleftrightarrow>
     (\<exists>h. 0 < lease_count t (pool_slot_key_of_surface_id surface_id) h)"
  unfolding is_checked_out_by_any_holder_def by (rule lease_count_positive_iff)

lemma release_table:
  assumes ok: "table_ok t"
    and out: "map_of (outstanding_check_outs_by_surface_id t) key = Some hs" "map_of hs h = Some n"
    and n': "n' = (if n = 0 then 0 else n - 1)"
    and hs': "hs' = (if n' = 0 then AList.delete h hs else AList.update h n' hs)"
    and t': "t' = t\<lparr>outstanding_check_outs_by_surface_id :=
      (if hs' = [] then AList.delete key (outstanding_check_outs_by_surface_id t)
       else AList.update key hs' (outstanding_check_outs_by_surface_id t))\<rparr>"
  shows "table_ok t'" "lease_count t' = sub_lease key h (lease_count t)"
proof -
  have hok: "holders_ok hs" using ok out by (simp add: table_ok_def)
  then have n0: "n \<noteq> 0" using out(2) by (auto simp: holders_ok_def)
  have hc: "holders_count hs h = unat n" using out(2) by (simp add: holders_count_def get_or_default_def)
  have c': "holders_count hs' = (holders_count hs)(h := holders_count hs h - 1)"
  proof (cases "n - 1 = 0")
    case True
    then have "unat n = 1" using n0 by (metis eq_iff_diff_eq_0 unat_1)
    then show ?thesis using True n0 n' hs' hc by (simp add: holders_ok_delete)
  next
    case False
    then show ?thesis using n0 n' hs' hc
      by (simp add: holders_count_def fun_eq_iff unat_minus_one)
  qed
  have "holders_ok hs'"
    using hok n0 n' hs' by (simp add: holders_ok_delete holders_ok_lower)
  then show "table_ok t'"
    using ok t' by (simp add: table_ok_def alist_simps distinct_update distinct_delete)
  have "lease_count t' = (lease_count t)(key := holders_count hs')"
    using t' by (simp add: lease_count_def fun_eq_iff)
  moreover have "lease_count t key = holders_count hs"
    using out(1) by (simp add: lease_count_def get_or_default_def)
  ultimately show "lease_count t' = sub_lease key h (lease_count t)"
    using c' by (simp add: sub_lease_def)
qed

lemma release_one_check_out_lease_spec:
  assumes ok: "table_ok (lease_table r)" and live: "\<not> poisoned r"
    and key: "key = pool_slot_key_of_surface_id surface_id"
    and res: "release_one_check_out_lease surface_id h r = (ans, r')"
  shows "ans = Inr (0 < lease_count (lease_table r) key h) \<and> \<not> poisoned r' \<and>
    table_ok (lease_table r') \<and>
    lease_count (lease_table r') = sub_lease key h (lease_count (lease_table r)) \<and>
    current_frame_generation_by_pool_slot (lease_table r') =
      current_frame_generation_by_pool_slot (lease_table r)"
proof -
  let ?t = "lease_table r" and ?out = "outstanding_check_outs_by_surface_id (lease_table r)"
  show ?thesis
  proof (cases "map_of ?out key = None \<or> (\<exists>hs. map_of ?out key = Some hs \<and> map_of hs h = None)")
    case True
    then have "lease_count ?t key h = 0"
      by (auto simp: lease_count_def holders_count_def get_or_default_def)
    moreover have "ans = Inr False" "r' = r" using True res live key
      by (auto simp: release_one_check_out_lease_def readable_table_def)
    ultimately show ?thesis using ok live by (auto simp: sub_lease_def fun_eq_iff)
  next
    case False
    then obtain hs n where o: "map_of ?out key = Some hs" "map_of hs h = Some n" by auto
    then have "n \<noteq> 0" using ok by (auto simp: table_ok_def holders_ok_def)
    then have pos: "0 < lease_count ?t key h"
      using o by (simp add: lease_count_def holders_count_def get_or_default_def unat_gt_0)
    note R = release_table [OF ok o refl refl refl]
    from res live key o have "ans = Inr True" "\<not> poisoned r'"
      "lease_table r' = ?t\<lparr>outstanding_check_outs_by_surface_id :=
         (if (if (if n = 0 then 0 else n - 1) = 0 then AList.delete h hs
              else AList.update h (if n = 0 then 0 else n - 1) hs) = []
          then AList.delete key ?out
          else AList.update key (if (if n = 0 then 0 else n - 1) = 0 then AList.delete h hs
              else AList.update h (if n = 0 then 0 else n - 1) hs) ?out)\<rparr>"
      by (auto simp: release_one_check_out_lease_def readable_table_def Let_def)
    with R pos show ?thesis by simp
  qed
qed

lemma map_of_drop_holder:
  assumes "distinct_keys out"
  shows "map_of (drop_holder h out) key =
    (case map_of out key of
       None \<Rightarrow> None
     | Some hs \<Rightarrow> if AList.delete h hs = [] then None else Some (AList.delete h hs))"
proof -
  let ?m = "map (\<lambda>(key, holders). (key, AList.delete h holders)) out"
  have "map fst ?m = map fst out" by (induction out) auto
  then have "distinct_keys ?m" using assms by (simp only:)
  moreover have "map_of ?m key = map_option (AList.delete h) (map_of out key)"
    by (induction out) auto
  ultimately show ?thesis
    by (auto simp: drop_holder_def map_of_filter_distinct split: option.splits)
qed

lemma distinct_keys_drop_holder: "distinct_keys out \<Longrightarrow> distinct_keys (drop_holder h out)"
proof -
  let ?m = "map (\<lambda>(key, holders). (key, AList.delete h holders)) out"
  assume "distinct_keys out"
  moreover have "map fst ?m = map fst out" by (induction out) auto
  ultimately show ?thesis unfolding drop_holder_def by (intro distinct_keys_filter) (simp only:)
qed

lemma drop_holder_table:
  assumes "table_ok t"
    and "t' = t\<lparr>outstanding_check_outs_by_surface_id :=
      drop_holder h (outstanding_check_outs_by_surface_id t)\<rparr>"
  shows "table_ok t'" "lease_count t' = drop_leases h (lease_count t)"
proof -
  let ?out = "outstanding_check_outs_by_surface_id t"
  have d: "distinct_keys ?out" using assms(1) by (simp add: table_ok_def)
  note M = map_of_drop_holder [OF d]
  show "table_ok t'" using assms d
    by (auto simp: table_ok_def M distinct_keys_drop_holder holders_ok_delete
        split: option.splits if_splits)
  have "holders_count (get_or_default (drop_holder h ?out) key []) =
      (holders_count (get_or_default ?out key []))(h := 0)" for key
  proof (cases "map_of ?out key")
    case None
    then show ?thesis by (simp add: get_or_default_def M fun_eq_iff)
  next
    case (Some hs)
    then show ?thesis using holders_ok_delete(2) [of h hs]
      by (auto simp: get_or_default_def M simp flip: holders_ok_delete(2))
  qed
  then show "lease_count t' = drop_leases h (lease_count t)"
    using assms(2) by (simp add: lease_count_def drop_leases_def fun_eq_iff)
qed

lemma publish_table:
  "table_ok (publish_frame_generation_in_table key g t) = table_ok t"
  "lease_count (publish_frame_generation_in_table key g t) = lease_count t"
  by (simp_all add: table_ok_def lease_count_def publish_frame_generation_in_table_def fun_eq_iff)

subsection \<open>Sequences of registry calls\<close>

datatype lease_call =
  CheckOut string holder_id
| ReleaseOne string holder_id
| ReleaseAll holder_id
| Publish string u64

fun lease_step :: "lease_call \<Rightarrow> lease_registry \<Rightarrow> lease_registry" where
  "lease_step (CheckOut surface_id h) r = snd (record_check_out_lease surface_id h r)"
| "lease_step (ReleaseOne surface_id h) r = snd (release_one_check_out_lease surface_id h r)"
| "lease_step (ReleaseAll h) r = snd (release_every_check_out_lease_held_by h r)"
| "lease_step (Publish key g) r = snd (publish_frame_generation key g r)"

fun ledger_step :: "lease_call \<Rightarrow> lease_counts \<times> (string \<rightharpoonup> u64) \<Rightarrow> lease_counts \<times> (string \<rightharpoonup> u64)" where
  "ledger_step (CheckOut surface_id h) (C, G) =
     ((case split_pool_slot_and_frame_generation surface_id of
         None \<Rightarrow> add_lease surface_id h C
       | Some (slot, g) \<Rightarrow> if G slot = Some g then add_lease slot h C else C), G)"
| "ledger_step (ReleaseOne surface_id h) (C, G) =
     (sub_lease (pool_slot_key_of_surface_id surface_id) h C, G)"
| "ledger_step (ReleaseAll h) (C, G) = (drop_leases h C, G)"
| "ledger_step (Publish key g) (C, G) = (C, G(key \<mapsto> g))"

definition registry_sim :: "lease_registry \<Rightarrow> lease_counts \<times> (string \<rightharpoonup> u64) \<Rightarrow> nat \<Rightarrow> bool" where
  "registry_sim r = (\<lambda>(C, G) n. \<not> poisoned r \<and> table_ok (lease_table r) \<and>
     lease_count (lease_table r) = C \<and>
     map_of (current_frame_generation_by_pool_slot (lease_table r)) = G \<and> (\<forall>key h. C key h \<le> n))"

lemma record_in_table_generations [simp]:
  "current_frame_generation_by_pool_slot (record_in_table key h t) = current_frame_generation_by_pool_slot t"
  by (simp add: record_in_table_def Let_def)

lemma record_check_out_lease_spec:
  assumes "\<not> poisoned r"
  shows "record_check_out_lease surface_id h r =
    (case lease_key_of_a_live_frame (lease_table r) surface_id of
       Inl e \<Rightarrow> (Inl e, r)
     | Inr key \<Rightarrow> (Inr (), r\<lparr>lease_table := record_in_table key h (lease_table r)\<rparr>))"
  using assms by (simp add: record_check_out_lease_def readable_table_def)

lemma lease_key_Inr_iff:
  "lease_key_of_a_live_frame t surface_id = Inr key \<longleftrightarrow>
     (case split_pool_slot_and_frame_generation surface_id of
        None \<Rightarrow> key = surface_id
      | Some (slot, g) \<Rightarrow> key = slot \<and> map_of (current_frame_generation_by_pool_slot t) slot = Some g)"
  by (auto simp: lease_key_of_a_live_frame_def split: option.splits)

lemma lease_key_is_slot_key:
  "lease_key_of_a_live_frame t surface_id = Inr key \<Longrightarrow> key = pool_slot_key_of_surface_id surface_id"
  by (auto simp: lease_key_Inr_iff pool_slot_key_of_surface_id_def split: option.splits)

lemma registry_sim_step:
  assumes sim: "registry_sim r (C, G) n" and n: "n + 1 < 2 ^ 32"
  shows "registry_sim (lease_step call r) (ledger_step call (C, G)) (n + 1)"
proof -
  from sim have live: "\<not> poisoned r" and ok: "table_ok (lease_table r)"
    and C: "lease_count (lease_table r) = C"
    and G: "map_of (current_frame_generation_by_pool_slot (lease_table r)) = G"
    and le: "\<And>key h. C key h \<le> n" by (auto simp: registry_sim_def)
  show ?thesis
  proof (cases call)
    case (CheckOut surface_id h)
    show ?thesis
    proof (cases "lease_key_of_a_live_frame (lease_table r) surface_id")
      case (Inl e)
      then have "\<nexists>key. lease_key_of_a_live_frame (lease_table r) surface_id = Inr key" by simp
      then have "ledger_step call (C, G) = (C, G)"
        using CheckOut G by (auto simp: lease_key_Inr_iff split: option.splits)
      then show ?thesis using CheckOut Inl live ok C G le
        by (simp add: record_check_out_lease_spec registry_sim_def le_SucI)
    next
      case (Inr key)
      have "ledger_step call (C, G) = (add_lease key h C, G)"
        using CheckOut G Inr by (auto simp: lease_key_Inr_iff split: option.splits)
      moreover have "lease_count (lease_table r) key h + 1 < 2 ^ 32" using le [of key h] C n by simp
      ultimately show ?thesis using CheckOut Inr live ok C G le table_ok_record [OF ok]
        by (auto simp: record_check_out_lease_spec registry_sim_def le_SucI add_lease_def)
    qed
  next
    case (ReleaseOne surface_id h)
    obtain ans r' where res: "release_one_check_out_lease surface_id h r = (ans, r')" by fastforce
    from release_one_check_out_lease_spec [OF ok live refl res] show ?thesis
      using ReleaseOne C G le res
      by (auto simp: registry_sim_def sub_lease_def intro: le_SucI diff_le_self [THEN order_trans])
  next
    case (ReleaseAll h)
    then show ?thesis using live C G le drop_holder_table [OF ok refl, of h]
      by (auto simp: registry_sim_def release_every_check_out_lease_held_by_def readable_table_def
          Let_def drop_leases_def intro: le_SucI)
  next
    case (Publish key g)
    then show ?thesis using live ok C G le publish_table [of key g "lease_table r"]
      by (auto simp: registry_sim_def publish_frame_generation_def readable_table_def alist_simps
          publish_frame_generation_in_table_def le_SucI)
  qed
qed

lemma registry_sim_run:
  assumes "registry_sim r s n" "n + length calls < 2 ^ 32"
  shows "registry_sim (fold lease_step calls r) (fold ledger_step calls s) (n + length calls)"
  using assms
proof (induction calls arbitrary: r s n)
  case (Cons call calls)
  obtain C G where s: "s = (C, G)" by fastforce
  have "registry_sim (lease_step call r) (ledger_step call s) (n + 1)"
    using registry_sim_step [of r C G n call] Cons.prems s by simp
  from Cons.IH [OF this] Cons.prems show ?case by simp
qed simp

lemma registry_sim_new: "registry_sim lease_registry_new (\<lambda>_ _. 0, Map.empty) 0"
  by (simp add: registry_sim_def lease_registry_new_def table_ok_def lease_count_def
      get_or_default_def fun_eq_iff)

subsection \<open>Properties\<close>

text \<open>C33: a published frame id names one frame. Displaying an id and reading it back gives the
  same slot and generation, for every non-empty slot id (a slot id may itself contain a hash
  sign) and every 64-bit generation; and its lease key is the slot.\<close>

theorem published_frame_id_roundtrip:
  assumes "pool_slot_id f \<noteq> []"
  shows "frame_id_parse (frame_id_display f) = Some f \<and>
    pool_slot_key_of_surface_id (frame_id_display f) = pool_slot_id f"
  using assms
  by (simp add: frame_id_parse_def pool_slot_key_of_surface_id_def frame_id_split)

theorem published_frame_id_roundtrip_witness:
  "frame_id_parse (frame_id_display \<lparr>pool_slot_id = ''slot#7'', frame_generation = 42\<rparr>) =
     Some \<lparr>pool_slot_id = ''slot#7'', frame_generation = 42\<rparr>"
  using published_frame_id_roundtrip [of "\<lparr>pool_slot_id = ''slot#7'', frame_generation = 42\<rparr>"]
  by simp

text \<open>C15: check-outs are counted, never collapsed. After any sequence of check-outs, releases,
  dropped connections and publications on a fresh registry (fewer than \<open>2 ^ 32\<close> calls), each
  holder's outstanding count on a slot is exactly its successful check-outs less its releases
  since its connection last dropped, and the pool's availability test reports a slot checked
  out exactly when some holder's count is positive: releasing one of two check-outs leaves the
  other standing.\<close>

theorem lease_registry_counts_check_outs:
  assumes "length calls < 2 ^ 32" "fold ledger_step calls (\<lambda>_ _. 0, Map.empty) = (C, G)"
    and "r = fold lease_step calls lease_registry_new"
  shows "(\<forall>key h. lease_count (lease_table r) key h = C key h) \<and>
    (\<forall>surface_id. is_checked_out_by_any_holder (lease_table r) surface_id \<longleftrightarrow>
      (\<exists>h. 0 < C (pool_slot_key_of_surface_id surface_id) h)) \<and>
    (\<forall>slot. current_frame_generation slot r = Inr (G slot))"
proof -
  have "registry_sim r (C, G) (length calls)"
    using registry_sim_run [OF registry_sim_new, of calls] assms by simp
  then have "table_ok (lease_table r)" "lease_count (lease_table r) = C"
    "map_of (current_frame_generation_by_pool_slot (lease_table r)) = G" "\<not> poisoned r"
    by (auto simp: registry_sim_def)
  then show ?thesis
    by (simp add: is_checked_out_iff current_frame_generation_def readable_table_def)
qed

theorem lease_registry_counts_check_outs_witness:
  "is_checked_out_by_any_holder (lease_table (fold lease_step
     [Publish ''s'' 1, CheckOut ''s#1'' 0, CheckOut ''s#1'' 0, ReleaseOne ''s#1'' 0]
     lease_registry_new)) ''s'' \<and>
   \<not> is_checked_out_by_any_holder (lease_table (fold lease_step
     [Publish ''s'' 1, CheckOut ''s#2'' 0] lease_registry_new)) ''s''"
proof -
  have "dec_string 1 = ''1''" "dec_string 2 = ''2''" by code_simp+
  then have s: "split_pool_slot_and_frame_generation ''s#1'' = Some (''s'', 1)"
    "split_pool_slot_and_frame_generation ''s#2'' = Some (''s'', 2)"
    "split_pool_slot_and_frame_generation ''s'' = None"
    using split_display [of "''s''" 1] split_display [of "''s''" 2]
    by (simp_all add: split_pool_slot_and_frame_generation_def [of "''s''"] rsplit_once_def)
  then have k: "pool_slot_key_of_surface_id ''s#1'' = ''s''"
    "pool_slot_key_of_surface_id ''s'' = ''s''"
    by (simp_all add: pool_slot_key_of_surface_id_def)
  let ?c1 = "[Publish ''s'' 1, CheckOut ''s#1'' 0, CheckOut ''s#1'' 0, ReleaseOne ''s#1'' 0]"
  let ?c2 = "[Publish ''s'' 1, CheckOut ''s#2'' 0]"
  let ?z = "\<lambda>_ _. 0 :: nat"
  have l1: "fold ledger_step ?c1 (?z, Map.empty) =
      (sub_lease ''s'' 0 (add_lease ''s'' 0 (add_lease ''s'' 0 ?z)), [''s'' \<mapsto> 1])"
    by (simp add: s k)
  have l2: "fold ledger_step ?c2 (?z, Map.empty) = (?z, [''s'' \<mapsto> 1])"
    by (simp add: s)
  have "\<exists>h. 0 < sub_lease ''s'' 0 (add_lease ''s'' 0 (add_lease ''s'' 0 ?z)) ''s'' h"
    by (intro exI [of _ 0]) (simp add: sub_lease_def add_lease_def)
  with lease_registry_counts_check_outs [OF _ l1 refl] lease_registry_counts_check_outs [OF _ l2 refl]
  show ?thesis by (simp add: k)
qed

end
