(* ===== verification/Pixel_Pool.thy ===== *)
theory Pixel_Pool
  imports Surface_Leases
begin

text \<open>
  The pixel-buffer pool manager of \<open>core/context/gpu_context.rs\<close>: ring pools per (width,
  height, format), the hand-off of a slot to its producer, and how it consults the lease
  registry. The platform's buffer pool, the host-side reference counts and the surface-share
  registration are the environment: \<open>pool_env\<close> holds what the manager calls. Log lines are left
  out.
\<close>

datatype pixel_format =
  Bgra32 | Rgba32 | Argb32 | Rgba64 | Rgba16Float | Rgba32Float
| Nv12VideoRange | Nv12FullRange | Uyvy422 | Yuyv422 | Gray8 | Unknown

fun bits_per_pixel :: "pixel_format \<Rightarrow> nat" where
  "bits_per_pixel Bgra32 = 32"
| "bits_per_pixel Rgba32 = 32"
| "bits_per_pixel Argb32 = 32"
| "bits_per_pixel Rgba64 = 64"
| "bits_per_pixel Rgba16Float = 64"
| "bits_per_pixel Rgba32Float = 128"
| "bits_per_pixel Nv12VideoRange = 12"
| "bits_per_pixel Nv12FullRange = 12"
| "bits_per_pixel Uyvy422 = 16"
| "bits_per_pixel Yuyv422 = 16"
| "bits_per_pixel Gray8 = 8"
| "bits_per_pixel Unknown = 0"

record pool_key =
  pk_width :: u32
  pk_height :: u32
  pk_format :: pixel_format

record 'b ring_entry =
  entry_slot :: string
  entry_buffer :: 'b
  entry_generation :: u64

record ('p, 'b) ring_pool =
  underlying_pool :: 'p
  ring_buffers :: "'b ring_entry list"
  next_index :: nat

record ('p, 'b) pool_manager =
  pools :: "(pool_key \<times> ('p, 'b) ring_pool) list"
  buffer_cache :: "(string \<times> 'b) list"
  minted_frame_generation_by_pool_slot :: "(string \<times> u64) list"

text \<open>Every variant is an \<open>Error::Configuration\<close> but the one the platform pool returned.\<close>

datatype pool_error =
  ZeroBitsPerPixel pixel_format
| PlatformPool string
| NoBuffersAvailable
| AllBuffersInUse

abbreviation POOL_PRE_ALLOCATE_COUNT :: nat where "POOL_PRE_ALLOCATE_COUNT \<equiv> 4"
abbreviation POOL_MAX_BUFFER_COUNT :: nat where "POOL_MAX_BUFFER_COUNT \<equiv> 64"
abbreviation MAX_BUFFER_CACHE_SIZE :: nat where "MAX_BUFFER_CACHE_SIZE \<equiv> 512"

record ('p, 'b, 'w) pool_env =
  platform_pool_new :: "pool_key \<Rightarrow> nat \<Rightarrow> nat \<Rightarrow> string + 'p"
  platform_pool_acquire :: "'p \<Rightarrow> (string + string \<times> 'b) \<times> 'p"
  platform_allocate_additional_buffer :: "'p \<Rightarrow> (string + string \<times> 'b) \<times> 'p"
  strong_count :: "'b \<Rightarrow> nat"
  store_register_buffer :: "(string \<Rightarrow> 'b \<Rightarrow> 'w \<Rightarrow> 'w) option"

subsection \<open>Ring entries\<close>

definition holding_a_fresh_allocation :: "string \<Rightarrow> 'b \<Rightarrow> 'b ring_entry" where
  "holding_a_fresh_allocation slot b =
     \<lparr>entry_slot = slot, entry_buffer = b, entry_generation = 0\<rparr>"

definition hand_off_if_unheld_in_process :: "('p, 'b, 'w) pool_env \<Rightarrow> 'b ring_entry \<Rightarrow> 'b option" where
  "hand_off_if_unheld_in_process env e =
     (if strong_count env (entry_buffer e) \<le> 2 then Some (entry_buffer e) else None)"

definition currently_published_frame_id :: "'b ring_entry \<Rightarrow> published_frame_id" where
  "currently_published_frame_id e =
     \<lparr>pool_slot_id = entry_slot e, frame_generation = entry_generation e\<rparr>"

definition mint_next_published_frame_id :: "'b ring_entry \<Rightarrow> published_frame_id \<times> 'b ring_entry" where
  "mint_next_published_frame_id e =
     (let e = e\<lparr>entry_generation := entry_generation e + 1\<rparr>
      in (currently_published_frame_id e, e))"

definition previously_published_frame_id :: "'b ring_entry \<Rightarrow> published_frame_id option" where
  "previously_published_frame_id e =
     (if 1 < entry_generation e
      then Some \<lparr>pool_slot_id = entry_slot e, frame_generation = entry_generation e - 1\<rparr> else None)"

subsection \<open>The reuse decision\<close>

datatype pool_slot_reuse =
  RefcountIsTheWholeAnswer
| LeaseAware lease_table
| NothingCanBeProvenFree

fun reuse_permits :: "pool_slot_reuse \<Rightarrow> string \<Rightarrow> bool" where
  "reuse_permits RefcountIsTheWholeAnswer slot = True"
| "reuse_permits (LeaseAware t) slot = (\<not> is_checked_out_by_any_holder t slot)"
| "reuse_permits NothingCanBeProvenFree slot = False"

fun reuse_publish_frame_generation :: "pool_slot_reuse \<Rightarrow> string \<Rightarrow> u64 \<Rightarrow> pool_slot_reuse" where
  "reuse_publish_frame_generation (LeaseAware t) slot g =
     LeaseAware (publish_frame_generation_in_table slot g t)"
| "reuse_publish_frame_generation reuse slot g = reuse"

definition reuse_of_leases :: "lease_registry option \<Rightarrow> pool_slot_reuse" where
  "reuse_of_leases leases =
     (case leases of
        None \<Rightarrow> RefcountIsTheWholeAnswer
      | Some r \<Rightarrow> (case hold_for_pool_slot_hand_off r of
                    Some t \<Rightarrow> LeaseAware t
                  | None \<Rightarrow> NothingCanBeProvenFree))"

text \<open>The guard writes through to the registry it was taken from.\<close>

fun leases_after_reuse :: "lease_registry option \<Rightarrow> pool_slot_reuse \<Rightarrow> lease_registry option" where
  "leases_after_reuse (Some r) (LeaseAware t) = Some (r\<lparr>lease_table := t\<rparr>)"
| "leases_after_reuse leases reuse = leases"

subsection \<open>Acquiring\<close>

definition index_minted_generation ::
    "'b ring_entry \<Rightarrow> ('p, 'b) pool_manager \<Rightarrow> ('p, 'b) pool_manager" where
  "index_minted_generation e m =
     m\<lparr>minted_frame_generation_by_pool_slot :=
         AList.update (entry_slot e) (entry_generation e) (minted_frame_generation_by_pool_slot m)\<rparr>"

definition minted_frame_generation_of_slot :: "('p, 'b) pool_manager \<Rightarrow> string \<Rightarrow> u64 option" where
  "minted_frame_generation_of_slot m slot = map_of (minted_frame_generation_by_pool_slot m) slot"

definition retire_previous_frame_in_cache ::
    "'b ring_entry \<Rightarrow> 'b \<Rightarrow> ('p, 'b) pool_manager \<Rightarrow> ('p, 'b) pool_manager" where
  "retire_previous_frame_in_cache e b m =
     (let cache = (case previously_published_frame_id e of
                     Some prev \<Rightarrow> AList.delete (frame_id_display prev) (buffer_cache m)
                   | None \<Rightarrow> buffer_cache m)
      in m\<lparr>buffer_cache := AList.update (frame_id_display (currently_published_frame_id e)) b cache\<rparr>)"

definition get_from_cache :: "('p, 'b) pool_manager \<Rightarrow> string \<Rightarrow> 'b option" where
  "get_from_cache m surface_id = map_of (buffer_cache m) surface_id"

definition cache_buffer :: "string \<Rightarrow> 'b \<Rightarrow> ('p, 'b) pool_manager \<Rightarrow> ('p, 'b) pool_manager" where
  "cache_buffer surface_id b m =
     (let cache = AList.update surface_id b (buffer_cache m)
      in m\<lparr>buffer_cache := (if MAX_BUFFER_CACHE_SIZE < length cache then [] else cache)\<rparr>)"

text \<open>
  Up to \<open>k\<close> allocations, each registered with the surface-share service when there is one, and
  stopping at the first failure; the loop of both the pre-allocation and the expansion.
\<close>

fun allocate_entries ::
    "('p \<Rightarrow> (string + string \<times> 'b) \<times> 'p) \<Rightarrow> (string \<Rightarrow> 'b \<Rightarrow> 'w \<Rightarrow> 'w) option \<Rightarrow> nat \<Rightarrow> 'p \<Rightarrow> 'w \<Rightarrow>
      'b ring_entry list \<times> 'p \<times> 'w" where
  "allocate_entries alloc register 0 p w = ([], p, w)"
| "allocate_entries alloc register (Suc k) p w =
     (case alloc p of
        (Inl e, p') \<Rightarrow> ([], p', w)
      | (Inr (slot, b), p') \<Rightarrow>
          (let w' = (case register of Some f \<Rightarrow> f slot b w | None \<Rightarrow> w);
               (es, p'', w'') = allocate_entries alloc register k p' w'
           in (holding_a_fresh_allocation slot b # es, p'', w'')))"

definition create_ring_pool ::
    "('p, 'b, 'w) pool_env \<Rightarrow> pool_key \<Rightarrow> 'w \<Rightarrow> pool_error + ('p, 'b) ring_pool \<times> 'w" where
  "create_ring_pool env key w =
     (let bytes_per_pixel = bits_per_pixel (pk_format key) div 8
      in if bytes_per_pixel = 0 then Inl (ZeroBitsPerPixel (pk_format key))
         else case platform_pool_new env key bytes_per_pixel POOL_PRE_ALLOCATE_COUNT of
                Inl e \<Rightarrow> Inl (PlatformPool e)
              | Inr p \<Rightarrow>
                  (let (es, p', w') = allocate_entries (platform_pool_acquire env)
                         (store_register_buffer env) POOL_PRE_ALLOCATE_COUNT p w
                   in Inr (\<lparr>underlying_pool = p', ring_buffers = es, next_index = 0\<rparr>, w')))"

text \<open>The ring scan: the index handed off, if any, and where the ring stands afterwards.\<close>

fun scan_ring ::
    "('p, 'b, 'w) pool_env \<Rightarrow> pool_slot_reuse \<Rightarrow> 'b ring_entry list \<Rightarrow> nat \<Rightarrow> nat \<Rightarrow>
      (nat \<times> 'b) option \<times> nat" where
  "scan_ring env reuse es next 0 = (None, next)"
| "scan_ring env reuse es next (Suc k) =
     (let idx = next mod length es;
          next = (next + 1) mod length es;
          e = es ! idx
      in if \<not> reuse_permits reuse (entry_slot e) then scan_ring env reuse es next k
         else case hand_off_if_unheld_in_process env e of
                Some b \<Rightarrow> (Some (idx, b), next)
              | None \<Rightarrow> scan_ring env reuse es next k)"

type_synonym ('p, 'b, 'w) pool_state = "('p, 'b) pool_manager \<times> lease_registry option \<times> 'w"

definition put_ring_pool ::
    "pool_key \<Rightarrow> ('p, 'b) ring_pool \<Rightarrow> ('p, 'b) pool_manager \<Rightarrow> ('p, 'b) pool_manager" where
  "put_ring_pool key rp m = m\<lparr>pools := AList.update key rp (pools m)\<rparr>"

definition grow_ring_pool ::
    "('p, 'b, 'w) pool_env \<Rightarrow> pool_key \<Rightarrow> ('p, 'b) ring_pool \<Rightarrow> ('p, 'b, 'w) pool_state \<Rightarrow>
      (pool_error + published_frame_id \<times> 'b) \<times> ('p, 'b, 'w) pool_state" where
  "grow_ring_pool env key rp = (\<lambda>(m, leases, w).
     let buffer_count = length (ring_buffers rp)
     in if buffer_count < POOL_MAX_BUFFER_COUNT then
          (let expand_count = min (POOL_MAX_BUFFER_COUNT - buffer_count) 4;
               (es, p, w) = allocate_entries (platform_allocate_additional_buffer env)
                 (store_register_buffer env) expand_count (underlying_pool rp) w;
               rp = rp\<lparr>underlying_pool := p, ring_buffers := ring_buffers rp @ es\<rparr>
           in case es of
                [] \<Rightarrow> (Inl AllBuffersInUse, put_ring_pool key rp m, leases, w)
              | first # rest \<Rightarrow>
                  (let (published, e) = mint_next_published_frame_id first;
                       rp = rp\<lparr>ring_buffers := (ring_buffers rp)[buffer_count := e]\<rparr>;
                       m = index_minted_generation e (put_ring_pool key rp m);
                       leases = (case leases of
                                   Some r \<Rightarrow> Some (snd (publish_frame_generation (entry_slot e)
                                               (entry_generation e) r))
                                 | None \<Rightarrow> None);
                       b = entry_buffer e
                   in (Inr (published, b), retire_previous_frame_in_cache e b m, leases, w)))
        else (Inl AllBuffersInUse, put_ring_pool key rp m, leases, w))"

definition acquire_from_ring ::
    "('p, 'b, 'w) pool_env \<Rightarrow> pool_key \<Rightarrow> ('p, 'b) ring_pool \<Rightarrow> ('p, 'b, 'w) pool_state \<Rightarrow>
      (pool_error + published_frame_id \<times> 'b) \<times> ('p, 'b, 'w) pool_state" where
  "acquire_from_ring env key rp = (\<lambda>(m, leases, w).
     let buffer_count = length (ring_buffers rp)
     in if buffer_count = 0 then (Inl NoBuffersAvailable, put_ring_pool key rp m, leases, w)
        else
          (let reuse = reuse_of_leases leases;
               (found, next) = scan_ring env reuse (ring_buffers rp) (next_index rp) buffer_count;
               rp = rp\<lparr>next_index := next\<rparr>
           in case found of
                Some (idx, b) \<Rightarrow>
                  (let (published, e) = mint_next_published_frame_id (ring_buffers rp ! idx);
                       reuse = reuse_publish_frame_generation reuse (entry_slot e) (entry_generation e);
                       rp = rp\<lparr>ring_buffers := (ring_buffers rp)[idx := e]\<rparr>;
                       m = index_minted_generation e (put_ring_pool key rp m)
                   in (Inr (published, b), retire_previous_frame_in_cache e b m,
                       leases_after_reuse leases reuse, w))
              | None \<Rightarrow> grow_ring_pool env key rp (m, leases, w)))"

definition acquire ::
    "('p, 'b, 'w) pool_env \<Rightarrow> pool_key \<Rightarrow> ('p, 'b, 'w) pool_state \<Rightarrow>
      (pool_error + published_frame_id \<times> 'b) \<times> ('p, 'b, 'w) pool_state" where
  "acquire env key = (\<lambda>(m, leases, w).
     case map_of (pools m) key of
       Some rp \<Rightarrow> acquire_from_ring env key rp (m, leases, w)
     | None \<Rightarrow>
         (case create_ring_pool env key w of
            Inl e \<Rightarrow> (Inl e, m, leases, w)
          | Inr (rp, w) \<Rightarrow> acquire_from_ring env key rp (m, leases, w)))"

subsection \<open>What the pool relies on\<close>

text \<open>
  The contract between the pool and the lease registry: publishing a generation leaves the
  leases alone and moves only the published slot's generation. Whoever holds a lease keeps
  the frame it leased through any hand-off the guard permits.
\<close>

locale hand_off_ledger =
  fixes leased :: "'t \<Rightarrow> string \<Rightarrow> bool"
    and generation :: "'t \<Rightarrow> string \<rightharpoonup> u64"
    and publish :: "string \<Rightarrow> u64 \<Rightarrow> 't \<Rightarrow> 't"
  assumes leased_publish: "leased (publish k g t) = leased t"
    and generation_publish: "generation (publish k g t) = (generation t)(k \<mapsto> g)"
begin

lemma permitted_hand_off_keeps_leased_frames:
  "\<not> leased t k \<Longrightarrow> leased t s \<Longrightarrow> generation (publish k g t) s = generation t s"
  by (auto simp: generation_publish)

lemma hand_off_retires:
  "generation (publish k g t) k = Some g' \<longleftrightarrow> g' = g"
  by (auto simp: generation_publish)

end

definition slot_leased :: "lease_table \<Rightarrow> string \<Rightarrow> bool" where
  "slot_leased t slot \<longleftrightarrow> map_of (outstanding_check_outs_by_surface_id t) slot \<noteq> None"

abbreviation slot_generation :: "lease_table \<Rightarrow> string \<rightharpoonup> u64" where
  "slot_generation t \<equiv> map_of (current_frame_generation_by_pool_slot t)"

interpretation ledger: hand_off_ledger slot_leased slot_generation publish_frame_generation_in_table
  by unfold_locales
     (simp_all add: slot_leased_def publish_frame_generation_in_table_def alist_simps fun_eq_iff)

abbreviation plain_slot :: "string \<Rightarrow> bool" where
  "plain_slot slot \<equiv> pool_slot_key_of_surface_id slot = slot"

lemma is_checked_out_plain: "plain_slot slot \<Longrightarrow> is_checked_out_by_any_holder t slot = slot_leased t slot"
  by (simp add: is_checked_out_by_any_holder_def slot_leased_def)

subsection \<open>The ring scan\<close>

definition entry_free :: "('p, 'b, 'w) pool_env \<Rightarrow> pool_slot_reuse \<Rightarrow> 'b ring_entry \<Rightarrow> bool" where
  "entry_free env reuse e \<longleftrightarrow>
     reuse_permits reuse (entry_slot e) \<and> strong_count env (entry_buffer e) \<le> 2"

lemma scan_ring_Some:
  assumes "scan_ring env reuse es next k = (Some (idx, b), next')" "es \<noteq> []"
  shows "idx < length es \<and> entry_free env reuse (es ! idx) \<and> b = entry_buffer (es ! idx)"
  using assms
  by (induction env reuse es "next" k rule: scan_ring.induct)
     (auto simp: Let_def entry_free_def hand_off_if_unheld_in_process_def split: if_splits)

lemma scan_ring_None:
  assumes "scan_ring env reuse es next k = (None, next')" "es \<noteq> []" "j < k"
  shows "\<not> entry_free env reuse (es ! ((next + j) mod length es))"
  using assms
proof (induction env reuse es "next" k arbitrary: j rule: scan_ring.induct)
  case (2 env reuse es "next" k)
  let ?n = "(next + 1) mod length es"
  have not: "\<not> entry_free env reuse (es ! (next mod length es))"
    and rest: "scan_ring env reuse es ?n k = (None, next')"
    using 2(3) by (auto simp: Let_def entry_free_def hand_off_if_unheld_in_process_def
        split: if_splits)
  show ?case
  proof (cases j)
    case (Suc i)
    have "\<not> entry_free env reuse (es ! ((?n + i) mod length es))"
    proof (cases "reuse_permits reuse (entry_slot (es ! (next mod length es)))")
      case True
      then have "hand_off_if_unheld_in_process env (es ! (next mod length es)) = None"
        using not by (simp add: entry_free_def hand_off_if_unheld_in_process_def)
      with 2(2) [OF refl refl refl _ this, of i] True rest 2(4,5) Suc show ?thesis by simp
    next
      case False
      with 2(1) [OF refl refl refl False, of i] rest 2(4,5) Suc show ?thesis by simp
    qed
    moreover have "(?n + i) mod length es = (next + j) mod length es"
      using Suc mod_add_left_eq [of "next + 1" "length es" i] by simp
    ultimately show ?thesis by simp
  qed (use not in simp)
qed simp

text \<open>A scan over the whole ring that finds nothing has seen every entry refused.\<close>

lemma scan_ring_covers:
  assumes "scan_ring env reuse es next (length es) = (None, next')" "e \<in> set es"
  shows "\<not> entry_free env reuse e"
proof -
  from assms(2) obtain i where i: "i < length es" "e = es ! i" by (auto simp: in_set_conv_nth)
  let ?n = "length es"
  let ?j = "(i + ?n - next mod ?n) mod ?n"
  have n: "0 < ?n" using i by auto
  have "(next + ?j) mod ?n = (next mod ?n + (i + ?n - next mod ?n)) mod ?n"
    by (simp add: mod_simps)
  also have "\<dots> = (i + ?n) mod ?n" using n mod_less_divisor [OF n, of "next"]
    by (metis add_diff_inverse_nat less_le_trans not_less less_imp_le_nat le_add2 add.commute
        le_add_diff_inverse trans_le_add2)
  also have "\<dots> = i" using i by simp
  finally have "(next + ?j) mod ?n = i" .
  moreover have "?j < ?n" using n by simp
  moreover have "es \<noteq> []" using n by auto
  ultimately show ?thesis using scan_ring_None [OF assms(1)] i by metis
qed

lemma allocate_entries_fresh:
  "allocate_entries alloc register k p w = (es, p', w') \<Longrightarrow> e \<in> set es \<Longrightarrow>
     entry_generation e = 0 \<and> (\<exists>q q'. alloc q = (Inr (entry_slot e, entry_buffer e), q'))"
proof (induction alloc register k p w arbitrary: es p' w' rule: allocate_entries.induct)
  case (2 alloc register k p w)
  then show ?case
    by (auto simp: Let_def holding_a_fresh_allocation_def split: prod.splits sum.splits option.splits)
       (metis surj_pair)+
qed simp

subsection \<open>The three outcomes of an acquisition\<close>

definition reused_entry ::
    "('p, 'b, 'w) pool_env \<Rightarrow> lease_registry \<Rightarrow> 'b ring_entry \<Rightarrow>
      (pool_error + published_frame_id \<times> 'b) \<Rightarrow> lease_registry \<Rightarrow> bool" where
  "reused_entry env r e res r' \<longleftrightarrow>
     \<not> is_checked_out_by_any_holder (lease_table r) (entry_slot e) \<and>
     strong_count env (entry_buffer e) \<le> 2 \<and>
     res = Inr (\<lparr>pool_slot_id = entry_slot e, frame_generation = entry_generation e + 1\<rparr>, entry_buffer e) \<and>
     r' = r\<lparr>lease_table :=
       publish_frame_generation_in_table (entry_slot e) (entry_generation e + 1) (lease_table r)\<rparr>"

definition grown_slot ::
    "('p, 'b, 'w) pool_env \<Rightarrow> lease_registry \<Rightarrow> (pool_error + published_frame_id \<times> 'b) \<Rightarrow>
      lease_registry \<Rightarrow> bool" where
  "grown_slot env r res r' \<longleftrightarrow>
     (\<exists>slot b q q'. platform_allocate_additional_buffer env q = (Inr (slot, b), q') \<and>
        res = Inr (\<lparr>pool_slot_id = slot, frame_generation = 1\<rparr>, b) \<and>
        r' = r\<lparr>lease_table := publish_frame_generation_in_table slot 1 (lease_table r)\<rparr>)"

lemma grow_ring_pool_cases:
  assumes "grow_ring_pool env key rp (m, Some r, w) = (res, m', l', w')" "\<not> poisoned r"
  shows "(length (ring_buffers rp) < 64 \<and> (\<exists>r'. l' = Some r' \<and> grown_slot env r res r')) \<or>
    ((\<exists>e. res = Inl e) \<and> l' = Some r)"
proof (cases "length (ring_buffers rp) < 64")
  case True
  obtain es p w1 where al: "allocate_entries (platform_allocate_additional_buffer env)
      (store_register_buffer env) (min (64 - length (ring_buffers rp)) 4) (underlying_pool rp) w =
      (es, p, w1)" by (metis surj_pair)
  show ?thesis
  proof (cases es)
    case Nil
    then show ?thesis using assms True al by (auto simp: grow_ring_pool_def Let_def)
  next
    case (Cons e rest)
    from allocate_entries_fresh [OF al, of e] Cons obtain q q' where
      "entry_generation e = 0" "platform_allocate_additional_buffer env q =
        (Inr (entry_slot e, entry_buffer e), q')" by auto
    then show ?thesis using assms True al Cons
      by (auto simp: grow_ring_pool_def Let_def grown_slot_def mint_next_published_frame_id_def
          currently_published_frame_id_def publish_frame_generation_def readable_table_def)
  qed
qed (use assms in \<open>auto simp: grow_ring_pool_def Let_def\<close>)

lemma acquire_from_ring_cases:
  assumes acq: "acquire_from_ring env key rp (m, Some r, w) = (res, m', l', w')"
    and live: "\<not> poisoned r"
  shows "(\<exists>e \<in> set (ring_buffers rp). \<exists>r'. l' = Some r' \<and> reused_entry env r e res r') \<or>
    ((\<forall>e \<in> set (ring_buffers rp). \<not> entry_free env (LeaseAware (lease_table r)) e) \<and>
      length (ring_buffers rp) < 64 \<and> (\<exists>r'. l' = Some r' \<and> grown_slot env r res r')) \<or>
    ((\<exists>e. res = Inl e) \<and> l' = Some r)"
proof (cases "ring_buffers rp = []")
  case True
  then show ?thesis using acq by (auto simp: acquire_from_ring_def)
next
  case ne: False
  have reuse: "reuse_of_leases (Some r) = LeaseAware (lease_table r)"
    using live by (simp add: reuse_of_leases_def hold_for_pool_slot_hand_off_def)
  obtain found nxt where scan: "scan_ring env (LeaseAware (lease_table r)) (ring_buffers rp)
      (next_index rp) (length (ring_buffers rp)) = (found, nxt)" by fastforce
  show ?thesis
  proof (cases found)
    case None
    with scan have "\<forall>e \<in> set (ring_buffers rp). \<not> entry_free env (LeaseAware (lease_table r)) e"
      using scan_ring_covers by blast
    moreover have "grow_ring_pool env key (rp\<lparr>next_index := nxt\<rparr>) (m, Some r, w) = (res, m', l', w')"
      using acq ne reuse scan None by (simp add: acquire_from_ring_def Let_def)
    from grow_ring_pool_cases [OF this live]
    have "(length (ring_buffers rp) < 64 \<and> (\<exists>r'. l' = Some r' \<and> grown_slot env r res r')) \<or>
      ((\<exists>e. res = Inl e) \<and> l' = Some r)" by simp
    ultimately show ?thesis by blast
  next
    case (Some ib)
    obtain idx b where ib: "ib = (idx, b)" by fastforce
    from scan_ring_Some [OF scan [unfolded Some ib] ne] have
      S: "idx < length (ring_buffers rp)" "entry_free env (LeaseAware (lease_table r)) (ring_buffers rp ! idx)"
        "b = entry_buffer (ring_buffers rp ! idx)" by auto
    then have "ring_buffers rp ! idx \<in> set (ring_buffers rp)" by simp
    moreover have "\<exists>r'. l' = Some r' \<and> reused_entry env r (ring_buffers rp ! idx) res r'"
      using acq ne reuse scan Some ib S
      by (auto simp: acquire_from_ring_def Let_def mint_next_published_frame_id_def entry_free_def
          currently_published_frame_id_def reused_entry_def)
    ultimately show ?thesis by blast
  qed
qed

subsection \<open>Properties of one acquisition\<close>

lemma retired_id_refused:
  assumes "\<not> poisoned r" "slot_generation (lease_table r) (pool_slot_id f) = Some g"
    "pool_slot_id f \<noteq> []" "frame_generation f \<noteq> g"
  shows "record_check_out_lease (frame_id_display f) h r =
    (Inl (SurfaceFrameRecycled (frame_id_display f) (frame_generation f) g), r)"
  using assms
  by (simp add: record_check_out_lease_spec lease_key_of_a_live_frame_def frame_id_split)

text \<open>C8: an acquisition never takes a frame somebody is reading. A successful acquisition from
  an existing pool either reuses a ring slot that no process has checked out and whose buffer
  has no in-process holder beyond the pool and its cache, publishing the slot's next
  generation, or, only when every slot of the ring is leased or held and the ring is below its
  limit, publishes generation 1 of a newly allocated slot. Either way the published generation
  is the registry's current one for that slot, and a check-out of any other generation of it is
  refused as recycled without recording a lease.\<close>

theorem acquire_never_rehands_a_held_slot:
  assumes "acquire env key (m, Some r, w) = (Inr (f, b), m', l', w')"
    and "map_of (pools m) key = Some rp" "\<not> poisoned r"
  shows "((\<exists>e \<in> set (ring_buffers rp). pool_slot_id f = entry_slot e \<and>
        frame_generation f = entry_generation e + 1 \<and> b = entry_buffer e \<and>
        \<not> is_checked_out_by_any_holder (lease_table r) (entry_slot e) \<and> strong_count env b \<le> 2) \<or>
      ((\<forall>e \<in> set (ring_buffers rp). is_checked_out_by_any_holder (lease_table r) (entry_slot e) \<or>
          2 < strong_count env (entry_buffer e)) \<and>
        frame_generation f = 1 \<and> length (ring_buffers rp) < POOL_MAX_BUFFER_COUNT)) \<and>
    (\<exists>r'. l' = Some r' \<and> current_frame_generation (pool_slot_id f) r' = Inr (Some (frame_generation f)) \<and>
      (\<forall>g h. g \<noteq> frame_generation f \<and> pool_slot_id f \<noteq> [] \<longrightarrow>
        record_check_out_lease (frame_id_display (f\<lparr>frame_generation := g\<rparr>)) h r' =
          (Inl (SurfaceFrameRecycled (frame_id_display (f\<lparr>frame_generation := g\<rparr>)) g
            (frame_generation f)), r')))"
proof -
  have "acquire_from_ring env key rp (m, Some r, w) = (Inr (f, b), m', l', w')"
    using assms(1,2) by (simp add: acquire_def)
  note cases = acquire_from_ring_cases [OF this assms(3)]
  have after: "\<exists>r'. l' = Some r' \<and> \<not> poisoned r' \<and>
      slot_generation (lease_table r') (pool_slot_id f) = Some (frame_generation f)"
    using cases assms(3)
    by (auto simp: reused_entry_def grown_slot_def ledger.generation_publish)
  have "\<forall>g h. g \<noteq> frame_generation f \<and> pool_slot_id f \<noteq> [] \<longrightarrow>
      record_check_out_lease (frame_id_display (f\<lparr>frame_generation := g\<rparr>)) h r' =
        (Inl (SurfaceFrameRecycled (frame_id_display (f\<lparr>frame_generation := g\<rparr>)) g
          (frame_generation f)), r')"
    if "\<not> poisoned r'" "slot_generation (lease_table r') (pool_slot_id f) = Some (frame_generation f)" for r'
    using retired_id_refused [of r' "f\<lparr>frame_generation := _\<rparr>" "frame_generation f"] that by simp
  with after have "\<exists>r'. l' = Some r' \<and>
      current_frame_generation (pool_slot_id f) r' = Inr (Some (frame_generation f)) \<and>
      (\<forall>g h. g \<noteq> frame_generation f \<and> pool_slot_id f \<noteq> [] \<longrightarrow>
        record_check_out_lease (frame_id_display (f\<lparr>frame_generation := g\<rparr>)) h r' =
          (Inl (SurfaceFrameRecycled (frame_id_display (f\<lparr>frame_generation := g\<rparr>)) g
            (frame_generation f)), r'))"
    by (auto simp: current_frame_generation_def readable_table_def)
  moreover have "(\<exists>e \<in> set (ring_buffers rp). pool_slot_id f = entry_slot e \<and>
        frame_generation f = entry_generation e + 1 \<and> b = entry_buffer e \<and>
        \<not> is_checked_out_by_any_holder (lease_table r) (entry_slot e) \<and> strong_count env b \<le> 2) \<or>
      ((\<forall>e \<in> set (ring_buffers rp). is_checked_out_by_any_holder (lease_table r) (entry_slot e) \<or>
          2 < strong_count env (entry_buffer e)) \<and>
        frame_generation f = 1 \<and> length (ring_buffers rp) < POOL_MAX_BUFFER_COUNT)"
    using cases by (auto simp: reused_entry_def grown_slot_def entry_free_def)
  ultimately show ?thesis by blast
qed

theorem acquire_never_rehands_a_held_slot_witness:
  "\<exists>env key m r' m' w'.
     acquire env key (m, Some lease_registry_new, ()) =
       (Inr (\<lparr>pool_slot_id = ''s'', frame_generation = 1\<rparr>, (7 :: nat)), (m' :: (unit, nat) pool_manager),
        Some r', w') \<and>
     record_check_out_lease (frame_id_display \<lparr>pool_slot_id = ''s'', frame_generation = 0\<rparr>) 3 r' =
       (Inl (SurfaceFrameRecycled (frame_id_display \<lparr>pool_slot_id = ''s'', frame_generation = 0\<rparr>) 0 1), r')"
proof -
  let ?env = "\<lparr>platform_pool_new = (\<lambda>_ _ _. Inr ()), platform_pool_acquire = (\<lambda>p. (Inl [], p)),
      platform_allocate_additional_buffer = (\<lambda>p. (Inl [], p)), strong_count = (\<lambda>_ :: nat. 1),
      store_register_buffer = None :: (string \<Rightarrow> nat \<Rightarrow> unit \<Rightarrow> unit) option\<rparr>"
  let ?key = "\<lparr>pk_width = 4, pk_height = 4, pk_format = Bgra32\<rparr>"
  let ?rp = "\<lparr>underlying_pool = (),
      ring_buffers = [\<lparr>entry_slot = ''s'', entry_buffer = 7, entry_generation = 0\<rparr>], next_index = 0\<rparr>"
  let ?m = "\<lparr>pools = [(?key, ?rp)], buffer_cache = [], minted_frame_generation_by_pool_slot = []\<rparr>"
  let ?f = "\<lparr>pool_slot_id = ''s'', frame_generation = 1\<rparr>"
  obtain res m' l' w' where acq: "acquire ?env ?key (?m, Some lease_registry_new, ()) = (res, m', l', w')"
    by (metis surj_pair)
  have "fst (acquire ?env ?key (?m, Some lease_registry_new, ())) = Inr (?f, 7)"
    by (simp add: acquire_def acquire_from_ring_def reuse_of_leases_def lease_registry_new_def
        hold_for_pool_slot_hand_off_def is_checked_out_by_any_holder_def Let_def
        hand_off_if_unheld_in_process_def mint_next_published_frame_id_def
        currently_published_frame_id_def)
  with acq have res: "res = Inr (?f, 7)" by simp
  from acquire_never_rehands_a_held_slot [OF acq [unfolded res], of ?rp]
  obtain r' where r': "l' = Some r'" "\<And>g h. g \<noteq> 1 \<Longrightarrow>
      record_check_out_lease (frame_id_display (?f\<lparr>frame_generation := g\<rparr>)) h r' =
        (Inl (SurfaceFrameRecycled (frame_id_display (?f\<lparr>frame_generation := g\<rparr>)) g 1), r')"
    by (auto simp: lease_registry_new_def)
  from r'(2) [of 0 3] have "record_check_out_lease (frame_id_display \<lparr>pool_slot_id = ''s'', frame_generation = 0\<rparr>) 3 r' =
       (Inl (SurfaceFrameRecycled (frame_id_display \<lparr>pool_slot_id = ''s'', frame_generation = 0\<rparr>) 0 1), r')"
    by simp
  with acq res r'(1) show ?thesis by blast
qed

subsection \<open>Producers and consumers together\<close>

text \<open>
  The pool and the lease registry as one system. A consumer checks a published frame out
  under some connection, releases it or loses its connection; a producer acquires. The lock on
  the lease table makes each of these one step. The component \<open>held\<close> is a ghost: the frames
  checked out and not yet given back, with the generation each check-out named.
\<close>

record ('p, 'b, 'w) surface_system =
  mgr :: "('p, 'b) pool_manager"
  reg :: lease_registry
  world :: 'w
  held :: "(string \<times> u64 \<times> holder_id) list"

fun give_back :: "string \<Rightarrow> holder_id \<Rightarrow> (string \<times> u64 \<times> holder_id) list \<Rightarrow> (string \<times> u64 \<times> holder_id) list" where
  "give_back slot h [] = []"
| "give_back slot h ((s, g, k) # xs) =
     (if s = slot \<and> k = h then xs else (s, g, k) # give_back slot h xs)"

text \<open>Slot ids are fresh UUIDs: none carries a generation suffix and none is leased yet.\<close>

definition env_mints_fresh_slots :: "('p, 'b, 'w) pool_env \<Rightarrow> lease_registry \<Rightarrow> bool" where
  "env_mints_fresh_slots env r \<longleftrightarrow>
     (\<forall>q slot b q'. platform_pool_acquire env q = (Inr (slot, b), q') \<longrightarrow> plain_slot slot) \<and>
     (\<forall>q slot b q'. platform_allocate_additional_buffer env q = (Inr (slot, b), q') \<longrightarrow>
        plain_slot slot \<and> \<not> slot_leased (lease_table r) slot)"

inductive surface_step :: "('p, 'b, 'w) surface_system \<Rightarrow> ('p, 'b, 'w) surface_system \<Rightarrow> bool" where
  check_out_frame:
    "record_check_out_lease (frame_id_display f) h (reg s) = (Inr (), r') \<Longrightarrow> pool_slot_id f \<noteq> [] \<Longrightarrow>
     lease_count (lease_table (reg s)) (pool_slot_id f) h + 1 < 2 ^ 32 \<Longrightarrow>
     surface_step s (s\<lparr>reg := r', held := (pool_slot_id f, frame_generation f, h) # held s\<rparr>)"
| check_out_plain:
    "record_check_out_lease surface_id h (reg s) = (ans, r') \<Longrightarrow>
     split_pool_slot_and_frame_generation surface_id = None \<Longrightarrow>
     lease_count (lease_table (reg s)) surface_id h + 1 < 2 ^ 32 \<Longrightarrow>
     surface_step s (s\<lparr>reg := r'\<rparr>)"
| release:
    "release_one_check_out_lease surface_id h (reg s) = (ans, r') \<Longrightarrow>
     surface_step s (s\<lparr>reg := r', held := give_back (pool_slot_key_of_surface_id surface_id) h (held s)\<rparr>)"
| connection_dropped:
    "release_every_check_out_lease_held_by h (reg s) = (ans, r') \<Longrightarrow>
     surface_step s (s\<lparr>reg := r', held := filter (\<lambda>(slot, g, k). k \<noteq> h) (held s)\<rparr>)"
| produce:
    "env_mints_fresh_slots env (reg s) \<Longrightarrow>
     acquire env key (mgr s, Some (reg s), world s) = (res, m', Some r', w') \<Longrightarrow>
     surface_step s (s\<lparr>mgr := m', reg := r', world := w'\<rparr>)"

inductive surface_reachable :: "'w \<Rightarrow> ('p, 'b, 'w) surface_system \<Rightarrow> bool" for w0 where
  start: "surface_reachable w0 \<lparr>mgr = \<lparr>pools = [], buffer_cache = [], minted_frame_generation_by_pool_slot = []\<rparr>,
    reg = lease_registry_new, world = w0, held = []\<rparr>"
| step: "surface_reachable w0 s \<Longrightarrow> surface_step s s' \<Longrightarrow> surface_reachable w0 s'"

definition held_count :: "(string \<times> u64 \<times> holder_id) list \<Rightarrow> lease_counts" where
  "held_count xs slot h = length (filter (\<lambda>(s, g, k). s = slot \<and> k = h) xs)"

definition mgr_plain :: "('p, 'b) pool_manager \<Rightarrow> bool" where
  "mgr_plain m \<longleftrightarrow> (\<forall>key rp. map_of (pools m) key = Some rp \<longrightarrow>
     (\<forall>e \<in> set (ring_buffers rp). plain_slot (entry_slot e)))"

definition surface_inv :: "('p, 'b, 'w) surface_system \<Rightarrow> bool" where
  "surface_inv s \<longleftrightarrow> \<not> poisoned (reg s) \<and> table_ok (lease_table (reg s)) \<and> mgr_plain (mgr s) \<and>
     (\<forall>slot h. held_count (held s) slot h \<le> lease_count (lease_table (reg s)) slot h) \<and>
     (\<forall>slot g h. (slot, g, h) \<in> set (held s) \<longrightarrow> slot_generation (lease_table (reg s)) slot = Some g)"

lemma held_count_give_back:
  "held_count (give_back slot h xs) s k = held_count xs s k - (if s = slot \<and> k = h then 1 else 0)"
  by (induction slot h xs rule: give_back.induct) (auto simp: held_count_def)

lemma set_give_back: "set (give_back slot h xs) \<subseteq> set xs"
  by (induction slot h xs rule: give_back.induct) auto

lemma held_count_filter:
  "held_count (filter (\<lambda>(slot, g, k). k \<noteq> h) xs) s k = (if k = h then 0 else held_count xs s k)"
  by (induction xs) (auto simp: held_count_def)

lemma held_slot_leased:
  assumes "surface_inv s" "(slot, g, h) \<in> set (held s)"
  shows "slot_leased (lease_table (reg s)) slot"
proof -
  have "(slot, g, h) \<in> set (filter (\<lambda>(s', g', k). s' = slot \<and> k = h) (held s))" using assms(2) by simp
  then have "0 < held_count (held s) slot h" unfolding held_count_def by (metis length_pos_if_in_set)
  then have "0 < lease_count (lease_table (reg s)) slot h"
    using assms(1) by (auto simp: surface_inv_def intro: less_le_trans)
  then show ?thesis using assms(1) lease_count_positive_iff
    by (auto simp: surface_inv_def slot_leased_def)
qed

lemma mgr_plain_simps [simp]:
  "mgr_plain (index_minted_generation e m) = mgr_plain m"
  "mgr_plain (retire_previous_frame_in_cache e b m) = mgr_plain m"
  by (simp_all add: mgr_plain_def index_minted_generation_def retire_previous_frame_in_cache_def Let_def)

lemma mgr_plain_put:
  assumes "mgr_plain m" "\<forall>e \<in> set (ring_buffers rp). plain_slot (entry_slot e)"
  shows "mgr_plain (put_ring_pool key rp m)"
  using assms by (auto simp: mgr_plain_def put_ring_pool_def alist_simps)

lemma allocate_entries_plain:
  assumes "allocate_entries alloc register k p w = (es, p', w')"
    and "\<forall>q slot b q'. alloc q = (Inr (slot, b), q') \<longrightarrow> plain_slot slot"
  shows "\<forall>e \<in> set es. plain_slot (entry_slot e)"
  using allocate_entries_fresh [OF assms(1)] assms(2) by blast

lemma grow_ring_pool_plain:
  assumes "grow_ring_pool env key rp (m, leases, w) = (res, m', l', w')"
    and "mgr_plain m" "\<forall>e \<in> set (ring_buffers rp). plain_slot (entry_slot e)"
    and "env_mints_fresh_slots env r"
  shows "mgr_plain m'"
proof (cases "length (ring_buffers rp) < 64")
  case True
  obtain es p w1 where al: "allocate_entries (platform_allocate_additional_buffer env)
      (store_register_buffer env) (min (64 - length (ring_buffers rp)) 4) (underlying_pool rp) w =
      (es, p, w1)" by (metis surj_pair)
  have "\<forall>e \<in> set es. plain_slot (entry_slot e)"
    using assms(4) by (intro allocate_entries_plain [OF al]) (auto simp: env_mints_fresh_slots_def)
  then show ?thesis using assms(1-3) True al
    by (auto simp: grow_ring_pool_def Let_def mint_next_published_frame_id_def
        intro!: mgr_plain_put split: list.splits)
qed (use assms in \<open>auto simp: grow_ring_pool_def Let_def intro!: mgr_plain_put\<close>)

lemma acquire_from_ring_plain:
  assumes "acquire_from_ring env key rp (m, leases, w) = (res, m', l', w')"
    and "mgr_plain m" and plain: "\<forall>e \<in> set (ring_buffers rp). plain_slot (entry_slot e)"
    and "env_mints_fresh_slots env r"
  shows "mgr_plain m'"
proof (cases "ring_buffers rp = []")
  case True
  then show ?thesis using assms by (auto simp: acquire_from_ring_def intro!: mgr_plain_put)
next
  case False
  obtain found nxt where scan: "scan_ring env (reuse_of_leases leases) (ring_buffers rp)
      (next_index rp) (length (ring_buffers rp)) = (found, nxt)" by fastforce
  show ?thesis
  proof (cases found)
    case None
    then have "grow_ring_pool env key (rp\<lparr>next_index := nxt\<rparr>) (m, leases, w) = (res, m', l', w')"
      using assms(1) False scan by (simp add: acquire_from_ring_def Let_def)
    from grow_ring_pool_plain [OF this assms(2) _ assms(4)] plain show ?thesis by simp
  next
    case (Some ib)
    obtain idx b where ib: "ib = (idx, b)" by fastforce
    let ?e = "ring_buffers rp ! idx"
    have "idx < length (ring_buffers rp)" using scan_ring_Some [OF scan [unfolded Some ib] False] by simp
    then have "plain_slot (entry_slot ?e)" using plain by simp
    then have "\<forall>e \<in> set ((ring_buffers rp)[idx := ?e\<lparr>entry_generation := entry_generation ?e + 1\<rparr>]).
        plain_slot (entry_slot e)"
      using plain by (auto dest!: set_update_subset_insert [THEN subsetD])
    then show ?thesis using assms(1,2) False scan Some ib
      by (auto simp: acquire_from_ring_def Let_def mint_next_published_frame_id_def
          intro!: mgr_plain_put)
  qed
qed

lemma acquire_inv:
  assumes acq: "acquire env key (m, Some r, w) = (res, m', Some r', w')"
    and live: "\<not> poisoned r" and plain: "mgr_plain m" and env: "env_mints_fresh_slots env r"
  shows "mgr_plain m' \<and> (r' = r \<or> (\<exists>slot g. \<not> slot_leased (lease_table r) slot \<and>
    r' = r\<lparr>lease_table := publish_frame_generation_in_table slot g (lease_table r)\<rparr>))"
proof -
  have ring: "mgr_plain m' \<and> (r' = r \<or> (\<exists>slot g. \<not> slot_leased (lease_table r) slot \<and>
      r' = r\<lparr>lease_table := publish_frame_generation_in_table slot g (lease_table r)\<rparr>))"
    if a: "acquire_from_ring env key rp (m, Some r, w1) = (res, m', Some r', w')"
      and p: "\<forall>e \<in> set (ring_buffers rp). plain_slot (entry_slot e)" for rp w1
    using acquire_from_ring_cases [OF a live] p acquire_from_ring_plain [OF a plain p env] env
    by (auto simp: reused_entry_def grown_slot_def is_checked_out_plain env_mints_fresh_slots_def) blast
  show ?thesis
  proof (cases "map_of (pools m) key")
    case (Some rp)
    then show ?thesis using acq plain by (intro ring [of rp w]) (auto simp: acquire_def mgr_plain_def)
  next
    case None
    show ?thesis
    proof (cases "create_ring_pool env key w")
      case (Inl e)
      then show ?thesis using None acq plain by (auto simp: acquire_def)
    next
      case (Inr rpw)
      obtain rp w1 where rpw: "rpw = (rp, w1)" by fastforce
      from Inr rpw obtain p p' where "allocate_entries (platform_pool_acquire env)
          (store_register_buffer env) 4 p w = (ring_buffers rp, p', w1)"
        by (auto simp: create_ring_pool_def Let_def split: if_splits sum.splits prod.splits)
      from allocate_entries_plain [OF this] env
      have "\<forall>e \<in> set (ring_buffers rp). plain_slot (entry_slot e)"
        by (simp add: env_mints_fresh_slots_def)
      then show ?thesis using Inr rpw None acq by (intro ring [of rp w1]) (auto simp: acquire_def)
    qed
  qed
qed

inductive_cases surface_stepE: "surface_step s s'"

lemma held_count_Cons:
  "held_count ((slot, g, h) # xs) = add_lease slot h (held_count xs)"
  by (auto simp: held_count_def add_lease_def fun_eq_iff)

lemma surface_inv_check_out:
  assumes inv: "surface_inv s" and nonempty: "pool_slot_id f \<noteq> []"
    and rec: "record_check_out_lease (frame_id_display f) h (reg s) = (Inr (), r')"
    and bound: "lease_count (lease_table (reg s)) (pool_slot_id f) h + 1 < 2 ^ 32"
  shows "surface_inv (s\<lparr>reg := r', held := (pool_slot_id f, frame_generation f, h) # held s\<rparr>)"
proof -
  from inv have live: "\<not> poisoned (reg s)" and ok: "table_ok (lease_table (reg s))"
    by (auto simp: surface_inv_def)
  have key: "lease_key_of_a_live_frame (lease_table (reg s)) (frame_id_display f) = Inr (pool_slot_id f)"
    and r': "r' = (reg s)\<lparr>lease_table := record_in_table (pool_slot_id f) h (lease_table (reg s))\<rparr>"
    using rec live nonempty
    by (auto simp: record_check_out_lease_spec lease_key_of_a_live_frame_def frame_id_split
        split: option.splits if_splits)
  have "slot_generation (lease_table (reg s)) (pool_slot_id f) = Some (frame_generation f)"
    using key by (simp add: lease_key_Inr_iff frame_id_split nonempty)
  then show ?thesis using inv r' table_ok_record [OF ok bound]
    by (auto simp: surface_inv_def held_count_Cons add_lease_def)
qed

lemma surface_inv_step:
  assumes "surface_step s s'" "surface_inv s"
  shows "surface_inv s'"
  using assms
proof (cases rule: surface_step.cases)
  case (check_out_frame f h r')
  then show ?thesis using assms(2) surface_inv_check_out by blast
next
  case (check_out_plain surface_id h ans r')
  from assms(2) have live: "\<not> poisoned (reg s)" and ok: "table_ok (lease_table (reg s))"
    by (auto simp: surface_inv_def)
  have "r' = (reg s)\<lparr>lease_table := record_in_table surface_id h (lease_table (reg s))\<rparr>"
    using check_out_plain live by (auto simp: record_check_out_lease_spec lease_key_of_a_live_frame_def)
  then show ?thesis using assms(2) check_out_plain(1,4) table_ok_record [OF ok check_out_plain(4)]
    by (auto simp: surface_inv_def add_lease_def intro: le_SucI)
next
  case (release surface_id h ans r')
  from assms(2) have live: "\<not> poisoned (reg s)" and ok: "table_ok (lease_table (reg s))"
    by (auto simp: surface_inv_def)
  from release_one_check_out_lease_spec [OF ok live refl release(2)] show ?thesis
    using assms(2) release(1) set_give_back [of "pool_slot_key_of_surface_id surface_id" h "held s"]
    by (auto simp: surface_inv_def held_count_give_back sub_lease_def diff_le_mono) blast
next
  case (connection_dropped h ans r')
  from assms(2) have live: "\<not> poisoned (reg s)" and ok: "table_ok (lease_table (reg s))"
    by (auto simp: surface_inv_def)
  show ?thesis using assms(2) connection_dropped live drop_holder_table [OF ok refl, of h]
    by (auto simp: surface_inv_def held_count_filter drop_leases_def readable_table_def Let_def
        release_every_check_out_lease_held_by_def) blast
next
  case (produce env key res m' r' w')
  from assms(2) have live: "\<not> poisoned (reg s)" and plain: "mgr_plain (mgr s)"
    by (auto simp: surface_inv_def)
  from acquire_inv [OF produce(3) live plain produce(2)] show ?thesis
    using assms(2) produce(1) held_slot_leased [OF assms(2)]
      ledger.permitted_hand_off_keeps_leased_frames
    by (auto simp: surface_inv_def publish_table) blast
qed

lemma surface_inv_reachable: "surface_reachable w0 s \<Longrightarrow> surface_inv s"
proof (induction rule: surface_reachable.induct)
  case start
  show ?case
    by (simp add: surface_inv_def lease_registry_new_def table_ok_def mgr_plain_def held_count_def)
next
  case (step s s')
  then show ?case using surface_inv_step by blast
qed

text \<open>C1: a checked-out frame is never overwritten under its reader. In every reachable state of
  the pool and the lease registry, whatever the interleaving of check-outs, releases, dropped
  connections and acquisitions: while a consumer's check-out of generation \<open>g\<close> of a slot is
  outstanding, \<open>g\<close> is still the slot's current generation and the pool's availability test
  reports the slot taken, so no acquisition can have handed the slot back to its producer since
  the check-out.\<close>

theorem checked_out_frame_is_pinned:
  assumes "surface_reachable w0 s" "(slot, g, h) \<in> set (held s)"
  shows "current_frame_generation slot (reg s) = Inr (Some g) \<and>
    map_of (outstanding_check_outs_by_surface_id (lease_table (reg s))) slot \<noteq> None"
proof -
  have inv: "surface_inv s" using assms(1) by (rule surface_inv_reachable)
  then have "slot_generation (lease_table (reg s)) slot = Some g" "\<not> poisoned (reg s)"
    using assms(2) unfolding surface_inv_def by blast+
  moreover have "slot_leased (lease_table (reg s)) slot" using held_slot_leased [OF inv assms(2)] .
  ultimately show ?thesis
    by (simp add: current_frame_generation_def readable_table_def slot_leased_def)
qed

theorem checked_out_frame_is_pinned_witness:
  "\<exists>s :: (nat, nat, unit) surface_system. surface_reachable () s \<and> (''s'', 1, 0) \<in> set (held s) \<and>
     current_frame_generation ''s'' (reg s) = Inr (Some 1)"
proof -
  let ?env = "\<lparr>platform_pool_new = (\<lambda>_ _ _. Inr 0),
      platform_pool_acquire = (\<lambda>p. if p = 0 then (Inr (''s'', 7), 1) else (Inl [], p)),
      platform_allocate_additional_buffer = (\<lambda>p. (Inl [], p)), strong_count = (\<lambda>_. 1),
      store_register_buffer = None\<rparr> :: (nat, nat, unit) pool_env"
  let ?key = "\<lparr>pk_width = 4, pk_height = 4, pk_format = Bgra32\<rparr>"
  let ?s0 = "\<lparr>mgr = \<lparr>pools = [], buffer_cache = [], minted_frame_generation_by_pool_slot = []\<rparr>,
    reg = lease_registry_new, world = (), held = []\<rparr> :: (nat, nat, unit) surface_system"
  let ?r1 = "lease_registry_new\<lparr>lease_table :=
    publish_frame_generation_in_table ''s'' 1 (lease_table lease_registry_new)\<rparr>"
  let ?f = "\<lparr>pool_slot_id = ''s'', frame_generation = 1\<rparr>"
  have "plain_slot ''s''"
    by (simp add: pool_slot_key_of_surface_id_def split_pool_slot_and_frame_generation_def rsplit_once_def)
  then have env: "env_mints_fresh_slots ?env (reg ?s0)" by (simp add: env_mints_fresh_slots_def)
  have "allocate_entries (platform_pool_acquire ?env) None 4 0 () =
      ([holding_a_fresh_allocation ''s'' 7], 1, ())" by (simp add: eval_nat_numeral)
  then have "\<exists>res m'. acquire ?env ?key (mgr ?s0, Some (reg ?s0), world ?s0) = (res, m', Some ?r1, ())"
    by (simp add: acquire_def create_ring_pool_def acquire_from_ring_def
        reuse_of_leases_def lease_registry_new_def hold_for_pool_slot_hand_off_def
        is_checked_out_by_any_holder_def Let_def hand_off_if_unheld_in_process_def
        mint_next_published_frame_id_def currently_published_frame_id_def
        holding_a_fresh_allocation_def)
  then obtain res m' where "acquire ?env ?key (mgr ?s0, Some (reg ?s0), world ?s0) = (res, m', Some ?r1, ())"
    by blast
  from surface_step.produce [OF env this]
  have r1: "surface_reachable () (?s0\<lparr>mgr := m', reg := ?r1, world := ()\<rparr>)"
    by (rule surface_reachable.step [OF surface_reachable.start])
  let ?s1 = "?s0\<lparr>mgr := m', reg := ?r1, world := ()\<rparr>"
  have "\<exists>r'. record_check_out_lease (frame_id_display ?f) 0 (reg ?s1) = (Inr (), r')"
    by (simp add: record_check_out_lease_def readable_table_def lease_registry_new_def
        lease_key_of_a_live_frame_def frame_id_split publish_frame_generation_in_table_def)
  then obtain r' where rec: "record_check_out_lease (frame_id_display ?f) 0 (reg ?s1) = (Inr (), r')"
    by blast
  have "surface_step ?s1 (?s1\<lparr>reg := r', held := (pool_slot_id ?f, frame_generation ?f, 0) # held ?s1\<rparr>)"
    by (rule surface_step.check_out_frame [OF rec])
       (simp_all add: lease_count_def holders_count_def get_or_default_def lease_registry_new_def
          publish_frame_generation_in_table_def)
  then have r2: "surface_reachable () (?s1\<lparr>reg := r', held := [(''s'', 1, 0)]\<rparr>)"
    using surface_reachable.step [OF r1] by simp
  from checked_out_frame_is_pinned [OF r2, of "''s''" 1 0] r2 show ?thesis by fastforce
qed

end
