(* ===== verification/Surface_Share.thy ===== *)
theory Surface_Share
  imports Surface_Leases
begin

text \<open>
  The surface table of the runtime's surface-sharing service
  (\<open>linux/surface_share/state.rs\<close>): registration, layout updates, plane check-out and release,
  with the file descriptors the table owns. A descriptor is an \<open>int\<close>; \<open>libc::close\<close> appends to
  \<open>closed_fds\<close>. The reader-writer lock is held for each method, so a method is one step; the
  layout is an atomic inside the entry. The lease registry that hangs off the table is the
  theory \<open>Surface_Leases\<close>.
\<close>

type_synonym raw_fd = int

record surface_metadata =
  sm_surface_id :: string
  sm_runtime_id :: string
  sm_dma_buf_fds :: "raw_fd list"
  sm_plane_sizes :: "u64 list"
  sm_plane_offsets :: "u64 list"
  sm_plane_strides :: "u64 list"
  sm_width :: u32
  sm_height :: u32
  sm_format :: string
  sm_resource_type :: string
  sm_handle_type :: string
  sm_drm_format_modifier :: u64
  sm_produce_done_fd :: "raw_fd option"
  sm_consume_done_fd :: "raw_fd option"
  sm_checkout_count :: u64
  sm_current_image_layout :: i32
  sm_vk_image_type :: i32
  sm_vk_image_mip_levels :: u32
  sm_vk_image_array_layers :: u32
  sm_vk_image_samples :: i32
  sm_vk_image_tiling :: i32
  sm_vk_image_usage :: u32
  sm_vk_image_allocation_size :: u64
  sm_vk_memory_type_index :: "u32 option"
  sm_exporting_device_uuid :: "string option"

record surface_plane_checkout =
  spc_dma_buf_fds :: "raw_fd list"
  spc_plane_sizes :: "u64 list"
  spc_plane_offsets :: "u64 list"
  spc_plane_strides :: "u64 list"
  spc_drm_format_modifier :: u64
  spc_handle_type :: string
  spc_produce_done_fd :: "raw_fd option"
  spc_consume_done_fd :: "raw_fd option"
  spc_current_image_layout :: i32
  spc_vk_image_type :: i32
  spc_vk_image_mip_levels :: u32
  spc_vk_image_array_layers :: u32
  spc_vk_image_samples :: i32
  spc_vk_image_tiling :: i32
  spc_vk_image_usage :: u32
  spc_vk_image_allocation_size :: u64
  spc_vk_memory_type_index :: "u32 option"
  spc_exporting_device_uuid :: "string option"

record surface_registration =
  sr_surface_id :: string
  sr_runtime_id :: string
  sr_dma_buf_fds :: "raw_fd list"
  sr_plane_sizes :: "u64 list"
  sr_plane_offsets :: "u64 list"
  sr_plane_strides :: "u64 list"
  sr_width :: u32
  sr_height :: u32
  sr_format :: string
  sr_resource_type :: string
  sr_handle_type :: string
  sr_drm_format_modifier :: u64
  sr_produce_done_fd :: "raw_fd option"
  sr_consume_done_fd :: "raw_fd option"
  sr_current_image_layout :: i32
  sr_vk_image_type :: i32
  sr_vk_image_mip_levels :: u32
  sr_vk_image_array_layers :: u32
  sr_vk_image_samples :: i32
  sr_vk_image_tiling :: i32
  sr_vk_image_usage :: u32
  sr_vk_image_allocation_size :: u64
  sr_vk_memory_type_index :: "u32 option"
  sr_exporting_device_uuid :: "string option"

record share_state =
  surfaces :: "(string \<times> surface_metadata) list"
  surface_counter :: u64
  closed_fds :: "raw_fd list"

definition share_state_new :: share_state where
  "share_state_new = \<lparr>surfaces = [], surface_counter = 0, closed_fds = []\<rparr>"

definition metadata_of_registration :: "surface_registration \<Rightarrow> surface_metadata" where
  "metadata_of_registration r =
     \<lparr>sm_surface_id = sr_surface_id r,
      sm_runtime_id = sr_runtime_id r,
      sm_dma_buf_fds = sr_dma_buf_fds r,
      sm_plane_sizes = sr_plane_sizes r,
      sm_plane_offsets = sr_plane_offsets r,
      sm_plane_strides = sr_plane_strides r,
      sm_width = sr_width r,
      sm_height = sr_height r,
      sm_format = sr_format r,
      sm_resource_type = sr_resource_type r,
      sm_handle_type = sr_handle_type r,
      sm_drm_format_modifier = sr_drm_format_modifier r,
      sm_produce_done_fd = sr_produce_done_fd r,
      sm_consume_done_fd = sr_consume_done_fd r,
      sm_checkout_count = 0,
      sm_current_image_layout = sr_current_image_layout r,
      sm_vk_image_type = sr_vk_image_type r,
      sm_vk_image_mip_levels = sr_vk_image_mip_levels r,
      sm_vk_image_array_layers = sr_vk_image_array_layers r,
      sm_vk_image_samples = sr_vk_image_samples r,
      sm_vk_image_tiling = sr_vk_image_tiling r,
      sm_vk_image_usage = sr_vk_image_usage r,
      sm_vk_image_allocation_size = sr_vk_image_allocation_size r,
      sm_vk_memory_type_index = sr_vk_memory_type_index r,
      sm_exporting_device_uuid = sr_exporting_device_uuid r\<rparr>"

definition register_surface ::
    "surface_registration \<Rightarrow> share_state \<Rightarrow>
      (raw_fd list \<times> raw_fd option \<times> raw_fd option + unit) \<times> share_state" where
  "register_surface r st =
     (if map_of (surfaces st) (sr_surface_id r) \<noteq> None
      then (Inl (sr_dma_buf_fds r, sr_produce_done_fd r, sr_consume_done_fd r), st)
      else (Inr (), st\<lparr>surface_counter := surface_counter st + 1,
                      surfaces := AList.update (sr_surface_id r) (metadata_of_registration r) (surfaces st)\<rparr>))"

definition update_image_layout :: "string \<Rightarrow> i32 \<Rightarrow> share_state \<Rightarrow> bool \<times> share_state" where
  "update_image_layout surface_id layout st =
     (let key = pool_slot_key_of_surface_id surface_id
      in case map_of (surfaces st) key of
           Some md \<Rightarrow> (True, st\<lparr>surfaces :=
             AList.update key (md\<lparr>sm_current_image_layout := layout\<rparr>) (surfaces st)\<rparr>)
         | None \<Rightarrow> (False, st))"

definition checkout_of_metadata :: "surface_metadata \<Rightarrow> surface_plane_checkout" where
  "checkout_of_metadata md =
     \<lparr>spc_dma_buf_fds = sm_dma_buf_fds md,
      spc_plane_sizes = sm_plane_sizes md,
      spc_plane_offsets = sm_plane_offsets md,
      spc_plane_strides = sm_plane_strides md,
      spc_drm_format_modifier = sm_drm_format_modifier md,
      spc_handle_type = sm_handle_type md,
      spc_produce_done_fd = sm_produce_done_fd md,
      spc_consume_done_fd = sm_consume_done_fd md,
      spc_current_image_layout = sm_current_image_layout md,
      spc_vk_image_type = sm_vk_image_type md,
      spc_vk_image_mip_levels = sm_vk_image_mip_levels md,
      spc_vk_image_array_layers = sm_vk_image_array_layers md,
      spc_vk_image_samples = sm_vk_image_samples md,
      spc_vk_image_tiling = sm_vk_image_tiling md,
      spc_vk_image_usage = sm_vk_image_usage md,
      spc_vk_image_allocation_size = sm_vk_image_allocation_size md,
      spc_vk_memory_type_index = sm_vk_memory_type_index md,
      spc_exporting_device_uuid = sm_exporting_device_uuid md\<rparr>"

definition get_surface_planes ::
    "string \<Rightarrow> share_state \<Rightarrow> surface_plane_checkout option \<times> share_state" where
  "get_surface_planes surface_id st =
     (let key = pool_slot_key_of_surface_id surface_id
      in case map_of (surfaces st) key of
           Some md \<Rightarrow>
             (Some (checkout_of_metadata md),
              st\<lparr>surfaces := AList.update key (md\<lparr>sm_checkout_count := sm_checkout_count md + 1\<rparr>)
                               (surfaces st)\<rparr>)
         | None \<Rightarrow> (None, st))"

definition option_fd :: "raw_fd option \<Rightarrow> raw_fd list" where
  "option_fd fd = (case fd of Some f \<Rightarrow> [f] | None \<Rightarrow> [])"

definition release_surface :: "string \<Rightarrow> string \<Rightarrow> share_state \<Rightarrow> bool \<times> share_state" where
  "release_surface surface_id runtime_id st =
     (let key = pool_slot_key_of_surface_id surface_id
      in case map_of (surfaces st) key of
           Some md \<Rightarrow>
             if sm_runtime_id md = runtime_id
             then (True, st\<lparr>closed_fds := closed_fds st @ sm_dma_buf_fds md @
                              option_fd (sm_produce_done_fd md) @ option_fd (sm_consume_done_fd md),
                            surfaces := AList.delete key (surfaces st)\<rparr>)
             else (False, st)
         | None \<Rightarrow> (False, st))"

definition get_surfaces :: "share_state \<Rightarrow> surface_metadata list" where
  "get_surfaces st = map snd (surfaces st)"

definition surface_ids_by_runtime :: "string \<Rightarrow> share_state \<Rightarrow> string list" where
  "surface_ids_by_runtime runtime_id st =
     map sm_surface_id (filter (\<lambda>md. sm_runtime_id md = runtime_id) (map snd (surfaces st)))"

subsection \<open>Descriptor ownership\<close>

definition owned_fds :: "surface_metadata \<Rightarrow> raw_fd list" where
  "owned_fds md = sm_dma_buf_fds md @ option_fd (sm_produce_done_fd md) @ option_fd (sm_consume_done_fd md)"

definition registration_fds :: "surface_registration \<Rightarrow> raw_fd list" where
  "registration_fds r = sr_dma_buf_fds r @ option_fd (sr_produce_done_fd r) @ option_fd (sr_consume_done_fd r)"

definition table_fds :: "(string \<times> surface_metadata) list \<Rightarrow> raw_fd multiset" where
  "table_fds m = mset (concat (map (owned_fds \<circ> snd) m))"

datatype share_call =
  Register surface_registration
| UpdateLayout string i32
| GetPlanes string
| ReleaseSurface string string

fun share_step :: "share_call \<Rightarrow> share_state \<Rightarrow> share_state" where
  "share_step (Register r) st = snd (register_surface r st)"
| "share_step (UpdateLayout surface_id layout) st = snd (update_image_layout surface_id layout st)"
| "share_step (GetPlanes surface_id) st = snd (get_surface_planes surface_id st)"
| "share_step (ReleaseSurface surface_id runtime_id) st = snd (release_surface surface_id runtime_id st)"

text \<open>The descriptors a call hands over: those of a registration the table accepts.\<close>

fun accepted_fds :: "share_call \<Rightarrow> share_state \<Rightarrow> raw_fd multiset" where
  "accepted_fds (Register r) st =
     (case fst (register_surface r st) of Inr _ \<Rightarrow> mset (registration_fds r) | Inl _ \<Rightarrow> {#})"
| "accepted_fds _ st = {#}"

fun share_run :: "share_call list \<Rightarrow> share_state \<Rightarrow> share_state \<times> raw_fd multiset" where
  "share_run [] st = (st, {#})"
| "share_run (c # cs) st =
     (case share_run cs (share_step c st) of (st', acc) \<Rightarrow> (st', accepted_fds c st + acc))"

definition share_ok :: "share_state \<Rightarrow> bool" where
  "share_ok st \<longleftrightarrow> distinct_keys (surfaces st) \<and>
     (\<forall>key md. map_of (surfaces st) key = Some md \<longrightarrow> sm_surface_id md = key)"

lemma table_fds_simps [simp]:
  "table_fds [] = {#}"
  "table_fds ((k, md) # m) = mset (owned_fds md) + table_fds m"
  by (simp_all add: table_fds_def)

lemma table_fds_update_new:
  "map_of m k = None \<Longrightarrow> table_fds (AList.update k md m) = table_fds m + mset (owned_fds md)"
  by (induction m) (auto simp: ac_simps split: if_splits)

lemma table_fds_update_same:
  "map_of m k = Some md \<Longrightarrow> distinct_keys m \<Longrightarrow> owned_fds md' = owned_fds md \<Longrightarrow>
     table_fds (AList.update k md' m) = table_fds m"
  by (induction m) (auto split: if_splits)

lemma AList_delete_notin: "k \<notin> set (map fst m) \<Longrightarrow> AList.delete k m = m"
  by (induction m) auto

lemma table_fds_delete:
  "map_of m k = Some md \<Longrightarrow> distinct_keys m \<Longrightarrow>
     table_fds (AList.delete k m) + mset (owned_fds md) = table_fds m"
  by (induction m) (auto simp: AList_delete_notin ac_simps split: if_splits)

lemma owned_fds_metadata: "owned_fds (metadata_of_registration r) = registration_fds r"
  by (simp add: owned_fds_def registration_fds_def metadata_of_registration_def)

lemma owned_fds_updates [simp]:
  "owned_fds (md\<lparr>sm_current_image_layout := l\<rparr>) = owned_fds md"
  "owned_fds (md\<lparr>sm_checkout_count := n\<rparr>) = owned_fds md"
  by (simp_all add: owned_fds_def)

lemma share_step_ok: "share_ok st \<Longrightarrow> share_ok (share_step c st)"
  by (cases c)
     (auto simp: share_ok_def register_surface_def update_image_layout_def get_surface_planes_def
        release_surface_def Let_def distinct_update distinct_delete alist_simps
        metadata_of_registration_def split: option.splits if_splits)

lemma share_step_fds:
  assumes "share_ok st"
  shows "table_fds (surfaces (share_step c st)) + mset (closed_fds (share_step c st)) =
    table_fds (surfaces st) + mset (closed_fds st) + accepted_fds c st"
proof -
  have d: "distinct_keys (surfaces st)" using assms by (simp add: share_ok_def)
  show ?thesis
  proof (cases c)
    case (Register r)
    then show ?thesis
      by (auto simp: register_surface_def table_fds_update_new owned_fds_metadata)
  next
    case (ReleaseSurface i rt)
    then show ?thesis
      using d table_fds_delete [of "surfaces st" "pool_slot_key_of_surface_id i"]
      by (auto simp: release_surface_def Let_def owned_fds_def ac_simps split: option.splits)
  qed (use d in \<open>auto simp: update_image_layout_def get_surface_planes_def Let_def
        table_fds_update_same split: option.splits\<close>)
qed

lemma share_run_fds:
  assumes "share_ok st" "share_run cs st = (st', acc)"
  shows "share_ok st' \<and> table_fds (surfaces st') + mset (closed_fds st') =
    table_fds (surfaces st) + mset (closed_fds st) + acc"
  using assms
proof (induction cs arbitrary: st acc)
  case (Cons c cs)
  obtain acc' where r: "share_run cs (share_step c st) = (st', acc')" "acc = accepted_fds c st + acc'"
    using Cons.prems(2) by (auto split: prod.splits)
  from Cons.IH [OF share_step_ok [OF Cons.prems(1)] r(1)] share_step_fds [OF Cons.prems(1), of c] r(2)
  show ?case by (simp add: ac_simps)
qed simp

subsection \<open>Properties\<close>

text \<open>C9: the surface table leaks no descriptor and closes none twice. After any sequence of
  registrations, layout updates, check-outs and releases on a fresh table, the descriptors
  still owned by the table together with those it has closed are exactly, with multiplicity,
  the descriptors of the registrations it accepted; a refused registration gives its
  descriptors back and closes nothing.\<close>

theorem surface_table_fd_ownership:
  assumes "share_run calls share_state_new = (st, accepted)"
  shows "mset (concat (map owned_fds (get_surfaces st))) + mset (closed_fds st) = accepted"
proof -
  have "share_ok share_state_new" by (simp add: share_ok_def share_state_new_def)
  from share_run_fds [OF this assms] show ?thesis
    by (simp add: share_state_new_def table_fds_def get_surfaces_def)
qed

theorem surface_table_fd_ownership_witness:
  "\<exists>r st. share_run [Register r, Register r, ReleaseSurface ''s'' ''rt''] share_state_new = (st, {#3, 4, 5#}) \<and>
     mset (concat (map owned_fds (get_surfaces st))) + mset (closed_fds st) = {#3, 4, 5#}"
proof -
  let ?r = "\<lparr>sr_surface_id = ''s'', sr_runtime_id = ''rt'', sr_dma_buf_fds = [3, 4], sr_plane_sizes = [64, 32],
      sr_plane_offsets = [0, 0], sr_plane_strides = [8, 8], sr_width = 8, sr_height = 8,
      sr_format = ''nv12'', sr_resource_type = ''buffer'', sr_handle_type = ''dma_buf'',
      sr_drm_format_modifier = 0, sr_produce_done_fd = Some 5, sr_consume_done_fd = None,
      sr_current_image_layout = 0, sr_vk_image_type = 1, sr_vk_image_mip_levels = 1,
      sr_vk_image_array_layers = 1, sr_vk_image_samples = 1, sr_vk_image_tiling = 0,
      sr_vk_image_usage = 15, sr_vk_image_allocation_size = 0, sr_vk_memory_type_index = None,
      sr_exporting_device_uuid = None\<rparr>"
  have k: "pool_slot_key_of_surface_id ''s'' = ''s''"
    by (simp add: pool_slot_key_of_surface_id_def split_pool_slot_and_frame_generation_def rsplit_once_def)
  have "snd (share_run [Register ?r, Register ?r, ReleaseSurface ''s'' ''rt''] share_state_new) = {#3, 4, 5#}"
    by (simp add: share_state_new_def register_surface_def release_surface_def Let_def k
        registration_fds_def option_fd_def split: prod.splits)
  then obtain st where st: "share_run [Register ?r, Register ?r, ReleaseSurface ''s'' ''rt''] share_state_new =
      (st, {#3, 4, 5#})" by (metis prod.collapse)
  from surface_table_fd_ownership [OF st] st show ?thesis by blast
qed

text \<open>C16: what was registered is what is checked out, and only its runtime can release it. Once a
  registration under a plain surface id is accepted, a plane check-out of that id, or of any
  frame id published over it, returns field by field the registered descriptors, plane sizes,
  offsets, strides and image shape with the last published layout, and the listing names the
  registered owner, size, format and kind, until the registering runtime releases it; a second
  registration under the id is refused with its descriptors handed back and the table unchanged.\<close>

theorem registered_surface_is_what_is_checked_out:
  assumes reg: "register_surface r st = (Inr (), st1)"
    and key: "pool_slot_key_of_surface_id sid = sr_surface_id r"
    and lay: "update_image_layout sid layout st1 = (ok, st2)"
  shows "ok \<and> fst (get_surface_planes sid st2) =
      Some \<lparr>spc_dma_buf_fds = sr_dma_buf_fds r, spc_plane_sizes = sr_plane_sizes r,
        spc_plane_offsets = sr_plane_offsets r, spc_plane_strides = sr_plane_strides r,
        spc_drm_format_modifier = sr_drm_format_modifier r, spc_handle_type = sr_handle_type r,
        spc_produce_done_fd = sr_produce_done_fd r, spc_consume_done_fd = sr_consume_done_fd r,
        spc_current_image_layout = layout, spc_vk_image_type = sr_vk_image_type r,
        spc_vk_image_mip_levels = sr_vk_image_mip_levels r, spc_vk_image_array_layers = sr_vk_image_array_layers r,
        spc_vk_image_samples = sr_vk_image_samples r, spc_vk_image_tiling = sr_vk_image_tiling r,
        spc_vk_image_usage = sr_vk_image_usage r, spc_vk_image_allocation_size = sr_vk_image_allocation_size r,
        spc_vk_memory_type_index = sr_vk_memory_type_index r,
        spc_exporting_device_uuid = sr_exporting_device_uuid r\<rparr> \<and>
    (\<exists>md \<in> set (get_surfaces st2). sm_surface_id md = sr_surface_id r \<and> sm_runtime_id md = sr_runtime_id r \<and>
      sm_width md = sr_width r \<and> sm_height md = sr_height r \<and> sm_format md = sr_format r \<and>
      sm_resource_type md = sr_resource_type r \<and> sm_checkout_count md = 0) \<and>
    (sr_surface_id r2 = sr_surface_id r \<longrightarrow> register_surface r2 st2 =
      (Inl (sr_dma_buf_fds r2, sr_produce_done_fd r2, sr_consume_done_fd r2), st2)) \<and>
    (runtime \<noteq> sr_runtime_id r \<longrightarrow> release_surface sid runtime st2 = (False, st2)) \<and>
    (\<exists>st3. release_surface sid (sr_runtime_id r) st2 = (True, st3) \<and>
      fst (get_surface_planes sid st3) = None)"
proof -
  let ?md = "(metadata_of_registration r)\<lparr>sm_current_image_layout := layout\<rparr>"
  have m1: "map_of (surfaces st1) (sr_surface_id r) = Some (metadata_of_registration r)"
    using reg by (auto simp: register_surface_def alist_simps split: if_splits)
  with key lay have ok: "ok" and m2: "map_of (surfaces st2) (sr_surface_id r) = Some ?md"
    by (auto simp: update_image_layout_def alist_simps)
  have "?md \<in> set (get_surfaces st2)" using map_of_SomeD [OF m2] by (force simp: get_surfaces_def)
  then have "\<exists>md \<in> set (get_surfaces st2). sm_surface_id md = sr_surface_id r \<and> sm_runtime_id md = sr_runtime_id r \<and>
      sm_width md = sr_width r \<and> sm_height md = sr_height r \<and> sm_format md = sr_format r \<and>
      sm_resource_type md = sr_resource_type r \<and> sm_checkout_count md = 0"
    by (rule bexI [rotated]) (simp add: metadata_of_registration_def)
  moreover have run: "sm_runtime_id (metadata_of_registration r) = sr_runtime_id r"
    by (simp add: metadata_of_registration_def)
  moreover have "fst (get_surface_planes sid st2) = Some (checkout_of_metadata ?md)"
    using m2 key by (simp add: get_surface_planes_def Let_def)
  moreover have "release_surface sid runtime st2 = (False, st2)" if "runtime \<noteq> sr_runtime_id r"
    using that m2 key run by (simp add: release_surface_def Let_def)
  moreover have "\<exists>st3. release_surface sid (sr_runtime_id r) st2 = (True, st3) \<and> fst (get_surface_planes sid st3) = None"
    using m2 key run by (simp add: release_surface_def get_surface_planes_def Let_def alist_simps)
  ultimately show ?thesis using ok m2
    by (simp add: register_surface_def checkout_of_metadata_def metadata_of_registration_def)
qed

theorem registered_surface_is_what_is_checked_out_witness:
  "\<exists>r st1 st2. register_surface r share_state_new = (Inr (), st1) \<and>
     update_image_layout ''s'' 7 st1 = (True, st2) \<and>
     map_option spc_plane_offsets (fst (get_surface_planes ''s'' st2)) = Some [0, 512] \<and>
     map_option spc_plane_strides (fst (get_surface_planes ''s'' st2)) = Some [8, 16] \<and>
     map_option spc_current_image_layout (fst (get_surface_planes ''s'' st2)) = Some 7 \<and>
     release_surface ''s'' ''other'' st2 = (False, st2)"
proof -
  let ?r = "\<lparr>sr_surface_id = ''s'', sr_runtime_id = ''rt'', sr_dma_buf_fds = [3, 4], sr_plane_sizes = [64, 32],
      sr_plane_offsets = [0, 512], sr_plane_strides = [8, 16], sr_width = 8, sr_height = 8,
      sr_format = ''nv12'', sr_resource_type = ''buffer'', sr_handle_type = ''dma_buf'',
      sr_drm_format_modifier = 0, sr_produce_done_fd = Some 5, sr_consume_done_fd = None,
      sr_current_image_layout = 0, sr_vk_image_type = 1, sr_vk_image_mip_levels = 1,
      sr_vk_image_array_layers = 1, sr_vk_image_samples = 1, sr_vk_image_tiling = 0,
      sr_vk_image_usage = 15, sr_vk_image_allocation_size = 0, sr_vk_memory_type_index = None,
      sr_exporting_device_uuid = None\<rparr>"
  have k: "pool_slot_key_of_surface_id ''s'' = sr_surface_id ?r"
    by (simp add: pool_slot_key_of_surface_id_def split_pool_slot_and_frame_generation_def rsplit_once_def)
  obtain st1 where reg: "register_surface ?r share_state_new = (Inr (), st1)"
    by (simp add: register_surface_def share_state_new_def)
  obtain ok st2 where lay: "update_image_layout ''s'' 7 st1 = (ok, st2)" by fastforce
  have ne: "''other'' \<noteq> sr_runtime_id ?r" by simp
  note H = registered_surface_is_what_is_checked_out [OF reg k lay, of ?r "''other''"]
  have "update_image_layout ''s'' 7 st1 = (True, st2)" using H lay by simp
  moreover have "release_surface ''s'' ''other'' st2 = (False, st2)" using H ne by blast
  moreover have "map_option spc_plane_offsets (fst (get_surface_planes ''s'' st2)) = Some [0, 512]"
    "map_option spc_plane_strides (fst (get_surface_planes ''s'' st2)) = Some [8, 16]"
    "map_option spc_current_image_layout (fst (get_surface_planes ''s'' st2)) = Some 7"
    using H [THEN conjunct2, THEN conjunct1] by simp_all
  ultimately show ?thesis using reg by blast
qed

end
