(* ===== verification/Surface_Registry.thy ===== *)
theory Surface_Registry
  imports Prelude
begin

text \<open>
  The read/write contention state machine every surface adapter shares
  (\<open>streamlib-surface-adapter/src/registry.rs\<close>), with the OpenGL adapter
  (\<open>streamlib-adapter-opengl/src/state.rs\<close>, \<open>adapter.rs\<close>) as its implementor. The trait an
  implementor provides is a record of its methods; the locale \<open>surface_registration\<close> states
  the counter laws. GL and EGL calls are left out: they do not touch the counters.
\<close>

type_synonym surface_id = u64

datatype adapter_error =
  WriteContended surface_id string
| SurfaceNotFound surface_id
| SurfaceAlreadyRegistered surface_id
| IpcDisconnected string
| BackendRejected string
| SyncTimeout nat
| BackingDestroyed surface_id
| UnsupportedFormat surface_id string

subsection \<open>The trait and the registry\<close>

record 's registration_ops =
  write_held :: "'s \<Rightarrow> bool"
  read_holders :: "'s \<Rightarrow> u64"
  set_write_held :: "'s \<Rightarrow> bool \<Rightarrow> 's"
  inc_read_holders :: "'s \<Rightarrow> 's"
  dec_read_holders :: "'s \<Rightarrow> 's"

type_synonym 's registry = "(surface_id \<times> 's) list"

definition registry_register :: "surface_id \<Rightarrow> 's \<Rightarrow> 's registry \<Rightarrow> bool \<times> 's registry" where
  "registry_register sid state m =
     (if map_of m sid \<noteq> None then (False, m) else (True, AList.update sid state m))"

definition registry_unregister :: "surface_id \<Rightarrow> 's registry \<Rightarrow> 's option \<times> 's registry" where
  "registry_unregister sid m = (map_of m sid, AList.delete sid m)"

definition registry_with :: "surface_id \<Rightarrow> ('s \<Rightarrow> 'r) \<Rightarrow> 's registry \<Rightarrow> 'r option" where
  "registry_with sid f m = map_option f (map_of m sid)"

definition registry_with_mut :: "surface_id \<Rightarrow> ('s \<Rightarrow> 'r \<times> 's) \<Rightarrow> 's registry \<Rightarrow> 'r option \<times> 's registry" where
  "registry_with_mut sid f m =
     (case map_of m sid of
        None \<Rightarrow> (None, m)
      | Some s \<Rightarrow> (case f s of (r, s') \<Rightarrow> (Some r, AList.update sid s' m)))"

definition registry_drain :: "(surface_id \<Rightarrow> 's \<Rightarrow> 'w \<Rightarrow> 'w) \<Rightarrow> 's registry \<Rightarrow> 'w \<Rightarrow> 's registry \<times> 'w" where
  "registry_drain f m w = ([], fold (\<lambda>(sid, s). f sid s) m w)"

definition registry_len :: "'s registry \<Rightarrow> nat" where
  "registry_len m = length m"

definition registry_is_empty :: "'s registry \<Rightarrow> bool" where
  "registry_is_empty m \<longleftrightarrow> m = []"

definition try_begin_read ::
    "'s registration_ops \<Rightarrow> surface_id \<Rightarrow> ('s \<Rightarrow> (adapter_error + 'r) \<times> 's) \<Rightarrow> 's registry \<Rightarrow>
      (adapter_error + 'r option) \<times> 's registry" where
  "try_begin_read ops sid snapshot m =
     (case map_of m sid of
        None \<Rightarrow> (Inl (SurfaceNotFound sid), m)
      | Some state \<Rightarrow>
          if write_held ops state then (Inr None, m)
          else (case snapshot state of
                  (Inl e, state') \<Rightarrow> (Inl e, AList.update sid state' m)
                | (Inr r, state') \<Rightarrow>
                    (Inr (Some r), AList.update sid (inc_read_holders ops state') m)))"

definition try_begin_write ::
    "'s registration_ops \<Rightarrow> surface_id \<Rightarrow> ('s \<Rightarrow> (adapter_error + 'r) \<times> 's) \<Rightarrow> 's registry \<Rightarrow>
      (adapter_error + 'r option) \<times> 's registry" where
  "try_begin_write ops sid snapshot m =
     (case map_of m sid of
        None \<Rightarrow> (Inl (SurfaceNotFound sid), m)
      | Some state \<Rightarrow>
          if write_held ops state \<or> 0 < read_holders ops state then (Inr None, m)
          else (case snapshot state of
                  (Inl e, state') \<Rightarrow> (Inl e, AList.update sid state' m)
                | (Inr r, state') \<Rightarrow>
                    (Inr (Some r), AList.update sid (set_write_held ops state' True) m)))"

definition rollback_read :: "'s registration_ops \<Rightarrow> surface_id \<Rightarrow> 's registry \<Rightarrow> 's registry" where
  "rollback_read ops sid m =
     (case map_of m sid of Some s \<Rightarrow> AList.update sid (dec_read_holders ops s) m | None \<Rightarrow> m)"

definition rollback_write :: "'s registration_ops \<Rightarrow> surface_id \<Rightarrow> 's registry \<Rightarrow> 's registry" where
  "rollback_write ops sid m =
     (case map_of m sid of Some s \<Rightarrow> AList.update sid (set_write_held ops s False) m | None \<Rightarrow> m)"

definition describe_contention :: "'s registration_ops \<Rightarrow> surface_id \<Rightarrow> 's registry \<Rightarrow> string" where
  "describe_contention ops sid m =
     (case map_of m sid of
        Some s \<Rightarrow> if write_held ops s then ''writer''
                  else dec_string (unat (read_holders ops s)) @ '' reader(s)''
      | None \<Rightarrow> ''unknown'')"

subsection \<open>The OpenGL adapter\<close>

record 'i gl_surface_state =
  gl_surface_id :: surface_id
  gl_image :: 'i
  gl_texture :: u32
  gl_target :: u32
  gl_read_holders :: u64
  gl_write_held :: bool

definition gl_ops :: "'i gl_surface_state registration_ops" where
  "gl_ops = \<lparr>write_held = gl_write_held, read_holders = gl_read_holders,
     set_write_held = (\<lambda>s held. s\<lparr>gl_write_held := held\<rparr>),
     inc_read_holders = (\<lambda>s. s\<lparr>gl_read_holders := gl_read_holders s + 1\<rparr>),
     dec_read_holders = (\<lambda>s. s\<lparr>gl_read_holders :=
       (if gl_read_holders s = 0 then 0 else gl_read_holders s - 1)\<rparr>)\<rparr>"

abbreviation GL_TEXTURE_2D :: u32 where "GL_TEXTURE_2D \<equiv> 0x0DE1"

definition gl_try_begin_read ::
    "surface_id \<Rightarrow> 'i gl_surface_state registry \<Rightarrow>
      (adapter_error + (u32 \<times> u32) option) \<times> 'i gl_surface_state registry" where
  "gl_try_begin_read sid m = try_begin_read gl_ops sid (\<lambda>s. (Inr (gl_texture s, gl_target s), s)) m"

definition gl_try_begin_write ::
    "surface_id \<Rightarrow> 'i gl_surface_state registry \<Rightarrow>
      (adapter_error + u32 option) \<times> 'i gl_surface_state registry" where
  "gl_try_begin_write sid m =
     try_begin_write gl_ops sid
       (\<lambda>s. (if gl_target s \<noteq> GL_TEXTURE_2D
             then Inl (BackendRejected (''acquire_write rejected: surface '' @ dec_string (unat sid) @
               '' was registered as GL_TEXTURE_EXTERNAL_OES (sampler-only); use acquire_read or register the surface via register_host_surface for write access''))
             else Inr (gl_texture s), s)) m"

record gl_read_view =
  rv_texture :: u32
  rv_target :: u32

record gl_write_view =
  wv_texture :: u32

text \<open>A guard is its surface id and view; the adapter reference it carries is implicit.\<close>

definition acquire_read ::
    "surface_id \<Rightarrow> 'i gl_surface_state registry \<Rightarrow>
      (adapter_error + surface_id \<times> gl_read_view) \<times> 'i gl_surface_state registry" where
  "acquire_read sid m =
     (case gl_try_begin_read sid m of
        (Inl e, m') \<Rightarrow> (Inl e, m')
      | (Inr (Some (texture, target)), m') \<Rightarrow>
          (Inr (sid, \<lparr>rv_texture = texture, rv_target = target\<rparr>), m')
      | (Inr None, m') \<Rightarrow> (Inl (WriteContended sid ''writer''), m'))"

definition acquire_write ::
    "surface_id \<Rightarrow> 'i gl_surface_state registry \<Rightarrow>
      (adapter_error + surface_id \<times> gl_write_view) \<times> 'i gl_surface_state registry" where
  "acquire_write sid m =
     (case gl_try_begin_write sid m of
        (Inl e, m') \<Rightarrow> (Inl e, m')
      | (Inr (Some texture), m') \<Rightarrow> (Inr (sid, \<lparr>wv_texture = texture\<rparr>), m')
      | (Inr None, m') \<Rightarrow> (Inl (WriteContended sid (describe_contention gl_ops sid m')), m'))"

definition try_acquire_read ::
    "surface_id \<Rightarrow> 'i gl_surface_state registry \<Rightarrow>
      (adapter_error + (surface_id \<times> gl_read_view) option) \<times> 'i gl_surface_state registry" where
  "try_acquire_read sid m =
     (case gl_try_begin_read sid m of
        (Inl e, m') \<Rightarrow> (Inl e, m')
      | (Inr (Some (texture, target)), m') \<Rightarrow>
          (Inr (Some (sid, \<lparr>rv_texture = texture, rv_target = target\<rparr>)), m')
      | (Inr None, m') \<Rightarrow> (Inr None, m'))"

definition try_acquire_write ::
    "surface_id \<Rightarrow> 'i gl_surface_state registry \<Rightarrow>
      (adapter_error + (surface_id \<times> gl_write_view) option) \<times> 'i gl_surface_state registry" where
  "try_acquire_write sid m =
     (case gl_try_begin_write sid m of
        (Inl e, m') \<Rightarrow> (Inl e, m')
      | (Inr (Some texture), m') \<Rightarrow> (Inr (Some (sid, \<lparr>wv_texture = texture\<rparr>)), m')
      | (Inr None, m') \<Rightarrow> (Inr None, m'))"

definition end_read_access :: "surface_id \<Rightarrow> 'i gl_surface_state registry \<Rightarrow> 'i gl_surface_state registry" where
  "end_read_access sid m =
     snd (registry_with_mut sid (\<lambda>s. ((), s\<lparr>gl_read_holders :=
       (if gl_read_holders s = 0 then 0 else gl_read_holders s - 1)\<rparr>)) m)"

definition end_write_access :: "surface_id \<Rightarrow> 'i gl_surface_state registry \<Rightarrow> 'i gl_surface_state registry" where
  "end_write_access sid m = snd (registry_with_mut sid (\<lambda>s. ((), s\<lparr>gl_write_held := False\<rparr>)) m)"

subsection \<open>The contract of the trait\<close>

locale surface_registration =
  fixes ops :: "'s registration_ops"
  assumes write_held_set: "write_held ops (set_write_held ops s b) = b"
    and read_holders_set: "read_holders ops (set_write_held ops s b) = read_holders ops s"
    and write_held_inc: "write_held ops (inc_read_holders ops s) = write_held ops s"
    and read_holders_inc: "read_holders ops (inc_read_holders ops s) = read_holders ops s + 1"
    and write_held_dec: "write_held ops (dec_read_holders ops s) = write_held ops s"
    and read_holders_dec: "read_holders ops (dec_read_holders ops s) =
      (if read_holders ops s = 0 then 0 else read_holders ops s - 1)"
begin

text \<open>What a surface's state says about who holds it.\<close>

definition holds :: "'s \<Rightarrow> nat \<Rightarrow> nat \<Rightarrow> bool" where
  "holds s readers writers \<longleftrightarrow> unat (read_holders ops s) = readers \<and>
     writers = (if write_held ops s then 1 else 0) \<and> (writers = 0 \<or> readers = 0)"

lemma holds_inc:
  assumes "holds s r w" "\<not> write_held ops s" "r + 1 < 2 ^ 64"
  shows "holds (inc_read_holders ops s) (r + 1) w"
  using assms by (auto simp: holds_def write_held_inc read_holders_inc unat_word_ariths)

lemma holds_dec: "holds s (Suc r) w \<Longrightarrow> holds (dec_read_holders ops s) r w"
  by (auto simp: holds_def write_held_dec read_holders_dec unat_minus_one unat_eq_0)

lemma holds_acquire_write:
  assumes "holds s r w" "\<not> (write_held ops s \<or> 0 < read_holders ops s)"
  shows "r = 0 \<and> w = 0 \<and> holds (set_write_held ops s True) 0 1"
  using assms by (auto simp: holds_def write_held_set read_holders_set word_gt_0 unat_eq_0)

lemma holds_release_write: "holds s r (Suc w) \<Longrightarrow> holds (set_write_held ops s False) r w"
  by (auto simp: holds_def write_held_set read_holders_set split: if_splits)

end

interpretation gl: surface_registration gl_ops
  by unfold_locales (simp_all add: gl_ops_def)

subsection \<open>Guards\<close>

text \<open>
  An adapter and its outstanding guards. A guard that was granted is dropped once, whether or
  not its surface is still registered; a surface is registered with clear counters, under an
  id with no guard outstanding.
\<close>

record 'i gl_system =
  gl_reg :: "'i gl_surface_state registry"
  read_guards :: "surface_id list"
  write_guards :: "surface_id list"

inductive gl_step :: "'i gl_system \<Rightarrow> 'i gl_system \<Rightarrow> bool" where
  read_acquired:
    "acquire_read sid (gl_reg s) = (Inr guard, m') \<Longrightarrow> count_list (read_guards s) sid + 1 < 2 ^ 64 \<Longrightarrow>
     gl_step s (s\<lparr>gl_reg := m', read_guards := sid # read_guards s\<rparr>)"
| read_refused:
    "acquire_read sid (gl_reg s) = (Inl e, m') \<Longrightarrow> gl_step s (s\<lparr>gl_reg := m'\<rparr>)"
| write_acquired:
    "acquire_write sid (gl_reg s) = (Inr guard, m') \<Longrightarrow>
     gl_step s (s\<lparr>gl_reg := m', write_guards := sid # write_guards s\<rparr>)"
| write_refused:
    "acquire_write sid (gl_reg s) = (Inl e, m') \<Longrightarrow> gl_step s (s\<lparr>gl_reg := m'\<rparr>)"
| read_dropped:
    "sid \<in> set (read_guards s) \<Longrightarrow>
     gl_step s (s\<lparr>gl_reg := end_read_access sid (gl_reg s), read_guards := remove1 sid (read_guards s)\<rparr>)"
| write_dropped:
    "sid \<in> set (write_guards s) \<Longrightarrow>
     gl_step s (s\<lparr>gl_reg := end_write_access sid (gl_reg s), write_guards := remove1 sid (write_guards s)\<rparr>)"
| registered:
    "gl_read_holders state = 0 \<Longrightarrow> \<not> gl_write_held state \<Longrightarrow>
     sid \<notin> set (read_guards s) \<Longrightarrow> sid \<notin> set (write_guards s) \<Longrightarrow>
     gl_step s (s\<lparr>gl_reg := snd (registry_register sid state (gl_reg s))\<rparr>)"
| unregistered:
    "gl_step s (s\<lparr>gl_reg := snd (registry_unregister sid (gl_reg s))\<rparr>)"

inductive gl_reachable :: "'i gl_system \<Rightarrow> bool" where
  gl_start: "gl_reachable \<lparr>gl_reg = [], read_guards = [], write_guards = []\<rparr>"
| gl_next: "gl_reachable s \<Longrightarrow> gl_step s s' \<Longrightarrow> gl_reachable s'"

definition exclusive :: "nat \<Rightarrow> nat \<Rightarrow> bool" where
  "exclusive readers writers \<longleftrightarrow> writers = 0 \<or> writers = 1 \<and> readers = 0"

definition gl_inv :: "'i gl_system \<Rightarrow> bool" where
  "gl_inv s \<longleftrightarrow> (\<forall>sid.
     exclusive (count_list (read_guards s) sid) (count_list (write_guards s) sid) \<and>
     (\<forall>st. map_of (gl_reg s) sid = Some st \<longrightarrow>
        gl.holds st (count_list (read_guards s) sid) (count_list (write_guards s) sid)))"

lemma count_list_remove1:
  "count_list (remove1 x xs) y = (if y = x then count_list xs y - 1 else count_list xs y)"
  by (induction xs) (auto simp: count_list_0_iff)

lemma gl_fields [simp]:
  "write_held gl_ops = gl_write_held" "read_holders gl_ops = gl_read_holders"
  "inc_read_holders gl_ops s = s\<lparr>gl_read_holders := gl_read_holders s + 1\<rparr>"
  "set_write_held gl_ops s b = s\<lparr>gl_write_held := b\<rparr>"
  "dec_read_holders gl_ops s = s\<lparr>gl_read_holders :=
     (if gl_read_holders s = 0 then 0 else gl_read_holders s - 1)\<rparr>"
  by (simp_all add: gl_ops_def)

lemma acquire_read_Inr:
  assumes "acquire_read sid m = (Inr guard, m')"
  shows "\<exists>st. map_of m sid = Some st \<and> \<not> gl_write_held st \<and>
    m' = AList.update sid (inc_read_holders gl_ops st) m"
  using assms
  by (auto simp: acquire_read_def gl_try_begin_read_def try_begin_read_def
      split: option.splits if_splits sum.splits prod.splits)

lemma acquire_read_Inl: "acquire_read sid m = (Inl e, m') \<Longrightarrow> m' = m"
  by (auto simp: acquire_read_def gl_try_begin_read_def try_begin_read_def
      split: option.splits if_splits sum.splits prod.splits)

lemma acquire_write_Inr:
  assumes "acquire_write sid m = (Inr guard, m')"
  shows "\<exists>st. map_of m sid = Some st \<and> \<not> (write_held gl_ops st \<or> 0 < read_holders gl_ops st) \<and>
    m' = AList.update sid (set_write_held gl_ops st True) m"
  using assms
  by (auto simp: acquire_write_def gl_try_begin_write_def try_begin_write_def
      split: option.splits if_splits sum.splits prod.splits)

lemma AList_update_same_map: "map_of m k = Some v \<Longrightarrow> map_of (AList.update k v m) = map_of m"
  by (auto simp: alist_simps)

lemma acquire_write_Inl: "acquire_write sid m = (Inl e, m') \<Longrightarrow> map_of m' = map_of m"
  by (auto simp: acquire_write_def gl_try_begin_write_def try_begin_write_def AList_update_same_map
      split: option.splits if_splits sum.splits prod.splits)

lemma end_read_access_eq: "end_read_access sid m = rollback_read gl_ops sid m"
  by (simp add: end_read_access_def rollback_read_def registry_with_mut_def split: option.splits)

lemma end_write_access_eq: "end_write_access sid m = rollback_write gl_ops sid m"
  by (simp add: end_write_access_def rollback_write_def registry_with_mut_def split: option.splits)

lemma gl_inv_step:
  assumes "gl_step s s'" "gl_inv s"
  shows "gl_inv s'"
  using assms
proof (cases rule: gl_step.cases)
  case (read_acquired sid guard m')
  from acquire_read_Inr [OF read_acquired(2)] obtain st where
    st: "map_of (gl_reg s) sid = Some st" "\<not> gl_write_held st"
      "m' = AList.update sid (inc_read_holders gl_ops st) (gl_reg s)" by blast
  have h: "gl.holds st (count_list (read_guards s) sid) (count_list (write_guards s) sid)"
    using assms(2) st(1) by (simp add: gl_inv_def)
  then have "count_list (write_guards s) sid = 0" using st(2) by (simp add: gl.holds_def)
  then show ?thesis
    using assms(2) read_acquired(1,3) st gl.holds_inc [OF h] by (auto simp: gl_inv_def alist_simps exclusive_def)
next
  case (read_refused sid e m')
  then show ?thesis using assms(2) acquire_read_Inl [OF read_refused(2)] by (simp add: gl_inv_def)
next
  case (write_acquired sid guard m')
  from acquire_write_Inr [OF write_acquired(2)] obtain st where
    st: "map_of (gl_reg s) sid = Some st" "\<not> (write_held gl_ops st \<or> 0 < read_holders gl_ops st)"
      "m' = AList.update sid (set_write_held gl_ops st True) (gl_reg s)" by blast
  have h: "gl.holds st (count_list (read_guards s) sid) (count_list (write_guards s) sid)"
    using assms(2) st(1) by (simp add: gl_inv_def)
  from gl.holds_acquire_write [OF h st(2)] show ?thesis
    using assms(2) write_acquired(1) st(3) by (auto simp: gl_inv_def alist_simps exclusive_def)
next
  case (write_refused sid e m')
  then show ?thesis using assms(2) acquire_write_Inl [OF write_refused(2)] by (simp add: gl_inv_def)
next
  case (read_dropped sid)
  then obtain r where r: "count_list (read_guards s) sid = Suc r"
    by (metis count_list_0_iff not0_implies_Suc)
  have w0: "count_list (write_guards s) sid = 0"
    using assms(2) r by (metis gl_inv_def exclusive_def nat.distinct(1))
  have "\<forall>st. map_of (gl_reg s) sid = Some st \<longrightarrow>
      gl.holds (dec_read_holders gl_ops st) r (count_list (write_guards s) sid)"
    using assms(2) r gl.holds_dec by (metis gl_inv_def)
  then show ?thesis using assms(2) read_dropped(1) r w0
    by (auto simp: gl_inv_def end_read_access_eq rollback_read_def alist_simps count_list_remove1
        exclusive_def split: option.splits)
next
  case (write_dropped sid)
  then obtain w where w: "count_list (write_guards s) sid = Suc w"
    by (metis count_list_0_iff not0_implies_Suc)
  have r0: "w = 0 \<and> count_list (read_guards s) sid = 0"
    using assms(2) w by (metis gl_inv_def exclusive_def nat.distinct(1) One_nat_def nat.inject)
  have "\<forall>st. map_of (gl_reg s) sid = Some st \<longrightarrow>
      gl.holds (set_write_held gl_ops st False) (count_list (read_guards s) sid) w"
    using assms(2) w gl.holds_release_write by (metis gl_inv_def)
  then show ?thesis using assms(2) write_dropped(1) w r0
    by (auto simp: gl_inv_def end_write_access_eq rollback_write_def alist_simps count_list_remove1
        exclusive_def split: option.splits)
next
  case (registered state sid)
  then show ?thesis using assms(2)
    by (auto simp: gl_inv_def registry_register_def alist_simps gl.holds_def count_list_0_iff exclusive_def)
next
  case (unregistered sid)
  then show ?thesis using assms(2) by (auto simp: gl_inv_def registry_unregister_def alist_simps)
qed

lemma gl_inv_reachable: "gl_reachable s \<Longrightarrow> gl_inv s"
proof (induction rule: gl_reachable.induct)
  case gl_start
  then show ?case by (simp add: gl_inv_def exclusive_def)
next
  case (gl_next s s')
  then show ?case using gl_inv_step by blast
qed

text \<open>C5: a writer is alone. In every reachable state of the adapter and its guards, whatever the
  order of acquisitions, refusals, drops, registrations and unregistrations, a surface has
  either no write guard outstanding, or exactly one and no read guard; and for a surface still
  registered the counters say exactly that, so neither a missed nor a doubled release can
  accumulate.\<close>

theorem surface_guards_are_exclusive:
  assumes "gl_reachable s"
  shows "(count_list (write_guards s) sid = 0 \<or>
      count_list (write_guards s) sid = 1 \<and> count_list (read_guards s) sid = 0) \<and>
    (\<forall>st. map_of (gl_reg s) sid = Some st \<longrightarrow>
      unat (gl_read_holders st) = count_list (read_guards s) sid \<and>
      (gl_write_held st \<longleftrightarrow> sid \<in> set (write_guards s)))"
proof -
  have inv: "gl_inv s" using assms by (rule gl_inv_reachable)
  have "count_list (write_guards s) sid = 0 \<longleftrightarrow> sid \<notin> set (write_guards s)"
    by (simp add: count_list_0_iff)
  moreover have "exclusive (count_list (read_guards s) sid) (count_list (write_guards s) sid)"
    "\<forall>st. map_of (gl_reg s) sid = Some st \<longrightarrow>
      gl.holds st (count_list (read_guards s) sid) (count_list (write_guards s) sid)"
    using inv by (simp_all add: gl_inv_def)
  ultimately show ?thesis
    by (auto simp: exclusive_def gl.holds_def split: if_splits)
qed

theorem surface_guards_are_exclusive_witness:
  "\<exists>s :: unit gl_system. gl_reachable s \<and> read_guards s = [1, 1] \<and> write_guards s = [] \<and>
     (\<exists>st. map_of (gl_reg s) 1 = Some st \<and> unat (gl_read_holders st) = 2 \<and> \<not> gl_write_held st)"
proof -
  let ?st = "\<lambda>n. \<lparr>gl_surface_id = 1, gl_image = (), gl_texture = 5, gl_target = GL_TEXTURE_2D,
    gl_read_holders = n, gl_write_held = False\<rparr>"
  let ?s = "\<lambda>n rs. \<lparr>gl_reg = [(1, ?st n)], read_guards = rs, write_guards = []\<rparr> :: unit gl_system"
  have "gl_reachable (?s 0 [])"
    using gl_step.registered [of "?st 0" 1 "\<lparr>gl_reg = [], read_guards = [], write_guards = []\<rparr>"]
    by (intro gl_reachable.gl_next [OF gl_reachable.gl_start]) (simp add: registry_register_def)
  moreover have acq: "acquire_read 1 [(1, ?st n)] =
      (Inr (1, \<lparr>rv_texture = 5, rv_target = GL_TEXTURE_2D\<rparr>), [(1, ?st (n + 1))])" for n
    by (simp add: acquire_read_def gl_try_begin_read_def try_begin_read_def)
  then have "gl_step (?s 0 []) (?s 1 [1])" "gl_step (?s 1 [1]) (?s 2 [1, 1])"
    using gl_step.read_acquired [of 1 "?s 0 []"] gl_step.read_acquired [of 1 "?s 1 [1]"] by simp_all
  ultimately have r: "gl_reachable (?s 2 [1, 1])" by (blast intro: gl_reachable.gl_next)
  from surface_guards_are_exclusive [OF r, of 1] r show ?thesis by fastforce
qed

end
