(* ===== verification/Encoded_Ordering.thy ===== *)
theory Encoded_Ordering
  imports Prelude
begin

text \<open>
  Ordering and loss doctrine of encoded streams
  (\<open>streamlib-media-builtins/src/encoded_stream_ordering.rs\<close>): the producer's counter for the
  ordering pair and the consumer's sync-point gate.
\<close>

subsection \<open>The producer's counter\<close>

record ordering_pair =
  group_index :: u64
  sequence_index :: u64

record ordering_pair_counter =
  bags_accounted :: u64
  current_group_index :: u64

definition counter_default :: ordering_pair_counter where
  "counter_default = \<lparr>bags_accounted = 0, current_group_index = 0\<rparr>"

definition account_published_bag ::
    "bool \<Rightarrow> ordering_pair_counter \<Rightarrow> ordering_pair \<times> ordering_pair_counter" where
  "account_published_bag is_sync_point c =
     (let c = (if is_sync_point \<and> 0 < bags_accounted c
               then c\<lparr>current_group_index := current_group_index c + 1\<rparr> else c);
          pair = \<lparr>group_index = current_group_index c, sequence_index = bags_accounted c\<rparr>
      in (pair, c\<lparr>bags_accounted := bags_accounted c + 1\<rparr>))"

subsection \<open>The consumer's gate\<close>

datatype disposition =
  Decode
| ReEnterAtThisSyncPoint
| DiscardUntilTheNextSyncPoint

record sync_point_gate =
  newest_sequence_index_seen :: "u64 option"
  awaiting_a_sync_point :: bool
  bags_lost_to_gaps :: u64
  bags_discarded_awaiting_a_sync_point :: u64
  sync_points_entered_at :: u64

definition opening_at_the_next_sync_point :: sync_point_gate where
  "opening_at_the_next_sync_point =
     \<lparr>newest_sequence_index_seen = None, awaiting_a_sync_point = True, bags_lost_to_gaps = 0,
      bags_discarded_awaiting_a_sync_point = 0, sync_points_entered_at = 0\<rparr>"

definition u64_checked_sub :: "u64 \<Rightarrow> u64 \<Rightarrow> u64 option" where
  "u64_checked_sub a b = (if b \<le> a then Some (a - b) else None)"

definition u64_saturating_sub :: "u64 \<Rightarrow> u64 \<Rightarrow> u64" where
  "u64_saturating_sub a b = (if b \<le> a then a - b else 0)"

definition u64_saturating_add :: "u64 \<Rightarrow> u64 \<Rightarrow> u64" where
  "u64_saturating_add a b = (if unat a + unat b < 2 ^ 64 then a + b else - 1)"

definition note_gap :: "u64 \<Rightarrow> sync_point_gate \<Rightarrow> sync_point_gate" where
  "note_gap seq g =
     (case newest_sequence_index_seen g of
        None \<Rightarrow> g
      | Some newest_seen \<Rightarrow>
          if u64_checked_sub seq newest_seen \<noteq> Some 1
          then g\<lparr>bags_lost_to_gaps := u64_saturating_add (bags_lost_to_gaps g)
                    (u64_saturating_sub (u64_saturating_sub seq newest_seen) 1),
                 awaiting_a_sync_point := True\<rparr>
          else g)"

definition admit :: "u64 \<Rightarrow> bool \<Rightarrow> sync_point_gate \<Rightarrow> disposition \<times> sync_point_gate" where
  "admit seq is_sync_point g =
     (let g = (note_gap seq g)\<lparr>newest_sequence_index_seen := Some seq\<rparr>
      in if \<not> awaiting_a_sync_point g then (Decode, g)
         else if is_sync_point
         then (ReEnterAtThisSyncPoint,
               g\<lparr>awaiting_a_sync_point := False, sync_points_entered_at := sync_points_entered_at g + 1\<rparr>)
         else (DiscardUntilTheNextSyncPoint,
               g\<lparr>bags_discarded_awaiting_a_sync_point := bags_discarded_awaiting_a_sync_point g + 1\<rparr>))"

definition break_continuity :: "sync_point_gate \<Rightarrow> sync_point_gate" where
  "break_continuity g = g\<lparr>awaiting_a_sync_point := True\<rparr>"

subsection \<open>Runs\<close>

datatype gate_event = Arrive u64 bool | Break

fun gate_run :: "gate_event list \<Rightarrow> sync_point_gate \<Rightarrow> disposition option list \<times> sync_point_gate" where
  "gate_run [] g = ([], g)"
| "gate_run (Arrive seq sync # es) g =
     (case admit seq sync g of (d, g') \<Rightarrow> (case gate_run es g' of (ds, g'') \<Rightarrow> (Some d # ds, g'')))"
| "gate_run (Break # es) g = (case gate_run es (break_continuity g) of (ds, g'') \<Rightarrow> (None # ds, g''))"

fun producer_run :: "bool list \<Rightarrow> ordering_pair_counter \<Rightarrow> ordering_pair list" where
  "producer_run [] c = []"
| "producer_run (s # ss) c = (case account_published_bag s c of (p, c') \<Rightarrow> p # producer_run ss c')"

definition fed :: "disposition option \<Rightarrow> bool" where
  "fed d \<longleftrightarrow> d = Some Decode \<or> d = Some ReEnterAtThisSyncPoint"

lemma length_gate_run: "gate_run es g = (ds, g') \<Longrightarrow> length ds = length es"
  by (induction es g arbitrary: ds g' rule: gate_run.induct) (auto split: prod.splits)

lemma gate_run_append:
  "gate_run (es @ fs) g =
     (case gate_run es g of (ds, g') \<Rightarrow> (case gate_run fs g' of (ds', g'') \<Rightarrow> (ds @ ds', g'')))"
  by (induction es g rule: gate_run.induct) (auto split: prod.splits)

text \<open>
  \<open>unbroken es ds i\<close>: the event at \<open>i\<close> ends a run that was entered at a sync point and has
  been fed without a gap or a deliberate break since.
\<close>

inductive unbroken :: "gate_event list \<Rightarrow> disposition option list \<Rightarrow> nat \<Rightarrow> bool" for es ds where
  entered: "i < length es \<Longrightarrow> es ! i = Arrive seq True \<Longrightarrow> ds ! i = Some ReEnterAtThisSyncPoint \<Longrightarrow>
    unbroken es ds i"
| extended: "unbroken es ds i \<Longrightarrow> Suc i < length es \<Longrightarrow> es ! i = Arrive prev b \<Longrightarrow>
    es ! Suc i = Arrive seq c \<Longrightarrow> unat seq = unat prev + 1 \<Longrightarrow> ds ! Suc i = Some Decode \<Longrightarrow>
    unbroken es ds (Suc i)"

text \<open>What the gate knows after a run: whether it is inside an unbroken run, and where.\<close>

definition gate_inv :: "gate_event list \<Rightarrow> disposition option list \<Rightarrow> sync_point_gate \<Rightarrow> bool" where
  "gate_inv es ds g \<longleftrightarrow> length ds = length es \<and>
     (\<not> awaiting_a_sync_point g \<longrightarrow>
        (\<exists>i seq b. length es = Suc i \<and> es ! i = Arrive seq b \<and>
           newest_sequence_index_seen g = Some seq \<and> unbroken es ds i)) \<and>
     (\<forall>i < length es. fed (ds ! i) \<longrightarrow> unbroken es ds i)"

lemma unbroken_append:
  "unbroken es ds i \<Longrightarrow> length ds = length es \<Longrightarrow> unbroken (es @ es') (ds @ ds') i"
proof (induction i rule: unbroken.induct)
  case (entered i seq)
  then show ?case by (intro unbroken.entered) (auto simp: nth_append)
next
  case (extended i prev b seq c)
  then show ?case by (intro unbroken.extended) (auto simp: nth_append)
qed

lemma checked_sub_one: "u64_checked_sub seq prev = Some 1 \<Longrightarrow> unat seq = unat prev + 1"
  by (auto simp: u64_checked_sub_def unat_sub split: if_splits)
     (metis (no_types) Suc_eq_plus1 add.commute le_add_diff_inverse2 unat_1 unat_sub word_le_nat_alt)

lemma gate_inv_break:
  assumes "gate_inv es ds g"
  shows "gate_inv (es @ [Break]) (ds @ [None]) (break_continuity g)"
  using assms unbroken_append [of es ds _ "[Break]" "[None]"]
  by (auto simp: gate_inv_def break_continuity_def nth_append fed_def less_Suc_eq)

lemma gate_inv_admit:
  assumes inv: "gate_inv es ds g" and adm: "admit seq sync g = (d, g')"
  shows "gate_inv (es @ [Arrive seq sync]) (ds @ [Some d]) g'"
proof -
  let ?es = "es @ [Arrive seq sync]" and ?ds = "ds @ [Some d]" and ?n = "length es"
  have len: "length ds = length es" using inv by (simp add: gate_inv_def)
  have old: "\<forall>i < ?n. fed (?ds ! i) \<longrightarrow> unbroken ?es ?ds i"
    using inv unbroken_append [OF _ len] by (auto simp: gate_inv_def nth_append len)
  have new: "unbroken ?es ?ds ?n" if f: "d \<noteq> DiscardUntilTheNextSyncPoint"
  proof (cases "awaiting_a_sync_point (note_gap seq g)")
    case True
    then have "d = ReEnterAtThisSyncPoint" "sync"
      using adm f by (auto simp: admit_def Let_def split: if_splits)
    then show ?thesis by (intro unbroken.entered) (auto simp: nth_append len)
  next
    case False
    then have d: "d = Decode" using adm by (simp add: admit_def Let_def)
    from False have na: "\<not> awaiting_a_sync_point g"
      by (auto simp: note_gap_def split: option.splits if_splits)
    then obtain i prev b where i: "?n = Suc i" "es ! i = Arrive prev b"
      "newest_sequence_index_seen g = Some prev" "unbroken es ds i"
      using inv by (auto simp: gate_inv_def)
    with False have "u64_checked_sub seq prev = Some 1"
      by (auto simp: note_gap_def split: if_splits)
    from checked_sub_one [OF this] show ?thesis unfolding i(1)
      using i d len by (intro unbroken.extended [OF unbroken_append [OF i(4) len]]) (auto simp: nth_append)
  qed
  have st: "newest_sequence_index_seen g' = Some seq \<and>
      (awaiting_a_sync_point g' \<longleftrightarrow> d = DiscardUntilTheNextSyncPoint)"
    using adm by (auto simp: admit_def Let_def split: if_splits)
  show ?thesis unfolding gate_inv_def
  proof (intro conjI allI impI)
    show "length ?ds = length ?es" using len by simp
    show "\<exists>i seq b. length ?es = Suc i \<and> ?es ! i = Arrive seq b \<and>
        newest_sequence_index_seen g' = Some seq \<and> unbroken ?es ?ds i"
      if "\<not> awaiting_a_sync_point g'" using that new st by auto
    show "unbroken ?es ?ds i" if "i < length ?es" "fed (?ds ! i)" for i
    proof (cases "i < ?n")
      case False
      then have "i = ?n" using that by simp
      then show ?thesis using that new len by (auto simp: nth_append fed_def)
    qed (use old that in blast)
  qed
qed

lemma gate_run_inv:
  assumes "gate_inv es0 ds0 g" "gate_run es g = (ds, g')"
  shows "gate_inv (es0 @ es) (ds0 @ ds) g'"
  using assms
proof (induction es g arbitrary: es0 ds0 ds g' rule: gate_run.induct)
  case (2 seq sync es g)
  obtain d g1 ds1 where a: "admit seq sync g = (d, g1)" "gate_run es g1 = (ds1, g')" "ds = Some d # ds1"
    using 2(3) by (auto split: prod.splits)
  from 2(1) [OF a(1) [symmetric] gate_inv_admit [OF 2(2) a(1)] a(2)] a(3) show ?case by simp
next
  case (3 es g)
  obtain ds1 where a: "gate_run es (break_continuity g) = (ds1, g')" "ds = None # ds1"
    using 3(3) by (auto split: prod.splits)
  from 3(1) [OF gate_inv_break [OF 3(2)] a(1)] a(2) show ?case by simp
qed simp

lemma unbroken_explicit:
  "unbroken es ds i \<Longrightarrow> \<exists>j \<le> i. (\<exists>seq. es ! j = Arrive seq True) \<and> ds ! j = Some ReEnterAtThisSyncPoint \<and>
     (\<forall>k. j < k \<and> k \<le> i \<longrightarrow> ds ! k = Some Decode \<and>
        (\<exists>prev b seq c. es ! (k - 1) = Arrive prev b \<and> es ! k = Arrive seq c \<and> unat seq = unat prev + 1))"
proof (induction i rule: unbroken.induct)
  case (entered i seq)
  then show ?case by (intro exI [of _ i]) auto
next
  case (extended i prev b seq c)
  from extended.IH obtain j where j: "j \<le> i" "\<exists>seq. es ! j = Arrive seq True"
    "ds ! j = Some ReEnterAtThisSyncPoint"
    "\<forall>k. j < k \<and> k \<le> i \<longrightarrow> ds ! k = Some Decode \<and>
        (\<exists>prev b seq c. es ! (k - 1) = Arrive prev b \<and> es ! k = Arrive seq c \<and> unat seq = unat prev + 1)"
    by blast
  have "ds ! k = Some Decode \<and>
        (\<exists>prev b seq c. es ! (k - 1) = Arrive prev b \<and> es ! k = Arrive seq c \<and> unat seq = unat prev + 1)"
    if "j < k \<and> k \<le> Suc i" for k
    using that j(4) extended.hyps by (cases "k = Suc i") auto
  with j(1-3) show ?case by (intro exI [of _ j]) auto
qed

subsection \<open>Counting\<close>

abbreviation tally :: "disposition \<Rightarrow> disposition option list \<Rightarrow> nat" where
  "tally d ds \<equiv> length (filter (\<lambda>x. x = Some d) ds)"

lemma admit_tally:
  assumes "admit seq sync g = (d, g')"
  shows "bags_discarded_awaiting_a_sync_point g' = bags_discarded_awaiting_a_sync_point g +
      of_nat (tally DiscardUntilTheNextSyncPoint [Some d]) \<and>
    sync_points_entered_at g' = sync_points_entered_at g + of_nat (tally ReEnterAtThisSyncPoint [Some d])"
proof -
  have "bags_discarded_awaiting_a_sync_point (note_gap seq g) = bags_discarded_awaiting_a_sync_point g"
    "sync_points_entered_at (note_gap seq g) = sync_points_entered_at g"
    by (auto simp: note_gap_def split: option.splits)
  then show ?thesis using assms by (auto simp: admit_def Let_def split: if_splits)
qed

lemma gate_run_tally:
  assumes "gate_run es g = (ds, g')"
  shows "bags_discarded_awaiting_a_sync_point g' = bags_discarded_awaiting_a_sync_point g +
      of_nat (tally DiscardUntilTheNextSyncPoint ds) \<and>
    sync_points_entered_at g' = sync_points_entered_at g + of_nat (tally ReEnterAtThisSyncPoint ds)"
  using assms
proof (induction es g arbitrary: ds g' rule: gate_run.induct)
  case (2 seq sync es g)
  obtain d g1 ds1 where a: "admit seq sync g = (d, g1)" "gate_run es g1 = (ds1, g')" "ds = Some d # ds1"
    using 2(2) by (auto split: prod.splits)
  from 2(1) [OF a(1) [symmetric] a(2)] admit_tally [OF a(1)] a(3) show ?case by auto
next
  case (3 es g)
  then show ?case by (auto simp: break_continuity_def split: prod.splits)
qed simp

lemma admit_newest: "admit seq sync g = (d, g') \<Longrightarrow> newest_sequence_index_seen g' = Some seq"
  by (auto simp: admit_def Let_def split: if_splits)

lemma admit_lost:
  assumes "admit (of_nat n) sync g = (d, g')" "newest_sequence_index_seen g = Some (of_nat p)"
    and "p < n" "n < 2 ^ 64" "unat (bags_lost_to_gaps g) + (n - p - 1) < 2 ^ 64"
  shows "unat (bags_lost_to_gaps g') = unat (bags_lost_to_gaps g) + (n - p - 1)"
proof -
  let ?n = "of_nat n :: u64" and ?p = "of_nat p :: u64"
  have u: "unat ?n = n" "unat ?p = p" using assms(3,4) by (simp_all add: unat_of_nat)
  then have le: "?p \<le> ?n" using assms(3) by (simp add: word_le_nat_alt)
  then have d: "unat (?n - ?p) = n - p" using u by (simp add: unat_sub)
  then have "1 \<le> ?n - ?p" using assms(3) by (simp add: word_le_nat_alt)
  then have s: "unat (u64_saturating_sub (u64_saturating_sub ?n ?p) 1) = n - p - 1"
    using le d by (simp add: u64_saturating_sub_def unat_sub)
  have "bags_lost_to_gaps g' = (if ?n - ?p = 1 then bags_lost_to_gaps g
      else u64_saturating_add (bags_lost_to_gaps g) (u64_saturating_sub (u64_saturating_sub ?n ?p) 1))"
    using assms(1,2) le by (auto simp: admit_def note_gap_def Let_def u64_checked_sub_def split: if_splits)
  moreover have "?n - ?p = 1 \<Longrightarrow> n - p - 1 = 0" using d by simp
  ultimately show ?thesis using s assms(5)
    by (auto simp: u64_saturating_add_def unat_word_ariths)
qed

abbreviation arrivals :: "bool list \<Rightarrow> nat list \<Rightarrow> gate_event list" where
  "arrivals flags is \<equiv> map (\<lambda>i. Arrive (of_nat i) (flags ! i)) is"

lemma gate_run_lost:
  assumes "gate_run (arrivals flags is) g = (ds, g')" "newest_sequence_index_seen g = Some (of_nat p)"
    and "sorted_wrt (<) (p # is)" "last (p # is) < 2 ^ 64"
    and "unat (bags_lost_to_gaps g) + (last (p # is) - p - length is) < 2 ^ 64"
  shows "unat (bags_lost_to_gaps g') = unat (bags_lost_to_gaps g) + (last (p # is) - p - length is)"
  using assms
proof (induction "is" arbitrary: p g ds)
  case (Cons n ns)
  obtain d g1 ds1 where a: "admit (of_nat n) (flags ! n) g = (d, g1)"
    "gate_run (arrivals flags ns) g1 = (ds1, g')"
    using Cons.prems(1) by (auto split: prod.splits)
  have pn: "p < n" and srt: "sorted_wrt (<) (n # ns)" using Cons.prems(3) by auto
  have len: "n + length ns \<le> last (n # ns)" using srt
  proof (induction ns arbitrary: n)
    case (Cons m ms)
    then have "m + length ms \<le> last (m # ms)" "n < m" by auto
    then show ?case by simp
  qed simp
  then have n64: "n < 2 ^ 64" using Cons.prems(4) by simp
  have b1: "unat (bags_lost_to_gaps g) + (n - p - 1) < 2 ^ 64" using Cons.prems(5) len pn by simp
  note L = admit_lost [OF a(1) Cons.prems(2) pn n64 b1]
  have "unat (bags_lost_to_gaps g') = unat (bags_lost_to_gaps g1) + (last (n # ns) - n - length ns)"
    using Cons.prems(4,5) len pn L
    by (intro Cons.IH [OF a(2) admit_newest [OF a(1)] srt]) auto
  then show ?case using L len pn by simp
qed simp

lemma producer_run_sequence:
  assumes "i < length flags"
  shows "sequence_index (producer_run flags c ! i) = bags_accounted c + of_nat i"
  using assms
proof (induction flags c arbitrary: i rule: producer_run.induct)
  case (2 s ss c)
  obtain p c' where a: "account_published_bag s c = (p, c')" by fastforce
  then have "sequence_index p = bags_accounted c" "bags_accounted c' = bags_accounted c + 1"
    by (auto simp: account_published_bag_def Let_def)
  with a 2 show ?case by (cases i) (auto simp: ac_simps)
qed simp

subsection \<open>Properties\<close>

text \<open>C6: the gate never feeds a broken stream. For any sequence of arrivals, with indices and
  sync flags taken unchecked off the wire, and any deliberate breaks: a bag that is fed is
  the end of a run entered at a bag flagged as a sync point, every bag of which was fed and
  numbered exactly one above its predecessor.\<close>

theorem gate_feeds_only_unbroken_runs:
  assumes "gate_run es opening_at_the_next_sync_point = (ds, g)" "i < length es"
    and "ds ! i = Some Decode \<or> ds ! i = Some ReEnterAtThisSyncPoint"
  shows "\<exists>j \<le> i. (\<exists>seq. es ! j = Arrive seq True) \<and> ds ! j = Some ReEnterAtThisSyncPoint \<and>
    (\<forall>k. j < k \<and> k \<le> i \<longrightarrow> ds ! k = Some Decode \<and>
      (\<exists>prev b seq c. es ! (k - 1) = Arrive prev b \<and> es ! k = Arrive seq c \<and> unat seq = unat prev + 1))"
proof -
  have "gate_inv [] [] opening_at_the_next_sync_point"
    by (simp add: gate_inv_def opening_at_the_next_sync_point_def)
  from gate_run_inv [OF this assms(1)] assms(2,3) have "unbroken es ds i"
    by (auto simp: gate_inv_def fed_def)
  then show ?thesis by (rule unbroken_explicit)
qed

theorem gate_feeds_only_unbroken_runs_witness:
  "\<exists>ds g. gate_run [Arrive 4 False, Arrive 5 True, Arrive 6 False] opening_at_the_next_sync_point = (ds, g) \<and>
     ds ! 2 = Some Decode \<and>
     (\<exists>j \<le> 2. ds ! j = Some ReEnterAtThisSyncPoint)"
proof -
  let ?es = "[Arrive 4 False, Arrive 5 True, Arrive 6 False]"
  obtain ds g where r: "gate_run ?es opening_at_the_next_sync_point = (ds, g)" by fastforce
  have "fst (gate_run ?es opening_at_the_next_sync_point) =
      [Some DiscardUntilTheNextSyncPoint, Some ReEnterAtThisSyncPoint, Some Decode]" by code_simp
  with r have "ds ! 2 = Some Decode" by simp
  with gate_feeds_only_unbroken_runs [OF r, of 2] r show ?thesis by auto
qed

text \<open>C13: loss is accounted exactly across the link. Take the bags a producer numbers and any
  non-empty selection of them delivered in order: the gate's loss count is exactly the number
  of published bags missing between the first and the last delivered, and its discard and
  entry counts are exactly the dispositions it handed out; every delivered bag is fed or
  counted as discarded.\<close>

theorem link_loss_accounting:
  assumes "sorted_wrt (<) (i # is)" "\<forall>k \<in> set (i # is). k < length flags" "length flags < 2 ^ 64"
    and "pairs = producer_run flags counter_default"
    and "es = map (\<lambda>k. Arrive (sequence_index (pairs ! k)) (flags ! k)) (i # is)"
    and "gate_run es opening_at_the_next_sync_point = (ds, g)"
  shows "unat (bags_lost_to_gaps g) = last (i # is) - i - length is \<and>
    unat (bags_discarded_awaiting_a_sync_point g) = tally DiscardUntilTheNextSyncPoint ds \<and>
    unat (sync_points_entered_at g) = tally ReEnterAtThisSyncPoint ds \<and>
    length ds = length (i # is)"
proof -
  have es: "es = arrivals flags (i # is)"
    using assms(2,4,5) producer_run_sequence [of _ flags counter_default]
    by (auto simp: counter_default_def)
  obtain d g1 ds1 where a: "admit (of_nat i) (flags ! i) opening_at_the_next_sync_point = (d, g1)"
    "gate_run (arrivals flags is) g1 = (ds1, g)" "ds = Some d # ds1"
    using assms(6) es by (auto split: prod.splits)
  have "last (i # is) < length flags" using assms(2) last_in_set [of "i # is"] by blast
  then have l: "last (i # is) < 2 ^ 64" using assms(3) by simp
  have z: "bags_lost_to_gaps g1 = 0"
    using a(1) by (auto simp: admit_def note_gap_def opening_at_the_next_sync_point_def Let_def split: if_splits)
  have lost: "unat (bags_lost_to_gaps g) = last (i # is) - i - length is"
    using gate_run_lost [OF a(2) admit_newest [OF a(1)] assms(1) l] z l by simp
  have len: "length ds = length (i # is)" using length_gate_run [OF assms(6)] es by simp
  have "length (i # is) \<le> length flags"
    using assms(1,2) by (metis (no_types, lifting) card_length card_mono distinct_card finite_lessThan
        card_lessThan lessThan_iff strict_sorted_iff subsetI)
  then have small: "tally x ds < 2 ^ 64" for x
    using length_filter_le [of "\<lambda>y. y = Some x" ds] len assms(3) by linarith
  from gate_run_tally [OF assms(6)] small show ?thesis
    using lost len by (simp add: opening_at_the_next_sync_point_def unat_of_nat)
qed

theorem link_loss_accounting_witness:
  "\<exists>ds g. gate_run (map (\<lambda>k. Arrive (sequence_index (producer_run [True, False, True, False] counter_default ! k))
        ([True, False, True, False] ! k)) [0, 3]) opening_at_the_next_sync_point = (ds, g) \<and>
     unat (bags_lost_to_gaps g) = 2"
proof -
  let ?fl = "[True, False, True, False]"
  let ?es = "map (\<lambda>k. Arrive (sequence_index (producer_run ?fl counter_default ! k)) (?fl ! k)) [0, 3]"
  obtain ds g where r: "gate_run ?es opening_at_the_next_sync_point = (ds, g)" by fastforce
  from link_loss_accounting [OF _ _ _ refl refl r] r show ?thesis by auto
qed

end
