(* ===== verification/Audio_Rings.thy ===== *)
theory Audio_Rings
  imports Mailbox "HOL-Library.Sublist"
begin

text \<open>
  The two bounded hand-offs between audio devices and the graph
  (\<open>captured_audio_block_hand_off_ring.rs\<close>, \<open>audio_samples_awaiting_playback_ring.rs\<close>) and the
  two report schedules (\<open>consecutive_failure_report_schedule.rs\<close>,
  \<open>cumulative_count_report_threshold.rs\<close>) of the media built-ins.

  Each ring is its contents under the lock. A wait on the condition variable gives the lock
  up, so a method that waits takes a list of what the other threads did during each of its
  waits; it is still waiting when the list runs out, which is the result \<open>None\<close>.
\<close>

subsection \<open>Capture: drop the oldest\<close>

record captured_block =
  interleaved_sample_bytes :: bytes
  sample_count :: u32
  first_sample_timestamp_ns :: i64

record capture_ring =
  blocks :: "captured_block list"
  hand_off_has_ended :: bool
  block_capacity :: nat
  dropped_block_count :: u64

datatype next_block =
  Block captured_block
| WaitTimedOut
| HandOffEnded

definition capture_ring_with_capacity :: "nat \<Rightarrow> capture_ring" where
  "capture_ring_with_capacity cap =
     \<lparr>blocks = [], hand_off_has_ended = False, block_capacity = max cap 1, dropped_block_count = 0\<rparr>"

text \<open>The loop that makes room; with a capacity of zero it would pop an empty queue forever,
  which the floor of one rules out.\<close>

partial_function (option) make_room :: "capture_ring \<Rightarrow> capture_ring option" where
  "make_room r =
     (if block_capacity r \<le> length (blocks r)
      then make_room (r\<lparr>blocks := tl (blocks r), dropped_block_count := dropped_block_count r + 1\<rparr>)
      else Some r)"

definition hand_off_from_device_callback :: "captured_block \<Rightarrow> capture_ring \<Rightarrow> capture_ring option" where
  "hand_off_from_device_callback b r =
     (case make_room r of None \<Rightarrow> None | Some r \<Rightarrow> Some (r\<lparr>blocks := blocks r @ [b]\<rparr>))"

fun wait_for_next_block_to_publish ::
    "(capture_ring \<Rightarrow> capture_ring \<times> bool) list \<Rightarrow> capture_ring \<Rightarrow> (next_block \<times> capture_ring) option" where
  "wait_for_next_block_to_publish waits r =
     (case blocks r of
        b # bs \<Rightarrow> Some (Block b, r\<lparr>blocks := bs\<rparr>)
      | [] \<Rightarrow>
          if hand_off_has_ended r then Some (HandOffEnded, r)
          else (case waits of
                  [] \<Rightarrow> None
                | others # waits' \<Rightarrow>
                    (case others r of (r', timed_out) \<Rightarrow>
                       if timed_out
                       then (case blocks r' of
                               b # bs \<Rightarrow> Some (Block b, r'\<lparr>blocks := bs\<rparr>)
                             | [] \<Rightarrow> Some (WaitTimedOut, r'))
                       else wait_for_next_block_to_publish waits' r')))"

definition end_hand_off :: "capture_ring \<Rightarrow> capture_ring" where
  "end_hand_off r = r\<lparr>hand_off_has_ended := True\<rparr>"

subsection \<open>Playback: wait for room\<close>

record playback_ring =
  queued_bytes :: bytes
  playback_has_ended :: bool
  the_cushion_has_filled :: bool
  byte_capacity :: nat
  underrun_byte_count :: u64
  silence_before_cushion_byte_count :: u64

datatype hand_off_outcome = Queued | PlaybackEnded

abbreviation DEVICE_PERIODS_QUEUED_BEFORE_PLAYBACK_BEGINS :: nat where
  "DEVICE_PERIODS_QUEUED_BEFORE_PLAYBACK_BEGINS \<equiv> 2"

definition playback_ring_with_byte_capacity :: "nat \<Rightarrow> playback_ring" where
  "playback_ring_with_byte_capacity cap =
     \<lparr>queued_bytes = [], playback_has_ended = False, the_cushion_has_filled = False,
      byte_capacity = max cap 1, underrun_byte_count = 0, silence_before_cushion_byte_count = 0\<rparr>"

text \<open>One pass of the hand-off's loop: queue what fits, and keep what does not.\<close>

definition queue_what_fits :: "bytes \<Rightarrow> playback_ring \<Rightarrow> bytes \<times> playback_ring" where
  "queue_what_fits still_to_queue r =
     (let room = byte_capacity r - length (queued_bytes r);
          queued_now = min room (length still_to_queue)
      in (drop queued_now still_to_queue,
          r\<lparr>queued_bytes := queued_bytes r @ take queued_now still_to_queue\<rparr>))"

fun hand_off_for_playback ::
    "(playback_ring \<Rightarrow> playback_ring) list \<Rightarrow> bytes \<Rightarrow> playback_ring \<Rightarrow>
      (hand_off_outcome \<times> playback_ring) option" where
  "hand_off_for_playback waits still_to_queue r =
     (if playback_has_ended r then Some (PlaybackEnded, r)
      else
        (let (still_to_queue, r) = queue_what_fits still_to_queue r
         in if still_to_queue = [] then Some (Queued, r)
            else (case waits of
                    [] \<Rightarrow> None
                  | others # waits' \<Rightarrow> hand_off_for_playback waits' still_to_queue (others r))))"

declare wait_for_next_block_to_publish.simps [simp del]
declare hand_off_for_playback.simps [simp del]

definition fill_one_device_period :: "nat \<Rightarrow> playback_ring \<Rightarrow> bytes \<times> nat \<times> playback_ring" where
  "fill_one_device_period n r =
     (let bytes_to_start_on = min (n * DEVICE_PERIODS_QUEUED_BEFORE_PLAYBACK_BEGINS) (byte_capacity r)
      in if \<not> the_cushion_has_filled r \<and> length (queued_bytes r) < bytes_to_start_on
         then (replicate n 0, n,
               r\<lparr>silence_before_cushion_byte_count := silence_before_cushion_byte_count r + of_nat n\<rparr>)
         else
           (let r = r\<lparr>the_cushion_has_filled := True\<rparr>;
                filled = min (length (queued_bytes r)) n;
                out = take filled (queued_bytes r);
                r = r\<lparr>queued_bytes := drop filled (queued_bytes r)\<rparr>;
                underran_by = n - filled
            in (out @ replicate underran_by 0, underran_by,
                if 0 < underran_by
                then r\<lparr>underrun_byte_count := underrun_byte_count r + of_nat underran_by\<rparr> else r)))"

definition end_playback :: "playback_ring \<Rightarrow> playback_ring" where
  "end_playback r = r\<lparr>playback_has_ended := True\<rparr>"

subsection \<open>Report schedules\<close>

record failure_schedule =
  consecutive_failures :: u64
  failures_between_reports :: u64

definition failure_schedule_reporting_every :: "u64 \<Rightarrow> failure_schedule" where
  "failure_schedule_reporting_every n =
     \<lparr>consecutive_failures = 0, failures_between_reports = max n 1\<rparr>"

definition note_success :: "failure_schedule \<Rightarrow> failure_schedule" where
  "note_success s = s\<lparr>consecutive_failures := 0\<rparr>"

definition note_failure_and_say_whether_to_report :: "failure_schedule \<Rightarrow> bool \<times> failure_schedule" where
  "note_failure_and_say_whether_to_report s =
     (let s = s\<lparr>consecutive_failures := consecutive_failures s + 1\<rparr>
      in (consecutive_failures s = 1 \<or>
          consecutive_failures s mod failures_between_reports s = 0, s))"

record count_threshold =
  report_at :: u64
  step :: u64

definition count_threshold_reporting_every :: "u64 \<Rightarrow> count_threshold" where
  "count_threshold_reporting_every n = \<lparr>report_at = 1, step = max n 1\<rparr>"

definition count_is_worth_reporting :: "u64 \<Rightarrow> count_threshold \<Rightarrow> bool \<times> count_threshold" where
  "count_is_worth_reporting n t =
     (if n < report_at t then (False, t)
      else (True, t\<lparr>report_at := (if unat n + unat (step t) < 2 ^ 64 then n + step t else - 1)\<rparr>))"

lemma note_failure_reports:
  assumes "consecutive_failures s = of_nat k" "Suc k < 2 ^ 64" "note_failure_and_say_whether_to_report s = (b, s')"
  shows "consecutive_failures s' = of_nat (Suc k) \<and>
    (b \<longleftrightarrow> k = 0 \<or> unat (failures_between_reports s) dvd Suc k)"
proof -
  have u: "unat (of_nat (Suc k) :: u64) = Suc k" using assms(2) by (simp add: unat_of_nat del: of_nat_Suc)
  have c: "consecutive_failures s + 1 = of_nat (Suc k)" using assms(1) by simp
  have "(of_nat (Suc k) :: u64) = 1 \<longleftrightarrow> k = 0"
    using u by (metis One_nat_def nat.inject unat_1 of_nat_1)
  moreover have "(of_nat (Suc k) :: u64) mod failures_between_reports s = 0 \<longleftrightarrow>
      unat (failures_between_reports s) dvd Suc k"
    using u unat_mod [of "of_nat (Suc k) :: u64" "failures_between_reports s"]
    by (simp add: word_unat_eq_iff dvd_eq_mod_eq_0 del: of_nat_Suc)
  ultimately show ?thesis using assms(3) c
    by (auto simp: note_failure_and_say_whether_to_report_def Let_def simp del: of_nat_Suc)
qed

lemma count_reported_once_per_step:
  assumes "count_is_worth_reporting n t = (True, t')" "unat n' < unat n + unat (step t)" "n' \<noteq> - 1"
  shows "count_is_worth_reporting n' t' = (False, t')"
proof -
  have "report_at t' = (if unat n + unat (step t) < 2 ^ 64 then n + step t else - 1)"
    using assms(1) by (auto simp: count_is_worth_reporting_def split: if_splits)
  moreover have "n' < n + step t" if "unat n + unat (step t) < 2 ^ 64"
    using assms(2) that by (simp add: word_less_nat_alt unat_word_ariths)
  moreover have "n' < - 1" using assms(3) by (simp add: word_order.not_eq_extremum)
  ultimately show ?thesis by (simp add: count_is_worth_reporting_def)
qed

subsection \<open>Capture is a drop-oldest FIFO\<close>

lemma hand_off_refines_fifo_push:
  assumes "0 < block_capacity r" "length (blocks r) \<le> block_capacity r"
    and "fifo_push (block_capacity r) b (blocks r, dropped) = (bs, dropped')"
  shows "hand_off_from_device_callback b r = Some (r\<lparr>blocks := bs,
    dropped_block_count := dropped_block_count r + of_nat (length dropped' - length dropped)\<rparr>) \<and>
    length bs \<le> block_capacity r"
proof (cases "block_capacity r \<le> length (blocks r)")
  case True
  let ?r = "r\<lparr>blocks := tl (blocks r), dropped_block_count := dropped_block_count r + 1\<rparr>"
  have "make_room r = make_room ?r" using True make_room.simps [of r] by simp
  also have "\<not> block_capacity ?r \<le> length (blocks ?r)"
    using True assms(1,2) by (cases "blocks r") auto
  then have "make_room ?r = Some ?r" by (simp only: make_room.simps [of ?r] if_False)
  finally show ?thesis using True assms
    by (auto simp: hand_off_from_device_callback_def fifo_push_def)
next
  case False
  then have "make_room r = Some r" using make_room.simps [of r] by simp
  then show ?thesis using False assms
    by (auto simp: hand_off_from_device_callback_def fifo_push_def)
qed

datatype capture_call = HandOff captured_block | Take | EndHandOff

text \<open>\<open>Take\<close> is a publisher's call that finds a block or the end of the hand-off at once.\<close>

fun capture_step :: "capture_call \<Rightarrow> capture_ring \<Rightarrow> (captured_block list \<times> capture_ring) option" where
  "capture_step (HandOff b) r = map_option (Pair []) (hand_off_from_device_callback b r)"
| "capture_step Take r =
     (case wait_for_next_block_to_publish [] r of
        Some (Block b, r') \<Rightarrow> Some ([b], r')
      | Some (_, r') \<Rightarrow> Some ([], r')
      | None \<Rightarrow> Some ([], r))"
| "capture_step EndHandOff r = Some ([], end_hand_off r)"

fun capture_run :: "capture_call list \<Rightarrow> capture_ring \<Rightarrow> (captured_block list \<times> capture_ring) option" where
  "capture_run [] r = Some ([], r)"
| "capture_run (c # cs) r =
     (case capture_step c r of
        None \<Rightarrow> None
      | Some (out, r') \<Rightarrow> map_option (\<lambda>(outs, r''). (out @ outs, r'')) (capture_run cs r'))"

fun handed_off :: "capture_call list \<Rightarrow> captured_block list" where
  "handed_off [] = []"
| "handed_off (HandOff b # cs) = b # handed_off cs"
| "handed_off (_ # cs) = handed_off cs"

definition capture_ok :: "capture_ring \<Rightarrow> bool" where
  "capture_ok r \<longleftrightarrow> 0 < block_capacity r \<and> length (blocks r) \<le> block_capacity r"

text \<open>
  Published blocks come out in hand-off order, and what is neither published nor still queued
  is dropped and counted.
\<close>

lemma capture_step_conserves:
  assumes "capture_ok r"
  shows "\<exists>out r' n. capture_step c r = Some (out, r') \<and> capture_ok r' \<and>
    block_capacity r' = block_capacity r \<and>
    n \<le> length (blocks r @ handed_off [c]) \<and>
    dropped_block_count r' = dropped_block_count r + of_nat n \<and>
    out @ blocks r' = drop n (blocks r @ handed_off [c])"
proof (cases c)
  case (HandOff b)
  obtain bs dr where f: "fifo_push (block_capacity r) b (blocks r, []) = (bs, dr)" by fastforce
  have "dr @ bs = blocks r @ [b]"
    using fifo_push_conserves [OF _ f] assms by (simp add: capture_ok_def)
  moreover from this have "bs = drop (length dr) (blocks r @ [b])" "length dr \<le> length (blocks r @ [b])"
    by (metis append_eq_conv_conj) (metis le_add1 length_append calculation)
  ultimately show ?thesis
    using HandOff hand_off_refines_fifo_push [OF _ _ f] assms
    by (intro exI [of _ "[]"] exI [of _ "r\<lparr>blocks := bs, dropped_block_count :=
        dropped_block_count r + of_nat (length dr)\<rparr>"] exI [of _ "length dr"])
       (auto simp: capture_ok_def)
next
  case Take
  then show ?thesis using assms
    by (cases "blocks r")
       (auto simp: capture_ok_def wait_for_next_block_to_publish.simps [of "[]" r] intro!: exI [of _ 0])
next
  case EndHandOff
  then show ?thesis using assms
    by (auto simp: capture_ok_def end_hand_off_def intro!: exI [of _ 0])
qed

lemma capture_run_conserves:
  assumes "capture_ok r"
  shows "\<exists>outs r' n. capture_run cs r = Some (outs, r') \<and> capture_ok r' \<and>
    block_capacity r' = block_capacity r \<and>
    dropped_block_count r' = dropped_block_count r + of_nat n \<and>
    length outs + n + length (blocks r') = length (blocks r @ handed_off cs) \<and>
    subseq (outs @ blocks r') (blocks r @ handed_off cs)"
  using assms
proof (induction cs arbitrary: r)
  case (Cons c cs)
  from capture_step_conserves [OF Cons.prems, of c] obtain out r1 n1 where
    1: "capture_step c r = Some (out, r1)" "capture_ok r1" "block_capacity r1 = block_capacity r"
      "n1 \<le> length (blocks r @ handed_off [c])"
      "dropped_block_count r1 = dropped_block_count r + of_nat n1"
      "out @ blocks r1 = drop n1 (blocks r @ handed_off [c])" by blast
  from Cons.IH [OF 1(2)] obtain outs r2 n2 where
    2: "capture_run cs r1 = Some (outs, r2)" "capture_ok r2" "block_capacity r2 = block_capacity r1"
      "dropped_block_count r2 = dropped_block_count r1 + of_nat n2"
      "length outs + n2 + length (blocks r2) = length (blocks r1 @ handed_off cs)"
      "subseq (outs @ blocks r2) (blocks r1 @ handed_off cs)" by blast
  have h: "handed_off (c # cs) = handed_off [c] @ handed_off cs" by (cases c) auto
  have "subseq (out @ outs @ blocks r2) (out @ blocks r1 @ handed_off cs)"
    using 2(6) by (simp add: subseq_append')
  also have "out @ blocks r1 @ handed_off cs = drop n1 (blocks r @ handed_off [c]) @ handed_off cs"
    using 1(6) by (metis append_assoc)
  also have "subseq \<dots> (blocks r @ handed_off (c # cs))"
    using h list_emb_append_mono [OF suffix_imp_subseq [OF suffix_drop] subseq_order.refl]
    by (metis append_assoc)
  finally have "subseq ((out @ outs) @ blocks r2) (blocks r @ handed_off (c # cs))" by simp
  moreover have "length out + n1 + length (blocks r1) = length (blocks r @ handed_off [c])"
    using arg_cong [OF 1(6), of length] 1(4) by simp
  ultimately show ?case using 1 2 h
    by (intro exI [of _ "out @ outs"] exI [of _ r2] exI [of _ "n1 + n2"]) auto
qed simp

subsection \<open>Playback keeps the stream\<close>

text \<open>What one device period does: the bytes it is given, and the bytes of them that are samples.\<close>

definition real_bytes :: "nat \<Rightarrow> playback_ring \<Rightarrow> nat" where
  "real_bytes n r = n - fst (snd (fill_one_device_period n r))"

lemma fill_one_device_period_spec:
  assumes "fill_one_device_period n r = (out, silent, r')"
  shows "out = take (n - silent) (queued_bytes r) @ replicate silent 0 \<and> silent \<le> n \<and>
    n - silent \<le> length (queued_bytes r) \<and> queued_bytes r' = drop (n - silent) (queued_bytes r) \<and>
    byte_capacity r' = byte_capacity r \<and> playback_has_ended r' = playback_has_ended r \<and>
    (the_cushion_has_filled r \<longrightarrow> the_cushion_has_filled r') \<and>
    underrun_byte_count r' + silence_before_cushion_byte_count r' =
      underrun_byte_count r + silence_before_cushion_byte_count r + of_nat silent"
  using assms by (auto simp: fill_one_device_period_def Let_def split: if_splits)

text \<open>A full ring always gives samples, whatever the cushion's state: the cushion is never larger
  than the ring.\<close>

lemma full_ring_plays:
  assumes "length (queued_bytes r) = byte_capacity r" "0 < byte_capacity r" "0 < n"
    and "fill_one_device_period n r = (out, silent, r')"
  shows "length (queued_bytes r') < byte_capacity r' \<and> byte_capacity r' = byte_capacity r"
  using assms by (auto simp: fill_one_device_period_def Let_def split: if_splits)

abbreviation period :: "nat \<Rightarrow> playback_ring \<Rightarrow> playback_ring" where
  "period n r \<equiv> snd (snd (fill_one_device_period n r))"

lemma hand_off_completes:
  assumes "\<not> playback_has_ended r" "0 < byte_capacity r" "length (queued_bytes r) \<le> byte_capacity r"
    and "length bs \<le> length ns + (byte_capacity r - length (queued_bytes r))" "\<forall>n \<in> set ns. 0 < n"
  shows "\<exists>r'. hand_off_for_playback (map period ns) bs r = Some (Queued, r') \<and>
    length (queued_bytes r') \<le> byte_capacity r'"
  using assms
proof (induction ns arbitrary: bs r)
  case Nil
  then show ?case by (auto simp: Let_def queue_what_fits_def hand_off_for_playback.simps [of "[]" bs r])
next
  case (Cons n ns)
  let ?q = "min (byte_capacity r - length (queued_bytes r)) (length bs)"
  let ?r = "r\<lparr>queued_bytes := queued_bytes r @ take ?q bs\<rparr>"
  show ?case
  proof (cases "drop ?q bs = []")
    case True
    then show ?thesis using Cons.prems
      by (auto simp: Let_def queue_what_fits_def hand_off_for_playback.simps [of "period n # map period ns" bs r])
  next
    case False
    then have full: "length (queued_bytes ?r) = byte_capacity ?r" using Cons.prems(3) by auto
    obtain out silent r1 where f: "fill_one_device_period n ?r = (out, silent, r1)"
      by (metis surj_pair)
    from full_ring_plays [OF full _ _ f] Cons.prems(2,5) have
      room: "length (queued_bytes r1) < byte_capacity r1" "byte_capacity r1 = byte_capacity r" by auto
    have e: "\<not> playback_has_ended r1"
      using fill_one_device_period_spec [OF f] Cons.prems(1) by simp
    have "\<exists>r'. hand_off_for_playback (map period ns) (drop ?q bs) r1 = Some (Queued, r') \<and>
        length (queued_bytes r') \<le> byte_capacity r'"
      using Cons.prems room e by (intro Cons.IH) auto
    then show ?thesis using Cons.prems(1) False f
      by (simp add: Let_def queue_what_fits_def hand_off_for_playback.simps [of "period n # map period ns" bs r])
  qed
qed

datatype playback_event = QueuePass bytes | DevicePeriod nat | EndPlayback

text \<open>A run's three streams: the bytes queued, the samples played (periods without their
  silence) and the number of silent bytes.\<close>

fun playback_run :: "playback_event list \<Rightarrow> playback_ring \<Rightarrow> bytes \<times> bytes \<times> nat \<times> playback_ring" where
  "playback_run [] r = ([], [], 0, r)"
| "playback_run (QueuePass bs # es) r =
     (let (rest, r1) = queue_what_fits bs r;
          (queued, played, silent, r2) = playback_run es r1
      in (take (length bs - length rest) bs @ queued, played, silent, r2))"
| "playback_run (DevicePeriod n # es) r =
     (let (out, underran, r1) = fill_one_device_period n r;
          (queued, played, silent, r2) = playback_run es r1
      in (queued, take (n - underran) out @ played, underran + silent, r2))"
| "playback_run (EndPlayback # es) r = playback_run es (end_playback r)"

lemma queue_what_fits_spec:
  assumes "queue_what_fits bs r = (rest, r')" "length (queued_bytes r) \<le> byte_capacity r"
  shows "queued_bytes r' = queued_bytes r @ take (length bs - length rest) bs \<and>
    bs = take (length bs - length rest) bs @ rest \<and>
    length (queued_bytes r') \<le> byte_capacity r' \<and> byte_capacity r' = byte_capacity r \<and>
    (rest \<noteq> [] \<longrightarrow> length (queued_bytes r') = byte_capacity r') \<and>
    underrun_byte_count r' = underrun_byte_count r \<and>
    silence_before_cushion_byte_count r' = silence_before_cushion_byte_count r"
proof -
  let ?q = "min (byte_capacity r - length (queued_bytes r)) (length bs)"
  have "rest = drop ?q bs" "r' = r\<lparr>queued_bytes := queued_bytes r @ take ?q bs\<rparr>"
    using assms(1) by (auto simp: queue_what_fits_def Let_def)
  moreover from this have "length bs - length rest = ?q" by simp
  ultimately show ?thesis using assms(2) by auto
qed

lemma playback_run_stream:
  assumes "playback_run es r = (queued, played, silent, r')" "length (queued_bytes r) \<le> byte_capacity r"
  shows "played @ queued_bytes r' = queued_bytes r @ queued \<and>
    length (queued_bytes r') \<le> byte_capacity r' \<and> byte_capacity r' = byte_capacity r \<and>
    underrun_byte_count r' + silence_before_cushion_byte_count r' =
      underrun_byte_count r + silence_before_cushion_byte_count r + of_nat silent"
  using assms
proof (induction es r arbitrary: queued played silent r' rule: playback_run.induct)
  case (2 bs es r)
  obtain rest r1 q1 where 1: "queue_what_fits bs r = (rest, r1)"
    "playback_run es r1 = (q1, played, silent, r')" "queued = take (length bs - length rest) bs @ q1"
    using 2(2) by (auto simp: Let_def split: prod.splits)
  note S = queue_what_fits_spec [OF 1(1) 2(3)]
  from 2(1) [OF 1(1) [symmetric] refl 1(2)] S 1(3) show ?case by auto
next
  case (3 n es r)
  obtain out u r1 p1 s1 where 1: "fill_one_device_period n r = (out, u, r1)"
    "playback_run es r1 = (queued, p1, s1, r')" "played = take (n - u) out @ p1" "silent = u + s1"
    using 3(2) by (auto simp: Let_def split: prod.splits)
  note S = fill_one_device_period_spec [OF 1(1)]
  have len: "length (queued_bytes r1) \<le> byte_capacity r1" using S 3(3) by auto
  have out: "take (n - u) out = take (n - u) (queued_bytes r)" using S by simp
  have td: "take (n - u) (queued_bytes r) @ drop (n - u) (queued_bytes r) @ queued = queued_bytes r @ queued"
    by (simp flip: append_assoc)
  from 3(1) [OF 1(1) [symmetric] refl refl 1(2) len] S 1(3,4) out td show ?case by auto
next
  case (4 es r)
  then show ?case by (simp add: end_playback_def)
qed simp

subsection \<open>Properties\<close>

text \<open>C10: playback neither loses, repeats nor reorders a sample. Over any interleaving of queueing
  passes, device periods and the end of playback on a fresh ring, the samples given to the
  device followed by those still queued are exactly the samples queued, in order; the ring
  never exceeds its capacity; and the bytes of silence played are exactly what the underrun and
  the pre-roll counters together say.\<close>

theorem playback_stream_is_intact:
  assumes "playback_run es (playback_ring_with_byte_capacity cap) = (queued, played, silent, r)"
  shows "played @ queued_bytes r = queued \<and> length (queued_bytes r) \<le> max cap 1 \<and>
    underrun_byte_count r + silence_before_cushion_byte_count r = of_nat silent"
  using playback_run_stream [OF assms] by (simp add: playback_ring_with_byte_capacity_def)

theorem playback_stream_is_intact_witness:
  "\<exists>r. playback_run [QueuePass [1, 2, 3], DevicePeriod 2, QueuePass [4, 5], DevicePeriod 2, DevicePeriod 2]
      (playback_ring_with_byte_capacity 4) = ([1, 2, 3, 4], [1, 2, 3, 4], 2, r) \<and>
     underrun_byte_count r + silence_before_cushion_byte_count r = 2"
proof -
  let ?es = "[QueuePass [1, 2, 3], DevicePeriod 2, QueuePass [4, 5], DevicePeriod 2, DevicePeriod 2]"
  obtain q p s r where run: "playback_run ?es (playback_ring_with_byte_capacity 4) = (q, p, s, r)"
    by (metis surj_pair)
  have "(let (q, p, s, r) = playback_run ?es (playback_ring_with_byte_capacity 4) in (q, p, s)) =
      ([1, 2, 3, 4], [1, 2, 3, 4], 2)" by code_simp
  with run have e: "q = [1, 2, 3, 4]" "p = [1, 2, 3, 4]" "s = 2" by simp_all
  from playback_stream_is_intact [OF run] run e show ?thesis by simp
qed

text \<open>C11: a hand-off waiting for room is never stuck. While playback has not ended, a hand-off of
  any number of bytes completes as soon as the device has served at most that many non-empty
  periods during its waits: a full ring always satisfies the cushion, so every period makes
  room.\<close>

theorem playback_hand_off_completes:
  assumes "\<not> playback_has_ended r" "0 < byte_capacity r" "length (queued_bytes r) \<le> byte_capacity r"
    and "\<forall>n \<in> set ns. 0 < n" "length bs \<le> length ns"
  shows "\<exists>r'. hand_off_for_playback (map (\<lambda>n r. snd (snd (fill_one_device_period n r))) ns) bs r =
    Some (Queued, r')"
proof -
  have "length bs \<le> length ns + (byte_capacity r - length (queued_bytes r))" using assms(5) by simp
  from hand_off_completes [OF assms(1-3) this assms(4)] show ?thesis by blast
qed

theorem playback_hand_off_completes_witness:
  "\<exists>r'. hand_off_for_playback (map (\<lambda>n r. snd (snd (fill_one_device_period n r))) [1, 1, 1]) [7, 8, 9]
     (playback_ring_with_byte_capacity 1) = Some (Queued, r')"
  using playback_hand_off_completes [of "playback_ring_with_byte_capacity 1" "[1, 1, 1]" "[7, 8, 9]"]
  by (simp add: playback_ring_with_byte_capacity_def)

text \<open>C12: the device callback never waits and loses only what it counts. Any sequence of hand-offs,
  takes and the end of the hand-off on a fresh capture ring returns (the loop that makes room
  terminates); published and still-queued blocks are handed-off blocks in their order; those
  missing are exactly the dropped count; and the ring stays within its capacity.\<close>

theorem capture_ring_accounts_for_every_block:
  "\<exists>outs r n. capture_run cs (capture_ring_with_capacity cap) = Some (outs, r) \<and>
     length (blocks r) \<le> max cap 1 \<and> subseq (outs @ blocks r) (handed_off cs) \<and>
     length outs + n + length (blocks r) = length (handed_off cs) \<and>
     dropped_block_count r = of_nat n"
proof -
  have "capture_ok (capture_ring_with_capacity cap)"
    by (simp add: capture_ok_def capture_ring_with_capacity_def)
  from capture_run_conserves [OF this, of cs] show ?thesis
    by (fastforce simp: capture_ring_with_capacity_def capture_ok_def)
qed

end
