(* ===== verification/Jpeg_Entropy.thy ===== *)
theory Jpeg_Entropy
  imports Prelude
begin

unbundle bit_operations_syntax

text \<open>
  The entropy layer of the baseline JPEG decoder (\<open>sdk/vulkan-jpeg/src\<close>): the bit reader with
  byte stuffing and marker detection (\<open>bit_reader.rs\<close>) and the canonical Huffman tables
  (\<open>huffman.rs\<close>). An operation that fails abandons the decode, so an error carries no reader.
\<close>

datatype jpeg_error =
  UnexpectedEof nat
| MissingSoi u8 u8
| MissingSos
| MissingSof
| MissingQuantizationTable u8
| MissingHuffmanTable u8 u8
| UnexpectedMarker u8 nat
| UnsupportedSof u8 string
| InvalidSegmentLength u8 nat
| MalformedQuantizationTable string
| MalformedHuffmanTable string
| InvalidHuffmanCode nat
| InvalidScan string
| UnexpectedRestartMarker u8 u8 nat
| Unsupported string

abbreviation PREFIX :: u8 where "PREFIX \<equiv> 0xFF"

subsection \<open>The bit reader\<close>

record bit_reader =
  br_bytes :: bytes
  cursor :: nat
  buffer :: u64
  bits_in_buffer :: nat
  pending_marker :: "u8 option"
  pending_marker_offset :: "nat option"

definition bit_reader_new :: "bytes \<Rightarrow> bit_reader" where
  "bit_reader_new bs = \<lparr>br_bytes = bs, cursor = 0, buffer = 0, bits_in_buffer = 0,
     pending_marker = None, pending_marker_offset = None\<rparr>"

definition reset_to_byte_boundary :: "bit_reader \<Rightarrow> bit_reader" where
  "reset_to_byte_boundary r = r\<lparr>buffer := 0, bits_in_buffer := 0\<rparr>"

definition push_byte :: "u8 \<Rightarrow> bit_reader \<Rightarrow> bit_reader" where
  "push_byte b r = r\<lparr>buffer := (push_bit 8 (buffer r)) OR (ucast b), bits_in_buffer := bits_in_buffer r + 8\<rparr>"

function refill :: "bit_reader \<Rightarrow> bit_reader" where
  "refill r =
     (if bits_in_buffer r \<le> 56 \<and> pending_marker r = None then
        if length (br_bytes r) \<le> cursor r then r
        else
          (let b = br_bytes r ! cursor r
           in if b = PREFIX then
                if length (br_bytes r) \<le> cursor r + 1 then r
                else
                  (let nxt = br_bytes r ! (cursor r + 1)
                   in if nxt = 0 then refill (push_byte PREFIX (r\<lparr>cursor := cursor r + 2\<rparr>))
                      else r\<lparr>pending_marker := Some nxt, pending_marker_offset := Some (cursor r)\<rparr>)
              else refill (push_byte b (r\<lparr>cursor := cursor r + 1\<rparr>)))
      else r)"
  by pat_completeness auto
termination
  by (relation "measure (\<lambda>r. length (br_bytes r) - cursor r)") (auto simp: push_byte_def)

declare refill.simps [simp del]

definition eof_or_marker_error :: "bit_reader \<Rightarrow> jpeg_error" where
  "eof_or_marker_error r =
     (case pending_marker r of
        Some m \<Rightarrow> UnexpectedMarker m (case pending_marker_offset r of Some off \<Rightarrow> off | None \<Rightarrow> cursor r)
      | None \<Rightarrow> UnexpectedEof (cursor r))"

fun skip_fill_bytes :: "nat \<Rightarrow> bit_reader \<Rightarrow> bit_reader" where
  "skip_fill_bytes 0 r = r"
| "skip_fill_bytes (Suc k) r =
     (if cursor r + 1 < length (br_bytes r) \<and> br_bytes r ! cursor r = PREFIX \<and>
         br_bytes r ! (cursor r + 1) = PREFIX
      then skip_fill_bytes k (r\<lparr>cursor := cursor r + 1\<rparr>) else r)"

definition read_marker :: "bit_reader \<Rightarrow> jpeg_error + u8 \<times> bit_reader" where
  "read_marker r =
     (case pending_marker r of
        Some m \<Rightarrow>
          (let off = (case pending_marker_offset r of Some off \<Rightarrow> off | None \<Rightarrow> cursor r)
           in Inr (m, r\<lparr>cursor := off + 2, pending_marker := None, pending_marker_offset := None\<rparr>))
      | None \<Rightarrow>
          (let r = skip_fill_bytes (length (br_bytes r)) r
           in if length (br_bytes r) \<le> cursor r + 1 then Inl (UnexpectedEof (cursor r))
              else if br_bytes r ! cursor r \<noteq> PREFIX
              then Inl (UnexpectedMarker (br_bytes r ! cursor r) (cursor r))
              else Inr (br_bytes r ! (cursor r + 1), r\<lparr>cursor := cursor r + 2\<rparr>)))"

definition read_bit :: "bit_reader \<Rightarrow> jpeg_error + u8 \<times> bit_reader" where
  "read_bit r =
     (let r = (if bits_in_buffer r = 0 then refill r else r)
      in if bits_in_buffer r = 0 then Inl (eof_or_marker_error r)
         else
           (let k = bits_in_buffer r - 1
            in Inr (ucast (drop_bit k (buffer r) AND 1), r\<lparr>bits_in_buffer := k\<rparr>)))"

function need_bits :: "nat \<Rightarrow> bit_reader \<Rightarrow> jpeg_error + bit_reader" where
  "need_bits n r =
     (if bits_in_buffer r < n then
        (let r' = refill r
         in if bits_in_buffer r' \<le> bits_in_buffer r then Inl (eof_or_marker_error r') else need_bits n r')
      else Inr r)"
  by pat_completeness auto
termination
  by (relation "measure (\<lambda>(n, r). n - bits_in_buffer r)") auto

declare need_bits.simps [simp del]

definition read_bits :: "nat \<Rightarrow> bit_reader \<Rightarrow> jpeg_error + u32 \<times> bit_reader" where
  "read_bits n r =
     and_then (need_bits n r) (\<lambda>r.
       let k = bits_in_buffer r - n;
           m = (if n = 32 then - 1 else push_bit n 1 - 1)
       in Inr (ucast (drop_bit k (buffer r)) AND m, r\<lparr>bits_in_buffer := k\<rparr>))"

text \<open>Values of at most sixteen bits, so the 32-bit arithmetic of the source is exact.\<close>

definition extend_bits :: "u32 \<Rightarrow> nat \<Rightarrow> int" where
  "extend_bits value n =
     (if n = 0 then 0
      else (let vt = 2 ^ (n - 1); v = uint value in if v < vt then v - 2 ^ n + 1 else v))"

subsection \<open>Huffman tables\<close>

datatype huffman_class = Dc | Ac

definition from_class_byte :: "u8 \<Rightarrow> jpeg_error + huffman_class" where
  "from_class_byte v =
     (if v = 0 then Inr Dc else if v = 1 then Inr Ac
      else Inl (MalformedHuffmanTable ''class must be 0 (DC) or 1 (AC)''))"

abbreviation i32_max :: int where "i32_max \<equiv> 2 ^ 31 - 1"

record huffman_table =
  ht_class :: huffman_class
  ht_id :: u8
  min_code :: "int list"
  max_code :: "int list"
  val_offset :: "nat list"
  huffval :: bytes

record build_state =
  bs_code :: int
  bs_offset :: nat
  bs_min :: "int list"
  bs_max :: "int list"
  bs_val :: "nat list"

definition build_one_length :: "bytes \<Rightarrow> nat \<Rightarrow> build_state \<Rightarrow> jpeg_error + build_state" where
  "build_one_length bits n s =
     (let c = uint (bits ! n)
      in if c = 0 then Inr (s\<lparr>bs_code := 2 * bs_code s\<rparr>)
         else if bs_code s + c > 2 ^ (n + 1)
         then Inl (MalformedHuffmanTable ''BITS overflows the Huffman code space'')
         else Inr \<lparr>bs_code = 2 * (bs_code s + c), bs_offset = bs_offset s + nat c,
                    bs_min = (bs_min s)[n := bs_code s], bs_max = (bs_max s)[n := bs_code s + c - 1],
                    bs_val = (bs_val s)[n := bs_offset s]\<rparr>)"

fun build_lengths :: "bytes \<Rightarrow> nat \<Rightarrow> jpeg_error + build_state" where
  "build_lengths bits 0 =
     Inr \<lparr>bs_code = 0, bs_offset = 0, bs_min = replicate 16 i32_max, bs_max = replicate 16 (- 1),
          bs_val = replicate 16 0\<rparr>"
| "build_lengths bits (Suc n) = and_then (build_lengths bits n) (build_one_length bits n)"

definition huffman_build ::
    "huffman_class \<Rightarrow> u8 \<Rightarrow> bytes \<Rightarrow> bytes \<Rightarrow> jpeg_error + huffman_table" where
  "huffman_build cl tid bits hv =
     (let total = (\<Sum>b\<leftarrow>bits. unat b)
      in if 256 < total then Inl (MalformedHuffmanTable ''BITS sum exceeds 256'')
         else if total \<noteq> length hv
         then Inl (MalformedHuffmanTable ''BITS sum disagrees with HUFFVAL length'')
         else and_then (build_lengths bits 16) (\<lambda>s.
           Inr \<lparr>ht_class = cl, ht_id = tid, min_code = bs_min s, max_code = bs_max s,
                val_offset = bs_val s, huffval = hv\<rparr>))"

text \<open>The index is computed in \<open>usize\<close>, where a negative difference would wrap.\<close>

fun decode_from :: "nat \<Rightarrow> huffman_table \<Rightarrow> nat \<Rightarrow> int \<Rightarrow> bit_reader \<Rightarrow> jpeg_error + u8 \<times> bit_reader" where
  "decode_from 0 t n code r = Inl (InvalidHuffmanCode (cursor r))"
| "decode_from (Suc k) t n code r =
     and_then (read_bit r) (\<lambda>(b, r).
       let code = 2 * code + uint b
       in if code \<le> max_code t ! n then
            (let idx = (val_offset t ! n + nat ((code - min_code t ! n) mod 2 ^ 64)) mod 2 ^ 64
             in if length (huffval t) \<le> idx then Inl (InvalidHuffmanCode (cursor r))
                else Inr (huffval t ! idx, r))
          else decode_from k t (n + 1) code r)"

definition decode_symbol :: "huffman_table \<Rightarrow> bit_reader \<Rightarrow> jpeg_error + u8 \<times> bit_reader" where
  "decode_symbol t r = decode_from 16 t 0 0 r"

subsection \<open>The bits of an entropy-coded segment\<close>

text \<open>
  The data bytes before the first marker or the end, with stuffing removed; a final lone
  prefix byte is neither. Bits are most significant first.
\<close>

fun destuff :: "bytes \<Rightarrow> bytes" where
  "destuff [] = []"
| "destuff (b # bs) =
     (if b = PREFIX then (case bs of c # cs \<Rightarrow> if c = 0 then PREFIX # destuff cs else [] | [] \<Rightarrow> [])
      else b # destuff bs)"

definition bits_of_byte :: "u8 \<Rightarrow> bool list" where
  "bits_of_byte b = map (bit b) (rev [0..<8])"

definition buf_bits :: "bit_reader \<Rightarrow> bool list" where
  "buf_bits r = map (bit (buffer r)) (rev [0..<bits_in_buffer r])"

definition reader_bits :: "bit_reader \<Rightarrow> bool list" where
  "reader_bits r = buf_bits r @ concat (map bits_of_byte (destuff (drop (cursor r) (br_bytes r))))"

definition reader_ok :: "bit_reader \<Rightarrow> bool" where
  "reader_ok r \<longleftrightarrow> bits_in_buffer r \<le> 64 \<and>
     (pending_marker r \<noteq> None \<longrightarrow> destuff (drop (cursor r) (br_bytes r)) = [])"

lemma length_bits_of_byte [simp]: "length (bits_of_byte b) = 8"
  by (simp add: bits_of_byte_def)

lemma length_buf_bits [simp]: "length (buf_bits r) = bits_in_buffer r"
  by (simp add: buf_bits_def)

lemma buf_bits_push_byte:
  assumes "bits_in_buffer r \<le> 56"
  shows "buf_bits (push_byte b r) = buf_bits r @ bits_of_byte b"
proof -
  have split: "rev [0..<bits_in_buffer r + 8] = map (\<lambda>i. i + 8) (rev [0..<bits_in_buffer r]) @ rev [0..<8]"
  proof -
    have "[0..<bits_in_buffer r + 8] = [0..<8] @ [8..<8 + bits_in_buffer r]"
      using upt_add_eq_append [of 0 8 "bits_in_buffer r"] by (simp add: add.commute)
    also have "[8..<8 + bits_in_buffer r] = map (\<lambda>i. i + 8) [0..<bits_in_buffer r]"
      by (simp add: map_add_upt add.commute)
    finally show ?thesis by (simp add: rev_map)
  qed
  have "\<not> bit b i" if "8 \<le> i" for i using that bit_imp_le_length [of b i] by auto
  then show ?thesis using assms
    by (auto simp: buf_bits_def push_byte_def split bits_of_byte_def bit_simps)
qed

lemma destuff_drop:
  assumes "c < length bs"
  shows "destuff (drop c bs) =
    (if bs ! c = PREFIX
     then if c + 1 < length bs \<and> bs ! (c + 1) = 0 then PREFIX # destuff (drop (c + 2) bs) else []
     else bs ! c # destuff (drop (c + 1) bs))"
proof -
  have 1: "drop c bs = bs ! c # drop (c + 1) bs" using assms by (simp add: Cons_nth_drop_Suc)
  show ?thesis
  proof (cases "c + 1 < length bs")
    case True
    then have "drop (c + 1) bs = bs ! (c + 1) # drop (c + 2) bs" by (simp add: Cons_nth_drop_Suc)
    with 1 True show ?thesis by simp
  next
    case False
    then show ?thesis using 1 by simp
  qed
qed

lemma refill_spec:
  assumes "reader_ok r"
  shows "reader_ok (refill r) \<and> reader_bits (refill r) = reader_bits r \<and>
    (bits_in_buffer (refill r) \<le> 56 \<longrightarrow> length (reader_bits r) = bits_in_buffer (refill r)) \<and>
    bits_in_buffer r \<le> bits_in_buffer (refill r)"
  using assms
proof (induction r rule: refill.induct)
  case (1 r)
  let ?b = "br_bytes r ! cursor r"
  let ?d = "destuff (drop (cursor r) (br_bytes r))"
  show ?case
  proof (cases "bits_in_buffer r \<le> 56 \<and> pending_marker r = None \<and> cursor r < length (br_bytes r) \<and> ?d \<noteq> []")
    case False
    have d: "?d = []" if "bits_in_buffer r \<le> 56"
      using False that 1(3) by (auto simp: reader_ok_def)
    have "refill r = r \<or> (?d = [] \<and> (\<exists>m off. refill r = r\<lparr>pending_marker := m, pending_marker_offset := off\<rparr>))"
      using False d destuff_drop [of "cursor r" "br_bytes r"]
      by (auto simp: refill.simps [of r] Let_def not_less split: if_splits)
    then show ?thesis using 1(3) d
      by (auto simp: reader_ok_def reader_bits_def buf_bits_def)
  next
    case True
    then have room: "bits_in_buffer r \<le> 56" and c: "cursor r < length (br_bytes r)"
      and pm: "pending_marker r = None" by auto
    define r1 where "r1 = (if ?b = PREFIX then push_byte PREFIX (r\<lparr>cursor := cursor r + 2\<rparr>)
      else push_byte ?b (r\<lparr>cursor := cursor r + 1\<rparr>))"
    have st: "?b = PREFIX \<longrightarrow> cursor r + 1 < length (br_bytes r) \<and> br_bytes r ! (cursor r + 1) = 0"
      using True destuff_drop [OF c] by (auto split: if_splits)
    then have eq: "refill r = refill r1"
      using room c pm by (auto simp: refill.simps [of r] r1_def Let_def)
    have ok1: "reader_ok r1" using room pm by (auto simp: r1_def push_byte_def reader_ok_def)
    have bits1: "reader_bits r1 = reader_bits r"
      using destuff_drop [OF c] st room
      by (auto simp: r1_def reader_bits_def buf_bits_push_byte)
         (auto simp: push_byte_def buf_bits_def)
    have n1: "bits_in_buffer r \<le> bits_in_buffer r1" by (auto simp: r1_def push_byte_def)
    have "reader_ok (refill r1) \<and> reader_bits (refill r1) = reader_bits r1 \<and>
        (bits_in_buffer (refill r1) \<le> 56 \<longrightarrow> length (reader_bits r1) = bits_in_buffer (refill r1)) \<and>
        bits_in_buffer r1 \<le> bits_in_buffer (refill r1)"
    proof (cases "?b = PREFIX")
      case True
      then show ?thesis using 1(1) [of ?b "br_bytes r ! (cursor r + 1)"] st room c pm ok1 r1_def by auto
    next
      case False
      then show ?thesis using 1(2) [of ?b] room c pm ok1 r1_def by auto
    qed
    with eq bits1 n1 show ?thesis by auto
  qed
qed

lemma reader_bits_take:
  assumes "n \<le> bits_in_buffer r"
  shows "reader_bits r = map (bit (buffer r)) (rev [bits_in_buffer r - n..<bits_in_buffer r]) @
    reader_bits (r\<lparr>bits_in_buffer := bits_in_buffer r - n\<rparr>)"
proof -
  have "[0..<bits_in_buffer r] = [0..<bits_in_buffer r - n] @ [bits_in_buffer r - n..<bits_in_buffer r]"
    using assms by (metis diff_le_self le_add1 le_add_diff_inverse2 upt_add_eq_append add_0 zero_le
        le_add_diff_inverse)
  then show ?thesis by (simp add: reader_bits_def buf_bits_def)
qed

lemma reader_ok_take [simp]:
  "reader_ok r \<Longrightarrow> n \<le> bits_in_buffer r \<Longrightarrow> reader_ok (r\<lparr>bits_in_buffer := bits_in_buffer r - n\<rparr>)"
  by (auto simp: reader_ok_def)

lemma reader_bits_empty_buffer:
  assumes "bits_in_buffer (refill r) = 0" "reader_ok r"
  shows "reader_bits r = []"
  using refill_spec [OF assms(2)] assms(1) by simp

lemma read_bit_spec:
  assumes "reader_ok r"
  shows "case reader_bits r of
      [] \<Rightarrow> (\<exists>e. read_bit r = Inl e)
    | b # bs \<Rightarrow> (\<exists>r'. read_bit r = Inr (of_bool b, r') \<and> reader_ok r' \<and> reader_bits r' = bs)"
proof -
  define q where "q = (if bits_in_buffer r = 0 then refill r else r)"
  have q: "reader_ok q" "reader_bits q = reader_bits r"
    using refill_spec [OF assms] assms by (auto simp: q_def)
  show ?thesis
  proof (cases "bits_in_buffer q = 0")
    case True
    then have "bits_in_buffer (refill r) = 0" by (auto simp: q_def split: if_splits)
    with True show ?thesis using reader_bits_empty_buffer [OF _ assms]
      by (simp add: read_bit_def q_def Let_def)
  next
    case False
    then obtain k where k: "bits_in_buffer q = Suc k" using not0_implies_Suc by blast
    have w: "ucast (drop_bit k (buffer q) AND 1) = (of_bool (bit (buffer q) k) :: u8)"
      by (simp add: bit_iff_odd_drop_bit and_one_eq odd_iff_mod_2_eq_one)
    have "read_bit r = Inr (of_bool (bit (buffer q) k), q\<lparr>bits_in_buffer := k\<rparr>)"
      using k w by (auto simp: read_bit_def q_def Let_def)
    then show ?thesis using reader_bits_take [of 1 q] q k reader_ok_take [of q 1]
      by simp
  qed
qed

lemma reader_bits_nonempty_buffer:
  assumes "reader_ok r" "bits_in_buffer (refill r) \<le> bits_in_buffer r" "bits_in_buffer r \<le> 56"
  shows "length (reader_bits r) = bits_in_buffer r"
  using refill_spec [OF assms(1)] assms by auto

lemma need_bits_spec:
  assumes "reader_ok r" "n \<le> 57"
  shows "if length (reader_bits r) < n then \<exists>e. need_bits n r = Inl e
    else \<exists>r'. need_bits n r = Inr r' \<and> reader_ok r' \<and> reader_bits r' = reader_bits r \<and> n \<le> bits_in_buffer r'"
  using assms
proof (induction n r rule: need_bits.induct)
  case (1 n r)
  have ge: "bits_in_buffer r \<le> length (reader_bits r)" by (simp add: reader_bits_def)
  show ?case
  proof (cases "bits_in_buffer r < n \<and> bits_in_buffer (refill r) > bits_in_buffer r")
    case True
    then have "need_bits n r = need_bits n (refill r)" by (simp add: need_bits.simps [of n r] Let_def)
    then show ?thesis using 1 True refill_spec [of r] by (auto simp: not_le)
  next
    case False
    then show ?thesis using ge 1(2,3) reader_bits_nonempty_buffer [OF 1(2)]
      by (auto simp: need_bits.simps [of n r] Let_def not_less)
  qed
qed

text \<open>The number that a list of bits spells, most significant bit first.\<close>

definition bits_value :: "bool list \<Rightarrow> nat" where
  "bits_value bs = foldl (\<lambda>a b. 2 * a + of_bool b) 0 bs"

lemma bits_value_Nil [simp]: "bits_value [] = 0" by (simp add: bits_value_def)

lemma bits_value_snoc [simp]: "bits_value (bs @ [b]) = 2 * bits_value bs + of_bool b"
  by (simp add: bits_value_def)

lemma bits_value_less: "bits_value bs < 2 ^ length bs"
  by (induction bs rule: rev_induct) auto

lemma bit_unat_word: "bit (unat w) i = bit w i" for w :: "'a::len word"
proof -
  have "bit (unat w) i = bit (int (unat w)) i" by (simp only: bit_of_nat_iff_bit)
  also have "\<dots> = bit w i" by (simp only: uint_nat [symmetric] bit_uint_iff) (auto dest: bit_imp_le_length)
  finally show ?thesis .
qed

lemma bits_value_of_word:
  fixes w :: u64
  shows "bits_value (map (bit w) (rev [k..<k + n])) = take_bit n (drop_bit k (unat w))"
proof (induction n arbitrary: k)
  case 0
  then show ?case by simp
next
  case (Suc n)
  have up: "map (bit w) (rev [k..<k + Suc n]) = map (bit w) (rev [Suc k..<Suc k + n]) @ [bit w k]"
    by (simp add: upt_conv_Cons del: upt_Suc)
  have half: "drop_bit k (unat w) div 2 = drop_bit (Suc k) (unat w)"
    by (simp add: drop_bit_Suc drop_bit_half)
  have odd: "drop_bit k (unat w) mod 2 = of_bool (bit w k)"
    by (simp only: mod_2_eq_odd bit_iff_odd_drop_bit [of "unat w", symmetric] bit_unat_word)
  show ?case unfolding up using Suc [of "Suc k"] half odd
    by (simp add: take_bit_Suc mult.commute)
qed

lemma read_bits_spec:
  assumes "reader_ok r" "n \<le> 16"
  shows "if length (reader_bits r) < n then \<exists>e. read_bits n r = Inl e
    else \<exists>v r'. read_bits n r = Inr (v, r') \<and> unat v = bits_value (take n (reader_bits r)) \<and>
      reader_ok r' \<and> reader_bits r' = drop n (reader_bits r)"
proof (cases "length (reader_bits r) < n")
  case True
  then show ?thesis using need_bits_spec [OF assms(1), of n] assms(2) by (auto simp: read_bits_def)
next
  case False
  then obtain q where q: "need_bits n r = Inr q" "reader_ok q" "reader_bits q = reader_bits r" "n \<le> bits_in_buffer q"
    using need_bits_spec [OF assms(1), of n] assms(2) by auto
  let ?k = "bits_in_buffer q - n"
  let ?v = "ucast (drop_bit ?k (buffer q)) AND (push_bit n 1 - 1) :: u32"
  have m: "push_bit n 1 - 1 = (mask n :: u32)" by (simp add: mask_eq_exp_minus_1 push_bit_eq_mult)
  have "unat ?v = take_bit n (drop_bit ?k (unat (buffer q)))"
    unfolding m using assms(2)
    by (intro bit_eqI) (auto simp: bit_unat_word bit_and_iff bit_ucast_iff bit_drop_bit_eq bit_mask_iff bit_take_bit_iff)
  also have "\<dots> = bits_value (map (bit (buffer q)) (rev [?k..<bits_in_buffer q]))"
    using bits_value_of_word [of "buffer q" ?k n] q(4) by simp
  also have "map (bit (buffer q)) (rev [?k..<bits_in_buffer q]) = take n (reader_bits r)"
    using reader_bits_take [OF q(4)] q(3,4) by simp
  finally have v: "unat ?v = bits_value (take n (reader_bits r))" .
  have "reader_bits (q\<lparr>bits_in_buffer := ?k\<rparr>) = drop n (reader_bits r)"
    using reader_bits_take [OF q(4)] q(3,4) by simp
  with v q False assms(2) show ?thesis by (auto simp: read_bits_def Let_def)
qed

lemma bits_value_append: "bits_value (xs @ ys) = bits_value xs * 2 ^ length ys + bits_value ys"
proof (induction ys rule: rev_induct)
  case (snoc y ys)
  then show ?case using bits_value_snoc [of "xs @ ys" y] by (simp add: algebra_simps)
qed simp

text \<open>The \<open>n\<close>-bit code word for a number, most significant bit first.\<close>

definition code_bits :: "nat \<Rightarrow> nat \<Rightarrow> bool list" where
  "code_bits n c = map (bit c) (rev [0..<n])"

lemma length_code_bits [simp]: "length (code_bits n c) = n"
  by (simp add: code_bits_def)

lemma bits_value_code_bits:
  assumes "c < 2 ^ n"
  shows "bits_value (code_bits n c) = c"
proof -
  have "bits_value (map (bit c) (rev [k..<k + n])) = take_bit n (drop_bit k c)" for k
  proof (induction n arbitrary: k)
    case (Suc n)
    have up: "map (bit c) (rev [k..<k + Suc n]) = map (bit c) (rev [Suc k..<Suc k + n]) @ [bit c k]"
      by (simp add: upt_conv_Cons del: upt_Suc)
    have "drop_bit k c mod 2 = of_bool (bit c k)" "drop_bit k c div 2 = drop_bit (Suc k) c"
      by (simp_all add: mod_2_eq_odd bit_iff_odd_drop_bit drop_bit_Suc drop_bit_half)
    then show ?case unfolding up using Suc [of "Suc k"] by (simp add: take_bit_Suc mult.commute)
  qed simp
  from this [of 0] assms show ?thesis by (simp add: code_bits_def take_bit_nat_eq_self)
qed

subsection \<open>The canonical code of T.81 Annex C\<close>

fun first_code :: "bytes \<Rightarrow> nat \<Rightarrow> nat" where
  "first_code bits 0 = 0"
| "first_code bits (Suc n) = 2 * (first_code bits n + unat (bits ! n))"

definition first_offset :: "bytes \<Rightarrow> nat \<Rightarrow> nat" where
  "first_offset bits n = (\<Sum>b\<leftarrow>take n bits. unat b)"

lemma first_offset_Suc: "n < length bits \<Longrightarrow> first_offset bits (Suc n) = first_offset bits n + unat (bits ! n)"
  by (simp add: first_offset_def take_Suc_conv_app_nth)

lemma first_offset_le:
  assumes "m \<le> n"
  shows "first_offset bits m \<le> first_offset bits n"
proof -
  have "take n bits = take m bits @ drop m (take n bits)" using assms
    by (metis append_take_drop_id min.absorb1 take_take)
  then show ?thesis by (metis first_offset_def le_add1 map_append sum_list_append)
qed

lemma first_offset_total: "first_offset bits n \<le> (\<Sum>b\<leftarrow>bits. unat b)"
  using first_offset_le [of n "max n (length bits)" bits] by (simp add: first_offset_def)

text \<open>Every code of a shorter length, extended to a longer one, lies below the longer codes.\<close>

lemma first_code_above:
  assumes "m < n"
  shows "(first_code bits m + unat (bits ! m)) * 2 ^ (n - m) \<le> first_code bits n"
  using assms
proof (induction n)
  case (Suc n)
  show ?case
  proof (cases "m = n")
    case False
    with Suc have "(first_code bits m + unat (bits ! m)) * 2 ^ (n - m) \<le> first_code bits n" by simp
    moreover have "Suc n - m = Suc (n - m)" using Suc(2) by simp
    ultimately show ?thesis by simp
  qed simp
qed simp

definition table_row :: "bytes \<Rightarrow> int list \<Rightarrow> int list \<Rightarrow> nat list \<Rightarrow> nat \<Rightarrow> bool" where
  "table_row bits mins maxs vals m \<longleftrightarrow>
     (if bits ! m = 0 then maxs ! m = - 1
      else first_code bits m + unat (bits ! m) \<le> 2 ^ (m + 1) \<and> mins ! m = int (first_code bits m) \<and>
        maxs ! m = int (first_code bits m + unat (bits ! m)) - 1 \<and> vals ! m = first_offset bits m)"

lemma build_lengths_spec:
  assumes "build_lengths bits n = Inr s" "n \<le> 16" "length bits = 16"
  shows "bs_code s = int (first_code bits n) \<and> bs_offset s = first_offset bits n \<and>
    length (bs_min s) = 16 \<and> length (bs_max s) = 16 \<and> length (bs_val s) = 16 \<and>
    (\<forall>m<n. table_row bits (bs_min s) (bs_max s) (bs_val s) m) \<and> (\<forall>m<16. n \<le> m \<longrightarrow> bs_max s ! m = - 1)"
  using assms
proof (induction n arbitrary: s)
  case 0
  then show ?case by (auto simp: first_offset_def)
next
  case (Suc n)
  then obtain s0 where s0: "build_lengths bits n = Inr s0" and s: "build_one_length bits n s0 = Inr s"
    by (auto simp: and_then_Inr_iff)
  note ih = Suc.IH [OF s0] 
  have b0: "uint (bits ! n) = 0 \<longleftrightarrow> bits ! n = 0" by (simp add: uint_0_iff)
  show ?case
  proof (cases "bits ! n = 0")
    case True
    then show ?thesis using s ih Suc(3,4)
      by (auto simp: build_one_length_def less_Suc_eq table_row_def first_offset_Suc)
  next
    case False
    then have fits: "bs_code s0 + uint (bits ! n) \<le> 2 ^ (n + 1)"
      and st: "s = \<lparr>bs_code = 2 * (bs_code s0 + uint (bits ! n)), bs_offset = bs_offset s0 + nat (uint (bits ! n)),
        bs_min = (bs_min s0)[n := bs_code s0], bs_max = (bs_max s0)[n := bs_code s0 + uint (bits ! n) - 1],
        bs_val = (bs_val s0)[n := bs_offset s0]\<rparr>"
      using s b0 by (auto simp: build_one_length_def Let_def split: if_splits)
    have "int (first_code bits n + unat (bits ! n)) \<le> int (2 ^ (n + 1))" using fits ih Suc(3,4) by simp
    then have "first_code bits n + unat (bits ! n) \<le> 2 ^ (n + 1)" by (simp only: of_nat_le_iff)
    with st show ?thesis using False ih Suc(3,4)
      by (auto simp: less_Suc_eq table_row_def first_offset_Suc)
  qed
qed

lemma huffman_build_spec:
  assumes "huffman_build cl tid bits hv = Inr t" "length bits = 16"
  shows "huffval t = hv" "length hv \<le> 256" "(\<Sum>b\<leftarrow>bits. unat b) = length hv"
    "m < 16 \<Longrightarrow> table_row bits (min_code t) (max_code t) (val_offset t) m"
  using assms build_lengths_spec [of bits 16]
  by (auto simp: huffman_build_def Let_def and_then_Inr_iff split: if_splits)

text \<open>A code word that the table admits: its length less one, and its rank among that length.\<close>

definition is_code :: "bytes \<Rightarrow> nat \<Rightarrow> nat \<Rightarrow> bool" where
  "is_code bits n j \<longleftrightarrow> n < 16 \<and> j < unat (bits ! n)"

lemma is_code_nonzero: "is_code bits n j \<Longrightarrow> bits ! n \<noteq> 0"
  by (auto simp: is_code_def)

lemma code_below_capacity:
  assumes "huffman_build cl tid bits hv = Inr t" "length bits = 16" "is_code bits n j"
  shows "first_code bits n + j < 2 ^ (n + 1)"
  using huffman_build_spec(4) [OF assms(1,2), of n] assms(3) is_code_nonzero [OF assms(3)]
  by (auto simp: table_row_def is_code_def)

lemma code_index_in_range:
  assumes "huffman_build cl tid bits hv = Inr t" "length bits = 16" "is_code bits n j"
  shows "first_offset bits n + j < length hv"
  using huffman_build_spec(3) [OF assms(1,2)] first_offset_total [of bits "Suc n"] assms(2,3)
  by (auto simp: is_code_def first_offset_Suc)

lemma mod_pow64_small: "0 \<le> x \<Longrightarrow> x < 2 ^ 32 \<Longrightarrow> nat (x mod 2 ^ 64) = nat x" for x :: int
  by (simp add: mod_pos_pos_trivial)

text \<open>One bit of the loop: the row of its length decides between a hit and one more bit.\<close>

lemma decode_from_step:
  assumes t: "huffman_build cl tid bits hv = Inr t" "length bits = 16"
    and r: "reader_ok r" "reader_bits r = b # bs" and n: "n < 16"
    and above: "first_code bits n \<le> 2 * c"
  shows "\<exists>r'. reader_ok r' \<and> reader_bits r' = bs \<and>
    decode_from (Suc k) t n (int c) r =
      (if is_code bits n (2 * c + of_bool b - first_code bits n)
       then Inr (hv ! (first_offset bits n + (2 * c + of_bool b - first_code bits n)), r')
       else decode_from k t (n + 1) (int (2 * c + of_bool b)) r')"
proof -
  let ?c = "2 * c + of_bool b :: nat"
  obtain r' where r': "read_bit r = Inr (of_bool b, r')" "reader_ok r'" "reader_bits r' = bs"
    using read_bit_spec [OF r(1)] r(2) by auto
  have code: "2 * int c + uint (of_bool b :: u8) = int ?c" by (cases b) auto
  note row = huffman_build_spec(4) [OF t n]
  obtain u where u: "unat (bits ! n) = u" "uint (bits ! n) = int u" by (metis uint_nat)
  show ?thesis
  proof (cases "is_code bits n (?c - first_code bits n)")
    case True
    note rw = row [unfolded table_row_def if_not_P [OF is_code_nonzero [OF True]]]
    have hit: "int ?c \<le> max_code t ! n" using True rw above by (auto simp: is_code_def u)
    have "int ?c - min_code t ! n = int (?c - first_code bits n)" using rw above by (auto simp: of_nat_diff)
    moreover have "?c - first_code bits n < 256" using True unsigned_less [of "bits ! n", where 'a = nat] by (auto simp: is_code_def)
    ultimately have idx: "(val_offset t ! n + nat ((int ?c - min_code t ! n) mod 2 ^ 64)) mod 2 ^ 64 =
        first_offset bits n + (?c - first_code bits n)"
      using rw code_index_in_range [OF t True] huffman_build_spec(2) [OF t] by simp
    show ?thesis using r' hit code_index_in_range [OF t True] huffman_build_spec(1) [OF t] True idx
      by (intro exI [of _ r']) (simp only: decode_from.simps and_then.simps split_conv Let_def code if_True if_False not_le, simp)
  next
    case False
    then have "\<not> int ?c \<le> max_code t ! n" using row n above
      by (auto simp: table_row_def is_code_def u split: if_splits)
    then show ?thesis using r' code False by (intro exI [of _ r']) (simp only: decode_from.simps and_then.simps split_conv Let_def if_False)
  qed
qed

lemma bits_value_inject:
  assumes "bits_value xs = bits_value ys" "length xs = length ys"
  shows "xs = ys"
  using assms
proof (induction xs arbitrary: ys rule: rev_induct)
  case (snoc x xs)
  then obtain zs z where ys: "ys = zs @ [z]" by (metis append_butlast_last_id length_0_conv snoc_eq_iff_butlast)
  have "bits_value xs = bits_value zs \<and> x = z"
    using snoc(2) unfolding ys bits_value_snoc by (cases x; cases z) (auto, presburger+)
  then show ?case using snoc(1,3) ys by simp
qed simp

lemma code_prefix_above:
  assumes "m < n" "first_code bits n + j < 2 ^ (n + 1)" "length pre = m + 1"
    "pre @ suf = code_bits (n + 1) (first_code bits n + j)"
  shows "first_code bits m + unat (bits ! m) \<le> bits_value pre"
proof -
  have "length (pre @ suf) = n + 1" by (simp add: assms(4))
  then have "length suf = n - m" using assms(1,3) by simp
  then have "bits_value pre * 2 ^ (n - m) + bits_value suf = first_code bits n + j"
    using bits_value_append [of pre suf] bits_value_code_bits [OF assms(2)] assms(4) by simp
  moreover have "bits_value suf < 2 ^ (n - m)" using bits_value_less [of suf] \<open>length suf = n - m\<close> by simp
  ultimately have "(first_code bits m + unat (bits ! m)) * 2 ^ (n - m) < (bits_value pre + 1) * 2 ^ (n - m)"
    using first_code_above [OF assms(1), of bits] by simp
  then have "first_code bits m + unat (bits ! m) < bits_value pre + 1" by (simp only: mult_less_cancel2)
  then show ?thesis by simp
qed

lemma decode_from_hits:
  assumes t: "huffman_build cl tid bits hv = Inr t" "length bits = 16" and code: "is_code bits N j"
    and "reader_ok r" "pre @ suf = code_bits (N + 1) (first_code bits N + j)" "suf \<noteq> []"
      "length pre + k = 16" "reader_bits r = suf @ rest"
  shows "\<exists>r'. decode_from k t (length pre) (int (bits_value pre)) r = Inr (hv ! (first_offset bits N + j), r') \<and>
    reader_ok r' \<and> reader_bits r' = rest"
  using assms(4-)
proof (induction suf arbitrary: pre k r)
  case (Cons b suf)
  note cap = code_below_capacity [OF t code]
  have len: "length pre + length suf = N" using arg_cong [OF Cons(3), of length] by simp
  have N: "N < 16" using code by (simp add: is_code_def)
  then obtain k' where k: "k = Suc k'" using Cons(5) len by (cases k) auto
  have above: "first_code bits (length pre) \<le> 2 * bits_value pre"
  proof (cases "length pre")
    case (Suc m)
    then show ?thesis using code_prefix_above [OF _ cap _ Cons(3), of m] len by simp
  qed simp
  obtain q where q: "reader_ok q" "reader_bits q = suf @ rest"
    "decode_from k t (length pre) (int (bits_value pre)) r =
      (if is_code bits (length pre) (bits_value (pre @ [b]) - first_code bits (length pre))
       then Inr (hv ! (first_offset bits (length pre) + (bits_value (pre @ [b]) - first_code bits (length pre))), q)
       else decode_from k' t (length (pre @ [b])) (int (bits_value (pre @ [b]))) q)"
    using decode_from_step [OF t Cons(2), of b "suf @ rest" "length pre" "bits_value pre" k'] Cons(6) N len above k
    by auto
  show ?case
  proof (cases "suf = []")
    case True
    then have "bits_value (pre @ [b]) = first_code bits N + j" "length pre = N"
      using bits_value_code_bits [OF cap] Cons(3) len by simp_all
    then show ?thesis using q code True by simp
  next
    case False
    then have "\<not> is_code bits (length pre) (bits_value (pre @ [b]) - first_code bits (length pre))"
      using code_prefix_above [OF _ cap, of "length pre" "pre @ [b]" suf] Cons(3) len by (auto simp: is_code_def)
    then show ?thesis using Cons.IH [of q "pre @ [b]" k'] q Cons(3,5) k False by auto
  qed
qed simp

lemma decode_symbol_hits:
  assumes "huffman_build cl tid bits hv = Inr t" "length bits = 16" "is_code bits n j" "reader_ok r"
    "reader_bits r = code_bits (n + 1) (first_code bits n + j) @ rest"
  shows "\<exists>r'. decode_symbol t r = Inr (hv ! (first_offset bits n + j), r') \<and> reader_ok r' \<and> reader_bits r' = rest"
  using decode_from_hits [OF assms(1-4), of "[]" "code_bits (n + 1) (first_code bits n + j)" 16 rest]
    length_code_bits [of "n + 1" "first_code bits n + j"] assms(5)
  by (fastforce simp: decode_symbol_def simp del: length_code_bits)

lemma decode_from_sound:
  assumes t: "huffman_build cl tid bits hv = Inr t" "length bits = 16"
    and "reader_ok r" "n + k \<le> 16" "first_code bits n \<le> 2 * c" "decode_from k t n (int c) r = Inr (s, r')"
  shows "\<exists>N j cs. is_code bits N j \<and> s = hv ! (first_offset bits N + j) \<and> reader_ok r' \<and>
    reader_bits r = cs @ reader_bits r' \<and> n + length cs = N + 1 \<and>
    c * 2 ^ length cs + bits_value cs = first_code bits N + j"
  using assms(3-)
proof (induction k arbitrary: n c r)
  case (Suc k)
  show ?case
  proof (cases "reader_bits r")
    case Nil
    then show ?thesis using read_bit_spec [OF Suc(2)] Suc(5) by auto
  next
    case (Cons b bs)
    let ?c = "2 * c + of_bool b :: nat"
    obtain q where q: "reader_ok q" "reader_bits q = bs" "decode_from (Suc k) t n (int c) r =
      (if is_code bits n (?c - first_code bits n)
       then Inr (hv ! (first_offset bits n + (?c - first_code bits n)), q)
       else decode_from k t (n + 1) (int ?c) q)"
      using decode_from_step [OF t Suc(2) Cons, of n c k] Suc(3,4) by auto
    show ?thesis
    proof (cases "is_code bits n (?c - first_code bits n)")
      case True
      with q Suc(5) have "s = hv ! (first_offset bits n + (?c - first_code bits n))" "r' = q" by auto
      then show ?thesis using True q Cons Suc(4) bits_value_snoc [of "[]" b]
        by (intro exI [of _ n] exI [of _ "?c - first_code bits n"] exI [of _ "[b]"]) auto
    next
      case False
      then have "first_code bits (n + 1) \<le> 2 * ?c" using Suc(3,4) by (auto simp: is_code_def)
      then obtain N j cs where ih: "is_code bits N j" "s = hv ! (first_offset bits N + j)" "reader_ok r'"
          "bs = cs @ reader_bits r'" "n + 1 + length cs = N + 1" "?c * 2 ^ length cs + bits_value cs = first_code bits N + j"
        using Suc.IH [OF q(1), of "n + 1" ?c] Suc(3,5) q False by auto
      have "c * 2 ^ length (b # cs) + bits_value (b # cs) = ?c * 2 ^ length cs + bits_value cs"
        using bits_value_append [of "[b]" cs] bits_value_snoc [of "[]" b] by (simp add: algebra_simps)
      then show ?thesis using ih Cons by (intro exI [of _ N] exI [of _ j] exI [of _ "b # cs"]) auto
    qed
  qed
qed simp

subsection \<open>A segment closed by a marker\<close>

fun stuff :: "bytes \<Rightarrow> bytes" where
  "stuff [] = []"
| "stuff (b # bs) = (if b = PREFIX then [PREFIX, 0] else [b]) @ stuff bs"

lemma destuff_stuff: "m \<noteq> 0 \<Longrightarrow> destuff (stuff ds @ PREFIX # m # rest) = ds"
  by (induction ds) auto

definition at_segment :: "bytes \<Rightarrow> bytes \<Rightarrow> u8 \<Rightarrow> bytes \<Rightarrow> bit_reader \<Rightarrow> bool" where
  "at_segment file ds m rest r \<longleftrightarrow> br_bytes r = file \<and> drop (cursor r) file = stuff ds @ PREFIX # m # rest \<and>
     (pending_marker r \<noteq> None \<longrightarrow>
        ds = [] \<and> pending_marker r = Some m \<and> pending_marker_offset r = Some (cursor r))"

definition in_segment :: "bytes \<Rightarrow> u8 \<Rightarrow> bytes \<Rightarrow> bit_reader \<Rightarrow> bool" where
  "in_segment file m rest r \<longleftrightarrow> (\<exists>ds. at_segment file ds m rest r)"

lemma in_segment_fewer_bits [simp]: "in_segment file m rest (r\<lparr>bits_in_buffer := k\<rparr>) = in_segment file m rest r"
  by (simp add: in_segment_def at_segment_def)

lemma at_segment_cursor:
  assumes "at_segment file ds m rest r"
  shows "cursor r < length file" "cursor r + length (stuff ds) + 2 + length rest = length file"
proof -
  have "length (drop (cursor r) file) = length (stuff ds @ PREFIX # m # rest)"
    using assms by (simp add: at_segment_def)
  then show "cursor r < length file" "cursor r + length (stuff ds) + 2 + length rest = length file" by auto
qed

lemma at_segment_head:
  assumes "at_segment file ds m rest r" "m \<noteq> 0"
  shows "file ! cursor r = hd (stuff ds @ [PREFIX])"
    "ds = [] \<Longrightarrow> cursor r + 1 < length file \<and> file ! (cursor r + 1) = m"
    "ds = PREFIX # ds' \<Longrightarrow> cursor r + 1 < length file \<and> file ! (cursor r + 1) = 0"
proof -
  note c = at_segment_cursor [OF assms(1)]
  have d: "drop (cursor r) file = stuff ds @ PREFIX # m # rest" using assms by (simp add: at_segment_def)
  have nxt: "file ! (cursor r + 1) = drop (cursor r) file ! 1" using c by simp
  show "file ! cursor r = hd (stuff ds @ [PREFIX])"
    using hd_drop_conv_nth [OF c(1)] d by (cases ds) auto
  show "cursor r + 1 < length file \<and> file ! (cursor r + 1) = m" if "ds = []"
    using that c unfolding nxt d by simp
  show "cursor r + 1 < length file \<and> file ! (cursor r + 1) = 0" if "ds = PREFIX # ds'"
    using that c unfolding nxt d by simp
qed

lemma at_segment_advance:
  assumes "at_segment file (d # ds) m rest r"
  shows "at_segment file ds m rest (push_byte b (r\<lparr>cursor := cursor r + length (stuff [d])\<rparr>))"
proof -
  have "drop (cursor r + length (stuff [d])) file = drop (length (stuff [d])) (stuff (d # ds) @ PREFIX # m # rest)"
    using assms by (simp only: at_segment_def drop_drop [symmetric] add.commute [of _ "length (stuff [d])"])
  then show ?thesis using assms by (auto simp: at_segment_def push_byte_def split: option.splits)
qed

lemma refill_in_segment:
  assumes "at_segment file ds m rest r" "m \<noteq> 0"
  shows "\<exists>ds'. at_segment file ds' m rest (refill r) \<and>
    (bits_in_buffer (refill r) \<le> 56 \<longrightarrow> ds' = [] \<and> pending_marker (refill r) = Some m)"
  using assms(1)
proof (induction ds arbitrary: r)
  case Nil
  then show ?case using at_segment_head(1,2) [OF Nil assms(2)] assms(2)
    by (intro exI [of _ "[]"]) (auto simp: refill.simps [of r] at_segment_def Let_def split: option.splits)
next
  case (Cons d ds)
  have pm: "pending_marker r = None" using Cons(2) by (auto simp: at_segment_def split: option.splits)
  have br: "br_bytes r = file" using Cons(2) by (simp add: at_segment_def)
  show ?case
  proof (cases "bits_in_buffer r \<le> 56")
    case True
    have "refill r = refill (push_byte d (r\<lparr>cursor := cursor r + length (stuff [d])\<rparr>))"
      using at_segment_head(1,3) [OF Cons(2) assms(2)] at_segment_cursor(1) [OF Cons(2)] pm True br
      by (auto simp: refill.simps [of r] Let_def)
    then show ?thesis using Cons.IH [OF at_segment_advance [OF Cons(2)], of d] by simp
  next
    case False
    then show ?thesis using Cons(2) by (intro exI [of _ "d # ds"]) (simp add: refill.simps [of r])
  qed
qed

lemma read_bit_in_segment:
  assumes "in_segment file m rest r" "m \<noteq> 0" "read_bit r = Inr (b, r')"
  shows "in_segment file m rest r'"
proof -
  have "in_segment file m rest (refill r)"
    using assms(1) refill_in_segment [OF _ assms(2)] unfolding in_segment_def by blast
  then show ?thesis using assms(1,3) by (auto simp: read_bit_def Let_def split: if_splits)
qed

lemma decode_from_in_segment:
  assumes "in_segment file m rest r" "m \<noteq> 0" "decode_from k t n c r = Inr (s, r')"
  shows "in_segment file m rest r'"
  using assms(1,3)
proof (induction k arbitrary: n c r)
  case (Suc k)
  then obtain b q where q: "read_bit r = Inr (b, q)" by (auto simp: and_then_Inr_iff)
  then have "in_segment file m rest q" using read_bit_in_segment [OF Suc(2) assms(2)] by simp
  then show ?case using Suc q by (auto simp: Let_def split: if_splits)
qed simp

lemma need_bits_in_segment:
  assumes "in_segment file m rest r" "m \<noteq> 0" "n \<le> 57"
  shows "case need_bits n r of
      Inl e \<Rightarrow> e = UnexpectedMarker m (length file - 2 - length rest)
    | Inr r' \<Rightarrow> in_segment file m rest r'"
  using assms(1,3)
proof (induction n r rule: need_bits.induct)
  case (1 n r)
  obtain ds where ds: "at_segment file ds m rest (refill r)"
    "bits_in_buffer (refill r) \<le> 56 \<longrightarrow> ds = [] \<and> pending_marker (refill r) = Some m"
    using 1(2) refill_in_segment [OF _ assms(2)] unfolding in_segment_def by blast
  show ?case
  proof (cases "bits_in_buffer r < n \<and> bits_in_buffer (refill r) > bits_in_buffer r")
    case True
    then have "need_bits n r = need_bits n (refill r)" by (simp add: need_bits.simps [of n r] Let_def)
    then show ?thesis using 1 True ds by (auto simp: in_segment_def not_le)
  next
    case False
    show ?thesis
    proof (cases "bits_in_buffer r < n")
      case True
      then have stall: "bits_in_buffer (refill r) \<le> bits_in_buffer r" using False by simp
      then have e: "ds = []" "pending_marker (refill r) = Some m" using True ds(2) 1(3) by simp_all
      then have "pending_marker_offset (refill r) = Some (length file - 2 - length rest)"
        using ds(1) at_segment_cursor(2) [OF ds(1)] by (auto simp: at_segment_def)
      then show ?thesis using True stall e
        by (simp add: need_bits.simps [of n r] eof_or_marker_error_def)
    next
      case False
      then show ?thesis using 1(2) by (simp add: need_bits.simps [of n r])
    qed
  qed
qed

lemma read_bits_in_segment:
  assumes "in_segment file m rest r" "m \<noteq> 0" "n \<le> 57"
  shows "case read_bits n r of
      Inl e \<Rightarrow> e = UnexpectedMarker m (length file - 2 - length rest)
    | Inr (v, r') \<Rightarrow> in_segment file m rest r'"
  using need_bits_in_segment [OF assms]
  by (cases "need_bits n r") (auto simp: read_bits_def Let_def)

lemma at_segment_all_loaded:
  assumes "at_segment file ds m rest r" "m \<noteq> 0" "length (reader_bits r) < 8"
  shows "ds = []"
proof (rule ccontr)
  assume "ds \<noteq> []"
  then obtain d ds' where "ds = d # ds'" by (cases ds) auto
  moreover have "destuff (drop (cursor r) (br_bytes r)) = ds"
    using assms(1) destuff_stuff [OF assms(2)] by (simp add: at_segment_def)
  ultimately show False using assms(3) by (simp add: reader_bits_def)
qed

lemma skip_fill_bytes_at_marker:
  "\<not> (cursor r + 1 < length (br_bytes r) \<and> br_bytes r ! cursor r = PREFIX \<and> br_bytes r ! (cursor r + 1) = PREFIX)
     \<Longrightarrow> skip_fill_bytes k r = r"
  by (cases k) auto

lemma read_marker_after_segment:
  assumes "in_segment file m rest r" "m \<notin> {0, PREFIX}" "length (reader_bits r) < 8"
  shows "\<exists>r'. read_marker (reset_to_byte_boundary r) = Inr (m, r') \<and> br_bytes r' = file \<and>
    drop (cursor r') file = rest \<and> bits_in_buffer r' = 0 \<and> pending_marker r' = None"
proof -
  obtain ds where ds: "at_segment file ds m rest r" using assms(1) by (auto simp: in_segment_def)
  have at: "at_segment file [] m rest r" using ds at_segment_all_loaded [OF ds _ assms(3)] assms(2) by simp
  have d: "drop (cursor r + 2) file = rest"
  proof -
    have "drop (cursor r + 2) file = drop 2 (drop (cursor r) file)" by (simp add: add.commute)
    also have "\<dots> = rest" using at by (simp add: at_segment_def del: drop_drop)
    finally show ?thesis .
  qed
  note h = at_segment_head(1,2) [OF at]
  show ?thesis
  proof (cases "pending_marker r")
    case None
    then show ?thesis using at d h assms(2)
      by (simp add: read_marker_def reset_to_byte_boundary_def Let_def skip_fill_bytes_at_marker at_segment_def)
  next
    case (Some m')
    then show ?thesis using at d
      by (simp add: read_marker_def reset_to_byte_boundary_def Let_def at_segment_def)
  qed
qed

text \<open>A client of the reader: a sequence of reads of the given widths.\<close>

fun read_many :: "nat list \<Rightarrow> bit_reader \<Rightarrow> jpeg_error + u32 list \<times> bit_reader" where
  "read_many [] r = Inr ([], r)"
| "read_many (n # ns) r =
     and_then (read_bits n r) (\<lambda>(v, r). and_then (read_many ns r) (\<lambda>(vs, r). Inr (v # vs, r)))"

fun chunks :: "nat list \<Rightarrow> 'a list \<Rightarrow> 'a list list" where
  "chunks [] bs = []"
| "chunks (n # ns) bs = take n bs # chunks ns (drop n bs)"

lemma read_many_spec:
  assumes "reader_ok r" "in_segment file m rest r" "m \<noteq> 0" "\<forall>n\<in>set ns. n \<le> 16"
  shows "if length (reader_bits r) < sum_list ns
    then read_many ns r = Inl (UnexpectedMarker m (length file - 2 - length rest))
    else \<exists>vs r'. read_many ns r = Inr (vs, r') \<and> map unat vs = map bits_value (chunks ns (reader_bits r)) \<and>
      reader_ok r' \<and> in_segment file m rest r' \<and> reader_bits r' = drop (sum_list ns) (reader_bits r)"
  using assms
proof (induction ns arbitrary: r)
  case (Cons n ns)
  have n: "n \<le> 16" using Cons(5) by simp
  note seg = read_bits_in_segment [OF Cons(3,4), of n]
  show ?case
  proof (cases "length (reader_bits r) < n")
    case True
    then show ?thesis using read_bits_spec [OF Cons(2) n] seg n by (auto split: if_splits)
  next
    case False
    then obtain v q where q: "read_bits n r = Inr (v, q)" "unat v = bits_value (take n (reader_bits r))"
      "reader_ok q" "reader_bits q = drop n (reader_bits r)"
      using read_bits_spec [OF Cons(2) n] by auto
    then have "in_segment file m rest q" using seg n by simp
    then show ?thesis using Cons.IH [OF q(3) _ Cons(4)] Cons(5) q False
      by (auto simp: less_diff_conv add.commute split: if_splits)
  qed
qed simp

lemma new_reader_at_segment:
  assumes "m \<noteq> 0"
  shows "in_segment (stuff ds @ PREFIX # m # rest) m rest (bit_reader_new (stuff ds @ PREFIX # m # rest))"
    "reader_ok (bit_reader_new bs)"
    "reader_bits (bit_reader_new bs) = concat (map bits_of_byte (destuff bs))"
  by (auto simp: in_segment_def at_segment_def bit_reader_new_def reader_ok_def reader_bits_def buf_bits_def)

lemma length_bytes_bits: "length (concat (map bits_of_byte ds)) = 8 * length ds"
  by (induction ds) auto

subsection \<open>Properties\<close>

text \<open>C24: a stuffed entropy-coded segment reads back exactly: any sequence of reads of at most
  sixteen bits yields the consecutive bit fields of the data bytes; once only padding is left, the
  marker that closes the segment is found and the reader stands behind it; a read beyond the data
  fails with that marker and its offset, whatever follows it.\<close>

theorem entropy_segment_roundtrip:
  assumes "\<forall>n\<in>set ns. n \<le> 16" "m \<notin> {0, PREFIX}"
  shows "if sum_list ns \<le> 8 * length ds
    then \<exists>vs r. read_many ns (bit_reader_new (stuff ds @ PREFIX # m # rest)) = Inr (vs, r) \<and>
      map unat vs = map bits_value (chunks ns (concat (map bits_of_byte ds))) \<and>
      (8 * length ds < sum_list ns + 8 \<longrightarrow>
         (\<exists>r'. read_marker (reset_to_byte_boundary r) = Inr (m, r') \<and>
            reader_bits r' = concat (map bits_of_byte (destuff rest))))
    else read_many ns (bit_reader_new (stuff ds @ PREFIX # m # rest)) =
      Inl (UnexpectedMarker m (length (stuff ds)))"
proof -
  let ?file = "stuff ds @ PREFIX # m # rest"
  let ?r = "bit_reader_new ?file"
  have m: "m \<noteq> 0" using assms(2) by simp
  note new = new_reader_at_segment [OF m]
  have bits: "reader_bits ?r = concat (map bits_of_byte ds)" by (simp add: new(3) destuff_stuff [OF m])
  note spec = read_many_spec [OF new(2) new(1) [of ds rest] m assms(1), unfolded bits length_bytes_bits]
  show ?thesis
  proof (cases "sum_list ns \<le> 8 * length ds")
    case True
    then obtain vs r where r: "read_many ns ?r = Inr (vs, r)"
      "map unat vs = map bits_value (chunks ns (concat (map bits_of_byte ds)))"
      "in_segment ?file m rest r" "reader_bits r = drop (sum_list ns) (concat (map bits_of_byte ds))"
      using spec by auto
    have "\<exists>r'. read_marker (reset_to_byte_boundary r) = Inr (m, r') \<and>
        reader_bits r' = concat (map bits_of_byte (destuff rest))" if "8 * length ds < sum_list ns + 8"
      using read_marker_after_segment [OF r(3) assms(2)] that r(4) length_bytes_bits [of ds]
      by (fastforce simp: reader_bits_def buf_bits_def)
    then show ?thesis using True r by auto
  next
    case False
    then show ?thesis using spec by (simp add: not_le)
  qed
qed

theorem entropy_segment_roundtrip_witness:
  "\<exists>vs r. read_many [3, 9] (bit_reader_new [0xFF, 0, 0x2A, 0xFF, 0xD3, 7]) = Inr (vs, r) \<and>
     map unat vs = [7, 498] \<and>
     (\<exists>r'. read_marker (reset_to_byte_boundary r) = Inr (0xD3, r') \<and>
        reader_bits r' = [False, False, False, False, False, True, True, True])"
  using entropy_segment_roundtrip [of "[3, 9]" "0xD3" "[0xFF, 0x2A]" "[7]"]
  by (simp add: bits_of_byte_def bits_value_def upt_rec)

text \<open>C23: the Huffman decoder implements the canonical code of the table, exactly: from a reader
  whose next bits are the \<open>j\<close>-th code of length \<open>n + 1\<close> it returns the symbol of that code and leaves
  the bits behind it, and it returns nothing else, so no code is the prefix of another, no index
  leaves the symbol list and no bit is consumed beyond the code.\<close>

theorem huffman_decodes_the_canonical_code:
  assumes "huffman_build cl tid bits hv = Inr t" "length bits = 16" "reader_ok r"
  shows "(\<forall>n j rest. is_code bits n j \<and> reader_bits r = code_bits (n + 1) (first_code bits n + j) @ rest \<longrightarrow>
      (\<exists>r'. decode_symbol t r = Inr (hv ! (first_offset bits n + j), r') \<and> reader_ok r' \<and> reader_bits r' = rest)) \<and>
    (\<forall>s r'. decode_symbol t r = Inr (s, r') \<longrightarrow>
      (\<exists>n j. is_code bits n j \<and> s = hv ! (first_offset bits n + j) \<and> first_offset bits n + j < length hv \<and>
         reader_ok r' \<and> reader_bits r = code_bits (n + 1) (first_code bits n + j) @ reader_bits r'))"
proof (intro conjI allI impI)
  fix n j rest
  assume "is_code bits n j \<and> reader_bits r = code_bits (n + 1) (first_code bits n + j) @ rest"
  then show "\<exists>r'. decode_symbol t r = Inr (hv ! (first_offset bits n + j), r') \<and> reader_ok r' \<and> reader_bits r' = rest"
    using decode_symbol_hits [OF assms(1,2) _ assms(3), of n j rest] by blast
next
  fix s r'
  assume "decode_symbol t r = Inr (s, r')"
  then obtain n j cs where c: "is_code bits n j" "s = hv ! (first_offset bits n + j)" "reader_ok r'"
      "reader_bits r = cs @ reader_bits r'" "length cs = n + 1" "bits_value cs = first_code bits n + j"
    using decode_from_sound [OF assms, of 0 16 0 s r'] by (auto simp: decode_symbol_def)
  have "cs = code_bits (n + 1) (first_code bits n + j)"
    using c(5,6) bits_value_code_bits [OF code_below_capacity [OF assms(1,2) c(1)]]
    by (intro bits_value_inject) simp_all
  with c code_index_in_range [OF assms(1,2) c(1)]
  show "\<exists>n j. is_code bits n j \<and> s = hv ! (first_offset bits n + j) \<and> first_offset bits n + j < length hv \<and>
      reader_ok r' \<and> reader_bits r = code_bits (n + 1) (first_code bits n + j) @ reader_bits r'" by blast
qed

abbreviation k3_bits :: bytes where "k3_bits \<equiv> [0, 1, 5, 1, 1, 1, 1, 1, 1, 0, 0, 0, 0, 0, 0, 0]"
abbreviation k3_huffval :: bytes where "k3_huffval \<equiv> [0, 1, 2, 3, 4, 5, 6, 7, 8, 9, 10, 11]"

text \<open>Table K.3 of the standard, and a reader at the code of its symbol 2 with three bits behind it.\<close>

theorem huffman_decodes_the_canonical_code_witness:
  "\<exists>t r'. huffman_build Dc 0 k3_bits k3_huffval = Inr t \<and>
     decode_symbol t (bit_reader_new [0x6D]) = Inr (2, r') \<and>
     reader_bits r' = [False, True, True, False, True]"
proof -
  have "\<not> isl (huffman_build Dc 0 k3_bits k3_huffval)" by code_simp
  then obtain t where t: "huffman_build Dc 0 k3_bits k3_huffval = Inr t"
    by (cases "huffman_build Dc 0 k3_bits k3_huffval") auto
  have "is_code k3_bits 2 1" "first_code k3_bits 2 = 2" "first_offset k3_bits 2 = 1"
    by code_simp+
  moreover have "reader_bits (bit_reader_new [0x6D]) = code_bits 3 3 @ [False, True, True, False, True]"
    by (simp add: reader_bits_def buf_bits_def bit_reader_new_def bits_of_byte_def code_bits_def upt_rec bit_0)
  moreover have "reader_ok (bit_reader_new [0x6D])" by (simp add: reader_ok_def bit_reader_new_def)
  ultimately show ?thesis using t
    huffman_decodes_the_canonical_code [OF t, of "bit_reader_new [0x6D]", THEN conjunct1, rule_format,
      of 2 1 "[False, True, True, False, True]"] by auto
qed

end
