(* ===== verification/Jpeg_Scan.thy ===== *)
theory Jpeg_Scan
  imports Jpeg_Entropy
begin

text \<open>
  The entropy-decode loop of the JPEG decoder (\<open>sdk/vulkan-jpeg/src/scan.rs\<close>) and the header types
  it works on (\<open>header.rs\<close>). Coefficients and DC predictors are integers: \<open>clamp_i16\<close> refuses a
  coefficient outside sixteen bits, and a predictor is a coefficient that passed it, so no sum of
  the source leaves 32 bits. A decode that fails is abandoned whole.
\<close>

unbundle bit_operations_syntax

subsection \<open>Headers\<close>

record frame_component =
  fc_id :: u8
  fc_h_sampling :: u8
  fc_v_sampling :: u8
  fc_quant_table_id :: u8

record jpeg_frame_header =
  fh_precision :: u8
  fh_height :: "16 word"
  fh_width :: "16 word"
  fh_components :: "frame_component list"
  fh_max_h_sampling :: u8
  fh_max_v_sampling :: u8

record scan_component =
  sc_component_id :: u8
  sc_dc_table_id :: u8
  sc_ac_table_id :: u8

record scan_header =
  sh_components :: "scan_component list"
  sh_spectral_start :: u8
  sh_spectral_end :: u8
  sh_successive_high :: u8
  sh_successive_low :: u8

record component_scan =
  cs_component_id :: u8
  cs_h_sampling :: u8
  cs_v_sampling :: u8
  cs_quant_table_id :: u8
  cs_blocks_horizontal :: nat
  cs_blocks_vertical :: nat
  cs_coefficients :: "int list"

record huffman_tables =
  hts_dc :: "huffman_table option list"
  hts_ac :: "huffman_table option list"

definition huffman_tables_default :: huffman_tables where
  "huffman_tables_default = \<lparr>hts_dc = replicate 4 None, hts_ac = replicate 4 None\<rparr>"

record component_plane =
  cp_component_id :: u8
  cp_h_sampling :: u8
  cp_v_sampling :: u8
  cp_quant_table_id :: u8
  blocks_h :: nat
  blocks_v :: nat
  coefficients :: "int list"
  dc_predictor :: int
  dc_table :: huffman_table
  ac_table :: huffman_table

subsection \<open>One block\<close>

definition clamp_i16 :: "int \<Rightarrow> jpeg_error + int" where
  "clamp_i16 v =
     (if - (2 ^ 15) \<le> v \<and> v < 2 ^ 15 then Inr v
      else Inl (InvalidScan ''coefficient outside i16 range (corrupt entropy stream)''))"

text \<open>The coefficients are addressed in the plane, at the offset of the block.\<close>

function decode_ac ::
    "huffman_table \<Rightarrow> nat \<Rightarrow> nat \<Rightarrow> int list \<Rightarrow> bit_reader \<Rightarrow> jpeg_error + int list \<times> bit_reader" where
  "decode_ac t off k cs r =
     (if k < 64 then
        and_then (decode_symbol t r) (\<lambda>(rs, r).
          let run = unat (drop_bit 4 rs);
              category = unat (rs AND 0x0F)
          in if category = 0 then
               if run = 15 then
                 if 64 < k + 16 then Inl (InvalidScan ''ZRL would overrun 8x8 block'')
                 else decode_ac t off (k + 16) cs r
               else Inr (cs, r)
             else if 10 < category then Inl (InvalidScan ''AC category exceeds baseline JPEG limit of 10'')
             else if 64 \<le> k + run then Inl (InvalidScan ''AC run+category overruns 8x8 block'')
             else
               and_then (read_bits category r) (\<lambda>(raw, r).
                 and_then (clamp_i16 (extend_bits raw category)) (\<lambda>v.
                   decode_ac t off (k + run + 1) (cs[off + k + run := v]) r)))
      else Inr (cs, r))"
  by pat_completeness auto
termination
  by (relation "measure (\<lambda>(t, off, k, cs, r). 64 - k)") auto

declare decode_ac.simps [simp del]

definition decode_block ::
    "nat \<Rightarrow> nat \<Rightarrow> component_plane \<Rightarrow> bit_reader \<Rightarrow> jpeg_error + component_plane \<times> bit_reader" where
  "decode_block block_x block_y p r =
     (let off = (block_y * blocks_h p + block_x) * 64
      in and_then (decode_symbol (dc_table p) r) (\<lambda>(dc_category, r).
           if 11 < dc_category then Inl (InvalidScan ''DC category exceeds baseline JPEG limit of 11'')
           else
             and_then (if dc_category = 0 then Inr (0, r)
                       else and_then (read_bits (unat dc_category) r) (\<lambda>(raw, r).
                              Inr (extend_bits raw (unat dc_category), r)))
               (\<lambda>(dc_diff, r).
                  let dc = dc_predictor p + dc_diff
                  in and_then (clamp_i16 dc) (\<lambda>v.
                       and_then (decode_ac (ac_table p) off 1 ((coefficients p)[off := v]) r) (\<lambda>(cs, r).
                         Inr (p\<lparr>dc_predictor := dc, coefficients := cs\<rparr>, r))))))"

subsection \<open>The scan\<close>

definition handle_restart ::
    "bit_reader \<Rightarrow> component_plane list \<Rightarrow> u8 \<Rightarrow> jpeg_error + bit_reader \<times> component_plane list \<times> u8" where
  "handle_restart r planes expected =
     and_then (read_marker (reset_to_byte_boundary r)) (\<lambda>(m, r).
       if m \<noteq> 0xD0 + expected then Inl (UnexpectedRestartMarker expected m (cursor r))
       else Inr (r, map (\<lambda>p. p\<lparr>dc_predictor := 0\<rparr>) planes, (expected + 1) AND 7))"

fun decode_blocks ::
    "(nat \<times> nat) list \<Rightarrow> component_plane \<Rightarrow> bit_reader \<Rightarrow> jpeg_error + component_plane \<times> bit_reader" where
  "decode_blocks [] p r = Inr (p, r)"
| "decode_blocks ((x, y) # bs) p r =
     and_then (decode_block x y p r) (\<lambda>(p, r). decode_blocks bs p r)"

text \<open>The blocks of one plane in one MCU, in the order of the two inner loops.\<close>

definition mcu_blocks :: "nat \<Rightarrow> nat \<Rightarrow> component_plane \<Rightarrow> (nat \<times> nat) list" where
  "mcu_blocks mcu_x mcu_y p =
     [(mcu_x * unat (cp_h_sampling p) + vx, mcu_y * unat (cp_v_sampling p) + vy).
        vy \<leftarrow> [0..<unat (cp_v_sampling p)], vx \<leftarrow> [0..<unat (cp_h_sampling p)]]"

fun decode_planes ::
    "nat \<Rightarrow> nat \<Rightarrow> component_plane list \<Rightarrow> bit_reader \<Rightarrow> jpeg_error + component_plane list \<times> bit_reader" where
  "decode_planes mcu_x mcu_y [] r = Inr ([], r)"
| "decode_planes mcu_x mcu_y (p # ps) r =
     and_then (decode_blocks (mcu_blocks mcu_x mcu_y p) p r) (\<lambda>(p, r).
       and_then (decode_planes mcu_x mcu_y ps r) (\<lambda>(ps, r). Inr (p # ps, r)))"

fun decode_mcus ::
    "nat \<Rightarrow> (nat \<times> nat) list \<Rightarrow> bit_reader \<Rightarrow> component_plane list \<Rightarrow> nat \<Rightarrow> u8 \<Rightarrow>
      jpeg_error + component_plane list" where
  "decode_mcus restart_interval [] r planes mcus_since_restart expected = Inr planes"
| "decode_mcus restart_interval ((mcu_x, mcu_y) # ms) r planes mcus_since_restart expected =
     and_then
       (if 0 < restart_interval \<and> mcus_since_restart = restart_interval
        then and_then (handle_restart r planes expected) (\<lambda>(r, planes, expected).
               Inr (r, planes, expected, 0))
        else Inr (r, planes, expected, mcus_since_restart))
       (\<lambda>(r, planes, expected, mcus_since_restart).
          and_then (decode_planes mcu_x mcu_y planes r) (\<lambda>(planes, r).
            decode_mcus restart_interval ms r planes (mcus_since_restart + 1) expected))"

definition div_ceil :: "nat \<Rightarrow> nat \<Rightarrow> nat" where
  "div_ceil a b = (a + b - 1) div b"

definition plane_for ::
    "jpeg_frame_header \<Rightarrow> huffman_tables \<Rightarrow> nat \<Rightarrow> nat \<Rightarrow> scan_component \<Rightarrow> jpeg_error + component_plane" where
  "plane_for frame huffman mcus_h mcus_v sc =
     and_then (ok_or (InvalidScan ''SOS component id missing from SOF'')
                 (find (\<lambda>c. fc_id c = sc_component_id sc) (fh_components frame))) (\<lambda>fc.
       and_then (ok_or (MissingHuffmanTable 0 (sc_dc_table_id sc)) (hts_dc huffman ! unat (sc_dc_table_id sc))) (\<lambda>dct.
         and_then (ok_or (MissingHuffmanTable 1 (sc_ac_table_id sc)) (hts_ac huffman ! unat (sc_ac_table_id sc))) (\<lambda>act.
           let bh = mcus_h * unat (fc_h_sampling fc);
               bv = mcus_v * unat (fc_v_sampling fc)
           in Inr \<lparr>cp_component_id = fc_id fc, cp_h_sampling = fc_h_sampling fc,
                   cp_v_sampling = fc_v_sampling fc, cp_quant_table_id = fc_quant_table_id fc,
                   blocks_h = bh, blocks_v = bv, coefficients = replicate (bh * bv * 64) 0,
                   dc_predictor = 0, dc_table = dct, ac_table = act\<rparr>)))"

fun planes_for ::
    "jpeg_frame_header \<Rightarrow> huffman_tables \<Rightarrow> nat \<Rightarrow> nat \<Rightarrow> scan_component list \<Rightarrow>
      jpeg_error + component_plane list" where
  "planes_for frame huffman mcus_h mcus_v [] = Inr []"
| "planes_for frame huffman mcus_h mcus_v (sc # scs) =
     and_then (plane_for frame huffman mcus_h mcus_v sc) (\<lambda>p.
       and_then (planes_for frame huffman mcus_h mcus_v scs) (\<lambda>ps. Inr (p # ps)))"

definition component_scan_of :: "component_plane \<Rightarrow> component_scan" where
  "component_scan_of p =
     \<lparr>cs_component_id = cp_component_id p, cs_h_sampling = cp_h_sampling p, cs_v_sampling = cp_v_sampling p,
      cs_quant_table_id = cp_quant_table_id p, cs_blocks_horizontal = blocks_h p,
      cs_blocks_vertical = blocks_v p, cs_coefficients = coefficients p\<rparr>"

definition mcu_grid :: "nat \<Rightarrow> nat \<Rightarrow> (nat \<times> nat) list" where
  "mcu_grid mcus_h mcus_v = [(x, y). y \<leftarrow> [0..<mcus_v], x \<leftarrow> [0..<mcus_h]]"

definition decode_entropy ::
    "jpeg_frame_header \<Rightarrow> scan_header \<Rightarrow> huffman_tables \<Rightarrow> 16 word \<Rightarrow> bytes \<Rightarrow>
      jpeg_error + component_scan list" where
  "decode_entropy frame scan huffman restart_interval entropy_data =
     (let mcus_h = div_ceil (unat (fh_width frame)) (8 * unat (fh_max_h_sampling frame));
          mcus_v = div_ceil (unat (fh_height frame)) (8 * unat (fh_max_v_sampling frame))
      in and_then (planes_for frame huffman mcus_h mcus_v (sh_components scan)) (\<lambda>planes.
           and_then (decode_mcus (unat restart_interval) (mcu_grid mcus_h mcus_v)
                       (bit_reader_new entropy_data) planes 0 0) (\<lambda>planes.
             Inr (map component_scan_of planes))))"

subsection \<open>The code of T.81 Annex F\<close>

text \<open>A table as a DHT segment gives it: the BITS list and the HUFFVAL list.\<close>

type_synonym code_spec = "bytes \<times> bytes"

definition builds :: "code_spec \<Rightarrow> huffman_table \<Rightarrow> bool" where
  "builds spec t \<longleftrightarrow> length (fst spec) = 16 \<and>
     (\<exists>cl tid. huffman_build cl tid (fst spec) (snd spec) = Inr t)"

definition codes :: "bytes \<Rightarrow> (nat \<times> nat) list" where
  "codes bits = [(n, j). n \<leftarrow> [0..<16], j \<leftarrow> [0..<unat (bits ! n)]]"

definition symbol_code :: "code_spec \<Rightarrow> u8 \<Rightarrow> bool list option" where
  "symbol_code spec s =
     map_option (\<lambda>(n, j). code_bits (n + 1) (first_code (fst spec) n + j))
       (find (\<lambda>(n, j). snd spec ! (first_offset (fst spec) n + j) = s) (codes (fst spec)))"

fun bit_length :: "nat \<Rightarrow> nat" where
  "bit_length n = (if n = 0 then 0 else Suc (bit_length (n div 2)))"

declare bit_length.simps [simp del]

definition category :: "int \<Rightarrow> nat" where
  "category v = bit_length (nat \<bar>v\<bar>)"

definition value_bits :: "int \<Rightarrow> bool list" where
  "value_bits v = code_bits (category v) (nat (if v < 0 then v + 2 ^ category v - 1 else v))"

fun zrl_codes :: "code_spec \<Rightarrow> nat \<Rightarrow> bool list option" where
  "zrl_codes spec 0 = Some []"
| "zrl_codes spec (Suc n) =
     Option.bind (symbol_code spec 0xF0) (\<lambda>c. map_option ((@) c) (zrl_codes spec n))"

fun encode_ac :: "code_spec \<Rightarrow> nat \<Rightarrow> int list \<Rightarrow> bool list option" where
  "encode_ac spec run [] = (if run = 0 then Some [] else symbol_code spec 0)"
| "encode_ac spec run (z # zs) =
     (if z = 0 then encode_ac spec (run + 1) zs
      else if 10 < category z then None
      else
        Option.bind (zrl_codes spec (run div 16)) (\<lambda>zr.
        Option.bind (symbol_code spec (of_nat (16 * (run mod 16) + category z))) (\<lambda>sy.
        Option.bind (encode_ac spec 0 zs) (\<lambda>bs. Some (zr @ sy @ value_bits z @ bs)))))"

definition encode_block :: "code_spec \<Rightarrow> code_spec \<Rightarrow> int \<Rightarrow> int list \<Rightarrow> bool list option" where
  "encode_block dcs acs pred block =
     (let d = hd block - pred
      in if 11 < category d \<or> hd block < - 32768 \<or> 32767 < hd block then None
         else
           Option.bind (symbol_code dcs (of_nat (category d))) (\<lambda>sy.
           Option.bind (encode_ac acs 0 (tl block)) (\<lambda>bs. Some (sy @ value_bits d @ bs))))"

text \<open>
  A scan is coded from its data units alone: a component's units in one MCU are a list of blocks,
  each predicted from the one before; an MCU is the list of its components' units.
\<close>

fun encode_blocks :: "code_spec \<times> code_spec \<Rightarrow> int \<Rightarrow> int list list \<Rightarrow> (bool list \<times> int) option" where
  "encode_blocks specs pred [] = Some ([], pred)"
| "encode_blocks (dcs, acs) pred (block # blocks) =
     Option.bind (encode_block dcs acs pred block) (\<lambda>bs.
     Option.bind (encode_blocks (dcs, acs) (hd block) blocks) (\<lambda>(bs', pred').
       Some (bs @ bs', pred')))"

fun encode_mcu ::
    "(code_spec \<times> code_spec) list \<Rightarrow> int list list list \<Rightarrow> int list \<Rightarrow> (bool list \<times> int list) option" where
  "encode_mcu (specs # specss) (blocks # mcu) (pred # preds) =
     Option.bind (encode_blocks specs pred blocks) (\<lambda>(bs, pred').
     Option.bind (encode_mcu specss mcu preds) (\<lambda>(bs', preds').
       Some (bs @ bs', pred' # preds')))"
| "encode_mcu _ _ _ = Some ([], [])"

text \<open>Bits in bytes, the last one filled up with ones.\<close>

function pack_bits :: "bool list \<Rightarrow> bytes" where
  "pack_bits bs =
     (if bs = [] then []
      else of_nat (bits_value (take 8 (bs @ replicate 7 True))) # pack_bits (drop 8 bs))"
  by pat_completeness auto
termination
  by (relation "measure length") auto

declare pack_bits.simps [simp del]

text \<open>
  The rest of a scan: the bits that complete the open segment, and the bytes from its closing
  marker on, which is a restart marker or the end of the image. After a restart marker every
  prediction starts at zero again.
\<close>

fun encode_mcus ::
    "nat \<Rightarrow> bytes \<Rightarrow> (code_spec \<times> code_spec) list \<Rightarrow> int list list list list \<Rightarrow> int list \<Rightarrow> nat \<Rightarrow> u8 \<Rightarrow>
      (bool list \<times> bytes) option" where
  "encode_mcus restart_interval trailer specs [] preds since expected = Some ([], PREFIX # 0xD9 # trailer)"
| "encode_mcus restart_interval trailer specs (mcu # ms) preds since expected =
     (if 0 < restart_interval \<and> since = restart_interval
      then
        Option.bind (encode_mcu specs mcu (map (\<lambda>_. 0) preds)) (\<lambda>(bs, preds').
        Option.bind (encode_mcus restart_interval trailer specs ms preds' 1 ((expected + 1) AND 7)) (\<lambda>(bs', t).
          Some ([], PREFIX # (0xD0 + expected) # stuff (pack_bits (bs @ bs')) @ t)))
      else
        Option.bind (encode_mcu specs mcu preds) (\<lambda>(bs, preds').
        Option.bind (encode_mcus restart_interval trailer specs ms preds' (since + 1) expected) (\<lambda>(bs', t).
          Some (bs @ bs', t))))"

definition encode_scan ::
    "nat \<Rightarrow> bytes \<Rightarrow> (code_spec \<times> code_spec) list \<Rightarrow> int list list list list \<Rightarrow> bytes option" where
  "encode_scan restart_interval trailer specs mcus =
     map_option (\<lambda>(bs, t). stuff (pack_bits bs) @ t)
       (encode_mcus restart_interval trailer specs mcus (map (\<lambda>_. 0) specs) 0 0)"

subsection \<open>Reading one coded value\<close>

text \<open>The reader is inside a segment that marker \<open>m\<close> closes, with the bits \<open>bs\<close> before it.\<close>

definition reads_at :: "bytes \<Rightarrow> u8 \<Rightarrow> bytes \<Rightarrow> bit_reader \<Rightarrow> bool list \<Rightarrow> bool" where
  "reads_at file m rest r bs \<longleftrightarrow> m \<noteq> 0 \<and> reader_ok r \<and> in_segment file m rest r \<and> reader_bits r = bs"

lemma find_SomeD: "find P xs = Some x \<Longrightarrow> x \<in> set xs \<and> P x"
  by (induction xs) (auto split: if_splits)

lemma symbol_code_decodes:
  assumes "builds spec t" "symbol_code spec s = Some c" "reads_at file m rest r (c @ bs)"
  shows "\<exists>r'. decode_symbol t r = Inr (s, r') \<and> reads_at file m rest r' bs"
proof -
  obtain bits hv where spec: "spec = (bits, hv)" by (cases spec)
  obtain n j where nj: "find (\<lambda>(n, j). hv ! (first_offset bits n + j) = s) (codes bits) = Some (n, j)"
    "c = code_bits (n + 1) (first_code bits n + j)"
    using assms(2) by (auto simp: symbol_code_def spec)
  then have "is_code bits n j" "hv ! (first_offset bits n + j) = s"
    using find_SomeD [OF nj(1)] by (auto simp: codes_def is_code_def)
  then obtain r' where r': "decode_symbol t r = Inr (s, r')" "reader_ok r'" "reader_bits r' = bs"
    using decode_symbol_hits [of _ _ bits hv t n j r bs] assms(1,3) nj(2)
    by (auto simp: builds_def spec reads_at_def)
  then show ?thesis using decode_from_in_segment [of "file" m rest r 16 t 0 0 s r'] assms(3)
    by (auto simp: reads_at_def decode_symbol_def)
qed

lemma bit_length_bounds: "n < 2 ^ bit_length n" "0 < n \<Longrightarrow> 2 ^ (bit_length n - 1) \<le> n \<and> 0 < bit_length n"
proof -
  show "n < 2 ^ bit_length n"
    by (induction n rule: bit_length.induct) (subst bit_length.simps, auto)
  show "2 ^ (bit_length n - 1) \<le> n \<and> 0 < bit_length n" if "0 < n" using that
  proof (induction n rule: bit_length.induct)
    case (1 n)
    show ?case
    proof (cases "n = 1")
      case False
      then have "0 < n div 2" using 1(2) by auto
      then have ih: "2 ^ (bit_length (n div 2) - 1) \<le> n div 2" "0 < bit_length (n div 2)" using 1 by auto
      have "(2::nat) ^ bit_length (n div 2) = 2 * 2 ^ (bit_length (n div 2) - 1)"
        using ih(2) by (metis Suc_diff_1 power_Suc)
      then show ?thesis using ih 1(2) by (subst (1 2) bit_length.simps) auto
    qed (simp add: bit_length.simps)
  qed
qed

lemma category_bounds: "\<bar>v\<bar> < 2 ^ category v" "v \<noteq> 0 \<Longrightarrow> 2 ^ (category v - 1) \<le> \<bar>v\<bar> \<and> 0 < category v"
proof -
  have "int (nat \<bar>v\<bar>) < int (2 ^ category v)"
    unfolding category_def of_nat_less_iff by (rule bit_length_bounds(1))
  then show "\<bar>v\<bar> < 2 ^ category v" by simp
  assume "v \<noteq> 0"
  then have "2 ^ (category v - 1) \<le> nat \<bar>v\<bar> \<and> 0 < category v"
    using bit_length_bounds(2) [of "nat \<bar>v\<bar>"] by (simp add: category_def)
  then have "int (2 ^ (category v - 1)) \<le> int (nat \<bar>v\<bar>) \<and> 0 < category v" by (simp only: of_nat_le_iff)
  then show "2 ^ (category v - 1) \<le> \<bar>v\<bar> \<and> 0 < category v" by simp
qed

lemma category_0 [simp]: "category 0 = 0" by (simp add: category_def bit_length.simps)

lemma read_value:
  assumes "v \<noteq> 0" "category v \<le> 16" "reads_at file m rest r (value_bits v @ bs)"
  shows "\<exists>raw r'. read_bits (category v) r = Inr (raw, r') \<and> extend_bits raw (category v) = v \<and>
    reads_at file m rest r' bs"
proof -
  let ?n = "category v"
  let ?c = "nat (if v < 0 then v + 2 ^ ?n - 1 else v)"
  have pow: "(2::int) ^ ?n = 2 * 2 ^ (?n - 1)"
    using category_bounds(2) [OF assms(1)] by (metis Suc_diff_1 power_Suc)
  have c: "int ?c < int (2 ^ ?n)" "int ?c = (if v < 0 then v + 2 ^ ?n - 1 else v)"
    using category_bounds [of v] assms(1) by (auto simp: nat_less_iff)
  obtain raw r' where raw: "read_bits ?n r = Inr (raw, r')" "unat raw = bits_value (value_bits v)"
      "reader_ok r'" "reader_bits r' = bs"
    using read_bits_spec [of r ?n] assms(2,3) by (auto simp: reads_at_def value_bits_def split: if_splits)
  have "?c < 2 ^ ?n" using c(1) by (simp only: of_nat_less_iff)
  then have "unat raw = ?c" using raw(2) bits_value_code_bits [of ?c ?n] by (simp only: value_bits_def)
  then have "uint raw = int ?c" by (metis uint_nat)
  then have "extend_bits raw ?n = v"
    using c(2) pow category_bounds [of v] assms(1) by (auto simp: extend_bits_def Let_def)
  then show ?thesis using raw read_bits_in_segment [of "file" m rest r ?n] assms(2,3)
    by (auto simp: reads_at_def)
qed

subsection \<open>A coded block\<close>

text \<open>What decoding writes: only the non-zero coefficients.\<close>

fun overlay :: "int list \<Rightarrow> nat \<Rightarrow> int list \<Rightarrow> int list" where
  "overlay cs i [] = cs"
| "overlay cs i (z # zs) = overlay (if z = 0 then cs else cs[i := z]) (i + 1) zs"

lemma length_overlay [simp]: "length (overlay cs i zs) = length cs"
  by (induction zs arbitrary: cs i) auto

lemma nth_overlay:
  assumes "i + length zs \<le> length cs"
  shows "overlay cs i zs ! j = (if i \<le> j \<and> j < i + length zs \<and> zs ! (j - i) \<noteq> 0 then zs ! (j - i) else cs ! j)"
  using assms
proof (induction zs arbitrary: cs i)
  case (Cons z zs)
  then show ?case by (auto simp: nth_Cons' nth_list_update)
qed simp

lemma run_category_symbol:
  assumes "q < 16" "c < 16"
  shows "unat (drop_bit 4 (of_nat (16 * q + c) :: u8)) = q" "unat ((of_nat (16 * q + c) :: u8) AND 0x0F) = c"
proof -
  have u: "unat (of_nat (16 * q + c) :: u8) = 16 * q + c" using assms by (simp add: unat_of_nat del: of_nat_add of_nat_mult)
  show "unat (drop_bit 4 (of_nat (16 * q + c) :: u8)) = q"
    unfolding unat_drop_bit_eq u using assms by (simp add: drop_bit_eq_div)
  have "(of_nat (16 * q + c) :: u8) AND 0x0F = take_bit 4 (of_nat (16 * q + c))"
    by (simp add: take_bit_eq_mask mask_eq_exp_minus_1)
  then show "unat ((of_nat (16 * q + c) :: u8) AND 0x0F) = c"
    using u assms by (simp add: take_bit_eq_mod unat_mod_distrib del: of_nat_add of_nat_mult)
qed

lemma decode_ac_zrl:
  assumes "builds spec t" "zrl_codes spec n = Some zr" "reads_at file m rest r (zr @ bs)" "k + 16 * n < 64"
  shows "\<exists>r'. decode_ac t off k cs r = decode_ac t off (k + 16 * n) cs r' \<and> reads_at file m rest r' bs"
  using assms(2-)
proof (induction n arbitrary: k r zr)
  case (Suc n)
  then obtain c zr' where c: "symbol_code spec 0xF0 = Some c" "zrl_codes spec n = Some zr'" "zr = c @ zr'"
    by (auto split: Option.bind_splits)
  obtain r1 where r1: "decode_symbol t r = Inr (0xF0, r1)" "reads_at file m rest r1 (zr' @ bs)"
    using symbol_code_decodes [OF assms(1) c(1)] Suc(3) c(3) by (metis append.assoc)
  have "decode_ac t off k cs r = decode_ac t off (k + 16) cs r1"
    using Suc(4) r1(1) run_category_symbol [of 15 0] by (subst decode_ac.simps) (simp add: Let_def)
  moreover obtain r' where "decode_ac t off (k + 16) cs r1 = decode_ac t off (k + 16 + 16 * n) cs r'"
      "reads_at file m rest r' bs"
    using Suc.IH [OF c(2) r1(2), of "k + 16"] Suc(4) by auto
  ultimately show ?case by (metis add.assoc mult_Suc_right)
qed auto

lemma decode_ac_encoded:
  assumes "builds spec t" "encode_ac spec run zs = Some bs" "reads_at file m rest r (bs @ bs')"
    "k + run + length zs = 64"
  shows "\<exists>r'. decode_ac t off k cs r = Inr (overlay cs (off + k + run) zs, r') \<and> reads_at file m rest r' bs'"
  using assms(2-)
proof (induction zs arbitrary: run k cs r bs)
  case Nil
  show ?case
  proof (cases "run = 0")
    case True
    then show ?thesis using Nil by (subst decode_ac.simps) auto
  next
    case False
    then obtain r1 where "decode_symbol t r = Inr (0, r1)" "reads_at file m rest r1 bs'"
      using symbol_code_decodes [OF assms(1) _ Nil(2), of 0] Nil(1) by auto
    then show ?thesis using False Nil by (subst decode_ac.simps) (auto simp: Let_def)
  qed
next
  case (Cons z zs)
  show ?case
  proof (cases "z = 0")
    case True
    then show ?thesis using Cons.IH [of "run + 1" bs r k cs] Cons(2-) by simp
  next
    case False
    then obtain zr sy bz where e: "zrl_codes spec (run div 16) = Some zr" "encode_ac spec 0 zs = Some bz"
        "symbol_code spec (of_nat (16 * (run mod 16) + category z)) = Some sy"
        "bs = zr @ sy @ value_bits z @ bz" and cat: "category z \<le> 10"
      using Cons(2) by (auto split: Option.bind_splits if_splits)
    let ?k = "k + 16 * (run div 16)"
    have k: "?k + run mod 16 = k + run" by simp
    have k64: "k + run < 64" "?k < 64" using Cons(4) k by simp_all
    obtain r1 where r1: "decode_ac t off k cs r = decode_ac t off ?k cs r1"
        "reads_at file m rest r1 (sy @ value_bits z @ bz @ bs')"
      using decode_ac_zrl [OF assms(1) e(1), of "file" m rest r "sy @ value_bits z @ bz @ bs'" k] Cons(3) e(4) k k64 by auto
    obtain r2 where r2: "decode_symbol t r1 = Inr (of_nat (16 * (run mod 16) + category z), r2)"
        "reads_at file m rest r2 (value_bits z @ bz @ bs')"
      using symbol_code_decodes [OF assms(1) e(3) r1(2)] by blast
    obtain raw r3 where r3: "read_bits (category z) r2 = Inr (raw, r3)" "extend_bits raw (category z) = z"
        "reads_at file m rest r3 (bz @ bs')"
      using read_value [OF False _ r2(2)] cat by auto
    have small: "clamp_i16 z = Inr z"
    proof -
      have "(2::int) ^ category z \<le> 2 ^ 10" using cat by (intro power_increasing) auto
      then show ?thesis using category_bounds(1) [of z] by (auto simp: clamp_i16_def)
    qed
    have "decode_ac t off k cs r = decode_ac t off (k + run + 1) (cs[off + k + run := z]) r3"
      using k k64 r2(1) r3(1,2) cat small category_bounds(2) [OF False] run_category_symbol [of "run mod 16" "category z"]
      unfolding r1(1) by (subst decode_ac.simps) (simp add: Let_def add.assoc del: of_nat_add of_nat_mult)
    then show ?thesis using Cons.IH [OF e(2) r3(3), of "k + run + 1" "cs[off + k + run := z]"] Cons(4) False
      by (simp add: add.assoc)
  qed
qed

lemma category_symbol:
  assumes "c \<le> 11"
  shows "unat (of_nat c :: u8) = c" "\<not> 11 < (of_nat c :: u8)" "(of_nat c :: u8) = 0 \<longleftrightarrow> c = 0"
proof -
  show u: "unat (of_nat c :: u8) = c" using assms by (simp add: unat_of_nat)
  show "\<not> 11 < (of_nat c :: u8)" using assms u by (simp add: word_less_nat_alt)
  show "(of_nat c :: u8) = 0 \<longleftrightarrow> c = 0" using u unsigned_eq_0_iff [of "of_nat c :: u8", where 'a = nat] by simp
qed

lemma decode_block_encoded:
  assumes "builds dcs (dc_table p)" "builds acs (ac_table p)"
    "encode_block dcs acs (dc_predictor p) block = Some bs" "length block = 64"
    "reads_at file m rest r (bs @ bs')" "off = (y * blocks_h p + x) * 64"
  shows "\<exists>r'. decode_block x y p r = Inr (p\<lparr>dc_predictor := hd block,
      coefficients := overlay ((coefficients p)[off := hd block]) (off + 1) (tl block)\<rparr>, r') \<and>
    reads_at file m rest r' bs'"
proof -
  let ?d = "hd block - dc_predictor p"
  obtain sy ac where e: "symbol_code dcs (of_nat (category ?d)) = Some sy" "encode_ac acs 0 (tl block) = Some ac"
      "bs = sy @ value_bits ?d @ ac" and cat: "category ?d \<le> 11" and ok: "clamp_i16 (hd block) = Inr (hd block)"
    using assms(3) by (auto simp: encode_block_def Let_def clamp_i16_def split: Option.bind_splits if_splits)
  note sym = category_symbol [OF cat]
  obtain r1 where r1: "decode_symbol (dc_table p) r = Inr (of_nat (category ?d), r1)"
      "reads_at file m rest r1 (value_bits ?d @ ac @ bs')"
    using symbol_code_decodes [OF assms(1) e(1), of "file" m rest r "value_bits ?d @ ac @ bs'"] assms(5) e(3) by auto
  obtain r2 where r2: "(if of_nat (category ?d) = (0 :: u8) then Inr (0, r1)
      else and_then (read_bits (category ?d) r1) (\<lambda>(raw, r). Inr (extend_bits raw (category ?d), r))) = Inr (?d, r2)"
      "reads_at file m rest r2 (ac @ bs')"
  proof (cases "?d = 0")
    case True
    then show thesis using that [of r1] r1(2) by (simp add: value_bits_def code_bits_def)
  next
    case False
    then obtain raw r3 where "read_bits (category ?d) r1 = Inr (raw, r3)" "extend_bits raw (category ?d) = ?d"
        "reads_at file m rest r3 (ac @ bs')" using read_value [OF False _ r1(2)] cat by auto
    then show thesis using that [of r3] False sym(3) category_bounds(2) [OF False] by simp
  qed
  obtain r3 where r3: "decode_ac (ac_table p) off 1 ((coefficients p)[off := hd block]) r2 =
      Inr (overlay ((coefficients p)[off := hd block]) (off + 1) (tl block), r3)" "reads_at file m rest r3 bs'"
    using decode_ac_encoded [OF assms(2) e(2) r2(2), of 1 off "(coefficients p)[off := hd block]"] assms(4) by auto
  have dc: "dc_predictor p + ?d = hd block" by simp
  have "decode_block x y p r = Inr (p\<lparr>dc_predictor := hd block,
      coefficients := overlay ((coefficients p)[off := hd block]) (off + 1) (tl block)\<rparr>, r3)"
    using r2(1) r3(1) ok sym(1,2)
    by (simp only: decode_block_def Let_def r1(1) assms(6) [symmetric] and_then.simps split_conv if_False dc)
  then show ?thesis using r3(2) by blast
qed

subsection \<open>A coded plane\<close>

definition block_at :: "int list \<Rightarrow> nat \<Rightarrow> int list" where
  "block_at cs b = take 64 (drop (b * 64) cs)"

definition progress :: "int list \<Rightarrow> nat set \<Rightarrow> int list \<Rightarrow> bool" where
  "progress T D cs \<longleftrightarrow> length cs = length T \<and>
     (\<forall>i<length T. cs ! i = T ! i \<or> cs ! i = 0 \<and> i div 64 \<notin> D)"

lemma progress_block:
  assumes "progress T D cs" "b * 64 + 64 \<le> length T"
  shows "progress T (insert b D)
    (overlay (cs[b * 64 := hd (block_at T b)]) (b * 64 + 1) (tl (block_at T b)))"
proof -
  have len: "length cs = length T" using assms(1) by (simp add: progress_def)
  have hd: "hd (block_at T b) = T ! (b * 64)" using assms(2) by (simp add: block_at_def hd_drop_conv_nth)
  have tl: "tl (block_at T b) ! i = T ! (b * 64 + 1 + i)" "length (tl (block_at T b)) = 63" if "i < 63" for i
    using that assms(2) by (simp_all add: block_at_def nth_tl add.assoc)
  have "overlay (cs[b * 64 := hd (block_at T b)]) (b * 64 + 1) (tl (block_at T b)) ! i =
      (if i = b * 64 \<or> b * 64 < i \<and> i < b * 64 + 64 \<and> T ! i \<noteq> 0 then T ! i else cs ! i)" for i
    using assms(2) len tl(1) [of "i - (b * 64 + 1)"] tl(2) [of 0]
    by (subst nth_overlay) (auto simp: hd nth_list_update less_diff_conv2)
  moreover have "i div 64 = b \<longleftrightarrow> b * 64 \<le> i \<and> i < b * 64 + 64" for i by auto
  ultimately show ?thesis using assms(1) len unfolding progress_def by force
qed

lemma progress_all:
  assumes "progress T D cs" "length T = n * 64" "{..<n} \<subseteq> D"
  shows "cs = T"
proof (rule nth_equalityI)
  fix i assume "i < length cs"
  then have "i < length T" "i div 64 < n" using assms by (auto simp: progress_def)
  then show "cs ! i = T ! i" using assms unfolding progress_def by blast
qed (use assms in \<open>simp add: progress_def\<close>)

text \<open>A plane to be coded, with the tables that its frame uses.\<close>

type_synonym coded_plane = "component_plane \<times> code_spec \<times> code_spec"

definition block_index :: "component_plane \<Rightarrow> nat \<times> nat \<Rightarrow> nat" where
  "block_index p = (\<lambda>(x, y). y * blocks_h p + x)"

abbreviation plane_block :: "component_plane \<Rightarrow> nat \<times> nat \<Rightarrow> int list" where
  "plane_block p b \<equiv> block_at (coefficients p) (block_index p b)"

definition plane_rel :: "nat set \<Rightarrow> component_plane \<Rightarrow> component_plane \<Rightarrow> bool" where
  "plane_rel D tp p \<longleftrightarrow> p = tp\<lparr>dc_predictor := dc_predictor p, coefficients := coefficients p\<rparr> \<and>
     progress (coefficients tp) D (coefficients p)"

definition has_tables :: "coded_plane \<Rightarrow> bool" where
  "has_tables = (\<lambda>(p, dcs, acs). builds dcs (dc_table p) \<and> builds acs (ac_table p))"

lemma plane_rel_fields:
  assumes "plane_rel D tp p"
  shows "blocks_h p = blocks_h tp" "dc_table p = dc_table tp" "ac_table p = ac_table tp"
    "mcu_blocks x y p = mcu_blocks x y tp"
proof -
  have p: "p = tp\<lparr>dc_predictor := dc_predictor p, coefficients := coefficients p\<rparr>"
    using assms by (simp add: plane_rel_def)
  show "blocks_h p = blocks_h tp" "dc_table p = dc_table tp" "ac_table p = ac_table tp"
      "mcu_blocks x y p = mcu_blocks x y tp"
    by (subst p, simp add: mcu_blocks_def)+
qed

lemma decode_blocks_encoded:
  assumes "has_tables (tp, dcs, acs)" "plane_rel D tp p"
    "encode_blocks (dcs, acs) (dc_predictor p) (map (plane_block tp) bl) = Some (bs, pred')"
    "\<forall>b\<in>set bl. block_index tp b * 64 + 64 \<le> length (coefficients tp)"
    "reads_at file m rest r (bs @ bs')"
  shows "\<exists>p' r'. decode_blocks bl p r = Inr (p', r') \<and> plane_rel (D \<union> block_index tp ` set bl) tp p' \<and>
    dc_predictor p' = pred' \<and> reads_at file m rest r' bs'"
  using assms(2-)
proof (induction bl arbitrary: D p r bs)
  case (Cons b bl)
  obtain x y where b: "b = (x, y)" by (cases b)
  let ?i = "block_index tp b" and ?T = "coefficients tp"
  let ?block = "block_at ?T ?i"
  obtain b1 b2 where e: "encode_block dcs acs (dc_predictor p) ?block = Some b1"
      "encode_blocks (dcs, acs) (hd ?block) (map (plane_block tp) bl) = Some (b2, pred')" "bs = b1 @ b2"
    using Cons(3) by (auto simp: Let_def split: Option.bind_splits)
  have len: "length ?block = 64" using Cons(4) by (auto simp: block_at_def)
  define p1 where "p1 = p\<lparr>dc_predictor := hd ?block,
    coefficients := overlay ((coefficients p)[?i * 64 := hd ?block]) (?i * 64 + 1) (tl ?block)\<rparr>"
  obtain r1 where r1: "decode_block x y p r = Inr (p1, r1)" "reads_at file m rest r1 (b2 @ bs')"
    using decode_block_encoded [of dcs p acs ?block b1 "file" m rest r "b2 @ bs'" "?i * 64" y x] e(1,3) len
      assms(1) Cons(2,5) plane_rel_fields [OF Cons(2)]
    by (auto simp: has_tables_def b block_index_def p1_def)
  have p1: "p1 = tp\<lparr>dc_predictor := dc_predictor p1, coefficients := coefficients p1\<rparr>"
    using Cons(2) unfolding plane_rel_def p1_def by (metis (no_types, lifting) component_plane.surjective
        component_plane.update_convs(7,8))
  have "plane_rel (insert ?i D) tp p1"
    using progress_block [of ?T D "coefficients p" ?i] Cons(2,4) p1 by (simp add: plane_rel_def p1_def)
  then show ?case using Cons.IH [of "insert ?i D" p1 b2 r1] e(2) r1 Cons(4) by (simp add: b p1_def)
qed auto

subsection \<open>A coded scan\<close>

lemma bits_of_byte_of_bits:
  assumes "length bs = 8"
  shows "bits_of_byte (of_nat (bits_value bs)) = bs"
proof -
  have b: "bits_value bs < 2 ^ 8" using bits_value_less [of bs] assms by simp
  have "bits_of_byte (of_nat (bits_value bs)) = code_bits 8 (bits_value bs)"
    using bit_unat_word [of "of_nat (bits_value bs) :: u8"] b
    by (simp add: bits_of_byte_def code_bits_def unat_of_nat)
  then show ?thesis using bits_value_code_bits [OF b] assms by (intro bits_value_inject) simp_all
qed

lemma pack_bits_bits: "\<exists>pad. concat (map bits_of_byte (pack_bits bs)) = bs @ pad \<and> length pad < 8"
proof (induction bs rule: pack_bits.induct)
  case (1 bs)
  show ?case
  proof (cases "bs = []")
    case True
    then show ?thesis by (simp add: pack_bits.simps)
  next
    case False
    then have len: "length (take 8 (bs @ replicate 7 True)) = 8" by (cases bs) auto
    obtain pad where pad: "concat (map bits_of_byte (pack_bits (drop 8 bs))) = drop 8 bs @ pad" "length pad < 8"
      using 1 False by blast
    have eq: "concat (map bits_of_byte (pack_bits bs)) = take 8 (bs @ replicate 7 True) @ drop 8 bs @ pad"
      using False pad(1) bits_of_byte_of_bits [OF len] by (subst pack_bits.simps) simp
    show ?thesis
    proof (cases "8 \<le> length bs")
      case True
      then have "take 8 (bs @ replicate 7 True) @ drop 8 bs @ pad = bs @ pad" by simp
      then show ?thesis using eq pad(2) by metis
    next
      case small: False
      then have "pad = []" using pad(1) by (simp add: pack_bits.simps)
      then show ?thesis using eq small False
        by (intro exI [of _ "take (8 - length bs) (replicate 7 True)"]) (cases bs, auto)
    qed
  qed
qed

definition planes_rel :: "(nat \<times> nat) set \<Rightarrow> coded_plane list \<Rightarrow> component_plane list \<Rightarrow> bool" where
  "planes_rel M cps ps \<longleftrightarrow>
     list_all2 (\<lambda>cp. plane_rel (\<Union>(x, y)\<in>M. block_index (fst cp) ` set (mcu_blocks x y (fst cp))) (fst cp)) cps ps"

definition grid_mcu :: "coded_plane list \<Rightarrow> nat \<times> nat \<Rightarrow> int list list list" where
  "grid_mcu cps = (\<lambda>(x, y). map (\<lambda>cp. map (plane_block (fst cp)) (mcu_blocks x y (fst cp))) cps)"

definition in_grid :: "nat \<times> nat \<Rightarrow> coded_plane \<Rightarrow> bool" where
  "in_grid m cp \<longleftrightarrow> has_tables cp \<and>
     (\<forall>b\<in>set (mcu_blocks (fst m) (snd m) (fst cp)).
        block_index (fst cp) b * 64 + 64 \<le> length (coefficients (fst cp)))"

lemma decode_planes_encoded:
  assumes "planes_rel M cps ps" "encode_mcu (map snd cps) (grid_mcu cps (x, y)) (map dc_predictor ps) = Some (bs, preds')"
    "\<forall>cp\<in>set cps. in_grid (x, y) cp" "reads_at file m rest r (bs @ bs')"
  shows "\<exists>ps' r'. decode_planes x y ps r = Inr (ps', r') \<and> planes_rel (insert (x, y) M) cps ps' \<and>
    map dc_predictor ps' = preds' \<and> reads_at file m rest r' bs'"
  using assms
proof (induction cps arbitrary: ps r bs preds')
  case (Cons cp cps)
  obtain tp dcs acs where cp: "cp = (tp, dcs, acs)" by (cases cp)
  obtain p ps0 where ps: "ps = p # ps0" using Cons(2) by (cases ps) (auto simp: planes_rel_def)
  let ?D = "\<Union>(x, y)\<in>M. block_index tp ` set (mcu_blocks x y tp)"
  have rel: "plane_rel ?D tp p" "planes_rel M cps ps0" using Cons(2) by (auto simp: planes_rel_def ps cp)
  obtain b1 pr b2 prs where e: "encode_blocks (dcs, acs) (dc_predictor p) (map (plane_block tp) (mcu_blocks x y tp)) = Some (b1, pr)"
      "encode_mcu (map snd cps) (grid_mcu cps (x, y)) (map dc_predictor ps0) = Some (b2, prs)" "bs = b1 @ b2" "preds' = pr # prs"
    using Cons(3) by (auto simp: ps cp grid_mcu_def split: Option.bind_splits)
  obtain p' r1 where p': "decode_blocks (mcu_blocks x y tp) p r = Inr (p', r1)"
      "plane_rel (?D \<union> block_index tp ` set (mcu_blocks x y tp)) tp p'" "dc_predictor p' = pr"
      "reads_at file m rest r1 (b2 @ bs')"
    using decode_blocks_encoded [OF _ rel(1), of dcs acs "mcu_blocks x y tp" b1 pr "file" m rest r "b2 @ bs'"]
      e(1,3) Cons(4,5) by (auto simp: cp in_grid_def)
  obtain ps' r' where "decode_planes x y ps0 r1 = Inr (ps', r')" "planes_rel (insert (x, y) M) cps ps'"
      "map dc_predictor ps' = prs" "reads_at file m rest r' bs'"
    using Cons.IH [OF rel(2) e(2) _ p'(4)] Cons(4) by auto
  then show ?case using p' e plane_rel_fields(4) [OF rel(1)]
    by (auto simp: ps planes_rel_def cp Un_commute)
qed (auto simp: planes_rel_def)

lemma restart_marker_byte:
  assumes "expected < 8"
  shows "0xD0 + expected \<notin> {0, PREFIX :: u8}" "(expected + 1) AND 7 < (8 :: u8)"
proof -
  have "unat expected < 8" using assms by (simp add: word_less_nat_alt)
  then have "unat (0xD0 + expected) = 0xD0 + unat expected" by (simp add: unat_word_ariths)
  then show "0xD0 + expected \<notin> {0, PREFIX}" using \<open>unat expected < 8\<close> by auto
  have "(expected + 1) AND 7 = take_bit 3 (expected + 1)" by (simp add: take_bit_eq_mask mask_eq_exp_minus_1)
  then show "(expected + 1) AND 7 < 8" by (simp add: take_bit_eq_mod word_mod_less_divisor)
qed

lemma encode_mcus_closing_marker:
  assumes "encode_mcus ri trailer specs ms preds since expected = Some (bs, t)" "expected < 8"
  shows "\<exists>m rest. t = PREFIX # m # rest \<and> m \<notin> {0, PREFIX}"
  using assms
proof (induction ms arbitrary: preds since bs)
  case (Cons m ms)
  show ?case using Cons restart_marker_byte(1) [OF Cons(3)]
    by (auto split: Option.bind_splits if_splits)
qed auto

lemma planes_rel_restart:
  assumes "planes_rel M cps ps"
  shows "planes_rel M cps (map (\<lambda>p. p\<lparr>dc_predictor := 0\<rparr>) ps)"
proof -
  have "plane_rel D tp (p\<lparr>dc_predictor := 0\<rparr>)" if "plane_rel D tp p" for D tp p
  proof -
    have "p\<lparr>dc_predictor := 0\<rparr> = (tp\<lparr>dc_predictor := dc_predictor p, coefficients := coefficients p\<rparr>)\<lparr>dc_predictor := 0\<rparr>"
      using that unfolding plane_rel_def by metis
    then show ?thesis using that by (simp add: plane_rel_def)
  qed
  then show ?thesis using assms unfolding planes_rel_def list_all2_conv_all_nth by auto
qed

lemma handle_restart_encoded:
  assumes "reads_at file m rest r pad" "length pad < 8" "m = 0xD0 + expected" "expected < 8"
    and rest: "rest = stuff (pack_bits bs) @ PREFIX # m' # rest'" and m': "m' \<noteq> 0"
  shows "\<exists>r' pad'. handle_restart r ps expected =
      Inr (r', map (\<lambda>p. p\<lparr>dc_predictor := 0\<rparr>) ps, (expected + 1) AND 7) \<and>
    reads_at file m' rest' r' (bs @ pad') \<and> length pad' < 8"
proof -
  obtain r' where r': "read_marker (reset_to_byte_boundary r) = Inr (m, r')" "br_bytes r' = file"
      "drop (cursor r') file = rest" "bits_in_buffer r' = 0" "pending_marker r' = None"
    using read_marker_after_segment [of "file" m rest r] restart_marker_byte(1) [OF assms(4)] assms(1-3)
    by (auto simp: reads_at_def)
  obtain pad' where pad': "concat (map bits_of_byte (pack_bits bs)) = bs @ pad'" "length pad' < 8"
    using pack_bits_bits by blast
  have "reads_at file m' rest' r' (bs @ pad')"
    using r' m' rest destuff_stuff [OF m', of "pack_bits bs" rest'] pad'(1)
    by (auto simp: reads_at_def reader_ok_def in_segment_def at_segment_def reader_bits_def buf_bits_def)
  then show ?thesis using r' pad' assms(3) by (auto simp: handle_restart_def)
qed

lemma decode_mcus_encoded:
  assumes "encode_mcus ri trailer (map snd cps) (map (grid_mcu cps) ms) (map dc_predictor ps) since expected = Some (bs, PREFIX # m # rest)"
    "expected < 8" "reads_at file m rest r (bs @ pad)" "length pad < 8" "planes_rel M cps ps"
    "\<forall>q\<in>set ms. \<forall>cp\<in>set cps. in_grid q cp"
  shows "\<exists>ps'. decode_mcus ri ms r ps since expected = Inr ps' \<and> planes_rel (M \<union> set ms) cps ps'"
  using assms
proof (induction ms arbitrary: ps since expected bs m rest r pad M)
  case (Cons q ms)
  obtain x y where q: "q = (x, y)" by (cases q)
  have grid: "\<forall>cp\<in>set cps. in_grid (x, y) cp" "\<forall>q\<in>set ms. \<forall>cp\<in>set cps. in_grid q cp"
    using Cons(7) by (auto simp: q)
  show ?case
  proof (cases "0 < ri \<and> since = ri")
    case False
    then obtain b1 preds' b2 where e: "encode_mcu (map snd cps) (grid_mcu cps (x, y)) (map dc_predictor ps) = Some (b1, preds')"
        "encode_mcus ri trailer (map snd cps) (map (grid_mcu cps) ms) preds' (since + 1) expected = Some (b2, PREFIX # m # rest)" "bs = b1 @ b2"
      using Cons(2) by (auto simp: q split: Option.bind_splits if_splits)
    obtain ps' r' where p: "decode_planes x y ps r = Inr (ps', r')" "planes_rel (insert (x, y) M) cps ps'"
        "map dc_predictor ps' = preds'" "reads_at file m rest r' (b2 @ pad)"
      using decode_planes_encoded [OF Cons(6) e(1) grid(1), of "file" m rest r "b2 @ pad"] Cons(4) e(3) by auto
    then show ?thesis using Cons.IH [of ps' "since + 1" expected b2 m rest r' pad "insert (x, y) M"] e(2) Cons(3,5) grid(2) False
      by (auto simp: q)
  next
    case True
    let ?ps = "map (\<lambda>p. p\<lparr>dc_predictor := 0\<rparr>) ps"
    obtain b1 preds' b2 t where e: "encode_mcu (map snd cps) (grid_mcu cps (x, y)) (map dc_predictor ?ps) = Some (b1, preds')"
        "encode_mcus ri trailer (map snd cps) (map (grid_mcu cps) ms) preds' 1 ((expected + 1) AND 7) = Some (b2, t)" "bs = []"
        "m = 0xD0 + expected" "rest = stuff (pack_bits (b1 @ b2)) @ t"
      using Cons(2) True by (auto simp: q comp_def split: Option.bind_splits)
    obtain m' rest' where t: "t = PREFIX # m' # rest'" "m' \<noteq> 0"
      using encode_mcus_closing_marker [OF e(2) restart_marker_byte(2) [OF Cons(3)]] by auto
    obtain r1 pad' where r1: "handle_restart r ps expected = Inr (r1, ?ps, (expected + 1) AND 7)"
        "reads_at file m' rest' r1 (b1 @ b2 @ pad')" "length pad' < 8"
      using handle_restart_encoded [of "file" m rest r pad expected "b1 @ b2" m' rest' ps] Cons(3,4,5) e(3,4,5) t by auto
    obtain ps' r' where p: "decode_planes x y ?ps r1 = Inr (ps', r')" "planes_rel (insert (x, y) M) cps ps'"
        "map dc_predictor ps' = preds'" "reads_at file m' rest' r' (b2 @ pad')"
      using decode_planes_encoded [OF planes_rel_restart [OF Cons(6)] e(1) grid(1) r1(2)] by auto
    then show ?thesis
      using Cons.IH [of ps' 1 "(expected + 1) AND 7" b2 m' rest' r' pad' "insert (x, y) M"] e(2) t(1) r1
        restart_marker_byte(2) [OF Cons(3)] grid(2) True
      by (auto simp: q)
  qed
qed auto

subsection \<open>The whole scan\<close>

definition blank_plane :: "component_plane \<Rightarrow> component_plane" where
  "blank_plane p = p\<lparr>dc_predictor := 0, coefficients := replicate (length (coefficients p)) 0\<rparr>"

lemma planes_for_sizes:
  assumes "planes_for frame huffman mcus_h mcus_v scs = Inr ps" "p \<in> set ps"
  shows "blocks_h p = mcus_h * unat (cp_h_sampling p)" "blocks_v p = mcus_v * unat (cp_v_sampling p)"
    "length (coefficients p) = blocks_h p * blocks_v p * 64"
  using assms
  by (induction scs arbitrary: ps) (auto simp: plane_for_def Let_def and_then_Inr_iff)

lemma mcu_blocks_mem:
  "(bx, bz) \<in> set (mcu_blocks x y p) \<longleftrightarrow>
     (\<exists>vx vz. vx < unat (cp_h_sampling p) \<and> vz < unat (cp_v_sampling p) \<and>
        bx = x * unat (cp_h_sampling p) + vx \<and> bz = y * unat (cp_v_sampling p) + vz)"
  unfolding mcu_blocks_def by (fastforce simp: image_iff)

lemma mcu_blocks_range:
  assumes "x < mcus_h" "y < mcus_v" "b \<in> set (mcu_blocks x y p)"
    "blocks_h p = mcus_h * unat (cp_h_sampling p)" "blocks_v p = mcus_v * unat (cp_v_sampling p)"
  shows "block_index p b < blocks_h p * blocks_v p"
proof -
  have lt: "a * h + v < n * h" if "a < n" "v < h" for a h v n :: nat
  proof -
    have "a * h + v < (a + 1) * h" using that by simp
    also have "\<dots> \<le> n * h" using that by (intro mult_right_mono) auto
    finally show ?thesis .
  qed
  obtain bx byy where b: "b = (bx, byy)" "bx < blocks_h p" "byy < blocks_v p"
    using assms lt by (auto simp: mcu_blocks_def)
  then show ?thesis using lt [of byy "blocks_v p" bx "blocks_h p"] by (simp add: block_index_def mult.commute)
qed

lemma mcu_blocks_cover:
  assumes "i < blocks_h p * blocks_v p"
    "blocks_h p = mcus_h * unat (cp_h_sampling p)" "blocks_v p = mcus_v * unat (cp_v_sampling p)"
  shows "\<exists>x<mcus_h. \<exists>y<mcus_v. i \<in> block_index p ` set (mcu_blocks x y p)"
proof -
  let ?h = "unat (cp_h_sampling p)" and ?v = "unat (cp_v_sampling p)"
  let ?bx = "i mod blocks_h p" and ?by = "i div blocks_h p"
  have pos: "0 < blocks_h p" using assms(1) by (cases "blocks_h p") auto
  have bx: "?bx < mcus_h * ?h" and by': "?by < mcus_v * ?v"
    using pos assms by (simp_all add: div_less_iff_less_mult mult.commute)
  then have "0 < ?h" "0 < ?v" by (cases ?h, auto) (cases ?v, auto)
  then have "(?bx, ?by) \<in> set (mcu_blocks (?bx div ?h) (?by div ?v) p)"
    unfolding mcu_blocks_mem by (intro exI [of _ "?bx mod ?h"] exI [of _ "?by mod ?v"]) simp
  moreover have "block_index p (?bx, ?by) = i" by (simp add: block_index_def)
  moreover have "?bx div ?h < mcus_h" "?by div ?v < mcus_v"
    using bx by' \<open>0 < ?h\<close> \<open>0 < ?v\<close> by (simp_all add: div_less_iff_less_mult)
  ultimately show ?thesis by (metis image_eqI)
qed

lemma blank_plane_fields [simp]:
  "blocks_h (blank_plane p) = blocks_h p" "blocks_v (blank_plane p) = blocks_v p"
  "cp_h_sampling (blank_plane p) = cp_h_sampling p" "cp_v_sampling (blank_plane p) = cp_v_sampling p"
  "length (coefficients (blank_plane p)) = length (coefficients p)" "dc_predictor (blank_plane p) = 0"
  by (simp_all add: blank_plane_def)

lemma blank_plane_rel: "plane_rel {} p (blank_plane p)"
  by (simp add: plane_rel_def progress_def blank_plane_def)

lemma plane_rel_complete:
  assumes "plane_rel D tp p" "length (coefficients tp) = n * 64" "{..<n} \<subseteq> D"
  shows "component_scan_of p = component_scan_of tp"
proof -
  have "coefficients p = coefficients tp" using assms progress_all by (auto simp: plane_rel_def)
  then have "p = tp\<lparr>dc_predictor := dc_predictor p, coefficients := coefficients tp\<rparr>"
    using assms(1) by (simp add: plane_rel_def)
  then show ?thesis by (metis (no_types, lifting) component_scan_of_def component_plane.select_convs(1-7)
        component_plane.surjective component_plane.update_convs(7,8))
qed

lemma planes_rel_complete:
  assumes "planes_rel (set (mcu_grid mcus_h mcus_v)) cps ps"
    and sizes: "\<forall>cp\<in>set cps. blocks_h (fst cp) = mcus_h * unat (cp_h_sampling (fst cp)) \<and>
      blocks_v (fst cp) = mcus_v * unat (cp_v_sampling (fst cp)) \<and>
      length (coefficients (fst cp)) = blocks_h (fst cp) * blocks_v (fst cp) * 64"
  shows "map component_scan_of ps = map (component_scan_of \<circ> fst) cps"
proof (rule nth_equalityI)
  show "length (map component_scan_of ps) = length (map (component_scan_of \<circ> fst) cps)"
    using assms(1) by (simp add: planes_rel_def list_all2_lengthD)
  fix i assume "i < length (map component_scan_of ps)"
  then have i: "i < length cps" "i < length ps" using assms(1) by (simp_all add: planes_rel_def list_all2_lengthD)
  let ?p = "fst (cps ! i)"
  let ?D = "\<Union>(x, y)\<in>set (mcu_grid mcus_h mcus_v). block_index ?p ` set (mcu_blocks x y ?p)"
  have rel: "plane_rel ?D ?p (ps ! i)" using assms(1) i unfolding planes_rel_def by (auto dest: list_all2_nthD)
  have size: "blocks_h ?p = mcus_h * unat (cp_h_sampling ?p)" "blocks_v ?p = mcus_v * unat (cp_v_sampling ?p)"
      "length (coefficients ?p) = blocks_h ?p * blocks_v ?p * 64" using sizes i by simp_all
  have "{..<blocks_h ?p * blocks_v ?p} \<subseteq> ?D"
    using mcu_blocks_cover [OF _ size(1,2)] by (fastforce simp: mcu_grid_def)
  then show "map component_scan_of ps ! i = map (component_scan_of \<circ> fst) cps ! i"
    using plane_rel_complete [OF rel size(3)] i by simp
qed

lemma in_grid_of_sizes:
  assumes "has_tables cp" "x < mcus_h" "y < mcus_v"
    "blocks_h (fst cp) = mcus_h * unat (cp_h_sampling (fst cp))"
    "blocks_v (fst cp) = mcus_v * unat (cp_v_sampling (fst cp))"
    "length (coefficients (fst cp)) = blocks_h (fst cp) * blocks_v (fst cp) * 64"
  shows "in_grid (x, y) cp"
proof -
  have "block_index (fst cp) b * 64 + 64 \<le> length (coefficients (fst cp))"
    if "b \<in> set (mcu_blocks x y (fst cp))" for b
  proof -
    have "block_index (fst cp) b + 1 \<le> blocks_h (fst cp) * blocks_v (fst cp)"
      using mcu_blocks_range [OF assms(2,3) that assms(4,5)] by simp
    then have "(block_index (fst cp) b + 1) * 64 \<le> blocks_h (fst cp) * blocks_v (fst cp) * 64"
      by (rule mult_right_mono) simp
    then show ?thesis using assms(6) by simp
  qed
  then show ?thesis using assms(1) by (simp add: in_grid_def)
qed

lemma decode_entropy_encoded:
  assumes "mcus_h = div_ceil (unat (fh_width frame)) (8 * unat (fh_max_h_sampling frame))"
    and "mcus_v = div_ceil (unat (fh_height frame)) (8 * unat (fh_max_v_sampling frame))"
    and planes: "planes_for frame huffman mcus_h mcus_v (sh_components scan) = Inr (map (blank_plane \<circ> fst) cps)"
    and tables: "\<forall>cp\<in>set cps. has_tables cp"
    and coded: "encode_scan (unat restart_interval) trailer (map snd cps) (map (grid_mcu cps) (mcu_grid mcus_h mcus_v)) = Some entropy_data"
  shows "decode_entropy frame scan huffman restart_interval entropy_data =
    Inr (map (component_scan_of \<circ> fst) cps)"
proof -
  let ?ps = "map (blank_plane \<circ> fst) cps" and ?ms = "mcu_grid mcus_h mcus_v"
  have sizes: "\<forall>cp\<in>set cps. blocks_h (fst cp) = mcus_h * unat (cp_h_sampling (fst cp)) \<and>
      blocks_v (fst cp) = mcus_v * unat (cp_v_sampling (fst cp)) \<and>
      length (coefficients (fst cp)) = blocks_h (fst cp) * blocks_v (fst cp) * 64"
  proof
    fix cp assume "cp \<in> set cps"
    then have "blank_plane (fst cp) \<in> set ?ps" by force
    from planes_for_sizes [OF planes this] show "blocks_h (fst cp) = mcus_h * unat (cp_h_sampling (fst cp)) \<and>
        blocks_v (fst cp) = mcus_v * unat (cp_v_sampling (fst cp)) \<and>
        length (coefficients (fst cp)) = blocks_h (fst cp) * blocks_v (fst cp) * 64" by simp
  qed
  have grid: "\<forall>q\<in>set ?ms. \<forall>cp\<in>set cps. in_grid q cp"
    using tables sizes in_grid_of_sizes by (auto simp: mcu_grid_def)
  obtain bs t where e: "encode_mcus (unat restart_interval) trailer (map snd cps) (map (grid_mcu cps) ?ms) (map dc_predictor ?ps) 0 0 = Some (bs, t)"
      "entropy_data = stuff (pack_bits bs) @ t"
    using coded by (auto simp: encode_scan_def comp_def)
  obtain m rest where t: "t = PREFIX # m # rest" "m \<noteq> 0"
    using encode_mcus_closing_marker [OF e(1)] by auto
  obtain pad where pad: "concat (map bits_of_byte (pack_bits bs)) = bs @ pad" "length pad < 8"
    using pack_bits_bits by blast
  have "reads_at entropy_data m rest (bit_reader_new entropy_data) (bs @ pad)"
    using new_reader_at_segment [OF t(2)] e(2) t pad(1) destuff_stuff [OF t(2)] by (simp add: reads_at_def)
  moreover have "planes_rel {} cps ?ps"
    by (simp add: planes_rel_def list_all2_conv_all_nth blank_plane_rel)
  ultimately obtain ps' where "decode_mcus (unat restart_interval) ?ms (bit_reader_new entropy_data) ?ps 0 0 = Inr ps'"
      "planes_rel (set ?ms) cps ps'"
    using decode_mcus_encoded [OF e(1) [unfolded t(1)] _ _ pad(2) _ grid,
        of entropy_data "bit_reader_new entropy_data" "{}"] by auto
  then show ?thesis using planes planes_rel_complete [OF _ sizes] assms(1,2)
    by (simp add: decode_entropy_def Let_def)
qed

subsection \<open>The layout of T.81 Annex A\<close>

text \<open>
  Which data units a scan codes, and in which order, by the numbers of A.1.1 and A.2 of the standard
  and apart from the loops of the decoder. A component is its entry in the frame, its two code
  tables and its coefficients, in 64s per data unit, line by line over whole MCUs. MCUs are numbered
  left to right and top to bottom. In a scan of several components, MCU \<open>m\<close> holds \<open>H * V\<close> units of
  each, again left to right and top to bottom within it; in a scan of one component an MCU is one
  unit, and the lines are only as long as the component itself.
\<close>

record coded_component =
  cc_component :: frame_component
  cc_dc_spec :: code_spec
  cc_ac_spec :: code_spec
  cc_coefficients :: "int list"

abbreviation cc_h :: "coded_component \<Rightarrow> nat" where
  "cc_h cc \<equiv> unat (fc_h_sampling (cc_component cc))"
abbreviation cc_v :: "coded_component \<Rightarrow> nat" where
  "cc_v cc \<equiv> unat (fc_v_sampling (cc_component cc))"

definition whole_units :: "nat \<Rightarrow> nat \<Rightarrow> nat" where
  "whole_units n d = n div d + (if n mod d = 0 then 0 else 1)"

definition greatest_h :: "jpeg_frame_header \<Rightarrow> nat" where
  "greatest_h frame = Max ((\<lambda>c. unat (fc_h_sampling c)) ` set (fh_components frame))"

definition greatest_v :: "jpeg_frame_header \<Rightarrow> nat" where
  "greatest_v frame = Max ((\<lambda>c. unat (fc_v_sampling c)) ` set (fh_components frame))"

definition interleaved_across :: "jpeg_frame_header \<Rightarrow> nat" where
  "interleaved_across frame = whole_units (unat (fh_width frame)) (8 * greatest_h frame)"

definition interleaved_down :: "jpeg_frame_header \<Rightarrow> nat" where
  "interleaved_down frame = whole_units (unat (fh_height frame)) (8 * greatest_v frame)"

definition units_across :: "jpeg_frame_header \<Rightarrow> coded_component \<Rightarrow> nat" where
  "units_across frame cc = whole_units (whole_units (unat (fh_width frame) * cc_h cc) (greatest_h frame)) 8"

definition units_down :: "jpeg_frame_header \<Rightarrow> coded_component \<Rightarrow> nat" where
  "units_down frame cc = whole_units (whole_units (unat (fh_height frame) * cc_v cc) (greatest_v frame)) 8"

definition data_unit :: "jpeg_frame_header \<Rightarrow> coded_component \<Rightarrow> nat \<Rightarrow> nat \<Rightarrow> int list" where
  "data_unit frame cc column line =
     take 64 (drop (64 * (line * (interleaved_across frame * cc_h cc) + column)) (cc_coefficients cc))"

definition interleaved_units :: "jpeg_frame_header \<Rightarrow> nat \<Rightarrow> coded_component \<Rightarrow> int list list" where
  "interleaved_units frame m cc =
     map (\<lambda>k. data_unit frame cc (m mod interleaved_across frame * cc_h cc + k mod cc_h cc)
                                 (m div interleaved_across frame * cc_v cc + k div cc_h cc))
       [0..<cc_h cc * cc_v cc]"

definition standard_mcus :: "jpeg_frame_header \<Rightarrow> coded_component list \<Rightarrow> int list list list list" where
  "standard_mcus frame ccs =
     (case ccs of
        [cc] \<Rightarrow> map (\<lambda>m. [[data_unit frame cc (m mod units_across frame cc) (m div units_across frame cc)]])
                  [0..<units_across frame cc * units_down frame cc]
      | _ \<Rightarrow> map (\<lambda>m. map (interleaved_units frame m) ccs) [0..<interleaved_across frame * interleaved_down frame])"

definition standard_scan ::
    "jpeg_frame_header \<Rightarrow> nat \<Rightarrow> bytes \<Rightarrow> coded_component list \<Rightarrow> bytes option" where
  "standard_scan frame restart_interval trailer ccs =
     encode_scan restart_interval trailer (map (\<lambda>cc. (cc_dc_spec cc, cc_ac_spec cc)) ccs) (standard_mcus frame ccs)"

text \<open>What the decoder is to return for a component.\<close>

definition decoded_component :: "jpeg_frame_header \<Rightarrow> coded_component \<Rightarrow> component_scan" where
  "decoded_component frame cc =
     \<lparr>cs_component_id = fc_id (cc_component cc), cs_h_sampling = fc_h_sampling (cc_component cc),
      cs_v_sampling = fc_v_sampling (cc_component cc), cs_quant_table_id = fc_quant_table_id (cc_component cc),
      cs_blocks_horizontal = interleaved_across frame * cc_h cc,
      cs_blocks_vertical = interleaved_down frame * cc_v cc, cs_coefficients = cc_coefficients cc\<rparr>"

text \<open>A frame with the greatest factors of its components, and a component the scan codes with the
  tables in its slots.\<close>

definition sampling_ok :: "jpeg_frame_header \<Rightarrow> bool" where
  "sampling_ok frame \<longleftrightarrow> distinct (map fc_id (fh_components frame)) \<and>
     (\<forall>c\<in>set (fh_components frame). 0 < fc_h_sampling c \<and> 0 < fc_v_sampling c) \<and>
     fh_max_h_sampling frame = Max (fc_h_sampling ` set (fh_components frame)) \<and>
     fh_max_v_sampling frame = Max (fc_v_sampling ` set (fh_components frame))"

definition of_the_frame :: "jpeg_frame_header \<Rightarrow> scan_component \<Rightarrow> coded_component \<Rightarrow> bool" where
  "of_the_frame frame sc cc \<longleftrightarrow>
     cc_component cc \<in> set (fh_components frame) \<and> fc_id (cc_component cc) = sc_component_id sc \<and>
     length (cc_coefficients cc) = 64 * (interleaved_across frame * cc_h cc) * (interleaved_down frame * cc_v cc)"

definition in_its_slots :: "huffman_tables \<Rightarrow> scan_component \<Rightarrow> coded_component \<Rightarrow> bool" where
  "in_its_slots huffman sc cc \<longleftrightarrow>
     (\<exists>t. hts_dc huffman ! unat (sc_dc_table_id sc) = Some t \<and> builds (cc_dc_spec cc) t) \<and>
     (\<exists>t. hts_ac huffman ! unat (sc_ac_table_id sc) = Some t \<and> builds (cc_ac_spec cc) t)"

lemma whole_units_eq_div_ceil: "0 < d \<Longrightarrow> whole_units n d = div_ceil n d"
proof -
  assume d: "0 < d"
  obtain q m where q: "n = q * d + m" "m < d" using d by (metis div_mult_mod_eq mod_less_divisor)
  then have "(n + d - 1) div d = q + (if m = 0 then 0 else 1)"
    by (intro div_nat_eqI) (auto simp: algebra_simps)
  then show ?thesis using q by (simp add: whole_units_def div_ceil_def)
qed

lemma whole_units_twice: "0 < d \<Longrightarrow> 0 < e \<Longrightarrow> whole_units (whole_units n d) e = whole_units n (e * d)"
proof -
  assume de: "0 < d" "0 < e"
  have ceil: "whole_units n d \<le> q \<longleftrightarrow> n \<le> q * d" if "0 < d" for n d q :: nat
  proof -
    have "whole_units n d \<le> q \<longleftrightarrow> n + d - 1 < (q + 1) * d"
      using that by (simp add: whole_units_eq_div_ceil div_ceil_def div_less_iff_less_mult flip: less_Suc_eq_le)
    then show ?thesis using that by auto
  qed
  have "whole_units (whole_units n d) e \<le> q \<longleftrightarrow> whole_units n (e * d) \<le> q" for q
    using de by (simp add: ceil ac_simps)
  then show ?thesis by (meson le_antisym order_refl)
qed

lemma raster_order:
  "concat (map (\<lambda>y. map (\<lambda>x. f x y) [0..<w]) [0..<h]) = map (\<lambda>k. f (k mod w) (k div w)) [0..<w * h]"
proof (induction h)
  case (Suc h)
  have "[0..<w * Suc h] = [0..<w * h] @ map (\<lambda>x. x + w * h) [0..<w]"
    using upt_add_eq_append [of 0 "w * h" w] by (simp add: map_add_upt add.commute)
  moreover have "map (\<lambda>k. f (k mod w) (k div w)) (map (\<lambda>x. x + w * h) [0..<w]) = map (\<lambda>x. f x h) [0..<w]"
    by (cases "w = 0") auto
  ultimately show ?case using Suc by simp
qed simp

lemma mcu_grid_raster: "mcu_grid w h = map (\<lambda>m. (m mod w, m div w)) [0..<w * h]"
  unfolding mcu_grid_def by (rule raster_order)

lemma mcu_blocks_raster:
  "mcu_blocks x y p = map (\<lambda>k. (x * unat (cp_h_sampling p) + k mod unat (cp_h_sampling p),
       y * unat (cp_v_sampling p) + k div unat (cp_h_sampling p))) [0..<unat (cp_h_sampling p) * unat (cp_v_sampling p)]"
  unfolding mcu_blocks_def by (rule raster_order)

text \<open>The planes the decoder is working towards.\<close>

definition plane_of :: "jpeg_frame_header \<Rightarrow> huffman_tables \<Rightarrow> scan_component \<times> coded_component \<Rightarrow> coded_plane" where
  "plane_of frame huffman = (\<lambda>(sc, cc).
     (\<lparr>cp_component_id = fc_id (cc_component cc), cp_h_sampling = fc_h_sampling (cc_component cc),
       cp_v_sampling = fc_v_sampling (cc_component cc), cp_quant_table_id = fc_quant_table_id (cc_component cc),
       blocks_h = interleaved_across frame * cc_h cc, blocks_v = interleaved_down frame * cc_v cc,
       coefficients = cc_coefficients cc, dc_predictor = 0,
       dc_table = the (hts_dc huffman ! unat (sc_dc_table_id sc)),
       ac_table = the (hts_ac huffman ! unat (sc_ac_table_id sc))\<rparr>, cc_dc_spec cc, cc_ac_spec cc))"

lemma max_factors:
  assumes "sampling_ok frame" "fh_components frame \<noteq> []"
  shows "unat (fh_max_h_sampling frame) = greatest_h frame" "unat (fh_max_v_sampling frame) = greatest_v frame"
    "0 < greatest_h frame" "0 < greatest_v frame"
proof -
  have mono: "mono (unat :: u8 \<Rightarrow> nat)" by (rule monoI) (simp add: word_le_nat_alt)
  have fin: "finite (set (fh_components frame))" "set (fh_components frame) \<noteq> {}" using assms(2) by simp_all
  show eq: "unat (fh_max_h_sampling frame) = greatest_h frame" "unat (fh_max_v_sampling frame) = greatest_v frame"
    using assms(1) fin by (simp_all add: sampling_ok_def greatest_h_def greatest_v_def mono_Max_commute [OF mono] image_image)
  have "fh_max_h_sampling frame \<noteq> 0" "fh_max_v_sampling frame \<noteq> 0"
    using assms(1) fin Max_in [of "fc_h_sampling ` set (fh_components frame)"] Max_in [of "fc_v_sampling ` set (fh_components frame)"]
    by (fastforce simp: sampling_ok_def)+
  then show "0 < greatest_h frame" "0 < greatest_v frame" unfolding eq [symmetric] by (simp_all add: unat_gt_0)
qed

lemma find_by_id:
  "distinct (map fc_id cs) \<Longrightarrow> c \<in> set cs \<Longrightarrow> find (\<lambda>d. fc_id d = fc_id c) cs = Some c"
  by (induction cs) (auto simp: image_iff)

lemma planes_for_reference:
  assumes "sampling_ok frame" "list_all2 (\<lambda>sc cc. of_the_frame frame sc cc \<and> in_its_slots huffman sc cc) scs ccs"
  shows "planes_for frame huffman (interleaved_across frame) (interleaved_down frame) scs =
    Inr (map (blank_plane \<circ> fst) (map (plane_of frame huffman) (zip scs ccs)))"
  using assms(2)
proof (induction scs ccs rule: list_all2_induct)
  case (Cons sc scs cc ccs)
  have "find (\<lambda>c. fc_id c = sc_component_id sc) (fh_components frame) = Some (cc_component cc)"
    using Cons(1) assms(1) find_by_id [of "fh_components frame" "cc_component cc"]
    by (auto simp: of_the_frame_def sampling_ok_def)
  moreover obtain dct act where "hts_dc huffman ! unat (sc_dc_table_id sc) = Some dct"
      "hts_ac huffman ! unat (sc_ac_table_id sc) = Some act" using Cons(1) by (auto simp: in_its_slots_def)
  ultimately show ?case using Cons
    by (simp add: plane_for_def Let_def plane_of_def blank_plane_def of_the_frame_def ac_simps)
qed simp

lemma grid_mcu_interleaved:
  assumes "list_all2 R scs ccs"
  shows "grid_mcu (map (plane_of frame huffman) (zip scs ccs)) (m mod interleaved_across frame, m div interleaved_across frame) =
    map (interleaved_units frame m) ccs"
proof -
  have "map (plane_block (fst (plane_of frame huffman q)))
      (mcu_blocks (m mod interleaved_across frame) (m div interleaved_across frame) (fst (plane_of frame huffman q))) =
      interleaved_units frame m (snd q)" for q
    by (cases q) (simp add: plane_of_def mcu_blocks_raster interleaved_units_def data_unit_def block_at_def block_index_def
        comp_def ac_simps)
  then have "grid_mcu (map (plane_of frame huffman) (zip scs ccs)) (m mod interleaved_across frame, m div interleaved_across frame) =
      map (interleaved_units frame m) (map snd (zip scs ccs))"
    by (simp add: grid_mcu_def comp_def)
  then show ?thesis using assms by (simp add: list_all2_lengthD)
qed

lemma standard_mcus_on_the_grid:
  assumes ok: "sampling_ok frame" "fh_components frame \<noteq> []"
    and scs: "list_all2 R scs ccs" and single: "\<forall>cc. ccs = [cc] \<longrightarrow> cc_h cc = 1 \<and> cc_v cc = 1"
  shows "standard_mcus frame ccs =
    map (grid_mcu (map (plane_of frame huffman) (zip scs ccs))) (mcu_grid (interleaved_across frame) (interleaved_down frame))"
proof -
  have "map (grid_mcu (map (plane_of frame huffman) (zip scs ccs))) (mcu_grid (interleaved_across frame) (interleaved_down frame)) =
      map (\<lambda>m. map (interleaved_units frame m) ccs) [0..<interleaved_across frame * interleaved_down frame]"
    by (simp add: mcu_grid_raster grid_mcu_interleaved [OF scs] comp_def)
  moreover have "standard_mcus frame [cc] = map (\<lambda>m. [interleaved_units frame m cc]) [0..<interleaved_across frame * interleaved_down frame]"
    if "ccs = [cc]" for cc
  proof -
    have one: "cc_h cc = 1" "cc_v cc = 1" using single that by simp_all
    then have "units_across frame cc = interleaved_across frame" "units_down frame cc = interleaved_down frame"
      using max_factors(3,4) [OF ok]
      by (simp_all add: units_across_def units_down_def interleaved_across_def interleaved_down_def whole_units_twice)
    then show ?thesis using one by (simp add: standard_mcus_def interleaved_units_def)
  qed
  ultimately show ?thesis by (cases ccs rule: remdups_adj.cases) (auto simp: standard_mcus_def)
qed

lemma decode_entropy_standard:
  assumes ok: "sampling_ok frame" "fh_components frame \<noteq> []"
    and scan: "list_all2 (of_the_frame frame) (sh_components scan) ccs"
    and slots: "list_all2 (in_its_slots huffman) (sh_components scan) ccs"
    and single: "\<forall>cc. ccs = [cc] \<longrightarrow> cc_h cc = 1 \<and> cc_v cc = 1"
    and coded: "standard_scan frame (unat restart_interval) trailer ccs = Some entropy_data"
  shows "decode_entropy frame scan huffman restart_interval entropy_data = Inr (map (decoded_component frame) ccs)"
proof -
  let ?cps = "map (plane_of frame huffman) (zip (sh_components scan) ccs)"
  have both: "list_all2 (\<lambda>sc cc. of_the_frame frame sc cc \<and> in_its_slots huffman sc cc) (sh_components scan) ccs"
    using scan slots by (simp add: list_all2_conv_all_nth)
  have ccs: "map snd (zip (sh_components scan) ccs) = ccs" using scan by (simp add: list_all2_lengthD)
  have across: "interleaved_across frame = div_ceil (unat (fh_width frame)) (8 * unat (fh_max_h_sampling frame))"
      "interleaved_down frame = div_ceil (unat (fh_height frame)) (8 * unat (fh_max_v_sampling frame))"
    using max_factors [OF ok] by (simp_all add: interleaved_across_def interleaved_down_def whole_units_eq_div_ceil)
  have "has_tables (plane_of frame huffman (sc, cc))" if "(sc, cc) \<in> set (zip (sh_components scan) ccs)" for sc cc
    using slots that by (auto simp: has_tables_def plane_of_def in_its_slots_def list_all2_iff)
  then have tables: "\<forall>cp\<in>set ?cps. has_tables cp" by auto
  have specs: "map snd ?cps = map (\<lambda>cc. (cc_dc_spec cc, cc_ac_spec cc)) ccs"
    by (subst (2) ccs [symmetric]) (simp add: plane_of_def split_def)
  have results: "map (component_scan_of \<circ> fst) ?cps = map (decoded_component frame) ccs"
    by (subst (2) ccs [symmetric]) (simp add: plane_of_def split_def component_scan_of_def decoded_component_def)
  have "encode_scan (unat restart_interval) trailer (map snd ?cps)
      (map (grid_mcu ?cps) (mcu_grid (interleaved_across frame) (interleaved_down frame))) = Some entropy_data"
    using coded unfolding standard_scan_def specs standard_mcus_on_the_grid [OF ok scan single, of huffman] .
  from decode_entropy_encoded [OF across planes_for_reference [OF ok(1) both] tables this]
  show ?thesis unfolding results .
qed

subsection \<open>Properties\<close>

text \<open>C20: decoding a baseline scan inverts the encoding of T.81. Take any coefficients for the components
  of the scan, lay their data units out by Annex A and code them with the tables in their slots (DC
  differences and AC runs in the canonical Huffman codes, magnitudes behind them, each segment
  padded, stuffed and closed by the next restart marker in turn, or by the end of the image, with
  anything behind it): the decoder returns exactly those components, in scan order, for every
  sampling of an interleaved scan and every restart interval. A scan of one component is covered
  when its factors are 1x1; for other factors the standard codes it line by line, which this decoder
  does not follow.\<close>

theorem scan_roundtrip:
  assumes "sampling_ok frame" "fh_components frame \<noteq> []"
    and "list_all2 (of_the_frame frame) (sh_components scan) ccs"
    and "list_all2 (in_its_slots huffman) (sh_components scan) ccs"
    and "\<forall>cc. ccs = [cc] \<longrightarrow> cc_h cc = 1 \<and> cc_v cc = 1"
    and "standard_scan frame (unat restart_interval) trailer ccs = Some entropy_data"
  shows "decode_entropy frame scan huffman restart_interval entropy_data = Inr (map (decoded_component frame) ccs)"
  using assms by (rule decode_entropy_standard)

text \<open>
  Two components, of 2x2 and 1x1 units in an MCU, over two MCUs with a restart between them. The
  first has two lines of four units, so that its units are not coded in the order of its lines.
\<close>

definition sample_dc_spec :: code_spec where
  "sample_dc_spec = ([1, 1, 0, 0, 0, 0, 0, 0, 0, 0, 0, 0, 0, 0, 0, 0], [2, 0])"

definition sample_ac_spec :: code_spec where
  "sample_ac_spec = ([1, 1, 1, 0, 0, 0, 0, 0, 0, 0, 0, 0, 0, 0, 0, 0], [0, 0x31, 0xF0])"

definition sample_dc_table :: huffman_table where
  "sample_dc_table = projr (huffman_build Dc 0 (fst sample_dc_spec) (snd sample_dc_spec))"

definition sample_ac_table :: huffman_table where
  "sample_ac_table = projr (huffman_build Ac 0 (fst sample_ac_spec) (snd sample_ac_spec))"

definition sample_tables :: huffman_tables where
  "sample_tables = \<lparr>hts_dc = [Some sample_dc_table, None, None, None],
                    hts_ac = [Some sample_ac_table, None, None, None]\<rparr>"

definition sample_frame :: jpeg_frame_header where
  "sample_frame = \<lparr>fh_precision = 8, fh_height = 16, fh_width = 30,
     fh_components = [\<lparr>fc_id = 1, fc_h_sampling = 2, fc_v_sampling = 2, fc_quant_table_id = 0\<rparr>,
                      \<lparr>fc_id = 2, fc_h_sampling = 1, fc_v_sampling = 1, fc_quant_table_id = 0\<rparr>],
     fh_max_h_sampling = 2, fh_max_v_sampling = 2\<rparr>"

definition sample_scan :: scan_header where
  "sample_scan = \<lparr>sh_components = [\<lparr>sc_component_id = 1, sc_dc_table_id = 0, sc_ac_table_id = 0\<rparr>,
                                  \<lparr>sc_component_id = 2, sc_dc_table_id = 0, sc_ac_table_id = 0\<rparr>],
     sh_spectral_start = 0, sh_spectral_end = 63, sh_successive_high = 0, sh_successive_low = 0\<rparr>"

definition flat_units :: "int list \<Rightarrow> int list" where
  "flat_units ds = concat (map (\<lambda>d. d # replicate 63 0) ds)"

definition sample_luma :: "int list" where
  "sample_luma = flat_units [3, 3, - 3, 0] @ [0, 0, 0, 0, - 1] @ replicate 59 0 @ flat_units [- 2, 2, 2]"

definition sample_chroma :: "int list" where
  "sample_chroma = [2] @ replicate 19 0 @ [1] @ replicate 43 0 @ flat_units [- 2]"

definition sample_components :: "coded_component list" where
  "sample_components =
     [\<lparr>cc_component = \<lparr>fc_id = 1, fc_h_sampling = 2, fc_v_sampling = 2, fc_quant_table_id = 0\<rparr>,
       cc_dc_spec = sample_dc_spec, cc_ac_spec = sample_ac_spec, cc_coefficients = sample_luma\<rparr>,
      \<lparr>cc_component = \<lparr>fc_id = 2, fc_h_sampling = 1, fc_v_sampling = 1, fc_quant_table_id = 0\<rparr>,
       cc_dc_spec = sample_dc_spec, cc_ac_spec = sample_ac_spec, cc_coefficients = sample_chroma\<rparr>]"

lemma sample_builds: "builds sample_dc_spec sample_dc_table" "builds sample_ac_spec sample_ac_table"
proof -
  have "\<not> isl (huffman_build Dc 0 (fst sample_dc_spec) (snd sample_dc_spec))"
    "\<not> isl (huffman_build Ac 0 (fst sample_ac_spec) (snd sample_ac_spec))" by code_simp+
  then have "huffman_build Dc 0 (fst sample_dc_spec) (snd sample_dc_spec) = Inr sample_dc_table"
    "huffman_build Ac 0 (fst sample_ac_spec) (snd sample_ac_spec) = Inr sample_ac_table"
    by (simp_all add: sample_dc_table_def sample_ac_table_def sum.collapse)
  moreover have "length (fst sample_dc_spec) = 16" "length (fst sample_ac_spec) = 16"
    by (simp_all add: sample_dc_spec_def sample_ac_spec_def)
  ultimately show "builds sample_dc_spec sample_dc_table" "builds sample_ac_spec sample_ac_table"
    unfolding builds_def by blast+
qed

lemma sample_layout: "interleaved_across sample_frame = 2" "interleaved_down sample_frame = 1"
  by code_simp+

lemma sample_sampling: "sampling_ok sample_frame" "fh_components sample_frame \<noteq> []"
  by (simp_all add: sampling_ok_def sample_frame_def)

lemma sample_of_the_frame: "list_all2 (of_the_frame sample_frame) (sh_components sample_scan) sample_components"
proof -
  have "length sample_luma = 512" "length sample_chroma = 128" by code_simp+
  then show ?thesis
    by (simp add: sample_components_def sample_scan_def of_the_frame_def sample_layout) (simp add: sample_frame_def)
qed

lemma sample_in_its_slots: "list_all2 (in_its_slots sample_tables) (sh_components sample_scan) sample_components"
  using sample_builds by (simp add: sample_components_def sample_scan_def sample_tables_def in_its_slots_def)

lemma sample_two_components: "\<forall>cc. sample_components = [cc] \<longrightarrow> cc_h cc = 1 \<and> cc_v cc = 1"
  by (simp add: sample_components_def)

lemma sample_coded:
  "standard_scan sample_frame 1 [7] sample_components =
     Some [0x68, 0x20, 0x96, 0xAF, 0xFF, 0xD0, 0x06, 0x48, 0x5F, 0xFF, 0xD9, 7]"
  by code_simp

theorem scan_roundtrip_witness:
  "decode_entropy sample_frame sample_scan sample_tables 1
     [0x68, 0x20, 0x96, 0xAF, 0xFF, 0xD0, 0x06, 0x48, 0x5F, 0xFF, 0xD9, 7] =
   Inr [\<lparr>cs_component_id = 1, cs_h_sampling = 2, cs_v_sampling = 2, cs_quant_table_id = 0,
         cs_blocks_horizontal = 4, cs_blocks_vertical = 2, cs_coefficients = sample_luma\<rparr>,
        \<lparr>cs_component_id = 2, cs_h_sampling = 1, cs_v_sampling = 1, cs_quant_table_id = 0,
         cs_blocks_horizontal = 2, cs_blocks_vertical = 1, cs_coefficients = sample_chroma\<rparr>]"
  using scan_roundtrip [OF sample_sampling sample_of_the_frame sample_in_its_slots sample_two_components,
      of 1 "[7]" "[0x68, 0x20, 0x96, 0xAF, 0xFF, 0xD0, 0x06, 0x48, 0x5F, 0xFF, 0xD9, 7]"] sample_coded
  by (simp add: decoded_component_def sample_layout sample_components_def)

end
