(* ===== verification/Jpeg_Headers.thy ===== *)
theory Jpeg_Headers
  imports Jpeg_Scan
begin

text \<open>
  The segment parsers of the JPEG decoder (\<open>sdk/vulkan-jpeg/src/parser.rs\<close>) and the marker
  predicates (\<open>marker.rs\<close>): a cursor over the file, markers and length-prefixed segments, and the
  DQT, DHT, SOF0, DRI and SOS segments. The loops over a payload recurse on what is left of it.
\<close>

unbundle bit_operations_syntax

subsection \<open>Markers\<close>

abbreviation SOI :: u8 where "SOI \<equiv> 0xD8"
abbreviation EOI :: u8 where "EOI \<equiv> 0xD9"
abbreviation SOS :: u8 where "SOS \<equiv> 0xDA"
abbreviation DQT :: u8 where "DQT \<equiv> 0xDB"
abbreviation DHT :: u8 where "DHT \<equiv> 0xC4"
abbreviation DRI :: u8 where "DRI \<equiv> 0xDD"
abbreviation SOF0 :: u8 where "SOF0 \<equiv> 0xC0"
abbreviation RST0 :: u8 where "RST0 \<equiv> 0xD0"
abbreviation RST7 :: u8 where "RST7 \<equiv> 0xD7"

definition is_app :: "u8 \<Rightarrow> bool" where
  "is_app m \<longleftrightarrow> 0xE0 \<le> m \<and> m \<le> 0xEF"

definition is_restart :: "u8 \<Rightarrow> bool" where
  "is_restart m \<longleftrightarrow> RST0 \<le> m \<and> m \<le> RST7"

definition is_standalone :: "u8 \<Rightarrow> bool" where
  "is_standalone m \<longleftrightarrow> m = SOI \<or> m = EOI \<or> is_restart m"

definition unsupported_sofs :: "(u8 \<times> string) list" where
  "unsupported_sofs =
     [(0xC1, ''extended sequential DCT (SOF1)''),
      (0xC2, ''progressive DCT (SOF2)''),
      (0xC3, ''lossless sequential (SOF3)''),
      (0xC5, ''differential sequential DCT (SOF5)''),
      (0xC6, ''differential progressive DCT (SOF6)''),
      (0xC7, ''differential lossless (SOF7)''),
      (0xC9, ''arithmetic-coded extended sequential (SOF9)''),
      (0xCA, ''arithmetic-coded progressive (SOF10)''),
      (0xCB, ''arithmetic-coded lossless (SOF11)''),
      (0xCD, ''differential arithmetic sequential (SOF13)''),
      (0xCE, ''differential arithmetic progressive (SOF14)''),
      (0xCF, ''differential arithmetic lossless (SOF15)'')]"

definition is_unsupported_sof :: "u8 \<Rightarrow> string option" where
  "is_unsupported_sof m = map_of unsupported_sofs m"

subsection \<open>The cursor\<close>

record jpeg_parser =
  jp_bytes :: bytes
  jp_cursor :: nat

definition parser_new :: "bytes \<Rightarrow> jpeg_parser" where
  "parser_new bs = \<lparr>jp_bytes = bs, jp_cursor = 0\<rparr>"

definition expect_soi :: "jpeg_parser \<Rightarrow> jpeg_error + jpeg_parser" where
  "expect_soi p =
     (if length (jp_bytes p) < 2 then Inl (UnexpectedEof 0)
      else if jp_bytes p ! 0 \<noteq> PREFIX \<or> jp_bytes p ! 1 \<noteq> SOI
      then Inl (MissingSoi (jp_bytes p ! 0) (jp_bytes p ! 1))
      else Inr (p\<lparr>jp_cursor := 2\<rparr>))"

definition read_byte :: "jpeg_parser \<Rightarrow> jpeg_error + u8 \<times> jpeg_parser" where
  "read_byte p =
     (if length (jp_bytes p) \<le> jp_cursor p then Inl (UnexpectedEof (jp_cursor p))
      else Inr (jp_bytes p ! jp_cursor p, p\<lparr>jp_cursor := jp_cursor p + 1\<rparr>))"

lemma read_byte_advances:
  "read_byte p = Inr (b, p') \<Longrightarrow> jp_bytes p' = jp_bytes p \<and> jp_cursor p < length (jp_bytes p) \<and>
     jp_cursor p' = jp_cursor p + 1"
  by (auto simp: read_byte_def split: if_splits)

function next_marker :: "jpeg_parser \<Rightarrow> jpeg_error + u8 \<times> jpeg_parser" where
  "next_marker p =
     (case read_byte p of
        Inl e \<Rightarrow> Inl e
      | Inr (b, p1) \<Rightarrow>
          if b \<noteq> PREFIX then Inl (UnexpectedMarker b (jp_cursor p1 - 1))
          else
            (case read_byte p1 of
               Inl e \<Rightarrow> Inl e
             | Inr (m, p2) \<Rightarrow>
                 if m = PREFIX then next_marker p2
                 else if m = 0 then Inl (UnexpectedMarker 0 (jp_cursor p2 - 1))
                 else Inr (m, p2)))"
  by pat_completeness auto
termination
  by (relation "measure (\<lambda>p. length (jp_bytes p) - jp_cursor p)") (auto dest!: read_byte_advances)

declare next_marker.simps [simp del]

definition be16 :: "u8 \<Rightarrow> u8 \<Rightarrow> 16 word" where
  "be16 high low = (push_bit 8 (ucast high)) OR (ucast low)"

definition read_u16 :: "jpeg_parser \<Rightarrow> jpeg_error + 16 word \<times> jpeg_parser" where
  "read_u16 p =
     and_then (read_byte p) (\<lambda>(high, p). and_then (read_byte p) (\<lambda>(low, p). Inr (be16 high low, p)))"

text \<open>The cursor stays within the file, so the checked addition of the source never fails.\<close>

definition read_segment_payload :: "u8 \<Rightarrow> jpeg_parser \<Rightarrow> jpeg_error + bytes \<times> jpeg_parser" where
  "read_segment_payload m p =
     and_then (read_u16 p) (\<lambda>(len, p).
       let len = unat len; start = jp_cursor p; stop = start + (len - 2)
       in if len < 2 then Inl (InvalidSegmentLength m len)
          else if length (jp_bytes p) < stop then Inl (UnexpectedEof start)
          else Inr (take (stop - start) (drop start (jp_bytes p)), p\<lparr>jp_cursor := stop\<rparr>))"

definition skip_segment :: "u8 \<Rightarrow> jpeg_parser \<Rightarrow> jpeg_error + jpeg_parser" where
  "skip_segment m p = and_then (read_segment_payload m p) (\<lambda>(_, p). Inr p)"

subsection \<open>Table segments\<close>

record quantization_table =
  qt_id :: u8
  qt_precision :: u8
  qt_values :: "16 word list"

definition dqt_values :: "u8 \<Rightarrow> bytes \<Rightarrow> 16 word list" where
  "dqt_values precision ps =
     map (\<lambda>i. if precision = 0 then ucast (ps ! i) else be16 (ps ! (2 * i)) (ps ! (2 * i + 1))) [0..<64]"

fun put_quantization_table :: "quantization_table \<Rightarrow> quantization_table list \<Rightarrow> quantization_table list" where
  "put_quantization_table t [] = [t]"
| "put_quantization_table t (u # us) = (if qt_id u = qt_id t then t # us else u # put_quantization_table t us)"

function parse_dqt_tables :: "bytes \<Rightarrow> quantization_table list \<Rightarrow> jpeg_error + quantization_table list" where
  "parse_dqt_tables [] out = Inr out"
| "parse_dqt_tables (pq_tq # ps) out =
     (let precision = drop_bit 4 pq_tq;
          tid = pq_tq AND 0x0F;
          needed = 64 * (if precision = 0 then 1 else 2)
      in if 1 < precision
         then Inl (MalformedQuantizationTable ''precision must be 0 (8-bit) or 1 (16-bit)'')
         else if 3 < tid then Inl (MalformedQuantizationTable ''id must be 0..=3'')
         else if length ps < needed then Inl (MalformedQuantizationTable ''segment too short for 64 values'')
         else parse_dqt_tables (drop needed ps)
                (put_quantization_table
                   \<lparr>qt_id = tid, qt_precision = precision, qt_values = dqt_values precision ps\<rparr> out))"
  by pat_completeness auto
termination
  by (relation "measure (\<lambda>(ps, out). length ps)") auto

definition parse_dqt ::
    "jpeg_parser \<Rightarrow> quantization_table list \<Rightarrow> jpeg_error + quantization_table list \<times> jpeg_parser" where
  "parse_dqt p out =
     and_then (read_segment_payload DQT p) (\<lambda>(payload, p).
       and_then (parse_dqt_tables payload out) (\<lambda>out. Inr (out, p)))"

definition put_huffman_table :: "huffman_class \<Rightarrow> u8 \<Rightarrow> huffman_table \<Rightarrow> huffman_tables \<Rightarrow> huffman_tables" where
  "put_huffman_table cl tid t out =
     (case cl of Dc \<Rightarrow> out\<lparr>hts_dc := (hts_dc out)[unat tid := Some t]\<rparr>
      | Ac \<Rightarrow> out\<lparr>hts_ac := (hts_ac out)[unat tid := Some t]\<rparr>)"

function parse_dht_tables :: "bytes \<Rightarrow> huffman_tables \<Rightarrow> jpeg_error + huffman_tables" where
  "parse_dht_tables payload out =
     (if payload = [] then Inr out
      else if length payload < 17
      then Inl (MalformedHuffmanTable ''DHT segment too short for class/id + BITS'')
      else
        (let tc_th = payload ! 0;
             tid = tc_th AND 0x0F;
             bits = take 16 (drop 1 payload);
             total = (\<Sum>b\<leftarrow>bits. unat b)
         in case from_class_byte (drop_bit 4 tc_th) of
              Inl e \<Rightarrow> Inl e
            | Inr cl \<Rightarrow>
                if 3 < tid then Inl (MalformedHuffmanTable ''id must be 0..=3'')
                else if length payload < 17 + total
                then Inl (MalformedHuffmanTable ''DHT segment too short for HUFFVAL'')
                else (case huffman_build cl tid bits (take total (drop 17 payload)) of
                        Inl e \<Rightarrow> Inl e
                      | Inr t \<Rightarrow> parse_dht_tables (drop (17 + total) payload)
                                   (put_huffman_table cl tid t out))))"
  by pat_completeness auto
termination
  by (relation "measure (\<lambda>(ps, out). length ps)") auto

declare parse_dht_tables.simps [simp del]

definition parse_dht :: "jpeg_parser \<Rightarrow> huffman_tables \<Rightarrow> jpeg_error + huffman_tables \<times> jpeg_parser" where
  "parse_dht p out =
     and_then (read_segment_payload DHT p) (\<lambda>(payload, p).
       and_then (parse_dht_tables payload out) (\<lambda>out. Inr (out, p)))"

definition parse_dri :: "jpeg_parser \<Rightarrow> jpeg_error + 16 word \<times> jpeg_parser" where
  "parse_dri p =
     and_then (read_segment_payload DRI p) (\<lambda>(payload, p).
       if length payload \<noteq> 2 then Inl (InvalidSegmentLength DRI (length payload + 2))
       else Inr (be16 (payload ! 0) (payload ! 1), p))"

subsection \<open>Frame and scan headers\<close>

fun parse_sof0_components ::
    "bytes \<Rightarrow> nat list \<Rightarrow> frame_component list \<times> u8 \<times> u8 \<Rightarrow> jpeg_error + frame_component list \<times> u8 \<times> u8" where
  "parse_sof0_components payload [] acc = Inr acc"
| "parse_sof0_components payload (i # ix) (components, max_h, max_v) =
     (let base = 6 + i * 3;
          cid = payload ! base;
          sampling = payload ! (base + 1);
          h = drop_bit 4 sampling;
          v = sampling AND 0x0F;
          q = payload ! (base + 2)
      in if \<not> (1 \<le> h \<and> h \<le> 4) \<or> \<not> (1 \<le> v \<and> v \<le> 4)
         then Inl (InvalidScan ''SOF0 sampling factor out of range (must be 1..=4)'')
         else if 3 < q then Inl (InvalidScan ''SOF0 quantization table id out of range'')
         else if \<exists>c\<in>set components. fc_id c = cid then Inl (InvalidScan ''SOF0 duplicate component id'')
         else parse_sof0_components payload ix
                (components @ [\<lparr>fc_id = cid, fc_h_sampling = h, fc_v_sampling = v, fc_quant_table_id = q\<rparr>],
                 max max_h h, max max_v v))"

definition parse_sof0 :: "jpeg_parser \<Rightarrow> jpeg_error + jpeg_frame_header \<times> jpeg_parser" where
  "parse_sof0 p =
     and_then (read_segment_payload SOF0 p) (\<lambda>(payload, p).
       if length payload < 6 then Inl (InvalidScan ''SOF0 payload too short'')
       else if payload ! 0 \<noteq> 8
       then Inl (UnsupportedSof SOF0 ''baseline JPEG requires 8-bit sample precision'')
       else
         (let height = be16 (payload ! 1) (payload ! 2);
              width = be16 (payload ! 3) (payload ! 4);
              n = unat (payload ! 5)
          in if n = 0 \<or> 4 < n then Inl (InvalidScan ''SOF0 component count out of range'')
             else if width = 0 \<or> height = 0 then Inl (InvalidScan ''SOF0 width/height is zero'')
             else if length payload < 6 + 3 * n
             then Inl (InvalidScan ''SOF0 payload too short for component descriptors'')
             else and_then (parse_sof0_components payload [0..<n] ([], 0, 0)) (\<lambda>(components, max_h, max_v).
                    Inr (\<lparr>fh_precision = payload ! 0, fh_height = height, fh_width = width,
                          fh_components = components, fh_max_h_sampling = max_h, fh_max_v_sampling = max_v\<rparr>, p))))"

fun parse_sos_components ::
    "jpeg_frame_header \<Rightarrow> bytes \<Rightarrow> nat list \<Rightarrow> jpeg_error + scan_component list" where
  "parse_sos_components frame payload [] = Inr []"
| "parse_sos_components frame payload (i # ix) =
     (let base = 1 + i * 2;
          cid = payload ! base;
          tdta = payload ! (base + 1);
          dc = drop_bit 4 tdta;
          ac = tdta AND 0x0F
      in if 3 < dc \<or> 3 < ac then Inl (InvalidScan ''SOS table id out of range'')
         else if \<not> (\<exists>c\<in>set (fh_components frame). fc_id c = cid)
         then Inl (InvalidScan ''SOS references component not in SOF'')
         else and_then (parse_sos_components frame payload ix) (\<lambda>cs.
                Inr (\<lparr>sc_component_id = cid, sc_dc_table_id = dc, sc_ac_table_id = ac\<rparr> # cs)))"

definition parse_sos :: "jpeg_frame_header \<Rightarrow> jpeg_parser \<Rightarrow> jpeg_error + scan_header \<times> jpeg_parser" where
  "parse_sos frame p =
     and_then (read_segment_payload SOS p) (\<lambda>(payload, p).
       if payload = [] then Inl (InvalidScan ''SOS payload empty'')
       else
         (let ns = unat (payload ! 0)
          in if ns = 0 \<or> length (fh_components frame) < ns
             then Inl (InvalidScan ''SOS component count outside frame components'')
             else if length payload < 1 + 2 * ns + 3 then Inl (InvalidScan ''SOS payload too short'')
             else and_then (parse_sos_components frame payload [0..<ns]) (\<lambda>components.
                    let trailer = drop (1 + 2 * ns) payload;
                        high = drop_bit 4 (trailer ! 2);
                        low = trailer ! 2 AND 0x0F
                    in if trailer ! 0 \<noteq> 0 \<or> trailer ! 1 \<noteq> 63 \<or> high \<noteq> 0 \<or> low \<noteq> 0
                       then Inl (Unsupported ''progressive / spectral-selection / successive-approximation scans'')
                       else Inr (\<lparr>sh_components = components, sh_spectral_start = trailer ! 0,
                                  sh_spectral_end = trailer ! 1, sh_successive_high = high,
                                  sh_successive_low = low\<rparr>, p))))"

subsection \<open>What an accepted frame and scan promise\<close>

definition frame_ok :: "jpeg_frame_header \<Rightarrow> bool" where
  "frame_ok f \<longleftrightarrow> fh_precision f = 8 \<and> 0 < fh_width f \<and> 0 < fh_height f \<and>
     fh_components f \<noteq> [] \<and> length (fh_components f) \<le> 4 \<and> distinct (map fc_id (fh_components f)) \<and>
     (\<forall>c\<in>set (fh_components f). fc_h_sampling c \<in> {1..4} \<and> fc_v_sampling c \<in> {1..4} \<and>
        fc_quant_table_id c \<le> 3) \<and>
     fh_max_h_sampling f = Max (fc_h_sampling ` set (fh_components f)) \<and>
     fh_max_v_sampling f = Max (fc_v_sampling ` set (fh_components f))"

definition components_ok :: "frame_component list \<times> u8 \<times> u8 \<Rightarrow> bool" where
  "components_ok = (\<lambda>(cs, mh, mv). distinct (map fc_id cs) \<and>
     (\<forall>c\<in>set cs. fc_h_sampling c \<in> {1..4} \<and> fc_v_sampling c \<in> {1..4} \<and> fc_quant_table_id c \<le> 3) \<and>
     mh = Max (insert 0 (fc_h_sampling ` set cs)) \<and> mv = Max (insert 0 (fc_v_sampling ` set cs)))"

lemma components_ok_snoc:
  assumes "components_ok (cs, mh, mv)" "\<forall>d\<in>set cs. fc_id d \<noteq> fc_id c"
    "fc_h_sampling c \<in> {1..4}" "fc_v_sampling c \<in> {1..4}" "fc_quant_table_id c \<le> 3"
  shows "components_ok (cs @ [c], max mh (fc_h_sampling c), max mv (fc_v_sampling c))"
proof -
  have "Max (insert 0 (f ` set (cs @ [c]))) = max (Max (insert 0 (f ` set cs))) (f c)" for f :: "frame_component \<Rightarrow> u8"
  proof -
    have "insert 0 (f ` set (cs @ [c])) = insert (f c) (insert 0 (f ` set cs))" by auto
    then show ?thesis
      using Max_insert [of "insert 0 (f ` set cs)" "f c"] max.commute [of "f c"] by simp
  qed
  then show ?thesis using assms by (auto simp: components_ok_def)
qed

lemma parse_sof0_components_ok:
  assumes "parse_sof0_components payload ix acc = Inr acc'" "components_ok acc"
  shows "components_ok acc' \<and> length (fst acc') = length (fst acc) + length ix"
  using assms
proof (induction ix arbitrary: acc)
  case (Cons i ix)
  obtain cs mh mv where acc: "acc = (cs, mh, mv)" by (cases acc)
  obtain c where c: "parse_sof0_components payload ix (cs @ [c], max mh (fc_h_sampling c), max mv (fc_v_sampling c)) = Inr acc'"
      "\<forall>d\<in>set cs. fc_id d \<noteq> fc_id c" "fc_h_sampling c \<in> {1..4}" "fc_v_sampling c \<in> {1..4}" "fc_quant_table_id c \<le> 3"
  proof -
    let ?c = "\<lparr>fc_id = payload ! (6 + i * 3), fc_h_sampling = drop_bit 4 (payload ! (6 + i * 3 + 1)),
      fc_v_sampling = payload ! (6 + i * 3 + 1) AND 0x0F, fc_quant_table_id = payload ! (6 + i * 3 + 2)\<rparr>"
    show thesis using Cons(2) that [of ?c] by (auto simp: acc Let_def not_less split: if_splits)
  qed
  then show ?case using Cons.IH [OF c(1)] components_ok_snoc [of cs mh mv c] Cons(3) by (simp add: acc)
qed simp

lemma components_ok_Max:
  assumes "components_ok (cs, mh, mv)" "cs \<noteq> []"
  shows "mh = Max (fc_h_sampling ` set cs)" "mv = Max (fc_v_sampling ` set cs)"
  using assms by (auto simp: components_ok_def Max_insert)

lemma parse_sof0_ok:
  assumes "parse_sof0 p = Inr (f, p')"
  shows "frame_ok f"
proof -
  obtain payload q cs mh mv where c: "payload ! 0 = 8" "unat (payload ! 5) \<in> {1..4}"
      "parse_sof0_components payload [0..<unat (payload ! 5)] ([], 0, 0) = Inr (cs, mh, mv)"
      "be16 (payload ! 1) (payload ! 2) \<noteq> 0" "be16 (payload ! 3) (payload ! 4) \<noteq> 0"
      "f = \<lparr>fh_precision = payload ! 0, fh_height = be16 (payload ! 1) (payload ! 2),
        fh_width = be16 (payload ! 3) (payload ! 4), fh_components = cs,
        fh_max_h_sampling = mh, fh_max_v_sampling = mv\<rparr>"
    using assms by (auto simp: parse_sof0_def and_then_Inr_iff Let_def split: if_splits)
  have ok: "components_ok (cs, mh, mv)" "length cs = unat (payload ! 5)"
    using parse_sof0_components_ok [OF c(3)] by (auto simp: components_ok_def)
  then have ne: "cs \<noteq> []" "length cs \<le> 4" using c(2) by auto
  note sampling = ok(1) [unfolded components_ok_def split_conv]
  show ?thesis unfolding frame_ok_def c(6) jpeg_frame_header.select_convs
    using c(1,4,5) ne components_ok_Max [OF ok(1) ne(1)] sampling word_neq_0_conv by blast
qed

definition scan_ok :: "jpeg_frame_header \<Rightarrow> scan_header \<Rightarrow> bool" where
  "scan_ok f s \<longleftrightarrow> sh_components s \<noteq> [] \<and> length (sh_components s) \<le> length (fh_components f) \<and>
     (\<forall>c\<in>set (sh_components s). sc_dc_table_id c \<le> 3 \<and> sc_ac_table_id c \<le> 3 \<and>
        (\<exists>d\<in>set (fh_components f). fc_id d = sc_component_id c)) \<and>
     sh_spectral_start s = 0 \<and> sh_spectral_end s = 63 \<and> sh_successive_high s = 0 \<and> sh_successive_low s = 0"

lemma parse_sos_components_ok:
  assumes "parse_sos_components f payload ix = Inr cs"
  shows "length cs = length ix \<and> (\<forall>c\<in>set cs. sc_dc_table_id c \<le> 3 \<and> sc_ac_table_id c \<le> 3 \<and>
    (\<exists>d\<in>set (fh_components f). fc_id d = sc_component_id c))"
  using assms
  by (induction ix arbitrary: cs) (fastforce simp: Let_def and_then_Inr_iff not_less split: if_splits)+

lemma parse_sos_ok:
  assumes "parse_sos f p = Inr (s, p')"
  shows "scan_ok f s"
proof -
  obtain payload cs where c: "parse_sos_components f payload [0..<unat (payload ! 0)] = Inr cs"
      "unat (payload ! 0) \<noteq> 0" "unat (payload ! 0) \<le> length (fh_components f)" "sh_components s = cs"
      "sh_spectral_start s = 0 \<and> sh_spectral_end s = 63 \<and> sh_successive_high s = 0 \<and> sh_successive_low s = 0"
    using assms by (auto simp: parse_sos_def and_then_Inr_iff Let_def split: if_splits)
  then show ?thesis using parse_sos_components_ok [OF c(1)] by (auto simp: scan_ok_def)
qed

definition tables_ok :: "huffman_tables \<Rightarrow> bool" where
  "tables_ok h \<longleftrightarrow> length (hts_dc h) = 4 \<and> length (hts_ac h) = 4 \<and>
     (\<forall>t. Some t \<in> set (hts_dc h) \<union> set (hts_ac h) \<longrightarrow> (\<exists>spec. builds spec t))"

lemma tables_ok_default: "tables_ok huffman_tables_default"
  by (simp add: tables_ok_def huffman_tables_default_def)

lemma tables_ok_put:
  assumes "tables_ok h" "builds spec t"
  shows "tables_ok (put_huffman_table cl tid t h)"
proof -
  have "\<exists>spec. builds spec u" if "Some u \<in> set (xs[n := Some t])" "\<forall>u. Some u \<in> set xs \<longrightarrow> (\<exists>spec. builds spec u)" for u xs n
    using that assms(2) set_update_subset_insert [of xs n "Some t"] by blast
  then show ?thesis using assms(1) by (cases cl) (auto simp: tables_ok_def put_huffman_table_def)
qed

lemma parse_dht_tables_ok:
  assumes "parse_dht_tables payload h = Inr h'" "tables_ok h"
  shows "tables_ok h'"
  using assms
proof (induction payload h rule: parse_dht_tables.induct)
  case (1 payload h)
  show ?case
  proof (cases "payload = []")
    case True
    then show ?thesis using 1(2,3) by (simp add: parse_dht_tables.simps)
  next
    case False
    let ?bits = "take 16 (drop 1 payload)"
    let ?total = "\<Sum>b\<leftarrow>?bits. unat b"
    let ?tid = "payload ! 0 AND 0x0F"
    obtain cl t where c: "17 \<le> length payload" "from_class_byte (drop_bit 4 (payload ! 0)) = Inr cl"
        "\<not> 3 < ?tid" "17 + ?total \<le> length payload"
        "huffman_build cl ?tid ?bits (take ?total (drop 17 payload)) = Inr t"
        "parse_dht_tables (drop (17 + ?total) payload) (put_huffman_table cl ?tid t h) = Inr h'"
      using 1(2) False by (subst (asm) parse_dht_tables.simps) (auto simp: Let_def split: if_splits sum.splits)
    have "builds (?bits, take ?total (drop 17 payload)) t" using c(1,5) by (auto simp: builds_def)
    then show ?thesis using 1(1) [OF False _ refl refl refl refl c(2)] c 1(3) tables_ok_put by auto
  qed
qed

lemma plane_for_safe:
  assumes "tables_ok h" "sc_dc_table_id c \<le> 3" "sc_ac_table_id c \<le> 3"
    "\<exists>d\<in>set (fh_components f). fc_id d = sc_component_id c"
  shows "(\<exists>cl i. plane_for f h mh mv c = Inl (MissingHuffmanTable cl i)) \<or>
    (\<exists>p dcs acs. plane_for f h mh mv c = Inr p \<and> has_tables (p, dcs, acs))"
proof -
  obtain d where d: "find (\<lambda>d. fc_id d = sc_component_id c) (fh_components f) = Some d"
    using assms(4) by (cases "find (\<lambda>d. fc_id d = sc_component_id c) (fh_components f)") (auto simp: find_None_iff)
  have i: "unat (sc_dc_table_id c) < 4" "unat (sc_ac_table_id c) < 4"
    using assms(2,3) by (simp_all add: word_le_nat_alt)
  have t: "\<exists>spec. builds spec t" if "hts_dc h ! unat (sc_dc_table_id c) = Some t \<or> hts_ac h ! unat (sc_ac_table_id c) = Some t" for t
    using that assms(1) i unfolding tables_ok_def by (metis UnI1 UnI2 nth_mem)
  show ?thesis
  proof (cases "hts_dc h ! unat (sc_dc_table_id c)")
    case None
    then show ?thesis using d by (simp add: plane_for_def)
  next
    case dc: (Some dct)
    show ?thesis
    proof (cases "hts_ac h ! unat (sc_ac_table_id c)")
      case None
      then show ?thesis using d dc by (simp add: plane_for_def)
    next
      case (Some act)
      then show ?thesis using d dc t [of dct] t [of act] by (fastforce simp: plane_for_def has_tables_def Let_def)
    qed
  qed
qed

lemma planes_for_safe:
  assumes "tables_ok h" "\<forall>c\<in>set cs. sc_dc_table_id c \<le> 3 \<and> sc_ac_table_id c \<le> 3 \<and>
    (\<exists>d\<in>set (fh_components f). fc_id d = sc_component_id c)"
  shows "(\<exists>cl i. planes_for f h mh mv cs = Inl (MissingHuffmanTable cl i)) \<or>
    (\<exists>ps. planes_for f h mh mv cs = Inr ps \<and> length ps = length cs \<and>
      (\<forall>p\<in>set ps. \<exists>dcs acs. has_tables (p, dcs, acs)))"
  using assms(2)
proof (induction cs)
  case (Cons c cs)
  then show ?case using plane_for_safe [OF assms(1), of c f mh mv] by auto
qed simp

text \<open>The DHT segments that the header loop meets, in order.\<close>

fun parse_dht_segments :: "jpeg_parser list \<Rightarrow> huffman_tables \<Rightarrow> jpeg_error + huffman_tables" where
  "parse_dht_segments [] h = Inr h"
| "parse_dht_segments (p # ps) h = and_then (parse_dht p h) (\<lambda>(h, _). parse_dht_segments ps h)"

lemma parse_dht_segments_ok:
  "parse_dht_segments ps h = Inr h' \<Longrightarrow> tables_ok h \<Longrightarrow> tables_ok h'"
  by (induction ps arbitrary: h) (auto simp: parse_dht_def and_then_Inr_iff dest: parse_dht_tables_ok)

abbreviation mcus_across :: "jpeg_frame_header \<Rightarrow> nat" where
  "mcus_across f \<equiv> div_ceil (unat (fh_width f)) (8 * unat (fh_max_h_sampling f))"

abbreviation mcus_down :: "jpeg_frame_header \<Rightarrow> nat" where
  "mcus_down f \<equiv> div_ceil (unat (fh_height f)) (8 * unat (fh_max_v_sampling f))"

lemma div_ceil_pos: "0 < a \<Longrightarrow> 0 < b \<Longrightarrow> 0 < div_ceil a b \<and> a \<le> div_ceil a b * b"
proof -
  assume "0 < a" "0 < b"
  then have "b \<le> a + b - 1" by simp
  then have "0 < div_ceil a b" using \<open>0 < b\<close> by (simp add: div_ceil_def div_greater_zero_iff)
  moreover have "a + b - 1 < (a + b - 1) div b * b + b"
    using \<open>0 < b\<close> by (metis div_mod_decomp add_less_cancel_left mod_less_divisor)
  ultimately show ?thesis using \<open>0 < b\<close> by (simp add: div_ceil_def)
qed

lemma frame_ok_max_sampling:
  assumes "frame_ok f"
  shows "unat (fh_max_h_sampling f) \<in> {1..4}" "unat (fh_max_v_sampling f) \<in> {1..4}"
proof -
  have "Max (g ` set (fh_components f)) \<in> {1..4}"
    if "\<forall>c\<in>set (fh_components f). g c \<in> {1..4 :: u8}" for g
  proof -
    have "Max (g ` set (fh_components f)) \<in> g ` set (fh_components f)"
      using assms by (intro Max_in) (auto simp: frame_ok_def)
    then show ?thesis using that by auto
  qed
  then have "fh_max_h_sampling f \<in> {1..4}" "fh_max_v_sampling f \<in> {1..4}"
    using assms unfolding frame_ok_def by metis+
  then show "unat (fh_max_h_sampling f) \<in> {1..4}" "unat (fh_max_v_sampling f) \<in> {1..4}"
    by (auto simp: word_le_nat_alt)
qed

subsection \<open>Fill bytes\<close>

lemma drop_Cons_nth:
  assumes "drop c bs = x # xs"
  shows "c < length bs" "bs ! c = x" "drop (c + 1) bs = xs"
proof -
  show c: "c < length bs" using assms by (metis drop_all leI list.distinct(1))
  then show "bs ! c = x" "drop (c + 1) bs = xs" using assms Cons_nth_drop_Suc [OF c] by simp_all
qed

lemma next_marker_fills:
  assumes "drop (jp_cursor p) (jp_bytes p) = replicate k PREFIX @ PREFIX # m # rest" "m \<notin> {0, PREFIX}"
  shows "next_marker p =
    (if even k then Inr (m, p\<lparr>jp_cursor := jp_cursor p + k + 2\<rparr>)
     else Inl (UnexpectedMarker m (jp_cursor p + k + 1)))"
  using assms(1)
proof (induction k arbitrary: p rule: less_induct)
  case (less k)
  let ?q = "p\<lparr>jp_cursor := jp_cursor p + 2\<rparr>"
  obtain x xs where xs: "drop (jp_cursor p) (jp_bytes p) = PREFIX # x # xs"
      "k = 0 \<longrightarrow> x = m" "k = 1 \<longrightarrow> x = PREFIX \<and> xs = m # rest"
      "2 \<le> k \<longrightarrow> x = PREFIX \<and> xs = replicate (k - 2) PREFIX @ PREFIX # m # rest"
  proof -
    consider "k = 0" | "k = 1" | k' where "k = Suc (Suc k')" by (metis One_nat_def not0_implies_Suc)
    then show thesis
    proof cases
      case 1
      then show thesis using that [of m rest] less(2) by simp
    next
      case 2
      then show thesis using that [of PREFIX "m # rest"] less(2) by simp
    next
      case 3
      then show thesis using that [of PREFIX "replicate (k - 2) PREFIX @ PREFIX # m # rest"] less(2) by simp
    qed
  qed
  note d = drop_Cons_nth [OF xs(1)]
  note d2 = drop_Cons_nth [OF d(3)]
  have q: "drop (jp_cursor ?q) (jp_bytes ?q) = xs" using d2(3) by (simp add: numeral_2_eq_2)
  have step: "next_marker p = (if x = PREFIX then next_marker ?q else if x = 0 then
      Inl (UnexpectedMarker 0 (jp_cursor p + 1)) else Inr (x, ?q))"
    using d d2 by (subst next_marker.simps) (auto simp: read_byte_def)
  consider "k = 0" | "k = 1" | "2 \<le> k" by linarith
  then show ?case
  proof cases
    case 1
    then show ?thesis using step xs(2) assms(2) by simp
  next
    case 2
    then have "jp_bytes p ! (jp_cursor p + 2) = m" "jp_cursor p + 2 < length (jp_bytes p)"
      using drop_Cons_nth [of "jp_cursor p + 2" "jp_bytes p" m rest] q xs(3) by simp_all
    then have "next_marker ?q = Inl (UnexpectedMarker m (jp_cursor p + 2))"
      using assms(2) by (subst next_marker.simps) (simp add: read_byte_def)
    then show ?thesis using 2 step xs(3) by simp
  next
    case 3
    then have "next_marker ?q = (if even (k - 2) then Inr (m, ?q\<lparr>jp_cursor := jp_cursor ?q + (k - 2) + 2\<rparr>)
        else Inl (UnexpectedMarker m (jp_cursor ?q + (k - 2) + 1)))"
      using less(1) [of "k - 2" ?q] q xs(4) by simp
    then show ?thesis using 3 step xs(4) by auto
  qed
qed

lemma skip_fill_bytes_fills:
  assumes "drop (cursor r) (br_bytes r) = replicate k PREFIX @ PREFIX # m # rest" "m \<noteq> PREFIX" "k \<le> n"
  shows "skip_fill_bytes n r = r\<lparr>cursor := cursor r + k\<rparr>"
  using assms
proof (induction k arbitrary: n r)
  case 0
  have "drop (cursor r) (br_bytes r) = PREFIX # m # rest" using 0(1) by simp
  from drop_Cons_nth(2) [OF drop_Cons_nth(3) [OF this]] show ?case
    using 0(2) skip_fill_bytes_at_marker [of r n] by simp
next
  case (Suc k)
  obtain n' where n: "n = Suc n'" using Suc(4) by (cases n) auto
  have d: "drop (cursor r) (br_bytes r) = PREFIX # replicate k PREFIX @ PREFIX # m # rest" using Suc(2) by simp
  note h = drop_Cons_nth [OF d]
  obtain ys where "replicate k PREFIX @ PREFIX # m # rest = PREFIX # ys" by (cases k) auto
  then have h2: "br_bytes r ! (cursor r + 1) = PREFIX" "cursor r + 1 < length (br_bytes r)"
    using drop_Cons_nth [of "cursor r + 1" "br_bytes r" PREFIX ys] h(3) by simp_all
  then show ?case using Suc.IH [of "r\<lparr>cursor := cursor r + 1\<rparr>" n'] h Suc(3,4) n by simp
qed

subsection \<open>Properties\<close>

text \<open>C22: a frame and a scan that the parsers accept, with tables from any sequence of accepted DHT
  segments, are safe to decode. The frame has one to four components with distinct ids, sampling
  factors of one to four and their maxima; the scan names components of the frame and table slots
  that exist; the MCU grid covers the image and is not empty; setting the planes up can only fail
  on a slot no segment filled; and each plane has tables of a canonical code and every block that
  the MCU loops visit lies within its coefficient buffer.\<close>

theorem accepted_headers_are_safe_to_scan:
  assumes "parse_sof0 p = Inr (f, p')" "parse_sos f q = Inr (s, q')"
    "parse_dht_segments ds huffman_tables_default = Inr h"
  shows "frame_ok f \<and> scan_ok f s \<and>
    mcu_grid (mcus_across f) (mcus_down f) \<noteq> [] \<and>
    unat (fh_width f) \<le> mcus_across f * 8 * unat (fh_max_h_sampling f) \<and>
    unat (fh_height f) \<le> mcus_down f * 8 * unat (fh_max_v_sampling f) \<and>
    ((\<exists>cl i. planes_for f h (mcus_across f) (mcus_down f) (sh_components s) = Inl (MissingHuffmanTable cl i)) \<or>
     (\<exists>ps. planes_for f h (mcus_across f) (mcus_down f) (sh_components s) = Inr ps \<and>
        length ps = length (sh_components s) \<and>
        (\<forall>p\<in>set ps. \<exists>dcs acs. \<forall>mcu\<in>set (mcu_grid (mcus_across f) (mcus_down f)). in_grid mcu (p, dcs, acs))))"
proof -
  note frame = parse_sof0_ok [OF assms(1)]
  note scan = parse_sos_ok [OF assms(2)]
  note tables = parse_dht_segments_ok [OF assms(3) tables_ok_default]
  have wh: "0 < unat (fh_width f)" "0 < unat (fh_height f)"
    using frame by (simp_all add: frame_ok_def unat_gt_0 word_neq_0_conv)
  note pos = div_ceil_pos [OF wh(1), of "8 * unat (fh_max_h_sampling f)"]
    div_ceil_pos [OF wh(2), of "8 * unat (fh_max_v_sampling f)"]
  have across: "0 < mcus_across f" "unat (fh_width f) \<le> mcus_across f * 8 * unat (fh_max_h_sampling f)"
    and down: "0 < mcus_down f" "unat (fh_height f) \<le> mcus_down f * 8 * unat (fh_max_v_sampling f)"
    using pos frame_ok_max_sampling [OF frame] by (auto simp: mult.assoc)
  have "(0, 0) \<in> set (mcu_grid (mcus_across f) (mcus_down f))" 
    using across(1) down(1) by (force simp: mcu_grid_def)
  then have grid: "mcu_grid (mcus_across f) (mcus_down f) \<noteq> []" by (metis empty_iff empty_set)
  have "\<exists>dcs acs. \<forall>mcu\<in>set (mcu_grid (mcus_across f) (mcus_down f)). in_grid mcu (p, dcs, acs)"
    if ps: "planes_for f h (mcus_across f) (mcus_down f) (sh_components s) = Inr ps" "p \<in> set ps"
      and t: "has_tables (p, dcs, acs)" for ps p dcs acs
  proof (intro exI ballI)
    fix mcu assume "mcu \<in> set (mcu_grid (mcus_across f) (mcus_down f))"
    then obtain x y where "mcu = (x, y)" "x < mcus_across f" "y < mcus_down f" by (auto simp: mcu_grid_def)
    then show "in_grid mcu (p, dcs, acs)" using in_grid_of_sizes [OF t] planes_for_sizes [OF ps] by simp
  qed
  then show ?thesis
    using frame scan grid across(2) down(2) planes_for_safe [OF tables, of "sh_components s" f "mcus_across f" "mcus_down f"]
    by (fastforce simp: scan_ok_def)
qed

text \<open>The headers of a two-block image, as the segments stand behind their markers.\<close>

definition sample_sof0 :: jpeg_parser where
  "sample_sof0 = parser_new [0, 11, 8, 0, 8, 0, 16, 1, 1, 0x11, 0]"

definition sample_sos :: jpeg_parser where
  "sample_sos = parser_new [0, 8, 1, 1, 0, 0, 63, 0]"

definition sample_dht :: jpeg_parser where
  "sample_dht = parser_new ([0, 41, 0x00] @ fst sample_dc_spec @ snd sample_dc_spec @
     [0x10] @ fst sample_ac_spec @ snd sample_ac_spec)"

lemma is_ok_split: "is_ok x \<longleftrightarrow> (\<exists>y. x = Inr y)"
  by (cases x) auto

theorem accepted_headers_are_safe_to_scan_witness:
  "\<exists>f p' s q' h. parse_sof0 sample_sof0 = Inr (f, p') \<and> parse_sos f sample_sos = Inr (s, q') \<and>
     parse_dht_segments [sample_dht] huffman_tables_default = Inr h \<and> frame_ok f \<and> scan_ok f s \<and>
     mcu_grid (mcus_across f) (mcus_down f) \<noteq> []"
proof -
  have "is_ok (and_then (parse_sof0 sample_sof0) (\<lambda>(f, _). parse_sos f sample_sos))"
    "is_ok (parse_dht_segments [sample_dht] huffman_tables_default)" by code_simp+
  then obtain f p' s q' h where "parse_sof0 sample_sof0 = Inr (f, p')" "parse_sos f sample_sos = Inr (s, q')"
      "parse_dht_segments [sample_dht] huffman_tables_default = Inr h"
    by (auto simp: is_ok_split and_then_Inr_iff)
  with accepted_headers_are_safe_to_scan [OF this] show ?thesis by blast
qed

text \<open>C32: fill bytes before a marker. The marker reader of the entropy decoder skips any run of them.
  The one of the header parser takes bytes in pairs, so it finds the marker behind an even number
  of fill bytes and refuses the file behind an odd number, naming the marker code itself as the
  unexpected byte.\<close>

theorem marker_readers_on_fill_bytes:
  assumes "m \<notin> {0, PREFIX}"
    "drop (jp_cursor p) (jp_bytes p) = replicate k PREFIX @ PREFIX # m # rest"
    "drop (cursor r) (br_bytes r) = replicate k PREFIX @ PREFIX # m # rest" "pending_marker r = None"
  shows "next_marker p =
      (if even k then Inr (m, p\<lparr>jp_cursor := jp_cursor p + k + 2\<rparr>)
       else Inl (UnexpectedMarker m (jp_cursor p + k + 1))) \<and>
    read_marker r = Inr (m, r\<lparr>cursor := cursor r + k + 2\<rparr>)"
proof
  show "next_marker p = (if even k then Inr (m, p\<lparr>jp_cursor := jp_cursor p + k + 2\<rparr>)
      else Inl (UnexpectedMarker m (jp_cursor p + k + 1)))"
    using next_marker_fills [OF assms(2,1)] .
  have len: "length (drop (cursor r) (br_bytes r)) = k + 2 + length rest" using assms(3) by simp
  have skip: "skip_fill_bytes (length (br_bytes r)) r = r\<lparr>cursor := cursor r + k\<rparr>"
    using skip_fill_bytes_fills [OF assms(3)] assms(1) len by simp
  have "drop (cursor r + k) (br_bytes r) = PREFIX # m # rest"
    using assms(3) by (metis add.commute append_eq_conv_conj drop_drop length_replicate)
  note d = drop_Cons_nth [OF this] and d2 = drop_Cons_nth [OF drop_Cons_nth(3) [OF this]]
  show "read_marker r = Inr (m, r\<lparr>cursor := cursor r + k + 2\<rparr>)"
    using d(2) d2(1,2) skip assms(4) by (simp add: read_marker_def Let_def)
qed

theorem marker_readers_on_fill_bytes_witness:
  "next_marker (parser_new [0xFF, 0xFF, 0xDB]) = Inl (UnexpectedMarker 0xDB 2) \<and>
   read_marker (bit_reader_new [0xFF, 0xFF, 0xDB]) = Inr (0xDB, (bit_reader_new [0xFF, 0xFF, 0xDB])\<lparr>cursor := 3\<rparr>)"
  using marker_readers_on_fill_bytes [of "0xDB" "parser_new [0xFF, 0xFF, 0xDB]" 1 "[]" "bit_reader_new [0xFF, 0xFF, 0xDB]"]
  by (simp add: parser_new_def bit_reader_new_def)

end
