(* ===== verification/Color_Info.thy ===== *)
theory Color_Info
  imports Prelude
begin

text \<open>
  Colour descriptions: the four-axis vocabulary of a video bag
  (\<open>runtime/streamlib-media-builtins/src/video_frame.rs\<close>), the engine's ids and their defaults
  (\<open>runtime/streamlib-engine/src/core/color\<close>), the H.273 bytes of a bitstream
  (\<open>h273_color_vui_translation.rs\<close>, \<open>vulkan/video/encode/color_vui.rs\<close>) and the fields of a V4L2
  device (\<open>v4l2_color.rs\<close>), with the translations between them.
\<close>

subsection \<open>The vocabulary of a bag\<close>

datatype primaries =
    Primaries_Bt709 | Primaries_Bt470M | Primaries_Bt470Bg | Primaries_Smpte170m
  | Primaries_Smpte240m | Primaries_Film | Primaries_Bt2020 | Primaries_Smpte428
  | Primaries_Smpte431 | Primaries_Smpte432 | Primaries_Ebu3213

datatype transfer =
    Transfer_Bt709 | Transfer_Gamma22 | Transfer_Gamma28 | Transfer_Smpte170m
  | Transfer_Smpte240m | Transfer_Linear | Transfer_Log100 | Transfer_Log100Sqrt10
  | Transfer_Xvycc | Transfer_Bt1361 | Transfer_Srgb | Transfer_Bt2020TenBit
  | Transfer_Bt2020TwelveBit | Transfer_Smpte2084 | Transfer_Smpte428 | Transfer_AribStdB67

datatype matrix =
    Matrix_Identity | Matrix_Bt709 | Matrix_Fcc | Matrix_Bt470Bg
  | Matrix_Smpte170m | Matrix_Smpte240m | Matrix_Ycgco | Matrix_Bt2020Ncl
  | Matrix_Bt2020Cl | Matrix_Smpte2085 | Matrix_ChromaNcl | Matrix_ChromaCl
  | Matrix_Ictcp

datatype range = Range_Full | Range_Limited

record color_info =
  primaries_axis :: "primaries option"
  transfer_axis :: "transfer option"
  matrix_axis :: "matrix option"
  range_axis :: "range option"

definition color_info_unspecified :: color_info where
  "color_info_unspecified =
     \<lparr>primaries_axis = None, transfer_axis = None, matrix_axis = None, range_axis = None\<rparr>"

subsection \<open>The engine's ids\<close>

datatype primaries_id =
    PrimariesId_Bt709 | PrimariesId_Bt470M | PrimariesId_Bt470Bg | PrimariesId_Smpte170m
  | PrimariesId_Smpte240m | PrimariesId_Film | PrimariesId_Bt2020 | PrimariesId_Smpte428
  | PrimariesId_Smpte431 | PrimariesId_Smpte432 | PrimariesId_Ebu3213

datatype transfer_id =
    TransferId_Linear | TransferId_Srgb | TransferId_Bt709 | TransferId_Pq
  | TransferId_Hlg

datatype matrix_id =
    MatrixId_Identity | MatrixId_Bt709 | MatrixId_Fcc | MatrixId_Bt470Bg
  | MatrixId_Smpte170m | MatrixId_Smpte240m | MatrixId_Ycgco | MatrixId_Bt2020Ncl
  | MatrixId_Bt2020Cl | MatrixId_Smpte2085 | MatrixId_ChromaNcl | MatrixId_ChromaCl
  | MatrixId_Ictcp

datatype range_id = RangeId_Limited | RangeId_Full

record resolved_color_info =
  rc_primaries :: primaries_id
  rc_transfer :: transfer_id
  rc_matrix :: matrix_id
  rc_range :: range_id

datatype color_space_kind = Rgb | Yuv

definition unwrap_or :: "'a \<Rightarrow> 'a option \<Rightarrow> 'a" where
  "unwrap_or d x = (case x of None \<Rightarrow> d | Some v \<Rightarrow> v)"

lemma unwrap_or_simps [simp]: "unwrap_or d None = d" "unwrap_or d (Some v) = v"
  by (simp_all add: unwrap_or_def)

definition resolve_color_defaults ::
    "primaries_id option \<Rightarrow> transfer_id option \<Rightarrow> matrix_id option \<Rightarrow> range_id option \<Rightarrow>
      color_space_kind \<Rightarrow> resolved_color_info" where
  "resolve_color_defaults p t m r kind =
     \<lparr>rc_primaries = unwrap_or PrimariesId_Bt709 p,
      rc_transfer = unwrap_or (case kind of Rgb \<Rightarrow> TransferId_Srgb | Yuv \<Rightarrow> TransferId_Bt709) t,
      rc_matrix = (case kind of Rgb \<Rightarrow> MatrixId_Identity | Yuv \<Rightarrow> unwrap_or MatrixId_Smpte170m m),
      rc_range = unwrap_or (case kind of Rgb \<Rightarrow> RangeId_Full | Yuv \<Rightarrow> RangeId_Limited) r\<rparr>"

fun primaries_engine_id :: "primaries \<Rightarrow> primaries_id" where
  "primaries_engine_id Primaries_Bt709 = PrimariesId_Bt709"
| "primaries_engine_id Primaries_Bt470M = PrimariesId_Bt470M"
| "primaries_engine_id Primaries_Bt470Bg = PrimariesId_Bt470Bg"
| "primaries_engine_id Primaries_Smpte170m = PrimariesId_Smpte170m"
| "primaries_engine_id Primaries_Smpte240m = PrimariesId_Smpte240m"
| "primaries_engine_id Primaries_Film = PrimariesId_Film"
| "primaries_engine_id Primaries_Bt2020 = PrimariesId_Bt2020"
| "primaries_engine_id Primaries_Smpte428 = PrimariesId_Smpte428"
| "primaries_engine_id Primaries_Smpte431 = PrimariesId_Smpte431"
| "primaries_engine_id Primaries_Smpte432 = PrimariesId_Smpte432"
| "primaries_engine_id Primaries_Ebu3213 = PrimariesId_Ebu3213"

fun transfer_engine_id :: "transfer \<Rightarrow> transfer_id" where
  "transfer_engine_id Transfer_Bt709 = TransferId_Bt709"
| "transfer_engine_id Transfer_Gamma22 = TransferId_Bt709"
| "transfer_engine_id Transfer_Gamma28 = TransferId_Bt709"
| "transfer_engine_id Transfer_Smpte170m = TransferId_Bt709"
| "transfer_engine_id Transfer_Smpte240m = TransferId_Bt709"
| "transfer_engine_id Transfer_Linear = TransferId_Linear"
| "transfer_engine_id Transfer_Log100 = TransferId_Bt709"
| "transfer_engine_id Transfer_Log100Sqrt10 = TransferId_Bt709"
| "transfer_engine_id Transfer_Xvycc = TransferId_Bt709"
| "transfer_engine_id Transfer_Bt1361 = TransferId_Bt709"
| "transfer_engine_id Transfer_Srgb = TransferId_Srgb"
| "transfer_engine_id Transfer_Bt2020TenBit = TransferId_Bt709"
| "transfer_engine_id Transfer_Bt2020TwelveBit = TransferId_Bt709"
| "transfer_engine_id Transfer_Smpte2084 = TransferId_Pq"
| "transfer_engine_id Transfer_Smpte428 = TransferId_Bt709"
| "transfer_engine_id Transfer_AribStdB67 = TransferId_Hlg"

fun matrix_engine_id :: "matrix \<Rightarrow> matrix_id" where
  "matrix_engine_id Matrix_Identity = MatrixId_Identity"
| "matrix_engine_id Matrix_Bt709 = MatrixId_Bt709"
| "matrix_engine_id Matrix_Fcc = MatrixId_Fcc"
| "matrix_engine_id Matrix_Bt470Bg = MatrixId_Bt470Bg"
| "matrix_engine_id Matrix_Smpte170m = MatrixId_Smpte170m"
| "matrix_engine_id Matrix_Smpte240m = MatrixId_Smpte240m"
| "matrix_engine_id Matrix_Ycgco = MatrixId_Ycgco"
| "matrix_engine_id Matrix_Bt2020Ncl = MatrixId_Bt2020Ncl"
| "matrix_engine_id Matrix_Bt2020Cl = MatrixId_Bt2020Cl"
| "matrix_engine_id Matrix_Smpte2085 = MatrixId_Smpte2085"
| "matrix_engine_id Matrix_ChromaNcl = MatrixId_ChromaNcl"
| "matrix_engine_id Matrix_ChromaCl = MatrixId_ChromaCl"
| "matrix_engine_id Matrix_Ictcp = MatrixId_Ictcp"

fun range_engine_id :: "range \<Rightarrow> range_id" where
  "range_engine_id Range_Limited = RangeId_Limited"
| "range_engine_id Range_Full = RangeId_Full"

definition resolve_defaults :: "color_info \<Rightarrow> color_space_kind \<Rightarrow> resolved_color_info" where
  "resolve_defaults c kind =
     resolve_color_defaults (map_option primaries_engine_id (primaries_axis c))
       (map_option transfer_engine_id (transfer_axis c)) (map_option matrix_engine_id (matrix_axis c))
       (map_option range_engine_id (range_axis c)) kind"

fun primaries_from_id :: "primaries_id \<Rightarrow> primaries" where
  "primaries_from_id PrimariesId_Bt709 = Primaries_Bt709"
| "primaries_from_id PrimariesId_Bt470M = Primaries_Bt470M"
| "primaries_from_id PrimariesId_Bt470Bg = Primaries_Bt470Bg"
| "primaries_from_id PrimariesId_Smpte170m = Primaries_Smpte170m"
| "primaries_from_id PrimariesId_Smpte240m = Primaries_Smpte240m"
| "primaries_from_id PrimariesId_Film = Primaries_Film"
| "primaries_from_id PrimariesId_Bt2020 = Primaries_Bt2020"
| "primaries_from_id PrimariesId_Smpte428 = Primaries_Smpte428"
| "primaries_from_id PrimariesId_Smpte431 = Primaries_Smpte431"
| "primaries_from_id PrimariesId_Smpte432 = Primaries_Smpte432"
| "primaries_from_id PrimariesId_Ebu3213 = Primaries_Ebu3213"

fun transfer_from_id :: "transfer_id \<Rightarrow> transfer" where
  "transfer_from_id TransferId_Linear = Transfer_Linear"
| "transfer_from_id TransferId_Srgb = Transfer_Srgb"
| "transfer_from_id TransferId_Bt709 = Transfer_Bt709"
| "transfer_from_id TransferId_Pq = Transfer_Smpte2084"
| "transfer_from_id TransferId_Hlg = Transfer_AribStdB67"

fun matrix_from_id :: "matrix_id \<Rightarrow> matrix" where
  "matrix_from_id MatrixId_Identity = Matrix_Identity"
| "matrix_from_id MatrixId_Bt709 = Matrix_Bt709"
| "matrix_from_id MatrixId_Fcc = Matrix_Fcc"
| "matrix_from_id MatrixId_Bt470Bg = Matrix_Bt470Bg"
| "matrix_from_id MatrixId_Smpte170m = Matrix_Smpte170m"
| "matrix_from_id MatrixId_Smpte240m = Matrix_Smpte240m"
| "matrix_from_id MatrixId_Ycgco = Matrix_Ycgco"
| "matrix_from_id MatrixId_Bt2020Ncl = Matrix_Bt2020Ncl"
| "matrix_from_id MatrixId_Bt2020Cl = Matrix_Bt2020Cl"
| "matrix_from_id MatrixId_Smpte2085 = Matrix_Smpte2085"
| "matrix_from_id MatrixId_ChromaNcl = Matrix_ChromaNcl"
| "matrix_from_id MatrixId_ChromaCl = Matrix_ChromaCl"
| "matrix_from_id MatrixId_Ictcp = Matrix_Ictcp"

fun range_from_id :: "range_id \<Rightarrow> range" where
  "range_from_id RangeId_Limited = Range_Limited"
| "range_from_id RangeId_Full = Range_Full"

definition resolved_color_info_to_core :: "resolved_color_info \<Rightarrow> color_info" where
  "resolved_color_info_to_core r =
     \<lparr>primaries_axis = Some (primaries_from_id (rc_primaries r)),
      transfer_axis = Some (transfer_from_id (rc_transfer r)),
      matrix_axis = Some (matrix_from_id (rc_matrix r)),
      range_axis = Some (range_from_id (rc_range r))\<rparr>"

subsection \<open>H.273 bytes\<close>

record h273_color_vui =
  vui_primaries :: "u8 option"
  vui_transfer :: "u8 option"
  vui_matrix :: "u8 option"
  vui_full_range :: "bool option"

abbreviation H273_UNSPECIFIED :: u8 where "H273_UNSPECIFIED \<equiv> 2"

definition is_video_signal_type_block_needed :: "h273_color_vui \<Rightarrow> bool" where
  "is_video_signal_type_block_needed v \<longleftrightarrow>
     vui_primaries v \<noteq> None \<or> vui_transfer v \<noteq> None \<or> vui_matrix v \<noteq> None \<or> vui_full_range v \<noteq> None"

definition is_colour_description_block_needed :: "h273_color_vui \<Rightarrow> bool" where
  "is_colour_description_block_needed v \<longleftrightarrow>
     vui_primaries v \<noteq> None \<or> vui_transfer v \<noteq> None \<or> vui_matrix v \<noteq> None"

definition primaries_byte :: "h273_color_vui \<Rightarrow> u8" where
  "primaries_byte v = unwrap_or H273_UNSPECIFIED (vui_primaries v)"

definition transfer_byte :: "h273_color_vui \<Rightarrow> u8" where
  "transfer_byte v = unwrap_or H273_UNSPECIFIED (vui_transfer v)"

definition matrix_byte :: "h273_color_vui \<Rightarrow> u8" where
  "matrix_byte v = unwrap_or H273_UNSPECIFIED (vui_matrix v)"

definition full_range_bit :: "h273_color_vui \<Rightarrow> u32" where
  "full_range_bit v = of_bool (unwrap_or False (vui_full_range v))"

fun primaries_to_h273_byte :: "primaries \<Rightarrow> u8" where
  "primaries_to_h273_byte Primaries_Bt709 = 1"
| "primaries_to_h273_byte Primaries_Bt470M = 4"
| "primaries_to_h273_byte Primaries_Bt470Bg = 5"
| "primaries_to_h273_byte Primaries_Smpte170m = 6"
| "primaries_to_h273_byte Primaries_Smpte240m = 7"
| "primaries_to_h273_byte Primaries_Film = 8"
| "primaries_to_h273_byte Primaries_Bt2020 = 9"
| "primaries_to_h273_byte Primaries_Smpte428 = 10"
| "primaries_to_h273_byte Primaries_Smpte431 = 11"
| "primaries_to_h273_byte Primaries_Smpte432 = 12"
| "primaries_to_h273_byte Primaries_Ebu3213 = 22"

definition primaries_from_h273_byte :: "u8 \<Rightarrow> primaries option" where
  "primaries_from_h273_byte b = map_of
     [(1, Primaries_Bt709), (4, Primaries_Bt470M), (5, Primaries_Bt470Bg),
      (6, Primaries_Smpte170m), (7, Primaries_Smpte240m), (8, Primaries_Film),
      (9, Primaries_Bt2020), (10, Primaries_Smpte428), (11, Primaries_Smpte431),
      (12, Primaries_Smpte432), (22, Primaries_Ebu3213)] b"

fun transfer_to_h273_byte :: "transfer \<Rightarrow> u8" where
  "transfer_to_h273_byte Transfer_Bt709 = 1"
| "transfer_to_h273_byte Transfer_Gamma22 = 4"
| "transfer_to_h273_byte Transfer_Gamma28 = 5"
| "transfer_to_h273_byte Transfer_Smpte170m = 6"
| "transfer_to_h273_byte Transfer_Smpte240m = 7"
| "transfer_to_h273_byte Transfer_Linear = 8"
| "transfer_to_h273_byte Transfer_Log100 = 9"
| "transfer_to_h273_byte Transfer_Log100Sqrt10 = 10"
| "transfer_to_h273_byte Transfer_Xvycc = 11"
| "transfer_to_h273_byte Transfer_Bt1361 = 12"
| "transfer_to_h273_byte Transfer_Srgb = 13"
| "transfer_to_h273_byte Transfer_Bt2020TenBit = 14"
| "transfer_to_h273_byte Transfer_Bt2020TwelveBit = 15"
| "transfer_to_h273_byte Transfer_Smpte2084 = 16"
| "transfer_to_h273_byte Transfer_Smpte428 = 17"
| "transfer_to_h273_byte Transfer_AribStdB67 = 18"

definition transfer_from_h273_byte :: "u8 \<Rightarrow> transfer option" where
  "transfer_from_h273_byte b = map_of
     [(1, Transfer_Bt709), (4, Transfer_Gamma22), (5, Transfer_Gamma28),
      (6, Transfer_Smpte170m), (7, Transfer_Smpte240m), (8, Transfer_Linear),
      (9, Transfer_Log100), (10, Transfer_Log100Sqrt10), (11, Transfer_Xvycc),
      (12, Transfer_Bt1361), (13, Transfer_Srgb), (14, Transfer_Bt2020TenBit),
      (15, Transfer_Bt2020TwelveBit), (16, Transfer_Smpte2084), (17, Transfer_Smpte428),
      (18, Transfer_AribStdB67)] b"

fun matrix_to_h273_byte :: "matrix \<Rightarrow> u8" where
  "matrix_to_h273_byte Matrix_Identity = 0"
| "matrix_to_h273_byte Matrix_Bt709 = 1"
| "matrix_to_h273_byte Matrix_Fcc = 4"
| "matrix_to_h273_byte Matrix_Bt470Bg = 5"
| "matrix_to_h273_byte Matrix_Smpte170m = 6"
| "matrix_to_h273_byte Matrix_Smpte240m = 7"
| "matrix_to_h273_byte Matrix_Ycgco = 8"
| "matrix_to_h273_byte Matrix_Bt2020Ncl = 9"
| "matrix_to_h273_byte Matrix_Bt2020Cl = 10"
| "matrix_to_h273_byte Matrix_Smpte2085 = 11"
| "matrix_to_h273_byte Matrix_ChromaNcl = 12"
| "matrix_to_h273_byte Matrix_ChromaCl = 13"
| "matrix_to_h273_byte Matrix_Ictcp = 14"

definition matrix_from_h273_byte :: "u8 \<Rightarrow> matrix option" where
  "matrix_from_h273_byte b = map_of
     [(0, Matrix_Identity), (1, Matrix_Bt709), (4, Matrix_Fcc),
      (5, Matrix_Bt470Bg), (6, Matrix_Smpte170m), (7, Matrix_Smpte240m),
      (8, Matrix_Ycgco), (9, Matrix_Bt2020Ncl), (10, Matrix_Bt2020Cl),
      (11, Matrix_Smpte2085), (12, Matrix_ChromaNcl), (13, Matrix_ChromaCl),
      (14, Matrix_Ictcp)] b"

definition color_info_to_h273_color_vui :: "color_info \<Rightarrow> h273_color_vui" where
  "color_info_to_h273_color_vui c =
     \<lparr>vui_primaries = map_option primaries_to_h273_byte (primaries_axis c),
      vui_transfer = map_option transfer_to_h273_byte (transfer_axis c),
      vui_matrix = map_option matrix_to_h273_byte (matrix_axis c),
      vui_full_range = map_option (\<lambda>r. r = Range_Full) (range_axis c)\<rparr>"

definition h273_color_vui_to_color_info :: "h273_color_vui \<Rightarrow> color_info option" where
  "h273_color_vui_to_color_info v =
     (let c = \<lparr>primaries_axis = Option.bind (vui_primaries v) primaries_from_h273_byte,
               transfer_axis = Option.bind (vui_transfer v) transfer_from_h273_byte,
               matrix_axis = Option.bind (vui_matrix v) matrix_from_h273_byte,
               range_axis = map_option (\<lambda>full. if full then Range_Full else Range_Limited) (vui_full_range v)\<rparr>
      in if c \<noteq> color_info_unspecified then Some c else None)"

subsection \<open>V4L2 fields\<close>

record v4l2_color_fields =
  v4l2_colorspace :: u32
  v4l2_xfer_func :: u32
  v4l2_ycbcr_enc :: u32
  v4l2_quantization :: u32

fun v4l2_colorspace_of :: "primaries_id \<Rightarrow> transfer_id \<Rightarrow> u32" where
  "v4l2_colorspace_of PrimariesId_Smpte170m t = 1"
| "v4l2_colorspace_of PrimariesId_Smpte240m t = 2"
| "v4l2_colorspace_of PrimariesId_Bt709 t = (if t = TransferId_Srgb then 8 else 3)"
| "v4l2_colorspace_of PrimariesId_Bt470M t = 5"
| "v4l2_colorspace_of PrimariesId_Bt470Bg t = 6"
| "v4l2_colorspace_of PrimariesId_Bt2020 t = 10"
| "v4l2_colorspace_of PrimariesId_Smpte431 t = 12"
| "v4l2_colorspace_of _ t = 0"

fun v4l2_xfer_func_of :: "transfer_id \<Rightarrow> u32" where
  "v4l2_xfer_func_of TransferId_Bt709 = 1"
| "v4l2_xfer_func_of TransferId_Srgb = 2"
| "v4l2_xfer_func_of TransferId_Linear = 5"
| "v4l2_xfer_func_of TransferId_Pq = 7"
| "v4l2_xfer_func_of TransferId_Hlg = 0"

fun v4l2_ycbcr_enc_of :: "matrix_id \<Rightarrow> u32" where
  "v4l2_ycbcr_enc_of MatrixId_Smpte170m = 1"
| "v4l2_ycbcr_enc_of MatrixId_Bt470Bg = 1"
| "v4l2_ycbcr_enc_of MatrixId_Fcc = 1"
| "v4l2_ycbcr_enc_of MatrixId_Bt709 = 2"
| "v4l2_ycbcr_enc_of MatrixId_Bt2020Ncl = 6"
| "v4l2_ycbcr_enc_of MatrixId_Bt2020Cl = 7"
| "v4l2_ycbcr_enc_of MatrixId_Smpte240m = 8"
| "v4l2_ycbcr_enc_of _ = 0"

fun v4l2_quantization_of :: "range_id \<Rightarrow> u32" where
  "v4l2_quantization_of RangeId_Full = 1"
| "v4l2_quantization_of RangeId_Limited = 2"

definition resolved_color_to_v4l2_color :: "resolved_color_info \<Rightarrow> v4l2_color_fields" where
  "resolved_color_to_v4l2_color r =
     \<lparr>v4l2_colorspace = v4l2_colorspace_of (rc_primaries r) (rc_transfer r),
      v4l2_xfer_func = v4l2_xfer_func_of (rc_transfer r),
      v4l2_ycbcr_enc = v4l2_ycbcr_enc_of (rc_matrix r),
      v4l2_quantization = v4l2_quantization_of (rc_range r)\<rparr>"

definition primaries_from_v4l2 :: "u32 \<Rightarrow> primaries option" where
  "primaries_from_v4l2 colorspace = map_of
     [(1, Primaries_Smpte170m), (4, Primaries_Smpte170m), (2, Primaries_Smpte240m), (3, Primaries_Bt709),
      (5, Primaries_Bt470M), (6, Primaries_Bt470Bg), (7, Primaries_Bt709), (8, Primaries_Bt709),
      (10, Primaries_Bt2020), (12, Primaries_Smpte431)] colorspace"

definition transfer_from_v4l2 :: "u32 \<Rightarrow> u32 \<Rightarrow> transfer option" where
  "transfer_from_v4l2 xfer_func colorspace =
     Option.bind
       (if xfer_func \<noteq> 0 then Some xfer_func
        else if colorspace = 9 then Some 3
        else if colorspace = 2 then Some 4
        else if colorspace = 12 then Some 6
        else if colorspace = 11 then Some 5
        else if colorspace = 8 \<or> colorspace = 7 then Some 2
        else if colorspace = 0 then None
        else Some 1)
       (\<lambda>resolved. map_of
          [(1, Transfer_Bt709), (2, Transfer_Srgb), (4, Transfer_Smpte240m), (5, Transfer_Linear),
           (7, Transfer_Smpte2084)] resolved)"

definition matrix_from_v4l2 :: "u32 \<Rightarrow> u32 \<Rightarrow> matrix option" where
  "matrix_from_v4l2 ycbcr_enc colorspace =
     Option.bind
       (if ycbcr_enc \<noteq> 0 then Some ycbcr_enc
        else if colorspace = 3 \<or> colorspace = 12 then Some 2
        else if colorspace = 10 then Some 6
        else if colorspace = 2 then Some 8
        else if colorspace = 0 then None
        else Some 1)
       (\<lambda>resolved. map_of
          [(1, Matrix_Smpte170m), (3, Matrix_Smpte170m), (5, Matrix_Smpte170m), (2, Matrix_Bt709),
           (4, Matrix_Bt709), (6, Matrix_Bt2020Ncl), (7, Matrix_Bt2020Cl), (8, Matrix_Smpte240m)] resolved)"

definition range_from_v4l2 :: "u32 \<Rightarrow> u32 \<Rightarrow> range option" where
  "range_from_v4l2 quantization colorspace =
     Option.bind
       (if quantization \<noteq> 0 then Some quantization
        else if colorspace = 7 then Some 1
        else if colorspace = 0 then None
        else Some 2)
       (\<lambda>resolved. map_of [(1, Range_Full), (2, Range_Limited)] resolved)"

definition v4l2_color_to_color_info :: "u32 \<Rightarrow> u32 \<Rightarrow> u32 \<Rightarrow> u32 \<Rightarrow> color_info" where
  "v4l2_color_to_color_info colorspace xfer_func ycbcr_enc quantization =
     \<lparr>primaries_axis = primaries_from_v4l2 colorspace,
      transfer_axis = transfer_from_v4l2 xfer_func colorspace,
      matrix_axis = matrix_from_v4l2 ycbcr_enc colorspace,
      range_axis = range_from_v4l2 quantization colorspace\<rparr>"

subsection \<open>Lemmas\<close>

lemma primaries_h273: "primaries_from_h273_byte (primaries_to_h273_byte p) = Some p"
  by (cases p) (simp_all add: primaries_from_h273_byte_def)

lemma transfer_h273: "transfer_from_h273_byte (transfer_to_h273_byte t) = Some t"
  by (cases t) (simp_all add: transfer_from_h273_byte_def)

lemma matrix_h273: "matrix_from_h273_byte (matrix_to_h273_byte m) = Some m"
  by (cases m) (simp_all add: matrix_from_h273_byte_def)

lemma h273_bytes_back:
  "primaries_from_h273_byte b = Some p \<Longrightarrow> primaries_to_h273_byte p = b"
  "transfer_from_h273_byte b = Some t \<Longrightarrow> transfer_to_h273_byte t = b"
  "matrix_from_h273_byte b = Some m \<Longrightarrow> matrix_to_h273_byte m = b"
  by (auto simp: primaries_from_h273_byte_def transfer_from_h273_byte_def matrix_from_h273_byte_def
      split: if_splits)

lemma unspecified_has_no_meaning:
  "primaries_from_h273_byte H273_UNSPECIFIED = None" "transfer_from_h273_byte H273_UNSPECIFIED = None"
  "matrix_from_h273_byte H273_UNSPECIFIED = None"
  by (simp_all add: primaries_from_h273_byte_def transfer_from_h273_byte_def matrix_from_h273_byte_def)

lemma resolved_round_trip: "resolve_defaults (resolved_color_info_to_core r) Yuv = r"
proof -
  have "primaries_engine_id (primaries_from_id p) = p" for p by (cases p) simp_all
  moreover have "transfer_engine_id (transfer_from_id t) = t" for t by (cases t) simp_all
  moreover have "matrix_engine_id (matrix_from_id m) = m" for m by (cases m) simp_all
  moreover have "range_engine_id (range_from_id x) = x" for x by (cases x) simp_all
  ultimately show ?thesis by (simp add: resolve_defaults_def resolve_color_defaults_def resolved_color_info_to_core_def)
qed

lemma v4l2_primaries_read_back:
  "primaries_from_v4l2 (v4l2_colorspace_of p t) = Some (primaries_from_id p) \<longleftrightarrow>
     p \<notin> {PrimariesId_Film, PrimariesId_Smpte428, PrimariesId_Smpte432, PrimariesId_Ebu3213}"
  by (cases p) (simp_all add: primaries_from_v4l2_def)

lemma v4l2_transfer_read_back:
  "transfer_from_v4l2 (v4l2_xfer_func_of t) (v4l2_colorspace_of p t) = Some (transfer_from_id t) \<longleftrightarrow>
     t \<noteq> TransferId_Hlg"
proof (cases t)
  case TransferId_Hlg
  then show ?thesis by (cases p) (simp_all add: transfer_from_v4l2_def)
qed (simp_all add: transfer_from_v4l2_def)

lemma v4l2_matrix_read_back:
  "matrix_from_v4l2 (v4l2_ycbcr_enc_of m) (v4l2_colorspace_of p t) = Some (matrix_from_id m) \<longleftrightarrow>
     m \<in> {MatrixId_Smpte170m, MatrixId_Bt709, MatrixId_Bt2020Ncl, MatrixId_Bt2020Cl, MatrixId_Smpte240m}"
proof -
  have "v4l2_colorspace_of p t \<in> {0, 1, 2, 3, 5, 6, 8, 10, 12}" by (cases p) simp_all
  then show ?thesis by (cases m) (auto simp: matrix_from_v4l2_def)
qed

lemma v4l2_range_read_back: "range_from_v4l2 (v4l2_quantization_of x) c = Some (range_from_id x)"
  by (cases x) (simp_all add: range_from_v4l2_def)

subsection \<open>Properties\<close>

text \<open>C35: a colour description survives the bitstream. Translated to the bytes of the video signal
  block and back, every description is returned as it was, with the empty one as no description;
  the block is asked for exactly when there is something to write; an axis that is written as
  Unspecified only because a peer axis is present reads back as absent; and the engine's resolved
  description survives the vocabulary of a bag.\<close>

theorem color_description_roundtrip:
  "h273_color_vui_to_color_info (color_info_to_h273_color_vui c) =
     (if c = color_info_unspecified then None else Some c) \<and>
   is_video_signal_type_block_needed (color_info_to_h273_color_vui c) = (c \<noteq> color_info_unspecified) \<and>
   is_colour_description_block_needed (color_info_to_h273_color_vui c) =
     (c\<lparr>range_axis := None\<rparr> \<noteq> color_info_unspecified) \<and>
   primaries_from_h273_byte (primaries_byte (color_info_to_h273_color_vui c)) = primaries_axis c \<and>
   transfer_from_h273_byte (transfer_byte (color_info_to_h273_color_vui c)) = transfer_axis c \<and>
   matrix_from_h273_byte (matrix_byte (color_info_to_h273_color_vui c)) = matrix_axis c \<and>
   full_range_bit (color_info_to_h273_color_vui c) = of_bool (range_axis c = Some Range_Full) \<and>
   resolve_defaults (resolved_color_info_to_core r) Yuv = r"
proof -
  obtain p t m x where c: "c = \<lparr>primaries_axis = p, transfer_axis = t, matrix_axis = m, range_axis = x\<rparr>"
    by (cases c)
  have rng: "map_option (\<lambda>full. if full then Range_Full else Range_Limited) (map_option (\<lambda>r. r = Range_Full) x) = x"
    by (cases x; cases "the x") auto
  have inverse: "Option.bind (map_option primaries_to_h273_byte p) primaries_from_h273_byte = p"
    by (cases p) (simp_all add: primaries_h273)
  have inverse2: "Option.bind (map_option transfer_to_h273_byte t) transfer_from_h273_byte = t"
    by (cases t) (simp_all add: transfer_h273)
  have inverse3: "Option.bind (map_option matrix_to_h273_byte m) matrix_from_h273_byte = m"
    by (cases m) (simp_all add: matrix_h273)
  have bytes: "primaries_from_h273_byte (unwrap_or H273_UNSPECIFIED (map_option primaries_to_h273_byte p)) = p"
    by (cases p) (simp_all add: primaries_h273 unspecified_has_no_meaning)
  have bytes2: "transfer_from_h273_byte (unwrap_or H273_UNSPECIFIED (map_option transfer_to_h273_byte t)) = t"
    by (cases t) (simp_all add: transfer_h273 unspecified_has_no_meaning)
  have bytes3: "matrix_from_h273_byte (unwrap_or H273_UNSPECIFIED (map_option matrix_to_h273_byte m)) = m"
    by (cases m) (simp_all add: matrix_h273 unspecified_has_no_meaning)
  have flag: "of_bool (unwrap_or False (map_option (\<lambda>r. r = Range_Full) x)) = (of_bool (x = Some Range_Full) :: u32)"
    by (cases x) auto
  show ?thesis
    using rng inverse inverse2 inverse3 bytes bytes2 bytes3 flag resolved_round_trip
    by (simp add: c color_info_to_h273_color_vui_def h273_color_vui_to_color_info_def Let_def
        is_video_signal_type_block_needed_def is_colour_description_block_needed_def color_info_unspecified_def
        primaries_byte_def transfer_byte_def matrix_byte_def full_range_bit_def)
qed

text \<open>C36: what a reader of a V4L2 output device takes the pixels for. Each axis of the resolved
  description is read back as it was written exactly when V4L2 can name its value: the range
  always, the transfer unless it is HLG, the primaries except for four, and of the matrices five.
  Every other matrix, identity among them, is left to the default of the colour space and read
  back as a different one or as unknown.\<close>

theorem v4l2_output_colour_is_read_back:
  assumes "resolved_color_to_v4l2_color r = \<lparr>v4l2_colorspace = cs, v4l2_xfer_func = xf, v4l2_ycbcr_enc = ye, v4l2_quantization = qu\<rparr>"
  shows "range_axis (v4l2_color_to_color_info cs xf ye qu) = Some (range_from_id (rc_range r)) \<and>
    (transfer_axis (v4l2_color_to_color_info cs xf ye qu) = Some (transfer_from_id (rc_transfer r)) \<longleftrightarrow>
       rc_transfer r \<noteq> TransferId_Hlg) \<and>
    (primaries_axis (v4l2_color_to_color_info cs xf ye qu) = Some (primaries_from_id (rc_primaries r)) \<longleftrightarrow>
       rc_primaries r \<notin> {PrimariesId_Film, PrimariesId_Smpte428, PrimariesId_Smpte432, PrimariesId_Ebu3213}) \<and>
    (matrix_axis (v4l2_color_to_color_info cs xf ye qu) = Some (matrix_from_id (rc_matrix r)) \<longleftrightarrow>
       rc_matrix r \<in> {MatrixId_Smpte170m, MatrixId_Bt709, MatrixId_Bt2020Ncl, MatrixId_Bt2020Cl, MatrixId_Smpte240m})"
proof -
  have f: "cs = v4l2_colorspace_of (rc_primaries r) (rc_transfer r)" "xf = v4l2_xfer_func_of (rc_transfer r)"
    "ye = v4l2_ycbcr_enc_of (rc_matrix r)" "qu = v4l2_quantization_of (rc_range r)"
    using assms by (simp_all add: resolved_color_to_v4l2_color_def)
  show ?thesis unfolding f v4l2_color_to_color_info_def color_info.select_convs
    by (intro conjI v4l2_range_read_back v4l2_transfer_read_back v4l2_primaries_read_back v4l2_matrix_read_back)
qed

theorem v4l2_output_colour_is_read_back_witness:
  "matrix_axis (v4l2_color_to_color_info 8 2 0 1) \<noteq> Some Matrix_Identity \<and>
   transfer_axis (v4l2_color_to_color_info 8 2 0 1) = Some Transfer_Srgb"
  using v4l2_output_colour_is_read_back [of "resolve_color_defaults None None None None Rgb" 8 2 0 1]
  by (simp add: resolve_color_defaults_def resolved_color_to_v4l2_color_def)

end
