(* ===== verification/Jpeg_Color.thy ===== *)
theory Jpeg_Color
  imports Jpeg_Headers Color_Info
begin

text \<open>
  Colour metadata from the application segments of a JPEG file (\<open>sdk/vulkan-jpeg/src/color.rs\<close>):
  the JFIF, EXIF, ICC and Adobe payload parsers, reassembly of an ICC profile from its fragments,
  and the resolution to the four colour axes that drive the GPU kernel.
\<close>

record jfif_metadata =
  jfif_version :: "u8 \<times> u8"

datatype adobe_transform = Direct | YCbCr | YCCK | OtherTransform u8

record adobe_metadata =
  adobe_transform_field :: adobe_transform

datatype exif_color_space = Srgb | Uncalibrated | OtherColorSpace "16 word"

record jpeg_color_info =
  ci_jfif :: "jfif_metadata option"
  ci_adobe :: "adobe_metadata option"
  ci_exif_color_space :: "exif_color_space option"
  ci_icc_profile :: "bytes option"

definition color_info_default :: jpeg_color_info where
  "color_info_default =
     \<lparr>ci_jfif = None, ci_adobe = None, ci_exif_color_space = None, ci_icc_profile = None\<rparr>"

definition transform_from_byte :: "u8 \<Rightarrow> adobe_transform" where
  "transform_from_byte b =
     (if b = 0 then Direct else if b = 1 then YCbCr else if b = 2 then YCCK else OtherTransform b)"

definition color_space_from_u16 :: "16 word \<Rightarrow> exif_color_space" where
  "color_space_from_u16 v = (if v = 1 then Srgb else if v = 0xFFFF then Uncalibrated else OtherColorSpace v)"

definition ascii :: "string \<Rightarrow> bytes" where
  "ascii s = map of_char s"

definition JFIF_IDENTIFIER :: bytes where "JFIF_IDENTIFIER = ascii ''JFIF'' @ [0]"
definition EXIF_IDENTIFIER :: bytes where "EXIF_IDENTIFIER = ascii ''Exif'' @ [0, 0]"
definition ICC_IDENTIFIER :: bytes where "ICC_IDENTIFIER = ascii ''ICC_PROFILE'' @ [0]"
definition ADOBE_IDENTIFIER :: bytes where "ADOBE_IDENTIFIER = ascii ''Adobe'' @ [0]"

definition starts_with :: "'a list \<Rightarrow> 'a list \<Rightarrow> bool" where
  "starts_with xs p \<longleftrightarrow> take (length p) xs = p"

subsection \<open>APP0 and APP14\<close>

definition parse_app0 :: "bytes \<Rightarrow> jpeg_error + jfif_metadata option" where
  "parse_app0 payload =
     (if \<not> starts_with payload JFIF_IDENTIFIER then Inr None
      else if length payload < length JFIF_IDENTIFIER + 2
      then Inl (Unsupported ''APP0 JFIF segment too short'')
      else Inr (Some \<lparr>jfif_version = (payload ! length JFIF_IDENTIFIER, payload ! (length JFIF_IDENTIFIER + 1))\<rparr>))"

definition parse_app14_adobe :: "bytes \<Rightarrow> jpeg_error + adobe_metadata option" where
  "parse_app14_adobe payload =
     (if \<not> starts_with payload ADOBE_IDENTIFIER then Inr None
      else if length payload \<le> length ADOBE_IDENTIFIER + 6
      then Inl (Unsupported ''APP14 Adobe segment truncated before transform byte'')
      else Inr (Some \<lparr>adobe_transform_field = transform_from_byte (payload ! (length ADOBE_IDENTIFIER + 6))\<rparr>))"

subsection \<open>APP1: the EXIF colour space\<close>

datatype tiff_byte_order = LittleEndian | BigEndian

definition of_order_bytes :: "tiff_byte_order \<Rightarrow> bytes \<Rightarrow> 'a::len word" where
  "of_order_bytes order bs = (case order of LittleEndian \<Rightarrow> of_le_bytes bs | BigEndian \<Rightarrow> of_be_bytes bs)"

definition tiff_read_u16 :: "tiff_byte_order \<Rightarrow> bytes \<Rightarrow> nat \<Rightarrow> jpeg_error + 16 word" where
  "tiff_read_u16 order bs offset =
     (if length bs < offset + 2 then Inl (Unsupported ''EXIF: u16 read out of bounds'')
      else Inr (of_order_bytes order (take 2 (drop offset bs))))"

definition tiff_read_u32 :: "tiff_byte_order \<Rightarrow> bytes \<Rightarrow> nat \<Rightarrow> jpeg_error + u32" where
  "tiff_read_u32 order bs offset =
     (if length bs < offset + 4 then Inl (Unsupported ''EXIF: u32 read out of bounds'')
      else Inr (of_order_bytes order (take 4 (drop offset bs))))"

record ifd_entry =
  ifd_field_type :: "16 word"
  ifd_count :: u32
  ifd_value_offset_bytes :: bytes

definition read_u32_value :: "ifd_entry \<Rightarrow> tiff_byte_order \<Rightarrow> u32 option" where
  "read_u32_value e order =
     (if ifd_field_type e \<noteq> 4 \<or> ifd_count e \<noteq> 1 then None
      else Some (of_order_bytes order (ifd_value_offset_bytes e)))"

definition read_u16_value :: "ifd_entry \<Rightarrow> tiff_byte_order \<Rightarrow> 16 word option" where
  "read_u16_value e order =
     (if ifd_field_type e \<noteq> 3 \<or> ifd_count e \<noteq> 1 then None
      else Some (of_order_bytes order (take 2 (ifd_value_offset_bytes e))))"

fun find_in_entries ::
    "bytes \<Rightarrow> tiff_byte_order \<Rightarrow> nat \<Rightarrow> 16 word \<Rightarrow> nat list \<Rightarrow> jpeg_error + ifd_entry option" where
  "find_in_entries tiff order entries_start target [] = Inr None"
| "find_in_entries tiff order entries_start target (i # ix) =
     (let base = entries_start + i * 12
      in and_then (tiff_read_u16 order tiff base) (\<lambda>tag.
           if tag \<noteq> target then find_in_entries tiff order entries_start target ix
           else
             and_then (tiff_read_u16 order tiff (base + 2)) (\<lambda>field_type.
             and_then (tiff_read_u32 order tiff (base + 4)) (\<lambda>cnt.
               Inr (Some \<lparr>ifd_field_type = field_type, ifd_count = cnt,
                          ifd_value_offset_bytes = take 4 (drop (base + 8) tiff)\<rparr>)))))"

text \<open>Offsets are at most 32 bits wide, so the additions of the source stay within a word.\<close>

definition find_ifd_entry ::
    "bytes \<Rightarrow> tiff_byte_order \<Rightarrow> nat \<Rightarrow> 16 word \<Rightarrow> jpeg_error + ifd_entry option" where
  "find_ifd_entry tiff order ifd_offset target =
     (if ifd_offset = 0 \<or> length tiff < ifd_offset + 2 then Inr None
      else and_then (tiff_read_u16 order tiff ifd_offset) (\<lambda>cnt.
             let entries_start = ifd_offset + 2
             in if length tiff < entries_start + unat cnt * 12 then Inl (Unsupported ''EXIF: IFD truncated'')
                else find_in_entries tiff order entries_start target [0..<unat cnt]))"

definition walk_exif_color_space :: "bytes \<Rightarrow> jpeg_error + exif_color_space option" where
  "walk_exif_color_space tiff =
     (if length tiff < 8 then Inl (Unsupported ''EXIF: TIFF header too short'')
      else
        and_then (if take 2 tiff = ascii ''II'' then Inr LittleEndian
                  else if take 2 tiff = ascii ''MM'' then Inr BigEndian
                  else Inl (Unsupported ''EXIF: missing II/MM byte-order'')) (\<lambda>order.
        and_then (tiff_read_u16 order tiff 2) (\<lambda>magic.
          if magic \<noteq> 0x002A then Inl (Unsupported ''EXIF: bad TIFF magic'')
          else
            and_then (tiff_read_u32 order tiff 4) (\<lambda>ifd0_offset.
            and_then (find_ifd_entry tiff order (unat ifd0_offset) 0x8769) (\<lambda>pointer.
              case Option.bind pointer (\<lambda>e. read_u32_value e order) of
                None \<Rightarrow> Inr None
              | Some exif_ifd_offset \<Rightarrow>
                  and_then (find_ifd_entry tiff order (unat exif_ifd_offset) 0xA001) (\<lambda>entry.
                    Inr (map_option color_space_from_u16
                           (Option.bind entry (\<lambda>e. read_u16_value e order)))))))))"

definition parse_app1_exif_color_space :: "bytes \<Rightarrow> jpeg_error + exif_color_space option" where
  "parse_app1_exif_color_space payload =
     (if \<not> starts_with payload EXIF_IDENTIFIER then Inr None
      else walk_exif_color_space (drop (length EXIF_IDENTIFIER) payload))"

subsection \<open>APP2: the ICC profile\<close>

record icc_fragment =
  icc_seq :: u8
  icc_total :: u8
  icc_data :: bytes

definition parse_app2_icc_fragment :: "bytes \<Rightarrow> jpeg_error + icc_fragment option" where
  "parse_app2_icc_fragment payload =
     (if \<not> starts_with payload ICC_IDENTIFIER then Inr None
      else
        (let rest = drop (length ICC_IDENTIFIER) payload
         in if length rest < 2 then Inl (Unsupported ''APP2 ICC: missing seq/total bytes'')
            else if rest ! 0 = 0 \<or> rest ! 1 = 0 \<or> rest ! 0 > rest ! 1
            then Inl (Unsupported ''APP2 ICC: invalid seq/total ordering'')
            else Inr (Some \<lparr>icc_seq = rest ! 0, icc_total = rest ! 1, icc_data = drop 2 rest\<rparr>)))"

record icc_accumulator =
  expected_total :: "u8 option"
  fragments :: "bytes option list"

definition icc_accumulator_default :: icc_accumulator where
  "icc_accumulator_default = \<lparr>expected_total = None, fragments = []\<rparr>"

definition ingest :: "icc_fragment \<Rightarrow> icc_accumulator \<Rightarrow> jpeg_error + icc_accumulator" where
  "ingest f acc =
     and_then
       (case expected_total acc of
          None \<Rightarrow> Inr (icc_total f, \<lparr>expected_total = Some (icc_total f),
                                     fragments = replicate (unat (icc_total f)) None\<rparr>)
        | Some t \<Rightarrow>
            if t = icc_total f then Inr (t, acc)
            else Inl (Unsupported ''APP2 ICC: fragment `total` disagrees across segments''))
       (\<lambda>(total, acc).
          if icc_seq f > total then Inl (Unsupported ''APP2 ICC: fragment seq exceeds declared total'')
          else if fragments acc ! (unat (icc_seq f) - 1) \<noteq> None
          then Inl (Unsupported ''APP2 ICC: duplicate fragment seq'')
          else Inr (acc\<lparr>fragments := (fragments acc)[unat (icc_seq f) - 1 := Some (icc_data f)]\<rparr>))"

definition try_finish :: "icc_accumulator \<Rightarrow> bytes option \<times> icc_accumulator" where
  "try_finish acc =
     (if expected_total acc = None then (None, acc)
      else if None \<in> set (fragments acc) then (None, acc)
      else (Some (concat (map the (fragments acc))), \<lparr>expected_total = None, fragments = []\<rparr>))"

subsection \<open>Resolution\<close>

datatype jpeg_color_source =
  JfifDefault | AdobeRgbDirect | AdobeYCbCr | ExifSrgb | UnsupportedDeclarationFallback

record resolved_jpeg_color =
  rj_info :: resolved_color_info
  rj_source :: jpeg_color_source

definition jfif_default :: resolved_color_info where
  "jfif_default = \<lparr>rc_primaries = PrimariesId_Bt709, rc_transfer = TransferId_Srgb,
                   rc_matrix = MatrixId_Smpte170m, rc_range = RangeId_Full\<rparr>"

definition resolve_jpeg_color :: "jpeg_color_info \<Rightarrow> jpeg_error + resolved_jpeg_color" where
  "resolve_jpeg_color c =
     (case ci_adobe c of
        Some adobe \<Rightarrow>
          (case adobe_transform_field adobe of
             Direct \<Rightarrow> Inr \<lparr>rj_info = jfif_default\<lparr>rc_matrix := MatrixId_Identity, rc_range := RangeId_Full\<rparr>,
                            rj_source = AdobeRgbDirect\<rparr>
           | YCbCr \<Rightarrow> Inr \<lparr>rj_info = jfif_default, rj_source = AdobeYCbCr\<rparr>
           | YCCK \<Rightarrow> Inl (Unsupported (''APP14 Adobe transform=2 (YCCK / 4-component CMYK) '' @
               map char_of [0xE2, 0x80, 0x94 :: nat] @ '' the 3-component fused kernel cannot handle this stream''))
           | OtherTransform _ \<Rightarrow> Inr \<lparr>rj_info = jfif_default, rj_source = UnsupportedDeclarationFallback\<rparr>)
      | None \<Rightarrow>
          (case ci_exif_color_space c of
             Some Srgb \<Rightarrow> Inr \<lparr>rj_info = jfif_default, rj_source = ExifSrgb\<rparr>
           | Some _ \<Rightarrow> Inr \<lparr>rj_info = jfif_default, rj_source = UnsupportedDeclarationFallback\<rparr>
           | None \<Rightarrow>
               if ci_icc_profile c \<noteq> None
               then Inr \<lparr>rj_info = jfif_default, rj_source = UnsupportedDeclarationFallback\<rparr>
               else Inr \<lparr>rj_info = jfif_default, rj_source = JfifDefault\<rparr>))"

subsection \<open>Reassembly of a profile\<close>

definition icc_payload :: "icc_fragment \<Rightarrow> bytes" where
  "icc_payload f = ICC_IDENTIFIER @ [icc_seq f, icc_total f] @ icc_data f"

lemma length_ICC_IDENTIFIER [simp]: "length ICC_IDENTIFIER = 12"
  by (simp add: ICC_IDENTIFIER_def ascii_def)

lemma parse_icc_payload:
  assumes "0 < icc_seq f" "icc_seq f \<le> icc_total f"
  shows "parse_app2_icc_fragment (icc_payload f) = Inr (Some f)"
  using assms by (auto simp: parse_app2_icc_fragment_def icc_payload_def starts_with_def Let_def)

fun ingest_payloads :: "bytes list \<Rightarrow> icc_accumulator \<Rightarrow> jpeg_error + icc_accumulator" where
  "ingest_payloads [] acc = Inr acc"
| "ingest_payloads (p # ps) acc =
     and_then (parse_app2_icc_fragment p) (\<lambda>f.
       case f of None \<Rightarrow> ingest_payloads ps acc
       | Some f \<Rightarrow> and_then (ingest f acc) (ingest_payloads ps))"

text \<open>The fragments of a profile cut into the given pieces.\<close>

definition icc_fragment_at :: "bytes list \<Rightarrow> nat \<Rightarrow> icc_fragment" where
  "icc_fragment_at datas i =
     \<lparr>icc_seq = of_nat (i + 1), icc_total = of_nat (length datas), icc_data = datas ! i\<rparr>"

definition icc_holds :: "bytes list \<Rightarrow> nat set \<Rightarrow> icc_accumulator \<Rightarrow> bool" where
  "icc_holds datas S acc \<longleftrightarrow>
     (if S = {} then acc = icc_accumulator_default
      else expected_total acc = Some (of_nat (length datas)) \<and>
        fragments acc = map (\<lambda>i. if i \<in> S then Some (datas ! i) else None) [0..<length datas])"

lemma icc_fragment_numbers:
  assumes "i < length datas" "length datas \<le> 255"
  shows "unat (of_nat (i + 1) :: u8) = i + 1" "unat (of_nat (length datas) :: u8) = length datas"
    "0 < (of_nat (i + 1) :: u8)" "(of_nat (i + 1) :: u8) \<le> of_nat (length datas)"
proof -
  show u: "unat (of_nat (i + 1) :: u8) = i + 1" using assms by (simp add: unat_of_nat del: of_nat_Suc)
  show v: "unat (of_nat (length datas) :: u8) = length datas" using assms by (simp add: unat_of_nat)
  show "0 < (of_nat (i + 1) :: u8)" using u by (simp add: word_less_nat_alt)
  show "(of_nat (i + 1) :: u8) \<le> of_nat (length datas)" using u v assms by (simp add: word_le_nat_alt)
qed

lemma ingest_fragment:
  assumes "icc_holds datas S acc" "i < length datas" "length datas \<le> 255"
  shows "if i \<in> S then ingest (icc_fragment_at datas i) acc = Inl (Unsupported ''APP2 ICC: duplicate fragment seq'')
    else \<exists>acc'. ingest (icc_fragment_at datas i) acc = Inr acc' \<and> icc_holds datas (insert i S) acc'"
proof -
  note num = icc_fragment_numbers [OF assms(2,3)]
  have upd: "(map (\<lambda>j. if j \<in> S then Some (datas ! j) else None) [0..<length datas])[i := Some (datas ! i)] =
      map (\<lambda>j. if j \<in> insert i S then Some (datas ! j) else None) [0..<length datas]"
    using assms(2) by (intro nth_equalityI) (auto simp: nth_list_update)
  show ?thesis
  proof (cases "S = {}")
    case True
    then have "fragments \<lparr>expected_total = Some (of_nat (length datas)), fragments = replicate (length datas) None\<rparr> =
        map (\<lambda>j. if j \<in> S then Some (datas ! j) else None) [0..<length datas]"
      by (intro nth_equalityI) auto
    then show ?thesis using True assms num upd
      by (auto simp: icc_holds_def ingest_def icc_accumulator_default_def icc_fragment_at_def not_less
          simp del: of_nat_Suc of_nat_add)
  next
    case False
    then show ?thesis using assms num upd
      by (auto simp: icc_holds_def ingest_def icc_fragment_at_def not_less simp del: of_nat_Suc of_nat_add)
  qed
qed

lemma ingest_payloads_fragments:
  assumes "icc_holds datas S acc" "\<forall>i\<in>set ix. i < length datas" "length datas \<le> 255" "distinct ix" "set ix \<inter> S = {}"
  shows "\<exists>acc'. ingest_payloads (map (icc_payload \<circ> icc_fragment_at datas) ix) acc = Inr acc' \<and>
    icc_holds datas (S \<union> set ix) acc'"
  using assms
proof (induction ix arbitrary: S acc)
  case (Cons i ix)
  have "parse_app2_icc_fragment (icc_payload (icc_fragment_at datas i)) = Inr (Some (icc_fragment_at datas i))"
    using icc_fragment_numbers [of i datas] Cons(3,4) by (intro parse_icc_payload) (simp_all add: icc_fragment_at_def)
  moreover obtain acc1 where "ingest (icc_fragment_at datas i) acc = Inr acc1" "icc_holds datas (insert i S) acc1"
    using ingest_fragment [OF Cons(2), of i] Cons(3,4,6) by auto
  ultimately show ?case using Cons.IH [of "insert i S" acc1] Cons(3-) by auto
qed simp

lemma try_finish_holds:
  assumes "icc_holds datas S acc" "S \<subseteq> {..<length datas}" "0 < length datas"
  shows "fst (try_finish acc) = (if S = {..<length datas} then Some (concat datas) else None)"
proof (cases "S = {..<length datas}")
  case True
  then have "fragments acc = map Some datas" "expected_total acc \<noteq> None"
    using assms by (auto simp: icc_holds_def lessThan_empty_iff intro!: nth_equalityI)
  then show ?thesis using True by (auto simp: try_finish_def comp_def)
next
  case False
  then obtain i where "i < length datas" "i \<notin> S" using assms(2) by auto
  then show ?thesis using False assms(1)
    by (cases "S = {}") (force simp: icc_holds_def try_finish_def icc_accumulator_default_def)+
qed

subsection \<open>Property\<close>

text \<open>C37: an ICC profile cut into up to 255 fragments is reassembled from its APP2 segments in
  whatever order they arrive: every accepted prefix of them is incomplete and yields no profile, all
  of them yield the pieces in order, and a fragment that has already arrived is refused.\<close>

theorem icc_profile_is_reassembled:
  assumes "length datas \<le> 255" "distinct ix" "set ix \<subseteq> {..<length datas}" "0 < length datas"
  shows "\<exists>acc. ingest_payloads (map (icc_payload \<circ> icc_fragment_at datas) ix) icc_accumulator_default = Inr acc \<and>
    fst (try_finish acc) = (if length ix = length datas then Some (concat datas) else None) \<and>
    (\<forall>i\<in>set ix. ingest (icc_fragment_at datas i) acc = Inl (Unsupported ''APP2 ICC: duplicate fragment seq''))"
proof -
  have "icc_holds datas {} icc_accumulator_default" by (simp add: icc_holds_def)
  then obtain acc where acc: "ingest_payloads (map (icc_payload \<circ> icc_fragment_at datas) ix) icc_accumulator_default = Inr acc"
      "icc_holds datas (set ix) acc"
    using ingest_payloads_fragments [of datas "{}" icc_accumulator_default ix] assms by auto
  have "set ix = {..<length datas} \<longleftrightarrow> length ix = length datas"
    using assms(2,3) by (metis card_lessThan card_subset_eq distinct_card finite_lessThan)
  then show ?thesis
    using acc try_finish_holds [OF acc(2) assms(3,4)] ingest_fragment [OF acc(2) _ assms(1)] assms(3) by auto
qed

theorem icc_profile_is_reassembled_witness:
  "\<exists>acc. ingest_payloads (map (icc_payload \<circ> icc_fragment_at [[1, 2], [3], [4, 5]]) [2, 0, 1]) icc_accumulator_default = Inr acc \<and>
     fst (try_finish acc) = Some [1, 2, 3, 4, 5]"
  using icc_profile_is_reassembled [of "[[1, 2], [3], [4, 5]]" "[2, 0, 1]"] by auto

end
