(* ===== verification/Jpeg_Decode.thy ===== *)
theory Jpeg_Decode
  imports Jpeg_Color
begin

text \<open>
  The walk over the header segments of a JPEG file (\<open>parse_headers\<close> in
  \<open>sdk/vulkan-jpeg/src/parser.rs\<close>) and the decoder that puts it in front of the scan
  (\<open>decode\<close> in \<open>lib.rs\<close>).
\<close>

abbreviation COM :: u8 where "COM \<equiv> 0xFE"
abbreviation APP0 :: u8 where "APP0 \<equiv> 0xE0"
abbreviation APP1 :: u8 where "APP1 \<equiv> 0xE1"
abbreviation APP2 :: u8 where "APP2 \<equiv> 0xE2"
abbreviation APP14 :: u8 where "APP14 \<equiv> 0xEE"

record header_state =
  hs_quant_tables :: "quantization_table list"
  hs_huffman :: huffman_tables
  hs_frame :: "jpeg_frame_header option"
  hs_restart_interval :: "16 word"
  hs_color_info :: jpeg_color_info
  hs_icc :: icc_accumulator

definition header_state_default :: header_state where
  "header_state_default =
     \<lparr>hs_quant_tables = [], hs_huffman = huffman_tables_default, hs_frame = None, hs_restart_interval = 0,
      hs_color_info = color_info_default, hs_icc = icc_accumulator_default\<rparr>"

record parsed_headers =
  ph_frame :: jpeg_frame_header
  ph_quant_tables :: "quantization_table list"
  ph_huffman :: huffman_tables
  ph_scan :: scan_header
  ph_restart_interval :: "16 word"
  ph_entropy_data :: bytes
  ph_color_info :: jpeg_color_info

text \<open>The arms of the loop that go on: every marker but SOS.\<close>

definition header_segment :: "u8 \<Rightarrow> jpeg_parser \<Rightarrow> header_state \<Rightarrow> jpeg_error + jpeg_parser \<times> header_state" where
  "header_segment m p st =
     (if m = DQT then
        and_then (parse_dqt p (hs_quant_tables st)) (\<lambda>(qs, p). Inr (p, st\<lparr>hs_quant_tables := qs\<rparr>))
      else if m = DHT then
        and_then (parse_dht p (hs_huffman st)) (\<lambda>(h, p). Inr (p, st\<lparr>hs_huffman := h\<rparr>))
      else if m = SOF0 then
        if hs_frame st \<noteq> None then Inl (InvalidScan ''duplicate SOF segment'')
        else and_then (parse_sof0 p) (\<lambda>(f, p). Inr (p, st\<lparr>hs_frame := Some f\<rparr>))
      else if m = DRI then
        and_then (parse_dri p) (\<lambda>(ri, p). Inr (p, st\<lparr>hs_restart_interval := ri\<rparr>))
      else if m = EOI then Inl MissingSos
      else if m = COM then and_then (skip_segment m p) (\<lambda>p. Inr (p, st))
      else if m = APP0 then
        and_then (read_segment_payload APP0 p) (\<lambda>(payload, p).
          and_then (parse_app0 payload) (\<lambda>jfif.
            Inr (p, case jfif of None \<Rightarrow> st
              | Some j \<Rightarrow> st\<lparr>hs_color_info := (hs_color_info st)\<lparr>ci_jfif := Some j\<rparr>\<rparr>)))
      else if m = APP1 then
        and_then (read_segment_payload APP1 p) (\<lambda>(payload, p).
          and_then (parse_app1_exif_color_space payload) (\<lambda>cs.
            Inr (p, case cs of None \<Rightarrow> st
              | Some c \<Rightarrow> st\<lparr>hs_color_info := (hs_color_info st)\<lparr>ci_exif_color_space := Some c\<rparr>\<rparr>)))
      else if m = APP2 then
        and_then (read_segment_payload APP2 p) (\<lambda>(payload, p).
          and_then (parse_app2_icc_fragment payload) (\<lambda>fragment.
            case fragment of None \<Rightarrow> Inr (p, st)
            | Some f \<Rightarrow> and_then (ingest f (hs_icc st)) (\<lambda>acc. Inr (p, st\<lparr>hs_icc := acc\<rparr>))))
      else if m = APP14 then
        and_then (read_segment_payload APP14 p) (\<lambda>(payload, p).
          and_then (parse_app14_adobe payload) (\<lambda>adobe.
            Inr (p, case adobe of None \<Rightarrow> st
              | Some a \<Rightarrow> st\<lparr>hs_color_info := (hs_color_info st)\<lparr>ci_adobe := Some a\<rparr>\<rparr>)))
      else if is_app m then and_then (skip_segment m p) (\<lambda>p. Inr (p, st))
      else
        (case is_unsupported_sof m of
           Some reason \<Rightarrow> Inl (UnsupportedSof m reason)
         | None \<Rightarrow>
             if is_standalone m then Inl (UnexpectedMarker m (jp_cursor p))
             else and_then (skip_segment m p) (\<lambda>p. Inr (p, st))))"

subsection \<open>The cursor moves forward\<close>

definition advances :: "jpeg_parser \<Rightarrow> jpeg_parser \<Rightarrow> bool" where
  "advances p p' \<longleftrightarrow> jp_bytes p' = jp_bytes p \<and> jp_cursor p \<le> jp_cursor p' \<and> jp_cursor p' \<le> length (jp_bytes p)"

lemma read_segment_payload_advances:
  assumes "read_segment_payload m p = Inr (payload, p')"
  shows "advances p p'"
  using assms
  by (auto simp: read_segment_payload_def read_u16_def read_byte_def and_then_Inr_iff Let_def advances_def split: if_splits)

lemma segment_parsers_advance:
  "parse_dqt p out = Inr (out', p') \<Longrightarrow> advances p p'"
  "parse_dht p h = Inr (h', p') \<Longrightarrow> advances p p'"
  "parse_sof0 p = Inr (f, p') \<Longrightarrow> advances p p'"
  "parse_dri p = Inr (ri, p') \<Longrightarrow> advances p p'"
  "skip_segment m p = Inr p' \<Longrightarrow> advances p p'"
  by (auto simp: parse_dqt_def parse_dht_def parse_sof0_def parse_dri_def skip_segment_def and_then_Inr_iff Let_def
      dest: read_segment_payload_advances split: if_splits)

lemma header_segment_advances:
  assumes "header_segment m p st = Inr (p', st')"
  shows "advances p p'"
  using assms
  by (auto simp: header_segment_def and_then_Inr_iff
      dest: segment_parsers_advance read_segment_payload_advances split: if_splits option.splits)

lemma next_marker_advances:
  assumes "next_marker p = Inr (m, p')"
  shows "jp_bytes p' = jp_bytes p \<and> jp_cursor p < jp_cursor p' \<and> jp_cursor p' \<le> length (jp_bytes p)"
  using assms
proof (induction p rule: next_marker.induct)
  case (1 p)
  then show ?case
    by (subst (asm) (2) next_marker.simps)
       (fastforce dest: read_byte_advances split: sum.splits prod.splits if_splits)
qed

function walk_headers :: "jpeg_parser \<Rightarrow> header_state \<Rightarrow> jpeg_error + parsed_headers" where
  "walk_headers p st =
     (case next_marker p of
        Inl e \<Rightarrow> Inl e
      | Inr (m, p1) \<Rightarrow>
          if m = SOS then
            and_then (ok_or MissingSof (hs_frame st)) (\<lambda>frame.
            and_then (parse_sos frame p1) (\<lambda>(scan, p2).
              Inr \<lparr>ph_frame = frame, ph_quant_tables = hs_quant_tables st, ph_huffman = hs_huffman st,
                   ph_scan = scan, ph_restart_interval = hs_restart_interval st,
                   ph_entropy_data = drop (jp_cursor p2) (jp_bytes p2),
                   ph_color_info = (hs_color_info st)\<lparr>ci_icc_profile := fst (try_finish (hs_icc st))\<rparr>\<rparr>))
          else
            (case header_segment m p1 st of
               Inl e \<Rightarrow> Inl e
             | Inr (p2, st') \<Rightarrow> walk_headers p2 st'))"
  by pat_completeness auto
termination
proof (relation "measure (\<lambda>(p, st). length (jp_bytes p) - jp_cursor p)")
  fix p st x2 m p1 x2a p2 st'
  assume "next_marker p = Inr x2" "(m, p1) = x2" "m \<noteq> SOS" "header_segment m p1 st = Inr x2a" "(p2, st') = x2a"
  then show "((p2, st'), p, st) \<in> measure (\<lambda>(p, st). length (jp_bytes p) - jp_cursor p)"
    using next_marker_advances [of p m p1] header_segment_advances [of m p1 st p2 st'] by (auto simp: advances_def)
qed simp

declare walk_headers.simps [simp del]

definition parse_headers :: "bytes \<Rightarrow> jpeg_error + parsed_headers" where
  "parse_headers bs = and_then (expect_soi (parser_new bs)) (\<lambda>p. walk_headers p header_state_default)"

subsection \<open>The decoder\<close>

record decoded_jpeg =
  dj_frame :: jpeg_frame_header
  dj_quant_tables :: "quantization_table list"
  dj_scan :: scan_header
  dj_components :: "component_scan list"
  dj_restart_interval :: "16 word"
  dj_color_info :: jpeg_color_info

fun check_quantization_tables :: "quantization_table list \<Rightarrow> frame_component list \<Rightarrow> jpeg_error + unit" where
  "check_quantization_tables qs [] = Inr ()"
| "check_quantization_tables qs (c # cs) =
     (if \<not> (\<exists>t\<in>set qs. qt_id t = fc_quant_table_id c) then Inl (MissingQuantizationTable (fc_quant_table_id c))
      else check_quantization_tables qs cs)"

definition decode :: "bytes \<Rightarrow> jpeg_error + decoded_jpeg" where
  "decode bs =
     and_then (parse_headers bs) (\<lambda>h.
     and_then (check_quantization_tables (ph_quant_tables h) (fh_components (ph_frame h))) (\<lambda>_.
     and_then (decode_entropy (ph_frame h) (ph_scan h) (ph_huffman h) (ph_restart_interval h) (ph_entropy_data h))
       (\<lambda>components.
          Inr \<lparr>dj_frame = ph_frame h, dj_quant_tables = ph_quant_tables h, dj_scan = ph_scan h,
               dj_components = components, dj_restart_interval = ph_restart_interval h,
               dj_color_info = ph_color_info h\<rparr>)))"

definition quantization_table_of :: "decoded_jpeg \<Rightarrow> u8 \<Rightarrow> quantization_table option" where
  "quantization_table_of d tid = find (\<lambda>t. qt_id t = tid) (dj_quant_tables d)"

definition component_block :: "component_scan \<Rightarrow> nat \<Rightarrow> nat \<Rightarrow> int list" where
  "component_block c block_x block_y =
     take 64 (drop ((block_y * cs_blocks_horizontal c + block_x) * 64) (cs_coefficients c))"

end
