(* ===== verification/Jpeg_File.thy ===== *)
theory Jpeg_File
  imports Jpeg_Decode
begin

text \<open>
  A whole JPEG file. The reference writer puts a frame, its tables and a coded scan into the
  segments of a file; the decoder of \<open>sdk/vulkan-jpeg/src/lib.rs\<close> (\<open>decode\<close>) returns
  them. The lemmas go from one segment behind its marker to the walk over all of them.
\<close>

unbundle bit_operations_syntax

subsection \<open>The reference writer\<close>

definition be16_bytes :: "16 word \<Rightarrow> bytes" where
  "be16_bytes w = [ucast (drop_bit 8 w), ucast w]"

definition pack_nibbles :: "u8 \<Rightarrow> u8 \<Rightarrow> u8" where
  "pack_nibbles high low = push_bit 4 high OR low"

definition segment :: "bytes \<Rightarrow> bytes" where
  "segment payload = be16_bytes (of_nat (length payload + 2)) @ payload"

definition dqt_payload :: "quantization_table \<Rightarrow> bytes" where
  "dqt_payload t = pack_nibbles (qt_precision t) (qt_id t) #
     (if qt_precision t = 0 then map ucast (qt_values t) else concat (map be16_bytes (qt_values t)))"

type_synonym huffman_definition = "huffman_class \<times> u8 \<times> code_spec"

definition dht_payload :: "huffman_definition \<Rightarrow> bytes" where
  "dht_payload = (\<lambda>(cl, tid, spec). pack_nibbles (case cl of Dc \<Rightarrow> 0 | Ac \<Rightarrow> 1) tid # fst spec @ snd spec)"

definition sof0_payload :: "jpeg_frame_header \<Rightarrow> bytes" where
  "sof0_payload f = fh_precision f # be16_bytes (fh_height f) @ be16_bytes (fh_width f) @
     of_nat (length (fh_components f)) #
     concat (map (\<lambda>c. [fc_id c, pack_nibbles (fc_h_sampling c) (fc_v_sampling c), fc_quant_table_id c])
       (fh_components f))"

definition sos_payload :: "scan_header \<Rightarrow> bytes" where
  "sos_payload s = of_nat (length (sh_components s)) #
     concat (map (\<lambda>c. [sc_component_id c, pack_nibbles (sc_dc_table_id c) (sc_ac_table_id c)]) (sh_components s)) @
     [sh_spectral_start s, sh_spectral_end s, pack_nibbles (sh_successive_high s) (sh_successive_low s)]"

definition jfif_payload :: "jfif_metadata \<Rightarrow> bytes" where
  "jfif_payload j = JFIF_IDENTIFIER @ [fst (jfif_version j), snd (jfif_version j), 0, 0, 1, 0, 1, 0, 0]"

record jpeg_image =
  im_jfif :: jfif_metadata
  im_quant_tables :: "quantization_table list"
  im_frame :: jpeg_frame_header
  im_huffman :: "huffman_definition list"
  im_restart_interval :: "16 word"
  im_scan :: scan_header

definition header_segments :: "jpeg_image \<Rightarrow> (u8 \<times> bytes) list" where
  "header_segments im =
     (APP0, jfif_payload (im_jfif im)) # map (\<lambda>t. (DQT, dqt_payload t)) (im_quant_tables im) @
     (SOF0, sof0_payload (im_frame im)) # map (\<lambda>h. (DHT, dht_payload h)) (im_huffman im) @
     [(DRI, be16_bytes (im_restart_interval im))]"

definition write_segment :: "u8 \<times> bytes \<Rightarrow> bytes" where
  "write_segment = (\<lambda>(m, payload). PREFIX # m # segment payload)"

definition write_jpeg :: "jpeg_image \<Rightarrow> bytes \<Rightarrow> bytes" where
  "write_jpeg im entropy_data = PREFIX # SOI # concat (map write_segment (header_segments im)) @
     write_segment (SOS, sos_payload (im_scan im)) @ entropy_data"

subsection \<open>What the writer is given\<close>

definition quantization_table_ok :: "quantization_table \<Rightarrow> bool" where
  "quantization_table_ok t \<longleftrightarrow> qt_id t \<le> 3 \<and> qt_precision t \<le> 1 \<and> length (qt_values t) = 64 \<and>
     (qt_precision t = 0 \<longrightarrow> (\<forall>v\<in>set (qt_values t). v < 256))"

fun huffman_definition_ok :: "huffman_definition \<Rightarrow> bool" where
  "huffman_definition_ok (cl, tid, spec) \<longleftrightarrow>
     tid \<le> 3 \<and> length (fst spec) = 16 \<and> is_ok (huffman_build cl tid (fst spec) (snd spec))"

fun define_huffman :: "huffman_definition \<Rightarrow> huffman_tables \<Rightarrow> huffman_tables" where
  "define_huffman (cl, tid, spec) h = put_huffman_table cl tid (projr (huffman_build cl tid (fst spec) (snd spec))) h"

definition image_huffman :: "jpeg_image \<Rightarrow> huffman_tables" where
  "image_huffman im = fold define_huffman (im_huffman im) huffman_tables_default"

definition image_ok :: "jpeg_image \<Rightarrow> bool" where
  "image_ok im \<longleftrightarrow> frame_ok (im_frame im) \<and> scan_ok (im_frame im) (im_scan im) \<and>
     (\<forall>t\<in>set (im_quant_tables im). quantization_table_ok t) \<and> distinct (map qt_id (im_quant_tables im)) \<and>
     (\<forall>c\<in>set (fh_components (im_frame im)). fc_quant_table_id c \<in> qt_id ` set (im_quant_tables im)) \<and>
     (\<forall>h\<in>set (im_huffman im). huffman_definition_ok h)"

subsection \<open>One segment\<close>

lemma be16_be16_bytes [simp]: "be16 (ucast (drop_bit 8 w)) (ucast w) = w"
  unfolding be16_def by (rule bit_word_eqI) (auto simp: bit_simps)

lemma read_byte_at:
  assumes "drop (jp_cursor p) (jp_bytes p) = x # xs"
  shows "read_byte p = Inr (x, p\<lparr>jp_cursor := jp_cursor p + 1\<rparr>)"
    "drop (jp_cursor p + 1) (jp_bytes p) = xs"
  using drop_Cons_nth [OF assms] by (simp_all add: read_byte_def)

lemma read_segment_payload_at:
  assumes "drop (jp_cursor p) (jp_bytes p) = segment payload @ rest" "length payload + 2 < 65536"
  shows "read_segment_payload m p = Inr (payload, p\<lparr>jp_cursor := jp_cursor p + length (segment payload)\<rparr>)"
    "drop (jp_cursor p + length (segment payload)) (jp_bytes p) = rest"
proof -
  let ?n = "of_nat (length payload + 2) :: 16 word"
  have d: "drop (jp_cursor p) (jp_bytes p) = ucast (drop_bit 8 ?n) # ucast ?n # payload @ rest"
    using assms(1) by (simp add: segment_def be16_bytes_def)
  note h = read_byte_at [OF d]
  let ?q = "p\<lparr>jp_cursor := jp_cursor p + 1\<rparr>"
  have "drop (jp_cursor ?q) (jp_bytes ?q) = ucast ?n # payload @ rest" using h(2) by simp
  note l = read_byte_at [OF this]
  have u: "unat ?n = length payload + 2" using assms(2) by (simp only: unat_of_nat) simp
  have r: "read_u16 p = Inr (?n, p\<lparr>jp_cursor := jp_cursor p + 2\<rparr>)" using h(1) l(1) by (simp add: read_u16_def)
  have s: "drop (jp_cursor p + 2) (jp_bytes p) = payload @ rest" using l(2) by simp
  moreover have "jp_cursor p + 2 + length payload \<le> length (jp_bytes p)"
    using arg_cong [OF d, of length] by simp
  ultimately show "read_segment_payload m p = Inr (payload, p\<lparr>jp_cursor := jp_cursor p + length (segment payload)\<rparr>)"
    using r u s by (auto simp: read_segment_payload_def segment_def be16_bytes_def ac_simps)
  show "drop (jp_cursor p + length (segment payload)) (jp_bytes p) = rest"
  proof -
    have "drop (jp_cursor p + length (segment payload)) (jp_bytes p) = drop (length payload) (drop (jp_cursor p + 2) (jp_bytes p))"
      by (simp add: segment_def be16_bytes_def add.commute)
    then show ?thesis unfolding s by simp
  qed
qed

lemma small_u8: "(x :: u8) \<le> 4 \<Longrightarrow> x \<in> {0, 1, 2, 3, 4}"
proof -
  assume "x \<le> 4"
  then have "unat x \<le> 4" by (simp add: word_le_nat_alt)
  then have "unat x \<in> {0, 1, 2, 3, 4}" by auto
  then show ?thesis by (auto simp: word_unat_eq_iff)
qed

lemma pack_nibbles:
  assumes "h \<le> 4" "l \<le> 4"
  shows "drop_bit 4 (pack_nibbles h l) = h" "pack_nibbles h l AND 0x0F = l"
  using small_u8 [OF assms(1)] small_u8 [OF assms(2)] by (auto simp: pack_nibbles_def)

lemma put_quantization_table_new:
  "qt_id t \<notin> qt_id ` set qs \<Longrightarrow> put_quantization_table t qs = qs @ [t]"
  by (induction qs) auto

lemma concat_be16_bytes_nth:
  "i < length ws \<Longrightarrow> be16 (concat (map be16_bytes ws) ! (2 * i)) (concat (map be16_bytes ws) ! (2 * i + 1)) = ws ! i"
  by (induction ws arbitrary: i) (auto simp: be16_bytes_def nth_Cons split: nat.splits)

lemma length_concat_be16_bytes [simp]: "length (concat (map be16_bytes ws)) = 2 * length ws"
  by (induction ws) (simp_all add: be16_bytes_def)

lemma parse_dqt_payload:
  assumes "quantization_table_ok t" "qt_id t \<notin> qt_id ` set qs"
  shows "parse_dqt_tables (dqt_payload t) qs = Inr (qs @ [t])"
proof -
  let ?ps = "if qt_precision t = 0 then map ucast (qt_values t) else concat (map be16_bytes (qt_values t))"
  note ok = assms(1) [unfolded quantization_table_ok_def]
  have n: "qt_precision t \<le> 4" "qt_id t \<le> 4" using ok by (auto simp: word_le_nat_alt)
  have vals: "dqt_values (qt_precision t) ?ps = qt_values t"
  proof (rule nth_equalityI)
    fix i assume "i < length (dqt_values (qt_precision t) ?ps)"
    then have i: "i < 64" by (simp add: dqt_values_def)
    have "ucast (ucast (qt_values t ! i) :: u8) = qt_values t ! i" if "qt_precision t = 0"
    proof -
      have "qt_values t ! i < 256" using that ok i by auto
      then have "unat (qt_values t ! i) < 256" by (simp add: word_less_nat_alt)
      then show ?thesis by (simp add: word_unat_eq_iff unsigned_ucast_eq unsigned_take_bit_eq take_bit_nat_def)
    qed
    then show "dqt_values (qt_precision t) ?ps ! i = qt_values t ! i"
      using i ok concat_be16_bytes_nth [of i "qt_values t"] by (auto simp: dqt_values_def)
  qed (use ok in \<open>simp add: dqt_values_def\<close>)
  have "length ?ps = 64 * (if qt_precision t = 0 then 1 else 2)" using ok by simp
  moreover have eta: "\<lparr>qt_id = qt_id t, qt_precision = qt_precision t, qt_values = qt_values t\<rparr> = t" by simp
  ultimately show ?thesis
    using vals ok put_quantization_table_new [OF assms(2)]
    by (simp add: dqt_payload_def Let_def pack_nibbles [OF n] not_less eta)
qed

lemma parse_dht_payload:
  assumes "huffman_definition_ok d"
  shows "parse_dht_tables (dht_payload d) h = Inr (define_huffman d h)" "length (dht_payload d) \<le> 273"
proof -
  obtain cl tid bits hv where d: "d = (cl, tid, (bits, hv))" by (cases d) auto
  have ok: "tid \<le> 3" "length bits = 16" using assms by (simp_all add: d)
  obtain t where t: "huffman_build cl tid bits hv = Inr t"
    using assms by (auto simp: d is_ok_split)
  then have len: "(\<Sum>b\<leftarrow>bits. unat b) = length hv" "length hv \<le> 256"
    by (auto simp: huffman_build_def Let_def split: if_splits)
  have n: "(case cl of Dc \<Rightarrow> 0 | Ac \<Rightarrow> 1) \<le> (4 :: u8)" "tid \<le> 4"
    using ok(1) by (auto simp: word_le_nat_alt split: huffman_class.split)
  have cls: "from_class_byte (case cl of Dc \<Rightarrow> 0 | Ac \<Rightarrow> 1) = Inr cl"
    by (cases cl) (simp_all add: from_class_byte_def)
  show "length (dht_payload d) \<le> 273" using ok(2) len(2) by (simp add: dht_payload_def d)
  show "parse_dht_tables (dht_payload d) h = Inr (define_huffman d h)"
    using ok len t cls parse_dht_tables.simps [of "[]"]
    by (subst parse_dht_tables.simps) (simp add: dht_payload_def d Let_def pack_nibbles [OF n] not_less)
qed

lemma concat_triples_nth:
  assumes "i < length cs"
  shows "concat (map (\<lambda>c. [f c, g c, h c]) cs) ! (3 * i) = f (cs ! i)"
    "concat (map (\<lambda>c. [f c, g c, h c]) cs) ! (3 * i + 1) = g (cs ! i)"
    "concat (map (\<lambda>c. [f c, g c, h c]) cs) ! (3 * i + 2) = h (cs ! i)"
  using assms by (induction cs arbitrary: i) (auto simp: nth_Cons numeral_3_eq_3 split: nat.splits)

lemma concat_pairs_nth:
  assumes "i < length cs"
  shows "concat (map (\<lambda>c. [f c, g c]) cs) ! (2 * i) = f (cs ! i)"
    "concat (map (\<lambda>c. [f c, g c]) cs) ! (2 * i + 1) = g (cs ! i)"
  using assms by (induction cs arbitrary: i) (auto simp: nth_Cons split: nat.splits)

lemma length_concat_const: "(\<And>c. length (f c) = n) \<Longrightarrow> length (concat (map f cs)) = n * length cs"
  by (induction cs) auto

lemma sof0_payload_shape:
  assumes "frame_ok f" "i < length (fh_components f)"
  shows "sof0_payload f ! (6 + i * 3) = fc_id (fh_components f ! i)"
    "sof0_payload f ! (6 + i * 3 + 1) =
       pack_nibbles (fc_h_sampling (fh_components f ! i)) (fc_v_sampling (fh_components f ! i))"
    "sof0_payload f ! (6 + i * 3 + 2) = fc_quant_table_id (fh_components f ! i)"
  using concat_triples_nth [OF assms(2), of fc_id "\<lambda>c. pack_nibbles (fc_h_sampling c) (fc_v_sampling c)" fc_quant_table_id]
  by (simp_all add: sof0_payload_def be16_bytes_def mult.commute)

lemma parse_sof0_components_payload:
  assumes "frame_ok f" "k \<le> length (fh_components f)"
  shows "\<exists>mh' mv'. parse_sof0_components (sof0_payload f) [k..<length (fh_components f)]
    (take k (fh_components f), mh, mv) = Inr (fh_components f, mh', mv')"
  using assms(2)
proof (induction "length (fh_components f) - k" arbitrary: k mh mv)
  case (Suc n)
  let ?cs = "fh_components f"
  let ?c = "?cs ! k"
  have k: "k < length ?cs" using Suc(2) by simp
  note shape = sof0_payload_shape [OF assms(1) k, simplified]
  have eta: "\<lparr>fc_id = fc_id ?c, fc_h_sampling = fc_h_sampling ?c, fc_v_sampling = fc_v_sampling ?c,
    fc_quant_table_id = fc_quant_table_id ?c\<rparr> = ?c" by simp
  have c: "fc_h_sampling ?c \<in> {1..4}" "fc_v_sampling ?c \<in> {1..4}" "fc_quant_table_id ?c \<le> 3"
    using assms(1) k by (auto simp: frame_ok_def)
  have "fc_id d \<noteq> fc_id ?c" if d: "d \<in> set (take k ?cs)" for d
  proof -
    have "distinct (map fc_id ?cs)" using assms(1) by (simp add: frame_ok_def)
    moreover obtain j where "j < k" "d = ?cs ! j" using d k by (auto simp: in_set_conv_nth)
    ultimately show ?thesis using k by (auto simp: distinct_conv_nth)
  qed
  moreover have "take k ?cs @ [?c] = take (Suc k) ?cs" using k by (simp add: take_Suc_conv_app_nth)
  moreover have "[k..<length ?cs] = k # [Suc k..<length ?cs]" using k by (simp add: upt_conv_Cons)
  ultimately show ?case
    using Suc.hyps(1) [of "Suc k"] Suc.hyps(2) k c
    by (auto simp: shape Let_def pack_nibbles not_less eta)
qed simp

lemma parse_sof0_payload:
  assumes "frame_ok f" "read_segment_payload SOF0 p = Inr (sof0_payload f, q)"
  shows "parse_sof0 p = Inr (f, q)"
proof -
  let ?cs = "fh_components f"
  note ok = assms(1) [unfolded frame_ok_def]
  obtain mh mv where p: "parse_sof0_components (sof0_payload f) [0..<length ?cs] ([], 0, 0) = Inr (?cs, mh, mv)"
    using parse_sof0_components_payload [OF assms(1), of 0 0 0] by auto
  then have "components_ok (?cs, mh, mv)"
    using parse_sof0_components_ok [OF p] by (auto simp: components_ok_def)
  then have m: "mh = fh_max_h_sampling f" "mv = fh_max_v_sampling f" using components_ok_Max ok by metis+
  have n: "unat (of_nat (length ?cs) :: u8) = length ?cs" using ok by (simp add: unat_of_nat)
  have pl: "length (sof0_payload f) = 6 + 3 * length ?cs" "sof0_payload f ! 0 = fh_precision f"
      "be16 (sof0_payload f ! 1) (sof0_payload f ! 2) = fh_height f"
      "be16 (sof0_payload f ! 3) (sof0_payload f ! 4) = fh_width f" "sof0_payload f ! 5 = of_nat (length ?cs)"
    by (simp_all add: sof0_payload_def be16_bytes_def length_concat_const [of _ 3])
  show ?thesis using assms(2) pl n p ok m
    by (simp add: parse_sof0_def Let_def word_neq_0_conv)
qed

lemma parse_sos_components_payload:
  assumes "\<forall>c\<in>set cs. sc_dc_table_id c \<le> 3 \<and> sc_ac_table_id c \<le> 3 \<and>
      (\<exists>d\<in>set (fh_components f). fc_id d = sc_component_id c)"
    "\<And>i. i < length cs \<Longrightarrow> payload ! (1 + (k + i) * 2) = sc_component_id (cs ! i) \<and>
      payload ! (1 + (k + i) * 2 + 1) = pack_nibbles (sc_dc_table_id (cs ! i)) (sc_ac_table_id (cs ! i))"
  shows "parse_sos_components f payload [k..<k + length cs] = Inr cs"
  using assms
proof (induction cs arbitrary: k)
  case (Cons c cs)
  have c: "sc_dc_table_id c \<le> 3" "sc_ac_table_id c \<le> 3" "sc_dc_table_id c \<le> 4" "sc_ac_table_id c \<le> 4"
    using Cons(2) by (auto simp: word_le_nat_alt)
  have "[k..<k + length (c # cs)] = k # [Suc k..<Suc k + length cs]" by (subst upt_conv_Cons) simp_all
  moreover have "parse_sos_components f payload [Suc k..<Suc k + length cs] = Inr cs"
  proof (rule Cons.IH)
    fix i assume "i < length cs"
    then show "payload ! (1 + (Suc k + i) * 2) = sc_component_id (cs ! i) \<and>
        payload ! (1 + (Suc k + i) * 2 + 1) = pack_nibbles (sc_dc_table_id (cs ! i)) (sc_ac_table_id (cs ! i))"
      using Cons(3) [of "Suc i"] by simp
  qed (use Cons(2) in simp)
  ultimately show ?case using Cons(2) Cons(3) [of 0] c
    by (simp add: Let_def pack_nibbles not_less)
qed simp

lemma parse_sos_payload:
  assumes "scan_ok f s" "length (fh_components f) \<le> 4" "read_segment_payload SOS p = Inr (sos_payload s, q)"
  shows "parse_sos f p = Inr (s, q)"
proof -
  let ?cs = "sh_components s"
  note ok = assms(1) [unfolded scan_ok_def]
  have n: "unat (of_nat (length ?cs) :: u8) = length ?cs" "length ?cs \<le> 4" using ok assms(2) by (simp_all add: unat_of_nat)
  have len: "length (concat (map (\<lambda>c. [sc_component_id c, pack_nibbles (sc_dc_table_id c) (sc_ac_table_id c)]) ?cs)) =
      2 * length ?cs" by (simp add: length_concat_const [of _ 2])
  have trailer: "drop (1 + 2 * length ?cs) (sos_payload s) = [0, 63, 0]"
    using ok len by (simp add: sos_payload_def pack_nibbles_def)
  have "parse_sos_components f (sos_payload s) [0..<0 + length ?cs] = Inr ?cs"
  proof (rule parse_sos_components_payload)
    fix i assume "i < length ?cs"
    then show "sos_payload s ! (1 + (0 + i) * 2) = sc_component_id (?cs ! i) \<and>
        sos_payload s ! (1 + (0 + i) * 2 + 1) = pack_nibbles (sc_dc_table_id (?cs ! i)) (sc_ac_table_id (?cs ! i))"
      using concat_pairs_nth [of i ?cs sc_component_id "\<lambda>c. pack_nibbles (sc_dc_table_id c) (sc_ac_table_id c)"] len
      by (simp add: sos_payload_def nth_append mult.commute)
  qed (use ok in blast)
  moreover have "length (sos_payload s) = 1 + 2 * length ?cs + 3" "sos_payload s ! 0 = of_nat (length ?cs)"
    using len by (simp_all add: sos_payload_def)
  ultimately show ?thesis using assms(3) n ok trailer
    by (auto simp: parse_sos_def Let_def)
qed

subsection \<open>The walk over the segments\<close>

text \<open>A segment turns one header state into another wherever it stands.\<close>

definition takes_to :: "u8 \<times> bytes \<Rightarrow> header_state \<Rightarrow> header_state \<Rightarrow> bool" where
  "takes_to seg st st' \<longleftrightarrow> fst seg \<notin> {0, PREFIX, SOS} \<and>
     (\<forall>p rest. drop (jp_cursor p) (jp_bytes p) = segment (snd seg) @ rest \<longrightarrow>
        header_segment (fst seg) p st = Inr (p\<lparr>jp_cursor := jp_cursor p + length (segment (snd seg))\<rparr>, st'))"

fun all_take_to :: "(u8 \<times> bytes) list \<Rightarrow> header_state \<Rightarrow> header_state \<Rightarrow> bool" where
  "all_take_to [] st st' \<longleftrightarrow> st = st'"
| "all_take_to (seg # segs) st st' \<longleftrightarrow> (\<exists>st1. takes_to seg st st1 \<and> all_take_to segs st1 st')"

lemma all_take_to_append:
  "all_take_to (xs @ ys) st st' \<longleftrightarrow> (\<exists>st1. all_take_to xs st st1 \<and> all_take_to ys st1 st')"
  by (induction xs arbitrary: st) auto

lemma next_marker_at:
  assumes "drop (jp_cursor p) (jp_bytes p) = PREFIX # m # rest" "m \<notin> {0, PREFIX}"
  shows "next_marker p = Inr (m, p\<lparr>jp_cursor := jp_cursor p + 2\<rparr>)" "drop (jp_cursor p + 2) (jp_bytes p) = rest"
  using next_marker_fills [of p 0 m rest] drop_Cons_nth(3) [OF assms(1)]
    drop_Cons_nth(3) [of "jp_cursor p + 1" "jp_bytes p" m rest] assms by simp_all

lemma drop_advance:
  assumes "drop c bs = xs @ rest"
  shows "drop (c + length xs) bs = rest"
  using arg_cong [OF assms, of "drop (length xs)"] by (simp add: add.commute)

lemma walk_headers_segment:
  assumes "takes_to seg st st'" "drop (jp_cursor p) (jp_bytes p) = write_segment seg @ rest"
  shows "walk_headers p st = walk_headers (p\<lparr>jp_cursor := jp_cursor p + length (write_segment seg)\<rparr>) st'"
proof -
  obtain m payload where seg: "seg = (m, payload)" by (cases seg)
  have m: "m \<notin> {0, PREFIX}" "m \<noteq> SOS" using assms(1) by (auto simp: takes_to_def seg)
  have "drop (jp_cursor p) (jp_bytes p) = PREFIX # m # segment payload @ rest"
    using assms(2) by (simp add: write_segment_def seg)
  note n = next_marker_at [OF this m(1)]
  let ?q = "p\<lparr>jp_cursor := jp_cursor p + 2\<rparr>"
  have "drop (jp_cursor ?q) (jp_bytes ?q) = segment payload @ rest" using n(2) by simp
  then have "header_segment m ?q st = Inr (?q\<lparr>jp_cursor := jp_cursor ?q + length (segment payload)\<rparr>, st')"
    using assms(1) unfolding takes_to_def seg fst_conv snd_conv by blast
  then show ?thesis using n(1) m(2) by (subst walk_headers.simps) (simp add: write_segment_def seg)
qed

lemma walk_headers_segments:
  assumes "all_take_to segs st st'" "drop (jp_cursor p) (jp_bytes p) = concat (map write_segment segs) @ rest"
  shows "walk_headers p st = walk_headers (p\<lparr>jp_cursor := jp_cursor p + length (concat (map write_segment segs))\<rparr>) st'"
  using assms
proof (induction segs arbitrary: p st)
  case (Cons seg segs)
  obtain st1 where st1: "takes_to seg st st1" "all_take_to segs st1 st'" using Cons(2) by auto
  have d: "drop (jp_cursor p) (jp_bytes p) = write_segment seg @ concat (map write_segment segs) @ rest"
    using Cons(3) by simp
  let ?q = "p\<lparr>jp_cursor := jp_cursor p + length (write_segment seg)\<rparr>"
  have "drop (jp_cursor ?q) (jp_bytes ?q) = concat (map write_segment segs) @ rest" using drop_advance [OF d] by simp
  from Cons.IH [OF st1(2) this] walk_headers_segment [OF st1(1) d] show ?case by (simp add: add.assoc)
qed simp

lemma walk_headers_sos:
  assumes "drop (jp_cursor p) (jp_bytes p) = write_segment (SOS, sos_payload s) @ rest"
    "hs_frame st = Some f" "frame_ok f" "scan_ok f s"
  shows "walk_headers p st =
    Inr \<lparr>ph_frame = f, ph_quant_tables = hs_quant_tables st, ph_huffman = hs_huffman st, ph_scan = s,
         ph_restart_interval = hs_restart_interval st, ph_entropy_data = rest,
         ph_color_info = (hs_color_info st)\<lparr>ci_icc_profile := fst (try_finish (hs_icc st))\<rparr>\<rparr>"
proof -
  have "drop (jp_cursor p) (jp_bytes p) = PREFIX # SOS # segment (sos_payload s) @ rest"
    using assms(1) by (simp add: write_segment_def)
  note n = next_marker_at [OF this]
  let ?q = "p\<lparr>jp_cursor := jp_cursor p + 2\<rparr>"
  have c: "length (fh_components f) \<le> 4" using assms(3) by (simp add: frame_ok_def)
  have "length (sos_payload s) + 2 < 65536"
    using assms(4) c by (simp add: sos_payload_def scan_ok_def length_concat_const [of _ 2])
  moreover have "drop (jp_cursor ?q) (jp_bytes ?q) = segment (sos_payload s) @ rest" using n(2) by simp
  ultimately have r: "read_segment_payload SOS ?q =
      Inr (sos_payload s, ?q\<lparr>jp_cursor := jp_cursor ?q + length (segment (sos_payload s))\<rparr>)"
      "drop (jp_cursor ?q + length (segment (sos_payload s))) (jp_bytes ?q) = rest"
    using read_segment_payload_at [of ?q "sos_payload s" rest] by blast+
  show ?thesis using n(1) assms(2) parse_sos_payload [OF assms(4) c r(1)] r(2)
    by (subst walk_headers.simps) simp
qed

subsection \<open>The segments of the writer\<close>

lemma takes_to_if:
  assumes "m \<notin> {0, PREFIX, SOS}" "length payload + 2 < 65536"
    "\<And>p q. (\<And>m. read_segment_payload m p = Inr (payload, q)) \<Longrightarrow> header_segment m p st = Inr (q, st')"
  shows "takes_to (m, payload) st st'"
  using assms read_segment_payload_at(1) by (auto simp: takes_to_def)

lemma takes_to_dqt:
  assumes "quantization_table_ok t" "qt_id t \<notin> qt_id ` set (hs_quant_tables st)"
  shows "takes_to (DQT, dqt_payload t) st (st\<lparr>hs_quant_tables := hs_quant_tables st @ [t]\<rparr>)"
proof (rule takes_to_if)
  show "length (dqt_payload t) + 2 < 65536" using assms(1) by (simp add: dqt_payload_def quantization_table_ok_def)
qed (simp_all add: header_segment_def parse_dqt_def parse_dqt_payload [OF assms])

lemma takes_to_dht:
  assumes "huffman_definition_ok d"
  shows "takes_to (DHT, dht_payload d) st (st\<lparr>hs_huffman := define_huffman d (hs_huffman st)\<rparr>)"
  using parse_dht_payload [OF assms]
  by (intro takes_to_if) (simp_all add: header_segment_def parse_dht_def)

lemma takes_to_sof0:
  assumes "frame_ok f" "hs_frame st = None"
  shows "takes_to (SOF0, sof0_payload f) st (st\<lparr>hs_frame := Some f\<rparr>)"
proof (rule takes_to_if)
  show "length (sof0_payload f) + 2 < 65536"
    using assms(1) by (simp add: sof0_payload_def frame_ok_def be16_bytes_def length_concat_const [of _ 3])
qed (simp_all add: header_segment_def parse_sof0_payload [OF assms(1)] assms(2))

lemma takes_to_dri: "takes_to (DRI, be16_bytes ri) st (st\<lparr>hs_restart_interval := ri\<rparr>)"
  by (rule takes_to_if) (simp_all add: header_segment_def parse_dri_def be16_bytes_def)

lemma takes_to_jfif:
  "takes_to (APP0, jfif_payload j) st (st\<lparr>hs_color_info := (hs_color_info st)\<lparr>ci_jfif := Some j\<rparr>\<rparr>)"
proof (rule takes_to_if)
  have len: "length JFIF_IDENTIFIER = 5" by (simp add: JFIF_IDENTIFIER_def ascii_def)
  then show "length (jfif_payload j) + 2 < 65536" by (simp add: jfif_payload_def)
  have "parse_app0 (jfif_payload j) = Inr (Some j)"
    using len by (simp add: parse_app0_def starts_with_def jfif_payload_def nth_append)
  then show "\<And>p q. (\<And>m. read_segment_payload m p = Inr (jfif_payload j, q)) \<Longrightarrow>
      header_segment APP0 p st = Inr (q, st\<lparr>hs_color_info := (hs_color_info st)\<lparr>ci_jfif := Some j\<rparr>\<rparr>)"
    by (simp add: header_segment_def)
qed simp

lemma all_take_to_dqt:
  assumes "\<forall>t\<in>set qs. quantization_table_ok t" "distinct (map qt_id (hs_quant_tables st @ qs))"
  shows "all_take_to (map (\<lambda>t. (DQT, dqt_payload t)) qs) st (st\<lparr>hs_quant_tables := hs_quant_tables st @ qs\<rparr>)"
  using assms
proof (induction qs arbitrary: st)
  case (Cons t qs)
  let ?st = "st\<lparr>hs_quant_tables := hs_quant_tables st @ [t]\<rparr>"
  have "takes_to (DQT, dqt_payload t) st ?st" using Cons(2,3) by (intro takes_to_dqt) auto
  with Cons.IH [of ?st] Cons(2,3) show ?case by auto
qed simp

lemma all_take_to_dht:
  assumes "\<forall>d\<in>set ds. huffman_definition_ok d"
  shows "all_take_to (map (\<lambda>d. (DHT, dht_payload d)) ds) st (st\<lparr>hs_huffman := fold define_huffman ds (hs_huffman st)\<rparr>)"
  using assms
proof (induction ds arbitrary: st)
  case (Cons d ds)
  let ?st = "st\<lparr>hs_huffman := define_huffman d (hs_huffman st)\<rparr>"
  have "takes_to (DHT, dht_payload d) st ?st" using Cons(2) by (intro takes_to_dht) simp
  with Cons.IH [of ?st] Cons(2) show ?case by auto
qed simp

definition written_state :: "jpeg_image \<Rightarrow> header_state" where
  "written_state im =
     \<lparr>hs_quant_tables = im_quant_tables im, hs_huffman = image_huffman im, hs_frame = Some (im_frame im),
      hs_restart_interval = im_restart_interval im, hs_color_info = color_info_default\<lparr>ci_jfif := Some (im_jfif im)\<rparr>,
      hs_icc = icc_accumulator_default\<rparr>"

lemma all_take_to_written:
  assumes "image_ok im"
  shows "all_take_to (header_segments im) header_state_default (written_state im)"
proof -
  note ok = assms [unfolded image_ok_def]
  let ?s1 = "header_state_default\<lparr>hs_color_info := color_info_default\<lparr>ci_jfif := Some (im_jfif im)\<rparr>\<rparr>"
  let ?s2 = "?s1\<lparr>hs_quant_tables := im_quant_tables im\<rparr>"
  let ?s3 = "?s2\<lparr>hs_frame := Some (im_frame im)\<rparr>"
  let ?s4 = "?s3\<lparr>hs_huffman := image_huffman im\<rparr>"
  have "takes_to (APP0, jfif_payload (im_jfif im)) header_state_default ?s1"
    using takes_to_jfif [of "im_jfif im" header_state_default] by (simp add: header_state_default_def)
  moreover have "all_take_to (map (\<lambda>t. (DQT, dqt_payload t)) (im_quant_tables im)) ?s1 ?s2"
    using all_take_to_dqt [of "im_quant_tables im" ?s1] ok by (simp add: header_state_default_def)
  moreover have "takes_to (SOF0, sof0_payload (im_frame im)) ?s2 ?s3"
    using takes_to_sof0 [of "im_frame im" ?s2] ok by (simp add: header_state_default_def)
  moreover have "all_take_to (map (\<lambda>d. (DHT, dht_payload d)) (im_huffman im)) ?s3 ?s4"
    using all_take_to_dht [of "im_huffman im" ?s3] ok by (simp add: header_state_default_def image_huffman_def)
  moreover have "takes_to (DRI, be16_bytes (im_restart_interval im)) ?s4 (written_state im)"
    using takes_to_dri [of "im_restart_interval im" ?s4] by (simp add: written_state_def header_state_default_def)
  ultimately show ?thesis unfolding header_segments_def all_take_to.simps all_take_to_append by blast
qed

lemma parse_headers_written:
  assumes "image_ok im"
  shows "parse_headers (write_jpeg im entropy_data) =
    Inr \<lparr>ph_frame = im_frame im, ph_quant_tables = im_quant_tables im, ph_huffman = image_huffman im,
         ph_scan = im_scan im, ph_restart_interval = im_restart_interval im, ph_entropy_data = entropy_data,
         ph_color_info = color_info_default\<lparr>ci_jfif := Some (im_jfif im)\<rparr>\<rparr>"
proof -
  let ?segs = "concat (map write_segment (header_segments im))"
  let ?p = "\<lparr>jp_bytes = write_jpeg im entropy_data, jp_cursor = 2\<rparr>"
  let ?q = "?p\<lparr>jp_cursor := jp_cursor ?p + length ?segs\<rparr>"
  have "drop (jp_cursor ?p) (jp_bytes ?p) = ?segs @ write_segment (SOS, sos_payload (im_scan im)) @ entropy_data"
    by (simp add: write_jpeg_def)
  note walk = walk_headers_segments [OF all_take_to_written [OF assms] this] drop_advance [OF this]
  have "drop (jp_cursor ?q) (jp_bytes ?q) = write_segment (SOS, sos_payload (im_scan im)) @ entropy_data"
    using walk(2) by simp
  from walk_headers_sos [OF this, of "written_state im" "im_frame im"] assms walk(1)
  show ?thesis
    by (simp add: parse_headers_def expect_soi_def parser_new_def write_jpeg_def written_state_def image_ok_def
        try_finish_def icc_accumulator_default_def color_info_default_def)
qed

lemma check_quantization_tables_ok:
  "\<forall>c\<in>set cs. fc_quant_table_id c \<in> qt_id ` set qs \<Longrightarrow> check_quantization_tables qs cs = Inr ()"
  by (induction cs) force+

subsection \<open>The tables a scan finds\<close>

text \<open>A slot holds the last table the file defines for it.\<close>

definition last_definition :: "huffman_definition list \<Rightarrow> huffman_class \<Rightarrow> u8 \<Rightarrow> code_spec option" where
  "last_definition ds cl tid = map_of (rev (map (\<lambda>(c, t, spec). ((c, t), spec)) ds)) (cl, tid)"

definition defined_for :: "huffman_definition list \<Rightarrow> scan_component \<Rightarrow> coded_component \<Rightarrow> bool" where
  "defined_for ds sc cc \<longleftrightarrow> last_definition ds Dc (sc_dc_table_id sc) = Some (cc_dc_spec cc) \<and>
     last_definition ds Ac (sc_ac_table_id sc) = Some (cc_ac_spec cc)"

fun slots_of :: "huffman_class \<Rightarrow> huffman_tables \<Rightarrow> huffman_table option list" where
  "slots_of Dc h = hts_dc h"
| "slots_of Ac h = hts_ac h"

lemma slots_of_define:
  "slots_of cl (define_huffman (c, t, spec) h) =
     (if cl = c then (slots_of cl h)[unat t := Some (projr (huffman_build c t (fst spec) (snd spec)))] else slots_of cl h)"
  by (cases cl; cases c) (simp_all add: put_huffman_table_def)

lemma length_slots_of_define: "length (slots_of cl (define_huffman d h)) = length (slots_of cl h)"
  by (cases d) (simp add: slots_of_define del: define_huffman.simps)

lemma slot_of_last_definition:
  assumes "\<forall>d\<in>set ds. huffman_definition_ok d" "last_definition ds cl tid = Some spec"
    "length (slots_of cl h) = 4" "tid \<le> 3"
  shows "\<exists>t. slots_of cl (fold define_huffman ds h) ! unat tid = Some t \<and> builds spec t"
  using assms(1,2)
proof (induction ds rule: rev_induct)
  case (snoc d ds)
  obtain c t s where d: "d = (c, t, s)" by (cases d)
  have len: "length (slots_of cl (fold define_huffman ds h)) = 4"
    using assms(3) by (induction ds arbitrary: h) (simp_all add: length_slots_of_define del: define_huffman.simps)
  have "unat tid < 4" using assms(4) by (simp add: word_le_nat_alt)
  have small: "unat t = unat tid \<longleftrightarrow> t = tid" by (simp add: word_unat_eq_iff)
  show ?case
  proof (cases "c = cl \<and> t = tid")
    case True
    then have "s = spec" using snoc.prems(2) by (simp add: d last_definition_def)
    moreover obtain ht where "huffman_build c t (fst s) (snd s) = Inr ht" "length (fst s) = 16"
      using snoc.prems(1) by (cases "huffman_build c t (fst s) (snd s)") (auto simp: d)
    ultimately show ?thesis using True len \<open>unat tid < 4\<close>
      by (auto simp: d slots_of_define builds_def simp del: define_huffman.simps)
  next
    case False
    then have "last_definition ds cl tid = Some spec" using snoc.prems(2) by (auto simp: d last_definition_def)
    then show ?thesis using False snoc.IH snoc.prems(1) small
      by (auto simp: d slots_of_define simp del: define_huffman.simps)
  qed
qed (simp add: last_definition_def)

lemma written_tables_in_their_slots:
  assumes "image_ok im" "list_all2 (defined_for (im_huffman im)) (sh_components (im_scan im)) ccs"
  shows "list_all2 (in_its_slots (image_huffman im)) (sh_components (im_scan im)) ccs"
  using assms(2)
proof (rule list.rel_mono_strong)
  fix sc cc assume "sc \<in> set (sh_components (im_scan im))" "cc \<in> set ccs" "defined_for (im_huffman im) sc cc"
  note sc = this
  have ids: "sc_dc_table_id sc \<le> 3" "sc_ac_table_id sc \<le> 3"
    using sc(1) assms(1) by (auto simp: image_ok_def scan_ok_def)
  have ok: "\<forall>d\<in>set (im_huffman im). huffman_definition_ok d" using assms(1) by (simp add: image_ok_def)
  have len: "length (slots_of cl huffman_tables_default) = 4" for cl
    by (cases cl) (simp_all add: huffman_tables_default_def)
  have defs: "last_definition (im_huffman im) Dc (sc_dc_table_id sc) = Some (cc_dc_spec cc)"
    "last_definition (im_huffman im) Ac (sc_ac_table_id sc) = Some (cc_ac_spec cc)"
    using sc(3) by (simp_all add: defined_for_def)
  show "in_its_slots (image_huffman im) sc cc"
    using slot_of_last_definition [OF ok defs(1) len ids(1)] slot_of_last_definition [OF ok defs(2) len ids(2)]
    by (simp add: in_its_slots_def image_huffman_def)
qed

lemma image_ok_sampling:
  assumes "image_ok im"
  shows "sampling_ok (im_frame im)" "fh_components (im_frame im) \<noteq> []"
  using assms by (auto simp: image_ok_def frame_ok_def sampling_ok_def word_le_nat_alt word_less_nat_alt Suc_le_eq)

subsection \<open>Properties\<close>

text \<open>C19: decoding a whole baseline file inverts writing it. Take a frame, quantization tables of 8 or 16
  bits, Huffman tables, a restart interval and a scan, lay them out as the APP0, DQT, SOF0, DHT, DRI
  and SOS segments of a file, and put behind them any coefficients of the scan's components, laid
  out by Annex A of the standard and coded with the last Huffman tables the file defines for them:
  the decoder returns the frame, the quantization tables, the scan, the restart interval, the
  components and the JFIF metadata as they were, and the colour of the file resolves to the JFIF
  default. A scan of one component is covered when its factors are 1x1.\<close>

theorem jpeg_file_roundtrip:
  assumes "image_ok im"
    and "list_all2 (of_the_frame (im_frame im)) (sh_components (im_scan im)) ccs"
    and "list_all2 (defined_for (im_huffman im)) (sh_components (im_scan im)) ccs"
    and "\<forall>cc. ccs = [cc] \<longrightarrow> cc_h cc = 1 \<and> cc_v cc = 1"
    and "standard_scan (im_frame im) (unat (im_restart_interval im)) trailer ccs = Some entropy_data"
  shows "\<exists>d. decode (write_jpeg im entropy_data) = Inr d \<and> dj_frame d = im_frame im \<and>
    dj_quant_tables d = im_quant_tables im \<and> dj_scan d = im_scan im \<and>
    dj_components d = map (decoded_component (im_frame im)) ccs \<and>
    dj_restart_interval d = im_restart_interval im \<and> ci_jfif (dj_color_info d) = Some (im_jfif im) \<and>
    resolve_jpeg_color (dj_color_info d) = Inr \<lparr>rj_info = jfif_default, rj_source = JfifDefault\<rparr>"
proof -
  have "check_quantization_tables (im_quant_tables im) (fh_components (im_frame im)) = Inr ()"
    using assms(1) by (intro check_quantization_tables_ok) (simp add: image_ok_def)
  then show ?thesis
    using parse_headers_written [OF assms(1)] decode_entropy_standard [OF image_ok_sampling [OF assms(1)] assms(2)
        written_tables_in_their_slots [OF assms(1,3)] assms(4,5)]
    by (simp add: decode_def resolve_jpeg_color_def color_info_default_def)
qed

text \<open>The two interleaved components of the scan, with 8-bit quantization steps. The file defines the AC
  table's slot twice; the second definition counts.\<close>

definition sample_image :: jpeg_image where
  "sample_image = \<lparr>im_jfif = \<lparr>jfif_version = (1, 2)\<rparr>,
     im_quant_tables = [\<lparr>qt_id = 0, qt_precision = 0, qt_values = replicate 64 16\<rparr>],
     im_frame = sample_frame,
     im_huffman = [(Ac, 0, sample_dc_spec), (Dc, 0, sample_dc_spec), (Ac, 0, sample_ac_spec)],
     im_restart_interval = 1, im_scan = sample_scan\<rparr>"

lemma sample_image_ok: "image_ok sample_image"
proof -
  have "is_ok (huffman_build Dc 0 (fst sample_dc_spec) (snd sample_dc_spec))"
    "is_ok (huffman_build Ac 0 (fst sample_dc_spec) (snd sample_dc_spec))"
    "is_ok (huffman_build Ac 0 (fst sample_ac_spec) (snd sample_ac_spec))" by code_simp+
  then show ?thesis
    by (simp add: image_ok_def sample_image_def frame_ok_def sample_frame_def scan_ok_def sample_scan_def
        quantization_table_ok_def sample_dc_spec_def sample_ac_spec_def)
qed

lemma sample_defined_for:
  "list_all2 (defined_for (im_huffman sample_image)) (sh_components (im_scan sample_image)) sample_components"
  by (simp add: sample_image_def sample_scan_def sample_components_def defined_for_def last_definition_def)

theorem jpeg_file_roundtrip_witness:
  "\<exists>d. decode (write_jpeg sample_image [0x68, 0x20, 0x96, 0xAF, 0xFF, 0xD0, 0x06, 0x48, 0x5F, 0xFF, 0xD9, 7]) = Inr d \<and>
     map cs_coefficients (dj_components d) = [sample_luma, sample_chroma] \<and> dj_frame d = sample_frame"
proof -
  have f: "im_frame sample_image = sample_frame" "im_scan sample_image = sample_scan"
      "im_restart_interval sample_image = 1" by (simp_all add: sample_image_def)
  obtain d where d: "decode (write_jpeg sample_image [0x68, 0x20, 0x96, 0xAF, 0xFF, 0xD0, 0x06, 0x48, 0x5F, 0xFF, 0xD9, 7]) = Inr d"
      "dj_components d = map (decoded_component sample_frame) sample_components" "dj_frame d = sample_frame"
    using jpeg_file_roundtrip [OF sample_image_ok _ sample_defined_for sample_two_components, of "[7]"]
      sample_of_the_frame sample_coded by (auto simp: f)
  then show ?thesis
    by (intro exI [of _ d]) (simp add: sample_components_def decoded_component_def)
qed

end
