(* ===== verification/Audio_Window.thy ===== *)
theory Audio_Window
  imports Mailbox
begin

text \<open>
  The audio window stage between a windowed port's mailbox and its reader
  (\<open>runtime/streamlib-engine/src/iceoryx2/audio_window/\<close>) and the declaration that drives it
  (\<open>sdk/streamlib-processor-schema/src/audio_window_contract.rs\<close>): the contract, the reader and
  writer of audio-block bags, and the accumulator that turns blocks of any size into windows of
  exactly the declared one.

  An \<open>f32\<close> is its 32 bits. Its arithmetic, the MessagePack codec and the sinc resampler of the
  \<open>rubato\<close> crate are fields of the record \<open>window_env\<close> that the operations take.
\<close>

type_synonym f32 = "32 word"
type_synonym i16 = "16 word"

subsection \<open>The declaration\<close>

record audio_window_contract_declared_values =
  dv_sample_rate :: u32
  dv_channels :: "u32 option"
  dv_dtype :: string
  dv_window_size :: u32
  dv_hop :: u32

datatype audio_window_contract =
  Declaration audio_window_contract_declared_values
| MatchDevice
| Device audio_window_contract_declared_values

datatype declaration_refusal =
  FieldIsZero string
| DtypeOutsideTheVocabulary string
| HopAboveWindowSize u32 u32
| DtypeNamesNoEncoding string

definition refuse_if_unhonourable :: "audio_window_contract_declared_values \<Rightarrow> declaration_refusal + unit" where
  "refuse_if_unhonourable v =
     (case find (\<lambda>(_, value). value = Some 0)
             [(''sample_rate'', Some (dv_sample_rate v)), (''channels'', dv_channels v),
              (''window_size'', Some (dv_window_size v)), (''hop'', Some (dv_hop v))] of
        Some (field_name, _) \<Rightarrow> Inl (FieldIsZero field_name)
      | None \<Rightarrow>
          if dv_dtype v \<notin> set [''f32'', ''i16''] then Inl (DtypeOutsideTheVocabulary (dv_dtype v))
          else if dv_window_size v < dv_hop v then Inl (HopAboveWindowSize (dv_hop v) (dv_window_size v))
          else Inr ())"

subsection \<open>The audio block on the wire\<close>

datatype audio_block_sample_dtype = F32 | I16

fun bytes_per_sample :: "audio_block_sample_dtype \<Rightarrow> nat" where
  "bytes_per_sample F32 = 4"
| "bytes_per_sample I16 = 2"

fun dtype_as_wire_str :: "audio_block_sample_dtype \<Rightarrow> string" where
  "dtype_as_wire_str F32 = ''f32''"
| "dtype_as_wire_str I16 = ''i16''"

definition dtype_from_wire_str :: "string \<Rightarrow> audio_block_sample_dtype option" where
  "dtype_from_wire_str d = (if d = ''f32'' then Some F32 else if d = ''i16'' then Some I16 else None)"

record audio_block_named_map =
  nm_interleaved_sample_bytes :: bytes
  nm_sample_rate :: u32
  nm_channels :: u32
  nm_sample_count :: u32
  nm_dtype :: "string option"
  nm_first_sample_timestamp_ns :: i64

record audio_block =
  ab_interleaved_sample_bytes :: bytes
  ab_sample_rate :: u32
  ab_channels :: u32
  ab_sample_count :: u32
  ab_dtype :: audio_block_sample_dtype
  ab_first_sample_timestamp_ns :: i64

datatype audio_block_wire_refusal =
  NotAnAudioBlockBag string
| UnknownSampleDtype string
| PayloadLengthDisagreesWithTheCount nat nat u32 u32 string

record f32_arith =
  f32_sum :: "f32 list \<Rightarrow> f32"
  f32_mul :: "f32 \<Rightarrow> f32 \<Rightarrow> f32"
  f32_div :: "f32 \<Rightarrow> f32 \<Rightarrow> f32"
  f32_of_usize :: "nat \<Rightarrow> f32"
  f32_of_i16 :: "i16 \<Rightarrow> f32"
  f32_round :: "f32 \<Rightarrow> f32"
  f32_is_nan :: "f32 \<Rightarrow> bool"
  f32_clamp :: "f32 \<Rightarrow> f32 \<Rightarrow> f32 \<Rightarrow> f32"
  f32_as_i16 :: "f32 \<Rightarrow> i16"

text \<open>
  \<open>new_sinc\<close> gets the contract's rate, the source's rate, the source frames per call and the
  channel count. \<open>process_into_buffer\<close> gets one call's input and returns what it wrote; both
  buffers are sized to the resampler's own figures, so wrapping them as slices cannot fail.
\<close>

record 'r window_env =
  arith :: f32_arith
  from_slice :: "bytes \<Rightarrow> string + audio_block_named_map"
  to_vec_named :: "audio_block_named_map \<Rightarrow> string + bytes"
  new_sinc :: "u32 \<Rightarrow> u32 \<Rightarrow> nat \<Rightarrow> u32 \<Rightarrow> string + 'r"
  output_delay :: "'r \<Rightarrow> nat"
  input_frames_next :: "'r \<Rightarrow> nat"
  reset :: "'r \<Rightarrow> 'r"
  process_into_buffer :: "'r \<Rightarrow> f32 list \<Rightarrow> (string + f32 list) \<times> 'r"

text \<open>The expected length is a product of \<open>usize\<close> values, which wraps.\<close>

definition expected_payload_bytes :: "u32 \<Rightarrow> u32 \<Rightarrow> audio_block_sample_dtype \<Rightarrow> nat" where
  "expected_payload_bytes sample_count channels dtype =
     (unat sample_count * unat channels * bytes_per_sample dtype) mod 2 ^ 64"

definition read_an_audio_block_off_the_wire ::
    "('r, 'z) window_env_scheme \<Rightarrow> bytes \<Rightarrow> audio_block_wire_refusal + audio_block" where
  "read_an_audio_block_off_the_wire env bag_body =
     (case from_slice env bag_body of
        Inl decode_failure \<Rightarrow> Inl (NotAnAudioBlockBag decode_failure)
      | Inr named_map \<Rightarrow>
          and_then
            (case nm_dtype named_map of None \<Rightarrow> Inr F32
             | Some spelling \<Rightarrow> ok_or (UnknownSampleDtype spelling) (dtype_from_wire_str spelling))
            (\<lambda>dtype.
               let expected_bytes = expected_payload_bytes (nm_sample_count named_map) (nm_channels named_map) dtype;
                   payload_bytes = length (nm_interleaved_sample_bytes named_map)
               in if payload_bytes \<noteq> expected_bytes
                  then Inl (PayloadLengthDisagreesWithTheCount payload_bytes expected_bytes
                              (nm_sample_count named_map) (nm_channels named_map) (dtype_as_wire_str dtype))
                  else Inr \<lparr>ab_interleaved_sample_bytes = nm_interleaved_sample_bytes named_map,
                            ab_sample_rate = nm_sample_rate named_map, ab_channels = nm_channels named_map,
                            ab_sample_count = nm_sample_count named_map, ab_dtype = dtype,
                            ab_first_sample_timestamp_ns = nm_first_sample_timestamp_ns named_map\<rparr>))"

function chunks_exact :: "nat \<Rightarrow> 'a list \<Rightarrow> 'a list list" where
  "chunks_exact n xs = (if n = 0 \<or> length xs < n then [] else take n xs # chunks_exact n (drop n xs))"
  by pat_completeness auto
termination
  by (relation "measure (\<lambda>(n, xs). length xs)") auto

declare chunks_exact.simps [simp del]

fun scalar_as_f32 :: "f32_arith \<Rightarrow> audio_block_sample_dtype \<Rightarrow> bytes \<Rightarrow> f32" where
  "scalar_as_f32 ops F32 scalar = of_le_bytes scalar"
| "scalar_as_f32 ops I16 scalar = f32_div ops (f32_of_i16 ops (of_le_bytes scalar)) 0x47000000"

definition interleaved_samples_as_f32 :: "f32_arith \<Rightarrow> audio_block \<Rightarrow> f32 list" where
  "interleaved_samples_as_f32 ops block =
     map (scalar_as_f32 ops (ab_dtype block))
       (chunks_exact (bytes_per_sample (ab_dtype block)) (ab_interleaved_sample_bytes block))"

text \<open>The bit patterns are 32768.0, -32768.0 and 32767.0.\<close>

definition saturating_i16_from_f32 :: "f32_arith \<Rightarrow> f32 \<Rightarrow> i16" where
  "saturating_i16_from_f32 ops scalar =
     (let scaled = f32_round ops (f32_mul ops scalar 0x47000000)
      in if f32_is_nan ops scaled then 0
         else f32_as_i16 ops (f32_clamp ops scaled 0xC7000000 0x46FFFE00))"

fun scalar_onto_the_wire :: "f32_arith \<Rightarrow> audio_block_sample_dtype \<Rightarrow> f32 \<Rightarrow> bytes" where
  "scalar_onto_the_wire ops F32 scalar = le_bytes 4 scalar"
| "scalar_onto_the_wire ops I16 scalar = le_bytes 2 (saturating_i16_from_f32 ops scalar)"

definition encode_an_audio_block_onto_the_wire ::
    "('r, 'z) window_env_scheme \<Rightarrow> f32 list \<Rightarrow> u32 \<Rightarrow> u32 \<Rightarrow> u32 \<Rightarrow> audio_block_sample_dtype \<Rightarrow> i64 \<Rightarrow>
      string + bytes" where
  "encode_an_audio_block_onto_the_wire env samples sample_rate channels sample_count dtype stamp =
     to_vec_named env
       \<lparr>nm_interleaved_sample_bytes = concat (map (scalar_onto_the_wire (arith env) dtype) samples),
        nm_sample_rate = sample_rate, nm_channels = channels, nm_sample_count = sample_count,
        nm_dtype = Some (dtype_as_wire_str dtype), nm_first_sample_timestamp_ns = stamp\<rparr>"

subsection \<open>The resolved contract\<close>

record resolved_audio_window_contract =
  wc_sample_rate :: u32
  wc_channels :: "u32 option"
  wc_dtype :: audio_block_sample_dtype
  wc_window_size :: u32
  wc_hop :: u32

definition from_declared_values ::
    "audio_window_contract_declared_values \<Rightarrow> declaration_refusal + resolved_audio_window_contract" where
  "from_declared_values v =
     and_then (refuse_if_unhonourable v) (\<lambda>_.
     and_then (ok_or (DtypeNamesNoEncoding (dv_dtype v)) (dtype_from_wire_str (dv_dtype v))) (\<lambda>dtype.
       Inr \<lparr>wc_sample_rate = dv_sample_rate v, wc_channels = dv_channels v, wc_dtype = dtype,
            wc_window_size = dv_window_size v, wc_hop = dv_hop v\<rparr>))"

datatype audio_sample_format = SampleFormat_F32 | SampleFormat_I16

record audio_stream_format =
  sf_sample_rate :: u32
  sf_channels :: u32
  sf_sample_format :: audio_sample_format

record audio_window_contract_matching_a_device_stream =
  device_stream_format :: audio_stream_format
  window_size_in_per_channel_samples :: u32
  hop_in_per_channel_samples :: u32

fun audio_window_dtype_of :: "audio_sample_format \<Rightarrow> string" where
  "audio_window_dtype_of SampleFormat_F32 = dtype_as_wire_str F32"
| "audio_window_dtype_of SampleFormat_I16 = dtype_as_wire_str I16"

definition from_a_device_stream_format ::
    "audio_window_contract_matching_a_device_stream \<Rightarrow> declaration_refusal + resolved_audio_window_contract" where
  "from_a_device_stream_format matching =
     (let format = device_stream_format matching
      in from_declared_values
           \<lparr>dv_sample_rate = sf_sample_rate format, dv_channels = Some (sf_channels format),
            dv_dtype = audio_window_dtype_of (sf_sample_format format),
            dv_window_size = window_size_in_per_channel_samples matching,
            dv_hop = hop_in_per_channel_samples matching\<rparr>)"

datatype audio_window_declaration_of_an_input_port =
  StatedOutright resolved_audio_window_contract
| MatchesItsProcessorsDeviceStream

datatype audio_window_error =
  AudioWindowStageCannotReadTheBag string audio_block_wire_refusal
| TheBlockStatesZero string u32 u32
| AudioWindowStageChannelConversionRefused string u32 u32
| NoResamplerCouldBeBuilt u32 u32 u32 string
| TheResamplerFailed string
| BagEncodeFailed string
| DeclaredContractRefused string string declaration_refusal
| DeclaresAContractResolvedFromADevice string string
| UnsettledMatchDeviceSentinel string string

fun read_declaration ::
    "audio_window_contract \<Rightarrow> string \<Rightarrow> string \<Rightarrow> audio_window_error + audio_window_declaration_of_an_input_port" where
  "read_declaration (Declaration v) processor_type port =
     (case from_declared_values v of
        Inr contract \<Rightarrow> Inr (StatedOutright contract)
      | Inl refusal \<Rightarrow> Inl (DeclaredContractRefused port processor_type refusal))"
| "read_declaration MatchDevice processor_type port = Inr MatchesItsProcessorsDeviceStream"
| "read_declaration (Device v) processor_type port =
     Inl (DeclaresAContractResolvedFromADevice port processor_type)"

definition refuse_an_unsettled_match_device_sentinel :: "string \<Rightarrow> string \<Rightarrow> audio_window_error" where
  "refuse_an_unsettled_match_device_sentinel processor_type port =
     UnsettledMatchDeviceSentinel port processor_type"

text \<open>\<open>port_info\<close> is the registry's lookup of a class: its input ports, each with the contract it
  declares.\<close>

definition audio_windowing_declared_by_input_port ::
    "(string \<Rightarrow> (string \<times> audio_window_contract option) list option) \<Rightarrow> string \<Rightarrow> string \<Rightarrow>
      audio_window_error + audio_window_declaration_of_an_input_port option" where
  "audio_windowing_declared_by_input_port port_info processor_type port =
     (case port_info processor_type of
        None \<Rightarrow> Inr None
      | Some inputs \<Rightarrow>
          (case find (\<lambda>p. fst p = port) inputs of
             None \<Rightarrow> Inr None
           | Some p \<Rightarrow>
               (case snd p of
                  None \<Rightarrow> Inr None
                | Some contract \<Rightarrow>
                    and_then (read_declaration contract processor_type port) (\<lambda>d. Inr (Some d)))))"

record source_audio_format =
  sa_sample_rate :: u32
  sa_channels :: u32

definition channels_a_window_carries_from ::
    "resolved_audio_window_contract \<Rightarrow> source_audio_format \<Rightarrow> u32" where
  "channels_a_window_carries_from c source =
     (case wc_channels c of Some n \<Rightarrow> n | None \<Rightarrow> sa_channels source)"

definition as_declared_values :: "resolved_audio_window_contract \<Rightarrow> audio_window_contract_declared_values" where
  "as_declared_values c =
     \<lparr>dv_sample_rate = wc_sample_rate c, dv_channels = wc_channels c, dv_dtype = dtype_as_wire_str (wc_dtype c),
      dv_window_size = wc_window_size c, dv_hop = wc_hop c\<rparr>"

text \<open>The product of a \<open>u32\<close> and 10^9 fits 64 bits.\<close>

definition div_ceil_nat :: "nat \<Rightarrow> nat \<Rightarrow> nat" where
  "div_ceil_nat a b = (a + b - 1) div b"

definition windowed_port_mailbox_depth :: "resolved_audio_window_contract \<Rightarrow> nat" where
  "windowed_port_mailbox_depth c =
     (let window_nanoseconds = unat (wc_window_size c) * 1000000000 div unat (wc_sample_rate c);
          blocks_per_window = div_ceil_nat window_nanoseconds 125000;
          derived = min (blocks_per_window + 4) 8192
      in max derived (depth (delivery_resolve Ordered)))"

text \<open>The contracts that device streams settled, by input port.\<close>

type_synonym device_matched_contracts = "(string \<times> resolved_audio_window_contract) list"

definition settle_for_input_port ::
    "string \<Rightarrow> resolved_audio_window_contract \<Rightarrow> device_matched_contracts \<Rightarrow> device_matched_contracts" where
  "settle_for_input_port port contract settled = AList.update port contract settled"

definition settled_for_input_port ::
    "string \<Rightarrow> device_matched_contracts \<Rightarrow> resolved_audio_window_contract option" where
  "settled_for_input_port port settled = map_of settled port"

definition settled_declaration_for_input_port ::
    "string \<Rightarrow> device_matched_contracts \<Rightarrow> audio_window_contract_declared_values option" where
  "settled_declaration_for_input_port port settled =
     map_option as_declared_values (settled_for_input_port port settled)"

text \<open>The format of the bag last pushed, packed into one atomic word: the rate in the high half.\<close>

definition record_source_format :: "source_audio_format \<Rightarrow> u64" where
  "record_source_format f = or (push_bit 32 (ucast (sa_sample_rate f))) (ucast (sa_channels f))"

definition read_source_format :: "u64 \<Rightarrow> source_audio_format option" where
  "read_source_format packed =
     (if packed \<noteq> 0
      then Some \<lparr>sa_sample_rate = ucast (drop_bit 32 packed), sa_channels = ucast packed\<rparr> else None)"

text \<open>The measure of a queued wire frame, with what it records of the format.\<close>

definition queued_audio_window_frame_measure ::
    "('r, 'z) window_env_scheme \<Rightarrow> resolved_audio_window_contract \<Rightarrow> bytes \<Rightarrow> u64 \<Rightarrow> u64 \<times> u64" where
  "queued_audio_window_frame_measure env contract wire_frame latest =
     (case read_payload_from_slice wire_frame of
        None \<Rightarrow> (0, latest)
      | Some body \<Rightarrow>
          (case read_an_audio_block_off_the_wire env body of
             Inl _ \<Rightarrow> (0, latest)
           | Inr block \<Rightarrow>
               if ab_sample_rate block = 0 \<or> ab_channels block = 0 then (0, latest)
               else (of_nat (unat (ab_sample_count block) * unat (wc_sample_rate contract) div unat (ab_sample_rate block)),
                     record_source_format \<lparr>sa_sample_rate = ab_sample_rate block, sa_channels = ab_channels block\<rparr>)))"

subsection \<open>The accumulator\<close>

record rate_conversion_inputs =
  ri_source_sample_rate :: u32
  ri_channels_converted :: u32

definition for_a_source_in ::
    "source_audio_format \<Rightarrow> resolved_audio_window_contract \<Rightarrow> rate_conversion_inputs" where
  "for_a_source_in format c =
     \<lparr>ri_source_sample_rate = sa_sample_rate format,
      ri_channels_converted = channels_a_window_carries_from c format\<rparr>"

datatype 'r rate_conversion = RatesAlreadyAgree | Resampled 'r

definition rate_conversion_build ::
    "('r, 'z) window_env_scheme \<Rightarrow> rate_conversion_inputs \<Rightarrow> u32 \<Rightarrow> audio_window_error + 'r rate_conversion" where
  "rate_conversion_build env inputs contract_sample_rate =
     (if ri_source_sample_rate inputs = contract_sample_rate then Inr RatesAlreadyAgree
      else case new_sinc env contract_sample_rate (ri_source_sample_rate inputs) 256 (ri_channels_converted inputs) of
             Inr resampler \<Rightarrow> Inr (Resampled resampler)
           | Inl failure \<Rightarrow> Inl (NoResamplerCouldBeBuilt (ri_source_sample_rate inputs) contract_sample_rate
                                   (ri_channels_converted inputs) failure))"

fun priming_output_frames :: "('r, 'z) window_env_scheme \<Rightarrow> 'r rate_conversion \<Rightarrow> nat" where
  "priming_output_frames env RatesAlreadyAgree = 0"
| "priming_output_frames env (Resampled r) = output_delay env r"

fun source_frames_per_call :: "('r, 'z) window_env_scheme \<Rightarrow> 'r rate_conversion \<Rightarrow> nat option" where
  "source_frames_per_call env RatesAlreadyAgree = None"
| "source_frames_per_call env (Resampled r) = Some (input_frames_next env r)"

fun forget_everything_held :: "('r, 'z) window_env_scheme \<Rightarrow> 'r rate_conversion \<Rightarrow> 'r rate_conversion" where
  "forget_everything_held env RatesAlreadyAgree = RatesAlreadyAgree"
| "forget_everything_held env (Resampled r) = Resampled (reset env r)"

text \<open>The two scratch buffers of the source are emptied before every use and are left out.\<close>

record 'r audio_window_accumulator =
  stage_port_name :: string
  contract :: resolved_audio_window_contract
  source_format :: "source_audio_format option"
  rate_conversion :: "'r rate_conversion"
  rate_conversion_built_for :: "rate_conversion_inputs option"
  channel_converted_source_scalars :: "f32 list"
  windowable_output_scalars :: "f32 list"
  warned_that_a_full_mailbox_still_cannot_fill_a_window :: bool
  priming_output_frames_still_to_discard :: nat
  run_anchor_timestamp_ns :: "i64 option"
  next_window_start_output_frame :: u64
  expected_next_source_timestamp_ns :: "i64 option"
  gap_tolerance_ns :: i64

definition accumulator_new :: "string \<Rightarrow> resolved_audio_window_contract \<Rightarrow> 'r audio_window_accumulator" where
  "accumulator_new port c =
     \<lparr>stage_port_name = port, contract = c, source_format = None, rate_conversion = RatesAlreadyAgree,
      rate_conversion_built_for = None, channel_converted_source_scalars = [], windowable_output_scalars = [],
      warned_that_a_full_mailbox_still_cannot_fill_a_window = False, priming_output_frames_still_to_discard = 0,
      run_anchor_timestamp_ns = None, next_window_start_output_frame = 0,
      expected_next_source_timestamp_ns = None, gap_tolerance_ns = 0\<rparr>"

definition frames_as_nanoseconds :: "u64 \<Rightarrow> u32 \<Rightarrow> i64" where
  "frames_as_nanoseconds frames rate = of_nat (unat frames * 1000000000 div unat rate)"

text \<open>\<open>i64::abs_diff\<close>, and division of an \<open>i64\<close> by two, which rounds towards zero.\<close>

definition i64_abs_diff :: "i64 \<Rightarrow> i64 \<Rightarrow> nat" where
  "i64_abs_diff a b = nat \<bar>sint a - sint b\<bar>"

definition i64_half :: "i64 \<Rightarrow> i64" where
  "i64_half d = word_of_int (if 0 \<le> sint d then sint d div 2 else - (- sint d div 2))"

definition flush :: "('r, 'z) window_env_scheme \<Rightarrow> 'r audio_window_accumulator \<Rightarrow> 'r audio_window_accumulator" where
  "flush env a =
     a\<lparr>windowable_output_scalars := [], channel_converted_source_scalars := [],
       rate_conversion := forget_everything_held env (rate_conversion a), run_anchor_timestamp_ns := None,
       expected_next_source_timestamp_ns := None, next_window_start_output_frame := 0,
       priming_output_frames_still_to_discard := 0\<rparr>"

definition build_the_rate_conversion_if_its_inputs_are_new ::
    "('r, 'z) window_env_scheme \<Rightarrow> rate_conversion_inputs \<Rightarrow> 'r audio_window_accumulator \<Rightarrow>
      audio_window_error + 'r audio_window_accumulator" where
  "build_the_rate_conversion_if_its_inputs_are_new env inputs a =
     (if rate_conversion_built_for a = Some inputs then Inr a
      else and_then (rate_conversion_build env inputs (wc_sample_rate (contract a))) (\<lambda>conversion.
             Inr (a\<lparr>rate_conversion := conversion, rate_conversion_built_for := Some inputs\<rparr>)))"

text \<open>The loop that averages \<open>n\<close> frames of \<open>k\<close> channels, taking from what is left of the samples.\<close>

primrec average_frames :: "f32_arith \<Rightarrow> f32 \<Rightarrow> nat \<Rightarrow> nat \<Rightarrow> f32 list \<Rightarrow> f32 list" where
  "average_frames ops reciprocal k 0 samples = []"
| "average_frames ops reciprocal k (Suc n) samples =
     f32_mul ops (f32_sum ops (take k samples)) reciprocal # average_frames ops reciprocal k n (drop k samples)"

definition channel_converted :: "f32_arith \<Rightarrow> u32 \<Rightarrow> audio_block \<Rightarrow> f32 list" where
  "channel_converted ops contract_channels block =
     (let samples = interleaved_samples_as_f32 ops block
      in if ab_channels block = contract_channels then samples
         else if contract_channels = 1
         then average_frames ops (f32_div ops 0x3F800000 (f32_of_usize ops (unat (ab_channels block))))
                (unat (ab_channels block)) (unat (ab_sample_count block)) samples
         else concat (map (replicate (unat contract_channels)) samples))"

definition append_the_blocks_samples_in_the_count_windows_are_emitted_in ::
    "f32_arith \<Rightarrow> audio_block \<Rightarrow> u32 \<Rightarrow> 'r audio_window_accumulator \<Rightarrow>
      audio_window_error + 'r audio_window_accumulator" where
  "append_the_blocks_samples_in_the_count_windows_are_emitted_in ops block contract_channels a =
     (if ab_channels block \<noteq> contract_channels \<and> contract_channels \<noteq> 1 \<and> ab_channels block \<noteq> 1
      then Inl (AudioWindowStageChannelConversionRefused (stage_port_name a) (ab_channels block) contract_channels)
      else Inr (a\<lparr>channel_converted_source_scalars :=
                    channel_converted_source_scalars a @ channel_converted ops contract_channels block\<rparr>))"

text \<open>The rounds of the loop over whole chunks, which are not empty because a resampler asks for at
  least one frame: the resampler, the priming still owed and the output. A failure leaves what was staged where it is, and keeps the changes made so far.\<close>

fun push_chunks ::
    "('r, 'z) window_env_scheme \<Rightarrow> nat \<Rightarrow> f32 list list \<Rightarrow> 'r \<times> nat \<times> f32 list \<Rightarrow>
      (audio_window_error + unit) \<times> 'r \<times> nat \<times> f32 list" where
  "push_chunks env emitted_channels [] st = (Inr (), st)"
| "push_chunks env emitted_channels (chunk # chunks) (resampler, priming, windowable) =
     (case process_into_buffer env resampler chunk of
        (Inl failure, resampler) \<Rightarrow> (Inl (TheResamplerFailed failure), resampler, priming, windowable)
      | (Inr written, resampler) \<Rightarrow>
          (let output_frames_written = length written div emitted_channels;
               discarded = min priming output_frames_written
           in push_chunks env emitted_channels chunks
                (resampler, priming - discarded,
                 windowable @ drop (discarded * emitted_channels) (take (output_frames_written * emitted_channels) written))))"

definition push_whole_chunks_through_the_rate_conversion ::
    "('r, 'z) window_env_scheme \<Rightarrow> u32 \<Rightarrow> 'r audio_window_accumulator \<Rightarrow>
      (audio_window_error + unit) \<times> 'r audio_window_accumulator" where
  "push_whole_chunks_through_the_rate_conversion env channels_windows_are_emitted_in a =
     (case rate_conversion a of
        RatesAlreadyAgree \<Rightarrow>
          (Inr (), a\<lparr>channel_converted_source_scalars := [],
                     windowable_output_scalars := windowable_output_scalars a @ channel_converted_source_scalars a\<rparr>)
      | Resampled resampler \<Rightarrow>
          (let emitted_channels = unat channels_windows_are_emitted_in;
               chunks = chunks_exact (input_frames_next env resampler * emitted_channels) (channel_converted_source_scalars a);
               (result, resampler, priming, windowable) =
                 push_chunks env emitted_channels chunks
                   (resampler, priming_output_frames_still_to_discard a, windowable_output_scalars a);
               a' = a\<lparr>rate_conversion := Resampled resampler, priming_output_frames_still_to_discard := priming,
                      windowable_output_scalars := windowable\<rparr>
           in (result,
               if is_ok result
               then a'\<lparr>channel_converted_source_scalars :=
                         drop (length (concat chunks)) (channel_converted_source_scalars a)\<rparr>
               else a')))"

definition accept_block ::
    "('r, 'z) window_env_scheme \<Rightarrow> audio_block \<Rightarrow> 'r audio_window_accumulator \<Rightarrow>
      (audio_window_error + unit) \<times> 'r audio_window_accumulator" where
  "accept_block env block a =
     (let arriving = \<lparr>sa_sample_rate = ab_sample_rate block, sa_channels = ab_channels block\<rparr>;
          a = (if source_format a \<notin> {None, Some arriving} then flush env a else a);
          a = a\<lparr>source_format := Some arriving\<rparr>;
          inputs = for_a_source_in arriving (contract a)
      in case build_the_rate_conversion_if_its_inputs_are_new env inputs a of
           Inl e \<Rightarrow> (Inl e, a)
         | Inr a \<Rightarrow>
             (let a = (case expected_next_source_timestamp_ns a of
                         None \<Rightarrow> a
                       | Some expected \<Rightarrow>
                           if unat (gap_tolerance_ns a) < i64_abs_diff (ab_first_sample_timestamp_ns block) expected
                           then flush env a else a);
                  a = (if run_anchor_timestamp_ns a = None
                       then a\<lparr>run_anchor_timestamp_ns := Some (ab_first_sample_timestamp_ns block),
                              next_window_start_output_frame := 0,
                              priming_output_frames_still_to_discard := priming_output_frames env (rate_conversion a)\<rparr>
                       else a)
              in case append_the_blocks_samples_in_the_count_windows_are_emitted_in (arith env) block
                        (ri_channels_converted inputs) a of
                   Inl e \<Rightarrow> (Inl e, a)
                 | Inr a \<Rightarrow>
                     (let block_duration_ns = frames_as_nanoseconds (ucast (ab_sample_count block)) (sa_sample_rate arriving);
                          a = a\<lparr>expected_next_source_timestamp_ns :=
                                  Some (ab_first_sample_timestamp_ns block + block_duration_ns),
                                gap_tolerance_ns := i64_half block_duration_ns\<rparr>
                      in push_whole_chunks_through_the_rate_conversion env (ri_channels_converted inputs) a)))"

definition accept ::
    "('r, 'z) window_env_scheme \<Rightarrow> bytes \<Rightarrow> 'r audio_window_accumulator \<Rightarrow>
      (audio_window_error + unit) \<times> 'r audio_window_accumulator" where
  "accept env bag_body a =
     (case read_an_audio_block_off_the_wire env bag_body of
        Inl refusal \<Rightarrow> (Inl (AudioWindowStageCannotReadTheBag (stage_port_name a) refusal), a)
      | Inr block \<Rightarrow>
          if ab_sample_rate block = 0 \<or> ab_channels block = 0
          then (Inl (TheBlockStatesZero (stage_port_name a) (ab_sample_rate block) (ab_channels block)), a)
          else accept_block env block a)"

record bag_body_for_the_reader =
  rb_body :: bytes
  first_sample_or_publish_timestamp_ns :: i64
  rb_inbound_link_name :: "inbound_link_name option"

definition channels_windows_are_emitted_in :: "('r, 'z) audio_window_accumulator_scheme \<Rightarrow> u32 option" where
  "channels_windows_are_emitted_in a =
     (case source_format a of
        Some format \<Rightarrow> Some (channels_a_window_carries_from (contract a) format)
      | None \<Rightarrow> wc_channels (contract a))"

definition scalars_per_window_at :: "('r, 'z) audio_window_accumulator_scheme \<Rightarrow> u32 \<Rightarrow> nat" where
  "scalars_per_window_at a channels = unat (wc_window_size (contract a)) * unat channels"

definition scalars_per_window :: "('r, 'z) audio_window_accumulator_scheme \<Rightarrow> nat option" where
  "scalars_per_window a = map_option (scalars_per_window_at a) (channels_windows_are_emitted_in a)"

definition next_ready_window ::
    "('r, 'z) window_env_scheme \<Rightarrow> 'r audio_window_accumulator \<Rightarrow>
      (audio_window_error + bag_body_for_the_reader option) \<times> 'r audio_window_accumulator" where
  "next_ready_window env a =
     (case channels_windows_are_emitted_in a of
        None \<Rightarrow> (Inr None, a)
      | Some channels \<Rightarrow>
          if length (windowable_output_scalars a) < scalars_per_window_at a channels then (Inr None, a)
          else
            (case run_anchor_timestamp_ns a of
               None \<Rightarrow> (Inr None, a)
             | Some anchor \<Rightarrow>
                 (let window = take (scalars_per_window_at a channels) (windowable_output_scalars a);
                      stamp = anchor + frames_as_nanoseconds (next_window_start_output_frame a) (wc_sample_rate (contract a))
                  in case encode_an_audio_block_onto_the_wire env window (wc_sample_rate (contract a)) channels
                            (wc_window_size (contract a)) (wc_dtype (contract a)) stamp of
                       Inl failure \<Rightarrow> (Inl (BagEncodeFailed failure), a)
                     | Inr bag \<Rightarrow>
                         (Inr (Some \<lparr>rb_body = bag, first_sample_or_publish_timestamp_ns = stamp,
                                     rb_inbound_link_name = None\<rparr>),
                          a\<lparr>windowable_output_scalars :=
                              drop (unat (wc_hop (contract a)) * unat channels) (windowable_output_scalars a),
                            next_window_start_output_frame :=
                              next_window_start_output_frame a + ucast (wc_hop (contract a))\<rparr>))))"

definition holds_a_full_window :: "('r, 'z) audio_window_accumulator_scheme \<Rightarrow> bool" where
  "holds_a_full_window a \<longleftrightarrow> run_anchor_timestamp_ns a \<noteq> None \<and>
     (case scalars_per_window a of
        Some scalars \<Rightarrow> scalars \<le> length (windowable_output_scalars a) | None \<Rightarrow> False)"

definition frames_in :: "('r, 'z) audio_window_accumulator_scheme \<Rightarrow> nat \<Rightarrow> nat" where
  "frames_in a interleaved_scalars =
     (case channels_windows_are_emitted_in a of
        Some channels \<Rightarrow> interleaved_scalars div unat channels | None \<Rightarrow> 0)"

definition output_frames_held :: "('r, 'z) audio_window_accumulator_scheme \<Rightarrow> nat" where
  "output_frames_held a = frames_in a (length (windowable_output_scalars a))"

definition staged_source_frames_held :: "('r, 'z) audio_window_accumulator_scheme \<Rightarrow> nat" where
  "staged_source_frames_held a = frames_in a (length (channel_converted_source_scalars a))"

text \<open>Less than one chunk is staged and rates have 32 bits, so the products fit 64 bits; the sums of
  the floor saturate in the source, which no count of frames in memory reaches.\<close>

definition staged_output_frame_equivalents_and_slack ::
    "('r, 'z) window_env_scheme \<Rightarrow> u32 \<Rightarrow> 'r audio_window_accumulator \<Rightarrow> nat \<times> nat" where
  "staged_output_frame_equivalents_and_slack env latest_queued_source_rate a =
     (let source_rate =
            max (case source_format a of Some format \<Rightarrow> unat (sa_sample_rate format)
                 | None \<Rightarrow> unat latest_queued_source_rate) 1;
          equivalents = staged_source_frames_held a * unat (wc_sample_rate (contract a)) div source_rate;
          slack =
            (case source_frames_per_call env (rate_conversion a) of
               None \<Rightarrow> 0
             | Some chunk \<Rightarrow> div_ceil_nat (chunk * unat (wc_sample_rate (contract a))) source_rate + 2)
      in (equivalents, slack + priming_output_frames_still_to_discard a))"

definition warn_once_that_a_full_mailbox_cannot_fill_a_window ::
    "'r audio_window_accumulator \<Rightarrow> 'r audio_window_accumulator" where
  "warn_once_that_a_full_mailbox_cannot_fill_a_window a =
     (if warned_that_a_full_mailbox_still_cannot_fill_a_window a then a
      else a\<lparr>warned_that_a_full_mailbox_still_cannot_fill_a_window := True\<rparr>)"

definition a_full_window_would_be_ready_after ::
    "('r, 'z) window_env_scheme \<Rightarrow> u64 \<Rightarrow> nat \<Rightarrow> bool \<Rightarrow> 'r audio_window_accumulator \<Rightarrow>
      bool \<times> 'r audio_window_accumulator" where
  "a_full_window_would_be_ready_after env latest_queued queued_output_frame_equivalents the_mailbox_is_full a =
     (if holds_a_full_window a then (True, a)
      else
        (let queued = read_source_format latest_queued;
             built =
               (case queued of
                  Some format \<Rightarrow>
                    if run_anchor_timestamp_ns a = None
                    then build_the_rate_conversion_if_its_inputs_are_new env (for_a_source_in format (contract a)) a
                    else Inr a
                | None \<Rightarrow> Inr a)
         in case built of
              Inl _ \<Rightarrow> (False, a)
            | Inr a \<Rightarrow>
                (let held = output_frames_held a;
                     (staged_equivalents, slack) =
                       staged_output_frame_equivalents_and_slack env
                         (case queued of Some format \<Rightarrow> sa_sample_rate format | None \<Rightarrow> 0) a;
                     reachable = held + staged_equivalents + queued_output_frame_equivalents;
                     ready = unat (wc_window_size (contract a)) + slack \<le> reachable
                 in (ready,
                     if \<not> ready \<and> the_mailbox_is_full
                     then warn_once_that_a_full_mailbox_cannot_fill_a_window a else a))))"

end
