(* ===== verification/Audio_Window_Spec.thy ===== *)
theory Audio_Window_Spec
  imports Audio_Window
begin

text \<open>
  What the window stage promises. The specification keeps the whole stream of a run, from the block
  that anchors it to the last one accepted, converts it at once, and cuts windows out of it at
  multiples of the hop. The accumulator of \<open>Audio_Window\<close>, which keeps only remainders, answers
  every sequence of calls as the specification does.
\<close>

subsection \<open>The resampler's documented behaviour\<close>

text \<open>\<open>state_of r0 ch r\<close> says that \<open>r\<close> is a state of the resampler built as \<open>r0\<close> for \<open>ch\<close> channels. It asks
  for the same number of source frames at every call, accepts a full chunk, writes whole frames,
  and a reset takes it back to where it was built.\<close>

definition resampler_laws ::
    "'r window_env \<Rightarrow> ('r \<Rightarrow> u32 \<Rightarrow> 'r \<Rightarrow> bool) \<Rightarrow> bool" where
  "resampler_laws env state_of \<longleftrightarrow>
     (\<forall>out_rate in_rate ch r0. new_sinc env out_rate in_rate 256 ch = Inr r0 \<longrightarrow> state_of r0 ch r0) \<and>
     (\<forall>r0 ch r. state_of r0 ch r \<longrightarrow>
        0 < input_frames_next env r0 \<and> input_frames_next env r = input_frames_next env r0 \<and> reset env r = r0 \<and>
        (\<forall>chunk. length chunk = input_frames_next env r0 * unat ch \<longrightarrow>
           (\<exists>written r'. process_into_buffer env r chunk = (Inr written, r') \<and> unat ch dvd length written \<and>
              state_of r0 ch r')))"

fun process_all :: "'r window_env \<Rightarrow> 'r \<Rightarrow> f32 list list \<Rightarrow> f32 list \<times> 'r" where
  "process_all env r [] = ([], r)"
| "process_all env r (chunk # chunks) =
     (case process_into_buffer env r chunk of
        (Inl _, r) \<Rightarrow> process_all env r chunks
      | (Inr written, r) \<Rightarrow> (case process_all env r chunks of (out, r) \<Rightarrow> (written @ out, r)))"

fun converted_stream :: "'r window_env \<Rightarrow> 'r rate_conversion \<Rightarrow> nat \<Rightarrow> f32 list \<Rightarrow> f32 list" where
  "converted_stream env RatesAlreadyAgree ch stream = stream"
| "converted_stream env (Resampled r0) ch stream =
     drop (output_delay env r0 * ch) (fst (process_all env r0 (chunks_exact (input_frames_next env r0 * ch) stream)))"

subsection \<open>The specification\<close>

record window_run =
  wr_anchor :: i64
  wr_stream :: "f32 list"
  wr_windows :: nat

record window_spec =
  sp_format :: "source_audio_format option"
  sp_run :: "window_run option"
  sp_expected :: "i64 option"
  sp_tolerance :: i64

definition spec_new :: window_spec where
  "spec_new = \<lparr>sp_format = None, sp_run = None, sp_expected = None, sp_tolerance = 0\<rparr>"

definition spec_flush :: "window_spec \<Rightarrow> window_spec" where
  "spec_flush s = s\<lparr>sp_run := None, sp_expected := None\<rparr>"

definition is_gap :: "window_spec \<Rightarrow> audio_block \<Rightarrow> bool" where
  "is_gap s block \<longleftrightarrow>
     (case sp_expected s of None \<Rightarrow> False
      | Some expected \<Rightarrow> unat (sp_tolerance s) < i64_abs_diff (ab_first_sample_timestamp_ns block) expected)"

definition block_format :: "audio_block \<Rightarrow> source_audio_format" where
  "block_format block = \<lparr>sa_sample_rate = ab_sample_rate block, sa_channels = ab_channels block\<rparr>"

definition block_duration :: "audio_block \<Rightarrow> i64" where
  "block_duration block = frames_as_nanoseconds (ucast (ab_sample_count block)) (ab_sample_rate block)"

definition spec_accept_block ::
    "'r window_env \<Rightarrow> string \<Rightarrow> resolved_audio_window_contract \<Rightarrow> audio_block \<Rightarrow> window_spec \<Rightarrow>
      (audio_window_error + unit) \<times> window_spec" where
  "spec_accept_block env port c block s =
     (let s = (if sp_format s \<notin> {None, Some (block_format block)} then spec_flush s else s);
          s = s\<lparr>sp_format := Some (block_format block)\<rparr>;
          channels = channels_a_window_carries_from c (block_format block)
      in case rate_conversion_build env (for_a_source_in (block_format block) c) (wc_sample_rate c) of
           Inl e \<Rightarrow> (Inl e, s)
         | Inr _ \<Rightarrow>
             (let s = (if is_gap s block then spec_flush s else s);
                  run = (case sp_run s of Some run \<Rightarrow> run
                         | None \<Rightarrow> \<lparr>wr_anchor = ab_first_sample_timestamp_ns block, wr_stream = [], wr_windows = 0\<rparr>)
              in if ab_channels block \<noteq> channels \<and> channels \<noteq> 1 \<and> ab_channels block \<noteq> 1
                 then (Inl (AudioWindowStageChannelConversionRefused port (ab_channels block) channels),
                       s\<lparr>sp_run := Some run\<rparr>)
                 else (Inr (),
                       s\<lparr>sp_run := Some (run\<lparr>wr_stream := wr_stream run @ channel_converted (arith env) channels block\<rparr>),
                         sp_expected := Some (ab_first_sample_timestamp_ns block + block_duration block),
                         sp_tolerance := i64_half (block_duration block)\<rparr>)))"

definition spec_accept ::
    "'r window_env \<Rightarrow> string \<Rightarrow> resolved_audio_window_contract \<Rightarrow> bytes \<Rightarrow> window_spec \<Rightarrow>
      (audio_window_error + unit) \<times> window_spec" where
  "spec_accept env port c bag s =
     (case read_an_audio_block_off_the_wire env bag of
        Inl refusal \<Rightarrow> (Inl (AudioWindowStageCannotReadTheBag port refusal), s)
      | Inr block \<Rightarrow>
          if ab_sample_rate block = 0 \<or> ab_channels block = 0
          then (Inl (TheBlockStatesZero port (ab_sample_rate block) (ab_channels block)), s)
          else spec_accept_block env port c block s)"

text \<open>The \<open>k\<close>-th window of a run starts \<open>k\<close> hops into its converted stream.\<close>

definition spec_next ::
    "'r window_env \<Rightarrow> resolved_audio_window_contract \<Rightarrow> window_spec \<Rightarrow>
      (audio_window_error + bag_body_for_the_reader option) \<times> window_spec" where
  "spec_next env c s =
     (case (sp_run s, sp_format s) of
        (Some run, Some format) \<Rightarrow>
          (let channels = channels_a_window_carries_from c format;
               stream = converted_stream env (projr (rate_conversion_build env (for_a_source_in format c) (wc_sample_rate c)))
                          (unat channels) (wr_stream run);
               first_frame = wr_windows run * unat (wc_hop c);
               window = take (unat (wc_window_size c) * unat channels) (drop (first_frame * unat channels) stream);
               stamp = wr_anchor run + frames_as_nanoseconds (of_nat first_frame) (wc_sample_rate c)
           in if length window < unat (wc_window_size c) * unat channels then (Inr None, s)
              else case encode_an_audio_block_onto_the_wire env window (wc_sample_rate c) channels
                          (wc_window_size c) (wc_dtype c) stamp of
                     Inl failure \<Rightarrow> (Inl (BagEncodeFailed failure), s)
                   | Inr bag \<Rightarrow>
                       (Inr (Some \<lparr>rb_body = bag, first_sample_or_publish_timestamp_ns = stamp, rb_inbound_link_name = None\<rparr>),
                        s\<lparr>sp_run := Some (run\<lparr>wr_windows := wr_windows run + 1\<rparr>)\<rparr>))
      | _ \<Rightarrow> (Inr None, s))"

datatype stage_call = Accept bytes | NextWindow | AskReady u64 nat bool

datatype stage_answer =
  Accepted "audio_window_error + unit"
| Window "audio_window_error + bag_body_for_the_reader option"
| Asked

fun stage_step :: "'r window_env \<Rightarrow> stage_call \<Rightarrow> 'r audio_window_accumulator \<Rightarrow> stage_answer \<times> 'r audio_window_accumulator" where
  "stage_step env (Accept bag) a = (case accept env bag a of (r, a) \<Rightarrow> (Accepted r, a))"
| "stage_step env NextWindow a = (case next_ready_window env a of (r, a) \<Rightarrow> (Window r, a))"
| "stage_step env (AskReady latest queued full) a =
     (Asked, snd (a_full_window_would_be_ready_after env latest queued full a))"

fun spec_step ::
    "'r window_env \<Rightarrow> string \<Rightarrow> resolved_audio_window_contract \<Rightarrow> stage_call \<Rightarrow> window_spec \<Rightarrow> stage_answer \<times> window_spec" where
  "spec_step env port c (Accept bag) s = (case spec_accept env port c bag s of (r, s) \<Rightarrow> (Accepted r, s))"
| "spec_step env port c NextWindow s = (case spec_next env c s of (r, s) \<Rightarrow> (Window r, s))"
| "spec_step env port c (AskReady _ _ _) s = (Asked, s)"

fun answers :: "('c \<Rightarrow> 's \<Rightarrow> 'o \<times> 's) \<Rightarrow> 'c list \<Rightarrow> 's \<Rightarrow> 'o list" where
  "answers step [] s = []"
| "answers step (call # calls) s = fst (step call s) # answers step calls (snd (step call s))"

subsection \<open>Chunks\<close>

lemma chunks_exact_lengths: "chunk \<in> set (chunks_exact n xs) \<Longrightarrow> length chunk = n"
proof (induction n xs rule: chunks_exact.induct)
  case (1 n xs)
  then show ?case by (subst (asm) (2) chunks_exact.simps) (auto split: if_splits)
qed

lemma concat_chunks_exact: "concat (chunks_exact n xs) = take (length (concat (chunks_exact n xs))) xs"
proof (induction n xs rule: chunks_exact.induct)
  case (1 n xs)
  show ?case
  proof (cases "n = 0 \<or> length xs < n")
    case False
    have "concat (chunks_exact n xs) = take n xs @ concat (chunks_exact n (drop n xs))"
      using False by (subst chunks_exact.simps) simp
    then show ?thesis using 1(1) [OF False] False by (metis append_take_drop_id length_append length_take min.absorb2
          not_le_imp_less take_add not_less)
  qed (simp add: chunks_exact.simps)
qed

definition chunk_rest :: "nat \<Rightarrow> 'a list \<Rightarrow> 'a list" where
  "chunk_rest n xs = drop (length (concat (chunks_exact n xs))) xs"

lemma chunk_rest_unfold:
  "chunk_rest n xs = (if n = 0 \<or> length xs < n then xs else chunk_rest n (drop n xs))"
  unfolding chunk_rest_def by (subst chunks_exact.simps) (simp add: add.commute)

lemma length_chunk_rest: "0 < n \<Longrightarrow> length (chunk_rest n xs) < n"
proof (induction n xs rule: chunks_exact.induct)
  case (1 n xs)
  then show ?case by (subst chunk_rest_unfold) auto
qed

lemma chunks_exact_append:
  "chunks_exact n (xs @ ys) = chunks_exact n xs @ chunks_exact n (chunk_rest n xs @ ys) \<and>
   chunk_rest n (xs @ ys) = chunk_rest n (chunk_rest n xs @ ys)"
proof (induction n xs rule: chunks_exact.induct)
  case (1 n xs)
  show ?case
  proof (cases "n = 0 \<or> length xs < n")
    case True
    then have "chunks_exact n xs = []" "chunk_rest n xs = xs" by (subst chunks_exact.simps chunk_rest_unfold; simp)+
    then show ?thesis by simp
  next
    case False
    have "chunks_exact n (xs @ ys) = take n xs # chunks_exact n (drop n xs @ ys)"
      "chunks_exact n xs = take n xs # chunks_exact n (drop n xs)"
      "chunk_rest n (xs @ ys) = chunk_rest n (drop n xs @ ys)" "chunk_rest n xs = chunk_rest n (drop n xs)"
      using False by (subst chunks_exact.simps chunk_rest_unfold; simp)+
    then show ?thesis using 1(1) [OF False] by simp
  qed
qed

subsection \<open>One conversion\<close>

lemma resampler_lawsD:
  assumes "resampler_laws env state_of"
  shows "new_sinc env out_rate in_rate 256 ch = Inr r0 \<Longrightarrow> state_of r0 ch r0"
    "state_of r0 ch r \<Longrightarrow> 0 < input_frames_next env r0"
    "state_of r0 ch r \<Longrightarrow> input_frames_next env r = input_frames_next env r0"
    "state_of r0 ch r \<Longrightarrow> reset env r = r0"
    "state_of r0 ch r \<Longrightarrow> length chunk = input_frames_next env r0 * unat ch \<Longrightarrow>
       \<exists>written r'. process_into_buffer env r chunk = (Inr written, r') \<and> unat ch dvd length written \<and> state_of r0 ch r'"
  using assms unfolding resampler_laws_def by blast+

lemma process_all_append:
  "process_all env r (xs @ ys) =
     (case process_all env r xs of (out, r1) \<Rightarrow> case process_all env r1 ys of (out', r2) \<Rightarrow> (out @ out', r2))"
  by (induction env r xs rule: process_all.induct) (auto split: prod.splits sum.splits)

lemma process_all_state:
  assumes "resampler_laws env state_of" "state_of r0 ch r" "\<forall>chunk\<in>set chunks. length chunk = input_frames_next env r0 * unat ch"
  shows "state_of r0 ch (snd (process_all env r chunks)) \<and> unat ch dvd length (fst (process_all env r chunks))"
  using assms(2,3)
proof (induction chunks arbitrary: r)
  case (Cons chunk chunks)
  then obtain written r' where w: "process_into_buffer env r chunk = (Inr written, r')" "unat ch dvd length written"
      "state_of r0 ch r'"
    using resampler_lawsD(5) [OF assms(1), of r0 ch r chunk] by auto
  with Cons.IH [of r'] Cons(3) show ?case by (auto split: prod.splits)
qed simp

lemma push_chunks_all:
  assumes "resampler_laws env state_of" "state_of r0 ch r" "\<forall>chunk\<in>set chunks. length chunk = input_frames_next env r0 * unat ch"
    "0 < unat ch"
  shows "push_chunks env (unat ch) chunks (r, priming, w) =
    (Inr (), snd (process_all env r chunks), priming - length (fst (process_all env r chunks)) div unat ch,
     w @ drop (priming * unat ch) (fst (process_all env r chunks)))"
  using assms(2,3)
proof (induction chunks arbitrary: r priming w)
  case (Cons chunk chunks)
  let ?n = "unat ch"
  obtain written r' where p: "process_into_buffer env r chunk = (Inr written, r')" "?n dvd length written"
      "state_of r0 ch r'"
    using Cons resampler_lawsD(5) [OF assms(1), of r0 ch r chunk] by auto
  obtain k where k: "length written = k * ?n" using p(2) by (auto simp: dvd_def mult.commute)
  obtain out r2 where o: "process_all env r' chunks = (out, r2)" by (cases "process_all env r' chunks")
  obtain m where m: "length out = m * ?n"
    using process_all_state [OF assms(1) p(3), of chunks] Cons(3) o by (auto simp: dvd_def mult.commute)
  have d: "drop (min priming k * ?n) written = drop (priming * ?n) written"
    using k by (cases "priming \<le> k") (auto simp: min_def)
  have e: "(priming - min priming k) * ?n = priming * ?n - k * ?n" 
    by (cases "priming \<le> k") (auto simp: min_def diff_mult_distrib)
  have s: "priming - min priming k - m = priming - (k + m)" by (simp add: min_def)
  show ?case using Cons.IH [OF p(3), of "priming - min priming k" "w @ drop (priming * ?n) written"] Cons(3) p(1) o k m assms(4)
    by (simp add: Let_def d e s add_mult_distrib [symmetric])
qed simp

subsection \<open>The simulation relation\<close>

text \<open>The conversion has been fed the whole chunks of the stream and the rest of it is staged.\<close>

definition conversion_at ::
    "'r window_env \<Rightarrow> 'r rate_conversion \<Rightarrow> nat \<Rightarrow> f32 list \<Rightarrow> 'r audio_window_accumulator \<Rightarrow> bool" where
  "conversion_at env conv ch stream a \<longleftrightarrow>
     (case conv of
        RatesAlreadyAgree \<Rightarrow>
          rate_conversion a = RatesAlreadyAgree \<and> channel_converted_source_scalars a = [] \<and>
          priming_output_frames_still_to_discard a = 0
      | Resampled r0 \<Rightarrow>
          (let n = input_frames_next env r0 * ch; fed = process_all env r0 (chunks_exact n stream)
           in rate_conversion a = Resampled (snd fed) \<and> channel_converted_source_scalars a = chunk_rest n stream \<and>
              priming_output_frames_still_to_discard a = output_delay env r0 - length (fst fed) div ch))"

definition windows_at ::
    "'r window_env \<Rightarrow> 'r rate_conversion \<Rightarrow> nat \<Rightarrow> nat \<Rightarrow> f32 list \<Rightarrow> 'r audio_window_accumulator \<Rightarrow> bool" where
  "windows_at env conv ch k stream a \<longleftrightarrow>
     windowable_output_scalars a = drop k (converted_stream env conv ch stream) \<and>
     k \<le> length (converted_stream env conv ch stream)"

lemma conversion_at_update [simp]:
  "conversion_at env conv ch stream (a\<lparr>source_format := f\<rparr>) = conversion_at env conv ch stream a"
  "conversion_at env conv ch stream (a\<lparr>expected_next_source_timestamp_ns := e\<rparr>) = conversion_at env conv ch stream a"
  "conversion_at env conv ch stream (a\<lparr>gap_tolerance_ns := t\<rparr>) = conversion_at env conv ch stream a"
  "conversion_at env conv ch stream (a\<lparr>next_window_start_output_frame := n\<rparr>) = conversion_at env conv ch stream a"
  "conversion_at env conv ch stream (a\<lparr>windowable_output_scalars := w\<rparr>) = conversion_at env conv ch stream a"
  "conversion_at env conv ch stream (a\<lparr>warned_that_a_full_mailbox_still_cannot_fill_a_window := b\<rparr>) =
     conversion_at env conv ch stream a"
  by (cases conv; simp add: conversion_at_def)+

lemma windows_at_update [simp]:
  "windows_at env conv ch k stream (a\<lparr>source_format := f\<rparr>) = windows_at env conv ch k stream a"
  "windows_at env conv ch k stream (a\<lparr>expected_next_source_timestamp_ns := e\<rparr>) = windows_at env conv ch k stream a"
  "windows_at env conv ch k stream (a\<lparr>gap_tolerance_ns := t\<rparr>) = windows_at env conv ch k stream a"
  "windows_at env conv ch k stream (a\<lparr>warned_that_a_full_mailbox_still_cannot_fill_a_window := b\<rparr>) =
     windows_at env conv ch k stream a"
  by (simp_all add: windows_at_def)

abbreviation built ::
    "'r window_env \<Rightarrow> resolved_audio_window_contract \<Rightarrow> source_audio_format \<Rightarrow> audio_window_error + 'r rate_conversion" where
  "built env c format \<equiv> rate_conversion_build env (for_a_source_in format c) (wc_sample_rate c)"

definition stage_rel ::
    "'r window_env \<Rightarrow> string \<Rightarrow> resolved_audio_window_contract \<Rightarrow> 'r audio_window_accumulator \<Rightarrow> window_spec \<Rightarrow> bool" where
  "stage_rel env port c a s \<longleftrightarrow>
     contract a = c \<and> stage_port_name a = port \<and> source_format a = sp_format s \<and>
     expected_next_source_timestamp_ns a = sp_expected s \<and> gap_tolerance_ns a = sp_tolerance s \<and>
     (\<forall>f. sp_format s = Some f \<longrightarrow> sa_channels f \<noteq> 0) \<and>
     (case sp_run s of
        None \<Rightarrow>
          run_anchor_timestamp_ns a = None \<and> channel_converted_source_scalars a = [] \<and>
          windowable_output_scalars a = [] \<and>
          (\<forall>i. rate_conversion_built_for a = Some i \<longrightarrow>
             rate_conversion_build env i (wc_sample_rate c) = Inr (rate_conversion a))
      | Some run \<Rightarrow>
          (\<exists>format conv. sp_format s = Some format \<and> rate_conversion_built_for a = Some (for_a_source_in format c) \<and>
             built env c format = Inr conv \<and> run_anchor_timestamp_ns a = Some (wr_anchor run) \<and>
             next_window_start_output_frame a = of_nat (wr_windows run * unat (wc_hop c)) \<and>
             conversion_at env conv (unat (channels_a_window_carries_from c format)) (wr_stream run) a \<and>
             windows_at env conv (unat (channels_a_window_carries_from c format))
               (wr_windows run * unat (wc_hop c) * unat (channels_a_window_carries_from c format)) (wr_stream run) a))"

definition contract_ok :: "resolved_audio_window_contract \<Rightarrow> bool" where
  "contract_ok c \<longleftrightarrow> wc_sample_rate c \<noteq> 0 \<and> wc_channels c \<noteq> Some 0 \<and> wc_window_size c \<noteq> 0 \<and> wc_hop c \<noteq> 0 \<and>
     wc_hop c \<le> wc_window_size c"

lemma from_declared_values_ok: "from_declared_values v = Inr c \<Longrightarrow> contract_ok c"
  by (auto simp: from_declared_values_def refuse_if_unhonourable_def and_then_Inr_iff contract_ok_def split: if_splits)

lemma channels_pos:
  "contract_ok c \<Longrightarrow> sa_channels f \<noteq> 0 \<Longrightarrow> 0 < unat (channels_a_window_carries_from c f)"
  by (auto simp: channels_a_window_carries_from_def contract_ok_def unat_gt_0 split: option.splits)

lemma built_state:
  assumes "resampler_laws env state_of" "rate_conversion_build env i rate = Inr (Resampled r0)"
  shows "state_of r0 (ri_channels_converted i) r0"
  using assms(2) resampler_lawsD(1) [OF assms(1)]
  by (auto simp: rate_conversion_build_def split: if_splits sum.splits)

lemma chunks_exact_Nil [simp]: "chunks_exact n [] = []" "chunk_rest n [] = []"
  by (auto simp: chunks_exact.simps chunk_rest_def)

lemma conversion_at_start:
  "rate_conversion a = conv \<Longrightarrow> channel_converted_source_scalars a = [] \<Longrightarrow>
   priming_output_frames_still_to_discard a = priming_output_frames env conv \<Longrightarrow> conversion_at env conv ch [] a"
  by (cases conv) (simp_all add: conversion_at_def)

lemma converted_stream_Nil [simp]: "converted_stream env conv ch [] = []"
  by (cases conv) simp_all

lemma forget_conversion_at:
  assumes laws: "resampler_laws env state_of" and "rate_conversion_build env i rate = Inr conv"
    "conversion_at env conv (unat (ri_channels_converted i)) stream a"
  shows "forget_everything_held env (rate_conversion a) = conv"
proof (cases conv)
  case (Resampled r0)
  let ?n = "input_frames_next env r0 * unat (ri_channels_converted i)"
  have st: "state_of r0 (ri_channels_converted i) r0" using built_state [OF laws] assms(2) Resampled by blast
  have "state_of r0 (ri_channels_converted i) (snd (process_all env r0 (chunks_exact ?n stream)))"
    using process_all_state [OF laws st, of "chunks_exact ?n stream"] by (auto dest: chunks_exact_lengths)
  then show ?thesis using assms(3) Resampled resampler_lawsD(4) [OF laws] by (simp add: conversion_at_def Let_def)
qed (use assms(3) in \<open>simp add: conversion_at_def\<close>)

lemma ri_channels_for_a_source_in [simp]:
  "ri_channels_converted (for_a_source_in f c) = channels_a_window_carries_from c f"
  by (simp add: for_a_source_in_def)

lemma flush_rel:
  assumes laws: "resampler_laws env state_of" and rel: "stage_rel env port c a s"
  shows "stage_rel env port c (flush env a) (spec_flush s)"
proof (cases "sp_run s")
  case None
  have "rate_conversion_build env i (wc_sample_rate c) = Inr (forget_everything_held env (rate_conversion a))"
    if "rate_conversion_built_for a = Some i" for i
  proof -
    have b: "rate_conversion_build env i (wc_sample_rate c) = Inr (rate_conversion a)"
      using rel None that by (simp add: stage_rel_def)
    then show ?thesis
      using built_state [OF laws, of i "wc_sample_rate c"] resampler_lawsD(4) [OF laws] by (cases "rate_conversion a") auto
  qed
  then show ?thesis using rel None by (auto simp: stage_rel_def flush_def spec_flush_def)
next
  case (Some run)
  then show ?thesis using rel forget_conversion_at [OF laws]
    by (auto simp: stage_rel_def flush_def spec_flush_def)
qed

lemma push_whole_chunks_rel:
  assumes laws: "resampler_laws env state_of" and b: "rate_conversion_build env i rate = Inr conv"
    and pos: "0 < unat (ri_channels_converted i)"
    and conv: "conversion_at env conv (unat (ri_channels_converted i)) stream a"
    and win: "windows_at env conv (unat (ri_channels_converted i)) k stream a"
  obtains rc priming windowable staged where
    "push_whole_chunks_through_the_rate_conversion env (ri_channels_converted i)
       (a\<lparr>channel_converted_source_scalars := channel_converted_source_scalars a @ xs\<rparr>) =
     (Inr (), a\<lparr>rate_conversion := rc, priming_output_frames_still_to_discard := priming,
               windowable_output_scalars := windowable, channel_converted_source_scalars := staged\<rparr>)"
    "conversion_at env conv (unat (ri_channels_converted i)) (stream @ xs)
       (a\<lparr>rate_conversion := rc, priming_output_frames_still_to_discard := priming,
          windowable_output_scalars := windowable, channel_converted_source_scalars := staged\<rparr>)"
    "windows_at env conv (unat (ri_channels_converted i)) k (stream @ xs)
       (a\<lparr>rate_conversion := rc, priming_output_frames_still_to_discard := priming,
          windowable_output_scalars := windowable, channel_converted_source_scalars := staged\<rparr>)"
proof (cases conv)
  case RatesAlreadyAgree
  then show thesis
    using that [of "[]" "windowable_output_scalars a @ xs" 0 RatesAlreadyAgree] conv win
    by (simp add: push_whole_chunks_through_the_rate_conversion_def conversion_at_def windows_at_def)
next
  case (Resampled r0)
  let ?ch = "unat (ri_channels_converted i)"
  let ?n = "input_frames_next env r0 * ?ch"
  let ?fed = "process_all env r0 (chunks_exact ?n stream)"
  let ?new = "chunks_exact ?n (chunk_rest ?n stream @ xs)"
  let ?out = "process_all env (snd ?fed) ?new"
  have st: "state_of r0 (ri_channels_converted i) r0" using built_state [OF laws] b Resampled by blast
  have fed: "state_of r0 (ri_channels_converted i) (snd ?fed)" "?ch dvd length (fst ?fed)"
    using process_all_state [OF laws st, of "chunks_exact ?n stream"] by (auto dest: chunks_exact_lengths)
  have a: "rate_conversion a = Resampled (snd ?fed)" "channel_converted_source_scalars a = chunk_rest ?n stream"
      "priming_output_frames_still_to_discard a = output_delay env r0 - length (fst ?fed) div ?ch"
    using conv Resampled by (simp_all add: conversion_at_def Let_def)
  have all: "process_all env r0 (chunks_exact ?n (stream @ xs)) = (fst ?fed @ fst ?out, snd ?out)"
    using chunks_exact_append [of ?n stream xs] by (simp add: process_all_append split: prod.split)
  have rest: "chunk_rest ?n (stream @ xs) = drop (length (concat ?new)) (chunk_rest ?n stream @ xs)"
    using chunks_exact_append [of ?n stream xs] by (metis chunk_rest_def)
  obtain m where m: "length (fst ?fed) = m * ?ch" using fed(2) by (auto simp: dvd_def mult.commute)
  have "state_of r0 (ri_channels_converted i) (snd ?out) \<and> ?ch dvd length (fst ?out)"
    using process_all_state [OF laws fed(1), of ?new] by (auto dest: chunks_exact_lengths)
  then obtain m' where m': "length (fst ?out) = m' * ?ch" by (auto simp: dvd_def mult.commute)
  have pr: "output_delay env r0 - m - m' = output_delay env r0 - (m + m')" by simp
  have push: "push_chunks env ?ch ?new (snd ?fed, output_delay env r0 - m, windowable_output_scalars a) =
      (Inr (), snd ?out, output_delay env r0 - (m + m'),
       windowable_output_scalars a @ drop ((output_delay env r0 - m) * ?ch) (fst ?out))"
  proof -
    have "\<forall>chunk\<in>set ?new. length chunk = ?n" using chunks_exact_lengths by blast
    from push_chunks_all [OF laws fed(1) this pos] show ?thesis using pos by (simp add: m')
  qed
  have w: "windowable_output_scalars a @ drop ((output_delay env r0 - m) * ?ch) (fst ?out) =
      drop k (drop (output_delay env r0 * ?ch) (fst ?fed @ fst ?out))" "k \<le> length (drop (output_delay env r0 * ?ch) (fst ?fed @ fst ?out))"
    using win Resampled m by (simp_all add: windows_at_def diff_mult_distrib)
  show thesis
  proof (rule that)
    show "push_whole_chunks_through_the_rate_conversion env (ri_channels_converted i)
        (a\<lparr>channel_converted_source_scalars := channel_converted_source_scalars a @ xs\<rparr>) =
      (Inr (), a\<lparr>rate_conversion := Resampled (snd ?out), priming_output_frames_still_to_discard := output_delay env r0 - (m + m'),
        windowable_output_scalars := windowable_output_scalars a @ drop ((output_delay env r0 - m) * ?ch) (fst ?out),
        channel_converted_source_scalars := chunk_rest ?n (stream @ xs)\<rparr>)"
      using push a m pos resampler_lawsD(3) [OF laws fed(1)] rest
      by (simp add: push_whole_chunks_through_the_rate_conversion_def Let_def is_ok_iff)
  qed (use Resampled all m m' pos w in \<open>simp_all add: conversion_at_def windows_at_def Let_def add_mult_distrib [symmetric]\<close>)
qed

subsection \<open>The calls\<close>

lemma format_change_rel:
  assumes laws: "resampler_laws env state_of" and rel: "stage_rel env port c a s" and ch: "sa_channels f \<noteq> 0"
  defines "a1 \<equiv> (if source_format a \<notin> {None, Some f} then flush env a else a)\<lparr>source_format := Some f\<rparr>"
    and "s1 \<equiv> (if sp_format s \<notin> {None, Some f} then spec_flush s else s)\<lparr>sp_format := Some f\<rparr>"
  shows "stage_rel env port c a1 s1"
proof -
  have same: "source_format a = sp_format s" using rel by (simp add: stage_rel_def)
  show ?thesis
  proof (cases "sp_format s \<in> {None, Some f}")
    case False
    have "stage_rel env port c (flush env a) (spec_flush s)" by (rule flush_rel [OF laws rel])
    then show ?thesis using False ch same by (auto simp: a1_def s1_def stage_rel_def spec_flush_def)
  next
    case True
    have "sp_run s = None" if "sp_format s = None" using rel that by (cases "sp_run s") (auto simp: stage_rel_def)
    then show ?thesis using True rel ch same
      by (cases "sp_run s") (auto simp: a1_def s1_def stage_rel_def)
  qed
qed

lemma build_rel:
  assumes rel: "stage_rel env port c a s" and f: "sp_run s = None \<or> sp_format s = Some f"
  shows "case built env c f of
      Inl e \<Rightarrow> build_the_rate_conversion_if_its_inputs_are_new env (for_a_source_in f c) a = Inl e
    | Inr _ \<Rightarrow> \<exists>a'. build_the_rate_conversion_if_its_inputs_are_new env (for_a_source_in f c) a = Inr a' \<and>
        stage_rel env port c a' s \<and> rate_conversion_built_for a' = Some (for_a_source_in f c)"
proof (cases "sp_run s")
  case None
  then show ?thesis using rel
    by (auto simp: stage_rel_def build_the_rate_conversion_if_its_inputs_are_new_def split: sum.split)
next
  case (Some run)
  then show ?thesis using rel f
    by (auto simp: stage_rel_def build_the_rate_conversion_if_its_inputs_are_new_def)
qed

definition start_run :: "'r window_env \<Rightarrow> audio_block \<Rightarrow> 'r audio_window_accumulator \<Rightarrow> 'r audio_window_accumulator" where
  "start_run env block a =
     (if run_anchor_timestamp_ns a = None
      then a\<lparr>run_anchor_timestamp_ns := Some (ab_first_sample_timestamp_ns block), next_window_start_output_frame := 0,
             priming_output_frames_still_to_discard := priming_output_frames env (rate_conversion a)\<rparr>
      else a)"

definition spec_start_run :: "audio_block \<Rightarrow> window_spec \<Rightarrow> window_run" where
  "spec_start_run block s = (case sp_run s of Some run \<Rightarrow> run
     | None \<Rightarrow> \<lparr>wr_anchor = ab_first_sample_timestamp_ns block, wr_stream = [], wr_windows = 0\<rparr>)"

lemma start_run_rel:
  assumes rel: "stage_rel env port c a s" "sp_format s = Some f" "rate_conversion_built_for a = Some (for_a_source_in f c)"
  shows "stage_rel env port c (start_run env block a) (s\<lparr>sp_run := Some (spec_start_run block s)\<rparr>)"
proof (cases "sp_run s")
  case None
  have "conversion_at env (rate_conversion a) ch []
      (a\<lparr>run_anchor_timestamp_ns := x, next_window_start_output_frame := y,
         priming_output_frames_still_to_discard := priming_output_frames env (rate_conversion a)\<rparr>)" for ch x y
    using rel None by (intro conversion_at_start) (simp_all add: stage_rel_def)
  then show ?thesis using None assms
    by (simp add: stage_rel_def start_run_def spec_start_run_def windows_at_def)
next
  case (Some run)
  then show ?thesis using rel by (auto simp: stage_rel_def start_run_def spec_start_run_def)
qed

definition flush_at_gap :: "'r window_env \<Rightarrow> audio_block \<Rightarrow> 'r audio_window_accumulator \<Rightarrow> 'r audio_window_accumulator" where
  "flush_at_gap env block a =
     (case expected_next_source_timestamp_ns a of None \<Rightarrow> a
      | Some expected \<Rightarrow> if unat (gap_tolerance_ns a) < i64_abs_diff (ab_first_sample_timestamp_ns block) expected
                        then flush env a else a)"

lemma gap_rel:
  assumes laws: "resampler_laws env state_of" and rel: "stage_rel env port c a s"
  shows "stage_rel env port c (flush_at_gap env block a) (if is_gap s block then spec_flush s else s)"
  using rel flush_rel [OF laws rel] by (auto simp: stage_rel_def is_gap_def flush_at_gap_def split: option.splits)

lemma append_push_rel:
  assumes laws: "resampler_laws env state_of" and ok: "contract_ok c"
    and rel: "stage_rel env port c a s" and run: "sp_run s = Some run" and f: "sp_format s = Some f"
  shows "\<exists>a'. push_whole_chunks_through_the_rate_conversion env (channels_a_window_carries_from c f)
      (a\<lparr>channel_converted_source_scalars := channel_converted_source_scalars a @ xs,
         expected_next_source_timestamp_ns := e, gap_tolerance_ns := t\<rparr>) = (Inr (), a') \<and>
    stage_rel env port c a' (s\<lparr>sp_run := Some (run\<lparr>wr_stream := wr_stream run @ xs\<rparr>), sp_expected := e, sp_tolerance := t\<rparr>)"
proof -
  let ?i = "for_a_source_in f c" and ?a = "a\<lparr>expected_next_source_timestamp_ns := e, gap_tolerance_ns := t\<rparr>"
  let ?k = "wr_windows run * unat (wc_hop c) * unat (ri_channels_converted ?i)"
  obtain conv where conv: "built env c f = Inr conv" "rate_conversion_built_for a = Some ?i"
      "conversion_at env conv (unat (ri_channels_converted ?i)) (wr_stream run) ?a"
      "windows_at env conv (unat (ri_channels_converted ?i)) ?k (wr_stream run) ?a"
    using rel run f by (auto simp: stage_rel_def)
  have pos: "0 < unat (ri_channels_converted ?i)" using channels_pos [OF ok] rel f by (auto simp: stage_rel_def)
  obtain rc priming windowable staged where r:
    "push_whole_chunks_through_the_rate_conversion env (ri_channels_converted ?i)
       (?a\<lparr>channel_converted_source_scalars := channel_converted_source_scalars ?a @ xs\<rparr>) =
     (Inr (), ?a\<lparr>rate_conversion := rc, priming_output_frames_still_to_discard := priming,
               windowable_output_scalars := windowable, channel_converted_source_scalars := staged\<rparr>)"
    "conversion_at env conv (unat (ri_channels_converted ?i)) (wr_stream run @ xs)
       (?a\<lparr>rate_conversion := rc, priming_output_frames_still_to_discard := priming,
          windowable_output_scalars := windowable, channel_converted_source_scalars := staged\<rparr>)"
    "windows_at env conv (unat (ri_channels_converted ?i)) ?k (wr_stream run @ xs)
       (?a\<lparr>rate_conversion := rc, priming_output_frames_still_to_discard := priming,
          windowable_output_scalars := windowable, channel_converted_source_scalars := staged\<rparr>)"
    by (rule push_whole_chunks_rel [OF laws conv(1) pos conv(3,4)])
  define a' where "a' = ?a\<lparr>rate_conversion := rc, priming_output_frames_still_to_discard := priming,
    windowable_output_scalars := windowable, channel_converted_source_scalars := staged\<rparr>"
  have fields: "contract a' = contract a" "stage_port_name a' = stage_port_name a" "source_format a' = source_format a"
      "expected_next_source_timestamp_ns a' = e" "gap_tolerance_ns a' = t"
      "rate_conversion_built_for a' = rate_conversion_built_for a" "run_anchor_timestamp_ns a' = run_anchor_timestamp_ns a"
      "next_window_start_output_frame a' = next_window_start_output_frame a"
    by (simp_all add: a'_def)
  have "push_whole_chunks_through_the_rate_conversion env (channels_a_window_carries_from c f)
      (a\<lparr>channel_converted_source_scalars := channel_converted_source_scalars a @ xs,
         expected_next_source_timestamp_ns := e, gap_tolerance_ns := t\<rparr>) = (Inr (), a')"
  proof -
    have "a\<lparr>channel_converted_source_scalars := channel_converted_source_scalars a @ xs,
         expected_next_source_timestamp_ns := e, gap_tolerance_ns := t\<rparr> =
        ?a\<lparr>channel_converted_source_scalars := channel_converted_source_scalars ?a @ xs\<rparr>" by simp
    then show ?thesis using r(1) by (simp only: a'_def ri_channels_for_a_source_in)
  qed
  moreover have "stage_rel env port c a'
      (s\<lparr>sp_run := Some (run\<lparr>wr_stream := wr_stream run @ xs\<rparr>), sp_expected := e, sp_tolerance := t\<rparr>)"
    using rel run f conv(1,2) r(2,3) [folded a'_def] fields by (auto simp: stage_rel_def)
  ultimately show ?thesis by blast
qed

lemma accept_block_steps:
  assumes "a1 = (if source_format a \<notin> {None, Some (block_format block)} then flush env a else a)
      \<lparr>source_format := Some (block_format block)\<rparr>"
    and "ch = ri_channels_converted (for_a_source_in (block_format block) (contract a1))"
  shows "accept_block env block a =
     (case build_the_rate_conversion_if_its_inputs_are_new env (for_a_source_in (block_format block) (contract a1)) a1 of
        Inl e \<Rightarrow> (Inl e, a1)
      | Inr a2 \<Rightarrow>
          (case append_the_blocks_samples_in_the_count_windows_are_emitted_in (arith env) block ch
                  (start_run env block (flush_at_gap env block a2)) of
             Inl e \<Rightarrow> (Inl e, start_run env block (flush_at_gap env block a2))
           | Inr a \<Rightarrow> push_whole_chunks_through_the_rate_conversion env ch
                        (a\<lparr>expected_next_source_timestamp_ns :=
                             Some (ab_first_sample_timestamp_ns block + block_duration block),
                           gap_tolerance_ns := i64_half (block_duration block)\<rparr>)))"
  unfolding assms accept_block_def Let_def start_run_def flush_at_gap_def block_duration_def block_format_def
  by (simp cong: sum.case_cong)

lemma spec_accept_block_steps:
  assumes "s1 = (if sp_format s \<notin> {None, Some (block_format block)} then spec_flush s else s)
      \<lparr>sp_format := Some (block_format block)\<rparr>"
    and "s3 = (if is_gap s1 block then spec_flush s1 else s1)"
    and "ch = channels_a_window_carries_from c (block_format block)"
  shows "spec_accept_block env port c block s =
     (case built env c (block_format block) of
        Inl e \<Rightarrow> (Inl e, s1)
      | Inr _ \<Rightarrow>
          if ab_channels block \<noteq> ch \<and> ch \<noteq> 1 \<and> ab_channels block \<noteq> 1
          then (Inl (AudioWindowStageChannelConversionRefused port (ab_channels block) ch),
                s3\<lparr>sp_run := Some (spec_start_run block s3)\<rparr>)
          else (Inr (),
                s3\<lparr>sp_run := Some ((spec_start_run block s3)\<lparr>wr_stream := wr_stream (spec_start_run block s3) @
                                    channel_converted (arith env) ch block\<rparr>),
                   sp_expected := Some (ab_first_sample_timestamp_ns block + block_duration block),
                   sp_tolerance := i64_half (block_duration block)\<rparr>))"
  unfolding assms spec_accept_block_def Let_def spec_start_run_def by (simp cong: sum.case_cong)

lemma accept_block_rel:
  assumes laws: "resampler_laws env state_of" and ok: "contract_ok c" and rel: "stage_rel env port c a s"
    and ch: "ab_channels block \<noteq> 0"
  shows "fst (accept_block env block a) = fst (spec_accept_block env port c block s) \<and>
    stage_rel env port c (snd (accept_block env block a)) (snd (spec_accept_block env port c block s))"
proof -
  let ?f = "block_format block"
  let ?ch = "channels_a_window_carries_from c ?f"
  define a1 where "a1 = (if source_format a \<notin> {None, Some ?f} then flush env a else a)\<lparr>source_format := Some ?f\<rparr>"
  define s1 where "s1 = (if sp_format s \<notin> {None, Some ?f} then spec_flush s else s)\<lparr>sp_format := Some ?f\<rparr>"
  define s3 where "s3 = (if is_gap s1 block then spec_flush s1 else s1)"
  have r1: "stage_rel env port c a1 s1" unfolding a1_def s1_def
    using format_change_rel [OF laws rel, of ?f] ch by (simp add: block_format_def)
  then have c: "contract a1 = c" "sp_format s1 = Some ?f" by (simp_all add: stage_rel_def s1_def)
  note steps = accept_block_steps [OF a1_def refl] spec_accept_block_steps [OF s1_def s3_def refl]
  show ?thesis
  proof (cases "built env c ?f")
    case (Inl e)
    then show ?thesis using build_rel [OF r1, of ?f] r1 c by (simp add: steps)
  next
    case (Inr conv)
    then obtain a2 where a2: "build_the_rate_conversion_if_its_inputs_are_new env (for_a_source_in ?f c) a1 = Inr a2"
        "stage_rel env port c a2 s1" "rate_conversion_built_for a2 = Some (for_a_source_in ?f c)"
      using build_rel [OF r1, of ?f] c by auto
    let ?a3 = "flush_at_gap env block a2"
    have r3: "stage_rel env port c ?a3 s3" unfolding s3_def by (rule gap_rel [OF laws a2(2)])
    have f3: "sp_format s3 = Some ?f" "rate_conversion_built_for ?a3 = Some (for_a_source_in ?f c)"
      using c(2) a2(3) by (auto simp: s3_def flush_at_gap_def spec_flush_def flush_def split: option.split)
    note r4 = start_run_rel [OF r3 f3, of block]
    have port: "stage_port_name (start_run env block ?a3) = port" using r4 by (simp add: stage_rel_def)
    note r5 = append_push_rel [OF laws ok r4, where run = "spec_start_run block s3" and f = ?f and
        xs = "channel_converted (arith env) ?ch block" and t = "i64_half (block_duration block)" and
        e = "Some (ab_first_sample_timestamp_ns block + block_duration block)"]
    show ?thesis
    proof (cases "ab_channels block \<noteq> ?ch \<and> ?ch \<noteq> 1 \<and> ab_channels block \<noteq> 1")
      case True
      then show ?thesis using Inr a2(1) r4 port c
        by (simp add: steps append_the_blocks_samples_in_the_count_windows_are_emitted_in_def)
    next
      case False
      then show ?thesis using Inr a2(1) r5 f3(1) port c
        by (auto simp: steps append_the_blocks_samples_in_the_count_windows_are_emitted_in_def)
    qed
  qed
qed

lemma next_rel_between_runs:
  assumes ok: "contract_ok c" and rel: "stage_rel env port c a s" and None: "sp_run s = None"
  shows "next_ready_window env a = (Inr None, a)" "spec_next env c s = (Inr None, s)"
proof -
  have "0 < unat ch" if "channels_windows_are_emitted_in a = Some ch" for ch
    using that rel ok channels_pos [OF ok]
    by (auto simp: channels_windows_are_emitted_in_def stage_rel_def contract_ok_def unat_gt_0 split: option.splits)
  moreover have "0 < unat (wc_window_size c)" using ok by (simp add: contract_ok_def unat_gt_0)
  ultimately show "next_ready_window env a = (Inr None, a)"
    using rel None by (auto simp: next_ready_window_def scalars_per_window_at_def stage_rel_def split: option.split)
  show "spec_next env c s = (Inr None, s)" using None by (simp add: spec_next_def)
qed

lemma next_rel:
  assumes ok: "contract_ok c" and rel: "stage_rel env port c a s"
  shows "fst (next_ready_window env a) = fst (spec_next env c s) \<and>
    stage_rel env port c (snd (next_ready_window env a)) (snd (spec_next env c s))"
proof (cases "sp_run s")
  case None
  then show ?thesis using next_rel_between_runs [OF ok rel] rel by simp
next
  case (Some run)
  obtain f conv where f: "sp_format s = Some f" "built env c f = Inr conv" "run_anchor_timestamp_ns a = Some (wr_anchor run)"
      "next_window_start_output_frame a = of_nat (wr_windows run * unat (wc_hop c))" "source_format a = Some f" "contract a = c"
      "rate_conversion_built_for a = Some (for_a_source_in f c)"
      "conversion_at env conv (unat (channels_a_window_carries_from c f)) (wr_stream run) a"
      "windows_at env conv (unat (channels_a_window_carries_from c f))
         (wr_windows run * unat (wc_hop c) * unat (channels_a_window_carries_from c f)) (wr_stream run) a"
    using rel Some by (auto simp: stage_rel_def)
  let ?ch = "unat (channels_a_window_carries_from c f)"
  let ?w = "unat (wc_window_size c) * ?ch" and ?h = "unat (wc_hop c) * ?ch"
  let ?k = "wr_windows run * unat (wc_hop c) * ?ch"
  let ?out = "converted_stream env conv ?ch (wr_stream run)"
  have w: "windowable_output_scalars a = drop ?k ?out" "?k \<le> length ?out" using f(9) by (simp_all add: windows_at_def)
  have chan: "channels_windows_are_emitted_in a = Some (channels_a_window_carries_from c f)"
    using f by (simp add: channels_windows_are_emitted_in_def)
  have hw: "?h \<le> ?w" using ok by (simp add: contract_ok_def word_le_nat_alt)
  define held where "held = windowable_output_scalars a"
  let ?encoded = "encode_an_audio_block_onto_the_wire env (take ?w held) (wc_sample_rate c) (channels_a_window_carries_from c f)
    (wc_window_size c) (wc_dtype c)
    (wr_anchor run + frames_as_nanoseconds (of_nat (wr_windows run * unat (wc_hop c))) (wc_sample_rate c))"
  let ?bag = "\<lambda>bag. Inr (Some \<lparr>rb_body = bag, first_sample_or_publish_timestamp_ns =
      wr_anchor run + frames_as_nanoseconds (of_nat (wr_windows run * unat (wc_hop c))) (wc_sample_rate c),
      rb_inbound_link_name = None\<rparr>)"
  have held: "drop ?k ?out = held" using w by (simp add: held_def)
  have spec: "spec_next env c s =
      (if length held < ?w then (Inr None, s)
       else case ?encoded of Inl failure \<Rightarrow> (Inl (BagEncodeFailed failure), s)
            | Inr bag \<Rightarrow> (?bag bag, s\<lparr>sp_run := Some (run\<lparr>wr_windows := wr_windows run + 1\<rparr>)\<rparr>))"
  proof -
    have "length (take ?w held) < ?w \<longleftrightarrow> length held < ?w" by (simp add: min_def)
    then show ?thesis by (simp only: spec_next_def Some f(1,2) Let_def prod.case option.case sum.sel held)
  qed
  have stage: "next_ready_window env a =
      (if length held < ?w then (Inr None, a)
       else case ?encoded of Inl failure \<Rightarrow> (Inl (BagEncodeFailed failure), a)
            | Inr bag \<Rightarrow> (?bag bag,
                a\<lparr>windowable_output_scalars := drop ?h held,
                  next_window_start_output_frame := next_window_start_output_frame a + ucast (wc_hop c)\<rparr>))"
    by (simp only: next_ready_window_def chan f(3,4,6) Let_def option.case scalars_per_window_at_def held_def)
  have step: "stage_rel env port c
      (a\<lparr>windowable_output_scalars := drop ?h held,
         next_window_start_output_frame := next_window_start_output_frame a + ucast (wc_hop c)\<rparr>)
      (s\<lparr>sp_run := Some (run\<lparr>wr_windows := wr_windows run + 1\<rparr>)\<rparr>)" if "?w \<le> length held"
  proof -
    have "length held + ?k = length ?out" using w by (simp add: held_def)
    then have "?h + ?k \<le> length ?out" using that hw by linarith
    then have "windows_at env conv ?ch ((wr_windows run + 1) * unat (wc_hop c) * ?ch) (wr_stream run)
        (a\<lparr>windowable_output_scalars := drop ?h held, next_window_start_output_frame := n\<rparr>)" for n
      using w by (simp add: windows_at_def add_mult_distrib held_def)
    moreover have "next_window_start_output_frame a + ucast (wc_hop c) = of_nat ((wr_windows run + 1) * unat (wc_hop c))"
      using f(4) by (simp add: add_mult_distrib distrib_right)
    ultimately show ?thesis using rel Some f by (simp add: stage_rel_def)
  qed
  show ?thesis using rel step unfolding spec stage by (auto simp: not_less split: sum.split)
qed

lemma warn_rel:
  "stage_rel env port c a s \<Longrightarrow> stage_rel env port c (warn_once_that_a_full_mailbox_cannot_fill_a_window a) s"
  by (cases "sp_run s") (auto simp: stage_rel_def warn_once_that_a_full_mailbox_cannot_fill_a_window_def)

lemma ready_rel:
  assumes rel: "stage_rel env port c a s"
  shows "stage_rel env port c (snd (a_full_window_would_be_ready_after env latest queued full a)) s"
proof -
  have "stage_rel env port c a' s"
    if "build_the_rate_conversion_if_its_inputs_are_new env (for_a_source_in f c) a = Inr a'"
      "run_anchor_timestamp_ns a = None" for f a'
  proof -
    have "sp_run s = None" using rel that(2) by (cases "sp_run s") (auto simp: stage_rel_def)
    then show ?thesis using build_rel [OF rel, of f] that(1) by (cases "built env c f") auto
  qed
  moreover have "contract a = c" using rel by (simp add: stage_rel_def)
  ultimately show ?thesis using rel
    by (auto simp: a_full_window_would_be_ready_after_def Let_def intro!: warn_rel
        split: option.splits sum.splits prod.splits if_splits)
qed

lemma stage_step_rel:
  assumes "resampler_laws env state_of" "contract_ok c" "stage_rel env port c a s"
  shows "fst (stage_step env call a) = fst (spec_step env port c call s) \<and>
    stage_rel env port c (snd (stage_step env call a)) (snd (spec_step env port c call s))"
proof (cases call)
  case (Accept bag)
  have "fst (accept env bag a) = fst (spec_accept env port c bag s) \<and>
      stage_rel env port c (snd (accept env bag a)) (snd (spec_accept env port c bag s))"
  proof (cases "read_an_audio_block_off_the_wire env bag")
    case (Inr block)
    have "stage_port_name a = port" using assms(3) by (simp add: stage_rel_def)
    then show ?thesis using Inr assms(3) accept_block_rel [OF assms, of block]
      by (simp add: accept_def spec_accept_def)
  qed (use assms(3) in \<open>simp add: accept_def spec_accept_def stage_rel_def\<close>)
  then show ?thesis by (simp add: Accept case_prod_beta)
next
  case NextWindow
  then show ?thesis using next_rel [OF assms(2,3)] by (simp add: case_prod_beta)
next
  case (AskReady latest queued full)
  then show ?thesis using ready_rel [OF assms(3)] by simp
qed

lemma stage_rel_new: "stage_rel env port c (accumulator_new port c) spec_new"
  by (simp add: stage_rel_def accumulator_new_def spec_new_def)

lemma answers_rel:
  assumes "resampler_laws env state_of" "contract_ok c" "stage_rel env port c a s"
  shows "answers (stage_step env) calls a = answers (spec_step env port c) calls s"
  using assms(3)
proof (induction calls arbitrary: a s)
  case (Cons call calls)
  then show ?case using stage_step_rel [OF assms(1,2) Cons(2), of call] by simp
qed simp

subsection \<open>Properties\<close>

text \<open>C7: the window stage does what its contract says. For every declared contract, source and sequence
  of calls, the windows it hands out are those of the specification: a run begins at the first
  block, or where the source's format changes, or where a block's stamp misses the end of the
  previous one by more than half a block, and its converted stream starts there with the filter's
  priming left out; the k-th window of a run is the slice of that stream k hops in, exactly the
  declared size, stamped with the anchor plus its first frame at the contract's rate, and is handed
  out as soon as the stream reaches its end. No window spans a gap, and bags are refused exactly as
  the specification refuses them.\<close>

theorem window_stage_refines_its_specification:
  assumes "resampler_laws env state_of" "from_declared_values v = Inr c"
  shows "answers (stage_step env) calls (accumulator_new port c) = answers (spec_step env port c) calls spec_new"
  using answers_rel [OF assms(1) from_declared_values_ok [OF assms(2)] stage_rel_new] .

text \<open>A codec that writes the stamp before the samples, and a resampler that writes silence at the
  exact ratio behind a delay of 21 frames.\<close>

type_synonym sample_resampler = "u32 \<times> u32 \<times> u32 \<times> nat"

definition sample_window_env :: "sample_resampler window_env" where
  "sample_window_env =
     \<lparr>arith = \<lparr>f32_sum = sum_list, f32_mul = (*), f32_div = (div), f32_of_usize = of_nat, f32_of_i16 = ucast,
               f32_round = (\<lambda>x. x), f32_is_nan = (\<lambda>x. False), f32_clamp = (\<lambda>x lo hi. x), f32_as_i16 = ucast\<rparr>,
      from_slice = (\<lambda>bag. Inr \<lparr>nm_interleaved_sample_bytes = drop 8 bag, nm_sample_rate = 48000, nm_channels = 1,
                              nm_sample_count = of_nat (length (drop 8 bag) div 4), nm_dtype = None,
                              nm_first_sample_timestamp_ns = of_le_bytes (take 8 bag)\<rparr>),
      to_vec_named = (\<lambda>m. Inr (le_bytes 8 (nm_first_sample_timestamp_ns m) @ nm_interleaved_sample_bytes m)),
      new_sinc = (\<lambda>out_rate in_rate chunk ch. if in_rate = 0 \<or> ch = 0 then Inl ''refused'' else Inr (out_rate, in_rate, ch, 0)),
      output_delay = (\<lambda>_. 21),
      input_frames_next = (\<lambda>_. 256),
      reset = (\<lambda>(out_rate, in_rate, ch, fed). (out_rate, in_rate, ch, 0)),
      process_into_buffer = (\<lambda>(out_rate, in_rate, ch, fed) chunk.
        (Inr (replicate (((fed + 256) * unat out_rate div unat in_rate - fed * unat out_rate div unat in_rate) * unat ch) 0),
         (out_rate, in_rate, ch, fed + 256)))\<rparr>"

definition sample_state_of :: "sample_resampler \<Rightarrow> u32 \<Rightarrow> sample_resampler \<Rightarrow> bool" where
  "sample_state_of r0 ch r \<longleftrightarrow> (\<exists>out_rate in_rate fed. r0 = (out_rate, in_rate, ch, 0) \<and> r = (out_rate, in_rate, ch, fed))"

lemma sample_resampler_laws: "resampler_laws sample_window_env sample_state_of"
  by (auto simp: resampler_laws_def sample_window_env_def sample_state_of_def split: if_splits)

definition sample_declaration :: audio_window_contract_declared_values where
  "sample_declaration = \<lparr>dv_sample_rate = 48000, dv_channels = Some 1, dv_dtype = ''f32'', dv_window_size = 2, dv_hop = 1\<rparr>"

definition sample_contract :: resolved_audio_window_contract where
  "sample_contract = \<lparr>wc_sample_rate = 48000, wc_channels = Some 1, wc_dtype = F32, wc_window_size = 2, wc_hop = 1\<rparr>"

lemma sample_declaration_resolves: "from_declared_values sample_declaration = Inr sample_contract"
  by (simp add: from_declared_values_def refuse_if_unhonourable_def sample_declaration_def sample_contract_def
      dtype_from_wire_str_def)

theorem window_stage_refines_its_specification_witness:
  "answers (stage_step sample_window_env) [Accept [0, 0, 0, 0, 0, 0, 0, 0, 1, 0, 0, 0, 2, 0, 0, 0, 3, 0, 0, 0], NextWindow, NextWindow, NextWindow]
     (accumulator_new ''in'' sample_contract) =
   answers (spec_step sample_window_env ''in'' sample_contract)
     [Accept [0, 0, 0, 0, 0, 0, 0, 0, 1, 0, 0, 0, 2, 0, 0, 0, 3, 0, 0, 0], NextWindow, NextWindow, NextWindow] spec_new"
  by (rule window_stage_refines_its_specification [OF sample_resampler_laws sample_declaration_resolves])

end
