(* ===== verification/Audio_Window_Readiness.thy ===== *)
theory Audio_Window_Readiness
  imports Audio_Window_Spec
begin

text \<open>
  The readiness floor of the window stage (\<open>a_full_window_would_be_ready_after\<close> in
  \<open>iceoryx2/audio_window/audio_window_accumulator.rs\<close>): when it says that a window is ready, taking
  the queued bags through the stage produces one, once a run is under way. At the start of a
  resampled run the priming of the filter is not counted, and the floor can promise a window that
  the read does not find.
\<close>

subsection \<open>What the floor is told\<close>

text \<open>The output of a resampler follows the ratio over a whole run: between any two points of it at
  most two frames are missing.\<close>

definition frames_written :: "'r window_env \<Rightarrow> 'r \<Rightarrow> u32 \<Rightarrow> f32 list list \<Rightarrow> nat" where
  "frames_written env r0 ch chunks = length (fst (process_all env r0 chunks)) div unat ch"

definition resampler_keeps_up :: "'r window_env \<Rightarrow> bool" where
  "resampler_keeps_up env \<longleftrightarrow>
     (\<forall>out_rate in_rate ch r0 xs ys. new_sinc env out_rate in_rate 256 ch = Inr r0 \<longrightarrow>
        (\<forall>chunk\<in>set (xs @ ys). length chunk = input_frames_next env r0 * unat ch) \<longrightarrow>
        frames_written env r0 ch xs * unat in_rate + length ys * input_frames_next env r0 * unat out_rate \<le>
        (frames_written env r0 ch (xs @ ys) + 2) * unat in_rate)"

definition whole_payload :: "audio_block \<Rightarrow> bool" where
  "whole_payload b \<longleftrightarrow> length (ab_interleaved_sample_bytes b) =
     unat (ab_sample_count b) * unat (ab_channels b) * bytes_per_sample (ab_dtype b)"

definition convertible :: "resolved_audio_window_contract \<Rightarrow> source_audio_format \<Rightarrow> bool" where
  "convertible c f \<longleftrightarrow> sa_channels f = channels_a_window_carries_from c f \<or>
     channels_a_window_carries_from c f = 1 \<or> sa_channels f = 1"

fun contiguous :: "i64 option \<Rightarrow> i64 \<Rightarrow> audio_block list \<Rightarrow> bool" where
  "contiguous expected tolerance [] \<longleftrightarrow> True"
| "contiguous expected tolerance (b # bs) \<longleftrightarrow>
     (case expected of None \<Rightarrow> True
      | Some e \<Rightarrow> i64_abs_diff (ab_first_sample_timestamp_ns b) e \<le> unat tolerance) \<and>
     contiguous (Some (ab_first_sample_timestamp_ns b + block_duration b)) (i64_half (block_duration b)) bs"

definition queued_equivalents :: "resolved_audio_window_contract \<Rightarrow> audio_block list \<Rightarrow> nat" where
  "queued_equivalents c blocks =
     (\<Sum>b\<leftarrow>blocks. unat (ab_sample_count b) * unat (wc_sample_rate c) div unat (ab_sample_rate b))"

definition accept_all :: "'r window_env \<Rightarrow> bytes list \<Rightarrow> 'r audio_window_accumulator \<Rightarrow> 'r audio_window_accumulator" where
  "accept_all env bags a = fold (\<lambda>bag a. snd (accept env bag a)) bags a"

fun after :: "('c \<Rightarrow> 's \<Rightarrow> 'o \<times> 's) \<Rightarrow> 'c list \<Rightarrow> 's \<Rightarrow> 's" where
  "after step [] s = s"
| "after step (call # calls) s = after step calls (snd (step call s))"

subsection \<open>Counting frames\<close>

lemma length_chunks_exact: "0 < n \<Longrightarrow> length (chunks_exact n xs) = length xs div n"
proof (induction n xs rule: chunks_exact.induct)
  case (1 n xs)
  then show ?case
    by (subst chunks_exact.simps) (auto simp: le_div_geq not_less)
qed

lemma length_average_frames [simp]: "length (average_frames ops r k n xs) = n"
  by (induction n arbitrary: xs) simp_all

lemma length_interleaved_samples:
  "whole_payload b \<Longrightarrow> length (interleaved_samples_as_f32 ops b) = unat (ab_sample_count b) * unat (ab_channels b)"
  by (cases "ab_dtype b") (simp_all add: interleaved_samples_as_f32_def length_chunks_exact whole_payload_def)

lemma length_channel_converted:
  assumes "whole_payload b" "convertible c (block_format b)"
  shows "length (channel_converted ops (channels_a_window_carries_from c (block_format b)) b) =
    unat (ab_sample_count b) * unat (channels_a_window_carries_from c (block_format b))"
proof -
  have "length (concat (map (replicate n) xs)) = length xs * n" for n and xs :: "f32 list"
    by (induction xs) simp_all
  then show ?thesis using assms length_interleaved_samples [OF assms(1)]
    by (auto simp: channel_converted_def Let_def convertible_def block_format_def)
qed

lemma length_chunk_rest_exact:
  assumes "0 < n"
  shows "length (chunk_rest n xs) = length xs mod n"
proof -
  have "length (concat (chunks_exact n xs)) = n * (length xs div n)"
  proof -
    have "length (concat cs) = n * length cs" if "\<forall>c\<in>set cs. length c = n" for cs :: "'a list list"
      using that by (induction cs) auto
    then show ?thesis using chunks_exact_lengths length_chunks_exact [OF assms] by metis
  qed
  then show ?thesis by (simp add: chunk_rest_def minus_mult_div_eq_mod)
qed

subsection \<open>The bags of a contiguous stretch\<close>

lemma spec_accept_blocks:
  assumes "map (read_an_audio_block_off_the_wire env) bags = map Inr blocks" "blocks \<noteq> []"
    "\<forall>b\<in>set blocks. block_format b = f" "convertible c f" "sa_sample_rate f \<noteq> 0" "sa_channels f \<noteq> 0"
    "is_ok (built env c f)" "sp_format s \<in> {None, Some f}" "contiguous (sp_expected s) (sp_tolerance s) blocks"
  shows "\<exists>run. sp_run (fold (\<lambda>bag s. snd (spec_accept env port c bag s)) bags s) = Some run \<and>
    wr_stream run = wr_stream (spec_start_run (hd blocks) s) @
      concat (map (channel_converted (arith env) (channels_a_window_carries_from c f)) blocks) \<and>
    wr_windows run = wr_windows (spec_start_run (hd blocks) s) \<and>
    sp_format (fold (\<lambda>bag s. snd (spec_accept env port c bag s)) bags s) = Some f"
  using assms
proof (induction blocks arbitrary: bags s)
  case (Cons b blocks)
  obtain bag bags' where bags: "bags = bag # bags'" "read_an_audio_block_off_the_wire env bag = Inr b"
      "map (read_an_audio_block_off_the_wire env) bags' = map Inr blocks"
    using Cons(2) by (cases bags) auto
  let ?ch = "channels_a_window_carries_from c f"
  have b: "block_format b = f" "ab_sample_rate b = sa_sample_rate f" "ab_channels b = sa_channels f"
    using Cons(4) by (auto simp: block_format_def)
  obtain conv where conv: "built env c f = Inr conv" using Cons(8) by (auto simp: is_ok_iff)
  let ?s1 = "s\<lparr>sp_format := Some f\<rparr>"
  have nogap: "\<not> is_gap ?s1 b" using Cons(10) by (auto simp: is_gap_def split: option.splits)
  have s1: "(if sp_format s \<notin> {None, Some (block_format b)} then spec_flush s else s)\<lparr>sp_format := Some (block_format b)\<rparr> = ?s1"
    using Cons(9) b(1) by auto
  define s' where "s' = snd (spec_accept env port c bag s)"
  have "s' = ?s1\<lparr>sp_run := Some ((spec_start_run b ?s1)\<lparr>wr_stream := wr_stream (spec_start_run b ?s1) @
      channel_converted (arith env) ?ch b\<rparr>), sp_expected := Some (ab_first_sample_timestamp_ns b + block_duration b),
      sp_tolerance := i64_half (block_duration b)\<rparr>"
    using bags(2) b conv nogap Cons(5,6,7)
    by (auto simp: s'_def spec_accept_def spec_accept_block_steps [OF s1 [symmetric] refl refl] convertible_def)
  then have s': "sp_format s' = Some f" "sp_run s' = Some ((spec_start_run b s)\<lparr>wr_stream := wr_stream (spec_start_run b s) @
      channel_converted (arith env) ?ch b\<rparr>)" "sp_expected s' = Some (ab_first_sample_timestamp_ns b + block_duration b)"
      "sp_tolerance s' = i64_half (block_duration b)"
    by (simp_all add: spec_start_run_def)
  show ?case
  proof (cases "blocks = []")
    case True
    then show ?thesis using bags s' by (simp flip: s'_def)
  next
    case False
    from Cons.IH [OF bags(3) False _ Cons(5-8), of s'] Cons(4,10) s'
    show ?thesis by (auto simp: bags(1) s'_def [symmetric] spec_start_run_def)
  qed
qed simp

lemma accept_all_rel:
  assumes "resampler_laws env state_of" "contract_ok c" "stage_rel env port c a s"
  shows "stage_rel env port c (accept_all env bags a) (fold (\<lambda>bag s. snd (spec_accept env port c bag s)) bags s)"
  using assms(3)
proof (induction bags arbitrary: a s)
  case (Cons bag bags)
  have "stage_rel env port c (snd (accept env bag a)) (snd (spec_accept env port c bag s))"
    using stage_step_rel [OF assms(1,2) Cons(2), of "Accept bag"] by (simp add: case_prod_beta)
  with Cons.IH show ?case by (simp add: accept_all_def)
qed (simp add: accept_all_def)

lemma after_rel:
  assumes "resampler_laws env state_of" "contract_ok c" "stage_rel env port c a s"
  shows "\<exists>s. stage_rel env port c (after (stage_step env) calls a) s"
  using assms(3)
proof (induction calls arbitrary: a s)
  case (Cons call calls)
  then show ?case using stage_step_rel [OF assms(1,2) Cons(2), of call] by auto
qed auto

lemma spec_next_finds:
  assumes "sp_run s = Some run" "sp_format s = Some f" "built env c f = Inr conv"
    "(wr_windows run * unat (wc_hop c) + unat (wc_window_size c)) * unat (channels_a_window_carries_from c f) \<le>
     length (converted_stream env conv (unat (channels_a_window_carries_from c f)) (wr_stream run))"
  shows "fst (spec_next env c s) \<noteq> Inr None"
proof -
  let ?ch = "unat (channels_a_window_carries_from c f)"
  have "\<not> length (take (unat (wc_window_size c) * ?ch) (drop (wr_windows run * unat (wc_hop c) * ?ch)
      (converted_stream env conv ?ch (wr_stream run)))) < unat (wc_window_size c) * ?ch"
    using assms(4) by (simp add: add_mult_distrib)
  then show ?thesis using assms(1-3) by (simp add: spec_next_def Let_def split: sum.split)
qed

lemma queued_equivalents_le:
  assumes "\<forall>b\<in>set blocks. ab_sample_rate b = r"
  shows "queued_equivalents c blocks * unat r \<le> (\<Sum>b\<leftarrow>blocks. unat (ab_sample_count b)) * unat (wc_sample_rate c)"
  using assms
proof (induction blocks)
  case (Cons b blocks)
  then show ?case
    by (auto simp: queued_equivalents_def add_mult_distrib intro!: add_mono div_times_less_eq_dividend)
qed (simp add: queued_equivalents_def)

text \<open>The arithmetic of the floor: \<open>m\<close> more chunks of \<open>n\<close> frames from at least \<open>s + q\<close> frames, at the
  ratio \<open>o\<close> to \<open>i\<close>.\<close>

lemma floor_arithmetic:
  fixes i :: nat
  assumes "0 < i" "f1 * i + m * n * o' \<le> (f2 + 2) * i" "s + q \<le> m * n + n" "e * i \<le> s * o'" "qe * i \<le> q * o'"
    "n * o' \<le> co * i"
  shows "f1 + e + qe \<le> f2 + 2 + co"
proof -
  have "(s + q) * o' \<le> (m * n + n) * o'" using assms(3) by (rule mult_right_mono) simp
  then have "(f1 + e + qe) * i \<le> (f2 + 2 + co) * i" using assms(2,4,5,6) by (simp add: algebra_simps)
  then show ?thesis using assms(1) mult_le_cancel2 by blast
qed

lemma div_ceil_nat_le: "0 < b \<Longrightarrow> a \<le> div_ceil_nat a b * b"
proof -
  assume "0 < b"
  then have "a + b - 1 < (a + b - 1) div b * b + b"
    by (metis div_mod_decomp add_less_cancel_left mod_less_divisor)
  then show ?thesis using \<open>0 < b\<close> by (simp add: div_ceil_nat_def)
qed

text \<open>Between two points of a run the stage gains what the floor counts, up to the slack.\<close>

lemma resampled_gain:
  assumes laws: "resampler_laws env state_of" and up: "resampler_keeps_up env"
    and new: "new_sinc env out_rate in_rate 256 ch = Inr r0" and pos: "0 < unat ch" "0 < unat in_rate"
    and len: "length ys = q * unat ch" and qe: "qe * unat in_rate \<le> q * unat out_rate"
  defines "n \<equiv> input_frames_next env r0 * unat ch"
  shows "frames_written env r0 ch (chunks_exact n xs) +
      (length (chunk_rest n xs) div unat ch * unat out_rate div unat in_rate) + qe \<le>
    frames_written env r0 ch (chunks_exact n (xs @ ys)) + 2 +
      div_ceil_nat (input_frames_next env r0 * unat out_rate) (unat in_rate)"
proof (rule floor_arithmetic [OF pos(2)])
  let ?f = "input_frames_next env r0" and ?rest = "chunk_rest n xs"
  let ?new = "chunks_exact n (?rest @ ys)"
  have f: "0 < ?f" using resampler_lawsD(1,2) [OF laws] new by blast
  then have n: "0 < n" using pos by (simp add: n_def)
  have split: "chunks_exact n (xs @ ys) = chunks_exact n xs @ ?new" using chunks_exact_append by blast
  have "\<forall>chunk\<in>set (chunks_exact n xs @ ?new). length chunk = ?f * unat ch"
    using chunks_exact_lengths by (auto simp: n_def)
  then show "frames_written env r0 ch (chunks_exact n xs) * unat in_rate + length ?new * ?f * unat out_rate \<le>
      (frames_written env r0 ch (chunks_exact n (xs @ ys)) + 2) * unat in_rate"
    using up new unfolding split resampler_keeps_up_def by blast
  show "length ?rest div unat ch + q \<le> length ?new * ?f + ?f"
  proof -
    have "(length ?rest div unat ch + q) * unat ch \<le> length (?rest @ ys)"
      using len by (simp add: add_mult_distrib)
    also have "\<dots> \<le> length ?new * n + n"
      using length_chunks_exact [OF n, of "?rest @ ys"] n
      by (metis add.commute div_mod_decomp less_or_eq_imp_le mod_less_divisor nat_add_left_cancel_le)
    also have "\<dots> = (length ?new * ?f + ?f) * unat ch" by (simp add: n_def add_mult_distrib)
    finally show ?thesis using pos(1) mult_le_cancel2 by blast
  qed
  show "length ?rest div unat ch * unat out_rate div unat in_rate * unat in_rate \<le> length ?rest div unat ch * unat out_rate"
    by (rule div_times_less_eq_dividend)
  show "?f * unat out_rate \<le> div_ceil_nat (?f * unat out_rate) (unat in_rate) * unat in_rate"
    using div_ceil_nat_le [OF pos(2)] .
qed (rule qe)

lemma length_converted_stream_mono:
  "length (converted_stream env conv ch xs) \<le> length (converted_stream env conv ch (xs @ ys))"
proof (cases conv)
  case (Resampled r0)
  let ?n = "input_frames_next env r0 * ch"
  have "fst (process_all env r0 (chunks_exact ?n (xs @ ys))) = fst (process_all env r0 (chunks_exact ?n xs)) @
      fst (process_all env (snd (process_all env r0 (chunks_exact ?n xs))) (chunks_exact ?n (chunk_rest ?n xs @ ys)))"
    using chunks_exact_append [of ?n xs ys] by (simp add: process_all_append split: prod.split)
  then show ?thesis using Resampled by simp
qed simp

lemma ready_within_a_run:
  assumes "fst (a_full_window_would_be_ready_after env latest queued full a)" "run_anchor_timestamp_ns a \<noteq> None"
    "\<not> holds_a_full_window a" "source_format a = Some f" "contract a = c" "0 < unat (sa_sample_rate f)"
  shows "unat (wc_window_size c) + priming_output_frames_still_to_discard a +
      (case rate_conversion a of RatesAlreadyAgree \<Rightarrow> 0
       | Resampled r \<Rightarrow> div_ceil_nat (input_frames_next env r * unat (wc_sample_rate c)) (unat (sa_sample_rate f)) + 2) \<le>
    output_frames_held a +
      staged_source_frames_held a * unat (wc_sample_rate c) div unat (sa_sample_rate f) + queued"
proof -
  have "(case read_source_format latest of
      Some format \<Rightarrow> if run_anchor_timestamp_ns a = None
        then build_the_rate_conversion_if_its_inputs_are_new env (for_a_source_in format (contract a)) a else Inr a
    | None \<Rightarrow> Inr a) = Inr a"
    using assms(2) by (auto split: option.split)
  then show ?thesis using assms
    by (cases "rate_conversion a")
       (simp_all add: a_full_window_would_be_ready_after_def Let_def staged_output_frame_equivalents_and_slack_def
         max_absorb1 Suc_leI)
qed

lemma floor_reaches:
  assumes laws: "resampler_laws env state_of" and up: "resampler_keeps_up env" and ok: "contract_ok c"
    and rel: "stage_rel env port c a s" and run: "sp_run s = Some run" and f: "sp_format s = Some f"
    and conv: "built env c f = Inr conv" and rate: "0 < unat (sa_sample_rate f)"
    and len: "length ys = q * unat (channels_a_window_carries_from c f)"
    and queued: "queued * unat (sa_sample_rate f) \<le> q * unat (wc_sample_rate c)"
    and ready: "fst (a_full_window_would_be_ready_after env latest queued full a)"
  shows "(wr_windows run * unat (wc_hop c) + unat (wc_window_size c)) * unat (channels_a_window_carries_from c f) \<le>
     length (converted_stream env conv (unat (channels_a_window_carries_from c f)) (wr_stream run @ ys))"
proof -
  let ?c = "channels_a_window_carries_from c f"
  let ?ch = "unat ?c" and ?K = "wr_windows run * unat (wc_hop c)" and ?W = "unat (wc_window_size c)"
  let ?xs = "wr_stream run"
  have a: "run_anchor_timestamp_ns a \<noteq> None" "source_format a = Some f" "contract a = c"
      "conversion_at env conv ?ch ?xs a" "windows_at env conv ?ch (?K * ?ch) ?xs a"
    using rel run f conv by (auto simp: stage_rel_def)
  have pos: "0 < ?ch" using channels_pos [OF ok] rel f by (auto simp: stage_rel_def)
  have chan: "channels_windows_are_emitted_in a = Some ?c" using a by (simp add: channels_windows_are_emitted_in_def)
  have w: "length (windowable_output_scalars a) + ?K * ?ch = length (converted_stream env conv ?ch ?xs)"
    using a(5) by (simp add: windows_at_def)
  show ?thesis
  proof (cases "holds_a_full_window a")
    case True
    then have "?W * ?ch \<le> length (windowable_output_scalars a)"
      using chan a(3) by (simp add: holds_a_full_window_def scalars_per_window_def scalars_per_window_at_def)
    then show ?thesis using w length_converted_stream_mono [of env conv ?ch ?xs ys] by (simp add: add_mult_distrib)
  next
    case False
    note floor = ready_within_a_run [OF ready a(1) False a(2,3) rate]
    have held: "output_frames_held a * ?ch \<le> length (windowable_output_scalars a)"
      using chan by (simp add: output_frames_held_def frames_in_def)
    have staged: "staged_source_frames_held a = length (channel_converted_source_scalars a) div ?ch"
      using chan by (simp add: staged_source_frames_held_def frames_in_def)
    show ?thesis
    proof (cases conv)
      case RatesAlreadyAgree
      then have same: "sa_sample_rate f = wc_sample_rate c"
        using conv by (auto simp: rate_conversion_build_def for_a_source_in_def split: if_splits sum.splits)
      then have "queued \<le> q" using queued rate by simp
      moreover have "?W \<le> output_frames_held a + queued"
        using floor RatesAlreadyAgree a(4) staged by (simp add: conversion_at_def)
      ultimately have "?W * ?ch \<le> (output_frames_held a + q) * ?ch" by (intro mult_right_mono) simp_all
      then show ?thesis using w held len RatesAlreadyAgree by (simp add: add_mult_distrib)
    next
      case (Resampled r0)
      let ?n = "input_frames_next env r0 * ?ch"
      let ?F = "frames_written env r0 ?c" and ?D = "output_delay env r0"
      have new: "new_sinc env (wc_sample_rate c) (sa_sample_rate f) 256 ?c = Inr r0"
        using conv Resampled by (auto simp: rate_conversion_build_def for_a_source_in_def split: if_splits sum.splits)
      have st: "state_of r0 ?c r0" using resampler_lawsD(1) [OF laws new] .
      have exact: "length (fst (process_all env r0 (chunks_exact ?n zs))) = ?F (chunks_exact ?n zs) * ?ch" for zs
        using process_all_state [OF laws st, of "chunks_exact ?n zs"] chunks_exact_lengths
        by (fastforce simp: frames_written_def)
      have stream: "length (converted_stream env conv ?ch zs) = (?F (chunks_exact ?n zs) - ?D) * ?ch" for zs
        using Resampled exact by (simp add: diff_mult_distrib)
      have at: "rate_conversion a = Resampled (snd (process_all env r0 (chunks_exact ?n ?xs)))"
          "channel_converted_source_scalars a = chunk_rest ?n ?xs"
          "priming_output_frames_still_to_discard a = ?D - ?F (chunks_exact ?n ?xs)"
        using a(4) Resampled by (simp_all add: conversion_at_def Let_def frames_written_def)
      have asks: "input_frames_next env (snd (process_all env r0 (chunks_exact ?n ?xs))) = input_frames_next env r0"
        using process_all_state [OF laws st, of "chunks_exact ?n ?xs"] chunks_exact_lengths resampler_lawsD(3) [OF laws]
        by blast
      note gain = resampled_gain [OF laws up new pos rate len queued, of ?xs]
      have H: "output_frames_held a + ?K = ?F (chunks_exact ?n ?xs) - ?D"
      proof -
        have "L = (X - ?K) * ?ch" if "L + ?K * ?ch = X * ?ch" for L X :: nat
          using that by (simp add: diff_mult_distrib)
        from this [OF w [unfolded stream]] have "output_frames_held a = ?F (chunks_exact ?n ?xs) - ?D - ?K"
          using chan pos by (simp add: output_frames_held_def frames_in_def)
        moreover have "?K * ?ch \<le> (?F (chunks_exact ?n ?xs) - ?D) * ?ch" using w stream by (metis le_add2)
        ultimately show ?thesis using pos by simp
      qed
      have "?K + ?W \<le> ?F (chunks_exact ?n (?xs @ ys)) - ?D"
        using floor gain H at asks staged by simp
      then show ?thesis unfolding stream by (rule mult_right_mono) simp
    qed
  qed
qed

lemma sum_counts:
  assumes "\<forall>b\<in>set blocks. block_format b = f \<and> whole_payload b" "convertible c f"
  shows "length (concat (map (channel_converted ops (channels_a_window_carries_from c f)) blocks)) =
    (\<Sum>b\<leftarrow>blocks. unat (ab_sample_count b)) * unat (channels_a_window_carries_from c f)"
  using assms(1)
proof (induction blocks)
  case (Cons b blocks)
  then show ?case using length_channel_converted [of b c ops] assms(2) by (auto simp: add_mult_distrib)
qed simp

lemma ready_between_runs:
  assumes "fst (a_full_window_would_be_ready_after env latest queued full a)" "run_anchor_timestamp_ns a = None"
    "channel_converted_source_scalars a = []" "windowable_output_scalars a = []"
  shows "unat (wc_window_size (contract a)) \<le> queued"
  using assms
  by (auto simp: a_full_window_would_be_ready_after_def holds_a_full_window_def Let_def output_frames_held_def
      staged_output_frame_equivalents_and_slack_def staged_source_frames_held_def frames_in_def
      build_the_rate_conversion_if_its_inputs_are_new_def and_then_Inr_iff
      split: option.splits sum.splits prod.splits if_splits)

lemma promised_window:
  assumes laws: "resampler_laws env state_of" and up: "resampler_keeps_up env" and ok: "contract_ok c"
    and rel: "stage_rel env port c a s"
    and read: "map (read_an_audio_block_off_the_wire env) bags = map Inr blocks"
    and blocks: "\<forall>b\<in>set blocks. block_format b = f \<and> whole_payload b" "convertible c f"
    and f: "sa_sample_rate f \<noteq> 0" "sa_channels f \<noteq> 0" "source_format a \<in> {None, Some f}"
    and at: "contiguous (expected_next_source_timestamp_ns a) (gap_tolerance_ns a) blocks"
    and run: "run_anchor_timestamp_ns a \<noteq> None \<or> sa_sample_rate f = wc_sample_rate c"
    and ready: "fst (a_full_window_would_be_ready_after env latest (queued_equivalents c blocks) full a)"
  shows "fst (next_ready_window env
    (accept_all env bags (snd (a_full_window_would_be_ready_after env latest (queued_equivalents c blocks) full a)))) \<noteq> Inr None"
proof -
  let ?ys = "concat (map (channel_converted (arith env) (channels_a_window_carries_from c f)) blocks)"
  let ?q = "\<Sum>b\<leftarrow>blocks. unat (ab_sample_count b)"
  define a0 where "a0 = snd (a_full_window_would_be_ready_after env latest (queued_equivalents c blocks) full a)"
  define s' where "s' = fold (\<lambda>bag s. snd (spec_accept env port c bag s)) bags s"
  have rel0: "stage_rel env port c a0 s" unfolding a0_def by (rule ready_rel [OF rel])
  have rel': "stage_rel env port c (accept_all env bags a0) s'"
    unfolding s'_def by (rule accept_all_rel [OF laws ok rel0])
  have rate: "0 < unat (sa_sample_rate f)" using f(1) by (simp add: unat_gt_0)
  have formats: "\<forall>b\<in>set blocks. block_format b = f" "\<forall>b\<in>set blocks. ab_sample_rate b = sa_sample_rate f"
    using blocks(1) by (auto simp: block_format_def)
  note queued = queued_equivalents_le [OF formats(2), of c] and len = sum_counts [OF blocks, of "arith env"]
  have spec: "sp_format s \<in> {None, Some f}" "contiguous (sp_expected s) (sp_tolerance s) blocks"
    using f(3) at rel by (auto simp: stage_rel_def)
  obtain conv where conv: "built env c f = Inr conv"
    and enough: "\<And>run. sp_run s = Some run \<Longrightarrow>
        (wr_windows run * unat (wc_hop c) + unat (wc_window_size c)) * unat (channels_a_window_carries_from c f) \<le>
        length (converted_stream env conv (unat (channels_a_window_carries_from c f)) (wr_stream run @ ?ys))"
      "sp_run s = None \<Longrightarrow> unat (wc_window_size c) * unat (channels_a_window_carries_from c f) \<le>
        length (converted_stream env conv (unat (channels_a_window_carries_from c f)) ?ys)"
    and some: "sp_run s = None \<Longrightarrow> blocks \<noteq> []"
  proof (cases "sp_run s")
    case None
    have a: "run_anchor_timestamp_ns a = None" "channel_converted_source_scalars a = []" "windowable_output_scalars a = []"
        "contract a = c" using rel None by (simp_all add: stage_rel_def)
    then have same: "sa_sample_rate f = wc_sample_rate c" using run by simp
    have conv: "built env c f = Inr RatesAlreadyAgree"
      using same by (simp add: rate_conversion_build_def for_a_source_in_def)
    have "unat (wc_window_size c) \<le> ?q"
      using ready_between_runs [OF ready a(1-3)] a(4) queued same rate by simp
    moreover from this have "blocks \<noteq> []" using ok by (auto simp: contract_ok_def unat_eq_0)
    moreover have "unat (wc_window_size c) * unat (channels_a_window_carries_from c f) \<le> length ?ys"
      unfolding len using calculation(1) by (rule mult_right_mono) simp
    ultimately show thesis using that [OF conv] None by simp
  next
    case (Some run)
    obtain g conv where g: "built env c g = Inr conv" "sp_format s = Some g"
      using rel Some by (auto simp: stage_rel_def)
    then have conv: "built env c f = Inr conv" "sp_format s = Some f" using spec(1) by simp_all
    show thesis
      using that [OF conv(1)] floor_reaches [OF laws up ok rel Some conv(2,1) rate len queued ready] Some by simp
  qed
  obtain run' where run': "sp_run s' = Some run'" "sp_format s' = Some f"
      "(wr_windows run' * unat (wc_hop c) + unat (wc_window_size c)) * unat (channels_a_window_carries_from c f) \<le>
       length (converted_stream env conv (unat (channels_a_window_carries_from c f)) (wr_stream run'))"
  proof (cases "blocks = []")
    case True
    then obtain run where "sp_run s = Some run" using some by auto
    moreover have "sp_format s = Some f" using rel spec(1) calculation by (auto simp: stage_rel_def)
    ultimately show thesis using that [of run] enough(1) True read by (simp add: s'_def)
  next
    case False
    have "\<exists>run. sp_run s' = Some run \<and> wr_stream run = wr_stream (spec_start_run (hd blocks) s) @ ?ys \<and>
        wr_windows run = wr_windows (spec_start_run (hd blocks) s) \<and> sp_format s' = Some f"
      unfolding s'_def using conv by (intro spec_accept_blocks [OF read False formats(1) blocks(2) f(1,2) _ spec]) (simp add: is_ok_iff)
    then show thesis using that enough by (cases "sp_run s") (auto simp: spec_start_run_def)
  qed
  have "fst (next_ready_window env (accept_all env bags a0)) = fst (spec_next env c s')"
    using next_rel [OF ok rel'] by simp
  then show ?thesis using spec_next_finds [OF run'(1,2) conv run'(3)] by (simp add: a0_def)
qed

subsection \<open>Properties\<close>

text \<open>C38: within a run the readiness gate never promises a window that the read does not find. In any
  state the stage can reach, let bags be queued that continue the stream in the format the run is
  on: if the gate says yes for what they are worth at the contract's rate, then taking them through
  the stage leaves a full window to hand out. The same holds between runs when no resampling is
  needed.\<close>

theorem a_promised_window_is_found:
  assumes "resampler_laws env state_of" "resampler_keeps_up env" "from_declared_values v = Inr c"
    "a = after (stage_step env) calls (accumulator_new port c)"
    "map (read_an_audio_block_off_the_wire env) bags = map Inr blocks"
    "\<forall>b\<in>set blocks. block_format b = f \<and> whole_payload b" "convertible c f"
    "sa_sample_rate f \<noteq> 0" "sa_channels f \<noteq> 0" "source_format a \<in> {None, Some f}"
    "contiguous (expected_next_source_timestamp_ns a) (gap_tolerance_ns a) blocks"
    "run_anchor_timestamp_ns a \<noteq> None \<or> sa_sample_rate f = wc_sample_rate c"
    "fst (a_full_window_would_be_ready_after env latest (queued_equivalents c blocks) full a)"
  shows "fst (next_ready_window env
    (accept_all env bags (snd (a_full_window_would_be_ready_after env latest (queued_equivalents c blocks) full a)))) \<noteq> Inr None"
proof -
  note ok = from_declared_values_ok [OF assms(3)]
  obtain s where "stage_rel env port c a s"
    using after_rel [OF assms(1) ok stage_rel_new] assms(4) by metis
  from promised_window [OF assms(1,2) ok this assms(5-13)] show ?thesis .
qed

lemma sample_frames_written:
  assumes "unat ch \<noteq> 0"
  shows "length (fst (process_all sample_window_env (out_rate, in_rate, ch, fed) chunks)) div unat ch =
      (fed + 256 * length chunks) * unat out_rate div unat in_rate - fed * unat out_rate div unat in_rate \<and>
    unat ch dvd length (fst (process_all sample_window_env (out_rate, in_rate, ch, fed) chunks))"
proof (induction chunks arbitrary: fed)
  case (Cons chunk chunks)
  let ?g = "\<lambda>x. x * unat out_rate div unat in_rate"
  have mono: "?g x \<le> ?g y" if "x \<le> y" for x y using that by (intro div_le_mono mult_right_mono) auto
  obtain m where m: "length (fst (process_all sample_window_env (out_rate, in_rate, ch, fed + 256) chunks)) = m * unat ch"
    using Cons [of "fed + 256"] by (auto simp: dvd_def mult.commute)
  then have "m = ?g (fed + 256 + 256 * length chunks) - ?g (fed + 256)" using Cons [of "fed + 256"] assms by simp
  moreover have "process_into_buffer sample_window_env (out_rate, in_rate, ch, fed) chunk =
      (Inr (replicate ((?g (fed + 256) - ?g fed) * unat ch) 0), (out_rate, in_rate, ch, fed + 256))"
    by (simp add: sample_window_env_def)
  moreover have "(?g (fed + 256) - ?g fed) + (?g (fed + 256 + 256 * length chunks) - ?g (fed + 256)) =
      ?g (fed + 256 * length (chunk # chunks)) - ?g fed"
    using mono [of fed "fed + 256"] mono [of "fed + 256" "fed + 256 + 256 * length chunks"] by (simp add: add.assoc)
  ultimately show ?case using m assms
    by (simp add: case_prod_beta add_mult_distrib [symmetric])
qed simp

lemma sample_keeps_up: "resampler_keeps_up sample_window_env"
  unfolding resampler_keeps_up_def
proof (intro allI impI)
  fix out_rate in_rate ch :: u32 and r0 and xs ys :: "f32 list list"
  assume "new_sinc sample_window_env out_rate in_rate 256 ch = Inr r0"
  then have r0: "r0 = (out_rate, in_rate, ch, 0)" "unat ch \<noteq> 0" "0 < unat in_rate"
    by (auto simp: sample_window_env_def unat_gt_0 unat_eq_0 split: if_splits)
  let ?g = "\<lambda>k. 256 * k * unat out_rate div unat in_rate"
  have g: "frames_written sample_window_env r0 ch zs = ?g (length zs)" for zs
    using sample_frames_written [OF r0(2), of out_rate in_rate 0 zs] by (simp add: frames_written_def r0(1))
  have num: "gx * i + y * 256 * o' \<le> (gxy + 2) * i" if "gx * i \<le> 256 * x * o'" "256 * (x + y) * o' < gxy * i + i"
    for gx gxy x y i o' :: nat using that by (simp add: algebra_simps)
  have "?g (length xs) * unat in_rate \<le> 256 * length xs * unat out_rate" by (rule div_times_less_eq_dividend)
  moreover have "256 * (length xs + length ys) * unat out_rate < ?g (length xs + length ys) * unat in_rate + unat in_rate"
    using r0(3) by (metis div_mod_decomp add_less_cancel_left mod_less_divisor)
  moreover have "input_frames_next sample_window_env r0 = 256" by (simp add: sample_window_env_def)
  ultimately show "frames_written sample_window_env r0 ch xs * unat in_rate +
      length ys * input_frames_next sample_window_env r0 * unat out_rate \<le>
      (frames_written sample_window_env r0 ch (xs @ ys) + 2) * unat in_rate"
    unfolding g length_append by (simp only: num)
qed

definition sample_bag :: bytes where
  "sample_bag = le_bytes 8 (20833 :: i64) @ [2, 0, 0, 0]"

definition sample_block :: audio_block where
  "sample_block = \<lparr>ab_interleaved_sample_bytes = [2, 0, 0, 0], ab_sample_rate = 48000, ab_channels = 1, ab_sample_count = 1,
                   ab_dtype = F32, ab_first_sample_timestamp_ns = 20833\<rparr>"

definition sample_stage :: "sample_resampler audio_window_accumulator" where
  "sample_stage = after (stage_step sample_window_env) [Accept [0, 0, 0, 0, 0, 0, 0, 0, 1, 0, 0, 0]]
     (accumulator_new ''in'' sample_contract)"

lemma sample_stage_eq:
  "sample_stage =
     \<lparr>stage_port_name = ''in'', contract = sample_contract, source_format = Some \<lparr>sa_sample_rate = 48000, sa_channels = 1\<rparr>,
      rate_conversion = RatesAlreadyAgree,
      rate_conversion_built_for = Some \<lparr>ri_source_sample_rate = 48000, ri_channels_converted = 1\<rparr>,
      channel_converted_source_scalars = [], windowable_output_scalars = [1],
      warned_that_a_full_mailbox_still_cannot_fill_a_window = False, priming_output_frames_still_to_discard = 0,
      run_anchor_timestamp_ns = Some 0, next_window_start_output_frame = 0,
      expected_next_source_timestamp_ns = Some 20833, gap_tolerance_ns = 10416\<rparr>"
proof -
  have "read_an_audio_block_off_the_wire sample_window_env [0, 0, 0, 0, 0, 0, 0, 0, 1, 0, 0, 0] =
      Inr (sample_block\<lparr>ab_interleaved_sample_bytes := [1, 0, 0, 0], ab_first_sample_timestamp_ns := 0\<rparr>)"
    by (simp add: read_an_audio_block_off_the_wire_def sample_window_env_def expected_payload_bytes_def sample_block_def Let_def)
  moreover have "chunks_exact 4 [1, 0, 0, 0 :: u8] = [[1, 0, 0, 0]]"
    by (simp add: chunks_exact.simps [of 4 "[1, 0, 0, 0]"])
  ultimately show ?thesis
    by (simp add: sample_stage_def accept_def accept_block_def sample_block_def accumulator_new_def sample_contract_def Let_def
        build_the_rate_conversion_if_its_inputs_are_new_def rate_conversion_build_def for_a_source_in_def
        channels_a_window_carries_from_def append_the_blocks_samples_in_the_count_windows_are_emitted_in_def
        channel_converted_def interleaved_samples_as_f32_def push_whole_chunks_through_the_rate_conversion_def
        frames_as_nanoseconds_def i64_half_def)
qed

lemma sample_stage_ready:
  "fst (a_full_window_would_be_ready_after sample_window_env 0 (queued_equivalents sample_contract [sample_block]) False sample_stage)"
  by (simp add: sample_stage_eq a_full_window_would_be_ready_after_def holds_a_full_window_def scalars_per_window_def
      scalars_per_window_at_def channels_windows_are_emitted_in_def channels_a_window_carries_from_def sample_contract_def
      read_source_format_def output_frames_held_def frames_in_def staged_output_frame_equivalents_and_slack_def
      staged_source_frames_held_def queued_equivalents_def sample_block_def)

theorem a_promised_window_is_found_witness:
  "fst (next_ready_window sample_window_env (accept_all sample_window_env [sample_bag]
     (snd (a_full_window_would_be_ready_after sample_window_env 0
        (queued_equivalents sample_contract [sample_block]) False sample_stage)))) \<noteq> Inr None"
proof -
  have "map (read_an_audio_block_off_the_wire sample_window_env) [sample_bag] = map Inr [sample_block]"
    by (simp add: read_an_audio_block_off_the_wire_def sample_window_env_def expected_payload_bytes_def sample_block_def
        sample_bag_def of_le_bytes_le_bytes Let_def)
  from a_promised_window_is_found [OF sample_resampler_laws sample_keeps_up sample_declaration_resolves sample_stage_def this,
      of "\<lparr>sa_sample_rate = 48000, sa_channels = 1\<rparr>"]
  show ?thesis using sample_stage_ready
    by (simp add: sample_stage_eq block_format_def whole_payload_def sample_block_def convertible_def sample_contract_def
        channels_a_window_carries_from_def i64_abs_diff_def)
qed

definition start_contract :: resolved_audio_window_contract where
  "start_contract = \<lparr>wc_sample_rate = 16000, wc_channels = Some 1, wc_dtype = F32, wc_window_size = 82, wc_hop = 82\<rparr>"

definition start_bag :: bytes where
  "start_bag = replicate (8 + 4 * 511) 0"

definition start_block :: audio_block where
  "start_block = \<lparr>ab_interleaved_sample_bytes = replicate (4 * 511) 0, ab_sample_rate = 48000, ab_channels = 1,
                  ab_sample_count = 511, ab_dtype = F32, ab_first_sample_timestamp_ns = 0\<rparr>"

definition start_format :: source_audio_format where
  "start_format = \<lparr>sa_sample_rate = 48000, sa_channels = 1\<rparr>"

lemma of_le_bytes_zeros: "of_le_bytes (replicate n 0) = (0 :: 'a::len word)"
  by (induction n) simp_all

lemma start_bag_reads: "read_an_audio_block_off_the_wire sample_window_env start_bag = Inr start_block"
  by (simp add: read_an_audio_block_off_the_wire_def sample_window_env_def expected_payload_bytes_def start_block_def
      start_bag_def of_le_bytes_zeros Let_def)

lemma start_is_promised:
  "fst (a_full_window_would_be_ready_after sample_window_env (record_source_format start_format)
     (queued_equivalents start_contract [start_block]) False (accumulator_new ''in'' start_contract))"
  by (simp add: a_full_window_would_be_ready_after_def holds_a_full_window_def accumulator_new_def read_source_format_def
      record_source_format_def start_format_def start_contract_def start_block_def for_a_source_in_def
      channels_a_window_carries_from_def build_the_rate_conversion_if_its_inputs_are_new_def rate_conversion_build_def
      sample_window_env_def output_frames_held_def frames_in_def staged_output_frame_equivalents_and_slack_def
      staged_source_frames_held_def channels_windows_are_emitted_in_def queued_equivalents_def div_ceil_nat_def Let_def)

lemma spec_next_finds_nothing:
  assumes "sp_run s = Some run" "sp_format s = Some f" "built env c f = Inr conv"
    "length (converted_stream env conv (unat (channels_a_window_carries_from c f)) (wr_stream run)) <
     (wr_windows run * unat (wc_hop c) + unat (wc_window_size c)) * unat (channels_a_window_carries_from c f)"
    "0 < unat (wc_window_size c) * unat (channels_a_window_carries_from c f)"
  shows "fst (spec_next env c s) = Inr None"
proof -
  let ?ch = "unat (channels_a_window_carries_from c f)"
  have short: "length (take w (drop k xs)) < w" if "length xs < k + w" "0 < w" for k w and xs :: "f32 list"
    using that by auto
  have "length (take (unat (wc_window_size c) * ?ch) (drop (wr_windows run * unat (wc_hop c) * ?ch)
      (converted_stream env conv ?ch (wr_stream run)))) < unat (wc_window_size c) * ?ch"
    by (rule short [OF assms(4) [unfolded add_mult_distrib] assms(5)])
  then show ?thesis by (simp only: spec_next_def assms(1-3) Let_def prod.case option.case sum.sel if_True fst_conv)
qed

text \<open>C40: at the start of a resampled run the readiness gate can promise a window that the read does not
  find, because it counts the priming of the filter only once the run is anchored. A resampler that
  behaves as documented, with a delay of 21 frames, between 48 kHz and 16 kHz: with one block of
  511 frames queued the gate promises a window of 82, and taking the block through the stage leaves
  64.\<close>

theorem readiness_overlooks_priming_at_run_start:
  "resampler_laws sample_window_env sample_state_of \<and> resampler_keeps_up sample_window_env \<and>
   read_an_audio_block_off_the_wire sample_window_env start_bag = Inr start_block \<and>
   (let (ready, a) = a_full_window_would_be_ready_after sample_window_env (record_source_format start_format)
          (queued_equivalents start_contract [start_block]) False (accumulator_new ''in'' start_contract)
    in ready \<and> fst (next_ready_window sample_window_env (accept_all sample_window_env [start_bag] a)) = Inr None)"
proof -
  let ?env = sample_window_env and ?c = start_contract and ?f = start_format
  let ?a = "snd (a_full_window_would_be_ready_after ?env (record_source_format ?f)
      (queued_equivalents ?c [start_block]) False (accumulator_new ''in'' ?c))"
  let ?s = "fold (\<lambda>bag s. snd (spec_accept ?env ''in'' ?c bag s)) [start_bag] spec_new"
  have ok: "contract_ok ?c" by (simp add: contract_ok_def start_contract_def)
  have rel: "stage_rel ?env ''in'' ?c (accept_all ?env [start_bag] ?a) ?s"
    by (rule accept_all_rel [OF sample_resampler_laws ok ready_rel [OF stage_rel_new]])
  have b: "built ?env ?c ?f = Inr (Resampled (16000, 48000, 1, 0))"
    by (simp add: rate_conversion_build_def for_a_source_in_def start_contract_def start_format_def
        channels_a_window_carries_from_def sample_window_env_def)
  have blk: "block_format start_block = ?f" "whole_payload start_block" "convertible ?c ?f"
      "channels_a_window_carries_from ?c ?f = 1" "ab_sample_count start_block = 511"
    by (simp_all add: block_format_def start_block_def start_format_def whole_payload_def convertible_def
        channels_a_window_carries_from_def start_contract_def)
  have "map (read_an_audio_block_off_the_wire ?env) [start_bag] = map Inr [start_block]" using start_bag_reads by simp
  from spec_accept_blocks [OF this, of ?f ?c spec_new "''in''"] b blk
  obtain run where run: "sp_run ?s = Some run" "wr_stream run = channel_converted (arith ?env) 1 start_block"
      "wr_windows run = 0" "sp_format ?s = Some ?f"
    by (auto simp: start_format_def spec_new_def spec_start_run_def is_ok_iff)
  have "length (wr_stream run) = 511" using run(2) length_channel_converted [of start_block ?c "arith ?env"] blk by simp
  then have "length (chunks_exact 256 (wr_stream run)) = 1" by (simp add: length_chunks_exact)
  then have "length (converted_stream ?env (Resampled (16000, 48000, 1, 0)) 1 (wr_stream run)) = 64"
    using sample_frames_written [of 1 16000 48000 0 "chunks_exact 256 (wr_stream run)"]
    by (simp add: sample_window_env_def)
  then have "fst (spec_next ?env ?c ?s) = Inr None"
    using spec_next_finds_nothing [OF run(1,4) b] blk(4) run(3) by (simp add: start_contract_def)
  then have "fst (next_ready_window ?env (accept_all ?env [start_bag] ?a)) = Inr None"
    using next_rel [OF ok rel] by simp
  then show ?thesis using sample_resampler_laws sample_keeps_up start_bag_reads start_is_promised
    by (simp add: case_prod_beta)
qed

text \<open>C39: the length check of an audio block is exact up to the width of a machine word. An accepted
  block carries exactly the scalars its count and channels state, unless their product with the
  scalar size reaches 2^64: the product wraps, so a block that states 2^31 samples across 2^31
  channels and carries nothing is accepted, and a contract that averages to one channel makes 2^31
  samples out of it.\<close>

theorem audio_block_length_check_wraps:
  assumes "read_an_audio_block_off_the_wire env bag = Inr b" "from_slice env' bag' = Inr m"
    "nm_interleaved_sample_bytes m = []" "nm_sample_count m = 2 ^ 31" "nm_channels m = 2 ^ 31" "nm_dtype m = None"
  shows "(whole_payload b \<longleftrightarrow>
      unat (ab_sample_count b) * unat (ab_channels b) * bytes_per_sample (ab_dtype b) < 2 ^ 64) \<and>
    (\<exists>b'. read_an_audio_block_off_the_wire env' bag' = Inr b' \<and> ab_interleaved_sample_bytes b' = [] \<and>
       length (channel_converted ops 1 b') = 2 ^ 31)"
proof
  let ?n = "unat (ab_sample_count b) * unat (ab_channels b) * bytes_per_sample (ab_dtype b)"
  have "length (ab_interleaved_sample_bytes b) = ?n mod 2 ^ 64"
    using assms(1) by (auto simp: read_an_audio_block_off_the_wire_def expected_payload_bytes_def Let_def and_then_Inr_iff
        split: sum.splits if_splits)
  then show "whole_payload b \<longleftrightarrow> ?n < 2 ^ 64"
    unfolding whole_payload_def by (metis mod_less mod_less_divisor zero_less_numeral zero_less_power)
  show "\<exists>b'. read_an_audio_block_off_the_wire env' bag' = Inr b' \<and> ab_interleaved_sample_bytes b' = [] \<and>
      length (channel_converted ops 1 b') = 2 ^ 31"
    using assms(2-6)
    by (simp add: read_an_audio_block_off_the_wire_def expected_payload_bytes_def channel_converted_def Let_def)
qed

definition wrapping_env :: "sample_resampler window_env" where
  "wrapping_env = sample_window_env\<lparr>from_slice := (\<lambda>bag. Inr \<lparr>nm_interleaved_sample_bytes = bag, nm_sample_rate = 48000,
     nm_channels = 2 ^ 31, nm_sample_count = 2 ^ 31, nm_dtype = None, nm_first_sample_timestamp_ns = 0\<rparr>)\<rparr>"

theorem audio_block_length_check_wraps_witness:
  "whole_payload start_block \<and> (\<exists>b'. read_an_audio_block_off_the_wire wrapping_env [] = Inr b' \<and>
     length (channel_converted (arith wrapping_env) 1 b') = 2 ^ 31)"
proof -
  have "from_slice wrapping_env [] = Inr \<lparr>nm_interleaved_sample_bytes = [], nm_sample_rate = 48000,
     nm_channels = 2 ^ 31, nm_sample_count = 2 ^ 31, nm_dtype = None, nm_first_sample_timestamp_ns = 0\<rparr>"
    by (simp add: wrapping_env_def)
  from audio_block_length_check_wraps [OF start_bag_reads this, of "arith wrapping_env"]
  show ?thesis by (auto simp: start_block_def)
qed

end
