(* ===== verification/Input_Ports.thy ===== *)
theory Input_Ports
  imports Audio_Window_Readiness "HOL-Library.Monad_Syntax"
begin

text \<open>
  The input side of a processor (\<open>runtime/streamlib-engine/src/iceoryx2/input.rs\<close>): the table of
  input ports, each with its mailbox and, where a window contract is declared, its window stage;
  the channel subscribers bound to them; and the reads and readiness questions a processor asks.
  It composes \<open>Mailbox\<close>, \<open>Audio_Window\<close> and the frame header of \<open>Ipc_Wire\<close>.

  A subscriber of iceoryx2 is what its \<open>receive\<close> will return until it returns nothing. Every
  operation is an \<open>option\<close>: \<open>None\<close> stands for a loop over a queue that never ends, and the
  properties show that a lawful queue rules it out. The port table's lock is not modelled: one
  thread wires and reads.
\<close>

datatype receive_result = Sample bytes | ReceiveFailed

record port_bound_subscriber =
  ps_link_id :: string
  ps_local_port :: string
  ps_inbound_link_name :: inbound_link_name
  ps_pending :: "receive_result list"
  ps_dropped_bag_counter :: counter

datatype 'r installed_input_port_audio_windowing =
  NotWindowed
| AwaitingItsDeviceStreamFormat
| Windowed "'r audio_window_accumulator"

text \<open>\<open>pc_latest_format\<close> is the cell that the mailbox's measure shares with the stage, and
  \<open>pc_already_said\<close> the flag of the eviction notice.\<close>

record ('q, 'r) port_config =
  pc_mailbox :: "('q, bool) port_mailbox"
  pc_read_mode :: read_mode
  pc_staged_oversized :: "bag_body_for_the_reader option"
  pc_audio_windowing :: "'r installed_input_port_audio_windowing"
  pc_latest_format :: u64
  pc_already_said :: bool

datatype bounded_read_outcome =
  Empty
| Frame bytes i64 "inbound_link_name option"
| NeedsLargerBuffer nat

datatype input_error =
  UnknownInputPort string
| FrameHeaderPayloadLengthExceedsFrameBytes string nat nat
| WindowStage audio_window_error
| NoInboundLinkBehindTheBag string
| DidNotFitAnUnboundedBuffer string nat
| DeviceStreamContractRefused string declaration_refusal
| CannotBeSettled string string

record ('q, 'r) input_mailboxes_inner =
  im_ports :: "(string \<times> ('q, 'r) port_config) list"
  im_subscribers :: "port_bound_subscriber list"
  im_listener :: "int option"
  im_listener_generation :: u64
  im_dropped_bag_counts :: dropped_bag_counts_by_inbound_link
  im_counts :: counts
  im_device_matched_audio_window_contracts :: device_matched_contracts

type_synonym ('q, 'r) inner = "('q, 'r) input_mailboxes_inner"
type_synonym 'q frame_queue_ops = "('q, queued_frame) queue_ops"

definition inner_new :: "('q, 'r) inner" where
  "inner_new = \<lparr>im_ports = [], im_subscribers = [], im_listener = None, im_listener_generation = 0,
                im_dropped_bag_counts = [], im_counts = [], im_device_matched_audio_window_contracts = []\<rparr>"

subsection \<open>Wiring\<close>

definition has_port :: "string \<Rightarrow> ('q, 'r) inner \<Rightarrow> bool" where
  "has_port port im \<longleftrightarrow> map_of (im_ports im) port \<noteq> None"

definition put_port :: "string \<Rightarrow> ('q, 'r) port_config \<Rightarrow> ('q, 'r) inner \<Rightarrow> ('q, 'r) inner" where
  "put_port port pc im = im\<lparr>im_ports := AList.update port pc (im_ports im)\<rparr>"

definition add_port :: "'q frame_queue_ops \<Rightarrow> string \<Rightarrow> nat \<Rightarrow> read_mode \<Rightarrow> ('q, 'r) inner \<Rightarrow> ('q, 'r) inner" where
  "add_port aq port buffer_size mode im =
     put_port port \<lparr>pc_mailbox = mailbox_new aq buffer_size, pc_read_mode = mode, pc_staged_oversized = None,
                    pc_audio_windowing = NotWindowed, pc_latest_format = 0, pc_already_said = False\<rparr> im"

definition add_port_awaiting_its_device_stream_format ::
    "'q frame_queue_ops \<Rightarrow> string \<Rightarrow> nat \<Rightarrow> read_mode \<Rightarrow> ('q, 'r) inner \<Rightarrow> ('q, 'r) inner" where
  "add_port_awaiting_its_device_stream_format aq port dep mode im =
     put_port port \<lparr>pc_mailbox = reporting_every_eviction_to (\<lambda>_. True) (mailbox_new aq dep), pc_read_mode = mode,
                    pc_staged_oversized = None, pc_audio_windowing = AwaitingItsDeviceStreamFormat,
                    pc_latest_format = 0, pc_already_said = False\<rparr> im"

definition windowed_port_config ::
    "'q frame_queue_ops \<Rightarrow> 'r window_env \<Rightarrow> string \<Rightarrow> read_mode \<Rightarrow> resolved_audio_window_contract \<Rightarrow>
      ('q, 'r) port_config" where
  "windowed_port_config aq env port mode c =
     \<lparr>pc_mailbox = measuring_every_queued_frame_with (\<lambda>frame. fst (queued_audio_window_frame_measure env c frame 0))
                     (mailbox_new aq (windowed_port_mailbox_depth c)),
      pc_read_mode = mode, pc_staged_oversized = None, pc_audio_windowing = Windowed (accumulator_new port c),
      pc_latest_format = 0, pc_already_said = False\<rparr>"

definition add_windowed_port ::
    "'q frame_queue_ops \<Rightarrow> 'r window_env \<Rightarrow> string \<Rightarrow> read_mode \<Rightarrow> resolved_audio_window_contract \<Rightarrow>
      ('q, 'r) inner \<Rightarrow> ('q, 'r) inner" where
  "add_windowed_port aq env port mode c im = put_port port (windowed_port_config aq env port mode c) im"

fun why_it_cannot_be_settled :: "'r installed_input_port_audio_windowing \<Rightarrow> string option" where
  "why_it_cannot_be_settled AwaitingItsDeviceStreamFormat = None"
| "why_it_cannot_be_settled NotWindowed = Some ''it declares no window contract''"
| "why_it_cannot_be_settled (Windowed _) = Some ''its contract is already settled''"

text \<open>What the frames handed over leave in the format cell: the measure runs over each in turn.
  \<open>queued\<close> lists the payloads that a queue holds, oldest first.\<close>

definition latest_format_after ::
    "'r window_env \<Rightarrow> resolved_audio_window_contract \<Rightarrow> bytes list \<Rightarrow> u64 \<Rightarrow> u64" where
  "latest_format_after env c frames latest =
     fold (\<lambda>frame latest. snd (queued_audio_window_frame_measure env c frame latest)) frames latest"

definition settle_a_ports_device_matched_audio_window_contract ::
    "'q frame_queue_ops \<Rightarrow> 'r window_env \<Rightarrow> ('q \<Rightarrow> bytes list) \<Rightarrow> string \<Rightarrow>
      audio_window_contract_matching_a_device_stream \<Rightarrow> ('q, 'r) inner \<Rightarrow>
      ((input_error + unit) \<times> ('q, 'r) inner) option" where
  "settle_a_ports_device_matched_audio_window_contract aq env queued port matching im =
     (case from_a_device_stream_format matching of
        Inl refusal \<Rightarrow> Some (Inl (DeviceStreamContractRefused port refusal), im)
      | Inr c \<Rightarrow>
          (let settled_im = im\<lparr>im_device_matched_audio_window_contracts :=
                 settle_for_input_port port c (im_device_matched_audio_window_contracts im)\<rparr>
           in case map_of (im_ports im) port of
                None \<Rightarrow> Some (Inr (), settled_im)
              | Some existing \<Rightarrow>
                  (case why_it_cannot_be_settled (pc_audio_windowing existing) of
                     Some refusal \<Rightarrow> Some (Inl (CannotBeSettled port refusal), im)
                   | None \<Rightarrow>
                       (let settled = windowed_port_config aq env port (pc_read_mode existing) c
                        in map_option
                             (\<lambda>(_, mailbox, cs, said).
                                (Inr (),
                                 (put_port port
                                    (settled\<lparr>pc_mailbox := mailbox, pc_already_said := said,
                                             pc_latest_format := latest_format_after env c (queued (queue (pc_mailbox existing))) 0,
                                             pc_staged_oversized := pc_staged_oversized existing\<rparr>)
                                    settled_im)\<lparr>im_counts := cs\<rparr>))
                             (hand_every_queued_frame_over_to aq (pc_mailbox existing)
                                (pc_mailbox settled, im_counts im, pc_already_said settled))))))"

definition input_ports_still_awaiting_their_device_stream_format :: "('q, 'r) inner \<Rightarrow> string list" where
  "input_ports_still_awaiting_their_device_stream_format im =
     map fst (filter (\<lambda>(_, pc). pc_audio_windowing pc = AwaitingItsDeviceStreamFormat) (im_ports im))"

definition has_subscribers :: "('q, 'r) inner \<Rightarrow> bool" where
  "has_subscribers im \<longleftrightarrow> im_subscribers im \<noteq> []"

definition add_channel_subscriber ::
    "string \<Rightarrow> string \<Rightarrow> inbound_link_name \<Rightarrow> receive_result list \<Rightarrow> ('q, 'r) inner \<Rightarrow> ('q, 'r) inner" where
  "add_channel_subscriber local_port link_id inbound_name subscriber im =
     (case counter_for_inbound_link link_id (im_dropped_bag_counts im, im_counts im) of
        (c, per_link, cs) \<Rightarrow>
          im\<lparr>im_subscribers := im_subscribers im @
               [\<lparr>ps_link_id = link_id, ps_local_port = local_port, ps_inbound_link_name = inbound_name,
                 ps_pending = subscriber, ps_dropped_bag_counter = c\<rparr>],
             im_dropped_bag_counts := per_link, im_counts := cs\<rparr>)"

definition bound_to_local_port :: "string \<Rightarrow> ('q, 'r) inner \<Rightarrow> port_bound_subscriber list" where
  "bound_to_local_port port im = filter (\<lambda>b. ps_local_port b = port) (im_subscribers im)"

definition inbound_link_names :: "string \<Rightarrow> ('q, 'r) inner \<Rightarrow> inbound_link_name list" where
  "inbound_link_names port im = map ps_inbound_link_name (bound_to_local_port port im)"

definition the_single_inbound_link_name_of :: "string \<Rightarrow> ('q, 'r) inner \<Rightarrow> inbound_link_name option" where
  "the_single_inbound_link_name_of port im =
     (case bound_to_local_port port im of [only] \<Rightarrow> Some (ps_inbound_link_name only) | _ \<Rightarrow> None)"

fun remove_by_link :: "string \<Rightarrow> port_bound_subscriber list \<Rightarrow> (string \<times> port_bound_subscriber list) option" where
  "remove_by_link link_id [] = None"
| "remove_by_link link_id (b # bs) =
     (if ps_link_id b = link_id then Some (ps_local_port b, bs)
      else map_option (\<lambda>(port, bs). (port, b # bs)) (remove_by_link link_id bs))"

definition port_still_bound :: "string \<Rightarrow> port_bound_subscriber list \<Rightarrow> bool" where
  "port_still_bound port bs \<longleftrightarrow> (\<exists>b\<in>set bs. ps_local_port b = port)"

definition remove_channel_link :: "string \<Rightarrow> ('q, 'r) inner \<Rightarrow> ('q, 'r) inner" where
  "remove_channel_link link_id im =
     (case remove_by_link link_id (im_subscribers im) of
        None \<Rightarrow> im
      | Some (local_port, bs) \<Rightarrow>
          im\<lparr>im_subscribers := bs,
             im_dropped_bag_counts := forget_inbound_link link_id (im_dropped_bag_counts im),
             im_ports := (if port_still_bound local_port bs then im_ports im else AList.delete local_port (im_ports im)),
             im_listener := (if bs = [] then None else im_listener im)\<rparr>)"

definition has_listener :: "('q, 'r) inner \<Rightarrow> bool" where
  "has_listener im \<longleftrightarrow> im_listener im \<noteq> None"

definition set_listener :: "int \<Rightarrow> ('q, 'r) inner \<Rightarrow> ('q, 'r) inner" where
  "set_listener fd im = im\<lparr>im_listener := Some fd, im_listener_generation := im_listener_generation im + 1\<rparr>"

subsection \<open>Receiving\<close>

text \<open>A frame enters a port's mailbox from an inbound link, or injected with none; the measure of a
  windowed port records its format on the way.\<close>

definition push_into_port ::
    "'q frame_queue_ops \<Rightarrow> 'r window_env \<Rightarrow> bytes \<Rightarrow> (counter \<times> inbound_link_name) option \<Rightarrow>
      ('q, 'r) port_config \<times> counts \<Rightarrow> (('q, 'r) port_config \<times> counts) option" where
  "push_into_port aq env raw link = (\<lambda>(pc, cs).
     map_option
       (\<lambda>(mailbox, cs, said).
          (pc\<lparr>pc_mailbox := mailbox, pc_already_said := said,
              pc_latest_format :=
                (case pc_audio_windowing pc of
                   Windowed stage \<Rightarrow> snd (queued_audio_window_frame_measure env (contract stage) raw (pc_latest_format pc))
                 | _ \<Rightarrow> pc_latest_format pc)\<rparr>, cs))
       (case link of
          Some (c, inbound_name) \<Rightarrow> push_frame_from_inbound_link aq raw c inbound_name (pc_mailbox pc, cs, pc_already_said pc)
        | None \<Rightarrow> push_frame_without_inbound_link_attribution aq raw (pc_mailbox pc, cs, pc_already_said pc)))"

definition deliver_to ::
    "'q frame_queue_ops \<Rightarrow> 'r window_env \<Rightarrow> string \<Rightarrow> bytes \<Rightarrow> (counter \<times> inbound_link_name) option \<Rightarrow>
      ('q, 'r) inner \<Rightarrow> ('q, 'r) inner option" where
  "deliver_to aq env port raw link im =
     (case map_of (im_ports im) port of
        None \<Rightarrow> Some im
      | Some pc \<Rightarrow>
          map_option (\<lambda>(pc, cs). (put_port port pc im)\<lparr>im_counts := cs\<rparr>) (push_into_port aq env raw link (pc, im_counts im)))"

fun receive_from ::
    "'q frame_queue_ops \<Rightarrow> 'r window_env \<Rightarrow> port_bound_subscriber \<Rightarrow> receive_result list \<Rightarrow> ('q, 'r) inner \<Rightarrow>
      (receive_result list \<times> ('q, 'r) inner) option" where
  "receive_from aq env bound [] im = Some ([], im)"
| "receive_from aq env bound (ReceiveFailed # rest) im = Some (rest, im)"
| "receive_from aq env bound (Sample raw # rest) im =
     (if length raw < FRAME_HEADER_SIZE then receive_from aq env bound rest im
      else do {
        im \<leftarrow> deliver_to aq env (ps_local_port bound) raw
                (Some (ps_dropped_bag_counter bound, ps_inbound_link_name bound)) im;
        receive_from aq env bound rest im
      })"

fun receive_each ::
    "'q frame_queue_ops \<Rightarrow> 'r window_env \<Rightarrow> port_bound_subscriber list \<Rightarrow> ('q, 'r) inner \<Rightarrow>
      (port_bound_subscriber list \<times> ('q, 'r) inner) option" where
  "receive_each aq env [] im = Some ([], im)"
| "receive_each aq env (bound # bs) im = do {
     (rest, im) \<leftarrow> receive_from aq env bound (ps_pending bound) im;
     (bs, im) \<leftarrow> receive_each aq env bs im;
     Some (bound\<lparr>ps_pending := rest\<rparr> # bs, im)
   }"

definition receive_pending :: "'q frame_queue_ops \<Rightarrow> 'r window_env \<Rightarrow> ('q, 'r) inner \<Rightarrow> ('q, 'r) inner option" where
  "receive_pending aq env im = do {
     (bs, im) \<leftarrow> receive_each aq env (im_subscribers im) im;
     Some (im\<lparr>im_subscribers := bs\<rparr>)
   }"

definition route :: "'q frame_queue_ops \<Rightarrow> 'r window_env \<Rightarrow> bytes \<Rightarrow> ('q, 'r) inner \<Rightarrow> (bool \<times> ('q, 'r) inner) option" where
  "route aq env raw im =
     (if length raw < FRAME_HEADER_SIZE then Some (False, im)
      else let port = read_port_from_slice raw
           in if has_port port im then map_option (Pair True) (deliver_to aq env port raw None im)
              else Some (False, im))"

subsection \<open>Reading\<close>

text \<open>A queued frame is never shorter than a header: both ways into a mailbox refuse it.\<close>

definition strip_header :: "string \<Rightarrow> delivered_bag \<Rightarrow> input_error + bag_body_for_the_reader" where
  "strip_header port delivered =
     (let frame = bag_payload delivered;
          header = the (read_from_slice frame);
          stamped = unat (fh_len header);
          available = length frame - FRAME_HEADER_SIZE
      in if available < stamped then Inl (FrameHeaderPayloadLengthExceedsFrameBytes port stamped available)
         else Inr \<lparr>rb_body = take stamped (drop FRAME_HEADER_SIZE frame),
                   first_sample_or_publish_timestamp_ns = fh_timestamp_ns header,
                   rb_inbound_link_name = bag_inbound_link_name delivered\<rparr>)"

definition pop_one_bag_off_the_mailbox ::
    "'q frame_queue_ops \<Rightarrow> string \<Rightarrow> ('q, 'r) inner \<Rightarrow>
      ((input_error + bag_body_for_the_reader option) \<times> ('q, 'r) inner) option" where
  "pop_one_bag_off_the_mailbox aq port im =
     (case map_of (im_ports im) port of
        None \<Rightarrow> Some (Inl (UnknownInputPort port), im)
      | Some pc \<Rightarrow> do {
          (raw, mailbox) \<leftarrow> (case pc_read_mode pc of
             SkipToLatest \<Rightarrow> pop_latest aq (pc_mailbox pc)
           | ReadNextInOrder \<Rightarrow> Some (mailbox_pop aq (pc_mailbox pc)));
          let im = put_port port (pc\<lparr>pc_mailbox := mailbox\<rparr>) im;
          Some (case raw of
             None \<Rightarrow> (Inr None, im)
           | Some delivered \<Rightarrow> (and_then (strip_header port delivered) (\<lambda>bag. Inr (Some bag)), im))
        })"

text \<open>The stage of a windowed port, as the port table has it.\<close>

definition put_stage :: "string \<Rightarrow> 'r audio_window_accumulator \<Rightarrow> ('q, 'r) inner \<Rightarrow> ('q, 'r) inner" where
  "put_stage port stage im =
     (case map_of (im_ports im) port of
        Some pc \<Rightarrow> put_port port (pc\<lparr>pc_audio_windowing := Windowed stage\<rparr>) im | None \<Rightarrow> im)"

partial_function (option) next_window_out_of_the_stage ::
    "'q frame_queue_ops \<Rightarrow> 'r window_env \<Rightarrow> string \<Rightarrow> 'r audio_window_accumulator \<Rightarrow> ('q, 'r) inner \<Rightarrow>
      ((input_error + bag_body_for_the_reader option) \<times> ('q, 'r) inner) option" where
  "next_window_out_of_the_stage aq env port stage im =
     (case next_ready_window env stage of
        (Inl e, stage) \<Rightarrow> Some (Inl (WindowStage e), put_stage port stage im)
      | (Inr (Some window), stage) \<Rightarrow>
          Some (Inr (Some (window\<lparr>rb_inbound_link_name := the_single_inbound_link_name_of port im\<rparr>)),
                put_stage port stage im)
      | (Inr None, stage) \<Rightarrow>
          (case pop_one_bag_off_the_mailbox aq port im of
             None \<Rightarrow> None
           | Some (Inl e, im) \<Rightarrow> Some (Inl e, put_stage port stage im)
           | Some (Inr None, im) \<Rightarrow> Some (Inr None, put_stage port stage im)
           | Some (Inr (Some bag), im) \<Rightarrow>
               (case accept env (rb_body bag) stage of
                  (Inl e, stage) \<Rightarrow> Some (Inl (WindowStage e), put_stage port stage im)
                | (Inr _, stage) \<Rightarrow> next_window_out_of_the_stage aq env port stage im)))"

definition read_raw_bounded ::
    "'q frame_queue_ops \<Rightarrow> 'r window_env \<Rightarrow> string \<Rightarrow> nat \<Rightarrow> ('q, 'r) inner \<Rightarrow>
      ((input_error + bounded_read_outcome) \<times> ('q, 'r) inner) option" where
  "read_raw_bounded aq env port out_cap im = do {
     im \<leftarrow> receive_pending aq env im;
     (case map_of (im_ports im) port of
        None \<Rightarrow> Some (Inl (UnknownInputPort port), im)
      | Some pc \<Rightarrow> do {
          let im = put_port port (pc\<lparr>pc_staged_oversized := None\<rparr>) im;
          (candidate, im) \<leftarrow>
            (case pc_staged_oversized pc of
               Some staged \<Rightarrow> Some (Inr (Some staged), im)
             | None \<Rightarrow>
                 (case pc_audio_windowing pc of
                    NotWindowed \<Rightarrow> pop_one_bag_off_the_mailbox aq port im
                  | AwaitingItsDeviceStreamFormat \<Rightarrow> Some (Inr None, im)
                  | Windowed stage \<Rightarrow> next_window_out_of_the_stage aq env port stage im));
          Some (case candidate of
             Inl e \<Rightarrow> (Inl e, im)
           | Inr None \<Rightarrow> (Inr Empty, im)
           | Inr (Some bag) \<Rightarrow>
               if length (rb_body bag) \<le> out_cap
               then (Inr (Frame (rb_body bag) (first_sample_or_publish_timestamp_ns bag) (rb_inbound_link_name bag)), im)
               else (case map_of (im_ports im) port of
                       None \<Rightarrow> (Inl (UnknownInputPort port), im)
                     | Some pc \<Rightarrow> (Inr (NeedsLargerBuffer (length (rb_body bag))),
                                    put_port port (pc\<lparr>pc_staged_oversized := Some bag\<rparr>) im)))
        })
   }"

definition read_one_frame_unbounded ::
    "'q frame_queue_ops \<Rightarrow> 'r window_env \<Rightarrow> string \<Rightarrow> ('q, 'r) inner \<Rightarrow>
      ((input_error + (bytes \<times> i64 \<times> inbound_link_name option) option) \<times> ('q, 'r) inner) option" where
  "read_one_frame_unbounded aq env port im =
     map_option
       (\<lambda>(outcome, im).
          (and_then outcome (\<lambda>outcome.
             case outcome of Empty \<Rightarrow> Inr None
             | Frame data stamp link \<Rightarrow> Inr (Some (data, stamp, link))
             | NeedsLargerBuffer required \<Rightarrow> Inl (DidNotFitAnUnboundedBuffer port required)), im))
       (read_raw_bounded aq env port (2 ^ 64 - 1) im)"

definition read_raw ::
    "'q frame_queue_ops \<Rightarrow> 'r window_env \<Rightarrow> string \<Rightarrow> ('q, 'r) inner \<Rightarrow>
      ((input_error + (bytes \<times> i64) option) \<times> ('q, 'r) inner) option" where
  "read_raw aq env port im =
     map_option (\<lambda>(r, im). (and_then r (\<lambda>frame. Inr (map_option (\<lambda>(data, stamp, _). (data, stamp)) frame)), im))
       (read_one_frame_unbounded aq env port im)"

definition read_raw_from_inbound_link ::
    "'q frame_queue_ops \<Rightarrow> 'r window_env \<Rightarrow> string \<Rightarrow> ('q, 'r) inner \<Rightarrow>
      ((input_error + (bytes \<times> i64 \<times> inbound_link_name) option) \<times> ('q, 'r) inner) option" where
  "read_raw_from_inbound_link aq env port im =
     map_option
       (\<lambda>(r, im).
          (and_then r (\<lambda>frame.
             case frame of None \<Rightarrow> Inr None
             | Some (data, stamp, None) \<Rightarrow> Inl (NoInboundLinkBehindTheBag port)
             | Some (data, stamp, Some link) \<Rightarrow> Inr (Some (data, stamp, link))), im))
       (read_one_frame_unbounded aq env port im)"

subsection \<open>Readiness\<close>

datatype 'r port_readiness =
  AFrameIsWaiting
| NothingIsWaiting
| AWindowedPort "'r audio_window_accumulator" u64 bool

definition readiness_of :: "'q frame_queue_ops \<Rightarrow> ('q, 'r) port_config \<Rightarrow> 'r port_readiness" where
  "readiness_of aq pc =
     (if pc_staged_oversized pc \<noteq> None then AFrameIsWaiting
      else case pc_audio_windowing pc of
             NotWindowed \<Rightarrow> if mailbox_is_empty aq (pc_mailbox pc) then NothingIsWaiting else AFrameIsWaiting
           | AwaitingItsDeviceStreamFormat \<Rightarrow> NothingIsWaiting
           | Windowed stage \<Rightarrow>
               AWindowedPort stage (measure_total (pc_mailbox pc))
                 (mb_capacity (pc_mailbox pc) \<le> mailbox_len aq (pc_mailbox pc)))"

text \<open>The answer, and the port with what the question did to its stage.\<close>

definition a_read_would_return_something ::
    "'q frame_queue_ops \<Rightarrow> 'r window_env \<Rightarrow> ('q, 'r) port_config \<Rightarrow> bool \<times> ('q, 'r) port_config" where
  "a_read_would_return_something aq env pc =
     (case readiness_of aq pc of
        AFrameIsWaiting \<Rightarrow> (True, pc)
      | NothingIsWaiting \<Rightarrow> (False, pc)
      | AWindowedPort stage queued full \<Rightarrow>
          (case a_full_window_would_be_ready_after env (pc_latest_format pc) (unat queued) full stage of
             (ready, stage) \<Rightarrow> (ready, pc\<lparr>pc_audio_windowing := Windowed stage\<rparr>)))"

definition has_data ::
    "'q frame_queue_ops \<Rightarrow> 'r window_env \<Rightarrow> string \<Rightarrow> ('q, 'r) inner \<Rightarrow> (bool \<times> ('q, 'r) inner) option" where
  "has_data aq env port im = do {
     im \<leftarrow> receive_pending aq env im;
     Some (case map_of (im_ports im) port of
       None \<Rightarrow> (False, im)
     | Some pc \<Rightarrow> (case a_read_would_return_something aq env pc of (ready, pc) \<Rightarrow> (ready, put_port port pc im)))
   }"

text \<open>The windowed ports are asked only when no port has a frame waiting, and no further than the
  first that answers yes.\<close>

fun ask_windowed ::
    "'q frame_queue_ops \<Rightarrow> 'r window_env \<Rightarrow> (string \<times> ('q, 'r) port_config) list \<Rightarrow> ('q, 'r) inner \<Rightarrow>
      bool \<times> ('q, 'r) inner" where
  "ask_windowed aq env [] im = (False, im)"
| "ask_windowed aq env ((port, pc) # pcs) im =
     (case a_read_would_return_something aq env pc of
        (ready, pc) \<Rightarrow> if ready then (True, put_port port pc im) else ask_windowed aq env pcs (put_port port pc im))"

definition any_port_has_data ::
    "'q frame_queue_ops \<Rightarrow> 'r window_env \<Rightarrow> ('q, 'r) inner \<Rightarrow> (bool \<times> ('q, 'r) inner) option" where
  "any_port_has_data aq env im = do {
     im \<leftarrow> receive_pending aq env im;
     Some (if \<exists>(_, pc)\<in>set (im_ports im). readiness_of aq pc = AFrameIsWaiting then (True, im)
           else ask_windowed aq env
                  (filter (\<lambda>(_, pc). readiness_of aq pc \<noteq> NothingIsWaiting) (im_ports im)) im)
   }"

definition drain ::
    "'q frame_queue_ops \<Rightarrow> string \<Rightarrow> ('q, 'r) inner \<Rightarrow> (bytes list \<times> ('q, 'r) inner) option" where
  "drain aq port im =
     (case map_of (im_ports im) port of
        None \<Rightarrow> Some ([], im)
      | Some pc \<Rightarrow>
          map_option (\<lambda>(frames, mailbox). (frames, put_port port (pc\<lparr>pc_mailbox := mailbox\<rparr>) im))
            (mailbox_drain aq [] (pc_mailbox pc)))"

definition port_names :: "('q, 'r) inner \<Rightarrow> string list" where
  "port_names im = map fst (im_ports im)"

subsection \<open>The port table\<close>

lemma put_port_fields [simp]:
  "map_of (im_ports (put_port port pc im)) = (map_of (im_ports im))(port \<mapsto> pc)"
  "im_subscribers (put_port port pc im) = im_subscribers im" "im_counts (put_port port pc im) = im_counts im"
  "im_listener (put_port port pc im) = im_listener im"
  by (simp_all add: put_port_def update_conv')

lemma strip_header_whole:
  "read_payload_from_slice (payload f) = Some body \<Longrightarrow>
   \<exists>bag. strip_header port (delivered_of_frame f) = Inr bag \<and> rb_body bag = body"
  by (auto simp: strip_header_def delivered_of_frame_def read_payload_from_slice_Some_iff Let_def)

lemma next_ready_window_None: "next_ready_window env a = (Inr None, a') \<Longrightarrow> a' = a"
  by (auto simp: next_ready_window_def Let_def split: option.splits if_splits sum.splits)

lemma accept_all_Cons [simp]: "accept_all env (bag # bags) a = accept_all env bags (snd (accept env bag a))"
  by (simp add: accept_all_def)

lemma accept_all_Nil [simp]: "accept_all env [] a = a"
  by (simp add: accept_all_def)

context frame_queue
begin

lemma pop_one_bag_in_order:
  assumes "map_of (im_ports im) port = Some pc" "pc_read_mode pc = ReadNextInOrder"
  shows "contents (queue (pc_mailbox pc)) = [] \<Longrightarrow>
      \<exists>im'. pop_one_bag_off_the_mailbox aq port im = Some (Inr None, im')"
    "contents (queue (pc_mailbox pc)) = f # fs \<Longrightarrow>
      \<exists>mb. contents (queue mb) = fs \<and>
        pop_one_bag_off_the_mailbox aq port im =
          Some (and_then (strip_header port (delivered_of_frame f)) (\<lambda>bag. Inr (Some bag)),
                put_port port (pc\<lparr>pc_mailbox := mb\<rparr>) im)"
proof -
  assume "contents (queue (pc_mailbox pc)) = []"
  then show "\<exists>im'. pop_one_bag_off_the_mailbox aq port im = Some (Inr None, im')"
    using assms pop_empty by (simp add: pop_one_bag_off_the_mailbox_def mailbox_pop_def pop_frame_def)
next
  assume "contents (queue (pc_mailbox pc)) = f # fs"
  from pop_oldest [OF this] obtain q where
    "aq_pop aq (queue (pc_mailbox pc)) = Some (f, q)" "contents q = fs" by auto
  then show "\<exists>mb. contents (queue mb) = fs \<and>
        pop_one_bag_off_the_mailbox aq port im =
          Some (and_then (strip_header port (delivered_of_frame f)) (\<lambda>bag. Inr (Some bag)),
                put_port port (pc\<lparr>pc_mailbox := mb\<rparr>) im)"
    using assms by (intro exI [of _ "take_out_of_the_total f ((pc_mailbox pc)\<lparr>queue := q\<rparr>)"])
      (simp add: pop_one_bag_off_the_mailbox_def mailbox_pop_def pop_frame_def)
qed

lemma window_loop_finds:
  assumes "map_of (im_ports im) port = Some pc" "pc_read_mode pc = ReadNextInOrder"
    "map (\<lambda>f. read_payload_from_slice (payload f)) (contents (queue (pc_mailbox pc))) = map Some bodies"
    "fst (next_ready_window env (accept_all env bodies stage)) \<noteq> Inr None"
  shows "\<exists>r im'. next_window_out_of_the_stage aq env port stage im = Some (r, im') \<and> r \<noteq> Inr None"
  using assms
proof (induction bodies arbitrary: im pc stage)
  case Nil
  then show ?case
    by (subst next_window_out_of_the_stage.simps) (auto split: prod.splits sum.splits option.splits)
next
  case (Cons body bodies)
  obtain f fs where fs: "contents (queue (pc_mailbox pc)) = f # fs" "read_payload_from_slice (payload f) = Some body"
      "map (\<lambda>f. read_payload_from_slice (payload f)) fs = map Some bodies"
    using Cons(4) by (cases "contents (queue (pc_mailbox pc))") auto
  obtain mb where mb: "contents (queue mb) = fs"
      "pop_one_bag_off_the_mailbox aq port im =
        Some (and_then (strip_header port (delivered_of_frame f)) (\<lambda>bag. Inr (Some bag)),
              put_port port (pc\<lparr>pc_mailbox := mb\<rparr>) im)"
    using pop_one_bag_in_order(2) [OF Cons(2,3) fs(1)] by blast
  obtain bag where bag: "strip_header port (delivered_of_frame f) = Inr bag" "rb_body bag = body"
    using strip_header_whole [OF fs(2)] by blast
  let ?im = "put_port port (pc\<lparr>pc_mailbox := mb\<rparr>) im"
  have IH: "\<exists>r im'. next_window_out_of_the_stage aq env port (snd (accept env body stage)) ?im = Some (r, im') \<and> r \<noteq> Inr None"
    using Cons.IH [of ?im "pc\<lparr>pc_mailbox := mb\<rparr>" "snd (accept env body stage)"] Cons(3,5) mb(1) fs(3) by simp
  obtain r stage' where r: "next_ready_window env stage = (r, stage')" by (cases "next_ready_window env stage")
  show ?case
  proof (cases "r = Inr None")
    case True
    then have "next_ready_window env stage = (Inr None, stage)" using r next_ready_window_None by blast
    then have step: "next_window_out_of_the_stage aq env port stage im =
        (case accept env body stage of
           (Inl e, stage) \<Rightarrow> Some (Inl (WindowStage e), put_stage port stage ?im)
         | (Inr _, stage) \<Rightarrow> next_window_out_of_the_stage aq env port stage ?im)"
      using mb(2) bag by (subst next_window_out_of_the_stage.simps) simp
    obtain a stage2 where "accept env body stage = (a, stage2)" by (cases "accept env body stage")
    then show ?thesis using IH step by (cases a) simp_all
  next
    case False
    then show ?thesis using r
      by (subst next_window_out_of_the_stage.simps) (auto split: sum.splits option.splits)
  qed
qed

end

subsection \<open>A ready port\<close>

text \<open>A windowed port within a run: its stage came from some sequence of calls, and its mailbox holds
  whole frames of a contiguous stretch of audio in one format, measured as they arrived.\<close>

definition port_within_a_run ::
    "'r window_env \<Rightarrow> ('r \<Rightarrow> u32 \<Rightarrow> 'r \<Rightarrow> bool) \<Rightarrow> string \<Rightarrow> queued_frame list \<Rightarrow> u64 \<Rightarrow> read_mode \<Rightarrow>
      'r audio_window_accumulator \<Rightarrow> bool" where
  "port_within_a_run env state_of port fs queued_total mode stage \<longleftrightarrow>
     resampler_laws env state_of \<and> resampler_keeps_up env \<and> mode = ReadNextInOrder \<and>
     (\<exists>v c calls bodies blocks f.
        from_declared_values v = Inr c \<and> stage = after (stage_step env) calls (accumulator_new port c) \<and>
        map (\<lambda>f. read_payload_from_slice (payload f)) fs = map Some bodies \<and>
        map (read_an_audio_block_off_the_wire env) bodies = map Inr blocks \<and>
        (\<forall>b\<in>set blocks. block_format b = f \<and> whole_payload b) \<and> convertible c f \<and>
        sa_sample_rate f \<noteq> 0 \<and> sa_channels f \<noteq> 0 \<and> source_format stage \<in> {None, Some f} \<and>
        contiguous (expected_next_source_timestamp_ns stage) (gap_tolerance_ns stage) blocks \<and>
        (run_anchor_timestamp_ns stage \<noteq> None \<or> sa_sample_rate f = wc_sample_rate c) \<and>
        unat queued_total = (\<Sum>f\<leftarrow>fs. unat (frame_measure f)) \<and>
        (\<forall>f\<in>set fs. frame_measure f = fst (queued_audio_window_frame_measure env c (payload f) 0)))"

lemma measured_equivalents:
  assumes "map (\<lambda>f. read_payload_from_slice (payload f)) fs = map Some bodies"
    "map (read_an_audio_block_off_the_wire env) bodies = map Inr blocks"
    "\<forall>b\<in>set blocks. ab_sample_rate b \<noteq> 0 \<and> ab_channels b \<noteq> 0"
    "\<forall>f\<in>set fs. frame_measure f = fst (queued_audio_window_frame_measure env c (payload f) 0)"
  shows "(\<Sum>f\<leftarrow>fs. unat (frame_measure f)) = queued_equivalents c blocks"
  using assms
proof (induction blocks arbitrary: fs bodies)
  case Nil
  then have "bodies = []" by simp
  then show ?case using Nil by (simp add: queued_equivalents_def)
next
  case (Cons b blocks)
  obtain body bodies' where bodies: "bodies = body # bodies'" "read_an_audio_block_off_the_wire env body = Inr b"
      "map (read_an_audio_block_off_the_wire env) bodies' = map Inr blocks" using Cons(3) by (cases bodies) auto
  obtain f fs' where fs: "fs = f # fs'" "read_payload_from_slice (payload f) = Some body"
      "map (\<lambda>f. read_payload_from_slice (payload f)) fs' = map Some bodies'" using Cons(2) bodies(1) by (cases fs) auto
  let ?n = "unat (ab_sample_count b) * unat (wc_sample_rate c)"
  have "?n < 2 ^ 32 * 2 ^ 32" using unsigned_less [of "ab_sample_count b"] unsigned_less [of "wc_sample_rate c"]
    by (intro mult_strict_mono) simp_all
  then have "?n div unat (ab_sample_rate b) < 2 ^ 64"
    by (intro le_less_trans [OF div_le_dividend]) simp
  then have "unat (frame_measure f) = ?n div unat (ab_sample_rate b)"
    using Cons(4,5) fs(1,2) bodies(2) by (simp add: queued_audio_window_frame_measure_def unat_of_nat)
  then show ?case using Cons.IH [OF fs(3) bodies(3)] Cons(4,5) fs(1) by (simp add: queued_equivalents_def)
qed

lemma port_within_a_run_finds:
  assumes "port_within_a_run env state_of port fs queued_total mode stage"
    "fst (a_full_window_would_be_ready_after env latest (unat queued_total) full stage)"
  shows "mode = ReadNextInOrder \<and>
    (\<exists>bodies. map (\<lambda>f. read_payload_from_slice (payload f)) fs = map Some bodies \<and>
       fst (next_ready_window env (accept_all env bodies
         (snd (a_full_window_would_be_ready_after env latest (unat queued_total) full stage)))) \<noteq> Inr None)"
proof -
  obtain v c calls bodies blocks f where run: "resampler_laws env state_of" "resampler_keeps_up env" "mode = ReadNextInOrder"
      "from_declared_values v = Inr c" "stage = after (stage_step env) calls (accumulator_new port c)"
      "map (\<lambda>f. read_payload_from_slice (payload f)) fs = map Some bodies"
      "map (read_an_audio_block_off_the_wire env) bodies = map Inr blocks"
      "\<forall>b\<in>set blocks. block_format b = f \<and> whole_payload b" "convertible c f"
      "sa_sample_rate f \<noteq> 0" "sa_channels f \<noteq> 0" "source_format stage \<in> {None, Some f}"
      "contiguous (expected_next_source_timestamp_ns stage) (gap_tolerance_ns stage) blocks"
      "run_anchor_timestamp_ns stage \<noteq> None \<or> sa_sample_rate f = wc_sample_rate c"
      "unat queued_total = (\<Sum>f\<leftarrow>fs. unat (frame_measure f))"
      "\<forall>f\<in>set fs. frame_measure f = fst (queued_audio_window_frame_measure env c (payload f) 0)"
    using assms(1) unfolding port_within_a_run_def by blast
  note ok = from_declared_values_ok [OF run(4)]
  obtain s where rel: "stage_rel env port c stage s"
    using after_rel [OF run(1) ok stage_rel_new] run(5) by metis
  have "\<forall>b\<in>set blocks. ab_sample_rate b \<noteq> 0 \<and> ab_channels b \<noteq> 0"
    using run(8,10,11) by (auto simp: block_format_def)
  then have "unat queued_total = queued_equivalents c blocks"
    using measured_equivalents [OF run(6,7) _ run(16)] run(15) by simp
  then show ?thesis
    using promised_window [OF run(1,2) ok rel run(7-14)] assms(2) run(3,6) by metis
qed

lemma receive_pending_idle:
  assumes "\<forall>b\<in>set (im_subscribers im). ps_pending b = []"
  shows "receive_pending aq env im = Some im"
proof -
  have "receive_each aq env bs im = Some (bs, im)" if "\<forall>b\<in>set bs. ps_pending b = []" for bs
    using that
  proof (induction bs)
    case (Cons b bs)
    then have "b\<lparr>ps_pending := []\<rparr> = b" by (cases b) simp
    with Cons show ?case by simp
  qed simp
  then show ?thesis using assms by (simp add: receive_pending_def)
qed

context frame_queue
begin

lemma pop_latest_loop_some:
  "\<exists>mb'. pop_latest_loop aq latest mb =
     Some (if contents (queue mb) = [] then latest else Some (delivered_of_frame (last (contents (queue mb)))), mb')"
proof (induction "contents (queue mb)" arbitrary: latest mb)
  case Nil
  then show ?case using pop_empty [of "queue mb"] by (simp add: pop_latest_loop.simps [of aq latest] pop_frame_def)
next
  case (Cons f fs)
  obtain q where q: "aq_pop aq (queue mb) = Some (f, q)" "contents q = fs"
    using pop_oldest [OF Cons(2) [symmetric]] by auto
  let ?mb = "take_out_of_the_total f (mb\<lparr>queue := q\<rparr>)"
  have "pop_latest_loop aq latest mb = pop_latest_loop aq (Some (delivered_of_frame f)) ?mb"
    using q by (simp add: pop_latest_loop.simps [of aq latest mb] pop_frame_def)
  then show ?case using Cons(1) [of ?mb "Some (delivered_of_frame f)"] q Cons(2) [symmetric]
    by (cases "fs = []") simp_all
qed

lemma pop_one_bag_nonempty:
  assumes "map_of (im_ports im) port = Some pc" "contents (queue (pc_mailbox pc)) \<noteq> []"
  shows "\<exists>r im'. pop_one_bag_off_the_mailbox aq port im = Some (r, im') \<and> r \<noteq> Inr None"
proof (cases "pc_read_mode pc")
  case SkipToLatest
  obtain mb' where "pop_latest aq (pc_mailbox pc) =
      Some (Some (delivered_of_frame (last (contents (queue (pc_mailbox pc))))), mb')"
    using pop_latest_loop_some [of None "pc_mailbox pc"] assms(2) by (auto simp: pop_latest_def)
  then show ?thesis using assms(1) SkipToLatest
    by (cases "strip_header port (delivered_of_frame (last (contents (queue (pc_mailbox pc)))))")
       (simp_all add: pop_one_bag_off_the_mailbox_def)
next
  case ReadNextInOrder
  obtain f fs where "contents (queue (pc_mailbox pc)) = f # fs" using assms(2) by (cases "contents (queue (pc_mailbox pc))") auto
  from pop_one_bag_in_order(2) [OF assms(1) ReadNextInOrder this] show ?thesis
    by (cases "strip_header port (delivered_of_frame f)") auto
qed

end

subsection \<open>A frame kept back for a larger buffer\<close>

definition set_staged ::
    "string \<Rightarrow> bag_body_for_the_reader option \<Rightarrow> ('q, 'r) inner \<Rightarrow> ('q, 'r) inner" where
  "set_staged port staged im =
     (case map_of (im_ports im) port of
        Some pc \<Rightarrow> put_port port (pc\<lparr>pc_staged_oversized := staged\<rparr>) im | None \<Rightarrow> im)"

lemma put_port_put_port [simp]: "put_port port pc (put_port port pc' im) = put_port port pc im"
  by (simp add: put_port_def)

lemma update_commute:
  "k \<noteq> k' \<Longrightarrow> k \<in> fst ` set al \<Longrightarrow> k' \<in> fst ` set al \<Longrightarrow>
   AList.update k v (AList.update k' v' al) = AList.update k' v' (AList.update k v al)"
proof (induction al)
  case (Cons a al)
  then show ?case by (cases a) auto
qed simp

lemma map_of_eq_Some_imp_key: "map_of al k = Some v \<Longrightarrow> k \<in> fst ` set al"
  by (metis map_of_eq_None_iff option.distinct(1))

lemma put_port_commute:
  assumes "p \<noteq> p'" "map_of (im_ports im) p = Some a0" "map_of (im_ports im) p' = Some b0"
  shows "put_port p a (put_port p' b im) = put_port p' b (put_port p a im)"
  using update_commute [OF assms(1), of "im_ports im"] assms(2,3)
  by (simp add: put_port_def map_of_eq_Some_imp_key)

lemma put_port_counts [simp]:
  "put_port port pc (im\<lparr>im_counts := cs\<rparr>) = (put_port port pc im)\<lparr>im_counts := cs\<rparr>"
  "put_port port pc (im\<lparr>im_subscribers := bs\<rparr>) = (put_port port pc im)\<lparr>im_subscribers := bs\<rparr>"
  by (simp_all add: put_port_def)

lemma set_staged_subscribers [simp]:
  "set_staged port staged (im\<lparr>im_subscribers := bs\<rparr>) = (set_staged port staged im)\<lparr>im_subscribers := bs\<rparr>"
  "im_subscribers (set_staged port staged im) = im_subscribers im" "im_counts (set_staged port staged im) = im_counts im"
  by (simp_all add: set_staged_def split: option.split)

lemma push_into_port_staged:
  "push_into_port aq env raw link (pc\<lparr>pc_staged_oversized := staged\<rparr>, cs) =
   map_option (\<lambda>(pc, cs). (pc\<lparr>pc_staged_oversized := staged\<rparr>, cs)) (push_into_port aq env raw link (pc, cs))"
  by (cases "pc_audio_windowing pc") (auto simp: push_into_port_def option.map_comp intro!: option.map_cong split: option.splits)

lemma deliver_to_staged:
  "deliver_to aq env p raw link (set_staged port staged im) =
   map_option (set_staged port staged) (deliver_to aq env p raw link im)"
proof (cases "map_of (im_ports im) p")
  case None
  then show ?thesis by (cases "p = port") (auto simp: deliver_to_def set_staged_def split: option.split)
next
  case p: (Some pc)
  show ?thesis
  proof (cases "map_of (im_ports im) port")
    case None
    then have "p \<noteq> port" using p by auto
    then show ?thesis using None by (cases "push_into_port aq env raw link (pc, im_counts im)") (auto simp: deliver_to_def set_staged_def p)
  next
    case port: (Some pc')
    show ?thesis
    proof (cases "p = port")
      case True
      then show ?thesis using p
        by (cases "push_into_port aq env raw link (pc, im_counts im)") (auto simp: deliver_to_def set_staged_def push_into_port_staged)
    next
      case False
      then show ?thesis using p port
        by (cases "push_into_port aq env raw link (pc, im_counts im)")
          (auto simp: deliver_to_def set_staged_def put_port_commute [of p port])
    qed
  qed
qed

lemma receive_from_staged:
  "receive_from aq env bound rs (set_staged port staged im) =
   map_option (map_prod id (set_staged port staged)) (receive_from aq env bound rs im)"
proof (induction rs arbitrary: im)
  case (Cons r rs)
  show ?case
  proof (cases r)
    case (Sample raw)
    then show ?thesis using Cons
      by (cases "deliver_to aq env (ps_local_port bound) raw (Some (ps_dropped_bag_counter bound, ps_inbound_link_name bound)) im")
        (simp_all add: deliver_to_staged)
  qed simp
qed simp

lemma receive_each_staged:
  "receive_each aq env bs (set_staged port staged im) =
   map_option (map_prod id (set_staged port staged)) (receive_each aq env bs im)"
  by (induction bs arbitrary: im)
    (simp_all add: receive_from_staged bind_map_option map_option_bind case_prod_beta comp_def cong: Option.bind_cong split: bind_splits)

lemma receive_pending_staged:
  "receive_pending aq env (set_staged port staged im) = map_option (set_staged port staged) (receive_pending aq env im)"
  by (cases "receive_each aq env (im_subscribers im) im") (auto simp: receive_pending_def receive_each_staged)

text \<open>Every mailbox can hold a frame, and no frame is kept back on the ports of \<open>ps\<close>.\<close>

definition roomy :: "('q \<Rightarrow> nat) \<Rightarrow> string set \<Rightarrow> ('q, 'r) inner \<Rightarrow> bool" where
  "roomy room ps im \<longleftrightarrow>
     (\<forall>port pc. map_of (im_ports im) port = Some pc \<longrightarrow>
        0 < room (queue (pc_mailbox pc)) \<and> (port \<in> ps \<longrightarrow> pc_staged_oversized pc = None))"

lemma roomy_put_port:
  "roomy room ps im \<Longrightarrow> 0 < room (queue (pc_mailbox pc)) \<Longrightarrow> port \<notin> ps \<or> pc_staged_oversized pc = None \<Longrightarrow>
   roomy room ps (put_port port pc im)"
  by (auto simp: roomy_def)

lemma roomy_fields [simp]:
  "roomy room ps (im\<lparr>im_counts := cs\<rparr>) = roomy room ps im"
  "roomy room ps (im\<lparr>im_subscribers := bs\<rparr>) = roomy room ps im"
  by (simp_all add: roomy_def)

lemma roomy_put_stage: "roomy room ps im \<Longrightarrow> roomy room ps (put_stage port stage im)"
  by (auto simp: put_stage_def roomy_def split: option.split)

lemma roomy_unstaged:
  "roomy room {port} im \<Longrightarrow> set_staged port None im = im"
  by (auto simp: roomy_def set_staged_def put_port_def split: option.split intro!: input_mailboxes_inner.equality update_triv)

context frame_queue
begin

lemma evict_oldest_shrinks:
  "contents (queue (fst st)) \<noteq> [] \<Longrightarrow>
   length (contents (queue (fst (evict_oldest aq st)))) < length (contents (queue (fst st))) \<and>
   room (queue (fst (evict_oldest aq st))) = room (queue (fst st))"
proof -
  assume "contents (queue (fst st)) \<noteq> []"
  then obtain f fs where "contents (queue (fst st)) = f # fs" by (cases "contents (queue (fst st))") auto
  with pop_oldest [OF this] show ?thesis by (auto simp: evict_oldest_def split: prod.split)
qed

lemma push_frame_ends:
  "0 < room (queue (fst st)) \<Longrightarrow>
   \<exists>st'. push_frame aq frame st = Some st' \<and> room (queue (fst st')) = room (queue (fst st))"
proof (induction "length (contents (queue (fst st)))" arbitrary: st rule: less_induct)
  case less
  show ?case
  proof (cases "length (contents (queue (fst st))) < room (queue (fst st))")
    case True
    from push_room [OF this, of frame] show ?thesis
      by (auto simp: push_frame.simps [of aq frame st] Let_def)
  next
    case False
    then have full: "aq_push aq (queue (fst st)) frame = Inl frame" "contents (queue (fst st)) \<noteq> []"
      using push_full [of "queue (fst st)" frame] less.prems by auto
    from less.hyps [of "evict_oldest aq st"] evict_oldest_shrinks [OF full(2)] less.prems
    show ?thesis using full(1) by (auto simp: push_frame.simps [of aq frame st])
  qed
qed

lemma push_into_port_ends:
  assumes "0 < room (queue (pc_mailbox pc))"
  shows "\<exists>pc' cs'. push_into_port aq env raw link (pc, cs) = Some (pc', cs') \<and>
    room (queue (pc_mailbox pc')) = room (queue (pc_mailbox pc)) \<and> pc_staged_oversized pc' = pc_staged_oversized pc"
  using push_frame_ends [of "(pc_mailbox pc, cs, pc_already_said pc)"] assms
  by (cases link) (fastforce simp: push_into_port_def push_frame_from_inbound_link_def
      push_frame_without_inbound_link_attribution_def)+

lemma deliver_to_ends:
  assumes "roomy room ps im"
  shows "\<exists>im'. deliver_to aq env port raw link im = Some im' \<and> roomy room ps im' \<and>
    dom (map_of (im_ports im')) = dom (map_of (im_ports im))"
proof (cases "map_of (im_ports im) port")
  case (Some pc)
  then have "0 < room (queue (pc_mailbox pc))" "port \<in> ps \<longrightarrow> pc_staged_oversized pc = None"
    using assms by (auto simp: roomy_def)
  with push_into_port_ends [of pc env raw link "im_counts im"] assms Some show ?thesis
    by (auto simp: deliver_to_def intro!: roomy_put_port)
qed (use assms in \<open>simp add: deliver_to_def\<close>)

lemma receive_from_ends:
  "roomy room ps im \<Longrightarrow>
   \<exists>rest im'. receive_from aq env bound rs im = Some (rest, im') \<and> roomy room ps im' \<and>
     dom (map_of (im_ports im')) = dom (map_of (im_ports im))"
proof (induction rs arbitrary: im)
  case (Cons r rs)
  show ?case
  proof (cases r)
    case (Sample raw)
    from deliver_to_ends [OF Cons.prems] obtain im1 where
      "deliver_to aq env (ps_local_port bound) raw (Some (ps_dropped_bag_counter bound, ps_inbound_link_name bound)) im = Some im1"
      "roomy room ps im1" "dom (map_of (im_ports im1)) = dom (map_of (im_ports im))" by blast
    then show ?thesis using Cons.IH [OF Cons.prems] Cons.IH [of im1] Sample by auto
  qed (use Cons.prems in simp)
qed simp

lemma receive_pending_ends:
  assumes "roomy room ps im"
  shows "\<exists>im'. receive_pending aq env im = Some im' \<and> roomy room ps im' \<and>
    dom (map_of (im_ports im')) = dom (map_of (im_ports im))"
proof -
  have "\<exists>bs' im'. receive_each aq env bs im = Some (bs', im') \<and> roomy room ps im' \<and>
    dom (map_of (im_ports im')) = dom (map_of (im_ports im))" if "roomy room ps im" for bs im
    using that
  proof (induction bs arbitrary: im)
    case (Cons b bs)
    from receive_from_ends [OF Cons.prems] obtain rest im1 where
      1: "receive_from aq env b (ps_pending b) im = Some (rest, im1)" "roomy room ps im1"
        "dom (map_of (im_ports im1)) = dom (map_of (im_ports im))" by blast
    from Cons.IH [OF 1(2)] show ?case using 1(1,3) by auto
  qed simp
  from this [OF assms, of "im_subscribers im"] show ?thesis by (auto simp: receive_pending_def)
qed

lemma pop_frame_room: "pop_frame aq mb = Some (f, mb') \<Longrightarrow> room (queue mb') = room (queue mb)"
  using pop_empty [of "queue mb"] pop_oldest [of "queue mb"]
  by (cases "contents (queue mb)") (auto simp: pop_frame_def)

lemma pop_latest_loop_room:
  "pop_latest_loop aq latest mb = Some (r, mb') \<Longrightarrow> room (queue mb') = room (queue mb)"
proof (induction "length (contents (queue mb))" arbitrary: latest mb)
  case 0
  then show ?case using pop_empty [of "queue mb"] by (simp add: pop_latest_loop.simps [of aq latest] pop_frame_def)
next
  case (Suc n)
  then obtain f fs where fs: "contents (queue mb) = f # fs" by (cases "contents (queue mb)") auto
  from pop_oldest [OF this] obtain q where q: "aq_pop aq (queue mb) = Some (f, q)" "contents q = fs" "room q = room (queue mb)"
    by auto
  let ?mb = "take_out_of_the_total f (mb\<lparr>queue := q\<rparr>)"
  have "pop_latest_loop aq (Some (delivered_of_frame f)) ?mb = Some (r, mb')"
    using q Suc(3) by (simp add: pop_latest_loop.simps [of aq latest mb] pop_frame_def)
  from Suc(1) [OF _ this] show ?case using Suc(2) fs q by simp
qed

lemma pop_one_bag_roomy:
  assumes "pop_one_bag_off_the_mailbox aq port im = Some (r, im')" "roomy room ps im"
  shows "roomy room ps im'"
proof (cases "map_of (im_ports im) port")
  case (Some pc)
  then have pc: "0 < room (queue (pc_mailbox pc))" "port \<in> ps \<longrightarrow> pc_staged_oversized pc = None"
    using assms(2) by (auto simp: roomy_def)
  obtain raw mb where mb: "(case pc_read_mode pc of SkipToLatest \<Rightarrow> pop_latest aq (pc_mailbox pc)
      | ReadNextInOrder \<Rightarrow> Some (mailbox_pop aq (pc_mailbox pc))) = Some (raw, mb)"
      "im' = put_port port (pc\<lparr>pc_mailbox := mb\<rparr>) im"
    using assms(1) Some by (auto simp: pop_one_bag_off_the_mailbox_def Let_def split: bind_splits option.splits)
  then have "room (queue mb) = room (queue (pc_mailbox pc))"
    using pop_latest_loop_room pop_frame_room
    by (auto simp: pop_latest_def mailbox_pop_def split: read_mode.splits option.splits)
  then show ?thesis using pc assms(2) mb(2) by (auto intro!: roomy_put_port)
qed (use assms in \<open>simp add: pop_one_bag_off_the_mailbox_def\<close>)

lemma next_window_roomy:
  assumes "next_window_out_of_the_stage aq env port stage im = Some (r, im')" "roomy room ps im"
  shows "roomy room ps im'"
proof -
  let ?P = "\<lambda>aq' env port stage im out. aq' = aq \<longrightarrow> roomy room ps im \<longrightarrow> roomy room ps (snd out)"
  have "?P aq env port stage im (r, im')"
    by (rule next_window_out_of_the_stage.raw_induct [where P = ?P, OF _ assms(1)])
      (auto intro!: roomy_put_stage dest: pop_one_bag_roomy split: prod.splits sum.splits option.splits)
  then show ?thesis using assms(2) by simp
qed

end

subsection \<open>Properties\<close>

lemma read_raw_finds:
  assumes "receive_pending aq env im = Some im1" "map_of (im_ports im1) port = Some pc"
    "case pc_staged_oversized pc of Some staged \<Rightarrow> True
     | None \<Rightarrow> (case pc_audio_windowing pc of
           NotWindowed \<Rightarrow> \<exists>r im'. pop_one_bag_off_the_mailbox aq port (put_port port pc im1) = Some (r, im') \<and> r \<noteq> Inr None
         | AwaitingItsDeviceStreamFormat \<Rightarrow> False
         | Windowed stage \<Rightarrow> \<exists>r im'. next_window_out_of_the_stage aq env port stage (put_port port pc im1) = Some (r, im') \<and> r \<noteq> Inr None)"
  shows "\<exists>r im2. read_raw aq env port im = Some (r, im2) \<and> r \<noteq> Inr None"
proof -
  let ?im = "put_port port (pc\<lparr>pc_staged_oversized := None\<rparr>) im1"
  have pc: "pc\<lparr>pc_staged_oversized := None\<rparr> = pc" if "pc_staged_oversized pc = None" using that by (cases pc) simp
  obtain candidate im' where "(case pc_staged_oversized pc of
               Some staged \<Rightarrow> Some (Inr (Some staged), ?im)
             | None \<Rightarrow>
                 (case pc_audio_windowing pc of
                    NotWindowed \<Rightarrow> pop_one_bag_off_the_mailbox aq port ?im
                  | AwaitingItsDeviceStreamFormat \<Rightarrow> Some (Inr None, ?im)
                  | Windowed stage \<Rightarrow> next_window_out_of_the_stage aq env port stage ?im)) = Some (candidate, im')"
      "candidate \<noteq> Inr None"
    using assms(3) by (auto simp: pc split: option.splits installed_input_port_audio_windowing.splits)
  then show ?thesis using assms(1,2)
    by (auto simp: read_raw_def read_one_frame_unbounded_def read_raw_bounded_def Let_def split: sum.splits option.splits)
qed

text \<open>C18: the readiness question is not answered yes in vain. With nothing new arriving in between, an
  input port for which \<open>has_data\<close> says yes gives its next read something: a frame kept back for a
  larger buffer, a queued frame, or, on a windowed port within a run, a window; the read ends, and
  never says that nothing is there.\<close>

theorem a_ready_port_is_read:
  assumes "bounded_queue aq contents room" "\<forall>b\<in>set (im_subscribers im). ps_pending b = []"
    "map_of (im_ports im) port = Some pc"
    "case pc_audio_windowing pc of
       Windowed stage \<Rightarrow> port_within_a_run env state_of port (contents (queue (pc_mailbox pc)))
         (measure_total (pc_mailbox pc)) (pc_read_mode pc) stage
     | _ \<Rightarrow> True"
    "has_data aq env port im = Some (True, im1)"
  shows "\<exists>r im2. read_raw aq env port im1 = Some (r, im2) \<and> r \<noteq> Inr None"
proof -
  have frame_queue: "frame_queue aq contents room" using assms(1) by (simp add: frame_queue_def)
  obtain pc1 where pc1: "a_read_would_return_something aq env pc = (True, pc1)" "im1 = put_port port pc1 im"
    using assms(2,3,5) by (auto simp: has_data_def receive_pending_idle split: prod.splits)
  have idle: "receive_pending aq env im1 = Some im1" using assms(2) pc1(2) by (simp add: receive_pending_idle)
  have port1: "map_of (im_ports im1) port = Some pc1" by (simp add: pc1(2))
  show ?thesis
  proof (cases "pc_staged_oversized pc1")
    case Some
    then show ?thesis by (intro read_raw_finds [OF idle port1]) simp
  next
    case None
    show ?thesis
    proof (cases "pc_audio_windowing pc")
      case NotWindowed
      then have "contents (queue (pc_mailbox pc)) \<noteq> []" "pc1 = pc"
        using pc1(1) None bounded_queue.is_empty_queue [OF assms(1)]
        by (auto simp: a_read_would_return_something_def readiness_of_def mailbox_is_empty_def split: if_splits)
      then have "\<exists>r im'. pop_one_bag_off_the_mailbox aq port (put_port port pc1 im1) = Some (r, im') \<and> r \<noteq> Inr None"
        by (intro frame_queue.pop_one_bag_nonempty [OF frame_queue, of _ _ pc]) simp_all
      then show ?thesis using None NotWindowed \<open>pc1 = pc\<close> by (intro read_raw_finds [OF idle port1]) simp
    next
      case AwaitingItsDeviceStreamFormat
      then show ?thesis using pc1(1) None
        by (auto simp: a_read_would_return_something_def readiness_of_def split: if_splits)
    next
      case (Windowed stage)
      let ?mb = "pc_mailbox pc"
      let ?ask = "a_full_window_would_be_ready_after env (pc_latest_format pc) (unat (measure_total ?mb))
          (mb_capacity ?mb \<le> mailbox_len aq ?mb) stage"
      have ask: "fst ?ask" "pc1 = pc\<lparr>pc_audio_windowing := Windowed (snd ?ask)\<rparr>"
        using pc1(1) None Windowed
        by (auto simp: a_read_would_return_something_def readiness_of_def split: if_splits prod.splits)
      obtain bodies where bodies: "pc_read_mode pc = ReadNextInOrder"
          "map (\<lambda>f. read_payload_from_slice (payload f)) (contents (queue ?mb)) = map Some bodies"
          "fst (next_ready_window env (accept_all env bodies (snd ?ask))) \<noteq> Inr None"
        using assms(4) ask(1) Windowed by (auto dest: port_within_a_run_finds)
      have "\<exists>r im'. next_window_out_of_the_stage aq env port (snd ?ask) (put_port port pc1 im1) = Some (r, im') \<and> r \<noteq> Inr None"
        using bodies ask(2) by (intro frame_queue.window_loop_finds [OF frame_queue, of _ _ pc1 bodies]) simp_all
      then show ?thesis using None ask(2) by (intro read_raw_finds [OF idle port1]) simp
    qed
  qed
qed

definition sample_frame :: queued_frame where
  "sample_frame = \<lparr>payload = frame_header_bytes \<lparr>fh_port_key = port_key_default, fh_timestamp_ns = 0, fh_len = 12\<rparr> @ sample_bag,
                   dropped_bag_counter = None, inbound_link = None, frame_measure = 1\<rparr>"

definition sample_port :: "(nat \<times> queued_frame list, sample_resampler) port_config" where
  "sample_port = \<lparr>pc_mailbox = \<lparr>queue = (2, [sample_frame]), mb_capacity = 2, measure_fn = None, measure_total = 1,
                                 eviction_notice = None\<rparr>,
                  pc_read_mode = ReadNextInOrder, pc_staged_oversized = None, pc_audio_windowing = Windowed sample_stage,
                  pc_latest_format = 0, pc_already_said = False\<rparr>"

definition sample_inner :: "(nat \<times> queued_frame list, sample_resampler) inner" where
  "sample_inner = put_port ''in'' sample_port inner_new"

lemma sample_frame_payload: "read_payload_from_slice (payload sample_frame) = Some sample_bag"
  by (simp add: sample_frame_def read_payload_from_slice_Some_iff read_from_slice_frame_header_bytes length_frame_header_bytes
      port_key_wf_def port_key_default_def sample_bag_def)

lemma sample_bag_reads: "read_an_audio_block_off_the_wire sample_window_env sample_bag = Inr sample_block"
  by (simp add: read_an_audio_block_off_the_wire_def sample_window_env_def expected_payload_bytes_def sample_block_def
      sample_bag_def of_le_bytes_le_bytes Let_def)

lemma sample_port_within_a_run:
  "port_within_a_run sample_window_env sample_state_of ''in'' [sample_frame] 1 ReadNextInOrder sample_stage"
  unfolding port_within_a_run_def
proof (intro conjI exI)
  show "resampler_laws sample_window_env sample_state_of" "resampler_keeps_up sample_window_env"
    by (rule sample_resampler_laws sample_keeps_up)+
  show "from_declared_values sample_declaration = Inr sample_contract" by (rule sample_declaration_resolves)
  show "sample_stage = after (stage_step sample_window_env) [Accept [0, 0, 0, 0, 0, 0, 0, 0, 1, 0, 0, 0]]
     (accumulator_new ''in'' sample_contract)" by (rule sample_stage_def)
  show "map (\<lambda>f. read_payload_from_slice (payload f)) [sample_frame] = map Some [sample_bag]"
    using sample_frame_payload by simp
  show "map (read_an_audio_block_off_the_wire sample_window_env) [sample_bag] = map Inr [sample_block]"
    using sample_bag_reads by simp
  show "\<forall>f\<in>set [sample_frame].
      frame_measure f = fst (queued_audio_window_frame_measure sample_window_env sample_contract (payload f) 0)"
    using sample_frame_payload sample_bag_reads
    by (simp add: queued_audio_window_frame_measure_def sample_block_def sample_contract_def sample_frame_def)
qed (simp_all add: sample_stage_eq block_format_def whole_payload_def sample_block_def convertible_def sample_contract_def
        channels_a_window_carries_from_def i64_abs_diff_def sample_frame_def)

theorem a_ready_port_is_read_witness:
  "\<exists>im1 r im2. has_data list_queue_ops sample_window_env ''in'' sample_inner = Some (True, im1) \<and>
     read_raw list_queue_ops sample_window_env ''in'' im1 = Some (r, im2) \<and> r \<noteq> Inr None"
proof -
  have port: "map_of (im_ports sample_inner) ''in'' = Some sample_port" by (simp add: sample_inner_def)
  have idle: "\<forall>b\<in>set (im_subscribers sample_inner). ps_pending b = []" by (simp add: sample_inner_def inner_new_def)
  have "queued_equivalents sample_contract [sample_block] = 1"
    by (simp add: queued_equivalents_def sample_contract_def sample_block_def)
  then have "fst (a_read_would_return_something list_queue_ops sample_window_env sample_port)"
    using sample_stage_ready
    by (simp add: a_read_would_return_something_def readiness_of_def sample_port_def mailbox_len_def list_queue_ops_def case_prod_beta)
  then obtain im1 where im1: "has_data list_queue_ops sample_window_env ''in'' sample_inner = Some (True, im1)"
    using port by (cases "a_read_would_return_something list_queue_ops sample_window_env sample_port")
      (simp add: has_data_def receive_pending_idle [OF idle])
  from a_ready_port_is_read [OF list_queue.bounded_queue_axioms idle port _ im1] sample_port_within_a_run
  show ?thesis using im1 by (simp add: sample_port_def)
qed

lemma staged_then_read:
  assumes "receive_pending aq env im = Some im'" "set_staged port None im' = im'" "map_of (im_ports im') port \<noteq> None"
    "length (rb_body bag) \<le> cap"
  shows "read_raw_bounded aq env port cap (set_staged port (Some bag) im) =
    Some (Inr (Frame (rb_body bag) (first_sample_or_publish_timestamp_ns bag) (rb_inbound_link_name bag)), im')"
proof -
  obtain pc where pc: "map_of (im_ports im') port = Some pc" using assms(3) by blast
  then have "receive_pending aq env (set_staged port (Some bag) im) =
      Some (put_port port (pc\<lparr>pc_staged_oversized := Some bag\<rparr>) im')"
    using assms(1) receive_pending_staged [of aq env port "Some bag" im] by (simp add: set_staged_def [of _ _ im'])
  moreover have "put_port port (pc\<lparr>pc_staged_oversized := None\<rparr>) im' = im'"
    using assms(2) pc by (simp add: set_staged_def)
  ultimately show ?thesis using assms(4) by (simp add: read_raw_bounded_def Let_def)
qed

text \<open>C17: growing the buffer and asking again loses nothing. When a bounded read finds a frame too large
  for the caller's buffer, it says how many bytes are needed; a read with that many would have given
  a frame of exactly that length; and asking again with that many gives that same frame, whatever
  has arrived on the subscribers in between, and leaves the state in which the larger buffer would
  have left it, but for what has arrived.\<close>

theorem grow_and_retry_loses_nothing:
  assumes "bounded_queue aq contents room" "\<forall>port pc. map_of (im_ports im) port = Some pc \<longrightarrow> 0 < room (queue (pc_mailbox pc))"
    "read_raw_bounded aq env port small im = Some (Inr (NeedsLargerBuffer needed), im1)" "needed \<le> cap"
  shows "small < needed \<and>
    (\<exists>data stamp link imU. length data = needed \<and>
       read_raw_bounded aq env port cap im = Some (Inr (Frame data stamp link), imU) \<and>
       (\<forall>arrived. \<exists>im2. receive_pending aq env (imU\<lparr>im_subscribers := arrived\<rparr>) = Some im2 \<and>
          read_raw_bounded aq env port cap (im1\<lparr>im_subscribers := arrived\<rparr>) = Some (Inr (Frame data stamp link), im2)))"
proof -
  have frame_queue: "frame_queue aq contents room" using assms(1) by (simp add: frame_queue_def)
  have "roomy room {} im" using assms(2) by (simp add: roomy_def)
  from frame_queue.receive_pending_ends [OF frame_queue this] obtain im0 where
    im0: "receive_pending aq env im = Some im0" "roomy room {} im0" by blast
  obtain pc where pc: "map_of (im_ports im0) port = Some pc"
    using assms(3) im0(1) by (auto simp: read_raw_bounded_def split: option.splits)
  let ?im = "put_port port (pc\<lparr>pc_staged_oversized := None\<rparr>) im0"
  let ?candidate = "case pc_staged_oversized pc of
               Some staged \<Rightarrow> Some (Inr (Some staged), ?im)
             | None \<Rightarrow>
                 (case pc_audio_windowing pc of
                    NotWindowed \<Rightarrow> pop_one_bag_off_the_mailbox aq port ?im
                  | AwaitingItsDeviceStreamFormat \<Rightarrow> Some (Inr None, ?im)
                  | Windowed stage \<Rightarrow> next_window_out_of_the_stage aq env port stage ?im)"
  have start: "roomy room {port} ?im" using im0(2) pc by (auto simp: roomy_def)
  obtain bag imC pcC where c: "?candidate = Some (Inr (Some bag), imC)" "map_of (im_ports imC) port = Some pcC"
      "small < length (rb_body bag)" "needed = length (rb_body bag)" "im1 = set_staged port (Some bag) imC"
    using assms(3) im0(1) pc
    by (auto simp: read_raw_bounded_def Let_def set_staged_def split: bind_splits sum.splits option.splits if_splits)
  have roomy: "roomy room {port} imC"
    using c(1) start frame_queue.next_window_roomy [OF frame_queue] frame_queue.pop_one_bag_roomy [OF frame_queue]
    by (auto split: option.splits installed_input_port_audio_windowing.splits)
  let ?frame = "Frame (rb_body bag) (first_sample_or_publish_timestamp_ns bag) (rb_inbound_link_name bag)"
  have "read_raw_bounded aq env port cap im = Some (Inr ?frame, imC)"
    using im0(1) pc c(1,4) assms(4) by (simp add: read_raw_bounded_def Let_def)
  moreover have "\<exists>im2. receive_pending aq env (imC\<lparr>im_subscribers := arrived\<rparr>) = Some im2 \<and>
      read_raw_bounded aq env port cap (im1\<lparr>im_subscribers := arrived\<rparr>) = Some (Inr ?frame, im2)" for arrived
  proof -
    from frame_queue.receive_pending_ends [OF frame_queue, of "{port}" "imC\<lparr>im_subscribers := arrived\<rparr>" env] roomy
    obtain im2 where im2: "receive_pending aq env (imC\<lparr>im_subscribers := arrived\<rparr>) = Some im2" "roomy room {port} im2"
      "dom (map_of (im_ports im2)) = dom (map_of (im_ports imC))" by auto
    then have "map_of (im_ports im2) port \<noteq> None" using c(2) by (metis domIff option.distinct(1))
    from staged_then_read [OF im2(1) roomy_unstaged [OF im2(2)] this] show ?thesis using im2(1) c(4,5) assms(4) by auto
  qed
  ultimately show ?thesis using c(3,4) by blast
qed

lemma strip_sample_frame:
  "strip_header ''in'' (delivered_of_frame sample_frame) =
   Inr \<lparr>rb_body = sample_bag, first_sample_or_publish_timestamp_ns = 0, rb_inbound_link_name = None\<rparr>"
  by (simp add: strip_header_def delivered_of_frame_def sample_frame_def read_from_slice_frame_header_bytes
      length_frame_header_bytes port_key_wf_def port_key_default_def sample_bag_def)

theorem grow_and_retry_loses_nothing_witness:
  "\<exists>im1 im2 stamp link. read_raw_bounded list_queue_ops sample_window_env ''in'' 4
       (put_port ''in'' (sample_port\<lparr>pc_audio_windowing := NotWindowed\<rparr>) inner_new) = Some (Inr (NeedsLargerBuffer 12), im1) \<and>
     read_raw_bounded list_queue_ops sample_window_env ''in'' 16 im1 = Some (Inr (Frame sample_bag stamp link), im2)"
proof -
  let ?im = "put_port ''in'' (sample_port\<lparr>pc_audio_windowing := NotWindowed\<rparr>) inner_new"
  have idle: "receive_pending list_queue_ops sample_window_env ?im = Some ?im"
    by (simp add: receive_pending_idle inner_new_def)
  have pop: "mailbox_pop list_queue_ops (pc_mailbox sample_port) = (Some (delivered_of_frame sample_frame),
      take_out_of_the_total sample_frame ((pc_mailbox sample_port)\<lparr>queue := (2, [])\<rparr>))"
    by (simp add: mailbox_pop_def pop_frame_def sample_port_def list_queue_ops_def)
  have len: "length sample_bag = 12" by (simp add: sample_bag_def)
  have read: "\<exists>im1. read_raw_bounded list_queue_ops sample_window_env ''in'' cap ?im =
      Some (Inr (if 12 \<le> cap then Frame sample_bag 0 None else NeedsLargerBuffer 12), im1)" for cap
    using idle pop strip_sample_frame len
    by (simp add: read_raw_bounded_def pop_one_bag_off_the_mailbox_def sample_port_def Let_def)
  obtain im1 where im1: "read_raw_bounded list_queue_ops sample_window_env ''in'' 4 ?im = Some (Inr (NeedsLargerBuffer 12), im1)"
    using read [of 4] by auto
  have "\<forall>port pc. map_of (im_ports ?im) port = Some pc \<longrightarrow> 0 < fst (queue (pc_mailbox pc))"
    by (simp add: inner_new_def sample_port_def)
  from grow_and_retry_loses_nothing [OF list_queue.bounded_queue_axioms this im1, of 16] read [of 16]
  have "\<forall>arrived. \<exists>im2. read_raw_bounded list_queue_ops sample_window_env ''in'' 16 (im1\<lparr>im_subscribers := arrived\<rparr>) =
      Some (Inr (Frame sample_bag 0 None), im2)" by fastforce
  from spec [OF this, of "im_subscribers im1"] show ?thesis using im1 by auto
qed

end
