(* ===== verification/Annex_B.thy ===== *)
theory Annex_B
  imports Prelude "HOL-Library.Sublist"
begin

text \<open>
  Annex-B access units and the length-prefixed samples of an MP4 track
  (\<open>runtime/streamlib-media-builtins/src/mp4_annex_b_access_unit.rs\<close>), with the engine's scanner for start
  codes (\<open>vulkan/video/nv_video_parser/byte_stream_parser.rs\<close>). The reference is a list of start codes
  and NAL units: splitting inverts it, and the two conversions invert each other.
\<close>

unbundle bit_operations_syntax

subsection \<open>The start-code scanner\<close>

record start_code_finder =
  bit_bfr :: u32

record start_code_search_result =
  bytes_consumed :: nat
  search_found :: bool

definition start_code_finder_new :: start_code_finder where
  "start_code_finder_new = \<lparr>bit_bfr = NOT 0\<rparr>"

definition at_start_code :: "u32 \<Rightarrow> bool" where
  "at_start_code bfr \<longleftrightarrow> bfr AND 0x00ffffff = 1"

fun scan_start_code :: "u32 \<Rightarrow> bytes \<Rightarrow> u32 \<times> nat" where
  "scan_start_code bfr [] = (bfr, 0)"
| "scan_start_code bfr (b # bs) =
     (let bfr = push_bit 8 bfr OR ucast b
      in if at_start_code bfr then (bfr, 1)
         else if bs = [] then (bfr, 1)
         else map_prod id Suc (scan_start_code bfr bs))"

text \<open>\<open>None\<close> is the assertion that the data is not empty.\<close>

definition next_start_code ::
    "bytes \<Rightarrow> start_code_finder \<Rightarrow> (start_code_search_result \<times> start_code_finder) option" where
  "next_start_code data finder =
     (if data = [] then None
      else case scan_start_code (bit_bfr finder) data of
             (bfr, i) \<Rightarrow> Some (\<lparr>bytes_consumed = i, search_found = at_start_code bfr\<rparr>, finder\<lparr>bit_bfr := bfr\<rparr>))"

lemma scan_start_code_consumes: "data \<noteq> [] \<Longrightarrow> 0 < snd (scan_start_code bfr data)"
  by (cases data) (auto simp: Let_def)

lemma next_start_code_consumes:
  "next_start_code data finder = Some (search, finder') \<Longrightarrow> 0 < bytes_consumed search"
  using scan_start_code_consumes [of data "bit_bfr finder"]
  by (auto simp: next_start_code_def split: if_splits prod.splits)

subsection \<open>Splitting an access unit\<close>

function find_nal_unit_starts :: "bytes \<Rightarrow> nat \<Rightarrow> start_code_finder \<Rightarrow> nat list" where
  "find_nal_unit_starts access_unit offset finder =
     (if offset < length access_unit
      then case next_start_code (drop offset access_unit) finder of
             None \<Rightarrow> []
           | Some (search, finder) \<Rightarrow>
               (let offset = offset + bytes_consumed search
                in (if search_found search then [offset] else []) @ find_nal_unit_starts access_unit offset finder)
      else [])"
  by pat_completeness auto

termination
  by (relation "measure (\<lambda>(access_unit, offset, _). length access_unit - offset)")
    (auto dest!: next_start_code_consumes)

declare find_nal_unit_starts.simps [simp del]

definition nal_unit_end :: "bytes \<Rightarrow> nat \<Rightarrow> nat option \<Rightarrow> nat" where
  "nal_unit_end access_unit nal_unit_start next_start =
     (case next_start of
        Some next_start \<Rightarrow>
          (let three_byte_prefix_start = next_start - 3
           in if nal_unit_start < three_byte_prefix_start \<and> access_unit ! (three_byte_prefix_start - 1) = 0
              then three_byte_prefix_start - 1 else three_byte_prefix_start)
      | None \<Rightarrow> length access_unit)"

fun cut_nal_units :: "bytes \<Rightarrow> nat list \<Rightarrow> bytes list" where
  "cut_nal_units access_unit [] = []"
| "cut_nal_units access_unit (start # starts) =
     (let stop = nal_unit_end access_unit start (case starts of [] \<Rightarrow> None | s # _ \<Rightarrow> Some s)
      in (if start < stop then [take (stop - start) (drop start access_unit)] else []) @
         cut_nal_units access_unit starts)"

definition split_annex_b_access_unit_into_nal_units :: "bytes \<Rightarrow> bytes list" where
  "split_annex_b_access_unit_into_nal_units access_unit =
     cut_nal_units access_unit (find_nal_unit_starts access_unit 0 start_code_finder_new)"

subsection \<open>NAL headers and parameter sets\<close>

datatype annex_b_nal_header_grammar = GrammarH264 | GrammarH265

definition ANNEX_B_START_CODE :: bytes where
  "ANNEX_B_START_CODE = [0, 0, 0, 1]"

fun nal_unit_header_bytes :: "annex_b_nal_header_grammar \<Rightarrow> nat" where
  "nal_unit_header_bytes GrammarH264 = 1"
| "nal_unit_header_bytes GrammarH265 = 2"

fun nal_unit_type :: "annex_b_nal_header_grammar \<Rightarrow> bytes \<Rightarrow> u8 option" where
  "nal_unit_type grammar nal =
     (if length nal < nal_unit_header_bytes grammar then None
      else case grammar of
             GrammarH264 \<Rightarrow> Some (hd nal AND 0x1F)
           | GrammarH265 \<Rightarrow> Some (drop_bit 1 (hd nal) AND 0x3F))"

fun is_parameter_set :: "annex_b_nal_header_grammar \<Rightarrow> u8 \<Rightarrow> bool" where
  "is_parameter_set GrammarH264 t \<longleftrightarrow> t = 7 \<or> t = 8"
| "is_parameter_set GrammarH265 t \<longleftrightarrow> t = 32 \<or> t = 33 \<or> t = 34"

record parameter_sets_from_annex_b_access_unit =
  video_parameter_set_nal_units :: "bytes list"
  sequence_parameter_set_nal_units :: "bytes list"
  picture_parameter_set_nal_units :: "bytes list"

type_synonym parameter_sets = parameter_sets_from_annex_b_access_unit

definition no_parameter_sets :: parameter_sets where
  "no_parameter_sets = \<lparr>video_parameter_set_nal_units = [], sequence_parameter_set_nal_units = [],
                        picture_parameter_set_nal_units = []\<rparr>"

definition is_complete_for :: "annex_b_nal_header_grammar \<Rightarrow> parameter_sets \<Rightarrow> bool" where
  "is_complete_for grammar sets \<longleftrightarrow>
     sequence_parameter_set_nal_units sets \<noteq> [] \<and> picture_parameter_set_nal_units sets \<noteq> [] \<and>
     (grammar = GrammarH265 \<longrightarrow> video_parameter_set_nal_units sets \<noteq> [])"

text \<open>A set that is already in its pile is not put there again.\<close>

definition push_once :: "bytes \<Rightarrow> bytes list \<Rightarrow> bytes list" where
  "push_once nal pile = (if nal \<in> set pile then pile else pile @ [nal])"

definition add_to_its_pile :: "annex_b_nal_header_grammar \<Rightarrow> u8 \<Rightarrow> bytes \<Rightarrow> parameter_sets \<Rightarrow> parameter_sets" where
  "add_to_its_pile grammar t nal sets =
     (if (grammar, t) = (GrammarH264, 7) \<or> (grammar, t) = (GrammarH265, 33)
      then sets\<lparr>sequence_parameter_set_nal_units := push_once nal (sequence_parameter_set_nal_units sets)\<rparr>
      else if (grammar, t) = (GrammarH264, 8) \<or> (grammar, t) = (GrammarH265, 34)
      then sets\<lparr>picture_parameter_set_nal_units := push_once nal (picture_parameter_set_nal_units sets)\<rparr>
      else sets\<lparr>video_parameter_set_nal_units := push_once nal (video_parameter_set_nal_units sets)\<rparr>)"

subsection \<open>To a sample and back\<close>

record length_prefixed_sample =
  length_prefixed_sample_bytes :: bytes
  sample_parameter_sets :: parameter_sets

definition length_prefixed :: "bytes \<Rightarrow> bytes" where
  "length_prefixed nal = be_bytes 4 (of_nat (length nal) :: u32) @ nal"

definition sort_nal_unit ::
    "annex_b_nal_header_grammar \<Rightarrow> bytes \<Rightarrow> length_prefixed_sample \<Rightarrow> length_prefixed_sample" where
  "sort_nal_unit grammar nal s =
     (case nal_unit_type grammar nal of
        None \<Rightarrow> s
      | Some t \<Rightarrow>
          if is_parameter_set grammar t
          then if length nal \<le> nal_unit_header_bytes grammar then s
               else s\<lparr>sample_parameter_sets := add_to_its_pile grammar t nal (sample_parameter_sets s)\<rparr>
          else s\<lparr>length_prefixed_sample_bytes := length_prefixed_sample_bytes s @ length_prefixed nal\<rparr>)"

definition length_prefix_annex_b_access_unit ::
    "bytes \<Rightarrow> annex_b_nal_header_grammar \<Rightarrow> length_prefixed_sample" where
  "length_prefix_annex_b_access_unit access_unit grammar =
     fold (sort_nal_unit grammar) (split_annex_b_access_unit_into_nal_units access_unit)
       \<lparr>length_prefixed_sample_bytes = [], sample_parameter_sets = no_parameter_sets\<rparr>"

record sample_is_not_length_prefixed_nal_units =
  stopped_at_byte :: nat
  sample_bytes_held :: nat

function nal_units_of_sample ::
    "bytes \<Rightarrow> nat \<Rightarrow> bytes \<Rightarrow> sample_is_not_length_prefixed_nal_units + bytes" where
  "nal_units_of_sample sample pos out =
     (if pos < length sample
      then let ran_out = \<lparr>stopped_at_byte = pos, sample_bytes_held = length sample\<rparr>
           in case get_range sample pos (pos + 4) of
                None \<Rightarrow> Inl ran_out
              | Some length_prefix \<Rightarrow>
                  (let declared = foldl (\<lambda>len byte. len * 256 + unat byte) 0 length_prefix
                   in case get_range sample (pos + 4) (pos + 4 + declared) of
                        None \<Rightarrow> Inl ran_out
                      | Some nal \<Rightarrow> nal_units_of_sample sample (pos + (4 + declared)) (out @ ANNEX_B_START_CODE @ nal))
      else Inr out)"
  by pat_completeness auto

termination
  by (relation "measure (\<lambda>(sample, pos, _). length sample - pos)") auto

declare nal_units_of_sample.simps [simp del]

definition annex_b_access_unit_from_length_prefixed_sample ::
    "bytes \<Rightarrow> bytes list \<Rightarrow> sample_is_not_length_prefixed_nal_units + bytes" where
  "annex_b_access_unit_from_length_prefixed_sample sample parameter_set_nal_units =
     nal_units_of_sample sample 0 (concat (map (\<lambda>set. ANNEX_B_START_CODE @ set) parameter_set_nal_units))"

subsection \<open>Where the scanner stops\<close>

text \<open>The scanner remembers the last four bytes, the latest in the low bits.\<close>

lemma shift_in_byte:
  "push_bit 8 (of_le_bytes [p0, p1, p2, p3] :: u32) OR ucast b = of_le_bytes [b, p0, p1, p2]"
proof (rule bit_word_eqI)
  fix k :: nat
  assume "k < LENGTH(32)"
  then have k: "k < 32" by simp
  have le: "(k - 8) div 8 = k div 8 - 1" "(k - 8) mod 8 = k mod 8" if "8 \<le> k"
    using that by (simp_all add: le_div_geq le_mod_geq)
  have byte: "bit b k \<longleftrightarrow> k < 8 \<and> bit b k" using bit_imp_le_length [of b k] by auto
  show "bit (push_bit 8 (of_le_bytes [p0, p1, p2, p3]) OR ucast b :: u32) k \<longleftrightarrow> bit (of_le_bytes [b, p0, p1, p2] :: u32) k"
  proof (cases "8 \<le> k")
    case True
    have "k div 8 < 4" "k - 8 < 32" "k div 8 - Suc 0 < Suc (Suc (Suc (Suc 0)))" using k by simp_all
    then show ?thesis using True k byte le
      by (auto simp: bit_or_iff bit_push_bit_iff bit_ucast_iff bit_of_le_bytes nth_Cons' div_eq_0_iff simp del: of_le_bytes.simps)
  next
    case False
    then show ?thesis using k byte
      by (auto simp: bit_or_iff bit_push_bit_iff bit_ucast_iff bit_of_le_bytes nth_Cons' simp del: of_le_bytes.simps)
  qed
qed

lemma at_start_code_iff: "at_start_code (of_le_bytes [p0, p1, p2, p3]) \<longleftrightarrow> p0 = 1 \<and> p1 = 0 \<and> p2 = 0"
proof -
  have "(of_le_bytes [p0, p1, p2, p3] :: u32) AND 0x00ffffff = take_bit 24 (of_le_bytes [p0, p1, p2, p3])"
    by (simp add: take_bit_eq_mask mask_eq_exp_minus_1)
  also have "\<dots> = of_le_bytes [p0, p1, p2]"
    by (rule bit_eqI) (auto simp: bit_take_bit_iff bit_of_le_bytes nth_Cons' simp del: of_le_bytes.simps)
  finally have *: "at_start_code (of_le_bytes [p0, p1, p2, p3]) \<longleftrightarrow> (of_le_bytes [p0, p1, p2] :: u32) = of_le_bytes [1, 0, 0]"
    by (simp add: at_start_code_def)
  have "xs = ys" if "(of_le_bytes xs :: u32) = of_le_bytes ys" "length xs = 3" "length ys = 3" for xs ys
    using le_bytes_of_le_bytes [of xs, where 'a = 32] le_bytes_of_le_bytes [of ys, where 'a = 32] that by simp
  from this [of "[p0, p1, p2]" "[1, 0, 0]"] show ?thesis using * by auto
qed

fun starts_from :: "u8 \<Rightarrow> u8 \<Rightarrow> nat \<Rightarrow> bytes \<Rightarrow> nat list" where
  "starts_from p1 p0 off [] = []"
| "starts_from p1 p0 off (b # bs) =
     (if p1 = 0 \<and> p0 = 0 \<and> b = 1 then [Suc off] else []) @ starts_from p0 b (Suc off) bs"

lemma scan_start_code_starts:
  assumes "data \<noteq> []"
  shows "\<exists>q0 q1 q2 q3 n. scan_start_code (of_le_bytes [p0, p1, p2, p3]) data = (of_le_bytes [q0, q1, q2, q3], n) \<and>
    starts_from p1 p0 off data =
      (if at_start_code (of_le_bytes [q0, q1, q2, q3]) then [off + n] else []) @ starts_from q1 q0 (off + n) (drop n data)"
  using assms
proof (induction data arbitrary: p0 p1 p2 p3 off)
  case (Cons b bs)
  show ?case
  proof (cases "(b = 1 \<and> p0 = 0 \<and> p1 = 0) \<or> bs = []")
    case True
    then show ?thesis
      by (intro exI [of _ b] exI [of _ p0] exI [of _ p1] exI [of _ p2] exI [of _ 1])
        (auto simp: shift_in_byte at_start_code_iff Let_def simp del: of_le_bytes.simps)
  next
    case False
    then obtain q0 q1 q2 q3 n where "scan_start_code (of_le_bytes [b, p0, p1, p2]) bs = (of_le_bytes [q0, q1, q2, q3], n)"
        "starts_from p0 b (Suc off) bs = (if at_start_code (of_le_bytes [q0, q1, q2, q3]) then [Suc off + n] else []) @
          starts_from q1 q0 (Suc off + n) (drop n bs)"
      using Cons.IH [of b p0 p1 p2 "Suc off"] by auto
    moreover have "scan_start_code (of_le_bytes [p0, p1, p2, p3]) (b # bs) = map_prod id Suc (scan_start_code (of_le_bytes [b, p0, p1, p2]) bs)"
      using False by (auto simp: shift_in_byte at_start_code_iff Let_def simp del: of_le_bytes.simps)
    moreover have "starts_from p1 p0 off (b # bs) = starts_from p0 b (Suc off) bs" using False by auto
    ultimately show ?thesis
      by (intro exI [of _ q0] exI [of _ q1] exI [of _ q2] exI [of _ q3] exI [of _ "Suc n"])
        (simp del: of_le_bytes.simps starts_from.simps scan_start_code.simps)
  qed
qed simp

lemma find_nal_unit_starts_eq:
  "find_nal_unit_starts access_unit off \<lparr>bit_bfr = of_le_bytes [p0, p1, p2, p3]\<rparr> = starts_from p1 p0 off (drop off access_unit)"
proof (induction "length access_unit - off" arbitrary: off p0 p1 p2 p3 rule: less_induct)
  case less
  show ?case
  proof (cases "off < length access_unit")
    case True
    then have ne: "drop off access_unit \<noteq> []" by simp
    obtain q0 q1 q2 q3 n where q: "scan_start_code (of_le_bytes [p0, p1, p2, p3]) (drop off access_unit) = (of_le_bytes [q0, q1, q2, q3], n)"
        "starts_from p1 p0 off (drop off access_unit) =
          (if at_start_code (of_le_bytes [q0, q1, q2, q3]) then [off + n] else []) @
          starts_from q1 q0 (off + n) (drop n (drop off access_unit))"
      using scan_start_code_starts [OF ne] by metis
    have "0 < n" using scan_start_code_consumes [OF ne, of "of_le_bytes [p0, p1, p2, p3]"] q(1) by simp
    then have "find_nal_unit_starts access_unit (off + n) \<lparr>bit_bfr = of_le_bytes [q0, q1, q2, q3]\<rparr> =
        starts_from q1 q0 (off + n) (drop (off + n) access_unit)"
      using less True by simp
    then show ?thesis using q True
      by (subst find_nal_unit_starts.simps) (simp add: next_start_code_def add.commute Let_def del: of_le_bytes.simps)
  qed (simp add: find_nal_unit_starts.simps [of access_unit off])
qed

subsection \<open>The reference byte stream\<close>

text \<open>A byte stream is a list of start codes, of either width, each followed by its NAL unit. No NAL unit
  is empty or holds a start code, and only the last may end in a zero byte, as the standards demand.\<close>

definition annex_b_stream :: "(bytes \<times> bytes) list \<Rightarrow> bytes" where
  "annex_b_stream us = concat (map (\<lambda>(code, nal). code @ nal) us)"

fun annex_b_units :: "(bytes \<times> bytes) list \<Rightarrow> bool" where
  "annex_b_units [] = True"
| "annex_b_units ((code, nal) # us) \<longleftrightarrow>
     code \<in> {[0, 0, 1], [0, 0, 0, 1]} \<and> nal \<noteq> [] \<and> \<not> sublist [0, 0, 1] nal \<and> (us \<noteq> [] \<longrightarrow> last nal \<noteq> 0) \<and>
     annex_b_units us"

fun unit_starts :: "nat \<Rightarrow> (bytes \<times> bytes) list \<Rightarrow> nat list" where
  "unit_starts off [] = []"
| "unit_starts off ((code, nal) # us) = (off + length code) # unit_starts (off + length code + length nal) us"

lemma annex_b_stream_simps [simp]:
  "annex_b_stream [] = []" "annex_b_stream ((code, nal) # us) = code @ nal @ annex_b_stream us"
  by (simp_all add: annex_b_stream_def)

lemma starts_from_append:
  "starts_from p1 p0 off (xs @ ys) =
     starts_from p1 p0 off xs @ starts_from (last (butlast (p1 # p0 # xs))) (last (p1 # p0 # xs)) (off + length xs) ys"
  by (induction xs arbitrary: p1 p0 off) auto

lemma starts_from_free: "\<not> sublist [0, 0, 1] (p1 # p0 # xs) \<Longrightarrow> starts_from p1 p0 off xs = []"
proof (induction xs arbitrary: p1 p0 off)
  case (Cons b bs)
  then show ?case by (auto simp: sublist_Cons_right)
qed simp

lemma starts_from_nal:
  assumes "\<not> sublist [0, 0, 1] nal" "nal \<noteq> []"
  shows "\<exists>q. starts_from 0 1 off (nal @ rest) = starts_from q (last nal) (off + length nal) rest"
proof -
  have "\<not> sublist [0, 0, 1] (0 # 1 # nal)" using assms(1) by (auto simp: sublist_Cons_right)
  then show ?thesis using assms(2) by (auto simp: starts_from_append starts_from_free)
qed

lemma starts_from_code:
  "code \<in> {[0, 0, 1], [0, 0, 0, 1]} \<Longrightarrow> p0 \<noteq> 0 \<Longrightarrow>
   starts_from p1 p0 off (code @ rest) = (off + length code) # starts_from 0 1 (off + length code) rest"
  by auto

lemma starts_from_units:
  "annex_b_units us \<Longrightarrow> p0 \<noteq> 0 \<Longrightarrow> starts_from p1 p0 off (annex_b_stream us) = unit_starts off us"
proof (induction us arbitrary: p1 p0 off)
  case (Cons u us)
  obtain code nal where u: "u = (code, nal)" by (cases u)
  obtain q where "starts_from 0 1 (off + length code) (nal @ annex_b_stream us) =
      starts_from q (last nal) (off + length code + length nal) (annex_b_stream us)"
    using starts_from_nal [of nal "off + length code" "annex_b_stream us"] Cons.prems(1) u by auto
  then show ?case using Cons u starts_from_code [of code p0 p1 off "nal @ annex_b_stream us"]
    by (cases "us = []") auto
qed simp

lemma cut_nal_units_units:
  "annex_b_units us \<Longrightarrow> cut_nal_units (pre @ annex_b_stream us) (unit_starts (length pre) us) = map snd us"
proof (induction us arbitrary: pre)
  case (Cons u us)
  obtain code nal where u: "u = (code, nal)" by (cases u)
  let ?start = "length pre + length code" and ?au = "pre @ annex_b_stream (u # us)"
  have IH: "cut_nal_units ?au (unit_starts (?start + length nal) us) = map snd us"
    using Cons.IH [of "pre @ code @ nal"] Cons.prems u by (simp add: add.assoc)
  have stop: "nal_unit_end ?au ?start (case unit_starts (?start + length nal) us of [] \<Rightarrow> None | s # _ \<Rightarrow> Some s) = ?start + length nal"
  proof (cases us)
    case Nil
    then show ?thesis using u by (simp add: nal_unit_end_def)
  next
    case (Cons v vs)
    obtain code' nal' where v: "v = (code', nal')" by (cases v)
    have nal: "nal \<noteq> []" "last nal \<noteq> 0" "code' = [0, 0, 1] \<or> code' = [0, 0, 0, 1]" using Cons.prems u v Cons by auto
    then have "?au ! (?start + length nal - 1) = last nal"
      using u by (cases nal rule: rev_cases) (simp_all add: nth_append)
    moreover have "?au ! (?start + length nal) = 0" using u v Cons nal by (auto simp: nth_append)
    moreover have "0 < length nal" using nal by simp
    ultimately show ?thesis using v Cons nal by (auto simp: nal_unit_end_def Let_def)
  qed
  have "0 < length nal" using Cons.prems u by simp
  then show ?case using IH stop u by (simp add: Let_def)
qed simp

lemma split_units: "annex_b_units us \<Longrightarrow> split_annex_b_access_unit_into_nal_units (annex_b_stream us) = map snd us"
proof -
  assume us: "annex_b_units us"
  have "start_code_finder_new = \<lparr>bit_bfr = of_le_bytes [0xff, 0xff, 0xff, 0xff]\<rparr>"
    by (simp add: start_code_finder_new_def)
  then have "find_nal_unit_starts (annex_b_stream us) 0 start_code_finder_new = unit_starts 0 us"
    using starts_from_units [OF us, of "0xff" "0xff" 0]
      find_nal_unit_starts_eq [of "annex_b_stream us" 0 "0xff" "0xff" "0xff" "0xff"] by simp
  then show ?thesis using cut_nal_units_units [OF us, of "[]"]
    by (simp add: split_annex_b_access_unit_into_nal_units_def)
qed

subsection \<open>Samples\<close>

text \<open>What a unit is, by the tables of the standards (H.264 table 7-1, H.265 table 7-1): the type number
  is the low five bits of a one-byte header, or the six bits above the lowest of a two-byte header.\<close>

datatype parameter_set_kind = VideoParameterSet | SequenceParameterSet | PictureParameterSet

fun standard_header_bytes :: "annex_b_nal_header_grammar \<Rightarrow> nat" where
  "standard_header_bytes GrammarH264 = 1"
| "standard_header_bytes GrammarH265 = 2"

fun standard_type :: "annex_b_nal_header_grammar \<Rightarrow> bytes \<Rightarrow> nat" where
  "standard_type GrammarH264 nal = unat (hd nal) mod 32"
| "standard_type GrammarH265 nal = unat (hd nal) div 2 mod 64"

fun type_of_kind :: "annex_b_nal_header_grammar \<Rightarrow> parameter_set_kind \<Rightarrow> nat option" where
  "type_of_kind GrammarH264 VideoParameterSet = None"
| "type_of_kind GrammarH264 SequenceParameterSet = Some 7"
| "type_of_kind GrammarH264 PictureParameterSet = Some 8"
| "type_of_kind GrammarH265 VideoParameterSet = Some 32"
| "type_of_kind GrammarH265 SequenceParameterSet = Some 33"
| "type_of_kind GrammarH265 PictureParameterSet = Some 34"

definition is_set_with_payload :: "annex_b_nal_header_grammar \<Rightarrow> parameter_set_kind \<Rightarrow> bytes \<Rightarrow> bool" where
  "is_set_with_payload grammar kind nal \<longleftrightarrow>
     standard_header_bytes grammar < length nal \<and> type_of_kind grammar kind = Some (standard_type grammar nal)"

definition is_carried :: "annex_b_nal_header_grammar \<Rightarrow> bytes \<Rightarrow> bool" where
  "is_carried grammar nal \<longleftrightarrow>
     standard_header_bytes grammar \<le> length nal \<and>
     Some (standard_type grammar nal) \<notin>
       {type_of_kind grammar VideoParameterSet, type_of_kind grammar SequenceParameterSet,
        type_of_kind grammar PictureParameterSet}"

definition each_once :: "'a list \<Rightarrow> 'a list" where
  "each_once xs = rev (remdups (rev xs))"

fun pile_of :: "parameter_set_kind \<Rightarrow> parameter_sets \<Rightarrow> bytes list" where
  "pile_of VideoParameterSet sets = video_parameter_set_nal_units sets"
| "pile_of SequenceParameterSet sets = sequence_parameter_set_nal_units sets"
| "pile_of PictureParameterSet sets = picture_parameter_set_nal_units sets"

lemma push_once_each_once: "fold push_once xs [] = each_once xs"
  by (induction xs rule: rev_induct) (simp_all add: each_once_def push_once_def)

lemma nal_unit_type_standard:
  obtains (short) "length nal < standard_header_bytes grammar" "nal_unit_type grammar nal = None"
  | (typed) t where "standard_header_bytes grammar \<le> length nal" "nal_unit_type grammar nal = Some t"
      "unat t = standard_type grammar nal"
proof -
  have mask: "unat (b AND mask n) = unat b mod 2 ^ n" for b :: u8 and n
    unfolding take_bit_eq_mask [symmetric] by (simp only: unsigned_take_bit_eq) (simp only: take_bit_eq_mod)
  have "unat (b AND 0x1F) = unat b mod 32" "unat (drop_bit 1 b AND 0x3F) = unat b div 2 mod 64" for b :: u8
    using mask [of b 5] mask [of "drop_bit 1 b" 6]
    by (simp_all add: mask_eq_exp_minus_1 unat_div_distrib drop_bit_eq_div)
  then have "standard_header_bytes grammar \<le> length nal \<longrightarrow>
      (\<exists>t. nal_unit_type grammar nal = Some t \<and> unat t = standard_type grammar nal)"
    "length nal < standard_header_bytes grammar \<longrightarrow> nal_unit_type grammar nal = None"
    by (cases grammar; auto)+
  then show ?thesis using that by (meson not_less)
qed

lemma sort_nal_unit_bytes:
  "length_prefixed_sample_bytes (sort_nal_unit g nal s) =
     length_prefixed_sample_bytes s @ (if is_carried g nal then length_prefixed nal else [])"
  by (cases rule: nal_unit_type_standard [of nal g]; cases g)
    (auto simp: sort_nal_unit_def is_carried_def word_unat_eq_iff simp del: nal_unit_type.simps)

lemma sort_nal_unit_pile:
  "pile_of kind (sample_parameter_sets (sort_nal_unit g nal s)) =
     (if is_set_with_payload g kind nal then push_once nal (pile_of kind (sample_parameter_sets s))
      else pile_of kind (sample_parameter_sets s))"
  by (cases rule: nal_unit_type_standard [of nal g]; cases g; cases kind)
    (auto simp: sort_nal_unit_def add_to_its_pile_def is_set_with_payload_def word_unat_eq_iff simp del: nal_unit_type.simps)

lemma sort_nal_units_bytes:
  "length_prefixed_sample_bytes (fold (sort_nal_unit g) nals s) =
     length_prefixed_sample_bytes s @ concat (map length_prefixed (filter (is_carried g) nals))"
  by (induction nals arbitrary: s) (simp_all add: sort_nal_unit_bytes)

lemma sort_nal_units_pile:
  "pile_of kind (sample_parameter_sets (fold (sort_nal_unit g) nals s)) =
     fold push_once (filter (is_set_with_payload g kind) nals) (pile_of kind (sample_parameter_sets s))"
  by (induction nals arbitrary: s) (simp_all add: sort_nal_unit_pile)

lemma sort_nal_units_piles:
  "sample_parameter_sets (fold (sort_nal_unit g) nals \<lparr>length_prefixed_sample_bytes = bs, sample_parameter_sets = no_parameter_sets\<rparr>) =
     \<lparr>video_parameter_set_nal_units = each_once (filter (is_set_with_payload g VideoParameterSet) nals),
      sequence_parameter_set_nal_units = each_once (filter (is_set_with_payload g SequenceParameterSet) nals),
      picture_parameter_set_nal_units = each_once (filter (is_set_with_payload g PictureParameterSet) nals)\<rparr>"
proof -
  let ?sets = "sample_parameter_sets (fold (sort_nal_unit g) nals
      \<lparr>length_prefixed_sample_bytes = bs, sample_parameter_sets = no_parameter_sets\<rparr>)"
  have none: "pile_of kind no_parameter_sets = []" for kind by (cases kind) (simp_all add: no_parameter_sets_def)
  have "pile_of kind ?sets = each_once (filter (is_set_with_payload g kind) nals)" for kind
    by (simp add: sort_nal_units_pile none push_once_each_once)
  from this [of VideoParameterSet] this [of SequenceParameterSet] this [of PictureParameterSet]
  show ?thesis by (intro parameter_sets_from_annex_b_access_unit.equality) simp_all
qed

lemma unat_of_le_bytes_Cons:
  "length bs \<le> 3 \<Longrightarrow> unat (of_le_bytes (b # bs) :: u32) = unat b + 256 * unat (of_le_bytes bs :: u32)"
proof -
  assume len: "length bs \<le> 3"
  let ?w = "of_le_bytes bs :: u32"
  have "?w = take_bit 24 ?w"
    using len by (intro bit_word_eqI) (auto simp: bit_take_bit_iff bit_of_le_bytes)
  then have "unat ?w = take_bit 24 (unat ?w)" by (metis unsigned_take_bit_eq)
  then have w: "unat ?w < 2 ^ 24" by (metis take_bit_nat_less_exp)
  have "(ucast b :: u32) OR push_bit 8 ?w = ucast b + push_bit 8 ?w"
    by (intro disjunctive_add [symmetric]) (auto simp: bit_push_bit_iff bit_ucast_iff dest!: bit_imp_le_length)
  moreover have "unat (push_bit 8 ?w) = 256 * unat ?w"
    using w by (simp add: push_bit_eq_mult unat_mult_lem [THEN iffD1] mult.commute unat_word_ariths)
  moreover have "unat (ucast b :: u32) = unat b" 
    using unsigned_less [of b, where 'a = nat] by (simp add: unsigned_ucast_eq take_bit_nat_eq_self)
  moreover have "unat b + 256 * unat ?w < 2 ^ 32" using w unsigned_less [of b, where 'a = nat] by simp
  ultimately show ?thesis by (simp add: unat_word_ariths)
qed

lemma declared_length:
  "length p = 4 \<Longrightarrow> foldl (\<lambda>len byte. len * 256 + unat byte) 0 p = unat (of_be_bytes p :: u32)"
proof -
  assume "length p = 4"
  then obtain a b c d where "p = [a, b, c, d]" by (auto simp: numeral_eq_Suc length_Suc_conv)
  then show ?thesis using unat_of_le_bytes_Cons [of "[c, b, a]" d] unat_of_le_bytes_Cons [of "[b, a]" c]
      unat_of_le_bytes_Cons [of "[a]" b] unat_of_le_bytes_Cons [of "[]" a]
    by (simp add: of_be_bytes_def del: of_le_bytes.simps(2))
qed

lemma take_drop_be:
  assumes "length p = 4" "foldl (\<lambda>len byte. len * 256 + unat byte) 0 p = length nal"
  shows "p @ nal = length_prefixed nal" "length nal < 2 ^ 32"
proof -
  have n: "length nal = unat (of_be_bytes p :: u32)" using assms declared_length by simp
  then show "length nal < 2 ^ 32" using unsigned_less [of "of_be_bytes p :: u32", where 'a = nat] by simp
  have "be_bytes 4 (of_be_bytes p :: u32) = p" using be_bytes_of_be_bytes [of p, where 'a = 32] assms(1) by simp
  then show "p @ nal = length_prefixed nal" using n by (simp add: length_prefixed_def)
qed

lemma length_prefixed_declares:
  "length nal < 2 ^ 32 \<Longrightarrow>
   foldl (\<lambda>len byte. len * 256 + unat byte) 0 (be_bytes 4 (of_nat (length nal) :: u32)) = length nal"
  by (simp add: declared_length of_be_bytes_be_bytes unat_of_nat)

definition start_coded :: "bytes list \<Rightarrow> bytes" where
  "start_coded nals = concat (map (\<lambda>nal. ANNEX_B_START_CODE @ nal) nals)"

lemma start_coded_simps [simp]:
  "start_coded [] = []" "start_coded (nal # nals) = ANNEX_B_START_CODE @ nal @ start_coded nals"
  "start_coded (xs @ ys) = start_coded xs @ start_coded ys"
  by (simp_all add: start_coded_def)

lemma length_length_prefixed [simp]: "length (length_prefixed nal) = 4 + length nal"
  by (simp add: length_prefixed_def)

lemma nal_units_of_sample_complete:
  "\<forall>nal\<in>set nals. length nal < 2 ^ 32 \<Longrightarrow>
   nal_units_of_sample (pre @ concat (map length_prefixed nals)) (length pre) out = Inr (out @ start_coded nals)"
proof (induction nals arbitrary: pre out)
  case (Cons nal nals)
  let ?p = "be_bytes 4 (of_nat (length nal) :: u32)" and ?rest = "concat (map length_prefixed nals)"
  have "nal_units_of_sample (pre @ length_prefixed nal @ ?rest) (length pre) out =
      nal_units_of_sample (pre @ length_prefixed nal @ ?rest) (length pre + (4 + length nal)) (out @ ANNEX_B_START_CODE @ nal)"
    using Cons.prems length_prefixed_declares [of nal]
    by (subst nal_units_of_sample.simps) (simp add: length_prefixed_def get_range_def Let_def)
  also have "\<dots> = Inr (out @ start_coded (nal # nals))"
    using Cons.IH [of "pre @ length_prefixed nal" "out @ ANNEX_B_START_CODE @ nal"] Cons.prems by simp
  finally show ?case by simp
qed (simp add: nal_units_of_sample.simps)

lemma nal_units_of_sample_sound:
  "nal_units_of_sample sample pos out = Inr result \<Longrightarrow> pos \<le> length sample \<Longrightarrow>
   \<exists>nals. drop pos sample = concat (map length_prefixed nals) \<and> (\<forall>nal\<in>set nals. length nal < 2 ^ 32) \<and>
     result = out @ start_coded nals"
proof (induction "length sample - pos" arbitrary: pos out rule: less_induct)
  case less
  show ?case
  proof (cases "pos < length sample")
    case True
    let ?p = "take 4 (drop pos sample)"
    let ?n = "foldl (\<lambda>len byte. len * 256 + unat byte) 0 ?p"
    let ?nal = "take ?n (drop (pos + 4) sample)"
    from less.prems(1) True have step: "pos + 4 + ?n \<le> length sample"
        "nal_units_of_sample sample (pos + (4 + ?n)) (out @ ANNEX_B_START_CODE @ ?nal) = Inr result"
      by (auto simp: nal_units_of_sample.simps [of sample pos] get_range_def Let_def split: if_splits)
    have shorter: "length sample - (pos + (4 + ?n)) < length sample - pos" using True by linarith
    from step(1) have inside: "pos + (4 + ?n) \<le> length sample" by (simp only: add.assoc)
    obtain nals where nals: "drop (pos + (4 + ?n)) sample = concat (map length_prefixed nals)"
        "\<forall>nal\<in>set nals. length nal < 2 ^ 32" "result = (out @ ANNEX_B_START_CODE @ ?nal) @ start_coded nals"
      using less.hyps [OF shorter step(2) inside] by blast
    have len: "length ?p = 4" "length ?nal = ?n" using step(1) by simp_all
    have "drop pos sample = ?p @ drop 4 (drop pos sample)" by (rule append_take_drop_id [symmetric])
    also have "drop 4 (drop pos sample) = drop (pos + 4) sample" by (simp add: add.commute)
    also have "drop (pos + 4) sample = ?nal @ drop ?n (drop (pos + 4) sample)" by (rule append_take_drop_id [symmetric])
    also have "drop ?n (drop (pos + 4) sample) = drop (pos + (4 + ?n)) sample" by (simp add: ac_simps)
    finally have "drop pos sample = (?p @ ?nal) @ concat (map length_prefixed nals)" using nals(1) by simp
    then show ?thesis using take_drop_be [OF len(1) len(2) [symmetric]] nals(2,3)
      by (intro exI [of _ "?nal # nals"]) (simp only: list.map concat.simps list.set ball_simps start_coded_simps append_assoc simp_thms)
  next
    case False
    then show ?thesis using less.prems by (intro exI [of _ "[]"]) (simp add: nal_units_of_sample.simps [of sample "length sample"])
  qed
qed

subsection \<open>Property\<close>

text \<open>C21: an access unit and the sample made of it carry the same NAL units. From a byte stream of start
  codes of either width and well-formed NAL units, the conversion keeps out of the sample exactly the
  parameter sets; each pile holds the units of its own type number in the standard that have a
  payload, once each and in the order they first came, and H.264, which has no video parameter sets,
  leaves that pile empty; each other unit with a whole header is prefixed with its length, in order.
  Converting back accepts exactly the byte strings that are such samples, and gives the start-coded
  units, after the parameter sets it is given.\<close>

theorem annex_b_sample_roundtrip:
  assumes "annex_b_units us" "\<forall>(code, nal)\<in>set us. length nal < 2 ^ 32"
  shows "(let result = length_prefix_annex_b_access_unit (annex_b_stream us) grammar;
              carried = filter (is_carried grammar) (map snd us);
              sets_of = (\<lambda>kind. each_once (filter (is_set_with_payload grammar kind) (map snd us)))
          in result = \<lparr>length_prefixed_sample_bytes = concat (map length_prefixed carried),
                sample_parameter_sets = \<lparr>video_parameter_set_nal_units = sets_of VideoParameterSet,
                  sequence_parameter_set_nal_units = sets_of SequenceParameterSet,
                  picture_parameter_set_nal_units = sets_of PictureParameterSet\<rparr>\<rparr> \<and>
             annex_b_access_unit_from_length_prefixed_sample (length_prefixed_sample_bytes result) sets =
               Inr (start_coded (sets @ carried))) \<and>
    (annex_b_access_unit_from_length_prefixed_sample sample sets = Inr out \<longleftrightarrow>
      (\<exists>nals. sample = concat (map length_prefixed nals) \<and> (\<forall>nal\<in>set nals. length nal < 2 ^ 32) \<and>
         out = start_coded (sets @ nals)))"
proof -
  let ?result = "length_prefix_annex_b_access_unit (annex_b_stream us) grammar"
  let ?carried = "filter (is_carried grammar) (map snd us)"
  let ?sets_of = "\<lambda>kind. each_once (filter (is_set_with_payload grammar kind) (map snd us))"
  have result: "?result = \<lparr>length_prefixed_sample_bytes = concat (map length_prefixed ?carried),
      sample_parameter_sets = \<lparr>video_parameter_set_nal_units = ?sets_of VideoParameterSet,
        sequence_parameter_set_nal_units = ?sets_of SequenceParameterSet,
        picture_parameter_set_nal_units = ?sets_of PictureParameterSet\<rparr>\<rparr>"
    by (intro length_prefixed_sample.equality)
      (simp_all add: length_prefix_annex_b_access_unit_def split_units [OF assms(1)] sort_nal_units_bytes sort_nal_units_piles)
  have restored: "annex_b_access_unit_from_length_prefixed_sample (concat (map length_prefixed nals)) sets =
      Inr (start_coded (sets @ nals))"
    if "\<forall>nal\<in>set nals. length nal < 2 ^ 32" for nals :: "bytes list"
    using nal_units_of_sample_complete [OF that, of "[]" "start_coded sets"]
    by (simp add: annex_b_access_unit_from_length_prefixed_sample_def start_coded_def)
  moreover have "annex_b_access_unit_from_length_prefixed_sample (concat (map length_prefixed ?carried)) sets =
      Inr (start_coded (sets @ ?carried))"
    using assms(2) by (intro restored) auto
  moreover have "annex_b_access_unit_from_length_prefixed_sample sample sets = Inr out \<longleftrightarrow>
      (\<exists>nals. sample = concat (map length_prefixed nals) \<and> (\<forall>nal\<in>set nals. length nal < 2 ^ 32) \<and>
         out = start_coded (sets @ nals))"
    using restored nal_units_of_sample_sound [of sample 0 "start_coded sets" out]
    by (auto simp: annex_b_access_unit_from_length_prefixed_sample_def start_coded_def)
  ultimately show ?thesis using result by (simp add: Let_def)
qed

theorem annex_b_sample_roundtrip_witness:
  "(let result = length_prefix_annex_b_access_unit
        [0, 0, 0, 1, 0x67, 0x42, 0, 0, 1, 0x68, 0xCE, 0, 0, 0, 1, 0x65, 0x88, 0] GrammarH264
    in sample_parameter_sets result = \<lparr>video_parameter_set_nal_units = [],
         sequence_parameter_set_nal_units = [[0x67, 0x42]], picture_parameter_set_nal_units = [[0x68, 0xCE]]\<rparr> \<and>
       annex_b_access_unit_from_length_prefixed_sample (length_prefixed_sample_bytes result) [[0x67, 0x42], [0x68, 0xCE]] =
         Inr [0, 0, 0, 1, 0x67, 0x42, 0, 0, 0, 1, 0x68, 0xCE, 0, 0, 0, 1, 0x65, 0x88, 0])"
proof -
  let ?us = "[([0, 0, 0, 1], [0x67, 0x42]), ([0, 0, 1], [0x68, 0xCE]), ([0, 0, 0, 1], [0x65, 0x88, 0])] :: (bytes \<times> bytes) list"
  let ?sets = "[[0x67, 0x42], [0x68, 0xCE]] :: bytes list"
  let ?result = "length_prefix_annex_b_access_unit (annex_b_stream ?us) GrammarH264"
  have "annex_b_units ?us" "\<forall>(code, nal)\<in>set ?us. length nal < 2 ^ 32" by (simp_all add: sublist_Cons_right)
  note * = annex_b_sample_roundtrip [OF this, of GrammarH264 ?sets, unfolded Let_def, THEN conjunct1]
  have "annex_b_access_unit_from_length_prefixed_sample (length_prefixed_sample_bytes ?result) ?sets =
      Inr [0, 0, 0, 1, 0x67, 0x42, 0, 0, 0, 1, 0x68, 0xCE, 0, 0, 0, 1, 0x65, 0x88, 0]"
    using * [THEN conjunct2] by (simp add: is_carried_def ANNEX_B_START_CODE_def)
  moreover have "sample_parameter_sets ?result = \<lparr>video_parameter_set_nal_units = [],
      sequence_parameter_set_nal_units = [[0x67, 0x42]], picture_parameter_set_nal_units = [[0x68, 0xCE]]\<rparr>"
    using * [THEN conjunct1] by (simp add: is_set_with_payload_def each_once_def)
  ultimately show ?thesis by (simp add: Let_def)
qed

end
