(* ===== verification/Mp4_Sample_Entry.thy ===== *)
theory Mp4_Sample_Entry
  imports Annex_B
begin

text \<open>
  The sample entry that describes a track in \<open>moov\<close>
  (\<open>runtime/streamlib-media-builtins/src/mp4_track_sample_entry.rs\<close>), with the engine's reader for raw byte
  sequence payloads (\<open>nv_video_parser/\<close>) and the Opus stream layouts (\<open>opus_stream_layout.rs\<close>). The boxes
  are those of the \<open>mp4-atom\<close> crate, with the fields that the builders set; the fields that are always
  the same are left out. The engine's H.265 parameter-set parser is a parameter.
\<close>

subsection \<open>Raw byte sequence payloads\<close>

fun remove_emulation_prevention_bytes :: "bytes \<Rightarrow> bytes" where
  "remove_emulation_prevention_bytes (a # b # c # rest) =
     (if a = 0 \<and> b = 0 \<and> c = 3 then 0 # 0 # remove_emulation_prevention_bytes rest
      else a # remove_emulation_prevention_bytes (b # c # rest))"
| "remove_emulation_prevention_bytes bs = bs"

record bitstream_reader =
  rbsp_data :: bytes
  bit_offset :: nat

definition bitstream_reader_new :: "bytes \<Rightarrow> bitstream_reader" where
  "bitstream_reader_new data = \<lparr>rbsp_data = data, bit_offset = 0\<rparr>"

primrec take_bits :: "nat \<Rightarrow> bytes \<Rightarrow> nat \<Rightarrow> u32 \<Rightarrow> u32" where
  "take_bits 0 data offset val = val"
| "take_bits (Suc n) data offset val =
     take_bits n data (Suc offset)
       (push_bit 1 val OR (ucast (drop_bit (7 - offset mod 8) (data ! (offset div 8))) AND 1))"

definition read_u :: "nat \<Rightarrow> bitstream_reader \<Rightarrow> (u32 \<times> bitstream_reader) option" where
  "read_u n r =
     (if n = 0 then Some (0, r)
      else if 32 < n then None
      else if length (rbsp_data r) * 8 < bit_offset r + n then None
      else Some (take_bits n (rbsp_data r) (bit_offset r) 0, r\<lparr>bit_offset := bit_offset r + n\<rparr>))"

text \<open>The loop over the leading zero bits gives up at the 32nd, so it is a recursion on how many more
  are allowed.\<close>

fun count_leading_zero_bits :: "nat \<Rightarrow> nat \<Rightarrow> bitstream_reader \<Rightarrow> (nat \<times> bitstream_reader) option" where
  "count_leading_zero_bits allowed zeros r =
     (case read_u 1 r of
        None \<Rightarrow> None
      | Some (b, r) \<Rightarrow>
          if b \<noteq> 0 then Some (zeros, r)
          else case allowed of 0 \<Rightarrow> None | Suc allowed \<Rightarrow> count_leading_zero_bits allowed (Suc zeros) r)"

definition read_ue :: "bitstream_reader \<Rightarrow> (u32 \<times> bitstream_reader) option" where
  "read_ue r =
     (case count_leading_zero_bits 31 0 r of
        None \<Rightarrow> None
      | Some (zeros, r) \<Rightarrow>
          if zeros = 0 then Some (0, r)
          else case read_u zeros r of
                 None \<Rightarrow> None
               | Some (tail_bits, r) \<Rightarrow> Some (push_bit zeros 1 - 1 + tail_bits, r))"

subsection \<open>Opus stream layouts\<close>

record opus_mapping_family_one_stream_layout =
  streams :: u8
  coupled_streams :: u8
  vorbis_channel_order_mapping :: "u8 list"

datatype opus_channels = Mono | Stereo

datatype opus_stream_layout =
  MappingFamilyZeroSingleStream opus_channels
| MappingFamilyOneMultistream opus_mapping_family_one_stream_layout

datatype opus_stream_layout_refusal = ChannelCountOpusCannotPlace u32

definition vorbis_layout :: "u8 \<Rightarrow> u8 \<Rightarrow> u8 list \<Rightarrow> opus_mapping_family_one_stream_layout" where
  "vorbis_layout s c mapping = \<lparr>streams = s, coupled_streams = c, vorbis_channel_order_mapping = mapping\<rparr>"

definition VORBIS_CHANNEL_ORDER_STREAM_LAYOUTS :: "opus_mapping_family_one_stream_layout list" where
  "VORBIS_CHANNEL_ORDER_STREAM_LAYOUTS =
     [vorbis_layout 1 0 [0], vorbis_layout 1 1 [0, 1], vorbis_layout 2 1 [0, 2, 1], vorbis_layout 2 2 [0, 1, 2, 3],
      vorbis_layout 3 2 [0, 4, 1, 2, 3], vorbis_layout 4 2 [0, 4, 1, 2, 3, 5], vorbis_layout 4 3 [0, 4, 1, 2, 3, 5, 6],
      vorbis_layout 5 3 [0, 6, 1, 2, 3, 4, 5, 7]]"

definition resolve_opus_layout :: "u32 \<Rightarrow> opus_stream_layout_refusal + opus_stream_layout" where
  "resolve_opus_layout source_channels =
     (if source_channels = 1 then Inr (MappingFamilyZeroSingleStream Mono)
      else if source_channels = 2 then Inr (MappingFamilyZeroSingleStream Stereo)
      else if 3 \<le> source_channels \<and> source_channels \<le> 8
      then Inr (MappingFamilyOneMultistream (VORBIS_CHANNEL_ORDER_STREAM_LAYOUTS ! (unat source_channels - 1)))
      else Inl (ChannelCountOpusCannotPlace source_channels))"

fun channel_mapping_family :: "opus_stream_layout \<Rightarrow> u8" where
  "channel_mapping_family (MappingFamilyZeroSingleStream _) = 0"
| "channel_mapping_family (MappingFamilyOneMultistream _) = 1"

subsection \<open>Sample entries\<close>

datatype avc_chroma_trailer_refusal_reason =
  SequenceParameterSetEndsBeforeTheChromaFields
| ChromaFormatIdcPastWhatTheRecordStates u32
| BitDepthMinus8PastWhatTheRecordStates string u32

datatype mp4_sample_entry_refusal =
  ParameterSetsMissingFromSyncPoint string string
| SequenceParameterSetTooShort string string nat
| SequenceParameterSetUnparsable string
| ChannelCountThisContainerWriterCannotPlace string u32
| ParameterSetCarriesNoPayload string u8 nat
| PreSkipThisContainerCannotState string u32
| CodedExtentThisContainerCannotState string u32 u32
| ChromaTrailerUnreadableFromTheSequenceParameterSet string avc_chroma_trailer_refusal_reason

record visual_entry =
  ve_width :: u16
  ve_height :: u16
  ve_compressor :: string

record chroma_trailer_fields =
  chroma_format_idc :: u8
  bit_depth_luma_minus8 :: u8
  bit_depth_chroma_minus8 :: u8

record avcc =
  avc_profile_indication :: u8
  profile_compatibility :: u8
  avc_level_indication :: u8
  avcc_sequence_parameter_sets :: "bytes list"
  avcc_picture_parameter_sets :: "bytes list"
  avcc_chroma_trailer :: "(u8 \<times> u8 \<times> u8) option"

record avc1 =
  avc1_visual :: visual_entry
  avc1_avcc :: avcc

record hvcc =
  general_profile_space :: u8
  general_tier_flag :: bool
  general_profile_idc :: u8
  general_profile_compatibility_flags :: bytes
  general_constraint_indicator_flags :: bytes
  general_level_idc :: u8
  hvcc_chroma_format_idc :: u8
  hvcc_bit_depth_luma_minus8 :: u8
  hvcc_bit_depth_chroma_minus8 :: u8
  num_temporal_layers :: u8
  temporal_id_nested :: bool
  hvcc_arrays :: "(u8 \<times> bytes list) list"

record hvc1 =
  hvc1_visual :: visual_entry
  hvc1_hvcc :: hvcc

record opus_entry =
  oe_channel_count :: u16
  oe_output_channel_count :: u8
  oe_pre_skip :: u16

datatype sample_entry = Avc1 avc1 | Hvc1 hvc1 | OpusEntry opus_entry

definition visual_sample_entry :: "string \<Rightarrow> u32 \<Rightarrow> u32 \<Rightarrow> string \<Rightarrow> mp4_sample_entry_refusal + visual_entry" where
  "visual_sample_entry link coded_width coded_height compressor =
     (if \<not> (1 \<le> coded_width \<and> coded_width \<le> 0xFFFF) \<or> \<not> (1 \<le> coded_height \<and> coded_height \<le> 0xFFFF)
      then Inl (CodedExtentThisContainerCannotState link coded_width coded_height)
      else Inr \<lparr>ve_width = ucast coded_width, ve_height = ucast coded_height, ve_compressor = compressor\<rparr>)"

definition read_h264_chroma_trailer_fields :: "string \<Rightarrow> bytes \<Rightarrow> mp4_sample_entry_refusal + chroma_trailer_fields" where
  "read_h264_chroma_trailer_fields link sps =
     (let refused = ChromaTrailerUnreadableFromTheSequenceParameterSet link;
          ended_early = refused SequenceParameterSetEndsBeforeTheChromaFields;
          reader = bitstream_reader_new (remove_emulation_prevention_bytes (drop (nal_unit_header_bytes GrammarH264) sps))
      in and_then (ok_or ended_early (read_u 24 reader)) (\<lambda>(_, reader).
         and_then (ok_or ended_early (read_ue reader)) (\<lambda>(_, reader).
         and_then (ok_or ended_early (read_ue reader)) (\<lambda>(idc, reader).
         if 3 < idc then Inl (refused (ChromaFormatIdcPastWhatTheRecordStates idc))
         else and_then (if idc = 3 then ok_or ended_early (read_u 1 reader) else Inr (0, reader)) (\<lambda>(_, reader).
         and_then (ok_or ended_early (read_ue reader)) (\<lambda>(luma, reader).
         and_then (ok_or ended_early (read_ue reader)) (\<lambda>(chroma, reader).
         if 7 < luma then Inl (refused (BitDepthMinus8PastWhatTheRecordStates ''bit_depth_luma_minus8'' luma))
         else if 7 < chroma then Inl (refused (BitDepthMinus8PastWhatTheRecordStates ''bit_depth_chroma_minus8'' chroma))
         else Inr \<lparr>chroma_format_idc = ucast idc, bit_depth_luma_minus8 = ucast luma, bit_depth_chroma_minus8 = ucast chroma\<rparr>)))))))"

definition build_avc1_sample_entry ::
    "string \<Rightarrow> parameter_sets \<Rightarrow> u32 \<Rightarrow> u32 \<Rightarrow> mp4_sample_entry_refusal + avc1" where
  "build_avc1_sample_entry link sets coded_width coded_height =
     (if \<not> is_complete_for GrammarH264 sets then Inl (ParameterSetsMissingFromSyncPoint link ''h264'')
      else let sps = hd (sequence_parameter_set_nal_units sets)
           in if length sps < 4 then Inl (SequenceParameterSetTooShort link ''h264'' (length sps))
              else and_then
                (if sps ! 1 \<in> {100, 110, 122, 144}
                 then and_then (read_h264_chroma_trailer_fields link sps) (\<lambda>fields. Inr (Some fields)) else Inr None)
                (\<lambda>chroma_trailer.
              and_then (visual_sample_entry link coded_width coded_height ''StreamLib H.264'') (\<lambda>visual.
                Inr \<lparr>avc1_visual = visual,
                     avc1_avcc = \<lparr>avc_profile_indication = sps ! 1, profile_compatibility = sps ! 2,
                                  avc_level_indication = sps ! 3,
                                  avcc_sequence_parameter_sets = sequence_parameter_set_nal_units sets,
                                  avcc_picture_parameter_sets = picture_parameter_set_nal_units sets,
                                  avcc_chroma_trailer = map_option (\<lambda>fields.
                                    (chroma_format_idc fields, bit_depth_luma_minus8 fields + 8,
                                     bit_depth_chroma_minus8 fields + 8)) chroma_trailer\<rparr>\<rparr>)))"

text \<open>What the H.265 builder takes from the engine's parser of sequence parameter sets.\<close>

record parsed_h265_sps =
  sps_chroma_format_idc :: u8
  sps_bit_depth_luma_minus8 :: u8
  sps_bit_depth_chroma_minus8 :: u8
  sps_max_sub_layers_minus1 :: u8
  sps_temporal_id_nesting_flag :: bool

fun first_too_short :: "(u8 \<times> bytes list) list \<Rightarrow> (u8 \<times> nat) option" where
  "first_too_short [] = None"
| "first_too_short ((t, nals) # piles) =
     (case find (\<lambda>nal. length nal \<le> 2) nals of
        Some nal \<Rightarrow> Some (t, length nal) | None \<Rightarrow> first_too_short piles)"

definition build_hvc1_sample_entry ::
    "(bytes \<Rightarrow> parsed_h265_sps option) \<Rightarrow> string \<Rightarrow> parameter_sets \<Rightarrow> u32 \<Rightarrow> u32 \<Rightarrow> mp4_sample_entry_refusal + hvc1" where
  "build_hvc1_sample_entry parse_sps link sets coded_width coded_height =
     (if \<not> is_complete_for GrammarH265 sets then Inl (ParameterSetsMissingFromSyncPoint link ''h265'')
      else
        let sps = hd (sequence_parameter_set_nal_units sets);
            rbsp = remove_emulation_prevention_bytes (drop 2 sps);
            ptl = take 12 (drop 1 rbsp);
            piles = [(32, video_parameter_set_nal_units sets), (33, sequence_parameter_set_nal_units sets),
                     (34, picture_parameter_set_nal_units sets)]
        in if length sps \<le> 2 then Inl (SequenceParameterSetTooShort link ''h265'' (length sps))
           else if length rbsp < 13 then Inl (SequenceParameterSetTooShort link ''h265'' (length sps))
           else and_then (ok_or (SequenceParameterSetUnparsable link) (parse_sps rbsp)) (\<lambda>parsed.
             case first_too_short piles of
               Some (t, n) \<Rightarrow> Inl (ParameterSetCarriesNoPayload link t n)
             | None \<Rightarrow>
                 and_then (visual_sample_entry link coded_width coded_height ''StreamLib H.265'') (\<lambda>visual.
                   Inr \<lparr>hvc1_visual = visual,
                        hvc1_hvcc = \<lparr>general_profile_space = drop_bit 6 (ptl ! 0) AND 3,
                                     general_tier_flag = (drop_bit 5 (ptl ! 0) AND 1 = 1),
                                     general_profile_idc = ptl ! 0 AND 31,
                                     general_profile_compatibility_flags = take 4 (drop 1 ptl),
                                     general_constraint_indicator_flags = take 6 (drop 5 ptl),
                                     general_level_idc = ptl ! 11,
                                     hvcc_chroma_format_idc = sps_chroma_format_idc parsed,
                                     hvcc_bit_depth_luma_minus8 = sps_bit_depth_luma_minus8 parsed,
                                     hvcc_bit_depth_chroma_minus8 = sps_bit_depth_chroma_minus8 parsed,
                                     num_temporal_layers = sps_max_sub_layers_minus1 parsed + 1,
                                     temporal_id_nested = sps_temporal_id_nesting_flag parsed,
                                     hvcc_arrays = piles\<rparr>\<rparr>)))"

definition build_opus_sample_entry :: "string \<Rightarrow> u32 \<Rightarrow> u32 \<Rightarrow> mp4_sample_entry_refusal + opus_entry" where
  "build_opus_sample_entry link channels pre_skip =
     (if 2 < channels then Inl (ChannelCountThisContainerWriterCannotPlace link channels)
      else if 0xFFFF < pre_skip then Inl (PreSkipThisContainerCannotState link pre_skip)
      else case resolve_opus_layout channels of
             Inl _ \<Rightarrow> Inl (ChannelCountThisContainerWriterCannotPlace link channels)
           | Inr _ \<Rightarrow> Inr \<lparr>oe_channel_count = ucast channels, oe_output_channel_count = ucast channels, oe_pre_skip = ucast pre_skip\<rparr>)"

end
