(* ===== verification/Mp4_Writer.thy ===== *)
theory Mp4_Writer
  imports Mp4_Sample_Entry Color_Info
begin

text \<open>
  The fragmented MP4 writer (\<open>runtime/streamlib-media-builtins/src/mp4_fragmented_file_writer.rs\<close>) and the
  encoded bags it reads (\<open>encoded_video_frame.rs\<close>, \<open>encoded_audio_packet.rs\<close>): every operation of the
  writer, one track per inbound link.

  The MessagePack codec, the encoders of the \<open>mp4-atom\<close> crate and the sink are parameters. A
  timestamp is an \<open>i64\<close>, taken as an integer with the saturation of its subtraction written out; a
  duration is a \<open>u32\<close>, taken as a natural number where the source checks that it fits. The 64-bit
  decode times and counters are natural numbers: they count nanoseconds and samples of one recording.
  Log lines, and the box fields that never vary, are left out.
\<close>

definition i64_saturating_sub :: "int \<Rightarrow> int \<Rightarrow> int" where
  "i64_saturating_sub a b = max (- (2 ^ 63)) (min (2 ^ 63 - 1) (a - b))"

subsection \<open>Encoded bags\<close>

datatype encoded_video_codec = CodecH264 | CodecH265

fun video_codec_as_wire_str :: "encoded_video_codec \<Rightarrow> string" where
  "video_codec_as_wire_str CodecH264 = ''h264''"
| "video_codec_as_wire_str CodecH265 = ''h265''"

definition video_codec_from_wire_str :: "string \<Rightarrow> encoded_video_codec option" where
  "video_codec_from_wire_str codec = find (\<lambda>c. video_codec_as_wire_str c = codec) [CodecH264, CodecH265]"

datatype encoded_audio_codec = CodecOpus

fun audio_codec_as_wire_str :: "encoded_audio_codec \<Rightarrow> string" where
  "audio_codec_as_wire_str CodecOpus = ''opus''"

definition audio_codec_from_wire_str :: "string \<Rightarrow> encoded_audio_codec option" where
  "audio_codec_from_wire_str codec = find (\<lambda>c. audio_codec_as_wire_str c = codec) [CodecOpus]"

record encoded_video_frame_named_map =
  vm_codec :: "string option"
  vm_annex_b_access_unit_bytes :: bytes
  vm_is_sync_point :: bool
  vm_group_index :: u64
  vm_sequence_index :: u64
  vm_width :: u32
  vm_height :: u32
  vm_color :: "color_info option"

record encoded_video_frame =
  vf_codec :: encoded_video_codec
  vf_annex_b_access_unit_bytes :: bytes
  vf_is_sync_point :: bool
  vf_group_index :: u64
  vf_sequence_index :: u64
  vf_width :: u32
  vf_height :: u32
  vf_color :: "color_info option"

record encoded_audio_packet_named_map =
  am_codec :: "string option"
  am_opus_packet_bytes :: bytes
  am_is_sync_point :: bool
  am_group_index :: u64
  am_sequence_index :: u64
  am_sample_rate :: u32
  am_channels :: u32
  am_sample_count :: u32
  am_pre_skip :: u32

record encoded_audio_packet =
  ap_codec :: encoded_audio_codec
  ap_opus_packet_bytes :: bytes
  ap_is_sync_point :: bool
  ap_group_index :: u64
  ap_sequence_index :: u64
  ap_sample_rate :: u32
  ap_channels :: u32
  ap_sample_count :: u32
  ap_pre_skip :: u32

datatype encoded_bag_refusal = NotAnEncodedBag string | UnknownCodec string | MissingCodec

subsection \<open>Boxes\<close>

datatype mp4_track_media = VideoMedia encoded_video_codec | AudioMedia

definition VIDEO_TRACK_TIMESCALE_HZ :: nat where "VIDEO_TRACK_TIMESCALE_HZ = 1000000000"
definition OPUS_TRACK_TIMESCALE_HZ :: nat where "OPUS_TRACK_TIMESCALE_HZ = 48000"
definition HIGHEST_BYTES_HELD_AWAITING_THE_HEADER :: nat where "HIGHEST_BYTES_HELD_AWAITING_THE_HEADER = 64 * 1024 * 1024"
definition AUDIO_ONLY_FRAGMENT_SPAN_NS :: int where "AUDIO_ONLY_FRAGMENT_SPAN_NS = 1000000000"
definition MDAT_BOX_HEADER_BYTES :: nat where "MDAT_BOX_HEADER_BYTES = 8"
definition SAMPLE_FLAGS_SYNC :: u32 where "SAMPLE_FLAGS_SYNC = 0x02000000"
definition SAMPLE_FLAGS_NON_SYNC :: u32 where "SAMPLE_FLAGS_NON_SYNC = 0x01010000"

fun media_wire_name :: "mp4_track_media \<Rightarrow> string" where
  "media_wire_name (VideoMedia codec) = video_codec_as_wire_str codec"
| "media_wire_name AudioMedia = audio_codec_as_wire_str CodecOpus"

fun media_timescale :: "mp4_track_media \<Rightarrow> nat" where
  "media_timescale (VideoMedia _) = VIDEO_TRACK_TIMESCALE_HZ"
| "media_timescale AudioMedia = OPUS_TRACK_TIMESCALE_HZ"

fun media_handler :: "mp4_track_media \<Rightarrow> string" where
  "media_handler (VideoMedia _) = ''vide''"
| "media_handler AudioMedia = ''soun''"

fun grammar_of_codec :: "encoded_video_codec \<Rightarrow> annex_b_nal_header_grammar" where
  "grammar_of_codec CodecH264 = GrammarH264"
| "grammar_of_codec CodecH265 = GrammarH265"

record trak =
  tk_track_id :: nat
  tk_extent :: "u16 \<times> u16"
  tk_volume :: nat
  tk_timescale :: nat
  tk_handler :: string
  tk_handler_name :: string
  tk_sample_entry :: sample_entry

record moov =
  mv_traks :: "trak list"
  mv_trex_track_ids :: "nat list"
  mv_next_track_id :: nat

record trun_entry =
  te_duration :: nat
  te_size :: u32
  te_flags :: u32

record traf =
  tf_track_id :: nat
  tf_base_media_decode_time :: nat
  tf_data_offset :: i32
  tf_entries :: "trun_entry list"

record moof =
  mf_sequence_number :: nat
  mf_trafs :: "traf list"

subsection \<open>The writer\<close>

record mp4_sample =
  sample_data :: bytes
  sample_duration :: nat
  sample_is_sync_point :: bool

record held_back_sample =
  held_data :: bytes
  held_timestamp_ns :: int
  held_is_sync_point :: bool

datatype latch_refusal =
  CodecNamesNoTrack "string option"
| CodecChanged mp4_track_media mp4_track_media
| ParameterSetsChanged
| SampleEntryRefused mp4_sample_entry_refusal
| FrameGapPastADuration int
| ChannelCountChanged u32 u32
| CaptureGapPastADuration nat
| SilentAtTheBudget nat

record mp4_track =
  inbound_link_name :: string
  track_id :: nat
  media :: "mp4_track_media option"
  tr_sample_entry :: "sample_entry option"
  committed_parameter_sets :: "parameter_sets option"
  committed_channel_count :: "u32 option"
  coded_extent :: "(u32 \<times> u32) option"
  first_timestamp_ns :: "int option"
  last_accepted_timestamp_ns :: "int option"
  opus_ticks_accounted :: nat
  next_fragment_decode_time :: nat
  samples_awaiting_fragment :: "mp4_sample list"
  held_back_video_sample :: "held_back_sample option"
  last_written_sample_duration :: "nat option"
  latched_refusal :: "latch_refusal option"
  tr_bags_discarded_after_latch :: nat
  tr_bags_dropped_out_of_order :: nat

record mp4_tally =
  fragments_written :: nat
  samples_written :: nat
  bags_dropped_out_of_order :: nat
  bags_discarded_after_latch :: nat
  tracks_latched :: nat

record 's mp4_writer =
  mp4_sink :: 's
  tracks :: "mp4_track list"
  header_already_written :: bool
  next_fragment_sequence_number :: nat
  open_fragment_started_at_ns :: "int option"
  tally :: mp4_tally

datatype mp4_error =
  NotAnEnumeratedLink string
| NotARoutableBag string string
| BagRefused string encoded_bag_refusal
| BoxWriteFailure string
| FragmentMoved nat nat
| FragmentPastABoxSize nat
| SinkFailed string

record 's mp4_env =
  peek_codec :: "bytes \<Rightarrow> string + string option"
  video_named_map :: "bytes \<Rightarrow> string + encoded_video_frame_named_map"
  audio_named_map :: "bytes \<Rightarrow> string + encoded_audio_packet_named_map"
  parse_h265_sps :: "bytes \<Rightarrow> parsed_h265_sps option"
  encode_ftyp :: "string + bytes"
  encode_moov :: "moov \<Rightarrow> string + bytes"
  encode_moof :: "moof \<Rightarrow> string + bytes"
  write_all :: "bytes \<Rightarrow> 's \<Rightarrow> (string + unit) \<times> 's"
  flush_sink :: "'s \<Rightarrow> (string + unit) \<times> 's"

definition read_encoded_video_frame_bag :: "'s mp4_env \<Rightarrow> bytes \<Rightarrow> encoded_bag_refusal + encoded_video_frame" where
  "read_encoded_video_frame_bag env bag =
     (case video_named_map env bag of
        Inl failure \<Rightarrow> Inl (NotAnEncodedBag failure)
      | Inr m \<Rightarrow>
          (case vm_codec m of
             None \<Rightarrow> Inl MissingCodec
           | Some wire_codec \<Rightarrow>
               and_then (ok_or (UnknownCodec wire_codec) (video_codec_from_wire_str wire_codec)) (\<lambda>codec.
                 Inr \<lparr>vf_codec = codec, vf_annex_b_access_unit_bytes = vm_annex_b_access_unit_bytes m,
                      vf_is_sync_point = vm_is_sync_point m, vf_group_index = vm_group_index m,
                      vf_sequence_index = vm_sequence_index m, vf_width = vm_width m, vf_height = vm_height m,
                      vf_color = vm_color m\<rparr>)))"

definition read_encoded_audio_packet_bag :: "'s mp4_env \<Rightarrow> bytes \<Rightarrow> encoded_bag_refusal + encoded_audio_packet" where
  "read_encoded_audio_packet_bag env bag =
     (case audio_named_map env bag of
        Inl failure \<Rightarrow> Inl (NotAnEncodedBag failure)
      | Inr m \<Rightarrow>
          (case am_codec m of
             None \<Rightarrow> Inl MissingCodec
           | Some wire_codec \<Rightarrow>
               and_then (ok_or (UnknownCodec wire_codec) (audio_codec_from_wire_str wire_codec)) (\<lambda>codec.
                 Inr \<lparr>ap_codec = codec, ap_opus_packet_bytes = am_opus_packet_bytes m,
                      ap_is_sync_point = am_is_sync_point m, ap_group_index = am_group_index m,
                      ap_sequence_index = am_sequence_index m, ap_sample_rate = am_sample_rate m,
                      ap_channels = am_channels m, ap_sample_count = am_sample_count m, ap_pre_skip = am_pre_skip m\<rparr>)))"

text \<open>A step that may fail, followed by another.\<close>

definition then_do :: "('e + 'a) \<times> 'w \<Rightarrow> ('w \<Rightarrow> ('e + 'b) \<times> 'w) \<Rightarrow> ('e + 'b) \<times> 'w" where
  "then_do r f = (case r of (Inl e, w) \<Rightarrow> (Inl e, w) | (Inr _, w) \<Rightarrow> f w)"

definition track_new :: "string \<Rightarrow> nat \<Rightarrow> mp4_track" where
  "track_new link tid =
     \<lparr>inbound_link_name = link, track_id = tid, media = None, tr_sample_entry = None, committed_parameter_sets = None,
      committed_channel_count = None, coded_extent = None, first_timestamp_ns = None, last_accepted_timestamp_ns = None,
      opus_ticks_accounted = 0, next_fragment_decode_time = 0, samples_awaiting_fragment = [], held_back_video_sample = None,
      last_written_sample_duration = None, latched_refusal = None, tr_bags_discarded_after_latch = 0,
      tr_bags_dropped_out_of_order = 0\<rparr>"

definition is_latched :: "mp4_track \<Rightarrow> bool" where
  "is_latched t \<longleftrightarrow> latched_refusal t \<noteq> None"

text \<open>Whether this call is what latched the track, and the track.\<close>

definition latch :: "latch_refusal \<Rightarrow> mp4_track \<Rightarrow> bool \<times> mp4_track" where
  "latch refusal t =
     (if is_latched t then (False, t)
      else (True, t\<lparr>latched_refusal := Some refusal, samples_awaiting_fragment := [], held_back_video_sample := None\<rparr>))"

definition writer_new :: "'s \<Rightarrow> string list \<Rightarrow> 's mp4_writer" where
  "writer_new sink links =
     \<lparr>mp4_sink = sink, tracks = map (\<lambda>(i, link). track_new link (i + 1)) (enumerate 0 links), header_already_written = False,
      next_fragment_sequence_number = 1, open_fragment_started_at_ns = None,
      tally = \<lparr>fragments_written = 0, samples_written = 0, bags_dropped_out_of_order = 0, bags_discarded_after_latch = 0,
               tracks_latched = 0\<rparr>\<rparr>"

definition map_track :: "nat \<Rightarrow> (mp4_track \<Rightarrow> mp4_track) \<Rightarrow> 's mp4_writer \<Rightarrow> 's mp4_writer" where
  "map_track i f w = w\<lparr>tracks := (tracks w)[i := f (tracks w ! i)]\<rparr>"

definition latch_track :: "nat \<Rightarrow> latch_refusal \<Rightarrow> 's mp4_writer \<Rightarrow> 's mp4_writer" where
  "latch_track i refusal w =
     (case latch refusal (tracks w ! i) of
        (newly, t) \<Rightarrow>
          w\<lparr>tracks := (tracks w)[i := t],
            tally := (if newly then (tally w)\<lparr>tracks_latched := tracks_latched (tally w) + 1\<rparr> else tally w)\<rparr>)"

definition inbound_links_still_silent :: "'s mp4_writer \<Rightarrow> string list" where
  "inbound_links_still_silent w =
     map inbound_link_name (filter (\<lambda>t. tr_sample_entry t = None \<and> \<not> is_latched t) (tracks w))"

definition rescale_nanoseconds :: "int \<Rightarrow> nat \<Rightarrow> nat" where
  "rescale_nanoseconds nanoseconds timescale =
     (if timescale = VIDEO_TRACK_TIMESCALE_HZ then nat (max 0 nanoseconds)
      else nat (max 0 nanoseconds) * timescale div VIDEO_TRACK_TIMESCALE_HZ)"

definition commit_or_latch_media :: "nat \<Rightarrow> mp4_track_media \<Rightarrow> 's mp4_writer \<Rightarrow> bool \<times> 's mp4_writer" where
  "commit_or_latch_media i m w =
     (case media (tracks w ! i) of
        Some committed \<Rightarrow> if committed \<noteq> m then (False, latch_track i (CodecChanged committed m) w) else (True, w)
      | None \<Rightarrow> (True, map_track i (media_update (\<lambda>_. Some m)) w))"

definition accept_timestamp :: "nat \<Rightarrow> int \<Rightarrow> 's mp4_writer \<Rightarrow> bool \<times> 's mp4_writer" where
  "accept_timestamp i ts w =
     (let t = tracks w ! i
      in if (case last_accepted_timestamp_ns t of Some newest \<Rightarrow> ts \<le> newest | None \<Rightarrow> False)
         then (False, (map_track i (\<lambda>t. t\<lparr>tr_bags_dropped_out_of_order := tr_bags_dropped_out_of_order t + 1\<rparr>) w)
                        \<lparr>tally := (tally w)\<lparr>bags_dropped_out_of_order := bags_dropped_out_of_order (tally w) + 1\<rparr>\<rparr>)
         else (True, (map_track i (\<lambda>t. t\<lparr>last_accepted_timestamp_ns := Some ts,
                          first_timestamp_ns := (case first_timestamp_ns t of None \<Rightarrow> Some ts | s \<Rightarrow> s)\<rparr>) w)
                        \<lparr>open_fragment_started_at_ns := (case open_fragment_started_at_ns w of None \<Rightarrow> Some ts | s \<Rightarrow> s)\<rparr>))"

definition is_recording_video :: "mp4_track \<Rightarrow> bool" where
  "is_recording_video t \<longleftrightarrow> (case media t of Some (VideoMedia _) \<Rightarrow> \<not> is_latched t | _ \<Rightarrow> False)"

definition no_video_track_is_wired :: "'s mp4_writer \<Rightarrow> bool" where
  "no_video_track_is_wired w \<longleftrightarrow> \<not> (\<exists>t\<in>set (tracks w). is_recording_video t)"

fun position :: "('a \<Rightarrow> bool) \<Rightarrow> 'a list \<Rightarrow> nat option" where
  "position p [] = None"
| "position p (x # xs) = (if p x then Some 0 else map_option Suc (position p xs))"

definition is_pacing_video_track :: "nat \<Rightarrow> 's mp4_writer \<Rightarrow> bool" where
  "is_pacing_video_track i w \<longleftrightarrow> position is_recording_video (tracks w) = Some i"

definition represent_any_capture_gap_before_this_packet :: "nat \<Rightarrow> int \<Rightarrow> u32 \<Rightarrow> 's mp4_writer \<Rightarrow> bool \<times> 's mp4_writer" where
  "represent_any_capture_gap_before_this_packet i ts sample_count w =
     (let t = tracks w ! i
      in case first_timestamp_ns t of
           None \<Rightarrow> (True, w)
         | Some first \<Rightarrow>
             (let elapsed = rescale_nanoseconds (i64_saturating_sub ts first) OPUS_TRACK_TIMESCALE_HZ;
                  accounted = opus_ticks_accounted t;
                  gap = elapsed - accounted
              in if elapsed < accounted \<or> gap < unat sample_count then (True, w)
                 else if samples_awaiting_fragment t \<noteq> [] then
                   (let preceding = last (samples_awaiting_fragment t);
                        covering = sample_duration preceding + gap
                    in if 2 ^ 32 \<le> covering then (False, latch_track i (CaptureGapPastADuration gap) w)
                       else (True, map_track i (\<lambda>t. t\<lparr>samples_awaiting_fragment :=
                               butlast (samples_awaiting_fragment t) @ [preceding\<lparr>sample_duration := covering\<rparr>],
                               opus_ticks_accounted := accounted + gap\<rparr>) w))
                 else (True, map_track i (\<lambda>t. t\<lparr>next_fragment_decode_time := next_fragment_decode_time t + gap,
                               opus_ticks_accounted := accounted + gap\<rparr>) w)))"

definition bytes_held_by :: "mp4_track \<Rightarrow> nat" where
  "bytes_held_by t =
     (\<Sum>s\<leftarrow>samples_awaiting_fragment t. length (sample_data s)) +
     (case held_back_video_sample t of Some held \<Rightarrow> length (held_data held) | None \<Rightarrow> 0)"

definition bytes_held_awaiting_the_header :: "'s mp4_writer \<Rightarrow> nat" where
  "bytes_held_awaiting_the_header w = (\<Sum>t\<leftarrow>tracks w. bytes_held_by t)"

definition latch_links_still_silent_at_the_budget :: "'s mp4_writer \<Rightarrow> 's mp4_writer" where
  "latch_links_still_silent_at_the_budget w =
     (let bytes_held = bytes_held_awaiting_the_header w
      in fold (\<lambda>i w. if tr_sample_entry (tracks w ! i) \<noteq> None \<or> is_latched (tracks w ! i) then w
                     else latch_track i (SilentAtTheBudget bytes_held) w) [0..<length (tracks w)] w)"

subsection \<open>The header\<close>

definition build_trak :: "mp4_track \<Rightarrow> trak option" where
  "build_trak t =
     (case (media t, tr_sample_entry t) of
        (Some m, Some entry) \<Rightarrow>
          (let (coded_width, coded_height) = (case coded_extent t of Some e \<Rightarrow> e | None \<Rightarrow> (0, 0))
           in Some \<lparr>tk_track_id = track_id t, tk_extent = (ucast coded_width, ucast coded_height),
                    tk_volume = (case m of VideoMedia _ \<Rightarrow> 0 | AudioMedia \<Rightarrow> 1),
                    tk_timescale = media_timescale m, tk_handler = media_handler m,
                    tk_handler_name = inbound_link_name t, tk_sample_entry = entry\<rparr>)
      | _ \<Rightarrow> None)"

definition build_moov :: "'s mp4_writer \<Rightarrow> moov" where
  "build_moov w =
     (let traks = List.map_filter build_trak (tracks w)
      in \<lparr>mv_traks = traks, mv_trex_track_ids = map tk_track_id traks,
          mv_next_track_id = (case traks of [] \<Rightarrow> 1 | _ \<Rightarrow> Max (set (map (\<lambda>trak. tk_track_id trak + 1) traks)))\<rparr>)"

definition sink_write :: "'s mp4_env \<Rightarrow> bytes \<Rightarrow> 's mp4_writer \<Rightarrow> (mp4_error + unit) \<times> 's mp4_writer" where
  "sink_write env bs w =
     (case write_all env bs (mp4_sink w) of
        (Inl failure, s) \<Rightarrow> (Inl (SinkFailed failure), w\<lparr>mp4_sink := s\<rparr>) | (Inr _, s) \<Rightarrow> (Inr (), w\<lparr>mp4_sink := s\<rparr>))"

definition sink_flush :: "'s mp4_env \<Rightarrow> 's mp4_writer \<Rightarrow> (mp4_error + unit) \<times> 's mp4_writer" where
  "sink_flush env w =
     (case flush_sink env (mp4_sink w) of
        (Inl failure, s) \<Rightarrow> (Inl (SinkFailed failure), w\<lparr>mp4_sink := s\<rparr>) | (Inr _, s) \<Rightarrow> (Inr (), w\<lparr>mp4_sink := s\<rparr>))"

definition place_track_at_its_offset :: "int \<Rightarrow> mp4_track \<Rightarrow> mp4_track" where
  "place_track_at_its_offset epoch t =
     (case media t of
        None \<Rightarrow> t
      | Some m \<Rightarrow>
          t\<lparr>next_fragment_decode_time := rescale_nanoseconds
              (max 0 (i64_saturating_sub (case first_timestamp_ns t of Some first \<Rightarrow> first | None \<Rightarrow> epoch) epoch))
              (media_timescale m)\<rparr>)"

definition every_track_describable :: "'s mp4_writer \<Rightarrow> bool" where
  "every_track_describable w \<longleftrightarrow> (\<forall>t\<in>set (tracks w). tr_sample_entry t \<noteq> None \<or> is_latched t)"

definition epoch_of :: "'s mp4_writer \<Rightarrow> int option" where
  "epoch_of w = (case List.map_filter first_timestamp_ns (tracks w) of [] \<Rightarrow> None | stamps \<Rightarrow> Some (Min (set stamps)))"

definition write_header_once_every_track_can_be_described ::
    "'s mp4_env \<Rightarrow> 's mp4_writer \<Rightarrow> (mp4_error + unit) \<times> 's mp4_writer" where
  "write_header_once_every_track_can_be_described env w =
     (if header_already_written w then (Inr (), w)
      else let w = (if HIGHEST_BYTES_HELD_AWAITING_THE_HEADER < bytes_held_awaiting_the_header w
                    then latch_links_still_silent_at_the_budget w else w)
           in if \<not> every_track_describable w then (Inr (), w)
              else case epoch_of w of
                     None \<Rightarrow> (Inr (), w)
                   | Some epoch \<Rightarrow>
                       (case and_then (encode_ftyp env) (\<lambda>ftyp. and_then (encode_moov env (build_moov w)) (\<lambda>moov. Inr (ftyp @ moov))) of
                          Inl failure \<Rightarrow> (Inl (BoxWriteFailure failure), w)
                        | Inr header_bytes \<Rightarrow>
                            then_do (sink_write env header_bytes w) (\<lambda>w.
                              (Inr (), w\<lparr>tracks := map (place_track_at_its_offset epoch) (tracks w),
                                         header_already_written := True\<rparr>))))"

subsection \<open>Fragments\<close>

definition trun_entry_of :: "mp4_sample \<Rightarrow> trun_entry" where
  "trun_entry_of s =
     \<lparr>te_duration = sample_duration s, te_size = of_nat (length (sample_data s)),
      te_flags = (if sample_is_sync_point s then SAMPLE_FLAGS_SYNC else SAMPLE_FLAGS_NON_SYNC)\<rparr>"

definition build_traf :: "mp4_track \<Rightarrow> i32 option \<Rightarrow> traf" where
  "build_traf t data_offset =
     \<lparr>tf_track_id = track_id t, tf_base_media_decode_time = next_fragment_decode_time t,
      tf_data_offset = (case data_offset of Some offset \<Rightarrow> offset | None \<Rightarrow> 0),
      tf_entries = map trun_entry_of (samples_awaiting_fragment t)\<rparr>"

definition build_moof :: "'s mp4_writer \<Rightarrow> nat list \<Rightarrow> (nat \<times> i32) list \<Rightarrow> moof" where
  "build_moof w contributing data_offsets =
     \<lparr>mf_sequence_number = next_fragment_sequence_number w,
      mf_trafs = map (\<lambda>i. build_traf (tracks w ! i) (map_of data_offsets i)) contributing\<rparr>"

definition track_media_bytes :: "mp4_track \<Rightarrow> bytes" where
  "track_media_bytes t = concat (map sample_data (samples_awaiting_fragment t))"

fun lay_out_data :: "mp4_track list \<Rightarrow> nat list \<Rightarrow> nat \<Rightarrow> (nat \<times> i32) list \<times> nat" where
  "lay_out_data ts [] running = ([], running)"
| "lay_out_data ts (i # contributing) running =
     (case lay_out_data ts contributing (running + (\<Sum>s\<leftarrow>samples_awaiting_fragment (ts ! i). length (sample_data s))) of
        (offsets, finally) \<Rightarrow> ((i, of_nat running) # offsets, finally))"

definition contributing_tracks :: "'s mp4_writer \<Rightarrow> nat list" where
  "contributing_tracks w = filter (\<lambda>i. samples_awaiting_fragment (tracks w ! i) \<noteq> []) [0..<length (tracks w)]"

definition settle_written_track :: "mp4_track \<Rightarrow> mp4_track" where
  "settle_written_track t =
     t\<lparr>next_fragment_decode_time := next_fragment_decode_time t + (\<Sum>s\<leftarrow>samples_awaiting_fragment t. sample_duration s),
       last_written_sample_duration :=
         (if samples_awaiting_fragment t = [] then last_written_sample_duration t
          else Some (sample_duration (last (samples_awaiting_fragment t)))),
       samples_awaiting_fragment := []\<rparr>"

definition settle_written_tracks :: "nat list \<Rightarrow> 's mp4_writer \<Rightarrow> 's mp4_writer" where
  "settle_written_tracks contributing w =
     fold (\<lambda>i w. (map_track i settle_written_track w)\<lparr>tally := (tally w)\<lparr>samples_written :=
                   samples_written (tally w) + length (samples_awaiting_fragment (tracks w ! i))\<rparr>\<rparr>) contributing w"

fun write_each :: "'s mp4_env \<Rightarrow> bytes list \<Rightarrow> 's mp4_writer \<Rightarrow> (mp4_error + unit) \<times> 's mp4_writer" where
  "write_each env [] w = (Inr (), w)"
| "write_each env (bs # rest) w = then_do (sink_write env bs w) (write_each env rest)"

definition write_fragment ::
    "'s mp4_env \<Rightarrow> bytes \<Rightarrow> nat \<Rightarrow> nat list \<Rightarrow> 's mp4_writer \<Rightarrow> (mp4_error + unit) \<times> 's mp4_writer" where
  "write_fragment env fragment_bytes media_data_bytes contributing w =
     then_do (sink_write env fragment_bytes w) (\<lambda>w.
       let mdat_box_bytes = MDAT_BOX_HEADER_BYTES + media_data_bytes
       in if 2 ^ 32 \<le> mdat_box_bytes then (Inl (FragmentPastABoxSize media_data_bytes), w)
          else then_do (sink_write env (be_bytes 4 (of_nat mdat_box_bytes :: u32)) w) (\<lambda>w.
               then_do (sink_write env (as_bytes ''mdat'') w) (\<lambda>w.
               then_do (write_each env (concat (map (\<lambda>i. map sample_data (samples_awaiting_fragment (tracks w ! i))) contributing)) w) (\<lambda>w.
               sink_flush env w))))"

definition close_open_fragment :: "'s mp4_env \<Rightarrow> 's mp4_writer \<Rightarrow> (mp4_error + unit) \<times> 's mp4_writer" where
  "close_open_fragment env w =
     (if \<not> header_already_written w then (Inr (), w)
      else let contributing = contributing_tracks w
           in if contributing = [] then (Inr (), w)
              else case encode_moof env (build_moof w contributing []) of
                     Inl failure \<Rightarrow> (Inl (BoxWriteFailure failure), w)
                   | Inr sized \<Rightarrow>
                       (let moof_bytes = length sized;
                            (data_offsets, running) = lay_out_data (tracks w) contributing (moof_bytes + MDAT_BOX_HEADER_BYTES)
                        in case encode_moof env (build_moof w contributing data_offsets) of
                             Inl failure \<Rightarrow> (Inl (BoxWriteFailure failure), w)
                           | Inr fragment_bytes \<Rightarrow>
                               if length fragment_bytes \<noteq> moof_bytes
                               then (Inl (FragmentMoved moof_bytes (length fragment_bytes)), w)
                               else then_do (write_fragment env fragment_bytes (running - moof_bytes - MDAT_BOX_HEADER_BYTES) contributing w) (\<lambda>w.
                                 let w = settle_written_tracks contributing w
                                 in (Inr (), w\<lparr>next_fragment_sequence_number := next_fragment_sequence_number w + 1,
                                               tally := (tally w)\<lparr>fragments_written := fragments_written (tally w) + 1\<rparr>,
                                               open_fragment_started_at_ns := None\<rparr>))))"

subsection \<open>Taking a bag\<close>

definition build_video_sample_entry ::
    "'s mp4_env \<Rightarrow> annex_b_nal_header_grammar \<Rightarrow> string \<Rightarrow> parameter_sets \<Rightarrow> u32 \<Rightarrow> u32 \<Rightarrow> mp4_sample_entry_refusal + sample_entry" where
  "build_video_sample_entry env grammar link sets coded_width coded_height =
     (case grammar of
        GrammarH264 \<Rightarrow> and_then (build_avc1_sample_entry link sets coded_width coded_height) (\<lambda>e. Inr (Avc1 e))
      | GrammarH265 \<Rightarrow> and_then (build_hvc1_sample_entry (parse_h265_sps env) link sets coded_width coded_height) (\<lambda>e. Inr (Hvc1 e)))"

text \<open>Whether the track is still recording after what a sync point's parameter sets say.\<close>

definition commit_parameter_sets ::
    "'s mp4_env \<Rightarrow> nat \<Rightarrow> annex_b_nal_header_grammar \<Rightarrow> encoded_video_frame \<Rightarrow> parameter_sets \<Rightarrow> 's mp4_writer \<Rightarrow> bool \<times> 's mp4_writer" where
  "commit_parameter_sets env i grammar frame sets w =
     (if vf_is_sync_point frame \<and> is_complete_for grammar sets
      then case committed_parameter_sets (tracks w ! i) of
             Some committed \<Rightarrow> if committed \<noteq> sets then (False, latch_track i ParameterSetsChanged w) else (True, w)
           | None \<Rightarrow>
               (case build_video_sample_entry env grammar (inbound_link_name (tracks w ! i)) sets (vf_width frame) (vf_height frame) of
                  Inl refusal \<Rightarrow> (False, latch_track i (SampleEntryRefused refusal) w)
                | Inr entry \<Rightarrow>
                    (True, map_track i (\<lambda>t. t\<lparr>tr_sample_entry := Some entry, committed_parameter_sets := Some sets,
                                              coded_extent := Some (vf_width frame, vf_height frame)\<rparr>) w))
      else (True, w))"

text \<open>The frame held back gets its duration from its successor's stamp.\<close>

definition resolve_held_back_sample :: "nat \<Rightarrow> int \<Rightarrow> 's mp4_writer \<Rightarrow> bool \<times> 's mp4_writer" where
  "resolve_held_back_sample i ts w =
     (case held_back_video_sample (tracks w ! i) of
        None \<Rightarrow> (True, w)
      | Some previous \<Rightarrow>
          (let w = map_track i (\<lambda>t. t\<lparr>held_back_video_sample := None\<rparr>) w;
               duration_ns = max 0 (i64_saturating_sub ts (held_timestamp_ns previous))
           in if 2 ^ 32 \<le> duration_ns then (False, latch_track i (FrameGapPastADuration duration_ns) w)
              else (True, map_track i (\<lambda>t. t\<lparr>samples_awaiting_fragment := samples_awaiting_fragment t @
                      [\<lparr>sample_data = held_data previous, sample_duration = nat duration_ns,
                        sample_is_sync_point = held_is_sync_point previous\<rparr>]\<rparr>) w)))"

definition accept_video_bag ::
    "'s mp4_env \<Rightarrow> nat \<Rightarrow> bytes \<Rightarrow> int \<Rightarrow> 's mp4_writer \<Rightarrow> (mp4_error + unit) \<times> 's mp4_writer" where
  "accept_video_bag env i bag ts w =
     (case read_encoded_video_frame_bag env bag of
        Inl refusal \<Rightarrow> (Inl (BagRefused (inbound_link_name (tracks w ! i)) refusal), w)
      | Inr frame \<Rightarrow>
          (case commit_or_latch_media i (VideoMedia (vf_codec frame)) w of
             (False, w) \<Rightarrow> (Inr (), w)
           | (True, w) \<Rightarrow>
               (let grammar = grammar_of_codec (vf_codec frame);
                    split = length_prefix_annex_b_access_unit (vf_annex_b_access_unit_bytes frame) grammar
                in case commit_parameter_sets env i grammar frame (sample_parameter_sets split) w of
                     (False, w) \<Rightarrow> (Inr (), w)
                   | (True, w) \<Rightarrow>
                       if tr_sample_entry (tracks w ! i) = None then (Inr (), w)
                       else case accept_timestamp i ts w of
                              (False, w) \<Rightarrow> (Inr (), w)
                            | (True, w) \<Rightarrow>
                                (case resolve_held_back_sample i ts w of
                                   (False, w) \<Rightarrow> (Inr (), w)
                                 | (True, w) \<Rightarrow>
                                     then_do (if vf_is_sync_point frame \<and> is_pacing_video_track i w
                                              then close_open_fragment env w else (Inr (), w)) (\<lambda>w.
                                       write_header_once_every_track_can_be_described env
                                         (map_track i (\<lambda>t. t\<lparr>held_back_video_sample := Some
                                            \<lparr>held_data = length_prefixed_sample_bytes split, held_timestamp_ns = ts,
                                             held_is_sync_point = vf_is_sync_point frame\<rparr>\<rparr>) w))))))"

definition commit_channel_count :: "nat \<Rightarrow> encoded_audio_packet \<Rightarrow> 's mp4_writer \<Rightarrow> bool \<times> 's mp4_writer" where
  "commit_channel_count i packet w =
     (case committed_channel_count (tracks w ! i) of
        Some committed \<Rightarrow>
          if committed \<noteq> ap_channels packet then (False, latch_track i (ChannelCountChanged committed (ap_channels packet)) w)
          else (True, w)
      | None \<Rightarrow>
          (case build_opus_sample_entry (inbound_link_name (tracks w ! i)) (ap_channels packet) (ap_pre_skip packet) of
             Inl refusal \<Rightarrow> (False, latch_track i (SampleEntryRefused refusal) w)
           | Inr entry \<Rightarrow>
               (True, map_track i (\<lambda>t. t\<lparr>tr_sample_entry := Some (OpusEntry entry),
                                         committed_channel_count := Some (ap_channels packet)\<rparr>) w)))"

definition accept_audio_bag ::
    "'s mp4_env \<Rightarrow> nat \<Rightarrow> bytes \<Rightarrow> int \<Rightarrow> 's mp4_writer \<Rightarrow> (mp4_error + unit) \<times> 's mp4_writer" where
  "accept_audio_bag env i bag ts w =
     (case read_encoded_audio_packet_bag env bag of
        Inl refusal \<Rightarrow> (Inl (BagRefused (inbound_link_name (tracks w ! i)) refusal), w)
      | Inr packet \<Rightarrow>
          (case commit_or_latch_media i AudioMedia w of
             (False, w) \<Rightarrow> (Inr (), w)
           | (True, w) \<Rightarrow>
               (case commit_channel_count i packet w of
                  (False, w) \<Rightarrow> (Inr (), w)
                | (True, w) \<Rightarrow>
                    (case accept_timestamp i ts w of
                       (False, w) \<Rightarrow> (Inr (), w)
                     | (True, w) \<Rightarrow>
                         (case represent_any_capture_gap_before_this_packet i ts (ap_sample_count packet) w of
                            (False, w) \<Rightarrow> (Inr (), w)
                          | (True, w) \<Rightarrow>
                              then_do (write_header_once_every_track_can_be_described env
                                (map_track i (\<lambda>t. t\<lparr>samples_awaiting_fragment := samples_awaiting_fragment t @
                                    [\<lparr>sample_data = ap_opus_packet_bytes packet, sample_duration = unat (ap_sample_count packet),
                                      sample_is_sync_point = True\<rparr>],
                                    opus_ticks_accounted := opus_ticks_accounted t + unat (ap_sample_count packet)\<rparr>) w)) (\<lambda>w.
                              if no_video_track_is_wired w \<and>
                                 (case open_fragment_started_at_ns w of
                                    Some started_at \<Rightarrow> AUDIO_ONLY_FRAGMENT_SPAN_NS \<le> i64_saturating_sub ts started_at
                                  | None \<Rightarrow> False)
                              then close_open_fragment env w else (Inr (), w)))))))"

definition accept_bag ::
    "'s mp4_env \<Rightarrow> string \<Rightarrow> bytes \<Rightarrow> int \<Rightarrow> 's mp4_writer \<Rightarrow> (mp4_error + unit) \<times> 's mp4_writer" where
  "accept_bag env link bag ts w =
     (case position (\<lambda>t. inbound_link_name t = link) (tracks w) of
        None \<Rightarrow> (Inl (NotAnEnumeratedLink link), w)
      | Some i \<Rightarrow>
          if is_latched (tracks w ! i)
          then (Inr (), (map_track i (\<lambda>t. t\<lparr>tr_bags_discarded_after_latch := tr_bags_discarded_after_latch t + 1\<rparr>) w)
                          \<lparr>tally := (tally w)\<lparr>bags_discarded_after_latch := bags_discarded_after_latch (tally w) + 1\<rparr>\<rparr>)
          else case peek_codec env bag of
                 Inl failure \<Rightarrow> (Inl (NotARoutableBag link failure), w)
               | Inr named \<Rightarrow>
                   if Option.bind named video_codec_from_wire_str \<noteq> None then accept_video_bag env i bag ts w
                   else if Option.bind named audio_codec_from_wire_str \<noteq> None then accept_audio_bag env i bag ts w
                   else (Inr (), latch_track i (CodecNamesNoTrack named) w))"

definition release_held_back_sample :: "mp4_track \<Rightarrow> mp4_track" where
  "release_held_back_sample t =
     (case held_back_video_sample t of
        None \<Rightarrow> t
      | Some held \<Rightarrow>
          (let predecessor_duration =
             (if samples_awaiting_fragment t \<noteq> [] then sample_duration (last (samples_awaiting_fragment t))
              else case last_written_sample_duration t of Some d \<Rightarrow> d | None \<Rightarrow> 0)
           in t\<lparr>held_back_video_sample := None,
                samples_awaiting_fragment := samples_awaiting_fragment t @
                  [\<lparr>sample_data = held_data held, sample_duration = predecessor_duration,
                    sample_is_sync_point = held_is_sync_point held\<rparr>]\<rparr>))"

definition finish :: "'s mp4_env \<Rightarrow> 's mp4_writer \<Rightarrow> (mp4_error + mp4_tally) \<times> 's mp4_writer" where
  "finish env w =
     then_do (close_open_fragment env (w\<lparr>tracks := map release_held_back_sample (tracks w)\<rparr>)) (\<lambda>w.
     then_do (sink_flush env w) (\<lambda>w. (Inr (tally w), w)))"

end
