(* ===== verification/Mp4_Fragments.thy ===== *)
theory Mp4_Fragments
  imports Mp4_Writer
begin

text \<open>
  Fragments as bytes: what closing a fragment appends to the file, and that a reader who follows the
  data offsets and sizes finds every track's samples there.
\<close>

subsection \<open>Reading a fragment\<close>

text \<open>A sample as a reader sees it: decode time, bytes, whether a decoder may start there.\<close>

type_synonym timed_sample = "nat \<times> bytes \<times> bool"

fun read_entries :: "bytes \<Rightarrow> nat \<Rightarrow> nat \<Rightarrow> trun_entry list \<Rightarrow> timed_sample list" where
  "read_entries frag offset time [] = []"
| "read_entries frag offset time (e # es) =
     (time, take (unat (te_size e)) (drop offset frag), te_flags e = SAMPLE_FLAGS_SYNC)
       # read_entries frag (offset + unat (te_size e)) (time + te_duration e) es"

record fragment =
  fr_moof :: moof
  fr_moof_bytes :: bytes
  fr_media :: bytes

definition fragment_bytes :: "fragment \<Rightarrow> bytes" where
  "fragment_bytes f = fr_moof_bytes f @ be_bytes 4 (of_nat (8 + length (fr_media f)) :: u32) @ as_bytes ''mdat'' @ fr_media f"

definition read_track :: "nat \<Rightarrow> fragment \<Rightarrow> timed_sample list" where
  "read_track tid f =
     concat (map (\<lambda>tf. if tf_track_id tf = tid
                       then read_entries (fragment_bytes f) (unat (tf_data_offset tf)) (tf_base_media_decode_time tf) (tf_entries tf)
                       else []) (mf_trafs (fr_moof f)))"

fun lay_out :: "nat \<Rightarrow> mp4_sample list \<Rightarrow> timed_sample list" where
  "lay_out time [] = []"
| "lay_out time (s # ss) = (time, sample_data s, sample_is_sync_point s) # lay_out (time + sample_duration s) ss"

lemma lay_out_append:
  "lay_out time (ss @ ss') = lay_out time ss @ lay_out (time + (\<Sum>s\<leftarrow>ss. sample_duration s)) ss'"
  by (induction ss arbitrary: time) (simp_all add: add.assoc)

lemma lay_out_eq_Nil [simp]: "lay_out time ss = [] \<longleftrightarrow> ss = []"
  by (cases ss) simp_all

lemma trun_entry_of_simps [simp]:
  "te_duration (trun_entry_of s) = sample_duration s"
  "te_size (trun_entry_of s) = of_nat (length (sample_data s))"
  "te_flags (trun_entry_of s) = SAMPLE_FLAGS_SYNC \<longleftrightarrow> sample_is_sync_point s"
  by (simp_all add: trun_entry_of_def SAMPLE_FLAGS_SYNC_def SAMPLE_FLAGS_NON_SYNC_def)

lemma unat_of_nat_u32: "n < 2 ^ 32 \<Longrightarrow> unat (of_nat n :: u32) = n"
  by (simp add: unat_of_nat take_bit_nat_eq_self)

lemma read_entries_lay_out:
  assumes "drop offset frag = concat (map sample_data ss) @ rest" "length frag < 2 ^ 32"
  shows "read_entries frag offset time (map trun_entry_of ss) = lay_out time ss"
  using assms
proof (induction ss arbitrary: offset time)
  case (Cons s ss)
  have "length (drop offset frag) \<le> length frag"
    by simp
  then have len: "length (sample_data s) < 2 ^ 32"
    using Cons.prems by simp
  have "drop (offset + length (sample_data s)) frag = drop (length (sample_data s)) (drop offset frag)"
    by (simp add: add.commute)
  also have "\<dots> = concat (map sample_data ss) @ rest"
    using Cons.prems(1) by simp
  finally show ?case
    using Cons.IH Cons.prems len by (simp add: unat_of_nat_u32)
qed simp

subsection \<open>Writing a fragment\<close>

definition media_length :: "mp4_track list \<Rightarrow> nat list \<Rightarrow> nat" where
  "media_length ts is = (\<Sum>i\<leftarrow>is. length (track_media_bytes (ts ! i)))"

lemma length_track_media_bytes: "length (track_media_bytes t) = (\<Sum>s\<leftarrow>samples_awaiting_fragment t. length (sample_data s))"
  by (simp add: track_media_bytes_def length_concat comp_def)

lemma lay_out_data_eq:
  "snd (lay_out_data ts is running) = running + media_length ts is"
  "i \<in> set is \<Longrightarrow> distinct is \<Longrightarrow>
     map_of (fst (lay_out_data ts is running)) i = Some (of_nat (running + media_length ts (takeWhile (\<lambda>j. j \<noteq> i) is)))"
  by (induction "is" arbitrary: running) (auto simp: media_length_def length_track_media_bytes case_prod_beta)

lemma concat_only_one:
  "distinct is \<Longrightarrow> concat (map (\<lambda>j. if j = i then f j else []) is) = (if i \<in> set is then f i else [])"
  by (induction "is") auto

lemma drop_to_track:
  assumes "i \<in> set is"
  shows "drop (media_length ts (takeWhile (\<lambda>j. j \<noteq> i) is)) (concat (map (\<lambda>i. track_media_bytes (ts ! i)) is)) =
         track_media_bytes (ts ! i) @ concat (map (\<lambda>i. track_media_bytes (ts ! i)) (tl (dropWhile (\<lambda>j. j \<noteq> i) is)))"
  using assms by (induction "is") (auto simp: media_length_def)

lemma length_fragment_bytes: "length (fragment_bytes f) = length (fr_moof_bytes f) + 8 + length (fr_media f)"
  by (simp add: fragment_bytes_def length_be_bytes as_bytes_def)

lemma read_new_fragment:
  assumes moof: "fr_moof f = build_moof w is (fst (lay_out_data (tracks w) is (length (fr_moof_bytes f) + MDAT_BOX_HEADER_BYTES)))"
    and payload: "fr_media f = concat (map (\<lambda>i. track_media_bytes (tracks w ! i)) is)"
    and "is": "distinct is" "set is \<subseteq> {..<length (tracks w)}"
    and ids: "\<forall>j<length (tracks w). track_id (tracks w ! j) = Suc j"
    and small: "length (fragment_bytes f) < 2 ^ 31"
  shows "read_track (Suc i) f =
    (if i \<in> set is then lay_out (next_fragment_decode_time (tracks w ! i)) (samples_awaiting_fragment (tracks w ! i)) else [])"
proof -
  let ?offset = "\<lambda>j. map_of (fst (lay_out_data (tracks w) is (length (fr_moof_bytes f) + MDAT_BOX_HEADER_BYTES))) j"
  let ?read = "\<lambda>j. read_entries (fragment_bytes f) (unat (tf_data_offset (build_traf (tracks w ! j) (?offset j))))
                     (next_fragment_decode_time (tracks w ! j)) (map trun_entry_of (samples_awaiting_fragment (tracks w ! j)))"
  have "read_track (Suc i) f = concat (map (\<lambda>j. if j = i then ?read j else []) is)"
    unfolding read_track_def moof using "is" ids
    by (auto simp: build_moof_def build_traf_def intro!: arg_cong [where f = concat] map_cong)
  also have "\<dots> = (if i \<in> set is then ?read i else [])"
    using "is" by (simp add: concat_only_one)
  also have "?read i = lay_out (next_fragment_decode_time (tracks w ! i)) (samples_awaiting_fragment (tracks w ! i))"
    if i: "i \<in> set is"
  proof -
    define before where "before = media_length (tracks w) (takeWhile (\<lambda>j. j \<noteq> i) is)"
    have dropped: "drop before (fr_media f) =
        track_media_bytes (tracks w ! i) @ concat (map (\<lambda>i. track_media_bytes (tracks w ! i)) (tl (dropWhile (\<lambda>j. j \<noteq> i) is)))"
      unfolding before_def payload by (rule drop_to_track [OF i])
    have "media_length (tracks w) is = length (fr_media f)"
      by (simp add: payload media_length_def length_concat comp_def)
    moreover have "before \<le> media_length (tracks w) is"
      unfolding before_def media_length_def by (subst takeWhile_dropWhile_id [symmetric, of "is" "\<lambda>j. j \<noteq> i"], subst map_append) simp
    ultimately have bound: "length (fr_moof_bytes f) + 8 + before < 2 ^ 31"
      using small by (simp add: length_fragment_bytes)
    have "tf_data_offset (build_traf (tracks w ! i) (?offset i)) = of_nat (length (fr_moof_bytes f) + 8 + before)"
      by (simp add: lay_out_data_eq(2) [OF i "is"(1)] build_traf_def before_def MDAT_BOX_HEADER_BYTES_def del: of_nat_add)
    then have "unat (tf_data_offset (build_traf (tracks w ! i) (?offset i))) = length (fr_moof_bytes f) + 8 + before"
      using bound by (simp add: unat_of_nat_u32 del: of_nat_add)
    moreover have "drop (length (fr_moof_bytes f) + 8 + before) (fragment_bytes f) = drop before (fr_media f)"
      by (simp add: fragment_bytes_def as_bytes_def add.assoc numeral_eq_Suc)
    ultimately show ?thesis
      using small by (simp add: read_entries_lay_out dropped track_media_bytes_def)
  qed
  ultimately show ?thesis
    by simp
qed

text \<open>A sink that keeps what is written to it, in order, whenever it reports success.\<close>

definition appending_sink :: "'s mp4_env \<Rightarrow> ('s \<Rightarrow> bytes) \<Rightarrow> bool" where
  "appending_sink env contents \<longleftrightarrow>
     (\<forall>bs s u s'. write_all env bs s = (Inr u, s') \<longrightarrow> contents s' = contents s @ bs) \<and>
     (\<forall>s u s'. flush_sink env s = (Inr u, s') \<longrightarrow> contents s' = contents s)"

lemma then_do_Inr:
  assumes "then_do r f = (Inr x, w')"
  obtains u w1 where "r = (Inr u, w1)" "f w1 = (Inr x, w')"
  using assms by (auto simp: then_do_def split: prod.splits sum.splits)

lemma sink_write_Inr:
  assumes "sink_write env bs w = (Inr u, w')" "appending_sink env contents"
  shows "\<exists>s. w' = w\<lparr>mp4_sink := s\<rparr> \<and> contents s = contents (mp4_sink w) @ bs"
  using assms by (auto simp: sink_write_def appending_sink_def split: prod.splits sum.splits)

lemma sink_flush_Inr:
  assumes "sink_flush env w = (Inr u, w')" "appending_sink env contents"
  shows "\<exists>s. w' = w\<lparr>mp4_sink := s\<rparr> \<and> contents s = contents (mp4_sink w)"
  using assms by (auto simp: sink_flush_def appending_sink_def split: prod.splits sum.splits)

lemma write_each_Inr:
  assumes "write_each env bss w = (Inr u, w')" "appending_sink env contents"
  shows "\<exists>s. w' = w\<lparr>mp4_sink := s\<rparr> \<and> contents s = contents (mp4_sink w) @ concat bss"
  using assms(1)
proof (induction bss arbitrary: w)
  case (Cons bs bss)
  then obtain v w1 where "sink_write env bs w = (Inr v, w1)" "write_each env bss w1 = (Inr u, w')"
    by (auto elim: then_do_Inr)
  then show ?case
    using sink_write_Inr [OF _ assms(2)] Cons.IH by fastforce
qed (auto intro: exI [of _ "mp4_sink w'"])

lemma write_fragment_Inr:
  assumes "write_fragment env moof_bytes n is w = (Inr u, w')" "appending_sink env contents"
    and media_bytes: "n = length (concat (map (\<lambda>i. track_media_bytes (tracks w ! i)) is))"
    and f: "f = \<lparr>fr_moof = m, fr_moof_bytes = moof_bytes, fr_media = concat (map (\<lambda>i. track_media_bytes (tracks w ! i)) is)\<rparr>"
  shows "\<exists>s. w' = w\<lparr>mp4_sink := s\<rparr> \<and> contents s = contents (mp4_sink w) @ fragment_bytes f"
proof -
  obtain w1 w2 w3 w4 where steps: "sink_write env moof_bytes w = (Inr (), w1)"
      "sink_write env (be_bytes 4 (of_nat (MDAT_BOX_HEADER_BYTES + n) :: u32)) w1 = (Inr (), w2)"
      "sink_write env (as_bytes ''mdat'') w2 = (Inr (), w3)"
      "write_each env (concat (map (\<lambda>i. map sample_data (samples_awaiting_fragment (tracks w3 ! i))) is)) w3 = (Inr (), w4)"
      "sink_flush env w4 = (Inr (), w')"
    using assms(1) by (auto simp: write_fragment_def Let_def elim!: then_do_Inr split: if_splits)
  have concat: "concat (concat (map (\<lambda>i. map sample_data (samples_awaiting_fragment (tracks w ! i))) is)) =
      concat (map (\<lambda>i. track_media_bytes (tracks w ! i)) is)"
    by (induction "is") (simp_all add: track_media_bytes_def)
  show ?thesis
    using sink_write_Inr [OF steps(1) assms(2)] sink_write_Inr [OF steps(2) assms(2)] sink_write_Inr [OF steps(3) assms(2)]
      write_each_Inr [OF steps(4) assms(2)] sink_flush_Inr [OF steps(5) assms(2)] concat media_bytes
    by (auto simp: f fragment_bytes_def MDAT_BOX_HEADER_BYTES_def)
qed

lemma settle_written_track_idle: "samples_awaiting_fragment t = [] \<Longrightarrow> settle_written_track t = t"
  by (simp add: settle_written_track_def)

lemma settle_written_tracks_frame:
  "mp4_sink (settle_written_tracks is w) = mp4_sink w \<and> header_already_written (settle_written_tracks is w) = header_already_written w"
  unfolding settle_written_tracks_def by (induction "is" arbitrary: w) (simp_all add: map_track_def)

lemma tracks_settle_written_tracks:
  assumes "distinct is" "set is \<subseteq> {..<length (tracks w)}"
  shows "length (tracks (settle_written_tracks is w)) = length (tracks w) \<and>
         (\<forall>j<length (tracks w). tracks (settle_written_tracks is w) ! j =
            (if j \<in> set is then settle_written_track (tracks w ! j) else tracks w ! j))"
  using assms unfolding settle_written_tracks_def
proof (induction "is" arbitrary: w)
  case (Cons i "is")
  let ?w = "(map_track i settle_written_track w)\<lparr>tally := (tally w)\<lparr>samples_written :=
    samples_written (tally w) + length (samples_awaiting_fragment (tracks w ! i))\<rparr>\<rparr>"
  have "tracks ?w = (tracks w)[i := settle_written_track (tracks w ! i)]"
    by (simp add: map_track_def)
  then show ?case
    using Cons.IH [of ?w] Cons.prems by (auto simp: nth_list_update)
qed simp

text \<open>Closing a fragment moves what every track had waiting to the file, where a reader finds it.\<close>

definition is_written :: "'s mp4_env \<Rightarrow> fragment \<Rightarrow> bool" where
  "is_written env f \<longleftrightarrow> encode_moof env (fr_moof f) = Inr (fr_moof_bytes f)"

definition small_enough :: "fragment \<Rightarrow> bool" where
  "small_enough f \<longleftrightarrow> length (fragment_bytes f) < 2 ^ 31"

definition read_file :: "nat \<Rightarrow> fragment list \<Rightarrow> timed_sample list" where
  "read_file tid frags = concat (map (read_track tid) frags)"

abbreviation awaiting :: "mp4_track \<Rightarrow> timed_sample list" where
  "awaiting t \<equiv> lay_out (next_fragment_decode_time t) (samples_awaiting_fragment t)"

lemma close_open_fragment_Inr:
  assumes close: "close_open_fragment env w = (Inr u, w')" and sink: "appending_sink env contents"
    and header: "header_already_written w" and ids: "\<forall>j<length (tracks w). track_id (tracks w ! j) = Suc j"
  shows "\<exists>fs. contents (mp4_sink w') = contents (mp4_sink w) @ concat (map fragment_bytes fs) \<and>
              tracks w' = map settle_written_track (tracks w) \<and> header_already_written w' \<and> list_all (is_written env) fs \<and>
              (list_all small_enough fs \<longrightarrow> (\<forall>i<length (tracks w). read_file (Suc i) fs = awaiting (tracks w ! i)))"
proof (cases "contributing_tracks w = []")
  case True
  then have idle: "\<forall>t\<in>set (tracks w). samples_awaiting_fragment t = []"
    by (auto simp: contributing_tracks_def filter_empty_conv in_set_conv_nth)
  then have "map settle_written_track (tracks w) = tracks w"
    by (simp add: map_idI settle_written_track_idle)
  then show ?thesis
    using close header True idle by (intro exI [of _ "[]"]) (auto simp: close_open_fragment_def read_file_def)
next
  case False
  let ?is = "contributing_tracks w"
  have "is": "distinct ?is" "set ?is \<subseteq> {..<length (tracks w)}"
    "\<And>i. i < length (tracks w) \<Longrightarrow> i \<in> set ?is \<longleftrightarrow> samples_awaiting_fragment (tracks w ! i) \<noteq> []"
    by (auto simp: contributing_tracks_def)
  obtain sized where sized: "encode_moof env (build_moof w ?is []) = Inr sized"
    using close header False by (auto simp: close_open_fragment_def Let_def split: sum.splits)
  define offsets where "offsets = fst (lay_out_data (tracks w) ?is (length sized + MDAT_BOX_HEADER_BYTES))"
  obtain moof_bytes v w1 where moof: "encode_moof env (build_moof w ?is offsets) = Inr moof_bytes"
      "length moof_bytes = length sized"
    and w1: "write_fragment env moof_bytes (media_length (tracks w) ?is) ?is w = (Inr v, w1)"
    and w': "tracks w' = tracks (settle_written_tracks ?is w1)" "mp4_sink w' = mp4_sink (settle_written_tracks ?is w1)"
      "header_already_written w' = header_already_written (settle_written_tracks ?is w1)"
    using close header False sized
    by (auto simp: close_open_fragment_def Let_def offsets_def lay_out_data_eq(1) case_prod_beta split: sum.splits if_splits
             elim!: then_do_Inr)
  define f where "f = \<lparr>fr_moof = build_moof w ?is offsets, fr_moof_bytes = moof_bytes,
                       fr_media = concat (map (\<lambda>i. track_media_bytes (tracks w ! i)) ?is)\<rparr>"
  obtain s where s: "w1 = w\<lparr>mp4_sink := s\<rparr>" "contents s = contents (mp4_sink w) @ fragment_bytes f"
    using write_fragment_Inr [OF w1 sink _ f_def] by (auto simp: media_length_def length_concat comp_def)
  have "tracks w' = map settle_written_track (tracks w)"
    using tracks_settle_written_tracks [of ?is w1] "is" w'(1) s(1)
    by (intro nth_equalityI) (auto simp: settle_written_track_idle)
  moreover have "read_track (Suc i) f = awaiting (tracks w ! i)" if "small_enough f" "i < length (tracks w)" for i
    using that read_new_fragment [of f w ?is i] "is" ids moof(2)
    by (auto simp: f_def offsets_def small_enough_def)
  moreover have "is_written env f"
    using moof(1) by (simp add: is_written_def f_def)
  ultimately show ?thesis
    using w' s settle_written_tracks_frame [of ?is w1] header
    by (intro exI [of _ "[f]"]) (auto simp: read_file_def)
qed

end
