(* ===== verification/Mp4_Timeline.thy ===== *)
theory Mp4_Timeline
  imports Mp4_Fragments
begin

text \<open>
  The timeline a track should have for the bags it accepted, and the invariant that ties it to the
  state of the track while video frames and audio packets are taken.
\<close>

subsection \<open>What the recording should hold\<close>

text \<open>A bag that a track accepted; \<open>ab_ticks\<close> is the length of an audio packet, and absent for a
  video frame.\<close>

record accepted_bag =
  ab_stamp :: int
  ab_data :: bytes
  ab_sync :: bool
  ab_ticks :: "nat option"

definition opus_ticks :: "int \<Rightarrow> nat" where
  "opus_ticks ns = nat ns * 48000 div 1000000000"

text \<open>Where a packet of \<open>c\<close> ticks belongs when the packets before it reach up to \<open>acc\<close>: at its own
  stamp if that leaves room for another packet in between, and after its predecessor otherwise.\<close>

definition opus_place :: "int \<Rightarrow> nat \<Rightarrow> int \<Rightarrow> nat \<Rightarrow> nat" where
  "opus_place first acc stamp c =
     (let elapsed = opus_ticks (stamp - first) in if acc + c \<le> elapsed then elapsed else acc)"

text \<open>A video frame belongs at the distance of its stamp from the earliest stamp of the recording.\<close>

fun timeline :: "int \<Rightarrow> int \<Rightarrow> nat \<Rightarrow> accepted_bag list \<Rightarrow> timed_sample list" where
  "timeline epoch first acc [] = []"
| "timeline epoch first acc (b # bs) =
     (case ab_ticks b of
        None \<Rightarrow> (nat (ab_stamp b - epoch), ab_data b, ab_sync b) # timeline epoch first acc bs
      | Some c \<Rightarrow>
          (let at = opus_place first acc (ab_stamp b) c
           in (opus_ticks (first - epoch) + at, ab_data b, ab_sync b) # timeline epoch first (at + c) bs))"

fun accounted_after :: "int \<Rightarrow> nat \<Rightarrow> accepted_bag list \<Rightarrow> nat" where
  "accounted_after first acc [] = acc"
| "accounted_after first acc (b # bs) =
     accounted_after first (case ab_ticks b of None \<Rightarrow> acc | Some c \<Rightarrow> opus_place first acc (ab_stamp b) c + c) bs"

definition track_timeline :: "int \<Rightarrow> accepted_bag list \<Rightarrow> timed_sample list" where
  "track_timeline epoch bags = timeline epoch (ab_stamp (hd bags)) 0 bags"

lemma timeline_append:
  "timeline epoch first acc (xs @ ys) = timeline epoch first acc xs @ timeline epoch first (accounted_after first acc xs) ys"
  by (induction xs arbitrary: acc) (auto simp: Let_def split: option.split)

lemma accounted_after_append [simp]:
  "accounted_after first acc (xs @ ys) = accounted_after first (accounted_after first acc xs) ys"
  by (induction xs arbitrary: acc) auto

lemma track_timeline_Nil [simp]: "track_timeline epoch [] = []"
  by (simp add: track_timeline_def)

lemma track_timeline_snoc:
  "track_timeline epoch (bs @ [b]) = track_timeline epoch bs @
     timeline epoch (ab_stamp (hd (bs @ [b]))) (accounted_after (ab_stamp (hd (bs @ [b]))) 0 bs) [b]"
  using timeline_append [of epoch "ab_stamp (hd bs)" 0 bs "[b]"]
  by (cases "bs = []") (simp_all add: track_timeline_def del: timeline.simps(2))

lemma track_timeline_eq_Nil [simp]:
  "track_timeline epoch bs = [] \<longleftrightarrow> bs = []" "[] = track_timeline epoch bs \<longleftrightarrow> bs = []"
  by (cases bs; auto simp: track_timeline_def Let_def split: option.split)+

definition shift_times :: "nat \<Rightarrow> timed_sample list \<Rightarrow> timed_sample list" where
  "shift_times d = map (\<lambda>(time, x). (time + d, x))"

lemma lay_out_shift: "lay_out (d + time) ss = shift_times d (lay_out time ss)"
proof (induction ss arbitrary: time)
  case (Cons s ss)
  have "lay_out (d + time) (s # ss) = (d + time, sample_data s, sample_is_sync_point s) # lay_out (d + (time + sample_duration s)) ss"
    by (simp add: add.assoc)
  then show ?case
    unfolding Cons.IH by (simp add: shift_times_def)
qed (simp add: shift_times_def)

lemma timeline_shift_video:
  assumes "\<forall>b\<in>set bs. ab_ticks b = None \<and> first \<le> ab_stamp b" "epoch \<le> first"
  shows "timeline epoch first acc bs = shift_times (nat (first - epoch)) (timeline first first acc bs)"
  using assms by (induction bs) (auto simp: shift_times_def)

lemma timeline_shift_audio:
  assumes "\<forall>b\<in>set bs. ab_ticks b \<noteq> None"
  shows "timeline epoch first acc bs = shift_times (opus_ticks (first - epoch)) (timeline first first acc bs)"
  using assms by (induction bs arbitrary: acc) (auto simp: shift_times_def Let_def opus_ticks_def)

text \<open>An audio packet is never placed a whole packet before its stamp.\<close>

lemma opus_ticks_add_le:
  assumes "0 \<le> a" "0 \<le> b"
  shows "opus_ticks (a + b) \<le> opus_ticks a + opus_ticks b + 1"
proof -
  have "x div (1000000000::nat) + y div 1000000000 + 1 \<ge> (x + y) div 1000000000" for x y
    by linarith
  from this [of "nat a * 48000" "nat b * 48000"] show ?thesis
    using assms by (simp add: opus_ticks_def nat_add_distrib algebra_simps)
qed

definition on_time :: "int \<Rightarrow> accepted_bag \<Rightarrow> timed_sample \<Rightarrow> bool" where
  "on_time epoch b x \<longleftrightarrow> snd x = (ab_data b, ab_sync b) \<and>
     (case ab_ticks b of
        None \<Rightarrow> int (fst x) = ab_stamp b - epoch
      | Some c \<Rightarrow> opus_ticks (ab_stamp b - epoch) \<le> fst x + max 1 c)"

lemma timeline_on_time:
  assumes "\<forall>b\<in>set bs. first \<le> ab_stamp b" "epoch \<le> first"
  shows "list_all2 (on_time epoch) bs (timeline epoch first acc bs)"
  using assms(1)
proof (induction bs arbitrary: acc)
  case (Cons b bs)
  have "opus_ticks (ab_stamp b - epoch) \<le> opus_ticks (first - epoch) + opus_ticks (ab_stamp b - first) + 1"
    using opus_ticks_add_le [of "first - epoch" "ab_stamp b - first"] Cons.prems assms(2) by simp
  then show ?case
    using Cons assms(2) by (auto simp: on_time_def Let_def opus_place_def split: option.split)
qed simp

subsection \<open>A track and the bags it accepted\<close>

definition in_range :: "int \<Rightarrow> bool" where
  "in_range ts \<longleftrightarrow> 0 \<le> ts \<and> ts < 2 ^ 63"

lemma saturating_sub_in_range: "in_range a \<Longrightarrow> in_range b \<Longrightarrow> i64_saturating_sub a b = a - b"
  by (simp add: in_range_def i64_saturating_sub_def)

definition reached :: "mp4_track \<Rightarrow> nat" where
  "reached t = next_fragment_decode_time t + (\<Sum>s\<leftarrow>samples_awaiting_fragment t. sample_duration s)"

definition held_part :: "mp4_track \<Rightarrow> timed_sample list" where
  "held_part t =
     (case held_back_video_sample t of None \<Rightarrow> [] | Some h \<Rightarrow> [(reached t, held_data h, held_is_sync_point h)])"

definition stamps_ok :: "accepted_bag list \<Rightarrow> mp4_track \<Rightarrow> bool" where
  "stamps_ok bags t \<longleftrightarrow>
     last_accepted_timestamp_ns t = (if bags = [] then None else Some (ab_stamp (last bags))) \<and>
     first_timestamp_ns t = (if bags = [] then None else Some (ab_stamp (hd bags))) \<and>
     sorted_wrt (<) (map ab_stamp bags) \<and> (\<forall>b\<in>set bags. in_range (ab_stamp b))"

text \<open>Before the header a track counts from its own first stamp.\<close>

definition origin :: "bool \<Rightarrow> int \<Rightarrow> accepted_bag list \<Rightarrow> int" where
  "origin header epoch bags = (if header then epoch else ab_stamp (hd bags))"

definition video_ok :: "accepted_bag list \<Rightarrow> mp4_track \<Rightarrow> bool" where
  "video_ok bags t \<longleftrightarrow>
     (\<forall>b\<in>set bags. ab_ticks b = None) \<and> (held_back_video_sample t = None \<longleftrightarrow> bags = []) \<and>
     (\<forall>h. held_back_video_sample t = Some h \<longrightarrow> held_timestamp_ns h = ab_stamp (last bags)) \<and>
     (bags \<noteq> [] \<longrightarrow> committed_parameter_sets t \<noteq> None)"

definition audio_ok :: "int \<Rightarrow> accepted_bag list \<Rightarrow> mp4_track \<Rightarrow> bool" where
  "audio_ok start bags t \<longleftrightarrow>
     (\<forall>b\<in>set bags. ab_ticks b \<noteq> None) \<and> held_back_video_sample t = None \<and>
     (bags \<noteq> [] \<longrightarrow> reached t = opus_ticks (ab_stamp (hd bags) - start) + opus_ticks_accounted t \<and>
                       committed_channel_count t \<noteq> None)"

definition media_ok :: "int \<Rightarrow> accepted_bag list \<Rightarrow> mp4_track \<Rightarrow> bool" where
  "media_ok start bags t \<longleftrightarrow>
     (case media t of
        None \<Rightarrow> bags = [] | Some (VideoMedia _) \<Rightarrow> video_ok bags t | Some AudioMedia \<Rightarrow> audio_ok start bags t)"

definition described :: "bool \<Rightarrow> moov \<Rightarrow> mp4_track \<Rightarrow> bool" where
  "described header mv t \<longleftrightarrow> (header \<longrightarrow> (\<exists>k\<in>set (mv_traks mv). build_trak t = Some k))"

definition recording_ok :: "bool \<Rightarrow> int \<Rightarrow> moov \<Rightarrow> accepted_bag list \<Rightarrow> timed_sample list \<Rightarrow> mp4_track \<Rightarrow> bool" where
  "recording_ok header epoch mv bags wr t \<longleftrightarrow>
     wr @ awaiting t @ held_part t = track_timeline (origin header epoch bags) bags \<and>
     (tr_sample_entry t \<noteq> None \<longleftrightarrow> bags \<noteq> []) \<and> (bags = [] \<longrightarrow> committed_channel_count t = None) \<and>
     media_ok (origin header epoch bags) bags t \<and>
     opus_ticks_accounted t = accounted_after (ab_stamp (hd bags)) 0 bags \<and>
     (\<not> header \<longrightarrow> next_fragment_decode_time t = 0) \<and> (header \<longrightarrow> bags \<noteq> []) \<and> described header mv t"

definition track_ok :: "bool \<Rightarrow> int \<Rightarrow> moov \<Rightarrow> accepted_bag list \<Rightarrow> timed_sample list \<Rightarrow> mp4_track \<Rightarrow> bool" where
  "track_ok header epoch mv bags wr t \<longleftrightarrow>
     stamps_ok bags t \<and> (header \<longrightarrow> bags \<noteq> [] \<longrightarrow> epoch \<le> ab_stamp (hd bags)) \<and> (\<not> header \<longrightarrow> wr = []) \<and>
     (if is_latched t
      then samples_awaiting_fragment t = [] \<and> held_back_video_sample t = None \<and>
           prefix wr (track_timeline (origin header epoch bags) bags)
      else recording_ok header epoch mv bags wr t)"

lemma stamps_ok_hd_le: "stamps_ok bags t \<Longrightarrow> b \<in> set bags \<Longrightarrow> ab_stamp (hd bags) \<le> ab_stamp b"
  by (cases bags) (auto simp: stamps_ok_def)

lemma latch_simps [simp]:
  "snd (latch r t) = (if is_latched t then t
     else t\<lparr>latched_refusal := Some r, samples_awaiting_fragment := [], held_back_video_sample := None\<rparr>)"
  by (simp add: latch_def)

lemma track_ok_latch_any:
  assumes "stamps_ok bags t" "header \<longrightarrow> bags \<noteq> [] \<longrightarrow> epoch \<le> ab_stamp (hd bags)" "\<not> header \<longrightarrow> wr = []"
    "prefix wr (track_timeline (origin header epoch bags) bags)" "\<not> is_latched t"
  shows "track_ok header epoch mv bags wr (snd (latch r t))"
  using assms by (simp add: track_ok_def stamps_ok_def is_latched_def)

lemma track_ok_latch:
  assumes "track_ok header epoch mv bags wr t"
  shows "track_ok header epoch mv bags wr (snd (latch r t))"
proof (cases "is_latched t")
  case False
  then have "wr @ awaiting t @ held_part t = track_timeline (origin header epoch bags) bags"
    using assms by (simp add: track_ok_def recording_ok_def)
  then have "prefix wr (track_timeline (origin header epoch bags) bags)"
    by (metis prefixI)
  then show ?thesis
    using assms False by (intro track_ok_latch_any) (auto simp: track_ok_def)
qed (simp add: assms)

text \<open>The middle of taking a video frame: its predecessor has its duration, the frame is not yet held.\<close>

definition mid_ok ::
    "bool \<Rightarrow> int \<Rightarrow> moov \<Rightarrow> accepted_bag list \<Rightarrow> accepted_bag \<Rightarrow> timed_sample list \<Rightarrow> mp4_track \<Rightarrow> bool" where
  "mid_ok header epoch mv bags b wr t \<longleftrightarrow>
     stamps_ok (bags @ [b]) t \<and> (header \<longrightarrow> epoch \<le> ab_stamp (hd (bags @ [b]))) \<and> (\<not> header \<longrightarrow> wr = []) \<and>
     \<not> is_latched t \<and> held_back_video_sample t = None \<and> (\<exists>c. media t = Some (VideoMedia c)) \<and>
     tr_sample_entry t \<noteq> None \<and> committed_parameter_sets t \<noteq> None \<and> opus_ticks_accounted t = 0 \<and>
     (\<forall>b\<in>set (bags @ [b]). ab_ticks b = None) \<and>
     wr @ awaiting t = track_timeline (origin header epoch (bags @ [b])) bags \<and>
     reached t = nat (ab_stamp b - origin header epoch (bags @ [b])) \<and>
     (\<not> header \<longrightarrow> next_fragment_decode_time t = 0) \<and> described header mv t"

lemma settle_written_track_simps [simp]:
  "samples_awaiting_fragment (settle_written_track t) = []"
  "next_fragment_decode_time (settle_written_track t) = reached t"
  "reached (settle_written_track t) = reached t"
  "held_back_video_sample (settle_written_track t) = held_back_video_sample t"
  "held_part (settle_written_track t) = held_part t"
  "is_latched (settle_written_track t) = is_latched t"
  "stamps_ok bags (settle_written_track t) = stamps_ok bags t"
  "media (settle_written_track t) = media t"
  "tr_sample_entry (settle_written_track t) = tr_sample_entry t"
  "committed_parameter_sets (settle_written_track t) = committed_parameter_sets t"
  "committed_channel_count (settle_written_track t) = committed_channel_count t"
  "opus_ticks_accounted (settle_written_track t) = opus_ticks_accounted t"
  "track_id (settle_written_track t) = track_id t"
  "build_trak (settle_written_track t) = build_trak t"
  by (simp_all add: settle_written_track_def reached_def held_part_def is_latched_def stamps_ok_def build_trak_def
      cong: option.case_cong)

lemma settle_written_track_ok [simp]:
  "described header mv (settle_written_track t) = described header mv t"
  "media_ok start bags (settle_written_track t) = media_ok start bags t"
  by (simp_all add: described_def media_ok_def video_ok_def audio_ok_def split: option.split mp4_track_media.split)

lemma track_ok_settle:
  "track_ok True epoch mv bags wr t \<Longrightarrow> track_ok True epoch mv bags (wr @ awaiting t) (settle_written_track t)"
  by (simp add: track_ok_def recording_ok_def split: if_splits)

lemma mid_ok_settle:
  "mid_ok True epoch mv bags b wr t \<Longrightarrow> mid_ok True epoch mv bags b (wr @ awaiting t) (settle_written_track t)"
  by (simp add: mid_ok_def)

lemma rescale_nanoseconds_simps:
  "rescale_nanoseconds ns VIDEO_TRACK_TIMESCALE_HZ = nat ns"
  "rescale_nanoseconds ns OPUS_TRACK_TIMESCALE_HZ = opus_ticks ns"
  by (simp_all add: rescale_nanoseconds_def opus_ticks_def VIDEO_TRACK_TIMESCALE_HZ_def OPUS_TRACK_TIMESCALE_HZ_def max_def)

text \<open>Writing the header moves every track to its place on the common clock.\<close>

lemma place_track_at_its_offset_ok:
  assumes "track_ok False e0 mv0 bags wr t" "is_latched t \<or> tr_sample_entry t \<noteq> None"
    and epoch: "bags \<noteq> [] \<longrightarrow> epoch \<le> ab_stamp (hd bags)" "in_range epoch" and "\<not> is_latched t \<longrightarrow> described True mv t"
  shows "track_ok True epoch mv bags wr (place_track_at_its_offset epoch t)"
proof (cases "is_latched t")
  case True
  then show ?thesis
    using assms by (auto simp: track_ok_def place_track_at_its_offset_def stamps_ok_def is_latched_def split: option.split)
next
  case False
  define first where "first = ab_stamp (hd bags)"
  have ok: "recording_ok False e0 mv0 bags [] t" "stamps_ok bags t" "wr = []"
    using assms False by (auto simp: track_ok_def)
  then have bags: "bags \<noteq> []" and base: "next_fragment_decode_time t = 0"
    using assms(2) False by (auto simp: recording_ok_def)
  then obtain m where m: "media t = Some m"
    using ok(1) by (auto simp: recording_ok_def media_ok_def split: option.splits)
  define d where "d = rescale_nanoseconds (first - epoch) (media_timescale m)"
  have "in_range first" "epoch \<le> first"
    using ok(2) bags epoch by (auto simp: stamps_ok_def first_def)
  then have place: "place_track_at_its_offset epoch t = t\<lparr>next_fragment_decode_time := d\<rparr>"
    using m ok(2) bags epoch by (simp add: place_track_at_its_offset_def d_def stamps_ok_def saturating_sub_in_range first_def)
  have "track_timeline epoch bags = shift_times d (track_timeline first bags)"
    using ok m \<open>epoch \<le> first\<close> bags stamps_ok_hd_le [OF ok(2)]
    by (cases m) (auto simp: track_timeline_def d_def first_def rescale_nanoseconds_simps recording_ok_def media_ok_def
        video_ok_def audio_ok_def intro!: timeline_shift_video timeline_shift_audio)
  also have "track_timeline first bags = awaiting t @ held_part t"
    using ok(1) by (auto simp: recording_ok_def origin_def first_def)
  also have "shift_times d (awaiting t @ held_part t) =
      awaiting (t\<lparr>next_fragment_decode_time := d\<rparr>) @ held_part (t\<lparr>next_fragment_decode_time := d\<rparr>)"
    using base lay_out_shift [of d 0 "samples_awaiting_fragment t"]
    by (simp add: shift_times_def held_part_def reached_def split: option.split)
  finally have "awaiting (t\<lparr>next_fragment_decode_time := d\<rparr>) @ held_part (t\<lparr>next_fragment_decode_time := d\<rparr>) = track_timeline epoch bags"
    by simp
  moreover have "media_ok epoch bags (t\<lparr>next_fragment_decode_time := d\<rparr>)"
    using ok(1) m base bags
    by (cases m) (auto simp: media_ok_def recording_ok_def video_ok_def audio_ok_def reached_def d_def first_def origin_def
        rescale_nanoseconds_simps opus_ticks_def)
  ultimately show ?thesis
    using ok assms bags False
    by (simp add: place track_ok_def recording_ok_def stamps_ok_def is_latched_def origin_def described_def build_trak_def
        cong: option.case_cong)
qed

subsection \<open>Taking a video frame\<close>

definition video_ready :: "bool \<Rightarrow> int \<Rightarrow> moov \<Rightarrow> accepted_bag list \<Rightarrow> timed_sample list \<Rightarrow> mp4_track \<Rightarrow> bool" where
  "video_ready header epoch mv bags wr t \<longleftrightarrow>
     stamps_ok bags t \<and> (header \<longrightarrow> bags \<noteq> [] \<and> epoch \<le> ab_stamp (hd bags)) \<and> (\<not> header \<longrightarrow> wr = []) \<and>
     \<not> is_latched t \<and> (\<exists>c. media t = Some (VideoMedia c)) \<and>
     tr_sample_entry t \<noteq> None \<and> committed_parameter_sets t \<noteq> None \<and> opus_ticks_accounted t = 0 \<and> video_ok bags t \<and>
     wr @ awaiting t @ held_part t = track_timeline (origin header epoch bags) bags \<and>
     (\<not> header \<longrightarrow> next_fragment_decode_time t = 0) \<and> described header mv t"

lemma accounted_after_video: "\<forall>b\<in>set bs. ab_ticks b = None \<Longrightarrow> accounted_after first acc bs = acc"
  by (induction bs) auto

lemma track_timeline_video:
  "ab_ticks b = None \<Longrightarrow>
     track_timeline epoch (bs @ [b]) = track_timeline epoch bs @ [(nat (ab_stamp b - epoch), ab_data b, ab_sync b)]"
  by (simp add: track_timeline_snoc)

definition hold_back :: "accepted_bag \<Rightarrow> mp4_track \<Rightarrow> mp4_track" where
  "hold_back b t = t\<lparr>held_back_video_sample :=
     Some \<lparr>held_data = ab_data b, held_timestamp_ns = ab_stamp b, held_is_sync_point = ab_sync b\<rparr>\<rparr>"

lemma mid_ok_hold_back:
  "mid_ok header epoch mv bags b wr t \<Longrightarrow> track_ok header epoch mv (bags @ [b]) wr (hold_back b t)"
  by (auto simp: mid_ok_def track_ok_def recording_ok_def media_ok_def video_ok_def stamps_ok_def is_latched_def described_def
      build_trak_def held_part_def reached_def track_timeline_video accounted_after_video hold_back_def
      cong: option.case_cong)

definition stamp_track :: "int \<Rightarrow> mp4_track \<Rightarrow> mp4_track" where
  "stamp_track ts t = t\<lparr>last_accepted_timestamp_ns := Some ts,
     first_timestamp_ns := (case first_timestamp_ns t of None \<Rightarrow> Some ts | s \<Rightarrow> s)\<rparr>"

lemma stamps_ok_snoc:
  assumes "stamps_ok bags t" "in_range (ab_stamp b)" "case last_accepted_timestamp_ns t of None \<Rightarrow> True | Some newest \<Rightarrow> newest < ab_stamp b"
  shows "stamps_ok (bags @ [b]) (stamp_track (ab_stamp b) t)"
proof (cases bags rule: rev_cases)
  case (snoc bs b')
  then have "\<forall>x\<in>set bags. ab_stamp x < ab_stamp b"
    using assms by (auto simp: stamps_ok_def sorted_wrt_append)
  then show ?thesis
    using assms snoc by (simp add: stamps_ok_def sorted_wrt_append stamp_track_def ball_Un hd_append)
qed (use assms in \<open>auto simp: stamps_ok_def stamp_track_def\<close>)

definition resolve_track :: "int \<Rightarrow> mp4_track \<Rightarrow> mp4_track" where
  "resolve_track ts t =
     (case held_back_video_sample t of
        None \<Rightarrow> t
      | Some p \<Rightarrow> t\<lparr>held_back_video_sample := None, samples_awaiting_fragment := samples_awaiting_fragment t @
          [\<lparr>sample_data = held_data p, sample_duration = nat (ts - held_timestamp_ns p), sample_is_sync_point = held_is_sync_point p\<rparr>]\<rparr>)"


lemma reached_held:
  assumes "video_ready header epoch mv bags wr t" "held_back_video_sample t = Some p"
  shows "reached t = nat (ab_stamp (last bags) - origin header epoch bags)"
    and "held_timestamp_ns p = ab_stamp (last bags)" and "bags \<noteq> []"
proof -
  show "bags \<noteq> []" "held_timestamp_ns p = ab_stamp (last bags)"
    using assms by (auto simp: video_ready_def video_ok_def)
  then obtain bs b where bags: "bags = bs @ [b]"
    by (metis append_butlast_last_id)
  then have "wr @ awaiting t @ held_part t =
      track_timeline (origin header epoch bags) bs @ [(nat (ab_stamp b - origin header epoch bags), ab_data b, ab_sync b)]"
    using assms(1) by (simp add: video_ready_def video_ok_def flip: track_timeline_video)
  then have "last (wr @ awaiting t @ held_part t) = (nat (ab_stamp b - origin header epoch bags), ab_data b, ab_sync b)"
    by simp
  then show "reached t = nat (ab_stamp (last bags) - origin header epoch bags)"
    using assms(2) bags by (simp add: held_part_def)
qed

lemma resolve_track_mid_ok:
  assumes ready: "video_ready header epoch mv bags wr t"
    and b: "in_range (ab_stamp b)" "ab_ticks b = None"
      "case last_accepted_timestamp_ns t of None \<Rightarrow> True | Some newest \<Rightarrow> newest < ab_stamp b"
  shows "mid_ok header epoch mv bags b wr (resolve_track (ab_stamp b) (stamp_track (ab_stamp b) t))"
proof (cases "held_back_video_sample t")
  case None
  then have "bags = []" "\<not> header" "samples_awaiting_fragment t = []" "next_fragment_decode_time t = 0" "wr = []"
    using ready by (auto simp: video_ready_def video_ok_def)
  then show ?thesis
    using None ready b stamps_ok_snoc [of bags t b]
    by (simp add: video_ready_def mid_ok_def resolve_track_def stamp_track_def is_latched_def reached_def origin_def described_def)
next
  case (Some p)
  note held = reached_held [OF ready Some]
  let ?t = "resolve_track (ab_stamp b) (stamp_track (ab_stamp b) t)"
  have same: "origin header epoch (bags @ [b]) = origin header epoch bags"
    using held(3) by (simp add: origin_def)
  have le: "origin header epoch bags \<le> ab_stamp (last bags)" "ab_stamp (last bags) < ab_stamp b"
    using ready stamps_ok_hd_le [of bags t "last bags"] held(3) b(3)
    by (auto simp: video_ready_def origin_def stamps_ok_def)
  have t: "samples_awaiting_fragment ?t = samples_awaiting_fragment t @
      [\<lparr>sample_data = held_data p, sample_duration = nat (ab_stamp b - ab_stamp (last bags)), sample_is_sync_point = held_is_sync_point p\<rparr>]"
    "next_fragment_decode_time ?t = next_fragment_decode_time t"
    using Some held by (simp_all add: resolve_track_def stamp_track_def)
  have "awaiting ?t = awaiting t @ held_part t"
    unfolding t by (simp add: lay_out_append held_part_def reached_def Some)
  moreover have "reached ?t = nat (ab_stamp b - origin header epoch bags)"
    using held(1) le by (simp add: reached_def t)
  moreover have "stamps_ok (bags @ [b]) ?t"
    using stamps_ok_snoc [of bags t b] ready b Some by (simp add: video_ready_def resolve_track_def stamps_ok_def stamp_track_def)
  ultimately show ?thesis
    using ready b held same Some
    by (auto simp: video_ready_def mid_ok_def video_ok_def resolve_track_def stamp_track_def is_latched_def described_def
        build_trak_def cong: option.case_cong)
qed

subsection \<open>Taking an audio packet\<close>

definition audio_ready :: "bool \<Rightarrow> int \<Rightarrow> moov \<Rightarrow> accepted_bag list \<Rightarrow> timed_sample list \<Rightarrow> mp4_track \<Rightarrow> bool" where
  "audio_ready header epoch mv bags wr t \<longleftrightarrow>
     stamps_ok bags t \<and> (header \<longrightarrow> bags \<noteq> [] \<and> epoch \<le> ab_stamp (hd bags)) \<and> (\<not> header \<longrightarrow> wr = []) \<and>
     \<not> is_latched t \<and> media t = Some AudioMedia \<and> tr_sample_entry t \<noteq> None \<and> committed_channel_count t \<noteq> None \<and>
     audio_ok (origin header epoch bags) bags t \<and> opus_ticks_accounted t = accounted_after (ab_stamp (hd bags)) 0 bags \<and>
     wr @ awaiting t = track_timeline (origin header epoch bags) bags \<and>
     (\<not> header \<longrightarrow> next_fragment_decode_time t = 0) \<and> described header mv t"

text \<open>Moving the next position of a track on, in the last sample's duration or in the next decode time.\<close>

definition cover_gap :: "nat \<Rightarrow> mp4_track \<Rightarrow> mp4_track" where
  "cover_gap gap t =
     (if samples_awaiting_fragment t \<noteq> []
      then t\<lparr>samples_awaiting_fragment := butlast (samples_awaiting_fragment t) @
               [(last (samples_awaiting_fragment t))\<lparr>sample_duration := sample_duration (last (samples_awaiting_fragment t)) + gap\<rparr>],
             opus_ticks_accounted := opus_ticks_accounted t + gap\<rparr>
      else t\<lparr>next_fragment_decode_time := next_fragment_decode_time t + gap,
             opus_ticks_accounted := opus_ticks_accounted t + gap\<rparr>)"

lemma lay_out_stretch:
  "ss \<noteq> [] \<Longrightarrow> lay_out time (butlast ss @ [(last ss)\<lparr>sample_duration := d\<rparr>]) = lay_out time ss"
  using lay_out_append [of time "butlast ss" "[last ss]"] by (simp add: lay_out_append)

lemma sum_list_stretch:
  "ss \<noteq> [] \<Longrightarrow> (\<Sum>s\<leftarrow>butlast ss @ [(last ss)\<lparr>sample_duration := sample_duration (last ss) + gap\<rparr>]. sample_duration s) =
     (\<Sum>s\<leftarrow>ss. sample_duration s) + gap"
proof -
  assume "ss \<noteq> []"
  then have "(\<Sum>s\<leftarrow>ss. sample_duration s) = (\<Sum>s\<leftarrow>butlast ss @ [last ss]. sample_duration s)"
    by simp
  then show ?thesis
    unfolding map_append sum_list_append by simp
qed

lemma cover_gap_simps:
  "awaiting (cover_gap gap t) = awaiting t" "reached (cover_gap gap t) = reached t + gap"
  "opus_ticks_accounted (cover_gap gap t) = opus_ticks_accounted t + gap"
  by (simp_all add: cover_gap_def lay_out_stretch reached_def sum_list_stretch del: map_append)

definition push_packet :: "accepted_bag \<Rightarrow> nat \<Rightarrow> mp4_track \<Rightarrow> mp4_track" where
  "push_packet b c t = t\<lparr>samples_awaiting_fragment := samples_awaiting_fragment t @
       [\<lparr>sample_data = ab_data b, sample_duration = c, sample_is_sync_point = ab_sync b\<rparr>],
     opus_ticks_accounted := opus_ticks_accounted t + c\<rparr>"

lemma push_packet_simps:
  "awaiting (push_packet b c t) = awaiting t @ [(reached t, ab_data b, ab_sync b)]"
  "reached (push_packet b c t) = reached t + c"
  "opus_ticks_accounted (push_packet b c t) = opus_ticks_accounted t + c"
  by (simp_all add: push_packet_def lay_out_append reached_def)

lemma stamp_track_simps [simp]:
  "samples_awaiting_fragment (stamp_track ts t) = samples_awaiting_fragment t"
  "next_fragment_decode_time (stamp_track ts t) = next_fragment_decode_time t"
  "opus_ticks_accounted (stamp_track ts t) = opus_ticks_accounted t"
  "reached (stamp_track ts t) = reached t"
  "held_back_video_sample (stamp_track ts t) = held_back_video_sample t"
  "media (stamp_track ts t) = media t"
  "tr_sample_entry (stamp_track ts t) = tr_sample_entry t"
  "committed_channel_count (stamp_track ts t) = committed_channel_count t"
  "is_latched (stamp_track ts t) = is_latched t"
  "build_trak (stamp_track ts t) = build_trak t"
  by (simp_all add: stamp_track_def reached_def is_latched_def build_trak_def cong: option.case_cong)

lemma cover_gap_frame [simp]:
  "held_back_video_sample (cover_gap gap t) = held_back_video_sample t"
  "media (cover_gap gap t) = media t"
  "tr_sample_entry (cover_gap gap t) = tr_sample_entry t"
  "committed_channel_count (cover_gap gap t) = committed_channel_count t"
  "is_latched (cover_gap gap t) = is_latched t"
  "build_trak (cover_gap gap t) = build_trak t"
  by (simp_all add: cover_gap_def is_latched_def build_trak_def cong: option.case_cong)

lemma push_packet_frame [simp]:
  "held_back_video_sample (push_packet b c t) = held_back_video_sample t"
  "media (push_packet b c t) = media t"
  "tr_sample_entry (push_packet b c t) = tr_sample_entry t"
  "committed_channel_count (push_packet b c t) = committed_channel_count t"
  "is_latched (push_packet b c t) = is_latched t"
  "build_trak (push_packet b c t) = build_trak t"
  by (simp_all add: push_packet_def is_latched_def build_trak_def cong: option.case_cong)

lemma take_packet_ok:
  assumes ready: "audio_ready header epoch mv bags wr t"
    and b: "in_range (ab_stamp b)" "ab_ticks b = Some c"
      "case last_accepted_timestamp_ns t of None \<Rightarrow> True | Some newest \<Rightarrow> newest < ab_stamp b"
    and at: "at = opus_place (ab_stamp (hd (bags @ [b]))) (opus_ticks_accounted t) (ab_stamp b) c"
    and t2: "t2 = stamp_track (ab_stamp b) t \<and> at = opus_ticks_accounted t \<or>
             t2 = cover_gap (at - opus_ticks_accounted t) (stamp_track (ab_stamp b) t) \<and> opus_ticks_accounted t \<le> at"
  shows "track_ok header epoch mv (bags @ [b]) wr (push_packet b c t2)"
proof -
  define start where "start = origin header epoch (bags @ [b])"
  have start: "bags \<noteq> [] \<Longrightarrow> origin header epoch bags = start"
    by (simp add: start_def origin_def)
  have empty: "\<not> header" "samples_awaiting_fragment t = []" "reached t = 0" "at = 0" "opus_ticks_accounted t = 0" "start = ab_stamp b"
    if "bags = []"
  proof -
    show "\<not> header" "samples_awaiting_fragment t = []" "opus_ticks_accounted t = 0"
      using that ready by (auto simp: audio_ready_def)
    then show "at = 0" "reached t = 0" "start = ab_stamp b"
      using that ready by (simp_all add: at opus_place_def opus_ticks_def audio_ready_def reached_def start_def origin_def)
  qed
  have awaiting: "awaiting t2 = awaiting t" and reached: "reached t2 = reached t + (at - opus_ticks_accounted t)"
    and accounted: "opus_ticks_accounted t2 = at"
    using t2 by (auto simp: cover_gap_simps)
  have stamps: "stamps_ok (bags @ [b]) (push_packet b c t2)"
    using stamps_ok_snoc [of bags t b] ready b t2
    by (auto simp: audio_ready_def push_packet_def stamps_ok_def cover_gap_def)
  have idle: "next_fragment_decode_time t2 = 0" if "\<not> header"
  proof (cases "samples_awaiting_fragment t = []")
    case True
    then have "bags = []"
      using ready that by (auto simp: audio_ready_def)
    then show ?thesis
      using t2 empty(4,5) ready that by (auto simp: cover_gap_def audio_ready_def)
  qed (use t2 ready that in \<open>auto simp: cover_gap_def audio_ready_def\<close>)
  have "reached t + (at - opus_ticks_accounted t) = opus_ticks (ab_stamp (hd (bags @ [b])) - start) + at"
  proof (cases "bags = []")
    case True
    then show ?thesis
      using empty by (simp add: opus_ticks_def)
  next
    case False
    then show ?thesis
      using ready t2 start by (auto simp: audio_ready_def audio_ok_def)
  qed
  note reached2 = reached [unfolded this]
  have acc: "accounted_after (ab_stamp (hd (bags @ [b]))) 0 bags = opus_ticks_accounted t"
    using ready by (cases "bags = []") (simp_all add: audio_ready_def)
  have "wr @ awaiting t = track_timeline start bags"
    using ready start by (cases "bags = []") (auto simp: audio_ready_def)
  then have line: "wr @ awaiting (push_packet b c t2) = track_timeline start (bags @ [b])"
    using b(2) by (simp add: push_packet_simps awaiting reached2 track_timeline_snoc acc at [symmetric] Let_def)
  have fields: "held_back_video_sample t2 = None" "media t2 = Some AudioMedia" "tr_sample_entry t2 \<noteq> None"
      "committed_channel_count t2 \<noteq> None" "\<not> is_latched t2" "build_trak t2 = build_trak t"
    using ready t2 by (auto simp: audio_ready_def audio_ok_def)
  have "media_ok start (bags @ [b]) (push_packet b c t2)"
    using fields ready b(2)
    by (simp add: media_ok_def audio_ok_def push_packet_simps reached2 accounted audio_ready_def ball_Un)
  moreover have "described header mv (push_packet b c t2)"
    using ready fields by (simp add: audio_ready_def described_def)
  moreover have "opus_ticks_accounted (push_packet b c t2) = accounted_after (ab_stamp (hd (bags @ [b]))) 0 (bags @ [b])"
    using b(2) acc at accounted by (simp add: push_packet_simps)
  moreover have "held_part (push_packet b c t2) = []" "tr_sample_entry (push_packet b c t2) \<noteq> None" "\<not> is_latched (push_packet b c t2)"
      "\<not> header \<longrightarrow> next_fragment_decode_time (push_packet b c t2) = 0"
    using fields idle by (simp_all add: held_part_def) (simp add: push_packet_def)
  ultimately show ?thesis
    using stamps ready line by (auto simp: track_ok_def recording_ok_def audio_ready_def start_def hd_append)
qed

end
