(* ===== verification/Mp4_Recording.thy ===== *)
theory Mp4_Recording
  imports Mp4_Timeline
begin

text \<open>
  What a finished recording holds. A reader of a fragmented file finds each track's samples through
  the data offsets, sizes, flags and decode times of its fragments; the theorem says that it finds
  exactly the bags the writer accepted on the track, in order, each at the time its stamp names.
\<close>

subsection \<open>The file and its tracks\<close>

definition file_ok ::
    "'s mp4_env \<Rightarrow> ('s \<Rightarrow> bytes) \<Rightarrow> bytes \<Rightarrow> moov \<Rightarrow> fragment list \<Rightarrow> (nat \<Rightarrow> timed_sample list) \<Rightarrow> 's mp4_writer \<Rightarrow> bool" where
  "file_ok env contents before mv frags wr w \<longleftrightarrow>
     (if header_already_written w
      then \<exists>ftyp moov. encode_ftyp env = Inr ftyp \<and> encode_moov env mv = Inr moov \<and>
             contents (mp4_sink w) = before @ ftyp @ moov @ concat (map fragment_bytes frags)
      else contents (mp4_sink w) = before \<and> frags = []) \<and>
     list_all (is_written env) frags \<and>
     (list_all small_enough frags \<longrightarrow> (\<forall>i<length (tracks w). read_file (Suc i) frags = wr i)) \<and>
     (\<forall>i<length (tracks w). track_id (tracks w ! i) = Suc i)"

definition first_stamps :: "nat \<Rightarrow> (nat \<Rightarrow> accepted_bag list) \<Rightarrow> int set" where
  "first_stamps n logs = (\<lambda>i. ab_stamp (hd (logs i))) ` {i. i < n \<and> logs i \<noteq> []}"

definition recorder_ok ::
    "'s mp4_env \<Rightarrow> ('s \<Rightarrow> bytes) \<Rightarrow> bytes \<Rightarrow> moov \<Rightarrow> int \<Rightarrow> fragment list \<Rightarrow> (nat \<Rightarrow> timed_sample list) \<Rightarrow>
     (nat \<Rightarrow> accepted_bag list) \<Rightarrow> 's mp4_writer \<Rightarrow> bool" where
  "recorder_ok env contents before mv epoch frags wr logs w \<longleftrightarrow>
     file_ok env contents before mv frags wr w \<and>
     (\<forall>i<length (tracks w). track_ok (header_already_written w) epoch mv (logs i) (wr i) (tracks w ! i)) \<and>
     (header_already_written w \<longrightarrow> epoch = Min (first_stamps (length (tracks w)) logs))"

lemma close_keeps:
  assumes close: "close_open_fragment env w = (Inr u, w')" and sink: "appending_sink env contents"
    and kept: "file_ok env contents before mv frags wr w" and P: "\<forall>i<length (tracks w). P i (wr i) (tracks w ! i)"
    and settle: "\<And>i x t. header_already_written w \<Longrightarrow> P i x t \<Longrightarrow> P i (x @ awaiting t) (settle_written_track t)"
  shows "\<exists>frags wr. file_ok env contents before mv frags wr w' \<and> (\<forall>i<length (tracks w). P i (wr i) (tracks w' ! i)) \<and>
           header_already_written w' = header_already_written w \<and> length (tracks w') = length (tracks w) \<and>
           (header_already_written w \<longrightarrow> tracks w' = map settle_written_track (tracks w))"
proof (cases "header_already_written w")
  case False
  then have "w' = w"
    using close by (simp add: close_open_fragment_def)
  then show ?thesis
    using kept P False by blast
next
  case True
  have ids: "\<forall>j<length (tracks w). track_id (tracks w ! j) = Suc j"
    using kept by (simp add: file_ok_def)
  from close_open_fragment_Inr [OF close sink True ids] obtain fs where fs:
      "contents (mp4_sink w') = contents (mp4_sink w) @ concat (map fragment_bytes fs)"
      "tracks w' = map settle_written_track (tracks w)" "header_already_written w'" "list_all (is_written env) fs"
      "list_all small_enough fs \<longrightarrow> (\<forall>i<length (tracks w). read_file (Suc i) fs = awaiting (tracks w ! i))"
    by blast
  have "file_ok env contents before mv (frags @ fs) (\<lambda>i. wr i @ awaiting (tracks w ! i)) w'"
    using kept fs True by (auto simp: file_ok_def read_file_def)
  then show ?thesis
    using fs True P settle
    by (intro exI [of _ "frags @ fs"] exI [of _ "\<lambda>i. wr i @ awaiting (tracks w ! i)"]) simp
qed

text \<open>A step that changes one track only.\<close>

definition touches :: "nat \<Rightarrow> 's mp4_writer \<Rightarrow> mp4_track \<Rightarrow> 's mp4_writer \<Rightarrow> bool" where
  "touches i w t w1 \<longleftrightarrow> tracks w1 = (tracks w)[i := t] \<and> mp4_sink w1 = mp4_sink w \<and>
     header_already_written w1 = header_already_written w \<and> track_id t = track_id (tracks w ! i)"

lemma touches_trans: "touches i w t w1 \<Longrightarrow> touches i w1 t' w2 \<Longrightarrow> i < length (tracks w) \<Longrightarrow> touches i w t' w2"
  by (simp add: touches_def)

lemma touches_refl: "touches i w (tracks w ! i) w"
  by (simp add: touches_def)

lemma touches_nth: "touches i w t w1 \<Longrightarrow> i < length (tracks w) \<Longrightarrow> tracks w1 ! i = t"
  by (simp add: touches_def)

lemma file_ok_touch: "file_ok env contents before mv frags wr w \<Longrightarrow> touches i w t w1 \<Longrightarrow> file_ok env contents before mv frags wr w1"
  by (cases "i < length (tracks w)") (auto simp: file_ok_def touches_def nth_list_update)

lemma first_stamps_snoc:
  "logs i \<noteq> [] \<Longrightarrow> first_stamps n (logs(i := logs i @ [b])) = first_stamps n logs"
  by (auto simp: first_stamps_def image_def)

lemma recorder_ok_touch:
  assumes "recorder_ok env contents before mv epoch frags wr logs w" "touches i w t w1"
    and "track_ok (header_already_written w) epoch mv bags (wr i) t"
    and "bags = logs i \<or> bags = logs i @ [b] \<and> (header_already_written w \<longrightarrow> logs i \<noteq> [])"
  shows "recorder_ok env contents before mv epoch frags wr (logs(i := bags)) w1"
  using assms file_ok_touch [of env contents before mv frags wr w i t w1]
  by (cases "i < length (tracks w)") (auto simp: recorder_ok_def touches_def nth_list_update first_stamps_snoc)

lemma touches_map_track:
  "track_id (f (tracks w ! i)) = track_id (tracks w ! i) \<Longrightarrow> touches i w (f (tracks w ! i)) (map_track i f w)"
  by (simp add: touches_def map_track_def)

lemma touches_latch_track: "touches i w (snd (latch r (tracks w ! i))) (latch_track i r w)"
  by (simp add: touches_def latch_track_def case_prod_beta)

lemma recorder_ok_latch_track:
  assumes "recorder_ok env contents before mv epoch frags wr logs w" "i < length (tracks w)"
  shows "recorder_ok env contents before mv epoch frags wr logs (latch_track i r w)"
proof -
  have "track_ok (header_already_written w) epoch mv (logs i) (wr i) (snd (latch r (tracks w ! i)))"
    using assms by (intro track_ok_latch) (simp add: recorder_ok_def)
  from recorder_ok_touch [OF assms(1) touches_latch_track this] show ?thesis
    by simp
qed

subsection \<open>Writing the header\<close>

lemma tracks_latch_track_length [simp]: "length (tracks (latch_track i r w)) = length (tracks w)"
  by (simp add: latch_track_def case_prod_beta)

lemma header_latch_track [simp]: "header_already_written (latch_track i r w) = header_already_written w"
  by (simp add: latch_track_def case_prod_beta)

lemma latch_links_still_silent_ok:
  assumes "recorder_ok env contents before mv epoch frags wr logs w"
  shows "recorder_ok env contents before mv epoch frags wr logs (latch_links_still_silent_at_the_budget w) \<and>
         length (tracks (latch_links_still_silent_at_the_budget w)) = length (tracks w) \<and>
         header_already_written (latch_links_still_silent_at_the_budget w) = header_already_written w"
proof -
  let ?step = "\<lambda>n i w. if tr_sample_entry (tracks w ! i) \<noteq> None \<or> is_latched (tracks w ! i) then w
                      else latch_track i (SilentAtTheBudget n) w"
  have "recorder_ok env contents before mv epoch frags wr logs (fold (?step n) is v) \<and>
        length (tracks (fold (?step n) is v)) = length (tracks v) \<and>
        header_already_written (fold (?step n) is v) = header_already_written v"
    if "recorder_ok env contents before mv epoch frags wr logs v" "set is \<subseteq> {..<length (tracks v)}" for n "is" v
    using that
  proof (induction "is" arbitrary: v)
    case (Cons i "is")
    then show ?case
      using recorder_ok_latch_track [of env contents before mv epoch frags wr logs v i]
      by (cases "tr_sample_entry (tracks v ! i) \<noteq> None \<or> is_latched (tracks v ! i)") simp_all
  qed simp
  then show ?thesis
    using assms by (simp add: latch_links_still_silent_at_the_budget_def Let_def atLeast0LessThan)
qed

lemma set_map_filter_iff: "y \<in> set (List.map_filter f xs) \<longleftrightarrow> (\<exists>x\<in>set xs. f x = Some y)"
  by (induction xs) (auto simp: List.map_filter_simps split: option.split)

lemma set_map_filter_nth: "y \<in> set (List.map_filter f xs) \<longleftrightarrow> (\<exists>i<length xs. f (xs ! i) = Some y)"
  unfolding set_map_filter_iff by (metis in_set_conv_nth)

lemma recording_ok_media: "recording_ok header epoch mv bags wr t \<Longrightarrow> bags \<noteq> [] \<Longrightarrow> media t \<noteq> None"
  by (cases "media t") (auto simp: recording_ok_def media_ok_def)

lemma epoch_of_eq:
  assumes "\<forall>i<length (tracks w). stamps_ok (logs i) (tracks w ! i)" "epoch_of w = Some epoch"
  shows "epoch = Min (first_stamps (length (tracks w)) logs)"
    and "in_range epoch" and "i < length (tracks w) \<Longrightarrow> logs i \<noteq> [] \<Longrightarrow> epoch \<le> ab_stamp (hd (logs i))"
proof -
  let ?firsts = "first_stamps (length (tracks w)) logs"
  have "y \<in> set (List.map_filter first_timestamp_ns (tracks w)) \<longleftrightarrow> y \<in> ?firsts" for y
  proof -
    have "first_timestamp_ns (tracks w ! i) = Some y \<longleftrightarrow> logs i \<noteq> [] \<and> ab_stamp (hd (logs i)) = y"
      if "i < length (tracks w)" for i
      using assms(1) that by (auto simp: stamps_ok_def)
    then show ?thesis
      unfolding set_map_filter_nth first_stamps_def image_iff by auto
  qed
  then have "set (List.map_filter first_timestamp_ns (tracks w)) = ?firsts"
    by blast
  then have epoch: "epoch = Min ?firsts" "?firsts \<noteq> {}"
    using assms(2) by (auto simp: epoch_of_def split: list.splits)
  show "epoch = Min ?firsts"
    by (rule epoch)
  have finite: "finite ?firsts"
    by (simp add: first_stamps_def)
  have "epoch \<in> ?firsts"
    using epoch Min_in [OF finite] by simp
  then show "in_range epoch"
    using assms(1) by (auto simp: first_stamps_def stamps_ok_def)
  show "i < length (tracks w) \<Longrightarrow> logs i \<noteq> [] \<Longrightarrow> epoch \<le> ab_stamp (hd (logs i))"
    using epoch Min_le [OF finite, of "ab_stamp (hd (logs i))"] by (simp add: first_stamps_def)
qed

lemma described_build_moov:
  assumes "t \<in> set (tracks w)" "media t \<noteq> None" "tr_sample_entry t \<noteq> None"
  shows "described True (build_moov w) t"
proof -
  obtain k where "build_trak t = Some k"
    using assms by (auto simp: build_trak_def case_prod_beta Let_def)
  then show ?thesis
    using assms(1) by (auto simp: described_def build_moov_def Let_def set_map_filter_iff)
qed

lemma write_header_ok:
  assumes step: "write_header_once_every_track_can_be_described env w = (Inr u, w')" and sink: "appending_sink env contents"
    and ok: "recorder_ok env contents before mv epoch frags wr logs w"
  shows "\<exists>mv epoch. recorder_ok env contents before mv epoch frags wr logs w' \<and> length (tracks w') = length (tracks w)"
proof (cases "header_already_written w")
  case True
  then show ?thesis
    using step ok by (auto simp: write_header_once_every_track_can_be_described_def)
next
  case False
  define w1 where "w1 = (if HIGHEST_BYTES_HELD_AWAITING_THE_HEADER < bytes_held_awaiting_the_header w
                         then latch_links_still_silent_at_the_budget w else w)"
  have ok1: "recorder_ok env contents before mv epoch frags wr logs w1" "length (tracks w1) = length (tracks w)"
      "\<not> header_already_written w1"
    using ok latch_links_still_silent_ok [OF ok] False by (auto simp: w1_def)
  show ?thesis
  proof (cases "every_track_describable w1 \<and> epoch_of w1 \<noteq> None")
    case False
    then have "w' = w1"
      using step \<open>\<not> header_already_written w\<close>
      by (auto simp: write_header_once_every_track_can_be_described_def w1_def [symmetric] Let_def split: if_splits option.splits)
    then show ?thesis
      using ok1 by blast
  next
    case True
    then obtain e where e: "epoch_of w1 = Some e"
      by blast
    obtain ftyp moov w2 where enc: "encode_ftyp env = Inr ftyp" "encode_moov env (build_moov w1) = Inr moov"
      and w2: "sink_write env (ftyp @ moov) w1 = (Inr (), w2)"
      and w': "w' = w2\<lparr>tracks := map (place_track_at_its_offset e) (tracks w2), header_already_written := True\<rparr>"
      using step True e \<open>\<not> header_already_written w\<close>
      by (auto simp: write_header_once_every_track_can_be_described_def w1_def [symmetric] Let_def result_simps
          split: sum.splits elim!: then_do_Inr)
    obtain s where s: "w2 = w1\<lparr>mp4_sink := s\<rparr>" "contents s = contents (mp4_sink w1) @ ftyp @ moov"
      using sink_write_Inr [OF w2 sink] by auto
    have tracks: "track_ok False epoch mv (logs i) (wr i) (tracks w1 ! i)" if "i < length (tracks w)" for i
      using ok1 that by (auto simp: recorder_ok_def)
    then have "\<forall>i<length (tracks w1). stamps_ok (logs i) (tracks w1 ! i)"
      using ok1(2) by (simp add: track_ok_def)
    note epoch = epoch_of_eq [OF this e]
    have "track_ok True e (build_moov w1) (logs i) (wr i) (place_track_at_its_offset e (tracks w1 ! i))"
      if i: "i < length (tracks w)" for i
    proof (rule place_track_at_its_offset_ok [OF tracks [OF i]])
      show described: "is_latched (tracks w1 ! i) \<or> tr_sample_entry (tracks w1 ! i) \<noteq> None"
        using True i ok1(2) by (auto simp: every_track_describable_def)
      show "\<not> is_latched (tracks w1 ! i) \<longrightarrow> described True (build_moov w1) (tracks w1 ! i)"
        using described tracks [OF i] i ok1(2) recording_ok_media [of False epoch mv "logs i" "wr i" "tracks w1 ! i"]
        by (auto simp: track_ok_def recording_ok_def intro!: described_build_moov)
    qed (use epoch i ok1(2) in auto)
    moreover have "track_id (place_track_at_its_offset e t) = track_id t" for t
      by (simp add: place_track_at_its_offset_def split: option.split)
    ultimately have "recorder_ok env contents before (build_moov w1) e frags wr logs w'"
      using ok1 epoch(1) enc s by (auto simp: recorder_ok_def file_ok_def w')
    then show ?thesis
      using s ok1(2) w' by auto
  qed
qed

subsection \<open>The steps of taking a bag\<close>

lemma commit_or_latch_media_cases:
  assumes "commit_or_latch_media i m w = (ok, w1)"
  shows "if ok then touches i w ((tracks w ! i)\<lparr>media := Some m\<rparr>) w1 \<and> (media (tracks w ! i) = None \<or> media (tracks w ! i) = Some m)
         else \<exists>r. w1 = latch_track i r w"
proof (cases "media (tracks w ! i)")
  case None
  then show ?thesis
    using assms touches_map_track [of "media_update (\<lambda>_. Some m)" w i] by (auto simp: commit_or_latch_media_def)
next
  case (Some c)
  have same: "(tracks w ! i)\<lparr>media := Some m\<rparr> = tracks w ! i" if "c = m"
    using Some that by (cases "tracks w ! i") simp
  have "touches i w ((tracks w ! i)\<lparr>media := Some m\<rparr>) w" if "c = m"
    unfolding same [OF that] by (rule touches_refl)
  then show ?thesis
    using assms Some by (auto simp: commit_or_latch_media_def split: if_splits)
qed

lemma track_ok_media:
  assumes "track_ok header epoch mv bags wr t" "\<not> is_latched t" "media t = None \<or> media t = Some m"
  shows "track_ok header epoch mv bags wr (t\<lparr>media := Some m\<rparr>)"
proof (cases "media t")
  case None
  then have "bags = []" "\<not> header" "wr = []" "samples_awaiting_fragment t = []" "held_back_video_sample t = None"
    using assms by (auto simp: track_ok_def recording_ok_def media_ok_def held_part_def split: option.splits)
  then show ?thesis
    using assms None
    by (auto simp: track_ok_def recording_ok_def media_ok_def video_ok_def audio_ok_def stamps_ok_def is_latched_def held_part_def
        described_def split: mp4_track_media.split)
next
  case (Some m')
  then have "t\<lparr>media := Some m\<rparr> = t"
    using assms(3) by (cases t) simp
  then show ?thesis
    using assms by simp
qed

lemma commit_parameter_sets_cases:
  assumes "commit_parameter_sets env i grammar frame sets w = (ok, w1)"
  shows "if ok
         then \<exists>t1. touches i w t1 w1 \<and>
           (t1 = tracks w ! i \<or> committed_parameter_sets (tracks w ! i) = None \<and>
              (\<exists>e s x. t1 = (tracks w ! i)\<lparr>tr_sample_entry := Some e, committed_parameter_sets := Some s, coded_extent := Some x\<rparr>))
         else \<exists>r. w1 = latch_track i r w"
proof (cases "vf_is_sync_point frame \<and> is_complete_for grammar sets \<and> committed_parameter_sets (tracks w ! i) = None")
  case False
  then show ?thesis
    using assms touches_refl [of i w] by (auto simp: commit_parameter_sets_def split: if_splits option.splits)
next
  case True
  let ?commit = "\<lambda>e t. t\<lparr>tr_sample_entry := Some e, committed_parameter_sets := Some sets,
                            coded_extent := Some (vf_width frame, vf_height frame)\<rparr>"
  have "touches i w (?commit e (tracks w ! i)) (map_track i (?commit e) w)" for e
    by (rule touches_map_track) simp
  then show ?thesis
    using assms True by (fastforce simp: commit_parameter_sets_def split: sum.splits)
qed

lemma video_ready_after_commit:
  assumes "track_ok header epoch mv bags wr t" "\<not> is_latched t" "media t = Some (VideoMedia c)"
    and t1: "t1 = t \<or> committed_parameter_sets t = None \<and>
        (\<exists>e s x. t1 = t\<lparr>tr_sample_entry := Some e, committed_parameter_sets := Some s, coded_extent := Some x\<rparr>)"
    and "tr_sample_entry t1 \<noteq> None"
  shows "video_ready header epoch mv bags wr t1" and "bags \<noteq> [] \<Longrightarrow> t1 = t"
proof -
  have ok: "stamps_ok bags t" "recording_ok header epoch mv bags wr t" "video_ok bags t"
    using assms(1,2,3) by (auto simp: track_ok_def recording_ok_def media_ok_def)
  then have idle: "opus_ticks_accounted t = 0"
    by (simp add: recording_ok_def video_ok_def accounted_after_video)
  have "committed_parameter_sets t = None \<Longrightarrow> bags = []"
    using ok(3) by (auto simp: video_ok_def)
  then show "bags \<noteq> [] \<Longrightarrow> t1 = t"
    using t1 by auto
  show "video_ready header epoch mv bags wr t1"
  proof (cases "t1 = t")
    case True
    then show ?thesis
      using assms ok idle by (auto simp: video_ready_def track_ok_def recording_ok_def video_ok_def)
  next
    case False
    then have "bags = []" "\<not> header"
      using t1 \<open>committed_parameter_sets t = None \<Longrightarrow> bags = []\<close> ok(2) by (auto simp: recording_ok_def)
    then show ?thesis
      using False assms ok idle
      by (auto simp: video_ready_def track_ok_def recording_ok_def video_ok_def stamps_ok_def is_latched_def held_part_def
          reached_def described_def cong: option.case_cong)
  qed
qed

lemma accept_timestamp_cases:
  assumes "accept_timestamp i ts w = (ok, w1)"
  shows "if ok
         then touches i w (stamp_track ts (tracks w ! i)) w1 \<and>
              (case last_accepted_timestamp_ns (tracks w ! i) of None \<Rightarrow> True | Some newest \<Rightarrow> newest < ts)
         else last_accepted_timestamp_ns (tracks w ! i) \<noteq> None \<and>
              touches i w ((tracks w ! i)\<lparr>tr_bags_dropped_out_of_order := tr_bags_dropped_out_of_order (tracks w ! i) + 1\<rparr>) w1"
  using assms
  by (auto simp: accept_timestamp_def Let_def touches_def map_track_def stamp_track_def split: option.splits if_splits)

lemma resolve_held_back_sample_cases:
  assumes "resolve_held_back_sample i ts w = (ok, w1)" "i < length (tracks w)" "in_range ts"
    and "\<forall>p. held_back_video_sample (tracks w ! i) = Some p \<longrightarrow> in_range (held_timestamp_ns p) \<and> held_timestamp_ns p < ts"
  shows "if ok then touches i w (resolve_track ts (tracks w ! i)) w1
         else \<exists>r. touches i w (snd (latch r ((tracks w ! i)\<lparr>held_back_video_sample := None\<rparr>))) w1"
proof (cases "held_back_video_sample (tracks w ! i)")
  case None
  then show ?thesis
    using assms(1) touches_refl [of i w] by (simp add: resolve_held_back_sample_def resolve_track_def)
next
  case (Some p)
  then have "max 0 (i64_saturating_sub ts (held_timestamp_ns p)) = ts - held_timestamp_ns p"
    using assms(3,4) by (simp add: saturating_sub_in_range)
  then show ?thesis
    using assms(1,2) Some
    by (auto simp: resolve_held_back_sample_def resolve_track_def Let_def touches_def map_track_def latch_track_def case_prod_beta
        split: if_splits)
qed

lemma track_ok_dropped:
  "track_ok header epoch mv bags wr (t\<lparr>tr_bags_dropped_out_of_order := n\<rparr>) = track_ok header epoch mv bags wr t"
  "track_ok header epoch mv bags wr (t\<lparr>tr_bags_discarded_after_latch := n\<rparr>) = track_ok header epoch mv bags wr t"
  by (simp_all add: track_ok_def recording_ok_def media_ok_def video_ok_def audio_ok_def stamps_ok_def is_latched_def held_part_def
      reached_def described_def build_trak_def cong: option.case_cong mp4_track_media.case_cong)

definition recorded :: "'s mp4_env \<Rightarrow> ('s \<Rightarrow> bytes) \<Rightarrow> bytes \<Rightarrow> (nat \<Rightarrow> accepted_bag list) \<Rightarrow> 's mp4_writer \<Rightarrow> bool" where
  "recorded env contents before logs w \<longleftrightarrow> (\<exists>mv epoch frags wr. recorder_ok env contents before mv epoch frags wr logs w)"

lemma finish_video_frame:
  assumes sink: "appending_sink env contents" and i: "i < length (tracks w)"
    and kept: "file_ok env contents before mv frags wr w"
    and P: "\<forall>j<length (tracks w). if j = i then mid_ok (header_already_written w) epoch mv (logs i) b (wr j) (tracks w ! j)
              else track_ok (header_already_written w) epoch mv (logs j) (wr j) (tracks w ! j)"
    and epoch: "header_already_written w \<longrightarrow> epoch = Min (first_stamps (length (tracks w)) logs) \<and> logs i \<noteq> []"
    and step: "then_do (if c then close_open_fragment env w else (Inr (), w))
                 (\<lambda>w. write_header_once_every_track_can_be_described env (map_track i (hold_back b) w)) = (Inr u, w')"
  shows "recorded env contents before (logs(i := logs i @ [b])) w' \<and> length (tracks w') = length (tracks w)"
proof -
  let ?P = "\<lambda>j x t. if j = i then mid_ok (header_already_written w) epoch mv (logs i) b x t
              else track_ok (header_already_written w) epoch mv (logs j) x t"
  let ?good = "\<lambda>frags wr w1. file_ok env contents before mv frags wr w1 \<and> (\<forall>j<length (tracks w). ?P j (wr j) (tracks w1 ! j)) \<and>
      header_already_written w1 = header_already_written w \<and> length (tracks w1) = length (tracks w)"
  obtain w1 v where w1: "(if c then close_open_fragment env w else (Inr (), w)) = (Inr v, w1)"
    and header: "write_header_once_every_track_can_be_described env (map_track i (hold_back b) w1) = (Inr u, w')"
    using step by (rule then_do_Inr)
  have "\<exists>frags wr. ?good frags wr w1"
  proof (cases c)
    case True
    then have "close_open_fragment env w = (Inr v, w1)"
      using w1 by simp
    have settle: "?P j (x @ awaiting t) (settle_written_track t)" if "header_already_written w" "?P j x t" for j x t
      using that mid_ok_settle [of epoch mv "logs i" b x t] track_ok_settle [of epoch mv "logs j" x t] by (cases "j = i") simp_all
    show ?thesis
      using close_keeps [where P = ?P, OF \<open>close_open_fragment env w = (Inr v, w1)\<close> sink kept P settle] by blast
  next
    case False
    then have "w1 = w"
      using w1 by simp
    then have "?good frags wr w1"
      using kept P by blast
    then show ?thesis
      by blast
  qed
  then obtain frags wr where good: "?good frags wr w1"
    by blast
  let ?w2 = "map_track i (hold_back b) w1"
  have touched: "touches i w1 (hold_back b (tracks w1 ! i)) ?w2"
    by (rule touches_map_track) (simp add: hold_back_def)
  have "track_ok (header_already_written ?w2) epoch mv ((logs(i := logs i @ [b])) j) (wr j) (tracks ?w2 ! j)"
    if j: "j < length (tracks w)" for j
  proof (cases "j = i")
    case True
    then have "mid_ok (header_already_written w) epoch mv (logs i) b (wr i) (tracks w1 ! i)"
      using good i by auto
    then show ?thesis
      using True good i touched mid_ok_hold_back by (simp add: touches_def)
  next
    case False
    then show ?thesis
      using good j touched by (simp add: touches_def)
  qed
  moreover have "file_ok env contents before mv frags wr ?w2"
    using file_ok_touch [OF _ touched] good by blast
  ultimately have "recorder_ok env contents before mv epoch frags wr (logs(i := logs i @ [b])) ?w2"
    using good touched epoch by (simp add: recorder_ok_def touches_def first_stamps_snoc)
  from write_header_ok [OF header sink this] show ?thesis
    using good touched by (auto simp: recorded_def touches_def)
qed

definition video_entry :: "encoded_video_frame \<Rightarrow> int \<Rightarrow> accepted_bag" where
  "video_entry frame ts =
     \<lparr>ab_stamp = ts,
      ab_data = length_prefixed_sample_bytes
        (length_prefix_annex_b_access_unit (vf_annex_b_access_unit_bytes frame) (grammar_of_codec (vf_codec frame))),
      ab_sync = vf_is_sync_point frame, ab_ticks = None\<rparr>"

definition audio_entry :: "encoded_audio_packet \<Rightarrow> int \<Rightarrow> accepted_bag" where
  "audio_entry packet ts =
     \<lparr>ab_stamp = ts, ab_data = ap_opus_packet_bytes packet, ab_sync = True, ab_ticks = Some (unat (ap_sample_count packet))\<rparr>"

text \<open>What taking a bag on track \<open>i\<close> may do to the accepted bags.\<close>

definition takes :: "'s mp4_env \<Rightarrow> ('s \<Rightarrow> bytes) \<Rightarrow> bytes \<Rightarrow> (nat \<Rightarrow> accepted_bag list) \<Rightarrow> nat \<Rightarrow> accepted_bag \<Rightarrow> nat \<Rightarrow> 's mp4_writer \<Rightarrow> bool" where
  "takes env contents before logs i b n w' \<longleftrightarrow> length (tracks w') = n \<and>
     (recorded env contents before logs w' \<or> recorded env contents before (logs(i := logs i @ [b])) w')"

lemma takes_latch_track:
  "recorder_ok env contents before mv epoch frags wr logs w \<Longrightarrow> i < length (tracks w) \<Longrightarrow>
     takes env contents before logs i b (length (tracks w)) (latch_track i r w)"
  using recorder_ok_latch_track by (fastforce simp: takes_def recorded_def)

lemma takes_touch:
  assumes "recorder_ok env contents before mv epoch frags wr logs w" "touches i w t w1"
    and "track_ok (header_already_written w) epoch mv bags (wr i) t"
    and "bags = logs i \<or> bags = logs i @ [b] \<and> (header_already_written w \<longrightarrow> logs i \<noteq> [])"
  shows "takes env contents before logs i b (length (tracks w)) w1"
  using recorder_ok_touch [OF assms] assms(2,4) by (auto simp: takes_def recorded_def touches_def)

lemma prefix_written:
  assumes "wr @ rest = track_timeline (origin header epoch bags) bags" "header \<longrightarrow> bags \<noteq> []" "\<not> header \<longrightarrow> wr = []"
  shows "prefix wr (track_timeline (origin header epoch (bags @ [b])) (bags @ [b]))"
proof (cases header)
  case True
  then have "track_timeline (origin header epoch (bags @ [b])) (bags @ [b]) =
      wr @ rest @ timeline epoch (ab_stamp (hd (bags @ [b]))) (accounted_after (ab_stamp (hd (bags @ [b]))) 0 bags) [b]"
    using assms(1) unfolding track_timeline_snoc origin_def by simp
  then show ?thesis
    by (metis prefixI)
qed (use assms in simp)

lemma video_frame_taken:
  assumes ok: "recorder_ok env contents before mv epoch frags wr logs w" and i: "i < length (tracks w)" and sink: "appending_sink env contents"
    and touched: "touches i w t w2" and ready: "video_ready (header_already_written w) epoch mv (logs i) (wr i) t"
    and old: "logs i \<noteq> [] \<longrightarrow> track_ok (header_already_written w) epoch mv (logs i) (wr i) t"
    and b: "in_range (ab_stamp b)" "ab_ticks b = None"
    and step: "(case accept_timestamp i (ab_stamp b) w2 of
        (False, w) \<Rightarrow> (Inr (), w)
      | (True, w) \<Rightarrow>
          (case resolve_held_back_sample i (ab_stamp b) w of
             (False, w) \<Rightarrow> (Inr (), w)
           | (True, w) \<Rightarrow> then_do (if ab_sync b \<and> is_pacing_video_track i w then close_open_fragment env w else (Inr (), w))
               (\<lambda>w. write_header_once_every_track_can_be_described env (map_track i (hold_back b) w)))) = (Inr u, w')"
  shows "takes env contents before logs i b (length (tracks w)) w'"
proof -
  let ?h = "header_already_written w"
  obtain ok3 w3 where s3: "accept_timestamp i (ab_stamp b) w2 = (ok3, w3)"
    by fastforce
  have t: "tracks w2 ! i = t"
    using touches_nth [OF touched i] .
  note c3 = accept_timestamp_cases [OF s3, unfolded t]
  show ?thesis
  proof (cases ok3)
    case False
    then have "touches i w (t\<lparr>tr_bags_dropped_out_of_order := tr_bags_dropped_out_of_order t + 1\<rparr>) w3" "logs i \<noteq> []"
      using c3 touches_trans [OF touched _ i] ready by (auto simp: video_ready_def stamps_ok_def)
    then show ?thesis
      using step s3 False old takes_touch [OF ok] by (fastforce simp: track_ok_dropped)
  next
    case True
    then have t3: "touches i w (stamp_track (ab_stamp b) t) w3"
      and newer: "case last_accepted_timestamp_ns t of None \<Rightarrow> True | Some newest \<Rightarrow> newest < ab_stamp b"
      using c3 touches_trans [OF touched _ i] by auto
    obtain ok4 w4 where s4: "resolve_held_back_sample i (ab_stamp b) w3 = (ok4, w4)"
      by fastforce
    have "in_range (held_timestamp_ns p) \<and> held_timestamp_ns p < ab_stamp b" if "held_back_video_sample t = Some p" for p
      using ready that newer by (auto simp: video_ready_def video_ok_def stamps_ok_def)
    then have c4: "if ok4 then touches i w (resolve_track (ab_stamp b) (stamp_track (ab_stamp b) t)) w4
       else \<exists>r. touches i w (snd (latch r ((stamp_track (ab_stamp b) t)\<lparr>held_back_video_sample := None\<rparr>))) w4"
      using resolve_held_back_sample_cases [OF s4 _ b(1)] touches_nth [OF t3 i] i t3 touches_trans [OF t3 _ i]
      by (auto simp: touches_def)
    show ?thesis
    proof (cases ok4)
      case False
      then obtain r where t4: "touches i w (snd (latch r ((stamp_track (ab_stamp b) t)\<lparr>held_back_video_sample := None\<rparr>))) w4"
        using c4 by auto
      have "track_ok ?h epoch mv (logs i @ [b]) (wr i) (snd (latch r ((stamp_track (ab_stamp b) t)\<lparr>held_back_video_sample := None\<rparr>)))"
        using ready stamps_ok_snoc [of "logs i" t b] b newer
          prefix_written [of "wr i" "awaiting t @ held_part t" ?h epoch "logs i" b]
        by (intro track_ok_latch_any) (auto simp: video_ready_def stamps_ok_def is_latched_def stamp_track_def)
      then show ?thesis
        using takes_touch [OF ok t4] ready step s3 s4 True False by (auto simp: video_ready_def)
    next
      case resolved: True
      have mid: "mid_ok ?h epoch mv (logs i) b (wr i) (resolve_track (ab_stamp b) (stamp_track (ab_stamp b) t))"
        by (rule resolve_track_mid_ok [OF ready b newer])
      have t4: "touches i w (resolve_track (ab_stamp b) (stamp_track (ab_stamp b) t)) w4"
        using c4 resolved by simp
      have "recorded env contents before (logs(i := logs i @ [b])) w' \<and> length (tracks w') = length (tracks w4)"
      proof (rule finish_video_frame [where mv = mv and epoch = epoch and frags = frags and wr = wr, OF sink])
        show "file_ok env contents before mv frags wr w4"
          using file_ok_touch [OF _ t4] ok by (simp add: recorder_ok_def)
        show "\<forall>j<length (tracks w4). if j = i then mid_ok (header_already_written w4) epoch mv (logs i) b (wr j) (tracks w4 ! j)
                else track_ok (header_already_written w4) epoch mv (logs j) (wr j) (tracks w4 ! j)"
          using mid t4 ok by (auto simp: touches_def recorder_ok_def nth_list_update)
      qed (use step s3 s4 True resolved t4 i ok ready in \<open>auto simp: touches_def recorder_ok_def video_ready_def\<close>)
      then show ?thesis
        using t4 by (simp add: takes_def touches_def)
    qed
  qed
qed

lemma hold_back_video_entry:
  "(\<lambda>t. t\<lparr>held_back_video_sample := Some \<lparr>held_data = length_prefixed_sample_bytes
       (length_prefix_annex_b_access_unit (vf_annex_b_access_unit_bytes frame) (grammar_of_codec (vf_codec frame))),
     held_timestamp_ns = ts, held_is_sync_point = vf_is_sync_point frame\<rparr>\<rparr>) = hold_back (video_entry frame ts)"
  by (simp add: fun_eq_iff hold_back_def video_entry_def)

lemma video_entry_simps [simp]:
  "ab_stamp (video_entry frame ts) = ts" "ab_sync (video_entry frame ts) = vf_is_sync_point frame" "ab_ticks (video_entry frame ts) = None"
  by (simp_all add: video_entry_def)

lemma accept_video_bag_ok:
  assumes step: "accept_video_bag env i bag ts w = (Inr u, w')" and bag: "read_encoded_video_frame_bag env bag = Inr frame"
    and ok: "recorder_ok env contents before mv epoch frags wr logs w" and i: "i < length (tracks w)" and sink: "appending_sink env contents"
    and running: "\<not> is_latched (tracks w ! i)" and ts: "in_range ts"
  shows "takes env contents before logs i (video_entry frame ts) (length (tracks w)) w'"
proof -
  let ?h = "header_already_written w" and ?t = "(tracks w ! i)\<lparr>media := Some (VideoMedia (vf_codec frame))\<rparr>"
  let ?grammar = "grammar_of_codec (vf_codec frame)"
  let ?sets = "sample_parameter_sets (length_prefix_annex_b_access_unit (vf_annex_b_access_unit_bytes frame) ?grammar)"
  obtain ok1 w1 where s1: "commit_or_latch_media i (VideoMedia (vf_codec frame)) w = (ok1, w1)"
    by fastforce
  obtain ok2 w2 where s2: "commit_parameter_sets env i ?grammar frame ?sets w1 = (ok2, w2)"
    by fastforce
  note c1 = commit_or_latch_media_cases [OF s1] and c2 = commit_parameter_sets_cases [OF s2]
  show ?thesis
  proof (cases ok1)
    case False
    then show ?thesis
      using c1 step bag s1 takes_latch_track [OF ok i] by (auto simp: accept_video_bag_def)
  next
    case True
    then have t1: "touches i w ?t w1" and nth: "tracks w1 ! i = ?t"
      using c1 touches_nth [OF _ i] by auto
    have track1: "track_ok ?h epoch mv (logs i) (wr i) ?t"
      using c1 True ok i running by (intro track_ok_media) (auto simp: recorder_ok_def)
    have ok1': "recorder_ok env contents before mv epoch frags wr logs w1"
      using recorder_ok_touch [OF ok t1 track1] by simp
    show ?thesis
    proof (cases ok2)
      case False
      then obtain r where "w2 = latch_track i r w1"
        using c2 by auto
      then show ?thesis
        using step bag s1 s2 True False takes_latch_track [OF ok1', of i "video_entry frame ts" r] i t1
        by (simp add: accept_video_bag_def Let_def touches_def)
    next
      case ok2: True
      then obtain t2 where t2: "touches i w1 t2 w2" "t2 = ?t \<or> committed_parameter_sets ?t = None \<and>
          (\<exists>e s x. t2 = ?t\<lparr>tr_sample_entry := Some e, committed_parameter_sets := Some s, coded_extent := Some x\<rparr>)"
        using c2 unfolding nth by (simp only: if_True) blast
      have t2': "touches i w t2 w2" "tracks w2 ! i = t2"
        using touches_trans [OF t1 t2(1) i] touches_nth [OF _ i] by auto
      show ?thesis
      proof (cases "tr_sample_entry t2 = None")
        case True
        then have "t2 = ?t"
          using t2(2) by auto
        then show ?thesis
          using step bag s1 s2 \<open>ok1\<close> ok2 True t2' takes_touch [OF ok t2'(1)] track1
          by (auto simp: accept_video_bag_def Let_def)
      next
        case False
        have media: "\<not> is_latched ?t" "media ?t = Some (VideoMedia (vf_codec frame))"
          using running by (simp_all add: is_latched_def)
        note ready = video_ready_after_commit [OF track1 media t2(2) False]
        show ?thesis
          apply (rule video_frame_taken [OF ok i sink t2'(1) ready(1)])
          subgoal using ready(2) track1 by auto
          subgoal using ts by simp
          subgoal by simp
          subgoal
            unfolding video_entry_simps hold_back_video_entry [symmetric]
            using step bag s1 s2 \<open>ok1\<close> ok2 False t2' by (simp add: accept_video_bag_def Let_def)
          done
      qed
    qed
  qed
qed

subsection \<open>The steps of taking an audio packet\<close>

lemma commit_channel_count_cases:
  assumes "commit_channel_count i packet w = (ok, w1)"
  shows "if ok
         then \<exists>t1. touches i w t1 w1 \<and>
           (t1 = tracks w ! i \<and> committed_channel_count t1 \<noteq> None \<or> committed_channel_count (tracks w ! i) = None \<and>
              (\<exists>e n. t1 = (tracks w ! i)\<lparr>tr_sample_entry := Some e, committed_channel_count := Some n\<rparr>))
         else \<exists>r. w1 = latch_track i r w"
proof (cases "committed_channel_count (tracks w ! i)")
  case (Some n)
  then show ?thesis
    using assms touches_refl [of i w] by (auto simp: commit_channel_count_def split: if_splits)
next
  case None
  let ?commit = "\<lambda>e t. t\<lparr>tr_sample_entry := Some (OpusEntry e), committed_channel_count := Some (ap_channels packet)\<rparr>"
  have "touches i w (?commit e (tracks w ! i)) (map_track i (?commit e) w)" for e
    by (rule touches_map_track) simp
  then show ?thesis
    using assms None by (fastforce simp: commit_channel_count_def split: sum.splits)
qed

lemma audio_ready_after_commit:
  assumes "track_ok header epoch mv bags wr t" "\<not> is_latched t" "media t = Some AudioMedia"
    and t1: "t1 = t \<and> committed_channel_count t1 \<noteq> None \<or> committed_channel_count t = None \<and>
        (\<exists>e n. t1 = t\<lparr>tr_sample_entry := Some e, committed_channel_count := Some n\<rparr>)"
  shows "audio_ready header epoch mv bags wr t1" and "bags \<noteq> [] \<Longrightarrow> t1 = t"
proof -
  have ok: "stamps_ok bags t" "recording_ok header epoch mv bags wr t" "audio_ok (origin header epoch bags) bags t"
    using assms(1,2,3) by (auto simp: track_ok_def recording_ok_def media_ok_def)
  then have none: "committed_channel_count t = None \<longleftrightarrow> bags = []" and held: "held_part t = []"
    by (auto simp: audio_ok_def recording_ok_def held_part_def)
  then show "bags \<noteq> [] \<Longrightarrow> t1 = t"
    using t1 by auto
  show "audio_ready header epoch mv bags wr t1"
  proof (cases "bags = []")
    case False
    then have "t1 = t"
      using t1 none by auto
    then show ?thesis
      using assms ok held False by (auto simp: audio_ready_def track_ok_def recording_ok_def audio_ok_def)
  next
    case True
    then have "\<not> header"
      using ok(2) by (simp add: recording_ok_def)
    then show ?thesis
      using True t1 none assms(1,2,3) ok held
      by (auto simp: audio_ready_def track_ok_def recording_ok_def audio_ok_def stamps_ok_def is_latched_def described_def)
  qed
qed

lemma represent_gap_cases:
  assumes "represent_any_capture_gap_before_this_packet i ts sample_count w = (ok, w1)"
    and "first_timestamp_ns (tracks w ! i) = Some first" "in_range ts" "in_range first"
    and at: "at = opus_place first (opus_ticks_accounted (tracks w ! i)) ts (unat sample_count)"
  shows "if ok
         then \<exists>t2. touches i w t2 w1 \<and>
           (t2 = tracks w ! i \<and> at = opus_ticks_accounted (tracks w ! i) \<or>
            t2 = cover_gap (at - opus_ticks_accounted (tracks w ! i)) (tracks w ! i) \<and> opus_ticks_accounted (tracks w ! i) \<le> at)
         else \<exists>r. w1 = latch_track i r w"
proof -
  let ?t = "tracks w ! i" and ?elapsed = "opus_ticks (ts - first)"
  let ?acc = "opus_ticks_accounted ?t"
  have elapsed: "rescale_nanoseconds (i64_saturating_sub ts first) OPUS_TRACK_TIMESCALE_HZ = ?elapsed"
    using assms(3,4) by (simp add: saturating_sub_in_range rescale_nanoseconds_simps)
  show ?thesis
  proof (cases "?elapsed < ?acc \<or> ?elapsed - ?acc < unat sample_count")
    case True
    then have "at = ?acc"
      by (auto simp: at opus_place_def Let_def)
    then show ?thesis
      using assms(1,2) elapsed True touches_refl [of i w]
      by (auto simp: represent_any_capture_gap_before_this_packet_def Let_def)
  next
    case False
    then have "at = ?elapsed" "?acc \<le> at"
      by (auto simp: at opus_place_def Let_def)
    moreover have "touches i w (cover_gap (at - ?acc) ?t) (map_track i (\<lambda>_. cover_gap (at - ?acc) ?t) w)"
      by (rule touches_map_track [where f = "\<lambda>_. cover_gap (at - ?acc) ?t"]) (simp add: cover_gap_def)
    ultimately show ?thesis
      using assms(1,2) elapsed False
      by (fastforce simp: represent_any_capture_gap_before_this_packet_def Let_def cover_gap_def map_track_def split: if_splits)
  qed
qed

lemma close_recorder_ok:
  assumes "close_open_fragment env w = (Inr u, w')" "appending_sink env contents"
    and ok: "recorder_ok env contents before mv epoch frags wr logs w"
  shows "\<exists>frags wr. recorder_ok env contents before mv epoch frags wr logs w' \<and> length (tracks w') = length (tracks w) \<and>
           header_already_written w' = header_already_written w \<and>
           (header_already_written w \<longrightarrow> tracks w' = map settle_written_track (tracks w))"
proof -
  have settle: "track_ok (header_already_written w) epoch mv (logs i) (x @ awaiting t) (settle_written_track t)"
    if "header_already_written w" "track_ok (header_already_written w) epoch mv (logs i) x t" for i x t
    using that track_ok_settle by simp
  have "file_ok env contents before mv frags wr w"
    "\<forall>i<length (tracks w). track_ok (header_already_written w) epoch mv (logs i) (wr i) (tracks w ! i)"
    using ok by (auto simp: recorder_ok_def)
  from close_keeps [where P = "\<lambda>i. track_ok (header_already_written w) epoch mv (logs i)", OF assms(1,2) this settle]
  obtain frags' wr' where new: "file_ok env contents before mv frags' wr' w'"
      "\<forall>i<length (tracks w). track_ok (header_already_written w) epoch mv (logs i) (wr' i) (tracks w' ! i)"
      "header_already_written w' = header_already_written w" "length (tracks w') = length (tracks w)"
      "header_already_written w \<longrightarrow> tracks w' = map settle_written_track (tracks w)"
    by blast
  then have "recorder_ok env contents before mv epoch frags' wr' logs w'"
    using ok by (simp add: recorder_ok_def)
  then show ?thesis
    using new by blast
qed

lemma push_packet_audio_entry:
  "(\<lambda>t. t\<lparr>samples_awaiting_fragment := samples_awaiting_fragment t @
       [\<lparr>sample_data = ap_opus_packet_bytes packet, sample_duration = unat (ap_sample_count packet), sample_is_sync_point = True\<rparr>],
     opus_ticks_accounted := opus_ticks_accounted t + unat (ap_sample_count packet)\<rparr>) =
   push_packet (audio_entry packet ts) (unat (ap_sample_count packet))"
  by (simp add: fun_eq_iff push_packet_def audio_entry_def)

lemma audio_packet_taken:
  assumes ok: "recorder_ok env contents before mv epoch frags wr logs w" and i: "i < length (tracks w)" and sink: "appending_sink env contents"
    and touched: "touches i w t w2" and ready: "audio_ready (header_already_written w) epoch mv (logs i) (wr i) t"
    and old: "logs i \<noteq> [] \<longrightarrow> track_ok (header_already_written w) epoch mv (logs i) (wr i) t"
    and b: "in_range (ab_stamp b)" "ab_ticks b = Some (unat c)"
    and step: "(case accept_timestamp i (ab_stamp b) w2 of
        (False, w) \<Rightarrow> (Inr (), w)
      | (True, w) \<Rightarrow>
          (case represent_any_capture_gap_before_this_packet i (ab_stamp b) c w of
             (False, w) \<Rightarrow> (Inr (), w)
           | (True, w) \<Rightarrow> then_do (write_header_once_every_track_can_be_described env (map_track i (push_packet b (unat c)) w))
               (\<lambda>w. if P w then close_open_fragment env w else (Inr (), w)))) = (Inr u, w')"
  shows "takes env contents before logs i b (length (tracks w)) w'"
proof -
  let ?h = "header_already_written w" and ?t3 = "stamp_track (ab_stamp b) t"
  obtain ok3 w3 where s3: "accept_timestamp i (ab_stamp b) w2 = (ok3, w3)"
    by fastforce
  have t: "tracks w2 ! i = t"
    using touches_nth [OF touched i] .
  note c3 = accept_timestamp_cases [OF s3, unfolded t]
  show ?thesis
  proof (cases ok3)
    case False
    then have "touches i w (t\<lparr>tr_bags_dropped_out_of_order := tr_bags_dropped_out_of_order t + 1\<rparr>) w3" "logs i \<noteq> []"
      using c3 touches_trans [OF touched _ i] ready by (auto simp: audio_ready_def stamps_ok_def)
    then show ?thesis
      using step s3 False old takes_touch [OF ok] by (fastforce simp: track_ok_dropped)
  next
    case True
    then have t3: "touches i w ?t3 w3"
      and newer: "case last_accepted_timestamp_ns t of None \<Rightarrow> True | Some newest \<Rightarrow> newest < ab_stamp b"
      using c3 touches_trans [OF touched _ i] by auto
    have nth3: "tracks w3 ! i = ?t3"
      using touches_nth [OF t3 i] .
    have stamps: "stamps_ok (logs i @ [b]) ?t3"
      using stamps_ok_snoc [of "logs i" t b] ready b newer by (simp add: audio_ready_def)
    define at where "at = opus_place (ab_stamp (hd (logs i @ [b]))) (opus_ticks_accounted t) (ab_stamp b) (unat c)"
    obtain ok4 w4 where s4: "represent_any_capture_gap_before_this_packet i (ab_stamp b) c w3 = (ok4, w4)"
      by fastforce
    have first: "first_timestamp_ns (tracks w3 ! i) = Some (ab_stamp (hd (logs i @ [b])))" "in_range (ab_stamp (hd (logs i @ [b])))"
      using stamps unfolding nth3 by (simp_all add: stamps_ok_def hd_append)
    have at3: "at = opus_place (ab_stamp (hd (logs i @ [b]))) (opus_ticks_accounted (tracks w3 ! i)) (ab_stamp b) (unat c)"
      by (simp add: at_def nth3)
    note c4 = represent_gap_cases [OF s4 first(1) b(1) first(2) at3, unfolded nth3]
    show ?thesis
    proof (cases ok4)
      case False
      then obtain r where "w4 = latch_track i r w3"
        using c4 by auto
      then have t4: "touches i w (snd (latch r ?t3)) w4"
        using touches_trans [OF t3 touches_latch_track i] nth3 by auto
      have "track_ok ?h epoch mv (logs i @ [b]) (wr i) (snd (latch r ?t3))"
        using ready stamps prefix_written [of "wr i" "awaiting t" ?h epoch "logs i" b]
        by (intro track_ok_latch_any) (auto simp: audio_ready_def)
      then show ?thesis
        using takes_touch [OF ok t4] ready step s3 s4 True False by (auto simp: audio_ready_def)
    next
      case gap: True
      then obtain t4 where t4: "touches i w3 t4 w4" "t4 = ?t3 \<and> at = opus_ticks_accounted t \<or>
          t4 = cover_gap (at - opus_ticks_accounted t) ?t3 \<and> opus_ticks_accounted t \<le> at"
        using c4 by (simp only: if_True stamp_track_simps) blast
      have "touches i w4 (push_packet b (unat c) (tracks w4 ! i)) (map_track i (push_packet b (unat c)) w4)"
        by (rule touches_map_track) (simp add: push_packet_def)
      then have t5: "touches i w (push_packet b (unat c) t4) (map_track i (push_packet b (unat c)) w4)"
        using touches_trans [OF touches_trans [OF t3 t4(1) i] _ i] touches_nth [OF touches_trans [OF t3 t4(1) i] i] by simp
      have "track_ok ?h epoch mv (logs i @ [b]) (wr i) (push_packet b (unat c) t4)"
        by (rule take_packet_ok [OF ready b newer at_def t4(2)])
      then have ok5: "recorder_ok env contents before mv epoch frags wr (logs(i := logs i @ [b])) (map_track i (push_packet b (unat c)) w4)"
        using recorder_ok_touch [OF ok t5] ready by (auto simp: audio_ready_def)
      obtain v w5 where s5: "write_header_once_every_track_can_be_described env (map_track i (push_packet b (unat c)) w4) = (Inr v, w5)"
        and s6: "(if P w5 then close_open_fragment env w5 else (Inr (), w5)) = (Inr u, w')"
        using step s3 s4 True gap by (auto elim!: then_do_Inr)
      from write_header_ok [OF s5 sink ok5] obtain mv2 epoch2 where
        "recorder_ok env contents before mv2 epoch2 frags wr (logs(i := logs i @ [b])) w5" "length (tracks w5) = length (tracks w)"
        using t5 by (auto simp: touches_def)
      then show ?thesis
        using s6 close_recorder_ok [of env w5 u w', OF _ sink] unfolding takes_def recorded_def
        by (cases "P w5") (simp, metis, auto)
    qed
  qed
qed

lemma audio_entry_simps [simp]:
  "ab_stamp (audio_entry packet ts) = ts" "ab_ticks (audio_entry packet ts) = Some (unat (ap_sample_count packet))"
  by (simp_all add: audio_entry_def)

lemma accept_audio_bag_ok:
  assumes step: "accept_audio_bag env i bag ts w = (Inr u, w')" and bag: "read_encoded_audio_packet_bag env bag = Inr packet"
    and ok: "recorder_ok env contents before mv epoch frags wr logs w" and i: "i < length (tracks w)" and sink: "appending_sink env contents"
    and running: "\<not> is_latched (tracks w ! i)" and ts: "in_range ts"
  shows "takes env contents before logs i (audio_entry packet ts) (length (tracks w)) w'"
proof -
  let ?h = "header_already_written w" and ?t = "(tracks w ! i)\<lparr>media := Some AudioMedia\<rparr>"
  obtain ok1 w1 where s1: "commit_or_latch_media i AudioMedia w = (ok1, w1)"
    by fastforce
  obtain ok2 w2 where s2: "commit_channel_count i packet w1 = (ok2, w2)"
    by fastforce
  note c1 = commit_or_latch_media_cases [OF s1] and c2 = commit_channel_count_cases [OF s2]
  show ?thesis
  proof (cases ok1)
    case False
    then show ?thesis
      using c1 step bag s1 takes_latch_track [OF ok i] by (auto simp: accept_audio_bag_def)
  next
    case True
    then have t1: "touches i w ?t w1" and nth: "tracks w1 ! i = ?t"
      using c1 touches_nth [OF _ i] by auto
    have track1: "track_ok ?h epoch mv (logs i) (wr i) ?t"
      using c1 True ok i running by (intro track_ok_media) (auto simp: recorder_ok_def)
    have ok1': "recorder_ok env contents before mv epoch frags wr logs w1"
      using recorder_ok_touch [OF ok t1 track1] by simp
    show ?thesis
    proof (cases ok2)
      case False
      then obtain r where "w2 = latch_track i r w1"
        using c2 by auto
      then show ?thesis
        using step bag s1 s2 True False takes_latch_track [OF ok1', of i "audio_entry packet ts" r] i t1
        by (simp add: accept_audio_bag_def touches_def)
    next
      case ok2: True
      then obtain t2 where t2: "touches i w1 t2 w2" "t2 = ?t \<and> committed_channel_count t2 \<noteq> None \<or> committed_channel_count ?t = None \<and>
          (\<exists>e n. t2 = ?t\<lparr>tr_sample_entry := Some e, committed_channel_count := Some n\<rparr>)"
        using c2 unfolding nth by (simp only: if_True) blast
      have media: "\<not> is_latched ?t" "media ?t = Some AudioMedia"
        using running by (simp_all add: is_latched_def)
      note ready = audio_ready_after_commit [OF track1 media t2(2)]
      show ?thesis
        apply (rule audio_packet_taken [where c = "ap_sample_count packet" and P = "\<lambda>w. no_video_track_is_wired w \<and>
            (case open_fragment_started_at_ns w of Some started_at \<Rightarrow> AUDIO_ONLY_FRAGMENT_SPAN_NS \<le> i64_saturating_sub ts started_at
             | None \<Rightarrow> False)", OF ok i sink touches_trans [OF t1 t2(1) i] ready(1)])
        subgoal using ready(2) track1 by auto
        subgoal using ts by simp
        subgoal by simp
        subgoal
          unfolding audio_entry_simps push_packet_audio_entry [symmetric]
          using step bag s1 s2 True ok2 by (simp add: accept_audio_bag_def)
        done
    qed
  qed
qed

subsection \<open>A run of bags\<close>

text \<open>What a bag adds to its track when the track accepts it.\<close>

definition bag_entry :: "'s mp4_env \<Rightarrow> bytes \<Rightarrow> int \<Rightarrow> accepted_bag option" where
  "bag_entry env bag ts =
     (case peek_codec env bag of
        Inl _ \<Rightarrow> None
      | Inr named \<Rightarrow>
          if Option.bind named video_codec_from_wire_str \<noteq> None
          then (case read_encoded_video_frame_bag env bag of Inl _ \<Rightarrow> None | Inr frame \<Rightarrow> Some (video_entry frame ts))
          else (case read_encoded_audio_packet_bag env bag of Inl _ \<Rightarrow> None | Inr packet \<Rightarrow> Some (audio_entry packet ts)))"

text \<open>An error that leaves the file as it was: the bag could not be read or routed.\<close>

fun storage_failure :: "mp4_error + 'a \<Rightarrow> bool" where
  "storage_failure (Inl (NotAnEnumeratedLink _)) = False"
| "storage_failure (Inl (NotARoutableBag _ _)) = False"
| "storage_failure (Inl (BagRefused _ _)) = False"
| "storage_failure (Inl _) = True"
| "storage_failure (Inr _) = False"

lemma position_less: "position p xs = Some i \<Longrightarrow> i < length xs"
  by (induction xs arbitrary: i) (auto split: if_splits)

lemma then_do_Inl:
  assumes "then_do r f = (Inl e, w')"
  obtains "r = (Inl e, w')" | v w1 where "r = (Inr v, w1)" "f w1 = (Inl e, w')"
  using assms by (auto simp: then_do_def split: prod.splits sum.splits)

lemma sink_failures:
  "sink_write env bs w = (Inl e, w') \<Longrightarrow> storage_failure (Inl e)"
  "sink_flush env w = (Inl e, w') \<Longrightarrow> storage_failure (Inl e)"
  by (auto simp: sink_write_def sink_flush_def split: prod.splits sum.splits)

lemma write_each_failures: "write_each env bss w = (Inl e, w') \<Longrightarrow> storage_failure (Inl e)"
  by (induction bss arbitrary: w) (auto elim!: then_do_Inl dest: sink_failures)

lemma close_open_fragment_failures:
  "close_open_fragment env w = (Inl e, w') \<Longrightarrow> storage_failure (Inl e)"
  by (auto simp: close_open_fragment_def write_fragment_def Let_def case_prod_beta split: if_splits sum.splits
      elim!: then_do_Inl then_do_Inr dest: sink_failures write_each_failures)

lemma write_header_failures:
  "write_header_once_every_track_can_be_described env w = (Inl e, w') \<Longrightarrow> storage_failure (Inl e)"
  by (auto simp: write_header_once_every_track_can_be_described_def Let_def split: if_splits sum.splits option.splits
      elim!: then_do_Inl then_do_Inr dest: sink_failures)

lemma accept_video_bag_failures:
  assumes "accept_video_bag env i bag ts w = (Inl e, w')" "\<not> storage_failure (Inl e :: mp4_error + unit)"
  shows "w' = w"
  using assms
  by (auto simp: accept_video_bag_def Let_def split: sum.splits prod.splits bool.splits if_splits elim!: then_do_Inl
      dest!: close_open_fragment_failures write_header_failures)

lemma accept_audio_bag_failures:
  assumes "accept_audio_bag env i bag ts w = (Inl e, w')" "\<not> storage_failure (Inl e :: mp4_error + unit)"
  shows "w' = w"
  using assms
  by (auto simp: accept_audio_bag_def Let_def split: sum.splits prod.splits bool.splits if_splits option.splits elim!: then_do_Inl
      dest!: close_open_fragment_failures write_header_failures)

lemma accept_bag_ok:
  assumes step: "accept_bag env link bag ts w = (r, w')" and fine: "\<not> storage_failure r"
    and ok: "recorder_ok env contents before mv epoch frags wr logs w" and sink: "appending_sink env contents" and ts: "in_range ts"
  shows "length (tracks w') = length (tracks w) \<and>
    (recorded env contents before logs w' \<or>
     (\<exists>i b. i < length (tracks w) \<and> bag_entry env bag ts = Some b \<and> recorded env contents before (logs(i := logs i @ [b])) w'))"
proof (cases "position (\<lambda>t. inbound_link_name t = link) (tracks w)")
  case None
  then show ?thesis
    using step ok by (auto simp: accept_bag_def recorded_def)
next
  case (Some i)
  then have i: "i < length (tracks w)"
    by (rule position_less)
  have unchanged: ?thesis if "w' = w"
    using that ok by (auto simp: recorded_def)
  have taken: ?thesis if "takes env contents before logs i b (length (tracks w)) w'" "bag_entry env bag ts = Some b" for b
    using that i by (auto simp: takes_def)
  show ?thesis
  proof (cases "is_latched (tracks w ! i)")
    case True
    let ?w = "map_track i (\<lambda>t. t\<lparr>tr_bags_discarded_after_latch := tr_bags_discarded_after_latch t + 1\<rparr>) w"
    have "touches i w ((tracks w ! i)\<lparr>tr_bags_discarded_after_latch := tr_bags_discarded_after_latch (tracks w ! i) + 1\<rparr>) w'"
      using step Some True by (auto simp: accept_bag_def touches_def map_track_def)
    from recorder_ok_touch [OF ok this, of "logs i"] show ?thesis
      using ok i step Some True by (auto simp: recorder_ok_def track_ok_dropped recorded_def accept_bag_def map_track_def)
  next
    case running: False
    show ?thesis
    proof (cases "peek_codec env bag")
      case (Inl failure)
      then show ?thesis
        using step Some running unchanged by (simp add: accept_bag_def)
    next
      case (Inr named)
      note route = step [unfolded accept_bag_def] Some running Inr
      show ?thesis
      proof (cases "Option.bind named video_codec_from_wire_str = None")
        case False
        then have video: "accept_video_bag env i bag ts w = (r, w')"
          using route by simp
        show ?thesis
        proof (cases r)
          case (Inl e)
          then show ?thesis
            using accept_video_bag_failures [OF video [unfolded Inl]] fine unchanged by simp
        next
          case (Inr u)
          then obtain frame where frame: "read_encoded_video_frame_bag env bag = Inr frame"
            using video by (cases "read_encoded_video_frame_bag env bag") (auto simp: accept_video_bag_def)
          show ?thesis
            by (rule taken [OF accept_video_bag_ok [OF video [unfolded Inr] frame ok i sink running ts]])
              (use False \<open>peek_codec env bag = Inr named\<close> frame in \<open>simp add: bag_entry_def\<close>)
        qed
      next
        case no_video: True
        show ?thesis
        proof (cases "Option.bind named audio_codec_from_wire_str = None")
          case False
          then have audio: "accept_audio_bag env i bag ts w = (r, w')"
            using route no_video by simp
          show ?thesis
          proof (cases r)
            case (Inl e)
            then show ?thesis
              using accept_audio_bag_failures [OF audio [unfolded Inl]] fine unchanged by simp
          next
            case (Inr u)
            then obtain packet where packet: "read_encoded_audio_packet_bag env bag = Inr packet"
              using audio by (cases "read_encoded_audio_packet_bag env bag") (auto simp: accept_audio_bag_def)
            show ?thesis
              by (rule taken [OF accept_audio_bag_ok [OF audio [unfolded Inr] packet ok i sink running ts]])
                (use no_video \<open>peek_codec env bag = Inr named\<close> packet in \<open>simp add: bag_entry_def\<close>)
          qed
        next
          case True
          then have "w' = latch_track i (CodecNamesNoTrack named) w"
            using route no_video by simp
          then have "recorded env contents before logs w'"
            using recorder_ok_latch_track [OF ok i] unfolding recorded_def by blast
          then show ?thesis
            using \<open>w' = latch_track i (CodecNamesNoTrack named) w\<close> by simp
        qed
      qed
    qed
  qed
qed

type_synonym call = "string \<times> bytes \<times> int"

fun run_calls :: "'s mp4_env \<Rightarrow> call list \<Rightarrow> 's mp4_writer \<Rightarrow> (mp4_error + unit) list \<times> 's mp4_writer" where
  "run_calls env [] w = ([], w)"
| "run_calls env ((link, bag, ts) # calls) w =
     (case accept_bag env link bag ts w of (r, w) \<Rightarrow> (case run_calls env calls w of (rs, w) \<Rightarrow> (r # rs, w)))"

text \<open>The bags a run accepted on track \<open>i\<close>: those whose stamp the track took over.\<close>

fun accepted_by :: "'s mp4_env \<Rightarrow> nat \<Rightarrow> call list \<Rightarrow> 's mp4_writer \<Rightarrow> accepted_bag list" where
  "accepted_by env i [] w = []"
| "accepted_by env i ((link, bag, ts) # calls) w =
     (let w1 = snd (accept_bag env link bag ts w)
      in (if last_accepted_timestamp_ns (tracks w1 ! i) = last_accepted_timestamp_ns (tracks w ! i) then []
          else case bag_entry env bag ts of None \<Rightarrow> [] | Some b \<Rightarrow> [b]) @ accepted_by env i calls w1)"

lemma recorder_ok_cong:
  assumes "recorder_ok env contents before mv epoch frags wr logs w" "\<forall>i<length (tracks w). logs i = logs' i"
  shows "recorder_ok env contents before mv epoch frags wr logs' w"
proof -
  have "first_stamps (length (tracks w)) logs = first_stamps (length (tracks w)) logs'"
    unfolding first_stamps_def using assms(2) by (intro image_cong) auto
  then show ?thesis
    using assms by (simp add: recorder_ok_def)
qed

lemma recorder_ok_stamps:
  "recorder_ok env contents before mv epoch frags wr logs w \<Longrightarrow> i < length (tracks w) \<Longrightarrow> stamps_ok (logs i) (tracks w ! i)"
  by (simp add: recorder_ok_def track_ok_def)

lemma stamps_ok_snoc_differs:
  "stamps_ok bags t \<Longrightarrow> stamps_ok (bags @ [b]) t' \<Longrightarrow> last_accepted_timestamp_ns t' \<noteq> last_accepted_timestamp_ns t"
  by (cases bags rule: rev_cases) (auto simp: stamps_ok_def sorted_wrt_append)

lemma stamps_ok_same:
  "stamps_ok bags t \<Longrightarrow> stamps_ok bags t' \<Longrightarrow> last_accepted_timestamp_ns t' = last_accepted_timestamp_ns t"
  by (simp add: stamps_ok_def)

lemma accept_bag_accepts:
  assumes step: "accept_bag env link bag ts w = (r, w')" and fine: "\<not> storage_failure r"
    and ok: "recorded env contents before logs w" and sink: "appending_sink env contents" and ts: "in_range ts"
  shows "length (tracks w') = length (tracks w) \<and>
    recorded env contents before (\<lambda>i. logs i @ accepted_by env i [(link, bag, ts)] w) w'"
proof -
  from ok obtain mv epoch frags wr where old: "recorder_ok env contents before mv epoch frags wr logs w"
    by (auto simp: recorded_def)
  note same = accept_bag_ok [OF step fine old sink ts]
  then obtain logs1 where new: "recorded env contents before logs1 w'"
    and cases: "logs1 = logs \<or> (\<exists>i b. i < length (tracks w) \<and> bag_entry env bag ts = Some b \<and> logs1 = logs(i := logs i @ [b]))"
    by blast
  from new obtain mv2 epoch2 frags2 wr2 where new': "recorder_ok env contents before mv2 epoch2 frags2 wr2 logs1 w'"
    by (auto simp: recorded_def)
  have "logs1 j = logs j @ accepted_by env j [(link, bag, ts)] w" if j: "j < length (tracks w)" for j
  proof -
    have st: "stamps_ok (logs j) (tracks w ! j)" "stamps_ok (logs1 j) (tracks w' ! j)"
      using recorder_ok_stamps [OF old j] recorder_ok_stamps [OF new'] same j by auto
    from cases show ?thesis
    proof (elim disjE exE conjE)
      assume "logs1 = logs"
      then show ?thesis
        using stamps_ok_same [OF st(1)] st(2) step by simp
    next
      fix i b
      assume b: "bag_entry env bag ts = Some b" "logs1 = logs(i := logs i @ [b])"
      show ?thesis
        using b stamps_ok_same [OF st(1)] stamps_ok_snoc_differs [OF st(1)] st(2) step by (cases "j = i") auto
    qed
  qed
  then have "\<forall>j<length (tracks w'). logs1 j = logs j @ accepted_by env j [(link, bag, ts)] w"
    using same by simp
  from recorder_ok_cong [OF new' this] show ?thesis
    using same by (auto simp: recorded_def simp del: accepted_by.simps)
qed

lemma run_calls_ok:
  assumes "run_calls env calls w = (rs, w')" "\<forall>r\<in>set rs. \<not> storage_failure r" "recorded env contents before logs w"
    and sink: "appending_sink env contents" and "\<forall>(link, bag, ts)\<in>set calls. in_range ts"
  shows "length (tracks w') = length (tracks w) \<and> recorded env contents before (\<lambda>i. logs i @ accepted_by env i calls w) w'"
  using assms(1,2,3,5)
proof (induction calls arbitrary: w rs logs)
  case (Cons call calls)
  obtain link bag ts where call: "call = (link, bag, ts)"
    by (cases call)
  obtain r w1 where step: "accept_bag env link bag ts w = (r, w1)"
    by fastforce
  obtain rs' where rest: "run_calls env calls w1 = (rs', w')" "rs = r # rs'"
    using Cons.prems(1) by (auto simp: call step split: prod.splits)
  have fine: "\<not> storage_failure r" "\<forall>r\<in>set rs'. \<not> storage_failure r" "in_range ts" "\<forall>(link, bag, ts)\<in>set calls. in_range ts"
    using Cons.prems(2,4) rest(2) by (auto simp: call)
  note one = accept_bag_accepts [OF step fine(1) Cons.prems(3) sink fine(3)]
  show ?case
    using Cons.IH [OF rest(1) fine(2) conjunct2 [OF one] fine(4)] one step by (simp add: call Let_def)
qed simp

lemma recorded_writer_new: "recorded env contents (contents s) (\<lambda>_. []) (writer_new s links)"
proof -
  have "recorder_ok env contents (contents s) mv 0 [] (\<lambda>_. []) (\<lambda>_. []) (writer_new s links)" for mv
    by (auto simp: recorder_ok_def file_ok_def writer_new_def read_file_def track_ok_def stamps_ok_def recording_ok_def media_ok_def
        track_new_def is_latched_def held_part_def described_def nth_enumerate_eq)
  then show ?thesis
    unfolding recorded_def by blast
qed

subsection \<open>The end of a run\<close>

lemma release_held_back_sample_simps [simp]:
  "awaiting (release_held_back_sample t) = awaiting t @ held_part t"
  "is_latched (release_held_back_sample t) = is_latched t"
  "track_id (release_held_back_sample t) = track_id t"
  "held_back_video_sample t = None \<Longrightarrow> release_held_back_sample t = t"
  by (simp_all add: release_held_back_sample_def held_part_def reached_def lay_out_append is_latched_def Let_def split: option.split)

definition final_ok :: "int \<Rightarrow> accepted_bag list \<Rightarrow> timed_sample list \<Rightarrow> mp4_track \<Rightarrow> bool" where
  "final_ok epoch bags wr t \<longleftrightarrow>
     (if is_latched t then samples_awaiting_fragment t = [] \<and> prefix wr (track_timeline epoch bags)
      else wr @ awaiting t = track_timeline epoch bags)"

lemma final_ok_settle: "final_ok epoch bags wr t \<Longrightarrow> final_ok epoch bags (wr @ awaiting t) (settle_written_track t)"
  by (simp add: final_ok_def split: if_splits)

lemma final_ok_release:
  "track_ok True epoch mv bags wr t \<Longrightarrow> final_ok epoch bags wr (release_held_back_sample t)"
  by (auto simp: final_ok_def track_ok_def recording_ok_def origin_def)

lemma finish_ok:
  assumes step: "finish env w = (Inr u, w')" and sink: "appending_sink env contents"
    and ok: "recorder_ok env contents before mv epoch frags wr logs w" and header: "header_already_written w"
  shows "\<exists>frags wr. file_ok env contents before mv frags wr w' \<and> header_already_written w' \<and> length (tracks w') = length (tracks w) \<and>
           (\<forall>i<length (tracks w). prefix (wr i) (track_timeline epoch (logs i)) \<and>
              (\<not> is_latched (tracks w ! i) \<longrightarrow> wr i = track_timeline epoch (logs i)))"
proof -
  let ?w1 = "w\<lparr>tracks := map release_held_back_sample (tracks w)\<rparr>"
  obtain v w2 where close: "close_open_fragment env ?w1 = (Inr v, w2)" and flush: "then_do (sink_flush env w2) (\<lambda>w. (Inr (tally w), w)) = (Inr u, w')"
    using step unfolding finish_def by (rule then_do_Inr)
  obtain s where w': "w' = w2\<lparr>mp4_sink := s\<rparr>" "contents s = contents (mp4_sink w2)"
    using flush by (elim then_do_Inr) (use sink_flush_Inr [OF _ sink] in blast)
  have kept: "file_ok env contents before mv frags wr ?w1"
    using ok by (auto simp: recorder_ok_def file_ok_def)
  have final: "\<forall>i<length (tracks ?w1). final_ok epoch (logs i) (wr i) (tracks ?w1 ! i)"
    using ok header by (auto simp: recorder_ok_def intro!: final_ok_release)
  have "\<exists>frags wr. file_ok env contents before mv frags wr w2 \<and> (\<forall>i<length (tracks ?w1). final_ok epoch (logs i) (wr i) (tracks w2 ! i)) \<and>
      header_already_written w2 = header_already_written ?w1 \<and> length (tracks w2) = length (tracks ?w1) \<and>
      (header_already_written ?w1 \<longrightarrow> tracks w2 = map settle_written_track (tracks ?w1))"
    by (rule close_keeps [where P = "\<lambda>i. final_ok epoch (logs i)", OF close sink kept final]) (rule final_ok_settle)
  then obtain frags wr where "file_ok env contents before mv frags wr w2"
      "\<forall>i<length (tracks ?w1). final_ok epoch (logs i) (wr i) (tracks w2 ! i)"
      "header_already_written w2 = header_already_written ?w1" "header_already_written ?w1 \<longrightarrow> tracks w2 = map settle_written_track (tracks ?w1)"
    by blast
  then have new: "file_ok env contents before mv frags wr w2" "\<forall>i<length (tracks w). final_ok epoch (logs i) (wr i) (tracks w2 ! i)"
      "header_already_written w2" "tracks w2 = map settle_written_track (map release_held_back_sample (tracks w))"
    using header by simp_all
  have "prefix (wr i) (track_timeline epoch (logs i)) \<and> (\<not> is_latched (tracks w ! i) \<longrightarrow> wr i = track_timeline epoch (logs i))"
    if "i < length (tracks w)" for i
    using new(2) that unfolding new(4) by (auto simp: final_ok_def split: if_splits)
  moreover have "file_ok env contents before mv frags wr w'"
    using new(1,3) w' by (simp add: file_ok_def)
  ultimately show ?thesis
    using new w' by (intro exI [of _ frags] exI [of _ wr]) simp
qed

lemma finish_without_header:
  assumes step: "finish env w = (Inr u, w')" and sink: "appending_sink env contents" and "\<not> header_already_written w"
  shows "contents (mp4_sink w') = contents (mp4_sink w)"
  using assms sink_flush_Inr [OF _ sink] by (fastforce simp: finish_def close_open_fragment_def elim!: then_do_Inr)

lemma recorder_ok_track:
  "recorder_ok env contents before mv epoch frags wr logs w \<Longrightarrow> i < length (tracks w) \<Longrightarrow>
     track_ok (header_already_written w) epoch mv (logs i) (wr i) (tracks w ! i)"
  by (simp add: recorder_ok_def)

lemma recorder_ok_on_time:
  assumes ok: "recorder_ok env contents before mv epoch frags wr logs w" and "header_already_written w" "i < length (tracks w)"
  shows "list_all2 (on_time epoch) (logs i) (track_timeline epoch (logs i))"
proof (cases "logs i = []")
  case False
  then have "epoch \<le> ab_stamp (hd (logs i))"
    using recorder_ok_track [OF ok assms(3)] assms(2) by (simp add: track_ok_def)
  then show ?thesis
    using stamps_ok_hd_le [OF recorder_ok_stamps [OF ok assms(3)]] unfolding track_timeline_def by (intro timeline_on_time) auto
qed simp

lemma recorder_ok_described:
  assumes "recorder_ok env contents before mv epoch frags wr logs w" "header_already_written w" "i < length (tracks w)"
    "\<not> is_latched (tracks w ! i)"
  shows "\<exists>k\<in>set (mv_traks mv). build_trak (tracks w ! i) = Some k"
  using recorder_ok_track [OF assms(1,3)] assms(2,4) by (simp add: track_ok_def recording_ok_def described_def)

subsection \<open>A small recording\<close>

definition demo_env :: "bytes mp4_env" where
  "demo_env =
     \<lparr>peek_codec = (\<lambda>bag. Inr (Some (if hd bag = 1 then ''h264'' else ''opus''))),
      video_named_map = (\<lambda>bag. Inr \<lparr>vm_codec = Some ''h264'', vm_annex_b_access_unit_bytes = tl bag, vm_is_sync_point = True,
        vm_group_index = 0, vm_sequence_index = 0, vm_width = 64, vm_height = 64, vm_color = None\<rparr>),
      audio_named_map = (\<lambda>bag. Inr \<lparr>am_codec = Some ''opus'', am_opus_packet_bytes = tl bag, am_is_sync_point = True,
        am_group_index = 0, am_sequence_index = 0, am_sample_rate = 48000, am_channels = 1, am_sample_count = 960, am_pre_skip = 312\<rparr>),
      parse_h265_sps = (\<lambda>_. None), encode_ftyp = Inr [1], encode_moov = (\<lambda>_. Inr [2]), encode_moof = (\<lambda>_. Inr [3]),
      write_all = (\<lambda>bs s. (Inr (), s @ bs)), flush_sink = (\<lambda>s. (Inr (), s))\<rparr>"

definition demo_frame :: bytes where
  "demo_frame = [0, 0, 1, 0x67, 66, 1, 30, 0, 0, 1, 0x68, 5, 0, 0, 1, 0x65, 9]"

text \<open>A camera and a microphone; the second packet follows the first after a gap of a second and a half.\<close>

definition demo_calls :: "call list" where
  "demo_calls = [(''cam'', 1 # demo_frame, 1000), (''mic'', [2, 7, 8], 2000), (''mic'', [2, 9], 1500002000),
                 (''cam'', 1 # demo_frame, 2000001000)]"

lemma demo_frame_split:
  "length_prefix_annex_b_access_unit demo_frame GrammarH264 =
     \<lparr>length_prefixed_sample_bytes = [0, 0, 0, 2, 0x65, 9],
      sample_parameter_sets = \<lparr>video_parameter_set_nal_units = [], sequence_parameter_set_nal_units = [[0x67, 66, 1, 30]],
                               picture_parameter_set_nal_units = [[0x68, 5]]\<rparr>\<rparr>"
  by code_simp

lemmas demo_simps = demo_env_def demo_calls_def demo_frame_split writer_new_def track_new_def accept_bag_def accept_audio_bag_def is_latched_def
  accept_video_bag_def read_encoded_video_frame_bag_def commit_parameter_sets_def build_video_sample_entry_def build_avc1_sample_entry_def
  is_complete_for_def visual_sample_entry_def resolve_held_back_sample_def is_pacing_video_track_def
  read_encoded_audio_packet_bag_def audio_codec_from_wire_str_def video_codec_from_wire_str_def commit_or_latch_media_def map_track_def
  commit_channel_count_def build_opus_sample_entry_def resolve_opus_layout_def accept_timestamp_def
  represent_any_capture_gap_before_this_packet_def rescale_nanoseconds_def i64_saturating_sub_def VIDEO_TRACK_TIMESCALE_HZ_def
  OPUS_TRACK_TIMESCALE_HZ_def then_do_def write_header_once_every_track_can_be_described_def
  HIGHEST_BYTES_HELD_AWAITING_THE_HEADER_def bytes_held_awaiting_the_header_def bytes_held_by_def every_track_describable_def
  epoch_of_def sink_write_def place_track_at_its_offset_def no_video_track_is_wired_def is_recording_video_def
  AUDIO_ONLY_FRAGMENT_SPAN_NS_def close_open_fragment_def contributing_tracks_def MDAT_BOX_HEADER_BYTES_def write_fragment_def
  settle_written_tracks_def settle_written_track_def as_bytes_def sink_flush_def Let_def be_bytes_def le_bytes_def upt_rec enumerate_eq_zip

lemma demo_accepted:
  "accepted_by demo_env 0 demo_calls (writer_new [] [''cam'', ''mic'']) =
     [\<lparr>ab_stamp = 1000, ab_data = [0, 0, 0, 2, 0x65, 9], ab_sync = True, ab_ticks = None\<rparr>,
      \<lparr>ab_stamp = 2000001000, ab_data = [0, 0, 0, 2, 0x65, 9], ab_sync = True, ab_ticks = None\<rparr>]"
  "accepted_by demo_env 1 demo_calls (writer_new [] [''cam'', ''mic'']) =
     [\<lparr>ab_stamp = 2000, ab_data = [7, 8], ab_sync = True, ab_ticks = Some 960\<rparr>,
      \<lparr>ab_stamp = 1500002000, ab_data = [9], ab_sync = True, ab_ticks = Some 960\<rparr>]"
  by (simp_all add: demo_simps bag_entry_def video_entry_def audio_entry_def cong: if_weak_cong)

lemma demo_run:
  "fst (run_calls demo_env demo_calls (writer_new [] [''cam'', ''mic''])) = [Inr (), Inr (), Inr (), Inr ()]"
  "header_already_written (snd (run_calls demo_env demo_calls (writer_new [] [''cam'', ''mic''])))"
  "map is_latched (tracks (snd (run_calls demo_env demo_calls (writer_new [] [''cam'', ''mic''])))) = [False, False]"
  by (simp_all add: demo_simps cong: if_weak_cong)

lemma demo_finish:
  "\<exists>t w'. finish demo_env (snd (run_calls demo_env demo_calls (writer_new [] [''cam'', ''mic'']))) = (Inr t, w') \<and>
          length (mp4_sink w') < 100"
  by (simp add: demo_simps finish_def release_held_back_sample_def cong: if_weak_cong)

lemma small_enough_of_file: "length (concat (map fragment_bytes frags)) < 2 ^ 31 \<Longrightarrow> list_all small_enough frags"
  by (induction frags) (auto simp: small_enough_def)

lemma first_stamps_two:
  "logs 0 \<noteq> [] \<Longrightarrow> logs 1 \<noteq> [] \<Longrightarrow> first_stamps 2 logs = {ab_stamp (hd (logs 0)), ab_stamp (hd (logs 1))}"
  by (auto simp: first_stamps_def less_2_cases_iff)

subsection \<open>The recording is faithful\<close>

text \<open>C4: After any run of bags that storage did not fail, the finished file is empty if the header was
  never written, and otherwise is the header followed by whole fragments. The header describes every
  track that is still recording. As long as no fragment reaches 2 GiB, what a reader finds on a track
  through the offsets, sizes, flags and decode times of the fragments is exactly what the track
  accepted, in order: each video frame at the distance of its stamp from the earliest stamp of the
  recording, each audio packet less than a packet (and a tick) before its stamp. A track that was
  stopped holds a prefix of what it accepted.\<close>

theorem mp4_recording_is_faithful:
  assumes sink: "appending_sink env contents"
    and run: "run_calls env calls (writer_new s links) = (rs, w)" and fine: "\<forall>r\<in>set rs. \<not> storage_failure r"
    and stamps: "\<forall>(link, bag, ts)\<in>set calls. in_range ts" and finished: "finish env w = (Inr t, w')"
  shows "let accepted = (\<lambda>i. accepted_by env i calls (writer_new s links)); epoch = Min (first_stamps (length links) accepted)
    in if \<not> header_already_written w then contents (mp4_sink w') = contents s
       else \<exists>ftyp mv moov frags.
         encode_ftyp env = Inr ftyp \<and> encode_moov env mv = Inr moov \<and> list_all (is_written env) frags \<and>
         contents (mp4_sink w') = contents s @ ftyp @ moov @ concat (map fragment_bytes frags) \<and>
         (\<forall>i<length links. \<not> is_latched (tracks w ! i) \<longrightarrow> (\<exists>k\<in>set (mv_traks mv). build_trak (tracks w ! i) = Some k)) \<and>
         (list_all small_enough frags \<longrightarrow> (\<forall>i<length links.
            prefix (read_file (Suc i) frags) (track_timeline epoch (accepted i)) \<and>
            (\<not> is_latched (tracks w ! i) \<longrightarrow> read_file (Suc i) frags = track_timeline epoch (accepted i)) \<and>
            list_all2 (on_time epoch) (accepted i) (track_timeline epoch (accepted i))))"
proof -
  let ?accepted = "\<lambda>i. accepted_by env i calls (writer_new s links)"
  have n: "length (tracks w) = length links"
    and "recorded env contents (contents s) ?accepted w"
    using run_calls_ok [OF run fine recorded_writer_new sink stamps] by (simp_all add: writer_new_def)
  then obtain mv epoch frags wr where ok: "recorder_ok env contents (contents s) mv epoch frags wr ?accepted w"
    by (auto simp: recorded_def)
  show ?thesis
  proof (cases "header_already_written w")
    case False
    then show ?thesis
      using finish_without_header [OF finished sink] ok by (simp add: recorder_ok_def file_ok_def)
  next
    case True
    from finish_ok [OF finished sink ok True] obtain frags wr where new: "file_ok env contents (contents s) mv frags wr w'"
        "header_already_written w'" "length (tracks w') = length (tracks w)"
        "\<forall>i<length (tracks w). prefix (wr i) (track_timeline epoch (?accepted i)) \<and>
           (\<not> is_latched (tracks w ! i) \<longrightarrow> wr i = track_timeline epoch (?accepted i))"
      by blast
    have epoch: "Min (first_stamps (length links) ?accepted) = epoch"
      using ok True n by (simp add: recorder_ok_def)
    obtain ftyp moov where "encode_ftyp env = Inr ftyp" "encode_moov env mv = Inr moov" "list_all (is_written env) frags"
        "contents (mp4_sink w') = contents s @ ftyp @ moov @ concat (map fragment_bytes frags)"
        "list_all small_enough frags \<longrightarrow> (\<forall>i<length links. read_file (Suc i) frags = wr i)"
      using new(1,2,3) n by (auto simp: file_ok_def)
    then show ?thesis
      unfolding Let_def epoch
      using new(4) True n recorder_ok_on_time [OF ok True] recorder_ok_described [OF ok True]
      by (simp only: not_True_eq_False if_False) (intro exI [of _ ftyp] exI [of _ mv] exI [of _ moov] exI [of _ frags], simp)
  qed
qed

theorem mp4_recording_is_faithful_witness:
  "\<exists>ftyp moov frags.
     mp4_sink (snd (finish demo_env (snd (run_calls demo_env demo_calls (writer_new [] [''cam'', ''mic'']))))) =
       ftyp @ moov @ concat (map fragment_bytes frags) \<and>
     read_file 1 frags = [(0, [0, 0, 0, 2, 0x65, 9], True), (2000000000, [0, 0, 0, 2, 0x65, 9], True)] \<and>
     read_file 2 frags = [(0, [7, 8], True), (72000, [9], True)]"
proof -
  let ?fresh = "writer_new [] [''cam'', ''mic''] :: bytes mp4_writer"
  let ?w = "snd (run_calls demo_env demo_calls ?fresh)" and ?accepted = "\<lambda>i. accepted_by demo_env i demo_calls ?fresh"
  obtain t w' where finished: "finish demo_env ?w = (Inr t, w')" and small: "length (mp4_sink w') < 100"
    using demo_finish by blast
  have sink: "appending_sink demo_env (\<lambda>s. s)"
    by (simp add: appending_sink_def demo_env_def)
  have run: "run_calls demo_env demo_calls ?fresh = ([Inr (), Inr (), Inr (), Inr ()], ?w)"
    by (rule prod_eqI) (simp_all only: demo_run(1) fst_conv snd_conv)
  have stamps: "\<forall>(link, bag, ts)\<in>set demo_calls. in_range ts"
    by (simp add: demo_calls_def in_range_def)
  have fine: "\<forall>r\<in>set [Inr (), Inr (), Inr (), Inr () :: mp4_error + unit]. \<not> storage_failure r"
    by simp
  have "first_stamps 2 ?accepted = {1000, 2000}"
    using first_stamps_two [of ?accepted] by (simp add: demo_accepted del: One_nat_def)
  then have epoch: "Min (first_stamps (length [''cam'', ''mic'']) ?accepted) = 1000"
    by (simp add: numeral_2_eq_2)
  note main = mp4_recording_is_faithful [OF sink run fine stamps finished, unfolded Let_def epoch]
  obtain ftyp moov frags where written: "mp4_sink w' = [] @ ftyp @ moov @ concat (map fragment_bytes frags)"
    and seen: "list_all small_enough frags \<longrightarrow> (\<forall>i<length [''cam'', ''mic''].
      prefix (read_file (Suc i) frags) (track_timeline 1000 (?accepted i)) \<and>
      (\<not> is_latched (tracks ?w ! i) \<longrightarrow> read_file (Suc i) frags = track_timeline 1000 (?accepted i)) \<and>
      list_all2 (on_time 1000) (?accepted i) (track_timeline 1000 (?accepted i)))"
    using main by (simp only: demo_run(2) not_True_eq_False if_False) blast
  have "list_all small_enough frags"
    using small written by (intro small_enough_of_file) simp
  moreover have "\<not> is_latched (tracks ?w ! 0)" "\<not> is_latched (tracks ?w ! 1)"
    using demo_run(3) by (auto simp: map_eq_Cons_conv)
  ultimately have "read_file 1 frags = track_timeline 1000 (?accepted 0)" "read_file 2 frags = track_timeline 1000 (?accepted 1)"
    using seen by (auto simp: numeral_2_eq_2)
  then show ?thesis
    using written finished unfolding demo_accepted by (auto simp: track_timeline_def opus_place_def opus_ticks_def)
qed

end
