(* ===== verification/Processor_Graph.thy ===== *)
theory Processor_Graph
  imports Audio_Window
begin

text \<open>
  The processor graph of the engine (\<open>core/graph/\<close>): processors as nodes with the components
  attached to them, links as edges, the traversal language over them
  (\<open>graph/traversal/\<close>) and the operations that add and drop nodes and links.

  The graph stands on petgraph's \<open>DiGraph\<close>, which is not part of the repository: its operations
  are the record \<open>pg\<close>, an argument of every traversal, and the locale \<open>digraph\<close> states what its
  documentation promises: indices name nodes and edges, removing a node removes the edges that
  touch it, and removing anything may give other nodes and edges new indices. The processor
  registry, the ids \<open>cuid2\<close> draws and the hash of a configuration are arguments too. A JSON value is
  the string it renders to. A component of a node is a field of its record: an option, or a
  flag where only its presence is ever asked.
\<close>

subsection \<open>States\<close>

datatype processor_state = Pending | Idle | Running | Paused | Stopping | Stopped | Error

fun is_before_setup_completed :: "processor_state \<Rightarrow> bool" where
  "is_before_setup_completed Pending = True"
| "is_before_setup_completed Idle = True"
| "is_before_setup_completed _ = False"

text \<open>The state cell of a processor, which its thread shares with the graph.\<close>

record observable_processor_state =
  os_current :: processor_state
  os_failure_reason :: "string option"

definition new_observable_state :: "processor_state \<Rightarrow> observable_processor_state" where
  "new_observable_state initial = \<lparr>os_current = initial, os_failure_reason = None\<rparr>"

definition transition_to :: "processor_state \<Rightarrow> observable_processor_state \<Rightarrow> observable_processor_state" where
  "transition_to state cell = cell\<lparr>os_current := state\<rparr>"

definition fail_with :: "string \<Rightarrow> observable_processor_state \<Rightarrow> observable_processor_state" where
  "fail_with reason cell = cell\<lparr>os_current := Error, os_failure_reason := Some reason\<rparr>"

definition transition_to_unless_already_failed ::
    "processor_state \<Rightarrow> observable_processor_state \<Rightarrow> observable_processor_state" where
  "transition_to_unless_already_failed state cell =
     (if os_current cell = Error then cell else cell\<lparr>os_current := state\<rparr>)"

datatype link_state = LinkPending | LinkWired | LinkDisconnecting | LinkDisconnected | LinkError

subsection \<open>Links\<close>

record output_link_port_ref =
  src_processor_id :: string
  src_port_name :: string

record input_link_port_ref =
  dst_processor_id :: string
  dst_port_name :: string

definition output_ref_to_string :: "output_link_port_ref \<Rightarrow> string" where
  "output_ref_to_string r = src_processor_id r @ ''.'' @ src_port_name r"

definition input_ref_to_string :: "input_link_port_ref \<Rightarrow> string" where
  "input_ref_to_string r = dst_processor_id r @ ''.'' @ dst_port_name r"

record link =
  lk_id :: string
  lk_source :: output_link_port_ref
  lk_target :: input_link_port_ref
  lk_capacity :: nat
  lk_state :: link_state
  lk_state_component :: "link_state option"
  lk_pending_deletion :: bool

definition DEFAULT_LINK_CAPACITY :: nat where
  "DEFAULT_LINK_CAPACITY = 4"

text \<open>\<open>str::split_once\<close> on a one-byte pattern: the first occurrence.\<close>

definition split_once :: "char \<Rightarrow> string \<Rightarrow> (string \<times> string) option" where
  "split_once c s =
     (case dropWhile (\<lambda>d. d \<noteq> c) s of
        [] \<Rightarrow> None
      | _ # rest \<Rightarrow> Some (takeWhile (\<lambda>d. d \<noteq> c) s, rest))"

definition link_with_capacity :: "string \<Rightarrow> string \<Rightarrow> string \<Rightarrow> nat \<Rightarrow> link" where
  "link_with_capacity cuid from_port to_port capacity =
     (let (source_node, source_port) =
            (case split_once (CHR ''.'') from_port of Some r \<Rightarrow> r | None \<Rightarrow> (from_port, ''''));
          (target_node, target_port) =
            (case split_once (CHR ''.'') to_port of Some r \<Rightarrow> r | None \<Rightarrow> (to_port, ''''))
      in \<lparr>lk_id = ''L'' @ cuid,
          lk_source = \<lparr>src_processor_id = source_node, src_port_name = source_port\<rparr>,
          lk_target = \<lparr>dst_processor_id = target_node, dst_port_name = target_port\<rparr>,
          lk_capacity = capacity, lk_state = LinkPending,
          lk_state_component = None, lk_pending_deletion = False\<rparr>)"

definition link_new :: "string \<Rightarrow> string \<Rightarrow> string \<Rightarrow> link" where
  "link_new cuid from_port to_port = link_with_capacity cuid from_port to_port DEFAULT_LINK_CAPACITY"

subsection \<open>Processors\<close>

datatype port_kind = Data | Event | Control

record port_info =
  pi_name :: string
  pi_description :: string
  pi_kind :: port_kind
  pi_delivery_profile :: "string option"
  pi_audio_window :: "audio_window_contract option"

record processor_node =
  nd_id :: string
  nd_processor_type :: string
  nd_display_name :: string
  nd_config :: "string option"
  nd_config_checksum :: u64
  nd_inputs :: "port_info list"
  nd_outputs :: "port_info list"
  nd_state :: "observable_processor_state option"
  nd_instance :: bool
  nd_thread_handle :: bool
  nd_subprocess_handle :: bool
  nd_ready_barrier :: bool
  nd_shutdown_channel :: "bool option"
  nd_pause_gate :: "bool option"
  nd_metrics :: bool
  nd_window_contracts :: bool
  nd_pending_deletion :: bool

definition processor_node_new ::
    "(string \<Rightarrow> u64) \<Rightarrow> string \<Rightarrow> string \<Rightarrow> string \<Rightarrow> string option \<Rightarrow> port_info list \<Rightarrow> port_info list \<Rightarrow>
      processor_node" where
  "processor_node_new checksum cuid processor_type display_name config inputs outputs =
     \<lparr>nd_id = ''P'' @ cuid, nd_processor_type = processor_type, nd_display_name = display_name,
      nd_config = config,
      nd_config_checksum = (case config of Some c \<Rightarrow> checksum c | None \<Rightarrow> 0),
      nd_inputs = inputs, nd_outputs = outputs, nd_state = None, nd_instance = False,
      nd_thread_handle = False, nd_subprocess_handle = False, nd_ready_barrier = False,
      nd_shutdown_channel = None, nd_pause_gate = None, nd_metrics = False,
      nd_window_contracts = False, nd_pending_deletion = False\<rparr>"

definition set_config :: "(string \<Rightarrow> u64) \<Rightarrow> string \<Rightarrow> processor_node \<Rightarrow> processor_node" where
  "set_config checksum config n = n\<lparr>nd_config_checksum := checksum config, nd_config := Some config\<rparr>"

definition has_input :: "string \<Rightarrow> processor_node \<Rightarrow> bool" where
  "has_input pname n \<longleftrightarrow> (\<exists>p \<in> set (nd_inputs n). pi_name p = pname)"

definition has_output :: "string \<Rightarrow> processor_node \<Rightarrow> bool" where
  "has_output pname n \<longleftrightarrow> (\<exists>p \<in> set (nd_outputs n). pi_name p = pname)"

definition try_output :: "string \<Rightarrow> processor_node \<Rightarrow> output_link_port_ref option" where
  "try_output pname n =
     (if has_output pname n then Some \<lparr>src_processor_id = nd_id n, src_port_name = pname\<rparr> else None)"

definition try_input :: "string \<Rightarrow> processor_node \<Rightarrow> input_link_port_ref option" where
  "try_input pname n =
     (if has_input pname n then Some \<lparr>dst_processor_id = nd_id n, dst_port_name = pname\<rparr> else None)"

subsection \<open>The graph library\<close>

datatype direction = Incoming | Outgoing

record 'g digraph_api =
  node_references :: "'g \<Rightarrow> (nat \<times> processor_node) list"
  edge_references :: "'g \<Rightarrow> (nat \<times> nat \<times> nat \<times> link) list"
  edges_directed :: "'g \<Rightarrow> nat \<Rightarrow> direction \<Rightarrow> nat list"
  add_node :: "processor_node \<Rightarrow> 'g \<Rightarrow> nat \<times> 'g"
  add_edge :: "nat \<Rightarrow> nat \<Rightarrow> link \<Rightarrow> 'g \<Rightarrow> nat \<times> 'g"
  node_weight_mut :: "nat \<Rightarrow> (processor_node \<Rightarrow> processor_node) \<Rightarrow> 'g \<Rightarrow> 'g"
  edge_weight_mut :: "nat \<Rightarrow> (link \<Rightarrow> link) \<Rightarrow> 'g \<Rightarrow> 'g"
  remove_node :: "nat \<Rightarrow> 'g \<Rightarrow> processor_node option \<times> 'g"
  remove_edge :: "nat \<Rightarrow> 'g \<Rightarrow> link option \<times> 'g"

text \<open>The weight lookups, through the enumerations; an edge is its index, source, target and link.\<close>

fun edge_index :: "nat \<times> nat \<times> nat \<times> link \<Rightarrow> nat" where
  "edge_index (e, s, t, w) = e"

fun edge_source :: "nat \<times> nat \<times> nat \<times> link \<Rightarrow> nat" where
  "edge_source (e, s, t, w) = s"

fun edge_target :: "nat \<times> nat \<times> nat \<times> link \<Rightarrow> nat" where
  "edge_target (e, s, t, w) = t"

fun edge_link :: "nat \<times> nat \<times> nat \<times> link \<Rightarrow> link" where
  "edge_link (e, s, t, w) = w"

definition node_weight :: "'g digraph_api \<Rightarrow> 'g \<Rightarrow> nat \<Rightarrow> processor_node option" where
  "node_weight pg g i = map_option snd (find (\<lambda>x. fst x = i) (node_references pg g))"

definition edge_weight :: "'g digraph_api \<Rightarrow> 'g \<Rightarrow> nat \<Rightarrow> link option" where
  "edge_weight pg g e = map_option edge_link (find (\<lambda>x. edge_index x = e) (edge_references pg g))"

subsection \<open>Traversals\<close>

text \<open>A traversal is the list of indices it stands on.\<close>

definition vertices :: "'g digraph_api \<Rightarrow> 'g \<Rightarrow> nat list" where
  "vertices pg g = map fst (node_references pg g)"

definition vertex :: "'g digraph_api \<Rightarrow> string \<Rightarrow> 'g \<Rightarrow> nat list" where
  "vertex pg p g =
     (case find (\<lambda>x. nd_id (snd x) = p) (node_references pg g) of Some x \<Rightarrow> [fst x] | None \<Rightarrow> [])"

definition edges :: "'g digraph_api \<Rightarrow> 'g \<Rightarrow> nat list" where
  "edges pg g = map edge_index (edge_references pg g)"

definition edge :: "'g digraph_api \<Rightarrow> string \<Rightarrow> 'g \<Rightarrow> nat list" where
  "edge pg l g =
     (case find (\<lambda>x. lk_id (edge_link x) = l) (edge_references pg g) of
        Some x \<Rightarrow> [edge_index x] | None \<Rightarrow> [])"

definition traversal_exists :: "nat list \<Rightarrow> bool" where
  "traversal_exists ixs \<longleftrightarrow> ixs \<noteq> []"

definition first_node :: "'g digraph_api \<Rightarrow> nat list \<Rightarrow> 'g \<Rightarrow> processor_node option" where
  "first_node pg ixs g = (case ixs of [] \<Rightarrow> None | i # _ \<Rightarrow> node_weight pg g i)"

definition first_link :: "'g digraph_api \<Rightarrow> nat list \<Rightarrow> 'g \<Rightarrow> link option" where
  "first_link pg ixs g = (case ixs of [] \<Rightarrow> None | e # _ \<Rightarrow> edge_weight pg g e)"

definition first_node_mut ::
    "'g digraph_api \<Rightarrow> nat list \<Rightarrow> (processor_node \<Rightarrow> processor_node) \<Rightarrow> 'g \<Rightarrow> 'g" where
  "first_node_mut pg ixs f g = (case ixs of [] \<Rightarrow> g | i # _ \<Rightarrow> node_weight_mut pg i f g)"

definition first_link_mut :: "'g digraph_api \<Rightarrow> nat list \<Rightarrow> (link \<Rightarrow> link) \<Rightarrow> 'g \<Rightarrow> 'g" where
  "first_link_mut pg ixs f g = (case ixs of [] \<Rightarrow> g | e # _ \<Rightarrow> edge_weight_mut pg e f g)"

definition in_e :: "'g digraph_api \<Rightarrow> nat list \<Rightarrow> 'g \<Rightarrow> nat list" where
  "in_e pg ixs g = concat (map (\<lambda>i. edges_directed pg g i Incoming) ixs)"

definition out_e :: "'g digraph_api \<Rightarrow> nat list \<Rightarrow> 'g \<Rightarrow> nat list" where
  "out_e pg ixs g = concat (map (\<lambda>i. edges_directed pg g i Outgoing) ixs)"

definition node_iter :: "'g digraph_api \<Rightarrow> nat list \<Rightarrow> 'g \<Rightarrow> processor_node list" where
  "node_iter pg ixs g = List.map_filter (node_weight pg g) ixs"

definition link_iter :: "'g digraph_api \<Rightarrow> nat list \<Rightarrow> 'g \<Rightarrow> link list" where
  "link_iter pg ixs g = List.map_filter (edge_weight pg g) ixs"

definition node_ids_of :: "'g digraph_api \<Rightarrow> nat list \<Rightarrow> 'g \<Rightarrow> string list" where
  "node_ids_of pg ixs g = List.map_filter (\<lambda>i. map_option nd_id (node_weight pg g i)) ixs"

definition filter_links :: "'g digraph_api \<Rightarrow> (link \<Rightarrow> bool) \<Rightarrow> nat list \<Rightarrow> 'g \<Rightarrow> nat list" where
  "filter_links pg P ixs g =
     filter (\<lambda>e. case edge_weight pg g e of Some w \<Rightarrow> P w | None \<Rightarrow> False) ixs"

text \<open>\<open>drop\<close> answers with the indices it could not remove.\<close>

fun drop_nodes :: "'g digraph_api \<Rightarrow> nat list \<Rightarrow> 'g \<Rightarrow> nat list \<times> 'g" where
  "drop_nodes pg [] g = ([], g)"
| "drop_nodes pg (i # ixs) g =
     (let (removed, g') = remove_node pg i g;
          (kept, g'') = drop_nodes pg ixs g'
      in (if removed = None then i # kept else kept, g''))"

fun drop_links :: "'g digraph_api \<Rightarrow> nat list \<Rightarrow> 'g \<Rightarrow> nat list \<times> 'g" where
  "drop_links pg [] g = ([], g)"
| "drop_links pg (e # ixs) g =
     (let (removed, g') = remove_edge pg e g;
          (kept, g'') = drop_links pg ixs g'
      in (if removed = None then e # kept else kept, g''))"

subsection \<open>Adding processors and links\<close>

record processor_registry =
  rg_port_info :: "string \<Rightarrow> (port_info list \<times> port_info list) option"
  rg_default_display_name :: "string \<Rightarrow> string option"

record processor_spec =
  sp_name :: string
  sp_config :: string
  sp_display_name :: "string option"

definition default_display_name_for :: "processor_registry \<Rightarrow> string \<Rightarrow> string" where
  "default_display_name_for reg path =
     (case rg_default_display_name reg path of Some d \<Rightarrow> d | None \<Rightarrow> path)"

definition display_names :: "'g digraph_api \<Rightarrow> 'g \<Rightarrow> string list" where
  "display_names pg g = map (\<lambda>x. nd_display_name (snd x)) (node_references pg g)"

definition ordinal_candidate :: "string \<Rightarrow> nat \<Rightarrow> string" where
  "ordinal_candidate requested ordinal = requested @ '' '' @ dec_string ordinal"

text \<open>The loop has no exit but a free name: \<open>None\<close> is a search that never ends.\<close>

partial_function (option) try_ordinals :: "(string \<Rightarrow> bool) \<Rightarrow> string \<Rightarrow> nat \<Rightarrow> string option" where
  "try_ordinals is_taken requested ordinal =
     (if \<not> is_taken (ordinal_candidate requested ordinal)
      then Some (ordinal_candidate requested ordinal)
      else try_ordinals is_taken requested (ordinal + 1))"

definition disambiguate_display_name_within_graph ::
    "'g digraph_api \<Rightarrow> 'g \<Rightarrow> string \<Rightarrow> string option" where
  "disambiguate_display_name_within_graph pg g requested =
     (let is_taken = (\<lambda>candidate. candidate \<in> set (display_names pg g))
      in if \<not> is_taken requested then Some requested else try_ordinals is_taken requested 2)"

definition add_v ::
    "'g digraph_api \<Rightarrow> processor_registry \<Rightarrow> (string \<Rightarrow> u64) \<Rightarrow> string \<Rightarrow> processor_spec \<Rightarrow> 'g \<Rightarrow>
      (nat list \<times> 'g) option" where
  "add_v pg reg checksum cuid spec g =
     (let resolved_ports = rg_port_info reg (sp_name spec);
          registry_miss = (resolved_ports = None);
          (inputs, outputs) = (case resolved_ports of Some r \<Rightarrow> r | None \<Rightarrow> ([], []));
          requested = (case sp_display_name spec of
                         Some d \<Rightarrow> d | None \<Rightarrow> default_display_name_for reg (sp_name spec))
      in map_option (\<lambda>display_name.
           let node = processor_node_new checksum cuid (sp_name spec) display_name
                        (Some (sp_config spec)) inputs outputs;
               (node_idx, g') = add_node pg node g;
               initial = (if registry_miss then Error else Pending)
           in ([node_idx], node_weight_mut pg node_idx (\<lambda>n. n\<lparr>nd_state := Some (new_observable_state initial)\<rparr>) g'))
         (disambiguate_display_name_within_graph pg g requested))"

definition add_e ::
    "'g digraph_api \<Rightarrow> string \<Rightarrow> output_link_port_ref \<Rightarrow> input_link_port_ref \<Rightarrow> 'g \<Rightarrow> nat list \<times> 'g" where
  "add_e pg cuid from_ref to_ref g =
     (case find (\<lambda>x. nd_id (snd x) = src_processor_id from_ref) (node_references pg g) of
        None \<Rightarrow> ([], g)
      | Some (from_idx, from_node) \<Rightarrow>
          (case find (\<lambda>x. nd_id (snd x) = dst_processor_id to_ref) (node_references pg g) of
             None \<Rightarrow> ([], g)
           | Some (to_idx, to_node) \<Rightarrow>
               if \<not> has_output (src_port_name from_ref) from_node then ([], g)
               else if \<not> has_input (dst_port_name to_ref) to_node then ([], g)
               else (let l = link_new cuid (output_ref_to_string from_ref) (input_ref_to_string to_ref);
                         (edge_idx, g') = add_edge pg from_idx to_idx l g
                     in ([edge_idx], g'))))"

subsection \<open>What the graph library promises\<close>

locale digraph =
  fixes pg :: "'g digraph_api" and valid :: "'g \<Rightarrow> bool"
  assumes node_indices_distinct: "valid g \<Longrightarrow> distinct (map fst (node_references pg g))"
    and edge_indices_distinct: "valid g \<Longrightarrow> distinct (map edge_index (edge_references pg g))"
    and edge_ends: "valid g \<Longrightarrow> x \<in> set (edge_references pg g) \<Longrightarrow>
      edge_source x \<in> fst ` set (node_references pg g) \<and> edge_target x \<in> fst ` set (node_references pg g)"
    and edges_incoming: "valid g \<Longrightarrow>
      mset (edges_directed pg g i Incoming)
        = mset (map edge_index (filter (\<lambda>x. edge_target x = i) (edge_references pg g)))"
    and edges_outgoing: "valid g \<Longrightarrow>
      mset (edges_directed pg g i Outgoing)
        = mset (map edge_index (filter (\<lambda>x. edge_source x = i) (edge_references pg g)))"
    and add_node_law: "valid g \<Longrightarrow> add_node pg n g = (i, g') \<Longrightarrow>
      valid g' \<and> node_references pg g' = node_references pg g @ [(i, n)]
        \<and> edge_references pg g' = edge_references pg g"
    and add_edge_law: "valid g \<Longrightarrow> s \<in> fst ` set (node_references pg g) \<Longrightarrow>
      t \<in> fst ` set (node_references pg g) \<Longrightarrow> add_edge pg s t w g = (e, g') \<Longrightarrow>
      valid g' \<and> node_references pg g' = node_references pg g
        \<and> edge_references pg g' = edge_references pg g @ [(e, s, t, w)]"
    and node_weight_mut_law: "valid g \<Longrightarrow>
      valid (node_weight_mut pg i f g)
        \<and> node_references pg (node_weight_mut pg i f g)
          = map (\<lambda>(j, n). (j, if j = i then f n else n)) (node_references pg g)
        \<and> edge_references pg (node_weight_mut pg i f g) = edge_references pg g"
    and edge_weight_mut_law: "valid g \<Longrightarrow>
      valid (edge_weight_mut pg e h g)
        \<and> node_references pg (edge_weight_mut pg e h g) = node_references pg g
        \<and> edge_references pg (edge_weight_mut pg e h g)
          = map (\<lambda>(d, s, t, w). (d, s, t, if d = e then h w else w)) (edge_references pg g)"
    and remove_edge_law: "valid g \<Longrightarrow> remove_edge pg e g = (gone, g') \<Longrightarrow>
      valid g' \<and> gone = edge_weight pg g e \<and> node_references pg g' = node_references pg g
        \<and> mset (map snd (edge_references pg g'))
          = mset (map snd (filter (\<lambda>x. edge_index x \<noteq> e) (edge_references pg g)))"
    and remove_node_law: "valid g \<Longrightarrow> remove_node pg i g = (left, g') \<Longrightarrow>
      valid g' \<and> left = node_weight pg g i
        \<and> (\<exists>renumbered.
             mset (node_references pg g')
               = mset (map (\<lambda>(j, m). (renumbered j, m)) (filter (\<lambda>x. fst x \<noteq> i) (node_references pg g)))
             \<and> mset (map snd (edge_references pg g'))
               = mset (map (\<lambda>(e, s, t, w). (renumbered s, renumbered t, w))
                   (filter (\<lambda>x. edge_source x \<noteq> i \<and> edge_target x \<noteq> i) (edge_references pg g))))"

subsection \<open>A graph of lists\<close>

text \<open>
  Nodes and edges in two vectors, an index being a position; \<open>swap_remove\<close> moves the last entry
  into the hole, as petgraph does. It is the instance on which the laws above are discharged and
  the concrete inputs are evaluated.
\<close>

record list_digraph =
  lg_nodes :: "processor_node list"
  lg_edges :: "(nat \<times> nat \<times> link) list"

definition swap_remove :: "nat \<Rightarrow> 'a list \<Rightarrow> 'a list" where
  "swap_remove i xs = (if i < length xs then (butlast xs)[i := last xs] else xs)"

definition index_after_swap_remove :: "nat \<Rightarrow> nat \<Rightarrow> nat \<Rightarrow> nat" where
  "index_after_swap_remove i n j = (if i < n \<and> j = n - 1 then i else j)"

definition list_digraph_api :: "list_digraph digraph_api" where
  "list_digraph_api =
     \<lparr>node_references = (\<lambda>g. enumerate 0 (lg_nodes g)),
      edge_references = (\<lambda>g. enumerate 0 (lg_edges g)),
      edges_directed = (\<lambda>g i d. map edge_index (filter (\<lambda>x.
        (case d of Incoming \<Rightarrow> edge_target x | Outgoing \<Rightarrow> edge_source x) = i) (rev (enumerate 0 (lg_edges g))))),
      add_node = (\<lambda>n g. (length (lg_nodes g), g\<lparr>lg_nodes := lg_nodes g @ [n]\<rparr>)),
      add_edge = (\<lambda>s t w g. (length (lg_edges g), g\<lparr>lg_edges := lg_edges g @ [(s, t, w)]\<rparr>)),
      node_weight_mut = (\<lambda>i f g. if i < length (lg_nodes g)
        then g\<lparr>lg_nodes := (lg_nodes g)[i := f (lg_nodes g ! i)]\<rparr> else g),
      edge_weight_mut = (\<lambda>e f g. if e < length (lg_edges g)
        then g\<lparr>lg_edges := (lg_edges g)[e := map_prod id (map_prod id f) (lg_edges g ! e)]\<rparr> else g),
      remove_node = (\<lambda>i g. if i < length (lg_nodes g)
        then (Some (lg_nodes g ! i),
              \<lparr>lg_nodes = swap_remove i (lg_nodes g),
               lg_edges = map (\<lambda>(s, t, w). (index_after_swap_remove i (length (lg_nodes g)) s,
                                            index_after_swap_remove i (length (lg_nodes g)) t, w))
                 (filter (\<lambda>(s, t, w). s \<noteq> i \<and> t \<noteq> i) (lg_edges g))\<rparr>)
        else (None, g)),
      remove_edge = (\<lambda>e g. if e < length (lg_edges g)
        then (Some (snd (snd (lg_edges g ! e))), g\<lparr>lg_edges := swap_remove e (lg_edges g)\<rparr>)
        else (None, g))\<rparr>"

definition list_digraph_valid :: "list_digraph \<Rightarrow> bool" where
  "list_digraph_valid g \<longleftrightarrow>
     (\<forall>x \<in> set (lg_edges g). fst x < length (lg_nodes g) \<and> fst (snd x) < length (lg_nodes g))"

lemma filter_enumerate_neq:
  "map snd (filter (\<lambda>x. fst x \<noteq> n + e) (enumerate n xs)) = take e xs @ drop (Suc e) xs"
proof (induction xs arbitrary: n e)
  case (Cons x xs)
  show ?case
  proof (cases e)
    case 0
    have "filter (\<lambda>x. fst x \<noteq> n) (enumerate (Suc n) xs) = enumerate (Suc n) xs"
      by (rule filter_True) (auto simp: in_set_enumerate_eq)
    then show ?thesis using 0 by simp
  next
    case (Suc k)
    then show ?thesis using Cons.IH [of "Suc n" k] by simp
  qed
qed simp

lemma mset_swap_remove:
  "i < length xs \<Longrightarrow> mset (swap_remove i xs) = mset (take i xs @ drop (Suc i) xs)"
proof -
  assume i: "i < length xs"
  then have "xs \<noteq> []" by auto
  have "add_mset (xs ! i) (mset (swap_remove i xs)) = mset xs"
  proof (cases "i < length xs - 1")
    case True
    have "mset xs = add_mset (last xs) (mset (butlast xs))"
      using \<open>xs \<noteq> []\<close> by (metis append_butlast_last_id mset_append mset_single_iff_right add_mset_add_single mset.simps(1) mset.simps(2))
    moreover have "xs ! i \<in># mset (butlast xs)"
      using True by (metis in_set_conv_nth length_butlast nth_butlast set_mset_mset)
    ultimately show ?thesis using i True
      by (simp add: swap_remove_def mset_update nth_butlast add_mset_commute [of "xs ! i"])
  next
    case False
    then have "xs ! i = last xs" using i \<open>xs \<noteq> []\<close> by (simp add: last_conv_nth) (metis One_nat_def Suc_pred length_greater_0_conv less_antisym)
    moreover have "swap_remove i xs = butlast xs" using i False by (simp add: swap_remove_def list_update_beyond)
    ultimately show ?thesis using \<open>xs \<noteq> []\<close>
      by (metis append_butlast_last_id mset_append add_mset_add_single mset.simps(1) mset.simps(2))
  qed
  moreover have "mset xs = add_mset (xs ! i) (mset (take i xs @ drop (Suc i) xs))"
    using i by (metis id_take_nth_drop mset.simps(2) mset_append union_mset_add_mset_right)
  ultimately show ?thesis by simp
qed

lemma find_enumerate: "find (\<lambda>x. fst x = i) (enumerate 0 xs) = (if i < length xs then Some (i, xs ! i) else None)"
proof (cases "i < length xs")
  case True
  then have "find (\<lambda>x. fst x = i) (enumerate 0 xs) = Some (i, xs ! i)"
    unfolding find_Some_iff by (intro exI [of _ i]) (auto simp: nth_enumerate_eq)
  then show ?thesis using True by simp
qed (auto simp: find_None_iff in_set_enumerate_eq)

lemma edge_index_fst: "edge_index = fst"
  by (rule ext) (metis edge_index.elims fst_conv)

lemma edge_link_snd: "edge_link x = snd (snd (snd x))"
  by (cases x) simp

lemma edge_source_snd: "edge_source x = fst (snd x)"
  by (cases x) simp

lemma edge_target_snd: "edge_target x = fst (snd (snd x))"
  by (cases x) simp

lemma map_edge_index_enumerate [simp]: "map edge_index (enumerate n xs) = [n..<n + length xs]"
  by (simp add: edge_index_fst)

lemma map_snd_filter_enumerate:
  "map snd (filter (\<lambda>x. P (snd x)) (enumerate n xs)) = filter P xs"
proof -
  have "map snd (filter (P \<circ> snd) (enumerate n xs)) = filter P (map snd (enumerate n xs))"
    by (simp only: filter_map)
  then show ?thesis by (simp add: comp_def)
qed

lemma enumerate_map_indexed:
  "enumerate k (map h xs) = map (\<lambda>(j, n). (j, h n)) (enumerate k xs)"
  by (induction xs arbitrary: k) auto

lemma enumerate_list_update:
  "i < length xs \<Longrightarrow>
     enumerate 0 (xs[i := f (xs ! i)]) = map (\<lambda>(j, n). (j, if j = i then f n else n)) (enumerate 0 xs)"
  by (rule nth_equalityI) (auto simp: nth_enumerate_eq nth_list_update)

lemma nth_swap_remove:
  "i < length xs \<Longrightarrow> j < length xs - 1 \<Longrightarrow> swap_remove i xs ! j = (if j = i then last xs else xs ! j)"
  by (auto simp: swap_remove_def nth_list_update nth_butlast)

lemma length_swap_remove [simp]: "i < length xs \<Longrightarrow> length (swap_remove i xs) = length xs - 1"
  by (simp add: swap_remove_def)

lemma set_enumerate_0: "set (enumerate 0 xs) = {(j, xs ! j) | j. j < length xs}"
  by (auto simp: in_set_enumerate_eq)

lemma index_after_swap_remove_bound:
  "i < n \<Longrightarrow> j < n \<Longrightarrow> j \<noteq> i \<Longrightarrow> index_after_swap_remove i n j < n - Suc 0"
  by (auto simp: index_after_swap_remove_def)

lemma enumerate_swap_remove:
  assumes i: "i < length xs"
  shows "mset (enumerate 0 (swap_remove i xs))
    = mset (map (\<lambda>(j, m). (index_after_swap_remove i (length xs) j, m))
        (filter (\<lambda>x. fst x \<noteq> i) (enumerate 0 xs)))" (is "mset ?l = mset ?r")
proof -
  let ?ren = "index_after_swap_remove i (length xs)"
  have inj: "inj_on ?ren {j. j < length xs \<and> j \<noteq> i}"
    using i by (auto simp: inj_on_def index_after_swap_remove_def split: if_splits)
  have dr: "distinct ?r"
  proof (subst distinct_map, intro conjI)
    show "inj_on (\<lambda>(j, m). (?ren j, m)) (set (filter (\<lambda>x. fst x \<noteq> i) (enumerate 0 xs)))"
      using inj by (auto simp: inj_on_def in_set_enumerate_eq)
  qed (simp add: distinct_enumerate)
  have sub: "set ?r \<subseteq> set ?l"
  proof
    fix x assume "x \<in> set ?r"
    then obtain j where j: "j < length xs" "j \<noteq> i" "x = (?ren j, xs ! j)"
      by (auto simp: set_enumerate_0)
    moreover have "?ren j < length xs - Suc 0" using i j by (simp add: index_after_swap_remove_bound)
    moreover have "swap_remove i xs ! ?ren j = xs ! j"
    proof (cases "j = length xs - 1")
      case True
      then have "xs ! j = last xs" using i by (metis last_conv_nth list.size(3) not_less0)
      moreover have "i < length xs - 1" using i j True by simp
      ultimately show ?thesis using i True by (simp add: nth_swap_remove index_after_swap_remove_def)
    next
      case False
      then have "j < length xs - 1" using j by simp
      then show ?thesis using i j False by (simp add: nth_swap_remove index_after_swap_remove_def)
    qed
    ultimately show "x \<in> set ?l" using i by (auto simp: set_enumerate_0)
  qed
  moreover have "card (set ?r) = length xs - 1"
  proof -
    have "length ?r = length (map snd (filter (\<lambda>x. fst x \<noteq> 0 + i) (enumerate 0 xs)))" by simp
    also have "\<dots> = length xs - 1" using i unfolding filter_enumerate_neq by simp
    finally show ?thesis using dr by (metis distinct_card)
  qed
  moreover have "card (set ?l) = length xs - 1"
    using i by (metis distinct_card distinct_enumerate length_enumerate length_swap_remove)
  ultimately have "set ?r = set ?l" by (metis card_subset_eq List.finite_set)
  then show ?thesis using dr distinct_enumerate set_eq_iff_mset_eq_distinct by metis
qed

lemma list_digraph_validI:
  "(\<And>s t w. (s, t, w) \<in> set (lg_edges g) \<Longrightarrow> s < length (lg_nodes g) \<and> t < length (lg_nodes g)) \<Longrightarrow>
     list_digraph_valid g"
  by (force simp: list_digraph_valid_def)

lemma list_digraph_validD:
  "list_digraph_valid g \<Longrightarrow> (s, t, w) \<in> set (lg_edges g) \<Longrightarrow> s < length (lg_nodes g) \<and> t < length (lg_nodes g)"
  by (force simp: list_digraph_valid_def)

lemma list_digraph_edge_weight_mut:
  assumes v: "list_digraph_valid g"
  shows "list_digraph_valid (edge_weight_mut list_digraph_api e h g)"
    and "edge_references list_digraph_api (edge_weight_mut list_digraph_api e h g)
      = map (\<lambda>(d, s, t, w). (d, s, t, if d = e then h w else w)) (edge_references list_digraph_api g)"
proof -
  have "set ((lg_edges g)[e := map_prod id (map_prod id h) (lg_edges g ! e)])
      \<subseteq> insert (map_prod id (map_prod id h) (lg_edges g ! e)) (set (lg_edges g))"
    by (rule set_update_subset_insert)
  moreover have "lg_edges g ! e \<in> set (lg_edges g)" if "e < length (lg_edges g)" using that by simp
  ultimately show "list_digraph_valid (edge_weight_mut list_digraph_api e h g)"
    using v by (fastforce simp: list_digraph_api_def list_digraph_valid_def)
  have "map (\<lambda>(d, s, t, w). (d, s, t, if d = e then h w else w)) (enumerate 0 (lg_edges g))
      = map (\<lambda>(d, x). (d, if d = e then map_prod id (map_prod id h) x else x)) (enumerate 0 (lg_edges g))"
    by (rule map_cong) auto
  then show "edge_references list_digraph_api (edge_weight_mut list_digraph_api e h g)
      = map (\<lambda>(d, s, t, w). (d, s, t, if d = e then h w else w)) (edge_references list_digraph_api g)"
    by (auto simp: list_digraph_api_def enumerate_list_update in_set_enumerate_eq intro!: map_idI [symmetric])
qed

lemma list_digraph_remove_edge:
  assumes v: "list_digraph_valid g" and r: "remove_edge list_digraph_api e g = (gone, g')"
  shows "list_digraph_valid g' \<and> gone = edge_weight list_digraph_api g e
    \<and> node_references list_digraph_api g' = node_references list_digraph_api g
    \<and> mset (map snd (edge_references list_digraph_api g'))
      = mset (map snd (filter (\<lambda>x. edge_index x \<noteq> e) (edge_references list_digraph_api g)))"
proof (cases "e < length (lg_edges g)")
  case True
  have f: "map snd (filter (\<lambda>x. fst x \<noteq> e) (enumerate 0 (lg_edges g)))
      = take e (lg_edges g) @ drop (Suc e) (lg_edges g)"
    using filter_enumerate_neq [of 0 e "lg_edges g"] by simp
  have m: "mset (swap_remove e (lg_edges g)) = mset (take e (lg_edges g) @ drop (Suc e) (lg_edges g))"
    by (rule mset_swap_remove [OF True])
  then have "set (swap_remove e (lg_edges g)) \<subseteq> set (lg_edges g)"
    by (metis mset_eq_setD set_append set_drop_subset set_take_subset Un_least)
  then have "list_digraph_valid g'"
    using r True list_digraph_validD [OF v] by (intro list_digraph_validI) (auto simp: list_digraph_api_def)
  then show ?thesis
    using r True m f by (auto simp: list_digraph_api_def edge_weight_def edge_index_fst find_enumerate edge_link_snd)
next
  case False
  have "filter (\<lambda>x. fst x \<noteq> e) (enumerate 0 (lg_edges g)) = enumerate 0 (lg_edges g)"
    using False by (intro filter_True) (auto simp: in_set_enumerate_eq)
  then show ?thesis
    using r False v by (auto simp: list_digraph_api_def edge_weight_def edge_index_fst find_enumerate)
qed

lemma list_digraph_remove_node:
  assumes v: "list_digraph_valid g" and r: "remove_node list_digraph_api i g = (left, g')"
  shows "list_digraph_valid g' \<and> left = node_weight list_digraph_api g i
    \<and> (\<exists>renumbered.
         mset (node_references list_digraph_api g')
           = mset (map (\<lambda>(j, m). (renumbered j, m)) (filter (\<lambda>x. fst x \<noteq> i) (node_references list_digraph_api g)))
         \<and> mset (map snd (edge_references list_digraph_api g'))
           = mset (map (\<lambda>(e, s, t, w). (renumbered s, renumbered t, w))
               (filter (\<lambda>x. edge_source x \<noteq> i \<and> edge_target x \<noteq> i) (edge_references list_digraph_api g))))"
proof (cases "i < length (lg_nodes g)")
  case True
  let ?ren = "index_after_swap_remove i (length (lg_nodes g))"
  let ?P = "\<lambda>(s, t, w). s \<noteq> i \<and> t \<noteq> i"
  let ?h = "\<lambda>(s, t, w). (?ren s, ?ren t, w)"
  have g': "g' = \<lparr>lg_nodes = swap_remove i (lg_nodes g), lg_edges = map ?h (filter ?P (lg_edges g))\<rparr>"
    using r True by (simp add: list_digraph_api_def)
  have "list_digraph_valid g'"
    using True
    by (intro list_digraph_validI)
      (auto simp: g' intro!: index_after_swap_remove_bound dest: list_digraph_validD [OF v])
  moreover have "map (\<lambda>(e, s, t, w). (?ren s, ?ren t, w))
      (filter (\<lambda>x. edge_source x \<noteq> i \<and> edge_target x \<noteq> i) (enumerate 0 (lg_edges g)))
      = map ?h (map snd (filter (\<lambda>x. ?P (snd x)) (enumerate 0 (lg_edges g))))"
  proof -
    have "filter (\<lambda>x. edge_source x \<noteq> i \<and> edge_target x \<noteq> i) (enumerate 0 (lg_edges g))
        = filter (\<lambda>x. ?P (snd x)) (enumerate 0 (lg_edges g))"
      by (rule filter_cong) auto
    then show ?thesis by (auto simp: comp_def split_def)
  qed
  moreover note enumerate_swap_remove [OF True]
  moreover have "left = node_weight list_digraph_api g i"
    using r True by (simp add: list_digraph_api_def node_weight_def find_enumerate)
  ultimately show ?thesis
    by (intro conjI exI [of _ ?ren])
      (simp_all only: map_snd_filter_enumerate list_digraph_api_def g' digraph_api.simps list_digraph.simps
        map_snd_enumerate)
next
  case False
  have "filter (\<lambda>x. fst x \<noteq> i) (enumerate 0 (lg_nodes g)) = enumerate 0 (lg_nodes g)"
    using False by (intro filter_True) (auto simp: in_set_enumerate_eq)
  moreover have "filter (\<lambda>x. edge_source x \<noteq> i \<and> edge_target x \<noteq> i) (enumerate 0 (lg_edges g)) = enumerate 0 (lg_edges g)"
    using False
    by (intro filter_True) (auto simp: in_set_enumerate_eq dest!: nth_mem list_digraph_validD [OF v])
  ultimately show ?thesis
    using r False v by (intro conjI exI [of _ id])
      (auto simp: list_digraph_api_def node_weight_def find_enumerate split_def)
qed

interpretation ldg: digraph list_digraph_api list_digraph_valid
proof
  fix g g' :: list_digraph and i e s t :: nat and n :: processor_node and w :: link
    and f :: "processor_node \<Rightarrow> processor_node" and h :: "link \<Rightarrow> link" and gone left x
  show "distinct (map fst (node_references list_digraph_api g))"
    and "distinct (map edge_index (edge_references list_digraph_api g))"
    by (simp_all add: list_digraph_api_def)
  show "mset (edges_directed list_digraph_api g i Incoming)
        = mset (map edge_index (filter (\<lambda>x. edge_target x = i) (edge_references list_digraph_api g)))"
    and "mset (edges_directed list_digraph_api g i Outgoing)
        = mset (map edge_index (filter (\<lambda>x. edge_source x = i) (edge_references list_digraph_api g)))"
    by (simp_all add: list_digraph_api_def rev_filter [symmetric] rev_map [symmetric])
  assume v: "list_digraph_valid g"
  show "x \<in> set (edge_references list_digraph_api g) \<Longrightarrow>
      edge_source x \<in> fst ` set (node_references list_digraph_api g) \<and>
      edge_target x \<in> fst ` set (node_references list_digraph_api g)"
    using list_digraph_validD [OF v]
    by (cases x) (auto simp: list_digraph_api_def in_set_enumerate_eq simp flip: set_map dest: nth_mem)
  show "list_digraph_valid g' \<and>
      node_references list_digraph_api g' = node_references list_digraph_api g @ [(i, n)] \<and>
      edge_references list_digraph_api g' = edge_references list_digraph_api g"
    if "add_node list_digraph_api n g = (i, g')"
    using that by (auto simp: list_digraph_api_def enumerate_append_eq intro!: list_digraph_validI
        intro: less_SucI dest!: list_digraph_validD [OF v])
  show "list_digraph_valid g' \<and> node_references list_digraph_api g' = node_references list_digraph_api g \<and>
      edge_references list_digraph_api g' = edge_references list_digraph_api g @ [(e, s, t, w)]"
    if "s \<in> fst ` set (node_references list_digraph_api g)" "t \<in> fst ` set (node_references list_digraph_api g)"
      "add_edge list_digraph_api s t w g = (e, g')"
    using that by (auto simp: list_digraph_api_def enumerate_append_eq in_set_enumerate_eq
        intro!: list_digraph_validI dest!: list_digraph_validD [OF v])
  show "list_digraph_valid (node_weight_mut list_digraph_api i f g) \<and>
      node_references list_digraph_api (node_weight_mut list_digraph_api i f g)
        = map (\<lambda>(j, n). (j, if j = i then f n else n)) (node_references list_digraph_api g) \<and>
      edge_references list_digraph_api (node_weight_mut list_digraph_api i f g)
        = edge_references list_digraph_api g"
    using v by (auto simp: list_digraph_api_def list_digraph_valid_def enumerate_list_update
        in_set_enumerate_eq intro!: map_idI [symmetric])
  show "list_digraph_valid (edge_weight_mut list_digraph_api e h g) \<and>
      node_references list_digraph_api (edge_weight_mut list_digraph_api e h g)
        = node_references list_digraph_api g \<and>
      edge_references list_digraph_api (edge_weight_mut list_digraph_api e h g)
        = map (\<lambda>(d, s, t, w). (d, s, t, if d = e then h w else w)) (edge_references list_digraph_api g)"
    using list_digraph_edge_weight_mut [OF v] by (simp add: list_digraph_api_def)
  show "list_digraph_valid g' \<and> gone = edge_weight list_digraph_api g e \<and>
      node_references list_digraph_api g' = node_references list_digraph_api g \<and>
      mset (map snd (edge_references list_digraph_api g'))
        = mset (map snd (filter (\<lambda>x. edge_index x \<noteq> e) (edge_references list_digraph_api g)))"
    if "remove_edge list_digraph_api e g = (gone, g')"
    by (rule list_digraph_remove_edge [OF v that])
  show "list_digraph_valid g' \<and> left = node_weight list_digraph_api g i \<and>
      (\<exists>renumbered.
         mset (node_references list_digraph_api g')
           = mset (map (\<lambda>(j, m). (renumbered j, m)) (filter (\<lambda>x. fst x \<noteq> i) (node_references list_digraph_api g))) \<and>
         mset (map snd (edge_references list_digraph_api g'))
           = mset (map (\<lambda>(e, s, t, w). (renumbered s, renumbered t, w))
               (filter (\<lambda>x. edge_source x \<noteq> i \<and> edge_target x \<noteq> i) (edge_references list_digraph_api g))))"
    if "remove_node list_digraph_api i g = (left, g')"
    by (rule list_digraph_remove_node [OF v that])
qed

subsection \<open>Processors and links by id\<close>

text \<open>The four shapes the engine builds from a traversal by id: look, change in place, drop.\<close>

definition find_node :: "'g digraph_api \<Rightarrow> string \<Rightarrow> 'g \<Rightarrow> processor_node option" where
  "find_node pg p g = first_node pg (vertex pg p g) g"

definition find_link :: "'g digraph_api \<Rightarrow> string \<Rightarrow> 'g \<Rightarrow> link option" where
  "find_link pg l g = first_link pg (edge pg l g) g"

definition update_node ::
    "'g digraph_api \<Rightarrow> string \<Rightarrow> (processor_node \<Rightarrow> processor_node) \<Rightarrow> 'g \<Rightarrow> 'g" where
  "update_node pg p f g = first_node_mut pg (vertex pg p g) f g"

definition update_link :: "'g digraph_api \<Rightarrow> string \<Rightarrow> (link \<Rightarrow> link) \<Rightarrow> 'g \<Rightarrow> 'g" where
  "update_link pg l f g = first_link_mut pg (edge pg l g) f g"

definition drop_node :: "'g digraph_api \<Rightarrow> string \<Rightarrow> 'g \<Rightarrow> nat list \<times> 'g" where
  "drop_node pg p g = drop_nodes pg (vertex pg p g) g"

definition drop_link :: "'g digraph_api \<Rightarrow> string \<Rightarrow> 'g \<Rightarrow> nat list \<times> 'g" where
  "drop_link pg l g = drop_links pg (edge pg l g) g"

definition touches :: "string \<Rightarrow> link \<Rightarrow> bool" where
  "touches p l \<longleftrightarrow> src_processor_id (lk_source l) = p \<or> dst_processor_id (lk_target l) = p"

text \<open>
  What every operation keeps: ids name one processor and one link each, an id has no dot in it
  (the separator of a printed port), and an edge runs between the processors its link names.
\<close>

definition edge_agrees :: "(nat \<times> processor_node) list \<Rightarrow> nat \<times> nat \<times> nat \<times> link \<Rightarrow> bool" where
  "edge_agrees nodes x \<longleftrightarrow>
     (\<exists>n. (edge_source x, n) \<in> set nodes \<and> nd_id n = src_processor_id (lk_source (edge_link x))) \<and>
     (\<exists>n. (edge_target x, n) \<in> set nodes \<and> nd_id n = dst_processor_id (lk_target (edge_link x)))"

definition graph_inv :: "'g digraph_api \<Rightarrow> ('g \<Rightarrow> bool) \<Rightarrow> 'g \<Rightarrow> bool" where
  "graph_inv pg valid g \<longleftrightarrow> valid g
     \<and> distinct (map (\<lambda>x. nd_id (snd x)) (node_references pg g))
     \<and> distinct (map (\<lambda>x. lk_id (edge_link x)) (edge_references pg g))
     \<and> (\<forall>x \<in> set (node_references pg g). CHR ''.'' \<notin> set (nd_id (snd x)))
     \<and> (\<forall>x \<in> set (edge_references pg g). edge_agrees (node_references pg g) x)"

lemma find_by_distinct_key:
  assumes "distinct (map k xs)" "x \<in> set xs"
  shows "find (\<lambda>y. k y = k x) xs = Some x"
  using assms
proof (induction xs)
  case (Cons a xs)
  then show ?case by (auto simp: image_iff)
qed simp

lemma find_by_key_iff:
  assumes "distinct (map k xs)"
  shows "find (\<lambda>y. k y = v) xs = Some x \<longleftrightarrow> x \<in> set xs \<and> k x = v"
  using find_by_distinct_key [OF assms, of x]
  by (auto simp: find_Some_iff in_set_conv_nth dest: sym)

lemma split_once_append: "c \<notin> set a \<Longrightarrow> split_once c (a @ c # b) = Some (a, b)"
  by (simp add: split_once_def dropWhile_append takeWhile_append)

lemma link_new_fields:
  assumes "CHR ''.'' \<notin> set (src_processor_id from_ref)" "CHR ''.'' \<notin> set (dst_processor_id to_ref)"
  shows "lk_source (link_new cuid (output_ref_to_string from_ref) (input_ref_to_string to_ref)) = from_ref"
    and "lk_target (link_new cuid (output_ref_to_string from_ref) (input_ref_to_string to_ref)) = to_ref"
  using assms by (simp_all add: link_new_def link_with_capacity_def output_ref_to_string_def
      input_ref_to_string_def split_once_append)

lemma link_new_rest [simp]:
  "lk_id (link_new cuid a b) = ''L'' @ cuid" "lk_pending_deletion (link_new cuid a b) = False"
  "lk_state_component (link_new cuid a b) = None"
  by (simp_all add: link_new_def link_with_capacity_def split_def Let_def)

lemma distinct_if_mset_subseteq:
  assumes "mset xs \<subseteq># mset ys" "distinct ys"
  shows "distinct xs"
proof -
  obtain zs where "mset ys = mset (xs @ zs)"
    using assms(1) by (metis ex_mset mset_append subset_mset.add_diff_inverse)
  then show ?thesis using assms(2) by (metis distinct_append mset_eq_imp_distinct_iff)
qed

lemma option_eq_by_some: "(\<And>v. a = Some v \<longleftrightarrow> b = Some v) \<Longrightarrow> a = b"
  by (metis not_None_eq)

lemma edge_agrees_mono:
  assumes "edge_agrees nodes x"
    and "\<And>n. (edge_source x, n) \<in> set nodes \<Longrightarrow> \<exists>n'. (edge_source y, n') \<in> set nodes' \<and> nd_id n' = nd_id n"
    and "\<And>n. (edge_target x, n) \<in> set nodes \<Longrightarrow> \<exists>n'. (edge_target y, n') \<in> set nodes' \<and> nd_id n' = nd_id n"
    and "lk_source (edge_link y) = lk_source (edge_link x)" "lk_target (edge_link y) = lk_target (edge_link x)"
  shows "edge_agrees nodes' y"
  using assms unfolding edge_agrees_def by metis

context digraph
begin

lemma inv_valid: "graph_inv pg valid g \<Longrightarrow> valid g"
  by (simp add: graph_inv_def)

lemma node_weight_iff: "valid g \<Longrightarrow> node_weight pg g i = Some n \<longleftrightarrow> (i, n) \<in> set (node_references pg g)"
  by (auto simp: node_weight_def find_by_key_iff [OF node_indices_distinct])

lemma edge_weight_iff:
  "valid g \<Longrightarrow> edge_weight pg g e = Some w \<longleftrightarrow> (\<exists>s t. (e, s, t, w) \<in> set (edge_references pg g))"
  by (auto simp: edge_weight_def find_by_key_iff [OF edge_indices_distinct])

lemma vertex_cases:
  assumes "graph_inv pg valid g"
  obtains (absent) "vertex pg p g = []" "\<And>i n. (i, n) \<in> set (node_references pg g) \<Longrightarrow> nd_id n \<noteq> p"
  | (present) i n where "vertex pg p g = [i]" "(i, n) \<in> set (node_references pg g)" "nd_id n = p"
proof (cases "find (\<lambda>x. nd_id (snd x) = p) (node_references pg g)")
  case None
  then have "nd_id (snd x) \<noteq> p" if "x \<in> set (node_references pg g)" for x
    using that unfolding find_None_iff by blast
  from this [of "(i, n)" for i n] show ?thesis by (intro absent) (simp_all add: vertex_def None)
next
  case (Some x)
  then have "x \<in> set (node_references pg g) \<and> nd_id (snd x) = p"
    using find_by_key_iff [of "\<lambda>x. nd_id (snd x)" "node_references pg g" p x] assms
    unfolding graph_inv_def by blast
  then show ?thesis by (intro present [of "fst x" "snd x"]) (simp_all add: vertex_def Some)
qed

lemma edge_cases:
  assumes "graph_inv pg valid g"
  obtains (absent) "edge pg l g = []" "\<And>x. x \<in> set (edge_references pg g) \<Longrightarrow> lk_id (edge_link x) \<noteq> l"
  | (present) x where "edge pg l g = [edge_index x]" "x \<in> set (edge_references pg g)" "lk_id (edge_link x) = l"
proof (cases "find (\<lambda>x. lk_id (edge_link x) = l) (edge_references pg g)")
  case None
  then have "lk_id (edge_link x) \<noteq> l" if "x \<in> set (edge_references pg g)" for x
    using that unfolding find_None_iff by blast
  then show ?thesis by (intro absent) (simp_all add: edge_def None)
next
  case (Some x)
  then have "x \<in> set (edge_references pg g) \<and> lk_id (edge_link x) = l"
    using find_by_key_iff [of "\<lambda>x. lk_id (edge_link x)" "edge_references pg g" l x] assms
    unfolding graph_inv_def by blast
  then show ?thesis by (intro present [of x]) (simp_all add: edge_def Some)
qed

lemma node_id_unique:
  "graph_inv pg valid g \<Longrightarrow> (i, n) \<in> set (node_references pg g) \<Longrightarrow> (j, m) \<in> set (node_references pg g) \<Longrightarrow>
     nd_id n = nd_id m \<Longrightarrow> i = j \<and> n = m"
  using find_by_key_iff [of "\<lambda>x. nd_id (snd x)" "node_references pg g"] unfolding graph_inv_def
  by (metis option.inject prod.inject snd_conv)

lemma link_id_unique:
  "graph_inv pg valid g \<Longrightarrow> x \<in> set (edge_references pg g) \<Longrightarrow> y \<in> set (edge_references pg g) \<Longrightarrow>
     lk_id (edge_link x) = lk_id (edge_link y) \<Longrightarrow> x = y"
  using find_by_key_iff [of "\<lambda>x. lk_id (edge_link x)" "edge_references pg g"] unfolding graph_inv_def
  by (metis option.inject)

lemma find_node_iff:
  assumes "graph_inv pg valid g"
  shows "find_node pg p g = Some n \<longleftrightarrow> (\<exists>i. (i, n) \<in> set (node_references pg g)) \<and> nd_id n = p"
  using assms
proof (cases rule: vertex_cases [where p = p])
  case absent
  then show ?thesis by (auto simp: find_node_def first_node_def)
next
  case (present i m)
  then have "find_node pg p g = Some m"
    by (simp add: find_node_def first_node_def node_weight_iff inv_valid [OF assms])
  moreover have "m = n" if "(j, n) \<in> set (node_references pg g)" "nd_id n = p" for j n
    using node_id_unique [OF assms present(2) that(1)] present(3) that(2) by simp
  ultimately show ?thesis using present(2,3) by (metis option.inject)
qed

lemma find_link_iff:
  assumes "graph_inv pg valid g"
  shows "find_link pg l g = Some w \<longleftrightarrow> (\<exists>x \<in> set (edge_references pg g). edge_link x = w) \<and> lk_id w = l"
  using assms
proof (cases rule: edge_cases [where l = l])
  case absent
  then show ?thesis by (auto simp: find_link_def first_link_def)
next
  case (present x)
  have "edge_weight pg g (edge_index x) = Some (edge_link x)"
    using present by (cases x) (auto simp: edge_weight_iff inv_valid [OF assms])
  then have "find_link pg l g = Some (edge_link x)" using present by (simp add: find_link_def first_link_def)
  moreover have "x = y" if "y \<in> set (edge_references pg g)" "lk_id (edge_link y) = l" for y
    using link_id_unique [OF assms present(2) that(1)] present(3) that(2) by simp
  ultimately show ?thesis using present(2,3) by (metis option.inject)
qed

lemma find_node_None_iff:
  assumes "graph_inv pg valid g"
  shows "find_node pg p g = None \<longleftrightarrow> vertex pg p g = []"
  using assms
proof (cases rule: vertex_cases [where p = p])
  case (present i n)
  then have "node_weight pg g i = Some n" by (simp add: node_weight_iff inv_valid [OF assms])
  then show ?thesis using present by (simp add: find_node_def first_node_def)
qed (simp add: find_node_def first_node_def)

lemma find_link_None_iff:
  assumes "graph_inv pg valid g"
  shows "find_link pg l g = None \<longleftrightarrow> edge pg l g = []"
  using assms
proof (cases rule: edge_cases [where l = l])
  case (present x)
  then have "edge_weight pg g (edge_index x) = Some (edge_link x)"
    by (cases x) (auto simp: edge_weight_iff inv_valid [OF assms])
  then show ?thesis using present by (simp add: find_link_def first_link_def)
qed (simp add: find_link_def first_link_def)

lemma graph_inv_same_edges:
  assumes "graph_inv pg valid g" "valid g'" "edge_references pg g' = edge_references pg g"
    and "map (\<lambda>x. (fst x, nd_id (snd x))) (node_references pg g')
      = map (\<lambda>x. (fst x, nd_id (snd x))) (node_references pg g)"
  shows "graph_inv pg valid g'"
proof -
  have ids: "map (\<lambda>x. nd_id (snd x)) (node_references pg g') = map (\<lambda>x. nd_id (snd x)) (node_references pg g)"
    using arg_cong [OF assms(4), of "map snd"] by (simp add: comp_def)
  have pairs: "(\<lambda>x. (fst x, nd_id (snd x))) ` set (node_references pg g')
      = (\<lambda>x. (fst x, nd_id (snd x))) ` set (node_references pg g)"
    using arg_cong [OF assms(4), of set] by simp
  have move: "\<exists>n'. (j, n') \<in> set (node_references pg g') \<and> nd_id n' = nd_id n"
    if "(j, n) \<in> set (node_references pg g)" for j n
  proof -
    have "(j, nd_id n) \<in> (\<lambda>x. (fst x, nd_id (snd x))) ` set (node_references pg g')"
      unfolding pairs using that by force
    then show ?thesis by auto
  qed
  have "edge_agrees (node_references pg g') x" if "x \<in> set (edge_references pg g)" for x
  proof (rule edge_agrees_mono [of "node_references pg g" x])
    show "edge_agrees (node_references pg g) x" using assms(1) that by (simp add: graph_inv_def)
  qed (use move in auto)
  moreover have "\<forall>v \<in> set (map (\<lambda>x. nd_id (snd x)) (node_references pg g)). CHR ''.'' \<notin> set v"
    using assms(1) by (simp add: graph_inv_def)
  then have "\<forall>x \<in> set (node_references pg g'). CHR ''.'' \<notin> set (nd_id (snd x))"
    unfolding ids [symmetric] by simp
  ultimately show ?thesis using assms(1-3) ids by (simp add: graph_inv_def)
qed

lemma find_link_same_edges:
  assumes "graph_inv pg valid g" "graph_inv pg valid g'" "edge_references pg g' = edge_references pg g"
  shows "find_link pg l g' = find_link pg l g"
  by (rule option_eq_by_some) (simp add: find_link_iff [OF assms(1)] find_link_iff [OF assms(2)] assms(3))

lemma find_node_same_nodes:
  assumes "graph_inv pg valid g" "graph_inv pg valid g'" "node_references pg g' = node_references pg g"
  shows "find_node pg p g' = find_node pg p g"
  by (rule option_eq_by_some) (simp add: find_node_iff [OF assms(1)] find_node_iff [OF assms(2)] assms(3))

lemma node_weight_mut_inv:
  assumes "graph_inv pg valid g" "\<And>n. nd_id (f n) = nd_id n"
  shows "graph_inv pg valid (node_weight_mut pg i f g)"
proof -
  note law = node_weight_mut_law [OF inv_valid [OF assms(1)], of i f]
  have "map (\<lambda>x. (fst x, nd_id (snd x))) (node_references pg (node_weight_mut pg i f g))
      = map (\<lambda>x. (fst x, nd_id (snd x))) (node_references pg g)"
    using law assms(2) by (simp add: split_def)
  then show ?thesis using law graph_inv_same_edges [OF assms(1)] by blast
qed

lemma update_node_inv:
  assumes "graph_inv pg valid g" "\<And>n. nd_id (f n) = nd_id n"
  shows "graph_inv pg valid (update_node pg p f g)"
  using assms by (auto simp: update_node_def first_node_mut_def node_weight_mut_inv split: list.splits)

lemma find_link_update_node [simp]:
  assumes "graph_inv pg valid g" "\<And>n. nd_id (f n) = nd_id n"
  shows "find_link pg l (update_node pg p f g) = find_link pg l g"
proof (rule find_link_same_edges [OF assms(1) update_node_inv [OF assms]])
  show "edge_references pg (update_node pg p f g) = edge_references pg g"
    using node_weight_mut_law [OF inv_valid [OF assms(1)]]
    by (simp add: update_node_def first_node_mut_def split: list.splits)
qed

lemma find_node_update_node:
  assumes inv: "graph_inv pg valid g" and f: "\<And>n. nd_id (f n) = nd_id n"
  shows "find_node pg q (update_node pg p f g)
    = (if q = p then map_option f (find_node pg q g) else find_node pg q g)"
  using inv
proof (cases rule: vertex_cases [where p = p])
  case absent
  then show ?thesis using find_node_None_iff [OF inv, of p] by (simp add: update_node_def first_node_mut_def)
next
  case (present i m)
  let ?g = "update_node pg p f g"
  have refs: "node_references pg ?g = map (\<lambda>(j, n). (j, if j = i then f n else n)) (node_references pg g)"
    using node_weight_mut_law [OF inv_valid [OF inv]] present(1) by (simp add: update_node_def first_node_mut_def)
  have at_p: "j = i \<longleftrightarrow> nd_id n = p" if "(j, n) \<in> set (node_references pg g)" for j n
    using node_id_unique [OF inv that present(2)] present(3) that
    by (metis inv inv_valid node_weight_iff option.inject present(2))
  have mem: "(\<exists>j. (j, n) \<in> set (node_references pg ?g)) \<longleftrightarrow>
      (\<exists>j n'. (j, n') \<in> set (node_references pg g) \<and> n = (if nd_id n' = p then f n' else n'))" for n
    unfolding refs using at_p by force
  show ?thesis
  proof (rule option_eq_by_some)
    fix v
    show "find_node pg q ?g = Some v \<longleftrightarrow>
        (if q = p then map_option f (find_node pg q g) else find_node pg q g) = Some v"
      using f by (auto simp: find_node_iff [OF update_node_inv [OF inv f]] mem find_node_iff [OF inv])
  qed
qed

lemma graph_inv_fewer_edges:
  assumes inv: "graph_inv pg valid g" and "valid g'" and nodes: "node_references pg g' = node_references pg g"
    and edges: "mset (map (\<lambda>x. lk_id (edge_link x)) (edge_references pg g'))
      \<subseteq># mset (map (\<lambda>x. lk_id (edge_link x)) (edge_references pg g))"
    and from_old: "\<And>y. y \<in> set (edge_references pg g') \<Longrightarrow> \<exists>x \<in> set (edge_references pg g).
      edge_source y = edge_source x \<and> edge_target y = edge_target x
        \<and> lk_source (edge_link y) = lk_source (edge_link x) \<and> lk_target (edge_link y) = lk_target (edge_link x)"
  shows "graph_inv pg valid g'"
proof -
  have "edge_agrees (node_references pg g') y" if y: "y \<in> set (edge_references pg g')" for y
  proof -
    obtain x where x: "x \<in> set (edge_references pg g)"
      "edge_source y = edge_source x" "edge_target y = edge_target x"
      "lk_source (edge_link y) = lk_source (edge_link x)" "lk_target (edge_link y) = lk_target (edge_link x)"
      using from_old [OF y] by blast
    show ?thesis
    proof (rule edge_agrees_mono [of "node_references pg g" x])
      show "edge_agrees (node_references pg g) x" using inv x(1) by (simp add: graph_inv_def)
    qed (use x nodes in auto)
  qed
  moreover have "distinct (map (\<lambda>x. lk_id (edge_link x)) (edge_references pg g'))"
    using inv edges unfolding graph_inv_def by (metis distinct_if_mset_subseteq)
  ultimately show ?thesis using inv \<open>valid g'\<close> nodes by (simp add: graph_inv_def)
qed

lemma update_link_refs:
  assumes "graph_inv pg valid g"
  obtains (absent) "update_link pg l h g = g" "find_link pg l g = None"
  | (present) x where "x \<in> set (edge_references pg g)" "lk_id (edge_link x) = l"
      "valid (update_link pg l h g)"
      "node_references pg (update_link pg l h g) = node_references pg g"
      "edge_references pg (update_link pg l h g)
        = map (\<lambda>(d, s, t, w). (d, s, t, if d = edge_index x then h w else w)) (edge_references pg g)"
  using assms
proof (cases rule: edge_cases [where l = l])
  case absent
  then show ?thesis using that(1) find_link_None_iff [OF assms, of l]
    by (simp add: update_link_def first_link_mut_def)
next
  case (present x)
  then have "update_link pg l h g = edge_weight_mut pg (edge_index x) h g"
    by (simp add: update_link_def first_link_mut_def)
  then show ?thesis using edge_weight_mut_law [OF inv_valid [OF assms]] present that(2) by metis
qed

lemma update_link_inv:
  assumes inv: "graph_inv pg valid g"
    and h: "\<And>w. lk_id (h w) = lk_id w" "\<And>w. lk_source (h w) = lk_source w" "\<And>w. lk_target (h w) = lk_target w"
  shows "graph_inv pg valid (update_link pg l h g)"
  using inv
proof (cases rule: update_link_refs [where l = l and h = h])
  case (present x)
  have link: "edge_link (case y of (d, s, t, w) \<Rightarrow> (d, s, t, if d = edge_index x then h w else w))
      = (if edge_index y = edge_index x then h (edge_link y) else edge_link y)" for y
    by (cases y) simp
  show ?thesis
  proof (rule graph_inv_fewer_edges [OF inv present(3,4)])
    show "mset (map (\<lambda>x. lk_id (edge_link x)) (edge_references pg (update_link pg l h g)))
        \<subseteq># mset (map (\<lambda>x. lk_id (edge_link x)) (edge_references pg g))"
      unfolding present(5) by (simp add: comp_def link if_distrib [of lk_id] h cong: if_cong)
  next
    fix y assume "y \<in> set (edge_references pg (update_link pg l h g))"
    then obtain z where z: "z \<in> set (edge_references pg g)"
      "y = (case z of (d, s, t, w) \<Rightarrow> (d, s, t, if d = edge_index x then h w else w))"
      unfolding present(5) by auto
    then show "\<exists>x \<in> set (edge_references pg g). edge_source y = edge_source x \<and> edge_target y = edge_target x
        \<and> lk_source (edge_link y) = lk_source (edge_link x) \<and> lk_target (edge_link y) = lk_target (edge_link x)"
      by (intro bexI [of _ z]) (cases z, auto simp: h)
  qed
qed (simp add: inv)

lemma find_node_update_link [simp]:
  assumes "graph_inv pg valid g"
    and "\<And>w. lk_id (h w) = lk_id w" "\<And>w. lk_source (h w) = lk_source w" "\<And>w. lk_target (h w) = lk_target w"
  shows "find_node pg p (update_link pg l h g) = find_node pg p g"
  using assms(1)
proof (cases rule: update_link_refs [where l = l and h = h])
  case (present x)
  then show ?thesis by (intro find_node_same_nodes [OF assms(1) update_link_inv [OF assms]])
qed simp

lemma find_link_update_link:
  assumes inv: "graph_inv pg valid g"
    and h: "\<And>w. lk_id (h w) = lk_id w" "\<And>w. lk_source (h w) = lk_source w" "\<And>w. lk_target (h w) = lk_target w"
  shows "find_link pg k (update_link pg l h g)
    = (if k = l then map_option h (find_link pg k g) else find_link pg k g)"
  using inv
proof (cases rule: update_link_refs [where l = l and h = h])
  case (present x)
  have at_l: "edge_index y = edge_index x \<longleftrightarrow> lk_id (edge_link y) = l" if "y \<in> set (edge_references pg g)" for y
  proof
    assume "edge_index y = edge_index x"
    then have "y = x" using that present(1) edge_indices_distinct [OF inv_valid [OF inv]]
      by (metis distinct_map inj_on_def)
    then show "lk_id (edge_link y) = l" using present(2) by simp
  qed (use link_id_unique [OF inv that present(1)] present(2) in simp)
  have mem: "(\<exists>y \<in> set (edge_references pg (update_link pg l h g)). edge_link y = v) \<longleftrightarrow>
      (\<exists>y \<in> set (edge_references pg g). v = (if lk_id (edge_link y) = l then h (edge_link y) else edge_link y))" for v
    unfolding present(5) using at_l by (force split: prod.splits)
  show ?thesis
  proof (rule option_eq_by_some)
    fix v
    show "find_link pg k (update_link pg l h g) = Some v \<longleftrightarrow>
        (if k = l then map_option h (find_link pg k g) else find_link pg k g) = Some v"
      using h by (auto simp: find_link_iff [OF update_link_inv [OF inv h]] mem find_link_iff [OF inv]) force
  qed
qed simp

lemma drop_link_laws:
  assumes inv: "graph_inv pg valid g" and d: "drop_link pg l g = (kept, g')"
  shows "kept = []" and "graph_inv pg valid g'"
    and "find_node pg p g' = find_node pg p g"
    and "find_link pg k g' = (if k = l then None else find_link pg k g)"
proof -
  have "kept = [] \<and> graph_inv pg valid g' \<and> find_node pg p g' = find_node pg p g
      \<and> find_link pg k g' = (if k = l then None else find_link pg k g)"
    using inv
  proof (cases rule: edge_cases [where l = l])
    case absent
    then show ?thesis using d inv find_link_None_iff [OF inv, of l] by (simp add: drop_link_def)
  next
    case (present x)
    obtain gone g1 where r: "remove_edge pg (edge_index x) g = (gone, g1)" by fastforce
    note law = remove_edge_law [OF inv_valid [OF inv] r]
    have "edge_weight pg g (edge_index x) = Some (edge_link x)"
      using present by (cases x) (auto simp: edge_weight_iff inv_valid [OF inv])
    then have d': "kept = []" "g' = g1" using d law r present(1) by (auto simp: drop_link_def)
    have at_l: "edge_index y \<noteq> edge_index x \<longleftrightarrow> lk_id (edge_link y) \<noteq> l" if "y \<in> set (edge_references pg g)" for y
      using that present link_id_unique [OF inv that present(2)] edge_indices_distinct [OF inv_valid [OF inv]]
      by (metis distinct_map inj_on_def)
    let ?kept = "filter (\<lambda>y. edge_index y \<noteq> edge_index x) (edge_references pg g)"
    have m: "mset (map snd (edge_references pg g')) = mset (map snd ?kept)" using law d'(2) by simp
    have ids: "mset (map (\<lambda>y. lk_id (edge_link y)) (edge_references pg g'))
        \<subseteq># mset (map (\<lambda>y. lk_id (edge_link y)) (edge_references pg g))"
    proof -
      have "mset (map (\<lambda>y. lk_id (edge_link y)) (edge_references pg g')) = mset (map (\<lambda>y. lk_id (edge_link y)) ?kept)"
        using arg_cong [OF m, of "image_mset (\<lambda>z. lk_id (snd (snd z)))"]
        by (simp add: edge_link_snd multiset.map_comp comp_def)
      then show ?thesis by (simp add: image_mset_subseteq_mono)
    qed
    have old_edge: "\<exists>z \<in> set (edge_references pg g). snd y = snd z \<and> lk_id (edge_link z) \<noteq> l"
      if "y \<in> set (edge_references pg g')" for y
    proof -
      have "snd y \<in> set (map snd (edge_references pg g'))" using that by simp
      then have "snd y \<in> set (map snd ?kept)" using arg_cong [OF m, of set_mset] by simp
      then show ?thesis using at_l by auto
    qed
    have kept_edge: "\<exists>y \<in> set (edge_references pg g'). snd y = snd z"
      if "z \<in> set (edge_references pg g)" "lk_id (edge_link z) \<noteq> l" for z
    proof -
      have "snd z \<in> set (map snd ?kept)" using that at_l by simp
      then have "snd z \<in> set (map snd (edge_references pg g'))" using arg_cong [OF m, of set_mset] by simp
      then show ?thesis unfolding set_map by (metis imageE)
    qed
    have inv': "graph_inv pg valid g'"
    proof (rule graph_inv_fewer_edges [OF inv _ _ ids])
      fix y assume "y \<in> set (edge_references pg g')"
      then show "\<exists>x \<in> set (edge_references pg g). edge_source y = edge_source x \<and> edge_target y = edge_target x
          \<and> lk_source (edge_link y) = lk_source (edge_link x) \<and> lk_target (edge_link y) = lk_target (edge_link x)"
        using old_edge by (metis edge_source_snd edge_target_snd edge_link_snd)
    qed (use law d'(2) in auto)
    moreover have "find_link pg k g' = (if k = l then None else find_link pg k g)"
    proof (rule option_eq_by_some)
      fix v
      have "(\<exists>y \<in> set (edge_references pg g'). edge_link y = v) \<longleftrightarrow>
          (\<exists>y \<in> set (edge_references pg g). edge_link y = v) \<and> lk_id v \<noteq> l"
        using old_edge kept_edge by (metis edge_link_snd)
      then show "find_link pg k g' = Some v \<longleftrightarrow> (if k = l then None else find_link pg k g) = Some v"
        by (auto simp: find_link_iff [OF inv'] find_link_iff [OF inv])
    qed
    ultimately show ?thesis using d'(1) find_node_same_nodes [OF inv inv'] law d'(2) by simp
  qed
  then show "kept = []" "graph_inv pg valid g'" "find_node pg p g' = find_node pg p g"
    "find_link pg k g' = (if k = l then None else find_link pg k g)" by auto
qed

text \<open>Removing a node: what the library says of indices, read as what happens to processors and links.\<close>

lemma remove_node_refs:
  assumes inv: "graph_inv pg valid g" and at: "(i, m) \<in> set (node_references pg g)" "nd_id m = p"
    and r: "remove_node pg i g = (left, g')"
  shows "valid g'" and "left = Some m"
    and "\<exists>ren. (\<forall>j n. (j, n) \<in> set (node_references pg g') \<longleftrightarrow>
        (\<exists>j'. j = ren j' \<and> (j', n) \<in> set (node_references pg g) \<and> nd_id n \<noteq> p))
      \<and> (\<forall>s t w. (\<exists>e. (e, s, t, w) \<in> set (edge_references pg g')) \<longleftrightarrow>
        (\<exists>e s' t'. s = ren s' \<and> t = ren t' \<and> (e, s', t', w) \<in> set (edge_references pg g) \<and> \<not> touches p w))"
    and "mset (map (\<lambda>x. nd_id (snd x)) (node_references pg g')) \<subseteq># mset (map (\<lambda>x. nd_id (snd x)) (node_references pg g))"
    and "mset (map (\<lambda>x. lk_id (edge_link x)) (edge_references pg g'))
      \<subseteq># mset (map (\<lambda>x. lk_id (edge_link x)) (edge_references pg g))"
proof -
  let ?N = "node_references pg g" and ?E = "edge_references pg g"
  let ?kn = "filter (\<lambda>x. fst x \<noteq> i) ?N"
  let ?ke = "filter (\<lambda>x. edge_source x \<noteq> i \<and> edge_target x \<noteq> i) ?E"
  obtain ren where ren:
    "mset (node_references pg g') = mset (map (\<lambda>(j, m). (ren j, m)) ?kn)"
    "mset (map snd (edge_references pg g')) = mset (map (\<lambda>(e, s, t, w). (ren s, ren t, w)) ?ke)"
    and v: "valid g'" "left = node_weight pg g i"
    using remove_node_law [OF inv_valid [OF inv] r] by blast
  have at_p: "j \<noteq> i \<longleftrightarrow> nd_id n \<noteq> p" if "(j, n) \<in> set ?N" for j n
    using node_id_unique [OF inv that at(1)] at that inv inv_valid node_weight_iff
    by (metis option.inject)
  have ends: "edge_source x \<noteq> i \<and> edge_target x \<noteq> i \<longleftrightarrow> \<not> touches p (edge_link x)" if "x \<in> set ?E" for x
  proof -
    have "edge_agrees ?N x" using inv that by (simp add: graph_inv_def)
    then show ?thesis unfolding edge_agrees_def touches_def using at_p by metis
  qed
  have nodes: "(j, n) \<in> set (node_references pg g') \<longleftrightarrow> (\<exists>j'. j = ren j' \<and> (j', n) \<in> set ?N \<and> nd_id n \<noteq> p)" for j n
  proof -
    have "set (node_references pg g') = set (map (\<lambda>(j, m). (ren j, m)) ?kn)"
      using arg_cong [OF ren(1), of set_mset] by simp
    then have "(j, n) \<in> set (node_references pg g') \<longleftrightarrow> (\<exists>j'. j = ren j' \<and> (j', n) \<in> set ?N \<and> j' \<noteq> i)"
      by auto
    then show ?thesis using at_p by blast
  qed
  have edges: "(\<exists>e. (e, s, t, w) \<in> set (edge_references pg g')) \<longleftrightarrow>
      (\<exists>e s' t'. s = ren s' \<and> t = ren t' \<and> (e, s', t', w) \<in> set ?E \<and> \<not> touches p w)" for s t w
  proof -
    have "set (map snd (edge_references pg g')) = set (map (\<lambda>(e, s, t, w). (ren s, ren t, w)) ?ke)"
      using arg_cong [OF ren(2), of set_mset] by simp
    moreover have "(\<exists>e. (e, s, t, w) \<in> set (edge_references pg g')) \<longleftrightarrow> (s, t, w) \<in> set (map snd (edge_references pg g'))"
      by force
    moreover have "(s, t, w) \<in> set (map (\<lambda>(e, s, t, w). (ren s, ren t, w)) ?ke) \<longleftrightarrow>
        (\<exists>e s' t'. s = ren s' \<and> t = ren t' \<and> (e, s', t', w) \<in> set ?E \<and> s' \<noteq> i \<and> t' \<noteq> i)"
      by force
    ultimately show ?thesis using ends by fastforce
  qed
  have "mset (map (\<lambda>x. nd_id (snd x)) (node_references pg g')) = mset (map (\<lambda>x. nd_id (snd x)) ?kn)"
    using arg_cong [OF ren(1), of "image_mset (\<lambda>x. nd_id (snd x))"]
    by (simp add: multiset.map_comp comp_def split_def)
  then show "mset (map (\<lambda>x. nd_id (snd x)) (node_references pg g')) \<subseteq># mset (map (\<lambda>x. nd_id (snd x)) ?N)"
    by (simp add: image_mset_subseteq_mono)
  have "mset (map (\<lambda>x. lk_id (edge_link x)) (edge_references pg g')) = mset (map (\<lambda>x. lk_id (edge_link x)) ?ke)"
    using arg_cong [OF ren(2), of "image_mset (\<lambda>z. lk_id (snd (snd z)))"]
    by (simp add: edge_link_snd multiset.map_comp comp_def split_def)
  then show "mset (map (\<lambda>x. lk_id (edge_link x)) (edge_references pg g')) \<subseteq># mset (map (\<lambda>x. lk_id (edge_link x)) ?E)"
    by (simp add: image_mset_subseteq_mono)
  show "valid g'" "left = Some m" using v at by (simp_all add: node_weight_iff inv_valid [OF inv])
  show "\<exists>ren. (\<forall>j n. (j, n) \<in> set (node_references pg g') \<longleftrightarrow>
        (\<exists>j'. j = ren j' \<and> (j', n) \<in> set ?N \<and> nd_id n \<noteq> p))
      \<and> (\<forall>s t w. (\<exists>e. (e, s, t, w) \<in> set (edge_references pg g')) \<longleftrightarrow>
        (\<exists>e s' t'. s = ren s' \<and> t = ren t' \<and> (e, s', t', w) \<in> set ?E \<and> \<not> touches p w))"
    using nodes edges by blast
qed

lemma drop_node_laws:
  assumes inv: "graph_inv pg valid g" and d: "drop_node pg p g = (kept, g')"
  shows "kept = []" and "graph_inv pg valid g'"
    and "find_node pg q g' = (if q = p then None else find_node pg q g)"
    and "find_link pg k g' = (case find_link pg k g of
      Some w \<Rightarrow> if touches p w then None else Some w | None \<Rightarrow> None)"
proof -
  have "kept = [] \<and> graph_inv pg valid g' \<and> find_node pg q g' = (if q = p then None else find_node pg q g)
      \<and> find_link pg k g' = (case find_link pg k g of
          Some w \<Rightarrow> if touches p w then None else Some w | None \<Rightarrow> None)"
    using inv
  proof (cases rule: vertex_cases [where p = p])
    case absent
    then have "g' = g" "kept = []" using d by (auto simp: drop_node_def)
    moreover have "\<not> touches p w" if fl: "find_link pg k g = Some w" for w
    proof -
      obtain x where "x \<in> set (edge_references pg g)" "edge_link x = w"
        using fl unfolding find_link_iff [OF inv] by blast
      then have "edge_agrees (node_references pg g) x" using inv by (simp add: graph_inv_def)
      then show ?thesis using absent(2) \<open>edge_link x = w\<close> unfolding edge_agrees_def touches_def by metis
    qed
    ultimately show ?thesis using inv absent find_node_None_iff [OF inv, of p] by (auto split: option.splits)
  next
    case (present i m)
    obtain left g1 where r: "remove_node pg i g = (left, g1)" by fastforce
    note R = remove_node_refs [OF inv present(2,3) r]
    obtain ren where "(\<forall>j n. (j, n) \<in> set (node_references pg g1) \<longleftrightarrow>
        (\<exists>j'. j = ren j' \<and> (j', n) \<in> set (node_references pg g) \<and> nd_id n \<noteq> p))
      \<and> (\<forall>s t w. (\<exists>e. (e, s, t, w) \<in> set (edge_references pg g1)) \<longleftrightarrow>
        (\<exists>e s' t'. s = ren s' \<and> t = ren t' \<and> (e, s', t', w) \<in> set (edge_references pg g) \<and> \<not> touches p w))"
      using R(3) by (elim exE) (rule that)
    then have N: "\<And>j n. (j, n) \<in> set (node_references pg g1) \<longleftrightarrow>
        (\<exists>j'. j = ren j' \<and> (j', n) \<in> set (node_references pg g) \<and> nd_id n \<noteq> p)"
      and E: "\<And>s t w. (\<exists>e. (e, s, t, w) \<in> set (edge_references pg g1)) \<longleftrightarrow>
        (\<exists>e s' t'. s = ren s' \<and> t = ren t' \<and> (e, s', t', w) \<in> set (edge_references pg g) \<and> \<not> touches p w)"
      by (simp_all only:)
    have d': "kept = []" "g' = g1" using d r R(2) present(1) by (auto simp: drop_node_def)
    have agree: "edge_agrees (node_references pg g1) y" if y: "y \<in> set (edge_references pg g1)" for y
    proof -
      obtain e s t w where y': "y = (e, s, t, w)" by (cases y)
      then obtain e' s' t' where o: "s = ren s'" "t = ren t'" "(e', s', t', w) \<in> set (edge_references pg g)"
        "\<not> touches p w" using E y by blast
      then have "edge_agrees (node_references pg g) (e', s', t', w)" using inv by (simp add: graph_inv_def)
      then show ?thesis using o y' N unfolding edge_agrees_def touches_def by simp metis
    qed
    have "CHR ''.'' \<notin> set (nd_id (snd x))" if "x \<in> set (node_references pg g1)" for x
      using inv N [of "fst x" "snd x"] that unfolding graph_inv_def by force
    then have inv': "graph_inv pg valid g1"
      using inv R(1) agree distinct_if_mset_subseteq [OF R(4)] distinct_if_mset_subseteq [OF R(5)]
      unfolding graph_inv_def by blast
    have "find_node pg q g1 = (if q = p then None else find_node pg q g)"
    proof (rule option_eq_by_some)
      fix v
      show "find_node pg q g1 = Some v \<longleftrightarrow> (if q = p then None else find_node pg q g) = Some v"
        using N by (auto simp: find_node_iff [OF inv'] find_node_iff [OF inv])
    qed
    moreover have "find_link pg k g1 = (case find_link pg k g of
        Some w \<Rightarrow> if touches p w then None else Some w | None \<Rightarrow> None)"
    proof (rule option_eq_by_some)
      fix v
      have "(\<exists>y \<in> set (edge_references pg g1). edge_link y = v) \<longleftrightarrow> (\<exists>e s t. (e, s, t, v) \<in> set (edge_references pg g1))"
        by (metis edge_link.simps edge_link.elims)
      also have "\<dots> \<longleftrightarrow> (\<exists>y \<in> set (edge_references pg g). edge_link y = v) \<and> \<not> touches p v"
        using E by (metis edge_link.simps edge_link.elims)
      finally have "find_link pg k g1 = Some v \<longleftrightarrow> find_link pg k g = Some v \<and> \<not> touches p v"
        by (auto simp: find_link_iff [OF inv'] find_link_iff [OF inv])
      then show "find_link pg k g1 = Some v \<longleftrightarrow> (case find_link pg k g of
          Some w \<Rightarrow> if touches p w then None else Some w | None \<Rightarrow> None) = Some v"
        by (auto split: option.splits)
    qed
    ultimately show ?thesis using d' inv' by simp
  qed
  then show "kept = []" "graph_inv pg valid g'" "find_node pg q g' = (if q = p then None else find_node pg q g)"
    "find_link pg k g' = (case find_link pg k g of Some w \<Rightarrow> if touches p w then None else Some w | None \<Rightarrow> None)"
    by auto
qed

end

subsection \<open>Display names\<close>

lemma dec_string_inject:
  "dec_string m = dec_string n \<Longrightarrow> m = n"
proof (induction m arbitrary: n rule: dec_string.induct)
  case (1 m)
  have digit: "a = b" if "digit_char a = digit_char b" "a < 10" "b < 10" for a b
    using that by (metis of_char_digit_char add_left_cancel)
  show ?case
  proof (cases "m < 10"; cases "n < 10")
    assume "m < 10" "n < 10"
    then show ?thesis using "1.prems" digit by (simp add: dec_string.simps [of m] dec_string.simps [of n])
  next
    assume a: "\<not> m < 10" "\<not> n < 10"
    then have "dec_string (m div 10) = dec_string (n div 10)" "digit_char (m mod 10) = digit_char (n mod 10)"
      using "1.prems" by (simp_all add: dec_string.simps [of m] dec_string.simps [of n])
    then have "m div 10 = n div 10" "m mod 10 = n mod 10" using a "1.IH" digit by simp_all
    then show ?thesis by (metis div_mult_mod_eq)
  qed (use "1.prems" in \<open>simp_all add: dec_string.simps [of m] dec_string.simps [of n]
      dec_string_neq_Nil [THEN not_sym]\<close>)
qed

lemma ordinal_candidate_inject: "ordinal_candidate r m = ordinal_candidate r n \<longleftrightarrow> m = n"
  by (auto simp: ordinal_candidate_def dest: dec_string_inject)

text \<open>The names a search can find taken are finitely many, and no candidate comes twice.\<close>

lemma try_ordinals_returns:
  assumes "finite {c. is_taken c}"
  shows "\<exists>k \<ge> start. try_ordinals is_taken r start = Some (ordinal_candidate r k)
    \<and> \<not> is_taken (ordinal_candidate r k) \<and> (\<forall>j. start \<le> j \<and> j < k \<longrightarrow> is_taken (ordinal_candidate r j))"
  using assms
proof (induction "card {j. start \<le> j \<and> is_taken (ordinal_candidate r j)}" arbitrary: start rule: less_induct)
  case less
  let ?T = "\<lambda>start. {j. start \<le> j \<and> is_taken (ordinal_candidate r j)}"
  show ?case
  proof (cases "is_taken (ordinal_candidate r start)")
    case False
    then have "try_ordinals is_taken r start = Some (ordinal_candidate r start)"
      by (subst try_ordinals.simps) simp
    then show ?thesis using False by (intro exI [of _ start]) auto
  next
    case True
    have "finite (ordinal_candidate r ` ?T start)"
      by (rule finite_subset [OF _ less.prems]) auto
    then have fin: "finite (?T start)"
      by (rule finite_imageD) (simp add: inj_on_def ordinal_candidate_inject)
    have "start \<in> ?T start - ?T (start + 1)" "?T (start + 1) \<subseteq> ?T start" using True by auto
    then have "?T (start + 1) \<subset> ?T start" by blast
    then have "card (?T (start + 1)) < card (?T start)" using fin by (simp add: psubset_card_mono)
    then obtain k where k: "k \<ge> start + 1" "try_ordinals is_taken r (start + 1) = Some (ordinal_candidate r k)"
      "\<not> is_taken (ordinal_candidate r k)"
      "\<forall>j. start + 1 \<le> j \<and> j < k \<longrightarrow> is_taken (ordinal_candidate r j)"
      using less.hyps less.prems by blast
    have "try_ordinals is_taken r start = try_ordinals is_taken r (start + 1)"
      using True by (subst try_ordinals.simps) simp
    moreover have "is_taken (ordinal_candidate r j)" if "start \<le> j" "j < k" for j
      using k(4) that True by (cases "j = start") auto
    ultimately show ?thesis using k by (intro exI [of _ k]) auto
  qed
qed

text \<open>At most one candidate per name is taken, so the ordinal stays small.\<close>

lemma taken_ordinals_bounded:
  assumes "\<forall>j. 2 \<le> j \<and> j < k \<longrightarrow> ordinal_candidate r j \<in> set names" "r \<in> set names" "2 \<le> k"
  shows "k \<le> length names + 1"
proof -
  have "insert r (ordinal_candidate r ` {2..<k}) \<subseteq> set names" using assms by auto
  then have "card (insert r (ordinal_candidate r ` {2..<k})) \<le> length names"
    by (meson List.finite_set card_length card_mono le_trans)
  moreover have "card (ordinal_candidate r ` {2..<k}) = k - 2"
    by (simp add: card_image inj_on_def ordinal_candidate_inject)
  moreover have "r \<notin> ordinal_candidate r ` {2..<k}" by (auto simp: ordinal_candidate_def)
  ultimately show ?thesis using assms(3) by simp
qed

definition assigned_display_name :: "string list \<Rightarrow> string \<Rightarrow> string \<Rightarrow> bool" where
  "assigned_display_name names requested assigned \<longleftrightarrow> assigned \<notin> set names \<and>
     (if requested \<in> set names
      then \<exists>k \<in> {2..length names + 1}. assigned = ordinal_candidate requested k
             \<and> (\<forall>j \<in> {2..<k}. ordinal_candidate requested j \<in> set names)
      else assigned = requested)"

lemma disambiguate_returns:
  "\<exists>assigned. disambiguate_display_name_within_graph pg g requested = Some assigned
     \<and> assigned_display_name (display_names pg g) requested assigned"
proof (cases "requested \<in> set (display_names pg g)")
  case True
  have "finite {c. c \<in> set (display_names pg g)}" by simp
  from try_ordinals_returns [OF this, of 2 requested] obtain k where k: "2 \<le> k"
    "try_ordinals (\<lambda>c. c \<in> set (display_names pg g)) requested 2 = Some (ordinal_candidate requested k)"
    "ordinal_candidate requested k \<notin> set (display_names pg g)"
    "\<forall>j. 2 \<le> j \<and> j < k \<longrightarrow> ordinal_candidate requested j \<in> set (display_names pg g)" by blast
  moreover have "k \<le> length (display_names pg g) + 1"
    by (rule taken_ordinals_bounded [OF k(4) True k(1)])
  ultimately show ?thesis using True
    by (auto simp: disambiguate_display_name_within_graph_def assigned_display_name_def)
qed (auto simp: disambiguate_display_name_within_graph_def assigned_display_name_def)

subsection \<open>What adding does\<close>

definition node_of_spec ::
    "processor_registry \<Rightarrow> (string \<Rightarrow> u64) \<Rightarrow> string \<Rightarrow> processor_spec \<Rightarrow> string \<Rightarrow> processor_node" where
  "node_of_spec reg checksum cuid spec assigned =
     (let (inputs, outputs) = (case rg_port_info reg (sp_name spec) of Some r \<Rightarrow> r | None \<Rightarrow> ([], []))
      in (processor_node_new checksum cuid (sp_name spec) assigned (Some (sp_config spec)) inputs outputs)
           \<lparr>nd_state := Some (new_observable_state
              (if rg_port_info reg (sp_name spec) = None then Error else Pending))\<rparr>)"

definition requested_display_name :: "processor_registry \<Rightarrow> processor_spec \<Rightarrow> string" where
  "requested_display_name reg spec =
     (case sp_display_name spec of Some d \<Rightarrow> d | None \<Rightarrow> default_display_name_for reg (sp_name spec))"

lemma node_of_spec_fields [simp]:
  "nd_id (node_of_spec reg checksum cuid spec assigned) = ''P'' @ cuid"
  "nd_display_name (node_of_spec reg checksum cuid spec assigned) = assigned"
  by (simp_all add: node_of_spec_def processor_node_new_def split_def Let_def)

context digraph
begin

lemma add_v_refs:
  assumes v: "valid g"
  shows "\<exists>i g' assigned. add_v pg reg checksum cuid spec g = Some ([i], g') \<and> valid g'
    \<and> assigned_display_name (display_names pg g) (requested_display_name reg spec) assigned
    \<and> node_references pg g' = node_references pg g @ [(i, node_of_spec reg checksum cuid spec assigned)]
    \<and> edge_references pg g' = edge_references pg g"
proof -
  obtain assigned where a: "disambiguate_display_name_within_graph pg g (requested_display_name reg spec) = Some assigned"
    "assigned_display_name (display_names pg g) (requested_display_name reg spec) assigned"
    using disambiguate_returns [of pg g "requested_display_name reg spec"] by blast
  define f :: "processor_node \<Rightarrow> processor_node" where "f = (\<lambda>n. n\<lparr>nd_state := Some (new_observable_state
    (if rg_port_info reg (sp_name spec) = None then Error else Pending))\<rparr>)"
  define n where "n = (case case rg_port_info reg (sp_name spec) of Some r \<Rightarrow> r | None \<Rightarrow> ([], []) of
    (inputs, outputs) \<Rightarrow> processor_node_new checksum cuid (sp_name spec) assigned (Some (sp_config spec)) inputs outputs)"
  have fn: "f n = node_of_spec reg checksum cuid spec assigned"
    by (simp add: f_def n_def node_of_spec_def split_def Let_def)
  obtain i g1 where an: "add_node pg n g = (i, g1)" by fastforce
  note add = add_node_law [OF v an]
  have "add_v pg reg checksum cuid spec g = Some ([i], node_weight_mut pg i f g1)"
    using a(1) an by (simp add: add_v_def requested_display_name_def [symmetric] split_def Let_def n_def f_def)
  moreover have "i \<notin> fst ` set (node_references pg g)"
    using node_indices_distinct [of g1] add by simp
  then have "map (\<lambda>(j, m). (j, if j = i then f m else m)) (node_references pg g) = node_references pg g"
    by (intro map_idI) force
  then have "node_references pg (node_weight_mut pg i f g1)
      = node_references pg g @ [(i, node_of_spec reg checksum cuid spec assigned)]"
    using node_weight_mut_law [of g1 i f] add fn by simp
  ultimately show ?thesis using node_weight_mut_law [of g1 i f] add a(2)
    by (intro exI [of _ i] exI [of _ "node_weight_mut pg i f g1"] exI [of _ assigned]) simp
qed

lemma graph_inv_new_node:
  assumes inv: "graph_inv pg valid g" and "valid g'" "edge_references pg g' = edge_references pg g"
    and nodes: "node_references pg g' = node_references pg g @ [(i, n)]"
    and fresh: "find_node pg (nd_id n) g = None" "CHR ''.'' \<notin> set (nd_id n)"
  shows "graph_inv pg valid g'"
    and "find_node pg q g' = (if q = nd_id n then Some n else find_node pg q g)"
    and "find_link pg l g' = find_link pg l g"
proof -
  have new: "nd_id m \<noteq> nd_id n" if "(j, m) \<in> set (node_references pg g)" for j m
    using fresh(1) that find_node_iff [OF inv, of "nd_id n" m] by auto
  have "edge_agrees (node_references pg g') x" if "x \<in> set (edge_references pg g)" for x
  proof (rule edge_agrees_mono [of "node_references pg g" x])
    show "edge_agrees (node_references pg g) x" using inv that by (simp add: graph_inv_def)
  qed (auto simp: nodes)
  moreover have "nd_id n \<notin> (\<lambda>x. nd_id (snd x)) ` set (node_references pg g)" using new by force
  ultimately show inv': "graph_inv pg valid g'"
    using inv assms(2,3) fresh(2) unfolding graph_inv_def by (simp add: nodes)
  show "find_node pg q g' = (if q = nd_id n then Some n else find_node pg q g)"
  proof (rule option_eq_by_some)
    fix v
    show "find_node pg q g' = Some v \<longleftrightarrow> (if q = nd_id n then Some n else find_node pg q g) = Some v"
      using new by (auto simp: find_node_iff [OF inv'] find_node_iff [OF inv] nodes)
  qed
  show "find_link pg l g' = find_link pg l g" by (rule find_link_same_edges [OF inv inv' assms(3)])
qed

lemma find_node_by_find:
  assumes inv: "graph_inv pg valid g"
  shows "find (\<lambda>x. nd_id (snd x) = p) (node_references pg g) = None \<Longrightarrow> find_node pg p g = None"
    and "find (\<lambda>x. nd_id (snd x) = p) (node_references pg g) = Some (i, n) \<Longrightarrow>
      find_node pg p g = Some n \<and> (i, n) \<in> set (node_references pg g) \<and> nd_id n = p"
proof -
  show "find_node pg p g = None" if "find (\<lambda>x. nd_id (snd x) = p) (node_references pg g) = None"
    using that by (simp add: find_node_def first_node_def vertex_def)
  assume "find (\<lambda>x. nd_id (snd x) = p) (node_references pg g) = Some (i, n)"
  moreover have "distinct (map (\<lambda>x. nd_id (snd x)) (node_references pg g))" using inv by (simp add: graph_inv_def)
  ultimately have "(i, n) \<in> set (node_references pg g) \<and> nd_id n = p"
    using find_by_key_iff [of "\<lambda>x. nd_id (snd x)" "node_references pg g" p "(i, n)"] by simp
  then show "find_node pg p g = Some n \<and> (i, n) \<in> set (node_references pg g) \<and> nd_id n = p"
    using find_node_iff [OF inv, of p n] by blast
qed

lemma graph_inv_new_edge:
  assumes inv: "graph_inv pg valid g" and "valid g'" "node_references pg g' = node_references pg g"
    and edges: "edge_references pg g' = edge_references pg g @ [(e, s, t, w)]"
    and fresh: "find_link pg (lk_id w) g = None"
    and agrees: "edge_agrees (node_references pg g) (e, s, t, w)"
  shows "graph_inv pg valid g'"
    and "find_node pg p g' = find_node pg p g"
    and "find_link pg l g' = (if l = lk_id w then Some w else find_link pg l g)"
proof -
  have new: "lk_id (edge_link x) \<noteq> lk_id w" if "x \<in> set (edge_references pg g)" for x
    using fresh that find_link_iff [OF inv, of "lk_id w" "edge_link x"] by auto
  have "distinct (map (\<lambda>x. lk_id (edge_link x)) (edge_references pg g'))"
    using inv new by (simp add: graph_inv_def edges) (metis imageE)
  then show inv': "graph_inv pg valid g'"
    using inv assms(2,3) agrees unfolding graph_inv_def by (simp add: edges)
  show "find_node pg p g' = find_node pg p g" by (rule find_node_same_nodes [OF inv inv' assms(3)])
  show "find_link pg l g' = (if l = lk_id w then Some w else find_link pg l g)"
  proof (rule option_eq_by_some)
    fix v
    have "(\<exists>x \<in> set (edge_references pg g'). edge_link x = v) \<longleftrightarrow>
        (\<exists>x \<in> set (edge_references pg g). edge_link x = v) \<or> v = w" by (auto simp: edges)
    moreover have "lk_id v \<noteq> lk_id w" if "\<exists>x \<in> set (edge_references pg g). edge_link x = v" using that new by blast
    ultimately show "find_link pg l g' = Some v \<longleftrightarrow> (if l = lk_id w then Some w else find_link pg l g) = Some v"
      unfolding find_link_iff [OF inv'] by (auto simp: find_link_iff [OF inv])
  qed
qed

lemma add_e_cases:
  assumes inv: "graph_inv pg valid g" and fresh: "find_link pg (''L'' @ cuid) g = None"
    and a: "add_e pg cuid from_ref to_ref g = (ixs, g')"
  obtains (refused) "ixs = []" "g' = g"
    "(case find_node pg (src_processor_id from_ref) g of Some n \<Rightarrow> \<not> has_output (src_port_name from_ref) n | None \<Rightarrow> True)
     \<or> (case find_node pg (dst_processor_id to_ref) g of Some n \<Rightarrow> \<not> has_input (dst_port_name to_ref) n | None \<Rightarrow> True)"
  | (added) e w where "ixs = [e]" "w = link_new cuid (output_ref_to_string from_ref) (input_ref_to_string to_ref)"
      "lk_source w = from_ref" "lk_target w = to_ref" "graph_inv pg valid g'" "edge_weight pg g' e = Some w"
      "\<And>p. find_node pg p g' = find_node pg p g"
      "\<And>l. find_link pg l g' = (if l = ''L'' @ cuid then Some w else find_link pg l g)"
proof -
  let ?find = "\<lambda>p. find (\<lambda>x. nd_id (snd x) = p) (node_references pg g)"
  note by_find = find_node_by_find [OF inv]
  show thesis
  proof (cases "?find (src_processor_id from_ref)")
    case None
    then show thesis using a by_find(1) [OF None] by (intro refused) (auto simp: add_e_def)
  next
    case F: (Some x)
    obtain s m where x: "x = (s, m)" by (cases x)
    note F = by_find(2) [OF F [unfolded x]] F [unfolded x]
    show thesis
    proof (cases "?find (dst_processor_id to_ref)")
      case None
      then show thesis using a by_find(1) [OF None] F by (intro refused) (auto simp: add_e_def)
    next
      case T: (Some y)
      obtain t n where y: "y = (t, n)" by (cases y)
      note T = by_find(2) [OF T [unfolded y]] T [unfolded y]
      show thesis
      proof (cases "has_output (src_port_name from_ref) m \<and> has_input (dst_port_name to_ref) n")
        case False
        then show thesis using a F T by (intro refused) (auto simp: add_e_def split: if_splits)
      next
        case True
        let ?w = "link_new cuid (output_ref_to_string from_ref) (input_ref_to_string to_ref)"
        obtain e g1 where ae: "add_edge pg s t ?w g = (e, g1)" by fastforce
        have law: "valid g1 \<and> node_references pg g1 = node_references pg g
            \<and> edge_references pg g1 = edge_references pg g @ [(e, s, t, ?w)]"
          using F T by (intro add_edge_law [OF inv_valid [OF inv] _ _ ae]) force+
        have dots: "CHR ''.'' \<notin> set (src_processor_id from_ref)" "CHR ''.'' \<notin> set (dst_processor_id to_ref)"
          using inv F(1) T(1) unfolding graph_inv_def by (metis snd_conv)+
        have "edge_agrees (node_references pg g) (e, s, t, ?w)"
          using F(1) T(1) by (auto simp: edge_agrees_def link_new_fields [OF dots])
        note new = graph_inv_new_edge [OF inv _ _ _ _ this, of g1]
        have "edge_weight pg g1 e = Some ?w" using law edge_weight_iff [of g1 e ?w] by auto
        moreover have "ixs = [e]" "g' = g1" using a F T True ae by (auto simp: add_e_def)
        ultimately show thesis using new law fresh
          by (intro added [of e ?w]) (simp_all add: link_new_fields [OF dots])
      qed
    qed
  qed
qed

end

text \<open>C25: adding a processor always comes back, whatever names the graph already holds, with the graph
  extended by exactly one node. Its display name is the requested one if no node answers to it, and
  otherwise the requested one with the least free ordinal from 2 on; the ordinal never exceeds the
  number of nodes by more than one, so the counter cannot overflow, and names that were pairwise
  different stay so. A class the registry does not know gives a node in the error state without
  ports.\<close>

theorem add_processor_node_names_it_uniquely:
  assumes "digraph pg valid" "valid g" "distinct (display_names pg g)"
  shows "\<exists>i g' assigned. add_v pg reg checksum cuid spec g = Some ([i], g') \<and> valid g'
    \<and> node_references pg g' = node_references pg g @ [(i, node_of_spec reg checksum cuid spec assigned)]
    \<and> edge_references pg g' = edge_references pg g
    \<and> assigned_display_name (display_names pg g) (requested_display_name reg spec) assigned
    \<and> distinct (display_names pg g')"
proof -
  obtain i g' assigned where a: "add_v pg reg checksum cuid spec g = Some ([i], g')" "valid g'"
    "assigned_display_name (display_names pg g) (requested_display_name reg spec) assigned"
    "node_references pg g' = node_references pg g @ [(i, node_of_spec reg checksum cuid spec assigned)]"
    "edge_references pg g' = edge_references pg g"
    using digraph.add_v_refs [OF assms(1,2)] by blast
  then have "display_names pg g' = display_names pg g @ [assigned]" by (simp add: display_names_def)
  moreover have "assigned \<notin> set (display_names pg g)" using a(3) by (simp add: assigned_display_name_def)
  ultimately show ?thesis using a assms(3) by (intro exI [of _ i] exI [of _ g'] exI [of _ assigned]) simp
qed

definition sample_registry :: processor_registry where
  "sample_registry =
     \<lparr>rg_port_info = (\<lambda>t. if t = ''app::Camera''
        then Some ([], [\<lparr>pi_name = ''video'', pi_description = '''', pi_kind = Data,
                         pi_delivery_profile = None, pi_audio_window = None\<rparr>])
        else if t = ''app::Display''
        then Some ([\<lparr>pi_name = ''frames'', pi_description = '''', pi_kind = Data,
                     pi_delivery_profile = Some ''newest'', pi_audio_window = None\<rparr>], [])
        else None),
      rg_default_display_name = (\<lambda>t. if t = ''app::Camera'' then Some ''Camera''
        else if t = ''app::Display'' then Some ''Display'' else None)\<rparr>"

definition sample_spec :: "string \<Rightarrow> processor_spec" where
  "sample_spec path = \<lparr>sp_name = path, sp_config = ''null'', sp_display_name = None\<rparr>"

definition sample_camera :: processor_node where
  "sample_camera = node_of_spec sample_registry (\<lambda>_. 0) ''a'' (sample_spec ''app::Camera'') ''Camera''"

definition sample_display :: processor_node where
  "sample_display = node_of_spec sample_registry (\<lambda>_. 0) ''b'' (sample_spec ''app::Display'') ''Display''"

definition one_camera :: list_digraph where
  "one_camera = \<lparr>lg_nodes = [sample_camera], lg_edges = []\<rparr>"

lemma one_camera_names: "display_names list_digraph_api one_camera = [''Camera'']"
  by (simp add: display_names_def list_digraph_api_def one_camera_def sample_camera_def)

theorem add_processor_node_names_it_uniquely_witness:
  "\<exists>i g'. add_v list_digraph_api sample_registry (\<lambda>_. 0) ''c'' (sample_spec ''app::Camera'') one_camera = Some ([i], g')
     \<and> display_names list_digraph_api g' = [''Camera'', ''Camera 2'']"
proof -
  have "list_digraph_valid one_camera" by (simp add: list_digraph_valid_def one_camera_def)
  moreover have "distinct (display_names list_digraph_api one_camera)" by (simp add: one_camera_names)
  ultimately obtain i g' assigned where
    a: "add_v list_digraph_api sample_registry (\<lambda>_. 0) ''c'' (sample_spec ''app::Camera'') one_camera = Some ([i], g')"
    and n: "node_references list_digraph_api g' = node_references list_digraph_api one_camera
      @ [(i, node_of_spec sample_registry (\<lambda>_. 0) ''c'' (sample_spec ''app::Camera'') assigned)]"
    and d: "assigned_display_name (display_names list_digraph_api one_camera)
      (requested_display_name sample_registry (sample_spec ''app::Camera'')) assigned"
    using add_processor_node_names_it_uniquely [OF ldg.digraph_axioms] by metis
  have "requested_display_name sample_registry (sample_spec ''app::Camera'') = ''Camera''"
    by (simp add: requested_display_name_def sample_spec_def default_display_name_for_def sample_registry_def)
  then obtain k where "k \<in> {2..Suc (Suc 0)}" "assigned = ordinal_candidate ''Camera'' k"
    using d by (auto simp: assigned_display_name_def one_camera_names)
  then have "k = 2" "assigned = ordinal_candidate ''Camera'' k" by auto
  moreover have "dec_string 2 = ''2''" by code_simp
  ultimately have "assigned = ''Camera 2''" by (simp add: ordinal_candidate_def)
  moreover have "display_names list_digraph_api g' = display_names list_digraph_api one_camera @ [assigned]"
    using n by (simp add: display_names_def)
  ultimately show ?thesis using a by (auto simp: one_camera_names)
qed

end
