(* ===== verification/Link_Wiring.thy ===== *)
theory Link_Wiring
  imports Processor_Graph
begin

text \<open>
  How a link of the processor graph becomes a channel
  (\<open>core/compiler/compiler_ops/open_iceoryx2_service_op.rs\<close>): the checks on the graph that refuse
  a link, the sizing every opener of a channel derives, and the marks left on the graph by opening and
  closing. The iceoryx2 services, and the ports of a processor instance they are handed to, are the
  record \<open>env\<close>: each call answers with an error or nothing. Sentences of refusals are left out.
\<close>

datatype port_direction = Input | Output

datatype graph_error =
  ProcessorNotFound string
| LinkNotFound string
| NotFound string
| GraphError string
| Runtime string
| UnknownProcessorType string
| ProcessorPortNotFound string string port_direction
| InvalidLink channel_name_error
| ChannelNameRefused string string channel_name_error
| AudioWindowRefused audio_window_error
| DeliveryProfileRefused string
| ConflictingDeliveryProfiles string string delivery_profile delivery_profile
| TooManyDestinations string string nat
| TooManyInboundLinks string nat
| SecondLinkIntoAWindowedPort string string string string
| InstanceMissing string
| NoLinkWiringEnvelope string string
| Reported string

record wiring_env =
  we_registry :: processor_registry
  we_out_of_process :: "string \<Rightarrow> bool"
  we_is_reactive :: "string \<Rightarrow> bool"
  we_has_mailboxes :: "string \<Rightarrow> bool"
  we_open_service :: "string \<Rightarrow> nat \<Rightarrow> nat \<Rightarrow> graph_error option"
  we_open_notify_service :: "string \<Rightarrow> nat \<Rightarrow> graph_error option"
  we_wire_port :: "port_direction \<Rightarrow> string \<Rightarrow> string \<Rightarrow> string \<Rightarrow> graph_error option"

definition MAX_DESTINATIONS_PER_CHANNEL :: nat where
  "MAX_DESTINATIONS_PER_CHANNEL = 8"

definition MAX_INBOUND_LINKS_PER_DESTINATION :: nat where
  "MAX_INBOUND_LINKS_PER_DESTINATION = 8"

definition RESERVED_TAP_SUBSCRIBER_SLOTS_PER_CHANNEL :: nat where
  "RESERVED_TAP_SUBSCRIBER_SLOTS_PER_CHANNEL = 1"

text \<open>An id between single quotes, as the messages print it.\<close>

definition quoted :: "string \<Rightarrow> string" where
  "quoted i = [CHR 0x27] @ i @ [CHR 0x27]"

definition not_found_message :: "string \<Rightarrow> string" where
  "not_found_message p = ''Processor '' @ quoted p @ '' not found''"

fun fails_with :: "graph_error option \<Rightarrow> graph_error + unit" where
  "fails_with None = Inr ()"
| "fails_with (Some e) = Inl e"

subsection \<open>What a channel feeds\<close>

definition channel_service_name :: "string \<Rightarrow> string \<Rightarrow> graph_error + string" where
  "channel_service_name p port =
     (case source_channel_name p port of
        Inr cname \<Rightarrow> Inr cname
      | Inl err \<Rightarrow> Inl (ChannelNameRefused p port err))"

definition notify_service_name_for :: "string \<Rightarrow> string" where
  "notify_service_name_for p = ''streamlib/'' @ p @ ''/notify''"

definition channel_destinations :: "'g digraph_api \<Rightarrow> string \<Rightarrow> string \<Rightarrow> 'g \<Rightarrow> (string \<times> string) list" where
  "channel_destinations pg p port g =
     map (\<lambda>w. (dst_processor_id (lk_target w), dst_port_name (lk_target w)))
       (filter (\<lambda>w. src_port_name (lk_source w) = port) (link_iter pg (out_e pg (vertex pg p g) g) g))"

definition channel_max_subscribers :: "'g digraph_api \<Rightarrow> string \<Rightarrow> string \<Rightarrow> 'g \<Rightarrow> graph_error + nat" where
  "channel_max_subscribers pg p port g =
     (let destinations = length (channel_destinations pg p port g)
      in if MAX_DESTINATIONS_PER_CHANNEL < destinations then Inl (TooManyDestinations p port destinations)
         else Inr (MAX_DESTINATIONS_PER_CHANNEL + RESERVED_TAP_SUBSCRIBER_SLOTS_PER_CHANNEL))"

definition registry_descriptors ::
    "processor_registry \<Rightarrow> string \<Rightarrow> (port_descriptor list \<times> port_descriptor list) option" where
  "registry_descriptors reg t =
     (let d = (\<lambda>p. \<lparr>port_name = pi_name p, port_delivery_profile = pi_delivery_profile p\<rparr>)
      in map_option (\<lambda>(inputs, outputs). (map d inputs, map d outputs)) (rg_port_info reg t))"

fun agree_on_a_profile ::
    "'g digraph_api \<Rightarrow> processor_registry \<Rightarrow> 'g \<Rightarrow> string \<Rightarrow> string \<Rightarrow> (string \<times> string) list \<Rightarrow>
      delivery_profile option \<Rightarrow> graph_error + delivery_profile option" where
  "agree_on_a_profile pg reg g p port [] agreed = Inr agreed"
| "agree_on_a_profile pg reg g p port ((dest, dest_port) # destinations) agreed =
     (case (case find_node pg dest g of
              Some n \<Rightarrow> delivery_profile_for_input_port (registry_descriptors reg) (nd_processor_type n) dest_port
            | None \<Rightarrow> Inr Newest) of
        Inl refusal \<Rightarrow> Inl (DeliveryProfileRefused refusal)
      | Inr profile \<Rightarrow>
          (case agreed of
             None \<Rightarrow> agree_on_a_profile pg reg g p port destinations (Some profile)
           | Some prev \<Rightarrow>
               if prev \<noteq> profile then Inl (ConflictingDeliveryProfiles p port prev profile)
               else agree_on_a_profile pg reg g p port destinations agreed))"

definition channel_delivery_profile ::
    "'g digraph_api \<Rightarrow> processor_registry \<Rightarrow> string \<Rightarrow> string \<Rightarrow> 'g \<Rightarrow> graph_error + delivery_profile" where
  "channel_delivery_profile pg reg p port g =
     and_then (agree_on_a_profile pg reg g p port (channel_destinations pg p port g) None) (\<lambda>agreed.
       Inr (case agreed of Some profile \<Rightarrow> profile | None \<Rightarrow> Newest))"

record channel_sizing =
  cz_max_subscribers :: nat
  cz_max_queued_messages :: nat
  cz_drain_order :: read_mode

definition resolve_channel_sizing ::
    "'g digraph_api \<Rightarrow> processor_registry \<Rightarrow> string \<Rightarrow> string \<Rightarrow> 'g \<Rightarrow> graph_error + channel_sizing" where
  "resolve_channel_sizing pg reg p port g =
     and_then (channel_delivery_profile pg reg p port g) (\<lambda>profile.
     and_then (channel_max_subscribers pg p port g) (\<lambda>max_subscribers.
       Inr \<lparr>cz_max_subscribers = max_subscribers,
            cz_max_queued_messages = depth (delivery_resolve profile),
            cz_drain_order = drain_order (delivery_resolve profile)\<rparr>))"

text \<open>The reverse lookup a tap uses: the first link whose source derives the name.\<close>

definition find_channel_source_port :: "'g digraph_api \<Rightarrow> string \<Rightarrow> 'g \<Rightarrow> (string \<times> string) option" where
  "find_channel_source_port pg cname g =
     map_option (\<lambda>w. (src_processor_id (lk_source w), src_port_name (lk_source w)))
       (find (\<lambda>w. source_channel_name (src_processor_id (lk_source w)) (src_port_name (lk_source w)) = Inr cname)
         (link_iter pg (edges pg g) g))"

definition destination_max_notifiers :: "'g digraph_api \<Rightarrow> string \<Rightarrow> 'g \<Rightarrow> graph_error + nat" where
  "destination_max_notifiers pg p g =
     (let inbound_links = length (link_iter pg (in_e pg (vertex pg p g) g) g)
      in if MAX_INBOUND_LINKS_PER_DESTINATION < inbound_links then Inl (TooManyInboundLinks p inbound_links)
         else Inr MAX_INBOUND_LINKS_PER_DESTINATION)"

subsection \<open>The ends of a link\<close>

definition get_single_processor :: "'g digraph_api \<Rightarrow> string \<Rightarrow> 'g \<Rightarrow> graph_error + unit" where
  "get_single_processor pg p g =
     (case find_node pg p g of
        Some n \<Rightarrow> if nd_instance n then Inr () else Inl (InstanceMissing p)
      | None \<Rightarrow> Inl (InstanceMissing p))"

definition is_subprocess_processor :: "'g digraph_api \<Rightarrow> wiring_env \<Rightarrow> string \<Rightarrow> 'g \<Rightarrow> bool" where
  "is_subprocess_processor pg env p g =
     (case find_node pg p g of
        Some n \<Rightarrow> nd_subprocess_handle n \<or> nd_instance n \<and> we_out_of_process env p
      | None \<Rightarrow> False)"

definition destination_consumes_notifications ::
    "'g digraph_api \<Rightarrow> wiring_env \<Rightarrow> string \<Rightarrow> bool \<Rightarrow> 'g \<Rightarrow> bool" where
  "destination_consumes_notifications pg env p is_subprocess g =
     (if is_subprocess then True
      else case get_single_processor pg p g of Inr _ \<Rightarrow> we_is_reactive env p | Inl _ \<Rightarrow> True)"

definition audio_windowing_declared_by_input_port_of ::
    "'g digraph_api \<Rightarrow> processor_registry \<Rightarrow> string \<Rightarrow> string \<Rightarrow> 'g \<Rightarrow>
      graph_error + audio_window_declaration_of_an_input_port option" where
  "audio_windowing_declared_by_input_port_of pg reg p port g =
     (case find_node pg p g of
        None \<Rightarrow> Inr None
      | Some n \<Rightarrow>
          (case audio_windowing_declared_by_input_port
                  (\<lambda>t. map_option (\<lambda>ports. map (\<lambda>q. (pi_name q, pi_audio_window q)) (fst ports)) (rg_port_info reg t))
                  (nd_processor_type n) port of
             Inr declared \<Rightarrow> Inr declared
           | Inl err \<Rightarrow> Inl (AudioWindowRefused err)))"

definition on_its_way_out :: "link \<Rightarrow> bool" where
  "on_its_way_out w \<longleftrightarrow>
     lk_state_component w \<in> {Some LinkDisconnecting, Some LinkDisconnected, Some LinkError}"

definition refuse_a_second_inbound_link_into_a_windowed_port ::
    "'g digraph_api \<Rightarrow> string \<Rightarrow> string \<Rightarrow> string \<Rightarrow> 'g \<Rightarrow> graph_error + unit" where
  "refuse_a_second_inbound_link_into_a_windowed_port pg p port l g =
     (case find (\<lambda>w. dst_port_name (lk_target w) = port \<and> \<not> on_its_way_out w \<and> lk_id w \<noteq> l)
             (link_iter pg (in_e pg (vertex pg p g) g) g) of
        None \<Rightarrow> Inr ()
      | Some first \<Rightarrow> Inl (SecondLinkIntoAWindowedPort port p (lk_id first) l))"

definition wire_subprocess_source ::
    "'g digraph_api \<Rightarrow> wiring_env \<Rightarrow> string \<Rightarrow> string \<Rightarrow> string \<Rightarrow> 'g \<Rightarrow> graph_error + unit" where
  "wire_subprocess_source pg env p port l g =
     and_then (get_single_processor pg p g) (\<lambda>_.
       if \<not> we_out_of_process env p then Inl (NoLinkWiringEnvelope p port)
       else fails_with (we_wire_port env Output p port l))"

definition wire_rust_source ::
    "'g digraph_api \<Rightarrow> wiring_env \<Rightarrow> string \<Rightarrow> string \<Rightarrow> string \<Rightarrow> 'g \<Rightarrow> graph_error + unit" where
  "wire_rust_source pg env p port l g =
     and_then (get_single_processor pg p g) (\<lambda>_. fails_with (we_wire_port env Output p port l))"

definition wire_subprocess_dest ::
    "'g digraph_api \<Rightarrow> wiring_env \<Rightarrow> string \<Rightarrow> string \<Rightarrow> string \<Rightarrow>
      audio_window_declaration_of_an_input_port option \<Rightarrow> 'g \<Rightarrow> graph_error + unit" where
  "wire_subprocess_dest pg env p port l windowing g =
     (if windowing = Some MatchesItsProcessorsDeviceStream
      then (case find_node pg p g of
              Some n \<Rightarrow> Inl (AudioWindowRefused (refuse_an_unsettled_match_device_sentinel (nd_processor_type n) port))
            | None \<Rightarrow> Inl (ProcessorNotFound (not_found_message p)))
      else and_then (get_single_processor pg p g) (\<lambda>_.
        if \<not> we_out_of_process env p then Inl (NoLinkWiringEnvelope p port)
        else fails_with (we_wire_port env Input p port l)))"

text \<open>The counts and the settled contracts are shared onto the node with its first inbound link.\<close>

definition publish_dropped_bag_counts_on_destination_node :: "'g digraph_api \<Rightarrow> string \<Rightarrow> 'g \<Rightarrow> 'g" where
  "publish_dropped_bag_counts_on_destination_node pg p g = update_node pg p (\<lambda>n. n\<lparr>nd_metrics := True\<rparr>) g"

definition publish_device_matched_audio_window_contracts_on_destination_node ::
    "'g digraph_api \<Rightarrow> string \<Rightarrow> 'g \<Rightarrow> 'g" where
  "publish_device_matched_audio_window_contracts_on_destination_node pg p g =
     update_node pg p (\<lambda>n. n\<lparr>nd_window_contracts := True\<rparr>) g"

definition wire_rust_dest ::
    "'g digraph_api \<Rightarrow> wiring_env \<Rightarrow> string \<Rightarrow> string \<Rightarrow> string \<Rightarrow> 'g \<Rightarrow> graph_error + 'g" where
  "wire_rust_dest pg env p port l g =
     and_then (get_single_processor pg p g) (\<lambda>_.
       if \<not> we_has_mailboxes env p then Inr g
       else and_then (fails_with (we_wire_port env Input p port l)) (\<lambda>_.
         Inr (publish_device_matched_audio_window_contracts_on_destination_node pg p
                (publish_dropped_bag_counts_on_destination_node pg p g))))"

subsection \<open>Opening and closing\<close>

definition open_checks ::
    "'g digraph_api \<Rightarrow> wiring_env \<Rightarrow> string \<Rightarrow> link \<Rightarrow> 'g \<Rightarrow>
      graph_error + audio_window_declaration_of_an_input_port option" where
  "open_checks pg env l w g =
     (let source = src_processor_id (lk_source w); source_port = src_port_name (lk_source w);
          dest = dst_processor_id (lk_target w); dest_port = dst_port_name (lk_target w)
      in and_then (audio_windowing_declared_by_input_port_of pg (we_registry env) dest dest_port g) (\<lambda>windowing.
         and_then (if windowing = None then Inr ()
                   else refuse_a_second_inbound_link_into_a_windowed_port pg dest dest_port l g) (\<lambda>_.
         and_then (channel_service_name source source_port) (\<lambda>cname.
         and_then (resolve_channel_sizing pg (we_registry env) source source_port g) (\<lambda>sizing.
         and_then (destination_max_notifiers pg dest g) (\<lambda>max_notifiers.
         and_then (fails_with (we_open_service env cname (cz_max_subscribers sizing) (cz_max_queued_messages sizing))) (\<lambda>_.
         and_then (if destination_consumes_notifications pg env dest (is_subprocess_processor pg env dest g) g
                   then fails_with (we_open_notify_service env (notify_service_name_for dest) max_notifiers)
                   else Inr ()) (\<lambda>_.
           Inr windowing))))))))"

definition open_iceoryx2_service ::
    "'g digraph_api \<Rightarrow> wiring_env \<Rightarrow> string \<Rightarrow> 'g \<Rightarrow> graph_error + 'g" where
  "open_iceoryx2_service pg env l g =
     (case find_link pg l g of
        None \<Rightarrow> Inl (LinkNotFound (''Link '' @ quoted l @ '' not found in graph''))
      | Some w \<Rightarrow>
          (let source = src_processor_id (lk_source w); source_port = src_port_name (lk_source w);
               dest = dst_processor_id (lk_target w); dest_port = dst_port_name (lk_target w)
           in and_then (open_checks pg env l w g) (\<lambda>windowing.
              and_then (if is_subprocess_processor pg env source g
                        then wire_subprocess_source pg env source source_port l g
                        else wire_rust_source pg env source source_port l g) (\<lambda>_.
              and_then (if is_subprocess_processor pg env dest g
                        then and_then (wire_subprocess_dest pg env dest dest_port l windowing g) (\<lambda>_. Inr g)
                        else wire_rust_dest pg env dest dest_port l g) (\<lambda>g'.
                if traversal_exists (edge pg l g')
                then Inr (update_link pg l (\<lambda>w. w\<lparr>lk_state_component := Some LinkWired\<rparr>) g')
                else Inl (LinkNotFound l))))))"

text \<open>Reclaiming the ports touches no part of the graph; a failure there is only logged.\<close>

definition close_iceoryx2_service :: "'g digraph_api \<Rightarrow> string \<Rightarrow> 'g \<Rightarrow> 'g" where
  "close_iceoryx2_service pg l g =
     (if traversal_exists (edge pg l g)
      then update_link pg l (\<lambda>w. w\<lparr>lk_state_component := Some LinkDisconnected\<rparr>) g
      else g)"

end
