(* ===== verification/Graph_Compiler.thy ===== *)
theory Graph_Compiler
  imports Link_Wiring
begin

text \<open>
  The graph compiler (\<open>core/compiler/\<close>): the log of pending operations, the plan a commit makes of
  it, and the phases that carry the plan out: removals, PREPARE, SPAWN, READY, WIRE, CONTINUE and
  configuration updates; and the runtime's operations that feed the log
  (\<open>core/runtime/operations_runtime.rs\<close>, \<open>runtime.rs\<close>).

  A commit holds the commit gate throughout and takes the lock of the graph piecewise. What other
  threads do to the graph while it is not held is the function \<open>ce_others\<close>, applied at every
  acquisition with the number of the acquisition. Creating an instance, starting a thread and applying
  a configuration are answers of the record \<open>env\<close>, as are the services of \<open>Link_Wiring\<close>. Joining
  a thread or a child process has no effect on the graph beyond what other threads do. Events
  are recorded in the order they are published; log lines are left out.
\<close>

subsection \<open>Pending operations\<close>

datatype pending_operation =
  AddProcessor string
| RemoveProcessor string
| AddLink string
| RemoveLink string
| UpdateProcessorConfig string

fun op_processor_id :: "pending_operation \<Rightarrow> string option" where
  "op_processor_id (AddProcessor p) = Some p"
| "op_processor_id (RemoveProcessor p) = Some p"
| "op_processor_id (UpdateProcessorConfig p) = Some p"
| "op_processor_id _ = None"

fun op_link_id :: "pending_operation \<Rightarrow> string option" where
  "op_link_id (AddLink l) = Some l"
| "op_link_id (RemoveLink l) = Some l"
| "op_link_id _ = None"

fun is_add :: "pending_operation \<Rightarrow> bool" where
  "is_add (AddProcessor _) = True"
| "is_add (AddLink _) = True"
| "is_add _ = False"

fun is_remove :: "pending_operation \<Rightarrow> bool" where
  "is_remove (RemoveProcessor _) = True"
| "is_remove (RemoveLink _) = True"
| "is_remove _ = False"

definition remove_processor_operations :: "string \<Rightarrow> pending_operation list \<Rightarrow> pending_operation list" where
  "remove_processor_operations p ops = filter (\<lambda>op. op_processor_id op \<noteq> Some p) ops"

definition remove_link_operations :: "string \<Rightarrow> pending_operation list \<Rightarrow> pending_operation list" where
  "remove_link_operations l ops = filter (\<lambda>op. op_link_id op \<noteq> Some l) ops"

subsection \<open>The plan\<close>

record compilation_plan =
  processors_to_add :: "string list"
  processors_to_remove :: "string list"
  links_to_add :: "string list"
  links_to_remove :: "string list"
  config_updates :: "string list"

definition empty_plan :: compilation_plan where
  "empty_plan = \<lparr>processors_to_add = [], processors_to_remove = [], links_to_add = [],
     links_to_remove = [], config_updates = []\<rparr>"

definition plan_is_empty :: "compilation_plan \<Rightarrow> bool" where
  "plan_is_empty plan \<longleftrightarrow> processors_to_add plan = [] \<and> processors_to_remove plan = []
     \<and> links_to_add plan = [] \<and> links_to_remove plan = [] \<and> config_updates plan = []"

definition drop_link_adds_into_removed_processors ::
    "'g digraph_api \<Rightarrow> 'g \<Rightarrow> compilation_plan \<Rightarrow> compilation_plan" where
  "drop_link_adds_into_removed_processors pg g plan =
     (if processors_to_remove plan = [] \<or> links_to_add plan = [] then plan
      else plan\<lparr>links_to_add := filter (\<lambda>l.
        case find_link pg l g of
          None \<Rightarrow> False
        | Some w \<Rightarrow>
            (let source_removed = src_processor_id (lk_source w) \<in> set (processors_to_remove plan);
                 target_removed = dst_processor_id (lk_target w) \<in> set (processors_to_remove plan)
             in \<not> (source_removed \<or> target_removed))) (links_to_add plan)\<rparr>)"

subsection \<open>Results and events\<close>

record compile_result =
  processors_created :: nat
  processors_removed :: nat
  links_wired :: nat
  links_unwired :: nat
  configs_updated :: nat

definition empty_result :: compile_result where
  "empty_result = \<lparr>processors_created = 0, processors_removed = 0, links_wired = 0, links_unwired = 0,
     configs_updated = 0\<rparr>"

definition has_changes :: "compile_result \<Rightarrow> bool" where
  "has_changes r \<longleftrightarrow> 0 < processors_created r \<or> 0 < processors_removed r \<or> 0 < links_wired r
     \<or> 0 < links_unwired r \<or> 0 < configs_updated r"

datatype runtime_event =
  CompilerWillCompile
| CompilerDidCompile
| CompilerWillUnwireLink string string string
| CompilerDidUnwireLink string string string
| CompilerWillDestroyProcessor string
| CompilerDidDestroyProcessor string
| CompilerWillCreateProcessor string string
| CompilerDidCreateProcessor string string
| CompilerWillWireLink string string string
| CompilerDidWireLink string string string
| RuntimeWillAddProcessor string
| RuntimeDidAddProcessor string
| RuntimeWillRemoveProcessor string
| RuntimeDidRemoveProcessor string
| RuntimeWillConnect string string string string
| RuntimeDidConnect string string string
| RuntimeWillDisconnect string string string
| RuntimeDidDisconnect string string string
| ProcessorConfigDidChange string
| GraphDidChange

subsection \<open>A commit under way\<close>

record 'g compiler_env =
  ce_wiring :: wiring_env
  ce_create :: "processor_node \<Rightarrow> graph_error option"
  ce_spawn_thread :: "string \<Rightarrow> graph_error option"
  ce_ready :: "string \<Rightarrow> bool"
  ce_apply_config :: "string \<Rightarrow> string \<Rightarrow> graph_error option"
  ce_others :: "nat \<Rightarrow> 'g \<Rightarrow> 'g"
  ce_now :: nat

record 'g commit_state =
  cs_graph :: 'g
  cs_acquisitions :: nat
  cs_compiled_at :: "nat option"
  cs_result :: compile_result
  cs_events :: "runtime_event list"

type_synonym 'g commit_step = "'g commit_state \<Rightarrow> (graph_error + unit) \<times> 'g commit_state"

definition acquire_lock :: "'g compiler_env \<Rightarrow> 'g commit_state \<Rightarrow> 'g commit_state" where
  "acquire_lock env s = s\<lparr>cs_graph := ce_others env (cs_acquisitions s) (cs_graph s),
     cs_acquisitions := Suc (cs_acquisitions s)\<rparr>"

definition publish :: "runtime_event \<Rightarrow> 'g commit_state \<Rightarrow> 'g commit_state" where
  "publish event s = s\<lparr>cs_events := cs_events s @ [event]\<rparr>"

definition tally :: "(compile_result \<Rightarrow> compile_result) \<Rightarrow> 'g commit_state \<Rightarrow> 'g commit_state" where
  "tally f s = s\<lparr>cs_result := f (cs_result s)\<rparr>"

definition on_graph :: "('g \<Rightarrow> 'g) \<Rightarrow> 'g commit_state \<Rightarrow> 'g commit_state" where
  "on_graph f s = s\<lparr>cs_graph := f (cs_graph s)\<rparr>"

definition succeed :: "'g commit_step" where
  "succeed s = (Inr (), s)"

definition raise :: "graph_error \<Rightarrow> 'g commit_step" where
  "raise e s = (Inl e, s)"

definition and_then_step :: "'g commit_step \<Rightarrow> 'g commit_step \<Rightarrow> 'g commit_step" where
  "and_then_step f h s = (case f s of (Inl e, s') \<Rightarrow> (Inl e, s') | (Inr _, s') \<Rightarrow> h s')"

fun for_each :: "('a \<Rightarrow> 'g commit_step) \<Rightarrow> 'a list \<Rightarrow> 'g commit_step" where
  "for_each f [] = succeed"
| "for_each f (x # xs) = and_then_step (f x) (for_each f xs)"

subsection \<open>Sorting the operations\<close>

fun categorise ::
    "'g digraph_api \<Rightarrow> 'g compiler_env \<Rightarrow> pending_operation \<Rightarrow> compilation_plan \<times> 'g commit_state \<Rightarrow>
      compilation_plan \<times> 'g commit_state" where
  "categorise pg env (AddProcessor p) (plan, s) =
     (let s = acquire_lock env s;
          exists = traversal_exists (vertex pg p (cs_graph s));
          running = (case find_node pg p (cs_graph s) of Some n \<Rightarrow> nd_instance n | None \<Rightarrow> False);
          pending_deletion = (case find_node pg p (cs_graph s) of Some n \<Rightarrow> nd_pending_deletion n | None \<Rightarrow> False)
      in (if pending_deletion then plan
          else if exists \<and> \<not> running then plan\<lparr>processors_to_add := processors_to_add plan @ [p]\<rparr>
          else plan, s))"
| "categorise pg env (RemoveProcessor p) (plan, s) =
     (plan\<lparr>processors_to_remove := processors_to_remove plan @ [p]\<rparr>, s)"
| "categorise pg env (AddLink l) (plan, s) =
     (let s = acquire_lock env s;
          found = find_link pg l (cs_graph s);
          wired = (case found of Some w \<Rightarrow> lk_state_component w = Some LinkWired | None \<Rightarrow> False);
          pending_deletion = (case found of Some w \<Rightarrow> lk_pending_deletion w | None \<Rightarrow> False)
      in (if pending_deletion then plan
          else if found \<noteq> None \<and> \<not> wired then plan\<lparr>links_to_add := links_to_add plan @ [l]\<rparr>
          else plan, s))"
| "categorise pg env (RemoveLink l) (plan, s) =
     (plan\<lparr>links_to_remove := links_to_remove plan @ [l]\<rparr>, s)"
| "categorise pg env (UpdateProcessorConfig p) (plan, s) =
     (plan\<lparr>config_updates := config_updates plan @ [p]\<rparr>, s)"

definition make_plan ::
    "'g digraph_api \<Rightarrow> 'g compiler_env \<Rightarrow> pending_operation list \<Rightarrow> 'g commit_state \<Rightarrow>
      compilation_plan \<times> 'g commit_state" where
  "make_plan pg env ops s =
     (let (plan, s) = fold (categorise pg env) ops (empty_plan, s);
          s = acquire_lock env s
      in (drop_link_adds_into_removed_processors pg (cs_graph s) plan, s))"

subsection \<open>Removals\<close>

text \<open>Each definition ending in \<open>_locked\<close> is what happens under one acquisition of the lock.\<close>

definition unwire_link_locked :: "'g digraph_api \<Rightarrow> string \<Rightarrow> 'g commit_state \<Rightarrow> 'g commit_state" where
  "unwire_link_locked pg l s =
     (let g = cs_graph s
      in case first_link pg (filter_links pg (\<lambda>w. lk_id w = l) (edges pg g) g) g of
           None \<Rightarrow> s
         | Some w \<Rightarrow>
             (let from_port = output_ref_to_string (lk_source w); to_port = input_ref_to_string (lk_target w);
                  s = publish (CompilerWillUnwireLink l from_port to_port) s;
                  s = on_graph (close_iceoryx2_service pg l) s;
                  s = publish (CompilerDidUnwireLink l from_port to_port) s
              in tally (\<lambda>r. r\<lparr>links_unwired := links_unwired r + 1\<rparr>) s))"

definition drop_link_locked :: "'g digraph_api \<Rightarrow> string \<Rightarrow> 'g commit_step" where
  "drop_link_locked pg l s =
     (let (kept, g) = drop_link pg l (cs_graph s);
          s = s\<lparr>cs_graph := g\<rparr>
      in if traversal_exists kept then raise (GraphError ''value was not dropped'') s else succeed s)"

definition remove_link :: "'g digraph_api \<Rightarrow> 'g compiler_env \<Rightarrow> string \<Rightarrow> 'g commit_step" where
  "remove_link pg env l s =
     drop_link_locked pg l (acquire_lock env (unwire_link_locked pg l (acquire_lock env s)))"

definition stop_processor :: "processor_node \<Rightarrow> processor_node" where
  "stop_processor n = n\<lparr>nd_state := map_option (transition_to Stopping) (nd_state n),
     nd_shutdown_channel := map_option (\<lambda>_. True) (nd_shutdown_channel n),
     nd_thread_handle := False, nd_subprocess_handle := False\<rparr>"

definition mark_stopped :: "processor_node \<Rightarrow> processor_node" where
  "mark_stopped n = n\<lparr>nd_state := map_option (transition_to Stopped) (nd_state n)\<rparr>"

definition drop_processor_locked :: "'g digraph_api \<Rightarrow> string \<Rightarrow> 'g commit_step" where
  "drop_processor_locked pg p s =
     (let (kept, g) = drop_node pg p (update_node pg p mark_stopped (cs_graph s));
          s = s\<lparr>cs_graph := g\<rparr>
      in if traversal_exists kept then raise (GraphError ''value was not dropped'') s
         else succeed (tally (\<lambda>r. r\<lparr>processors_removed := processors_removed r + 1\<rparr>)
                (publish (CompilerDidDestroyProcessor p) s)))"

definition destroy_processor :: "'g digraph_api \<Rightarrow> 'g compiler_env \<Rightarrow> string \<Rightarrow> 'g commit_step" where
  "destroy_processor pg env p s =
     (let s = acquire_lock env (publish (CompilerWillDestroyProcessor p) s);
          s = on_graph (update_node pg p stop_processor) s
      in drop_processor_locked pg p (acquire_lock env s))"

subsection \<open>Prepare and spawn\<close>

definition prepare_node :: "processor_node \<Rightarrow> processor_node" where
  "prepare_node n = n\<lparr>nd_ready_barrier := True, nd_shutdown_channel := Some False,
     nd_pause_gate := Some False, nd_state := map_option (transition_to Idle) (nd_state n)\<rparr>"

definition prepare_processor :: "'g digraph_api \<Rightarrow> string \<Rightarrow> 'g \<Rightarrow> graph_error + 'g" where
  "prepare_processor pg p g =
     (if traversal_exists (vertex pg p g) then Inr (update_node pg p prepare_node g)
      else Inl (ProcessorNotFound (not_found_message p)))"

definition prepare_locked :: "'g digraph_api \<Rightarrow> string \<Rightarrow> 'g commit_step" where
  "prepare_locked pg p s =
     (case find_node pg p (cs_graph s) of
        None \<Rightarrow> raise (ProcessorNotFound (not_found_message p)) s
      | Some n \<Rightarrow>
          (let s = publish (CompilerWillCreateProcessor p (nd_processor_type n)) s
           in case prepare_processor pg p (cs_graph s) of
                Inl e \<Rightarrow> raise e s
              | Inr g \<Rightarrow> succeed (tally (\<lambda>r. r\<lparr>processors_created := processors_created r + 1\<rparr>)
                  (publish (CompilerDidCreateProcessor p (nd_processor_type n)) (s\<lparr>cs_graph := g\<rparr>)))))"

definition prepare_step :: "'g digraph_api \<Rightarrow> 'g compiler_env \<Rightarrow> string \<Rightarrow> 'g commit_step" where
  "prepare_step pg env p s = prepare_locked pg p (acquire_lock env s)"

text \<open>\<open>spawn_processor\<close> with \<open>spawn_dedicated_thread\<close>.\<close>

definition already_running_locked :: "'g digraph_api \<Rightarrow> string \<Rightarrow> 'g commit_state \<Rightarrow> bool" where
  "already_running_locked pg p s =
     (case find_node pg p (cs_graph s) of
        Some n \<Rightarrow> nd_thread_handle n \<or> nd_subprocess_handle n | None \<Rightarrow> False)"

definition take_barrier_locked :: "'g digraph_api \<Rightarrow> string \<Rightarrow> 'g commit_step" where
  "take_barrier_locked pg p s =
     (case find_node pg p (cs_graph s) of
        None \<Rightarrow> raise (ProcessorNotFound (not_found_message p)) s
      | Some n \<Rightarrow>
          if \<not> nd_ready_barrier n then raise (Runtime (''Processor '' @ quoted p @ '' has no ProcessorReadyBarrierComponent'')) s
          else succeed (on_graph (update_node pg p (\<lambda>n. n\<lparr>nd_ready_barrier := False\<rparr>)) s))"

definition read_strategy_locked :: "'g digraph_api \<Rightarrow> string \<Rightarrow> 'g commit_step" where
  "read_strategy_locked pg p s =
     (case find_node pg p (cs_graph s) of
        None \<Rightarrow> raise (ProcessorNotFound (not_found_message p)) s
      | Some n \<Rightarrow> succeed s)"

definition create_instance_locked :: "'g digraph_api \<Rightarrow> 'g compiler_env \<Rightarrow> string \<Rightarrow> 'g commit_step" where
  "create_instance_locked pg env p s =
     (case find_node pg p (cs_graph s) of
        None \<Rightarrow> raise (ProcessorNotFound (not_found_message p)) s
      | Some n \<Rightarrow> (case ce_create env n of Some e \<Rightarrow> raise e s | None \<Rightarrow> succeed s))"

definition attach_thread_handle_locked :: "'g digraph_api \<Rightarrow> string \<Rightarrow> 'g commit_step" where
  "attach_thread_handle_locked pg p s =
     (case find_node pg p (cs_graph s) of
        None \<Rightarrow> raise (ProcessorNotFound (not_found_message p)) s
      | Some n \<Rightarrow> succeed (on_graph (update_node pg p (\<lambda>n. n\<lparr>nd_thread_handle := True\<rparr>)) s))"

definition spawn_dedicated_thread :: "'g digraph_api \<Rightarrow> 'g compiler_env \<Rightarrow> string \<Rightarrow> 'g commit_step" where
  "spawn_dedicated_thread pg env p =
     and_then_step (\<lambda>s. create_instance_locked pg env p (acquire_lock env s))
       (\<lambda>s. case ce_spawn_thread env p of
              Some e \<Rightarrow> raise e s
            | None \<Rightarrow> attach_thread_handle_locked pg p (acquire_lock env s))"

definition spawn_processor :: "'g digraph_api \<Rightarrow> 'g compiler_env \<Rightarrow> string \<Rightarrow> 'g commit_step" where
  "spawn_processor pg env p s =
     (let s = acquire_lock env s
      in if already_running_locked pg p s then succeed s
         else and_then_step (\<lambda>s. take_barrier_locked pg p (acquire_lock env (acquire_lock env s)))
             (and_then_step (\<lambda>s. read_strategy_locked pg p (acquire_lock env s)) (spawn_dedicated_thread pg env p)) s)"

text \<open>
  The thread of a processor attaches the instance under the lock and only then signals READY; by
  the time the compiler has received the signal, it has done so. A thread that dies before it
  signals drops its end of the channel: the compiler logs a warning and goes on. \<open>ce_ready\<close> tells
  which threads live to signal.
\<close>

definition attach_instance :: "'g digraph_api \<Rightarrow> string \<Rightarrow> 'g \<Rightarrow> 'g" where
  "attach_instance pg p g = update_node pg p (\<lambda>n. if nd_thread_handle n then n\<lparr>nd_instance := True\<rparr> else n) g"

definition await_ready :: "'g digraph_api \<Rightarrow> 'g compiler_env \<Rightarrow> string \<Rightarrow> 'g commit_step" where
  "await_ready pg env p s =
     (let s = acquire_lock env s
      in if ce_ready env p then succeed (on_graph (attach_instance pg p) s) else succeed s)"

subsection \<open>Wiring and configuration\<close>

definition wire_locked :: "'g digraph_api \<Rightarrow> 'g compiler_env \<Rightarrow> string \<Rightarrow> 'g commit_step" where
  "wire_locked pg env l s =
     (case find_link pg l (cs_graph s) of
        None \<Rightarrow> raise (LinkNotFound (''Link '' @ quoted l @ '' not found'')) s
      | Some w \<Rightarrow>
          (let from_port = output_ref_to_string (lk_source w); to_port = input_ref_to_string (lk_target w);
               s = publish (CompilerWillWireLink l from_port to_port) s
           in case open_iceoryx2_service pg (ce_wiring env) l (cs_graph s) of
                Inl e \<Rightarrow> raise e s
              | Inr g \<Rightarrow> succeed (tally (\<lambda>r. r\<lparr>links_wired := links_wired r + 1\<rparr>)
                  (publish (CompilerDidWireLink l from_port to_port) (s\<lparr>cs_graph := g\<rparr>)))))"

definition wire_step :: "'g digraph_api \<Rightarrow> 'g compiler_env \<Rightarrow> string \<Rightarrow> 'g commit_step" where
  "wire_step pg env l s = wire_locked pg env l (acquire_lock env s)"

definition config_not_found_message :: "string \<Rightarrow> string" where
  "config_not_found_message p = ''Processor '' @ quoted p @ '' not found for config update''"

text \<open>The instance is called with the lock released; the graph stays as it was read.\<close>

definition config_locked :: "'g digraph_api \<Rightarrow> 'g compiler_env \<Rightarrow> string \<Rightarrow> 'g commit_step" where
  "config_locked pg env p s =
     (case find_node pg p (cs_graph s) of
        None \<Rightarrow> succeed s
      | Some n \<Rightarrow>
          (case nd_config n of
             None \<Rightarrow> succeed s
           | Some config \<Rightarrow>
               if \<not> nd_instance n then raise (ProcessorNotFound (config_not_found_message p)) s
               else (case ce_apply_config env p config of
                       Some e \<Rightarrow> raise e s
                     | None \<Rightarrow> succeed (tally (\<lambda>r. r\<lparr>configs_updated := configs_updated r + 1\<rparr>) s))))"

definition config_step :: "'g digraph_api \<Rightarrow> 'g compiler_env \<Rightarrow> string \<Rightarrow> 'g commit_step" where
  "config_step pg env p s = config_locked pg env p (acquire_lock env s)"

subsection \<open>Compiling a batch\<close>

definition carry_out :: "'g digraph_api \<Rightarrow> 'g compiler_env \<Rightarrow> compilation_plan \<Rightarrow> 'g commit_step" where
  "carry_out pg env plan =
     and_then_step (for_each (remove_link pg env) (links_to_remove plan))
     (and_then_step (for_each (destroy_processor pg env) (processors_to_remove plan))
     (and_then_step (for_each (prepare_step pg env) (processors_to_add plan))
     (and_then_step (for_each (spawn_processor pg env) (processors_to_add plan))
     (and_then_step (for_each (await_ready pg env) (processors_to_add plan))
     (and_then_step (for_each (wire_step pg env) (links_to_add plan))
     (and_then_step (for_each (config_step pg env) (config_updates plan))
       (\<lambda>s. succeed (publish CompilerDidCompile ((acquire_lock env s)\<lparr>cs_compiled_at := Some (ce_now env)\<rparr>)))))))))"

definition compile :: "'g digraph_api \<Rightarrow> 'g compiler_env \<Rightarrow> pending_operation list \<Rightarrow> 'g commit_step" where
  "compile pg env ops s =
     (let (plan, s) = make_plan pg env ops (s\<lparr>cs_result := empty_result\<rparr>)
      in if plan_is_empty plan then succeed s
         else carry_out pg env plan (publish CompilerWillCompile s))"

text \<open>The runner: the log of operations not yet committed, and the state a commit works on.\<close>

type_synonym 'g runner = "pending_operation list \<times> 'g commit_state"

definition commit :: "'g digraph_api \<Rightarrow> 'g compiler_env \<Rightarrow> 'g runner \<Rightarrow> (graph_error + unit) \<times> 'g runner" where
  "commit pg env r =
     (let (ops, s) = r
      in if ops = [] then (Inr (), [], s)
         else (case compile pg env ops s of (result, s') \<Rightarrow> (result, [], s')))"

subsection \<open>The operations of the runtime\<close>

text \<open>
  What an operation does inside the compiler's scope, under the lock: it changes the graph and
  logs what is left to do. \<open>None\<close> would be a search for a display name that never ends.
\<close>

definition log_op :: "pending_operation \<Rightarrow> 'g runner \<Rightarrow> 'g runner" where
  "log_op op r = (fst r @ [op], snd r)"

definition emit :: "runtime_event \<Rightarrow> 'g runner \<Rightarrow> 'g runner" where
  "emit event r = (fst r, publish event (snd r))"

definition change_graph :: "('g \<Rightarrow> 'g) \<Rightarrow> 'g runner \<Rightarrow> 'g runner" where
  "change_graph f r = (fst r, on_graph f (snd r))"

definition runner_graph :: "'g runner \<Rightarrow> 'g" where
  "runner_graph r = cs_graph (snd r)"

definition add_processor_scope ::
    "'g digraph_api \<Rightarrow> processor_registry \<Rightarrow> (string \<Rightarrow> u64) \<Rightarrow> string \<Rightarrow> processor_spec \<Rightarrow> 'g runner \<Rightarrow>
      ((graph_error + string \<times> string) \<times> 'g runner) option" where
  "add_processor_scope pg reg checksum cuid spec r =
     map_option (\<lambda>(ixs, g).
       let r = change_graph (\<lambda>_. g) r
       in case first_node pg ixs g of
            None \<Rightarrow> (Inl (GraphError ''Could not create node''), r)
          | Some node \<Rightarrow>
              (let node_id = nd_id node;
                   registry_miss = (case Option.bind (find_node pg node_id g) nd_state of
                     Some cell \<Rightarrow> os_current cell = Error | None \<Rightarrow> False)
               in if registry_miss
                  then (Inl (UnknownProcessorType (sp_name spec)),
                        emit (RuntimeDidAddProcessor node_id) (emit (RuntimeWillAddProcessor node_id) r))
                  else (Inr (node_id, nd_display_name node),
                        emit (RuntimeDidAddProcessor node_id)
                          (log_op (AddProcessor node_id) (emit (RuntimeWillAddProcessor node_id) r)))))
       (add_v pg reg checksum cuid spec (runner_graph r))"

definition mark_link_pending_deletion :: "'g digraph_api \<Rightarrow> string \<Rightarrow> 'g runner \<Rightarrow> 'g runner" where
  "mark_link_pending_deletion pg l r =
     change_graph (update_link pg l (\<lambda>w. w\<lparr>lk_pending_deletion := True\<rparr>)) r"

definition remove_processor_scope ::
    "'g digraph_api \<Rightarrow> string \<Rightarrow> 'g runner \<Rightarrow> (graph_error + unit) \<times> 'g runner" where
  "remove_processor_scope pg p r =
     (let g = runner_graph r
      in if \<not> traversal_exists (vertex pg p g) then (Inl (ProcessorNotFound p), r)
         else (let inbound_links = map lk_id (link_iter pg (in_e pg (vertex pg p g) g) g);
                   outbound_links = map lk_id (link_iter pg (out_e pg (vertex pg p g) g) g);
                   r = fold (\<lambda>l r. log_op (RemoveLink l) (mark_link_pending_deletion pg l r))
                         (inbound_links @ outbound_links) r;
                   r = change_graph (update_node pg p (\<lambda>n. n\<lparr>nd_pending_deletion := True\<rparr>)) r
               in (Inr (), log_op (RemoveProcessor p) r)))"

definition connect_scope ::
    "'g digraph_api \<Rightarrow> string \<Rightarrow> output_link_port_ref \<Rightarrow> input_link_port_ref \<Rightarrow> 'g runner \<Rightarrow>
      (graph_error + string \<times> string) \<times> 'g runner" where
  "connect_scope pg cuid from_ref to_ref r =
     (let g = runner_graph r
      in case find_node pg (src_processor_id from_ref) g of
           None \<Rightarrow> (Inl (ProcessorNotFound (src_processor_id from_ref)), r)
         | Some from_node \<Rightarrow>
             if \<not> has_output (src_port_name from_ref) from_node
             then (Inl (ProcessorPortNotFound (src_processor_id from_ref) (src_port_name from_ref) Output), r)
             else (case find_node pg (dst_processor_id to_ref) g of
                     None \<Rightarrow> (Inl (ProcessorNotFound (dst_processor_id to_ref)), r)
                   | Some to_node \<Rightarrow>
                       if \<not> has_input (dst_port_name to_ref) to_node
                       then (Inl (ProcessorPortNotFound (dst_processor_id to_ref) (dst_port_name to_ref) Input), r)
                       else (case source_channel_name (src_processor_id from_ref) (src_port_name from_ref) of
                               Inl refusal \<Rightarrow> (Inl (InvalidLink refusal), r)
                             | Inr channel \<Rightarrow>
                                 (let (ixs, g') = add_e pg cuid from_ref to_ref g;
                                      r = change_graph (\<lambda>_. g') r;
                                      r = fold (\<lambda>w. log_op (AddLink (lk_id w))) (link_iter pg ixs g') r
                                  in case first_link pg ixs g' of
                                       None \<Rightarrow> (Inl (GraphError ''failed to create link after validation''), r)
                                     | Some w \<Rightarrow> (Inr (lk_id w, channel), r)))))"

text \<open>The endpoints a disconnect reports: the source carries the port name of the target.\<close>

definition disconnect_scope ::
    "'g digraph_api \<Rightarrow> string \<Rightarrow> 'g runner \<Rightarrow>
      (graph_error + output_link_port_ref \<times> input_link_port_ref) \<times> 'g runner" where
  "disconnect_scope pg l r =
     (case find_link pg l (runner_graph r) of
        None \<Rightarrow> (Inl (NotFound (''Link '' @ quoted l @ '' not found'')), r)
      | Some w \<Rightarrow>
          (let info = (\<lparr>src_processor_id = src_processor_id (lk_source w), src_port_name = dst_port_name (lk_target w)\<rparr>,
                       \<lparr>dst_processor_id = dst_processor_id (lk_target w), dst_port_name = dst_port_name (lk_target w)\<rparr>)
           in (Inr info, log_op (RemoveLink l) (mark_link_pending_deletion pg l r))))"

definition update_config_scope ::
    "'g digraph_api \<Rightarrow> (string \<Rightarrow> u64) \<Rightarrow> string \<Rightarrow> string \<Rightarrow> 'g runner \<Rightarrow> 'g runner" where
  "update_config_scope pg checksum p config r =
     log_op (UpdateProcessorConfig p) (change_graph (update_node pg p (set_config checksum config)) r)"

text \<open>\<open>stop\<close> queues the removal of every processor, without marking one.\<close>

definition stop_scope :: "'g digraph_api \<Rightarrow> 'g runner \<Rightarrow> 'g runner" where
  "stop_scope pg r =
     fold (\<lambda>p. log_op (RemoveProcessor p)) (node_ids_of pg (vertices pg (runner_graph r)) (runner_graph r)) r"

text \<open>The whole operations: the scope, an inline commit when the runtime is live, the events. \<open>stop\<close>
  commits its removals when there is a context to commit with.\<close>

definition commit_live_graph_change ::
    "'g digraph_api \<Rightarrow> 'g compiler_env \<Rightarrow> bool \<Rightarrow> 'g runner \<Rightarrow> (graph_error + unit) \<times> 'g runner" where
  "commit_live_graph_change pg env live r = (if live then commit pg env r else (Inr (), r))"

definition stop_and_commit ::
    "'g digraph_api \<Rightarrow> 'g compiler_env \<Rightarrow> bool \<Rightarrow> 'g runner \<Rightarrow> (graph_error + unit) \<times> 'g runner" where
  "stop_and_commit pg env live r = commit_live_graph_change pg env live (stop_scope pg r)"

definition after_commit ::
    "'g digraph_api \<Rightarrow> 'g compiler_env \<Rightarrow> bool \<Rightarrow> (graph_error + 'a) \<times> 'g runner \<Rightarrow> ('a \<Rightarrow> runtime_event list) \<Rightarrow>
      (graph_error + 'a) \<times> 'g runner" where
  "after_commit pg env live scoped events =
     (case scoped of
        (Inl e, r) \<Rightarrow> (Inl e, r)
      | (Inr a, r) \<Rightarrow>
          (case commit_live_graph_change pg env live r of
             (Inl e, r) \<Rightarrow> (Inl e, r)
           | (Inr _, r) \<Rightarrow> (Inr a, fold emit (events a) r)))"

definition add_processor_impl ::
    "'g digraph_api \<Rightarrow> 'g compiler_env \<Rightarrow> (string \<Rightarrow> graph_error option) \<Rightarrow> (string \<Rightarrow> u64) \<Rightarrow> bool \<Rightarrow> string \<Rightarrow>
      processor_spec \<Rightarrow> 'g runner \<Rightarrow> ((graph_error + string \<times> string) \<times> 'g runner) option" where
  "add_processor_impl pg env resolve checksum live cuid spec r =
     (case resolve (sp_name spec) of
        Some e \<Rightarrow> Some (Inl e, r)
      | None \<Rightarrow>
          map_option (\<lambda>scoped. after_commit pg env live scoped (\<lambda>_. [GraphDidChange]))
            (add_processor_scope pg (we_registry (ce_wiring env)) checksum cuid spec r))"

definition remove_processor_impl ::
    "'g digraph_api \<Rightarrow> 'g compiler_env \<Rightarrow> bool \<Rightarrow> string \<Rightarrow> 'g runner \<Rightarrow> (graph_error + unit) \<times> 'g runner" where
  "remove_processor_impl pg env live p r =
     after_commit pg env live (remove_processor_scope pg p r)
       (\<lambda>_. [RuntimeWillRemoveProcessor p, RuntimeDidRemoveProcessor p, GraphDidChange])"

definition connect_impl ::
    "'g digraph_api \<Rightarrow> 'g compiler_env \<Rightarrow> bool \<Rightarrow> string \<Rightarrow> output_link_port_ref \<Rightarrow> input_link_port_ref \<Rightarrow> 'g runner \<Rightarrow>
      (graph_error + string) \<times> 'g runner" where
  "connect_impl pg env live cuid from_ref to_ref r =
     apfst (map_sum (\<lambda>e. e) fst) (after_commit pg env live
       (connect_scope pg cuid from_ref to_ref
         (emit (RuntimeWillConnect (src_processor_id from_ref) (src_port_name from_ref)
                  (dst_processor_id to_ref) (dst_port_name to_ref)) r))
       (\<lambda>(l, _). [RuntimeDidConnect l (src_port_name from_ref) (dst_port_name to_ref), GraphDidChange]))"

definition disconnect_impl ::
    "'g digraph_api \<Rightarrow> 'g compiler_env \<Rightarrow> bool \<Rightarrow> string \<Rightarrow> 'g runner \<Rightarrow> (graph_error + unit) \<times> 'g runner" where
  "disconnect_impl pg env live l r =
     apfst (map_sum (\<lambda>e. e) (\<lambda>_. ())) (after_commit pg env live (disconnect_scope pg l r)
       (\<lambda>(from_ref, to_ref). [RuntimeWillDisconnect l (output_ref_to_string from_ref) (input_ref_to_string to_ref),
          RuntimeDidDisconnect l (output_ref_to_string from_ref) (input_ref_to_string to_ref), GraphDidChange]))"

text \<open>Rendering a configuration as JSON is serde's, which may refuse.\<close>

definition update_processor_config ::
    "'g digraph_api \<Rightarrow> ('c \<Rightarrow> graph_error + string) \<Rightarrow> (string \<Rightarrow> u64) \<Rightarrow> string \<Rightarrow> 'c \<Rightarrow> 'g runner \<Rightarrow>
      (graph_error + unit) \<times> 'g runner" where
  "update_processor_config pg to_value checksum p config r =
     (case to_value config of
        Inl e \<Rightarrow> (Inl e, r)
      | Inr config_json \<Rightarrow>
          (Inr (), emit GraphDidChange (emit (ProcessorConfigDidChange p) (update_config_scope pg checksum p config_json r))))"

end
