(* ===== verification/Graph_Commit.thy ===== *)
theory Graph_Commit
  imports Graph_Compiler
begin

text \<open>
  What a commit achieves. Assertions about a graph speak of each processor and each link on its own
  (\<open>asserts\<close>); a commit step is correct for a precondition and a postcondition (\<open>triple\<close>) when it
  either establishes the postcondition or raises one of the admitted errors, and keeps the invariant
  of the graph either way. Between two steps other threads may change the graph, within what
  \<open>graph_continues\<close> allows them: add processors and links under new ids, and move the ones that are
  there forward. The runtime's own operations stay within it.
\<close>

subsection \<open>What other threads may do\<close>

definition node_continues :: "processor_node \<Rightarrow> processor_node \<Rightarrow> bool" where
  "node_continues n n' \<longleftrightarrow> (nd_instance n \<longrightarrow> nd_instance n') \<and> (nd_thread_handle n \<longrightarrow> nd_thread_handle n')
     \<and> (nd_ready_barrier n \<longrightarrow> nd_ready_barrier n') \<and> (nd_pending_deletion n \<longrightarrow> nd_pending_deletion n')"

definition link_continues :: "link \<Rightarrow> link \<Rightarrow> bool" where
  "link_continues w w' \<longleftrightarrow> lk_source w' = lk_source w \<and> lk_target w' = lk_target w
     \<and> lk_state_component w' = lk_state_component w \<and> (lk_pending_deletion w \<longrightarrow> lk_pending_deletion w')"

text \<open>Nothing in the engine attaches a handle of a child process to a node.\<close>

definition commit_inv :: "'g digraph_api \<Rightarrow> ('g \<Rightarrow> bool) \<Rightarrow> 'g \<Rightarrow> bool" where
  "commit_inv pg valid g \<longleftrightarrow> graph_inv pg valid g
     \<and> (\<forall>x \<in> set (node_references pg g). \<not> nd_subprocess_handle (snd x))"

text \<open>\<open>known\<close> are the ids in use when the commit began: none of them is handed out again.\<close>

definition graph_continues :: "'g digraph_api \<Rightarrow> ('g \<Rightarrow> bool) \<Rightarrow> string set \<Rightarrow> 'g \<Rightarrow> 'g \<Rightarrow> bool" where
  "graph_continues pg valid known g g' \<longleftrightarrow> commit_inv pg valid g'
     \<and> (\<forall>p. case find_node pg p g of
          Some n \<Rightarrow> (\<exists>n'. find_node pg p g' = Some n' \<and> node_continues n n')
        | None \<Rightarrow> p \<in> known \<longrightarrow> find_node pg p g' = None)
     \<and> (\<forall>l. case find_link pg l g of
          Some w \<Rightarrow> (\<exists>w'. find_link pg l g' = Some w' \<and> link_continues w w')
        | None \<Rightarrow> l \<in> known \<longrightarrow> find_link pg l g' = None)"

definition others_behave :: "'g digraph_api \<Rightarrow> ('g \<Rightarrow> bool) \<Rightarrow> string set \<Rightarrow> 'g compiler_env \<Rightarrow> bool" where
  "others_behave pg valid known env \<longleftrightarrow>
     (\<forall>k g. commit_inv pg valid g \<longrightarrow> graph_continues pg valid known g (ce_others env k g))"

subsection \<open>Assertions\<close>

definition asserts ::
    "'g digraph_api \<Rightarrow> (string \<Rightarrow> processor_node option \<Rightarrow> bool) \<Rightarrow> (string \<Rightarrow> link option \<Rightarrow> bool) \<Rightarrow> 'g \<Rightarrow> bool" where
  "asserts pg NA LA g \<longleftrightarrow> (\<forall>p. NA p (find_node pg p g)) \<and> (\<forall>l. LA l (find_link pg l g))"

definition stable_assertions ::
    "string set \<Rightarrow> (string \<Rightarrow> processor_node option \<Rightarrow> bool) \<Rightarrow> (string \<Rightarrow> link option \<Rightarrow> bool) \<Rightarrow> bool" where
  "stable_assertions known NA LA \<longleftrightarrow>
     (\<forall>p n n'. NA p (Some n) \<longrightarrow> node_continues n n' \<longrightarrow> NA p (Some n')) \<and>
     (\<forall>l w w'. LA l (Some w) \<longrightarrow> link_continues w w' \<longrightarrow> LA l (Some w')) \<and>
     (\<forall>p n. p \<notin> known \<longrightarrow> NA p (Some n)) \<and> (\<forall>l w. l \<notin> known \<longrightarrow> LA l (Some w))"

definition outcome ::
    "'g digraph_api \<Rightarrow> ('g \<Rightarrow> bool) \<Rightarrow> graph_error set \<Rightarrow> ('g \<Rightarrow> bool) \<Rightarrow>
      (graph_error + unit) \<times> 'g commit_state \<Rightarrow> bool" where
  "outcome pg valid E Q result \<longleftrightarrow> commit_inv pg valid (cs_graph (snd result))
     \<and> (case fst result of Inl e \<Rightarrow> e \<in> E | Inr _ \<Rightarrow> Q (cs_graph (snd result)))"

definition triple ::
    "'g digraph_api \<Rightarrow> ('g \<Rightarrow> bool) \<Rightarrow> graph_error set \<Rightarrow> ('g \<Rightarrow> bool) \<Rightarrow> 'g commit_step \<Rightarrow> ('g \<Rightarrow> bool) \<Rightarrow> bool" where
  "triple pg valid E P f Q \<longleftrightarrow>
     (\<forall>s. commit_inv pg valid (cs_graph s) \<longrightarrow> P (cs_graph s) \<longrightarrow> outcome pg valid E Q (f s))"

named_theorems step_simps \<open>how the bookkeeping of a commit leaves the graph alone\<close>

lemma cs_graph_steps [step_simps, simp]:
  "cs_graph (publish event s) = cs_graph s"
  "cs_graph (tally f s) = cs_graph s"
  "cs_graph (on_graph h s) = h (cs_graph s)"
  "cs_graph (acquire_lock env s) = ce_others env (cs_acquisitions s) (cs_graph s)"
  by (simp_all add: publish_def tally_def on_graph_def acquire_lock_def)

lemma outcome_succeed [step_simps]:
  "outcome pg valid E Q (succeed s) \<longleftrightarrow> commit_inv pg valid (cs_graph s) \<and> Q (cs_graph s)"
  by (simp add: outcome_def succeed_def)

lemma outcome_raise [step_simps]:
  "outcome pg valid E Q (raise e s) \<longleftrightarrow> commit_inv pg valid (cs_graph s) \<and> e \<in> E"
  by (auto simp: outcome_def raise_def)

lemma tripleI:
  "(\<And>s. commit_inv pg valid (cs_graph s) \<Longrightarrow> P (cs_graph s) \<Longrightarrow> outcome pg valid E Q (f s)) \<Longrightarrow>
     triple pg valid E P f Q"
  by (simp add: triple_def)

lemma tripleD:
  "triple pg valid E P f Q \<Longrightarrow> commit_inv pg valid (cs_graph s) \<Longrightarrow> P (cs_graph s) \<Longrightarrow> outcome pg valid E Q (f s)"
  by (simp add: triple_def)

lemma triple_seq:
  assumes f: "triple pg valid E P f Q" and h: "triple pg valid E Q h R"
  shows "triple pg valid E P (and_then_step f h) R"
proof (rule tripleI)
  fix s :: "'a commit_state"
  assume "commit_inv pg valid (cs_graph s)" "P (cs_graph s)"
  then have o: "outcome pg valid E Q (f s)" by (rule tripleD [OF f])
  show "outcome pg valid E R (and_then_step f h s)"
  proof (cases "f s")
    case (Pair r s')
    then show ?thesis using o tripleD [OF h, of s']
      by (cases r) (auto simp: outcome_def and_then_step_def)
  qed
qed

lemma triple_weaken:
  assumes "triple pg valid E P f Q" "\<And>g. P' g \<Longrightarrow> P g" "\<And>g. Q g \<Longrightarrow> Q' g"
  shows "triple pg valid E P' f Q'"
proof (rule tripleI)
  fix s :: "'a commit_state"
  assume "commit_inv pg valid (cs_graph s)" "P' (cs_graph s)"
  then have "outcome pg valid E Q (f s)" using tripleD [OF assms(1)] assms(2) by blast
  then show "outcome pg valid E Q' (f s)" using assms(3) by (auto simp: outcome_def split: sum.splits)
qed

lemma triple_succeed: "triple pg valid E P succeed P"
  by (simp add: triple_def outcome_succeed)

lemma triple_for_each_from:
  assumes "\<And>x D. x \<in> X \<Longrightarrow> D \<subseteq> X \<Longrightarrow> triple pg valid E (S D) (f x) (S (insert x D))"
    and "set xs \<subseteq> X" "D \<subseteq> X"
  shows "triple pg valid E (S D) (for_each f xs) (S (set xs \<union> D))"
  using assms(2,3)
proof (induction xs arbitrary: D)
  case Nil
  then show ?case by (simp add: triple_succeed)
next
  case (Cons x xs)
  have "triple pg valid E (S (insert x D)) (for_each f xs) (S (set xs \<union> insert x D))"
    by (rule Cons.IH) (use Cons.prems in auto)
  moreover have "triple pg valid E (S D) (f x) (S (insert x D))" using assms(1) Cons.prems by simp
  ultimately show ?case by (simp add: triple_seq)
qed

lemma triple_for_each:
  assumes "\<And>x D. x \<in> set xs \<Longrightarrow> D \<subseteq> set xs \<Longrightarrow> triple pg valid E (S D) (f x) (S (insert x D))"
  shows "triple pg valid E (S {}) (for_each f xs) (S (set xs))"
  using triple_for_each_from [of "set xs" pg valid E S f xs "{}"] assms by simp

text \<open>A stable assertion survives what happens before the lock is taken.\<close>

lemma asserts_acquire:
  assumes "stable_assertions known NA LA" "graph_continues pg valid known g g'" "asserts pg NA LA g"
  shows "asserts pg NA LA g'"
proof -
  have "NA p (find_node pg p g')" for p
  proof (cases "find_node pg p g")
    case None
    then have "p \<in> known \<longrightarrow> find_node pg p g' = None" "NA p None"
      using assms(2,3) by (auto simp: graph_continues_def asserts_def dest: spec [of _ p])
    then show ?thesis using assms(1) by (cases "find_node pg p g'") (auto simp: stable_assertions_def)
  next
    case (Some n)
    then obtain n' where "find_node pg p g' = Some n'" "node_continues n n'"
      using assms(2) by (auto simp: graph_continues_def dest!: spec [of _ p])
    moreover have "NA p (Some n)" using assms(3) Some by (auto simp: asserts_def dest: spec [of _ p])
    ultimately show ?thesis using assms(1) by (auto simp: stable_assertions_def)
  qed
  moreover have "LA l (find_link pg l g')" for l
  proof (cases "find_link pg l g")
    case None
    then have "l \<in> known \<longrightarrow> find_link pg l g' = None" "LA l None"
      using assms(2,3) by (auto simp: graph_continues_def asserts_def dest: spec [of _ l])
    then show ?thesis using assms(1) by (cases "find_link pg l g'") (auto simp: stable_assertions_def)
  next
    case (Some w)
    then obtain w' where "find_link pg l g' = Some w'" "link_continues w w'"
      using assms(2) by (auto simp: graph_continues_def dest!: spec [of _ l])
    moreover have "LA l (Some w)" using assms(3) Some by (auto simp: asserts_def dest: spec [of _ l])
    ultimately show ?thesis using assms(1) by (auto simp: stable_assertions_def)
  qed
  ultimately show ?thesis by (simp add: asserts_def)
qed

lemma triple_acquire:
  assumes o: "others_behave pg valid known env" and st: "stable_assertions known NA LA"
    and t: "triple pg valid E (asserts pg NA LA) f Q"
  shows "triple pg valid E (asserts pg NA LA) (\<lambda>s. f (acquire_lock env s)) Q"
proof (rule tripleI)
  fix s :: "'a commit_state"
  assume inv: "commit_inv pg valid (cs_graph s)" and P: "asserts pg NA LA (cs_graph s)"
  have "graph_continues pg valid known (cs_graph s) (cs_graph (acquire_lock env s))"
    using o inv by (simp add: others_behave_def)
  then have "commit_inv pg valid (cs_graph (acquire_lock env s))" "asserts pg NA LA (cs_graph (acquire_lock env s))"
    using asserts_acquire [OF st _ P] by (auto simp: graph_continues_def)
  then show "outcome pg valid E Q (f (acquire_lock env s))" by (rule tripleD [OF t])
qed

subsection \<open>What the steps do to assertions\<close>

context digraph
begin

lemma commit_invI:
  "graph_inv pg valid g \<Longrightarrow> (\<And>p n. find_node pg p g = Some n \<Longrightarrow> \<not> nd_subprocess_handle n) \<Longrightarrow>
     commit_inv pg valid g"
  unfolding commit_inv_def by (metis find_node_iff prod.collapse)

lemma commit_inv_graph: "commit_inv pg valid g \<Longrightarrow> graph_inv pg valid g"
  by (simp add: commit_inv_def)

lemma commit_inv_no_child: "commit_inv pg valid g \<Longrightarrow> find_node pg p g = Some n \<Longrightarrow> \<not> nd_subprocess_handle n"
  by (auto simp: commit_inv_def find_node_iff)

lemma commit_inv_update_node:
  assumes "commit_inv pg valid g" "\<And>n. nd_id (f n) = nd_id n"
    and "\<And>n. nd_subprocess_handle (f n) \<Longrightarrow> nd_subprocess_handle n"
  shows "commit_inv pg valid (update_node pg p f g)"
proof (rule commit_invI)
  show "graph_inv pg valid (update_node pg p f g)"
    using update_node_inv commit_inv_graph [OF assms(1)] assms(2) by blast
  fix q n
  assume "find_node pg q (update_node pg p f g) = Some n"
  then show "\<not> nd_subprocess_handle n"
    using find_node_update_node [OF commit_inv_graph [OF assms(1)] assms(2), where p = p and q = q]
      commit_inv_no_child [OF assms(1)] assms(3) by (auto split: if_splits)
qed

lemma asserts_update_node:
  assumes inv: "commit_inv pg valid g" and a: "asserts pg NA LA g" and f: "\<And>n. nd_id (f n) = nd_id n"
    and other: "\<And>q x. q \<noteq> p \<Longrightarrow> NA q x \<Longrightarrow> NA' q x"
    and here: "NA p None \<Longrightarrow> NA' p None" "\<And>n. NA p (Some n) \<Longrightarrow> NA' p (Some (f n))"
  shows "asserts pg NA' LA (update_node pg p f g)"
proof -
  note inv' = commit_inv_graph [OF inv]
  have "NA' q (find_node pg q (update_node pg p f g))" for q
  proof (cases "q = p")
    case True
    have "NA p (find_node pg p g)" using a by (simp add: asserts_def)
    then show ?thesis using here by (cases "find_node pg p g") (auto simp: find_node_update_node [OF inv' f] True)
  qed (use a other in \<open>simp add: asserts_def find_node_update_node [OF inv' f]\<close>)
  then show ?thesis using a by (simp add: asserts_def find_link_update_node [OF inv' f])
qed

lemma commit_inv_update_link:
  assumes "commit_inv pg valid g" and h: "\<And>w. lk_id (h w) = lk_id w" "\<And>w. lk_source (h w) = lk_source w"
    "\<And>w. lk_target (h w) = lk_target w"
  shows "commit_inv pg valid (update_link pg l h g)"
proof (rule commit_invI)
  show "graph_inv pg valid (update_link pg l h g)" using update_link_inv [OF commit_inv_graph [OF assms(1)] h] .
  fix p n
  assume "find_node pg p (update_link pg l h g) = Some n"
  then show "\<not> nd_subprocess_handle n"
    using commit_inv_no_child [OF assms(1)] by (simp add: find_node_update_link [OF commit_inv_graph [OF assms(1)] h])
qed

lemma asserts_update_link:
  assumes inv: "commit_inv pg valid g" and a: "asserts pg NA LA g"
    and h: "\<And>w. lk_id (h w) = lk_id w" "\<And>w. lk_source (h w) = lk_source w" "\<And>w. lk_target (h w) = lk_target w"
    and other: "\<And>k x. k \<noteq> l \<Longrightarrow> LA k x \<Longrightarrow> LA' k x"
    and here: "LA l None \<Longrightarrow> LA' l None" "\<And>w. LA l (Some w) \<Longrightarrow> LA' l (Some (h w))"
  shows "asserts pg NA LA' (update_link pg l h g)"
proof -
  note inv' = commit_inv_graph [OF inv]
  have "LA' k (find_link pg k (update_link pg l h g))" for k
  proof (cases "k = l")
    case True
    have "LA l (find_link pg l g)" using a by (simp add: asserts_def)
    then show ?thesis using here by (cases "find_link pg l g") (auto simp: find_link_update_link [OF inv' h] True)
  qed (use a other in \<open>simp add: asserts_def find_link_update_link [OF inv' h]\<close>)
  then show ?thesis using a by (simp add: asserts_def find_node_update_link [OF inv' h])
qed

lemma drop_link_assertions:
  assumes inv: "commit_inv pg valid g" and d: "drop_link pg l g = (kept, g')" and a: "asserts pg NA LA g"
    and "\<And>k x. k \<noteq> l \<Longrightarrow> LA k x \<Longrightarrow> LA' k x" "\<And>x. LA l x \<Longrightarrow> LA' l None"
  shows "kept = [] \<and> commit_inv pg valid g' \<and> asserts pg NA LA' g'"
proof -
  note law = drop_link_laws [OF commit_inv_graph [OF inv] d]
  have "commit_inv pg valid g'"
    using law commit_inv_no_child [OF inv] by (intro commit_invI) auto
  moreover have "LA' k (find_link pg k g')" for k
    using a assms(4) assms(5) [of "find_link pg l g"] by (cases "k = l") (auto simp: law(4) asserts_def)
  ultimately show ?thesis using law(1,3) a by (simp add: asserts_def)
qed

lemma drop_node_assertions:
  assumes inv: "commit_inv pg valid g" and d: "drop_node pg p g = (kept, g')" and a: "asserts pg NA LA g"
    and "\<And>q x. q \<noteq> p \<Longrightarrow> NA q x \<Longrightarrow> NA' q x" "\<And>x. NA p x \<Longrightarrow> NA' p None"
    and "\<And>l x. LA l x \<Longrightarrow> (\<forall>w. x = Some w \<longrightarrow> \<not> touches p w) \<Longrightarrow> LA' l x"
    and "\<And>l w. LA l (Some w) \<Longrightarrow> touches p w \<Longrightarrow> LA' l None"
  shows "kept = [] \<and> commit_inv pg valid g' \<and> asserts pg NA' LA' g'"
proof -
  note law = drop_node_laws [OF commit_inv_graph [OF inv] d]
  have "commit_inv pg valid g'"
    using law commit_inv_no_child [OF inv] by (intro commit_invI) (auto split: if_splits)
  moreover have "NA' q (find_node pg q g')" for q
    using a assms(4) assms(5) [of "find_node pg p g"] by (cases "q = p") (auto simp: law(3) asserts_def)
  moreover have "LA' l (find_link pg l g')" for l
  proof -
    have "LA l (find_link pg l g)" using a by (simp add: asserts_def)
    then show ?thesis using assms(6,7) [of l] by (cases "find_link pg l g") (auto simp: law(4))
  qed
  ultimately show ?thesis using law(1) by (simp add: asserts_def)
qed

end

subsection \<open>Assertions of a commit\<close>

text \<open>
  \<open>gone\<close> processors are absent, those of \<open>wanted\<close> are there and satisfy what the phase asks of
  them; a processor whose addition was logged and not planned is gone, on its way out or running.
\<close>

definition settled :: "processor_node option \<Rightarrow> bool" where
  "settled x \<longleftrightarrow> (case x of None \<Rightarrow> True | Some n \<Rightarrow> nd_pending_deletion n \<or> nd_instance n)"

definition node_assert ::
    "string set \<Rightarrow> string set \<Rightarrow> string set \<Rightarrow> (string \<Rightarrow> processor_node \<Rightarrow> bool) \<Rightarrow> string \<Rightarrow> processor_node option \<Rightarrow> bool" where
  "node_assert gone wanted rest \<Phi> p x \<longleftrightarrow> (p \<in> gone \<longrightarrow> x = None)
     \<and> (p \<in> wanted \<longrightarrow> (case x of None \<Rightarrow> False | Some n \<Rightarrow> \<Phi> p n)) \<and> (p \<in> rest \<longrightarrow> settled x)"

definition settled_link :: "string set \<Rightarrow> bool \<Rightarrow> link option \<Rightarrow> bool" where
  "settled_link removed closing x \<longleftrightarrow> (case x of None \<Rightarrow> True
     | Some w \<Rightarrow> lk_pending_deletion w \<or> lk_state_component w = Some LinkWired \<and> \<not> closing
         \<or> (\<exists>p \<in> removed. touches p w))"

definition link_assert ::
    "string set \<Rightarrow> string set \<Rightarrow> string set \<Rightarrow> string set \<Rightarrow> string set \<Rightarrow> (string \<Rightarrow> link \<Rightarrow> bool) \<Rightarrow>
      string \<Rightarrow> link option \<Rightarrow> bool" where
  "link_assert gone wanted rest closing removed \<Psi> l x \<longleftrightarrow> (l \<in> gone \<longrightarrow> x = None)
     \<and> (l \<in> wanted \<longrightarrow> (case x of None \<Rightarrow> False | Some w \<Rightarrow> \<Psi> l w))
     \<and> (l \<in> rest \<longrightarrow> settled_link removed (l \<in> closing) x)"

lemma touches_continues: "link_continues w w' \<Longrightarrow> touches p w' \<longleftrightarrow> touches p w"
  by (simp add: link_continues_def touches_def)

lemma settled_link_continues:
  "settled_link R c (Some w) \<Longrightarrow> link_continues w w' \<Longrightarrow> settled_link R c (Some w')"
  by (auto simp: settled_link_def touches_continues) (auto simp: link_continues_def)

lemma stable_commit_assertions:
  assumes "GN \<subseteq> known" "WN \<subseteq> known" "SN \<subseteq> known" "GL \<subseteq> known" "WL \<subseteq> known" "SL \<subseteq> known"
    and "\<And>p n n'. p \<in> WN \<Longrightarrow> \<Phi> p n \<Longrightarrow> node_continues n n' \<Longrightarrow> \<Phi> p n'"
    and "\<And>l w w'. l \<in> WL \<Longrightarrow> \<Psi> l w \<Longrightarrow> link_continues w w' \<Longrightarrow> \<Psi> l w'"
  shows "stable_assertions known (node_assert GN WN SN \<Phi>) (link_assert GL WL SL CL R \<Psi>)"
proof -
  have "node_assert GN WN SN \<Phi> p (Some n')" if "node_assert GN WN SN \<Phi> p (Some n)" "node_continues n n'" for p n n'
    using that assms(7) by (auto simp: node_assert_def settled_def) (auto simp: node_continues_def)
  moreover have "link_assert GL WL SL CL R \<Psi> l (Some w')"
    if "link_assert GL WL SL CL R \<Psi> l (Some w)" "link_continues w w'" for l w w'
    using that assms(8) settled_link_continues by (auto simp: link_assert_def)
  moreover have "node_assert GN WN SN \<Phi> p x" "link_assert GL WL SL CL R \<Psi> p y" if "p \<notin> known" for p x y
    using assms(1-6) that by (auto simp: node_assert_def link_assert_def)
  ultimately show ?thesis unfolding stable_assertions_def by blast
qed

text \<open>Ready to be spawned, and spawned where \<open>spawned\<close> says so.\<close>

definition may_spawn :: "string set \<Rightarrow> string set \<Rightarrow> string \<Rightarrow> processor_node \<Rightarrow> bool" where
  "may_spawn added spawned p n \<longleftrightarrow>
     (p \<in> added \<longrightarrow> (nd_ready_barrier n \<or> nd_thread_handle n) \<and> (p \<in> spawned \<longrightarrow> nd_thread_handle n))"

definition phase ::
    "'g digraph_api \<Rightarrow> string set \<Rightarrow> string set \<Rightarrow> string set \<Rightarrow> (string \<Rightarrow> processor_node \<Rightarrow> bool) \<Rightarrow>
      string set \<Rightarrow> string set \<Rightarrow> string set \<Rightarrow> string set \<Rightarrow> string set \<Rightarrow> (string \<Rightarrow> link \<Rightarrow> bool) \<Rightarrow> 'g \<Rightarrow> bool" where
  "phase pg GN WN SN \<Phi> GL WL SL CL R \<Psi> =
     asserts pg (node_assert GN WN SN \<Phi>) (link_assert GL WL SL CL R \<Psi>)"

definition within :: "string set \<Rightarrow> string set \<Rightarrow> string set \<Rightarrow> string set \<Rightarrow> string set \<Rightarrow> string set \<Rightarrow> string set \<Rightarrow> bool" where
  "within known GN WN SN GL WL SL \<longleftrightarrow>
     GN \<subseteq> known \<and> WN \<subseteq> known \<and> SN \<subseteq> known \<and> GL \<subseteq> known \<and> WL \<subseteq> known \<and> SL \<subseteq> known"

definition stable_phase :: "(string \<Rightarrow> processor_node \<Rightarrow> bool) \<Rightarrow> (string \<Rightarrow> link \<Rightarrow> bool) \<Rightarrow> bool" where
  "stable_phase \<Phi> \<Psi> \<longleftrightarrow> (\<forall>p n n'. \<Phi> p n \<longrightarrow> node_continues n n' \<longrightarrow> \<Phi> p n')
     \<and> (\<forall>l w w'. \<Psi> l w \<longrightarrow> link_continues w w' \<longrightarrow> \<Psi> l w')"

lemma triple_acquire_phase:
  assumes "others_behave pg valid known env" "within known GN WN SN GL WL SL" "stable_phase \<Phi> \<Psi>"
    and "triple pg valid E (phase pg GN WN SN \<Phi> GL WL SL CL R \<Psi>) f Q"
  shows "triple pg valid E (phase pg GN WN SN \<Phi> GL WL SL CL R \<Psi>) (\<lambda>s. f (acquire_lock env s)) Q"
proof -
  have "stable_assertions known (node_assert GN WN SN \<Phi>) (link_assert GL WL SL CL R \<Psi>)"
    using assms(2,3) unfolding within_def stable_phase_def by (intro stable_commit_assertions) blast+
  then show ?thesis using triple_acquire [OF assms(1)] assms(4) unfolding phase_def by blast
qed

lemma triple_before:
  assumes "\<And>s. commit_inv pg valid (cs_graph s) \<Longrightarrow> P (cs_graph s) \<Longrightarrow>
      commit_inv pg valid (cs_graph (h s)) \<and> Q (cs_graph (h s))"
    and "triple pg valid E Q f R"
  shows "triple pg valid E P (\<lambda>s. f (h s)) R"
  using assms by (simp add: triple_def)

context digraph
begin

lemma close_iceoryx2_service_phase:
  assumes "commit_inv pg valid g" "phase pg GN WN SN \<Phi> GL WL SL CL R \<Psi> g" "l \<in> CL" "l \<notin> WL"
  shows "commit_inv pg valid (close_iceoryx2_service pg l g)"
    and "phase pg GN WN SN \<Phi> GL WL SL CL R \<Psi> (close_iceoryx2_service pg l g)"
proof -
  show "commit_inv pg valid (close_iceoryx2_service pg l g)"
    using assms(1) by (auto simp: close_iceoryx2_service_def intro!: commit_inv_update_link)
  have "asserts pg (node_assert GN WN SN \<Phi>) (link_assert GL WL SL CL R \<Psi>)
      (update_link pg l (\<lambda>w. w\<lparr>lk_state_component := Some LinkDisconnected\<rparr>) g)"
    by (rule asserts_update_link [OF assms(1) assms(2) [unfolded phase_def]])
      (use assms(3,4) in \<open>auto simp: link_assert_def settled_link_def touches_def\<close>)
  then show "phase pg GN WN SN \<Phi> GL WL SL CL R \<Psi> (close_iceoryx2_service pg l g)"
    using assms(2) by (auto simp: close_iceoryx2_service_def phase_def)
qed

lemma cs_graph_unwire_link_locked:
  "cs_graph (unwire_link_locked pg l s) = cs_graph s \<or>
   cs_graph (unwire_link_locked pg l s) = close_iceoryx2_service pg l (cs_graph s)"
  by (auto simp: unwire_link_locked_def Let_def split: option.splits)

lemma remove_link_triple:
  assumes o: "others_behave pg valid known env" and w: "within known GN WN SN GL WL SL" and st: "stable_phase \<Phi> \<Psi>"
    and l: "l \<in> CL" "l \<notin> WL"
  shows "triple pg valid E (phase pg GN WN SN \<Phi> GL WL SL CL R \<Psi>) (remove_link pg env l)
    (phase pg GN WN SN \<Phi> (insert l GL) WL SL CL R \<Psi>)"
proof -
  have drop: "triple pg valid E (phase pg GN WN SN \<Phi> GL WL SL CL R \<Psi>) (drop_link_locked pg l)
      (phase pg GN WN SN \<Phi> (insert l GL) WL SL CL R \<Psi>)"
  proof (rule tripleI)
    fix s :: "'g commit_state"
    assume a: "commit_inv pg valid (cs_graph s)" "phase pg GN WN SN \<Phi> GL WL SL CL R \<Psi> (cs_graph s)"
    obtain kept g' where d: "drop_link pg l (cs_graph s) = (kept, g')" by fastforce
    have "kept = [] \<and> commit_inv pg valid g'
        \<and> asserts pg (node_assert GN WN SN \<Phi>) (link_assert (insert l GL) WL SL CL R \<Psi>) g'"
      by (rule drop_link_assertions [OF a(1) d a(2) [unfolded phase_def]])
        (use l in \<open>auto simp: link_assert_def settled_link_def\<close>)
    then show "outcome pg valid E (phase pg GN WN SN \<Phi> (insert l GL) WL SL CL R \<Psi>) (drop_link_locked pg l s)"
      by (simp add: drop_link_locked_def d traversal_exists_def outcome_succeed phase_def)
  qed
  have "triple pg valid E (phase pg GN WN SN \<Phi> GL WL SL CL R \<Psi>)
      (\<lambda>s. drop_link_locked pg l (acquire_lock env (unwire_link_locked pg l s)))
      (phase pg GN WN SN \<Phi> (insert l GL) WL SL CL R \<Psi>)"
    by (rule triple_before [where f = "\<lambda>s. drop_link_locked pg l (acquire_lock env s)", OF _ triple_acquire_phase [OF o w st drop]])
      (use cs_graph_unwire_link_locked close_iceoryx2_service_phase l in metis)
  then have "triple pg valid E (phase pg GN WN SN \<Phi> GL WL SL CL R \<Psi>)
      (\<lambda>s. drop_link_locked pg l (acquire_lock env (unwire_link_locked pg l (acquire_lock env s))))
      (phase pg GN WN SN \<Phi> (insert l GL) WL SL CL R \<Psi>)"
    by (rule triple_acquire_phase [OF o w st])
  then show ?thesis by (simp add: remove_link_def [abs_def])
qed

lemma update_node_phase:
  assumes "commit_inv pg valid g" "phase pg GN WN SN \<Phi> GL WL SL CL R \<Psi> g"
    and "\<And>n. nd_id (f n) = nd_id n" "\<And>n. nd_subprocess_handle (f n) \<Longrightarrow> nd_subprocess_handle n"
    and "\<And>n. nd_instance n \<Longrightarrow> nd_instance (f n)" "\<And>n. nd_pending_deletion n \<Longrightarrow> nd_pending_deletion (f n)"
    and "\<And>q n. q \<in> WN \<Longrightarrow> q \<noteq> p \<Longrightarrow> \<Phi> q n \<Longrightarrow> \<Phi>' q n" "\<And>n. p \<in> WN \<Longrightarrow> \<Phi> p n \<Longrightarrow> \<Phi>' p (f n)"
  shows "commit_inv pg valid (update_node pg p f g)"
    and "phase pg GN WN SN \<Phi>' GL WL SL CL R \<Psi> (update_node pg p f g)"
proof -
  show "commit_inv pg valid (update_node pg p f g)" by (rule commit_inv_update_node [OF assms(1,3,4)])
  have "asserts pg (node_assert GN WN SN \<Phi>') (link_assert GL WL SL CL R \<Psi>) (update_node pg p f g)"
  proof (rule asserts_update_node [OF assms(1) assms(2) [unfolded phase_def] assms(3)])
    show "node_assert GN WN SN \<Phi>' q x" if "q \<noteq> p" "node_assert GN WN SN \<Phi> q x" for q x
      using that assms(7) by (auto simp: node_assert_def split: option.splits)
    show "node_assert GN WN SN \<Phi>' p None" if "node_assert GN WN SN \<Phi> p None"
      using that by (auto simp: node_assert_def)
    show "node_assert GN WN SN \<Phi>' p (Some (f n))" if "node_assert GN WN SN \<Phi> p (Some n)" for n
      using that assms(5,6,8) by (auto simp: node_assert_def settled_def)
  qed
  then show "phase pg GN WN SN \<Phi>' GL WL SL CL R \<Psi> (update_node pg p f g)" by (simp add: phase_def)
qed

lemma destroy_processor_triple:
  assumes o: "others_behave pg valid known env" and w: "within known GN WN SN GL WL SL" and st: "stable_phase \<Phi> \<Psi>"
    and p: "p \<in> R" "p \<notin> WN" and \<Psi>: "\<And>l w q. l \<in> WL \<Longrightarrow> \<Psi> l w \<Longrightarrow> q \<in> R \<Longrightarrow> \<not> touches q w"
  shows "triple pg valid E (phase pg GN WN SN \<Phi> GL WL SL CL R \<Psi>) (destroy_processor pg env p)
    (phase pg (insert p GN) WN SN \<Phi> GL WL SL CL R \<Psi>)"
proof -
  have drop: "triple pg valid E (phase pg GN WN SN \<Phi> GL WL SL CL R \<Psi>) (drop_processor_locked pg p)
      (phase pg (insert p GN) WN SN \<Phi> GL WL SL CL R \<Psi>)"
  proof (rule tripleI)
    fix s :: "'g commit_state"
    assume a: "commit_inv pg valid (cs_graph s)" "phase pg GN WN SN \<Phi> GL WL SL CL R \<Psi> (cs_graph s)"
    let ?g = "update_node pg p mark_stopped (cs_graph s)"
    have g: "commit_inv pg valid ?g" "phase pg GN WN SN \<Phi> GL WL SL CL R \<Psi> ?g"
      using update_node_phase [OF a, of mark_stopped p \<Phi>] p(2) by (simp_all add: mark_stopped_def)
    obtain kept g' where d: "drop_node pg p ?g = (kept, g')" by fastforce
    have "kept = [] \<and> commit_inv pg valid g'
        \<and> asserts pg (node_assert (insert p GN) WN SN \<Phi>) (link_assert GL WL SL CL R \<Psi>) g'"
      by (rule drop_node_assertions [OF g(1) d g(2) [unfolded phase_def]])
        (use p \<Psi> in \<open>auto simp: node_assert_def link_assert_def settled_link_def settled_def split: option.splits\<close>)
    then show "outcome pg valid E (phase pg (insert p GN) WN SN \<Phi> GL WL SL CL R \<Psi>) (drop_processor_locked pg p s)"
      by (simp add: drop_processor_locked_def d traversal_exists_def outcome_succeed phase_def)
  qed
  have "triple pg valid E (phase pg GN WN SN \<Phi> GL WL SL CL R \<Psi>)
      (\<lambda>s. drop_processor_locked pg p (acquire_lock env (on_graph (update_node pg p stop_processor) s)))
      (phase pg (insert p GN) WN SN \<Phi> GL WL SL CL R \<Psi>)"
  proof (rule triple_before [where f = "\<lambda>s. drop_processor_locked pg p (acquire_lock env s)", OF _ triple_acquire_phase [OF o w st drop]])
    fix s :: "'g commit_state"
    assume "commit_inv pg valid (cs_graph s)" "phase pg GN WN SN \<Phi> GL WL SL CL R \<Psi> (cs_graph s)"
    from update_node_phase [OF this, of stop_processor p \<Phi>] p(2)
    show "commit_inv pg valid (cs_graph (on_graph (update_node pg p stop_processor) s))
        \<and> phase pg GN WN SN \<Phi> GL WL SL CL R \<Psi> (cs_graph (on_graph (update_node pg p stop_processor) s))"
      by (simp add: stop_processor_def)
  qed
  from triple_acquire_phase [OF o w st this]
  have "triple pg valid E (phase pg GN WN SN \<Phi> GL WL SL CL R \<Psi>)
      (\<lambda>s. (\<lambda>s. drop_processor_locked pg p (acquire_lock env (on_graph (update_node pg p stop_processor) (acquire_lock env s))))
        (publish (CompilerWillDestroyProcessor p) s))
      (phase pg (insert p GN) WN SN \<Phi> GL WL SL CL R \<Psi>)"
    by (rule triple_before [rotated]) simp
  then show ?thesis by (simp add: destroy_processor_def [abs_def] Let_def)
qed

lemma wanted_node:
  assumes "phase pg GN WN SN \<Phi> GL WL SL CL R \<Psi> g" "p \<in> WN"
  shows "\<exists>n. find_node pg p g = Some n \<and> \<Phi> p n"
proof -
  have "node_assert GN WN SN \<Phi> p (find_node pg p g)" using assms(1) by (simp add: phase_def asserts_def)
  then show ?thesis using assms(2) by (auto simp: node_assert_def split: option.splits)
qed

lemma wanted_link:
  assumes "phase pg GN WN SN \<Phi> GL WL SL CL R \<Psi> g" "l \<in> WL"
  shows "\<exists>w. find_link pg l g = Some w \<and> \<Psi> l w"
proof -
  have "link_assert GL WL SL CL R \<Psi> l (find_link pg l g)" using assms(1) by (simp add: phase_def asserts_def)
  then show ?thesis using assms(2) by (auto simp: link_assert_def split: option.splits)
qed

text \<open>PREPARE leaves a barrier on the node, SPAWN exchanges it for a thread, READY finds the instance.\<close>

lemma prepare_step_triple:
  assumes o: "others_behave pg valid known env" and w: "within known GN WN SN GL WL SL" and st: "stable_phase \<Phi> \<Psi>"
    and p: "p \<in> WN" and "\<And>q n. q \<noteq> p \<Longrightarrow> \<Phi> q n \<Longrightarrow> \<Phi>' q n" "\<And>n. \<Phi> p n \<Longrightarrow> \<Phi>' p (prepare_node n)"
  shows "triple pg valid E (phase pg GN WN SN \<Phi> GL WL SL CL R \<Psi>) (prepare_step pg env p)
    (phase pg GN WN SN \<Phi>' GL WL SL CL R \<Psi>)"
proof -
  have "triple pg valid E (phase pg GN WN SN \<Phi> GL WL SL CL R \<Psi>) (prepare_locked pg p)
      (phase pg GN WN SN \<Phi>' GL WL SL CL R \<Psi>)"
  proof (rule tripleI)
    fix s :: "'g commit_state"
    assume a: "commit_inv pg valid (cs_graph s)" "phase pg GN WN SN \<Phi> GL WL SL CL R \<Psi> (cs_graph s)"
    then obtain n where n: "find_node pg p (cs_graph s) = Some n" using wanted_node p by blast
    then have "traversal_exists (vertex pg p (cs_graph s))"
      using find_node_None_iff [OF commit_inv_graph [OF a(1)], of p] by (simp add: traversal_exists_def)
    then show "outcome pg valid E (phase pg GN WN SN \<Phi>' GL WL SL CL R \<Psi>) (prepare_locked pg p s)"
      using update_node_phase [OF a, of prepare_node p \<Phi>'] assms(5,6) n
      by (simp add: prepare_locked_def prepare_processor_def outcome_succeed prepare_node_def Let_def)
  qed
  then show ?thesis using triple_acquire_phase [OF o w st] by (simp add: prepare_step_def [abs_def])
qed

lemma prepare_missing_triple:
  assumes o: "others_behave pg valid known env" and w: "within known GN WN SN GL WL SL" and st: "stable_phase \<Phi> \<Psi>"
    and p: "p \<in> GN" "ProcessorNotFound (not_found_message p) \<in> E"
  shows "triple pg valid E (phase pg GN WN SN \<Phi> GL WL SL CL R \<Psi>) (prepare_step pg env p) (\<lambda>_. False)"
proof -
  have "triple pg valid E (phase pg GN WN SN \<Phi> GL WL SL CL R \<Psi>) (prepare_locked pg p) (\<lambda>_. False)"
  proof (rule tripleI)
    fix s :: "'g commit_state"
    assume a: "commit_inv pg valid (cs_graph s)" "phase pg GN WN SN \<Phi> GL WL SL CL R \<Psi> (cs_graph s)"
    have "find_node pg p (cs_graph s) = None" using a(2) p(1) by (simp add: phase_def asserts_def node_assert_def)
    then show "outcome pg valid E (\<lambda>_. False) (prepare_locked pg p s)"
      using a(1) p(2) by (simp add: prepare_locked_def outcome_raise)
  qed
  from triple_acquire_phase [OF o w st this] show ?thesis by (simp add: prepare_step_def [abs_def])
qed

lemma spawn_dedicated_thread_triple:
  assumes o: "others_behave pg valid known env" and w: "within known GN WN SN GL WL SL"
    and st: "stable_phase (\<lambda>q n. q = p \<or> may_spawn A D q n) \<Psi>" and p: "p \<in> WN"
    and E: "\<And>n e. ce_create env n = Some e \<Longrightarrow> e \<in> E" "\<And>q e. ce_spawn_thread env q = Some e \<Longrightarrow> e \<in> E"
  shows "triple pg valid E (phase pg GN WN SN (\<lambda>q n. q = p \<or> may_spawn A D q n) GL WL SL CL R \<Psi>)
    (spawn_dedicated_thread pg env p) (phase pg GN WN SN (may_spawn A (insert p D)) GL WL SL CL R \<Psi>)"
    (is "triple _ _ _ ?P _ ?Q")
proof -
  have "triple pg valid E ?P (create_instance_locked pg env p) ?P"
  proof (rule tripleI)
    fix s :: "'g commit_state"
    assume a: "commit_inv pg valid (cs_graph s)" "?P (cs_graph s)"
    then obtain n where "find_node pg p (cs_graph s) = Some n" using wanted_node p by blast
    then show "outcome pg valid E ?P (create_instance_locked pg env p s)"
      using a E by (auto simp: create_instance_locked_def outcome_succeed outcome_raise split: option.splits)
  qed
  from triple_acquire_phase [OF o w st this]
  have create: "triple pg valid E ?P (\<lambda>s. create_instance_locked pg env p (acquire_lock env s)) ?P" .
  have "triple pg valid E ?P (attach_thread_handle_locked pg p) ?Q"
  proof (rule tripleI)
    fix s :: "'g commit_state"
    assume a: "commit_inv pg valid (cs_graph s)" "?P (cs_graph s)"
    then obtain n where n: "find_node pg p (cs_graph s) = Some n" using wanted_node p by blast
    show "outcome pg valid E ?Q (attach_thread_handle_locked pg p s)"
      using update_node_phase [OF a, of "\<lambda>n. n\<lparr>nd_thread_handle := True\<rparr>" p "may_spawn A (insert p D)"] n
      by (simp add: attach_thread_handle_locked_def outcome_succeed may_spawn_def)
  qed
  from triple_acquire_phase [OF o w st this]
  have attach: "triple pg valid E ?P (\<lambda>s. attach_thread_handle_locked pg p (acquire_lock env s)) ?Q" .
  have "triple pg valid E ?P (\<lambda>s. case ce_spawn_thread env p of
      Some e \<Rightarrow> raise e s | None \<Rightarrow> attach_thread_handle_locked pg p (acquire_lock env s)) ?Q"
  proof (rule tripleI)
    fix s :: "'g commit_state"
    assume a: "commit_inv pg valid (cs_graph s)" "?P (cs_graph s)"
    show "outcome pg valid E ?Q (case ce_spawn_thread env p of
        Some e \<Rightarrow> raise e s | None \<Rightarrow> attach_thread_handle_locked pg p (acquire_lock env s))"
      using tripleD [OF attach a] a(1) E(2) [of p] by (auto simp: outcome_raise split: option.splits)
  qed
  then show ?thesis unfolding spawn_dedicated_thread_def by (rule triple_seq [OF create])
qed

lemma spawn_processor_triple:
  assumes o: "others_behave pg valid known env" and w: "within known GN WN SN GL WL SL" and p: "p \<in> WN" "p \<in> A"
    and \<Psi>: "\<And>l w w'. \<Psi> l w \<Longrightarrow> link_continues w w' \<Longrightarrow> \<Psi> l w'"
    and E: "\<And>n e. ce_create env n = Some e \<Longrightarrow> e \<in> E" "\<And>q e. ce_spawn_thread env q = Some e \<Longrightarrow> e \<in> E"
  shows "triple pg valid E (phase pg GN WN SN (may_spawn A D) GL WL SL CL R \<Psi>)
    (spawn_processor pg env p) (phase pg GN WN SN (may_spawn A (insert p D)) GL WL SL CL R \<Psi>)"
proof -
  let ?ph = "\<lambda>\<Phi>. phase pg GN WN SN \<Phi> GL WL SL CL R \<Psi>"
  let ?mid = "\<lambda>q n. q = p \<or> may_spawn A D q n"
  let ?ready = "\<lambda>q n. if q = p then nd_ready_barrier n else may_spawn A D q n"
  have st: "stable_phase (may_spawn A D) \<Psi>" "stable_phase ?mid \<Psi>" "stable_phase ?ready \<Psi>"
    using \<Psi> by (auto simp: stable_phase_def may_spawn_def node_continues_def)
  have "triple pg valid E (?ph ?ready) (take_barrier_locked pg p) (?ph ?mid)"
  proof (rule tripleI)
    fix s :: "'g commit_state"
    assume a: "commit_inv pg valid (cs_graph s)" "?ph ?ready (cs_graph s)"
    then obtain n where "find_node pg p (cs_graph s) = Some n" "nd_ready_barrier n"
      using wanted_node [OF a(2) p(1)] by auto
    then show "outcome pg valid E (?ph ?mid) (take_barrier_locked pg p s)"
      using update_node_phase [OF a, of "\<lambda>n. n\<lparr>nd_ready_barrier := False\<rparr>" p ?mid]
      by (simp add: take_barrier_locked_def outcome_succeed)
  qed
  from triple_acquire_phase [OF o w st(3) triple_acquire_phase [OF o w st(3) this]]
  have take: "triple pg valid E (?ph ?ready) (\<lambda>s. take_barrier_locked pg p (acquire_lock env (acquire_lock env s))) (?ph ?mid)" .
  have "triple pg valid E (?ph ?mid) (read_strategy_locked pg p) (?ph ?mid)"
  proof (rule tripleI)
    fix s :: "'g commit_state"
    assume a: "commit_inv pg valid (cs_graph s)" "?ph ?mid (cs_graph s)"
    then obtain n where "find_node pg p (cs_graph s) = Some n" using wanted_node p(1) by blast
    then show "outcome pg valid E (?ph ?mid) (read_strategy_locked pg p s)"
      using a by (simp add: read_strategy_locked_def outcome_succeed)
  qed
  from triple_acquire_phase [OF o w st(2) this]
  have strategy: "triple pg valid E (?ph ?mid) (\<lambda>s. read_strategy_locked pg p (acquire_lock env s)) (?ph ?mid)" .
  note chain = triple_seq [OF take triple_seq [OF strategy spawn_dedicated_thread_triple [OF o w st(2) p(1) E]]]
  have "triple pg valid E (?ph (may_spawn A D))
      (\<lambda>s. if already_running_locked pg p s then succeed s
           else and_then_step (\<lambda>s. take_barrier_locked pg p (acquire_lock env (acquire_lock env s)))
             (and_then_step (\<lambda>s. read_strategy_locked pg p (acquire_lock env s)) (spawn_dedicated_thread pg env p)) s)
      (?ph (may_spawn A (insert p D)))"
  proof (rule tripleI)
    fix s :: "'g commit_state"
    assume a: "commit_inv pg valid (cs_graph s)" "?ph (may_spawn A D) (cs_graph s)"
    obtain n where n: "find_node pg p (cs_graph s) = Some n" "may_spawn A D p n" using wanted_node [OF a(2) p(1)] by auto
    have no_child: "\<not> nd_subprocess_handle n" by (rule commit_inv_no_child [OF a(1) n(1)])
    have strengthen: "?ph \<Phi> (cs_graph s)" if "\<And>q m. q \<noteq> p \<Longrightarrow> may_spawn A D q m \<Longrightarrow> \<Phi> q m" "\<Phi> p n" for \<Phi>
    proof -
      have "node_assert GN WN SN \<Phi> q (find_node pg q (cs_graph s))" for q
        using a(2) that n unfolding phase_def asserts_def
        by (cases "q = p") (auto simp: node_assert_def split: option.splits dest!: spec [of _ q])
      then show ?thesis using a(2) by (simp add: phase_def asserts_def)
    qed
    show "outcome pg valid E (?ph (may_spawn A (insert p D)))
        (if already_running_locked pg p s then succeed s
         else and_then_step (\<lambda>s. take_barrier_locked pg p (acquire_lock env (acquire_lock env s)))
             (and_then_step (\<lambda>s. read_strategy_locked pg p (acquire_lock env s)) (spawn_dedicated_thread pg env p)) s)"
    proof (cases "already_running_locked pg p s")
      case True
      then have "nd_thread_handle n" using n no_child by (simp add: already_running_locked_def)
      then have "?ph (may_spawn A (insert p D)) (cs_graph s)" by (intro strengthen) (auto simp: may_spawn_def)
      then show ?thesis using True a(1) by (simp add: outcome_succeed)
    next
      case False
      then have "nd_ready_barrier n" using n p(2) by (auto simp: already_running_locked_def may_spawn_def)
      then have "?ph ?ready (cs_graph s)" by (intro strengthen) auto
      then show ?thesis using False tripleD [OF chain a(1)] by simp
    qed
  qed
  from triple_acquire_phase [OF o w st(1) this] show ?thesis by (simp add: spawn_processor_def [abs_def] Let_def)
qed

lemma phase_weaken:
  assumes "phase pg GN WN SN \<Phi> GL WL SL CL R \<Psi> g"
    and "\<And>p n. \<Phi> p n \<Longrightarrow> \<Phi>' p n" "\<And>l w. \<Psi> l w \<Longrightarrow> \<Psi>' l w"
  shows "phase pg GN WN SN \<Phi>' GL WL SL CL R \<Psi>' g"
proof -
  have "node_assert GN WN SN \<Phi>' p x" if "node_assert GN WN SN \<Phi> p x" for p x
    using that assms(2) by (auto simp: node_assert_def split: option.splits)
  moreover have "link_assert GL WL SL CL R \<Psi>' l x" if "link_assert GL WL SL CL R \<Psi> l x" for l x
    using that assms(3) by (auto simp: link_assert_def split: option.splits)
  ultimately show ?thesis using assms(1) by (simp add: phase_def asserts_def)
qed

lemma await_ready_triple:
  assumes o: "others_behave pg valid known env" and w: "within known GN WN SN GL WL SL" and p: "p \<in> WN"
    and \<Psi>: "\<And>l w w'. \<Psi> l w \<Longrightarrow> link_continues w w' \<Longrightarrow> \<Psi> l w'"
  shows "triple pg valid E (phase pg GN WN SN (\<lambda>q n. q \<in> A \<longrightarrow> nd_thread_handle n \<and> (q \<in> D \<longrightarrow> ce_ready env q \<longrightarrow> nd_instance n)) GL WL SL CL R \<Psi>)
    (await_ready pg env p)
    (phase pg GN WN SN (\<lambda>q n. q \<in> A \<longrightarrow> nd_thread_handle n \<and> (q \<in> insert p D \<longrightarrow> ce_ready env q \<longrightarrow> nd_instance n)) GL WL SL CL R \<Psi>)"
    (is "triple _ _ _ ?P _ ?Q")
proof -
  have st: "stable_phase (\<lambda>q n. q \<in> A \<longrightarrow> nd_thread_handle n \<and> (q \<in> D \<longrightarrow> ce_ready env q \<longrightarrow> nd_instance n)) \<Psi>"
    using \<Psi> by (auto simp: stable_phase_def node_continues_def)
  have "triple pg valid E ?P (\<lambda>s. if ce_ready env p then succeed (on_graph (attach_instance pg p) s) else succeed s) ?Q"
  proof (rule tripleI)
    fix s :: "'g commit_state"
    assume a: "commit_inv pg valid (cs_graph s)" "?P (cs_graph s)"
    have "commit_inv pg valid (attach_instance pg p (cs_graph s))" "?Q (attach_instance pg p (cs_graph s))"
      unfolding attach_instance_def by (rule update_node_phase [OF a]; auto split: if_splits)+
    moreover have "?Q (cs_graph s)" if "\<not> ce_ready env p" by (rule phase_weaken [OF a(2)]) (use that in auto)
    ultimately show "outcome pg valid E ?Q (if ce_ready env p then succeed (on_graph (attach_instance pg p) s) else succeed s)"
      using a(1) by (cases "ce_ready env p") (simp_all add: outcome_succeed)
  qed
  from triple_acquire_phase [OF o w st this] show ?thesis by (simp add: await_ready_def [abs_def] Let_def)
qed

text \<open>WIRE: opening a channel changes the state of its link and the metrics of its destination.\<close>

lemma publishing_phase:
  assumes "commit_inv pg valid g" "phase pg GN WN SN \<Phi> GL WL SL CL R \<Psi> g" "stable_phase \<Phi> \<Psi>"
    and "\<And>n. nd_id (f n) = nd_id n" "\<And>n. nd_subprocess_handle (f n) = nd_subprocess_handle n"
    "\<And>n. node_continues n (f n)"
  shows "commit_inv pg valid (update_node pg p f g) \<and> phase pg GN WN SN \<Phi> GL WL SL CL R \<Psi> (update_node pg p f g)"
  using update_node_phase [OF assms(1,2), of f p \<Phi>] assms(3-6)
  by (auto simp: stable_phase_def node_continues_def)

lemma wire_rust_dest_phase:
  assumes "commit_inv pg valid g" "phase pg GN WN SN \<Phi> GL WL SL CL R \<Psi> g" "stable_phase \<Phi> \<Psi>"
    and "wire_rust_dest pg env p port l g = Inr g'"
  shows "commit_inv pg valid g' \<and> phase pg GN WN SN \<Phi> GL WL SL CL R \<Psi> g' \<and> (\<forall>k. find_link pg k g' = find_link pg k g)"
proof -
  define g1 where "g1 = publish_dropped_bag_counts_on_destination_node pg p g"
  have g1: "commit_inv pg valid g1 \<and> phase pg GN WN SN \<Phi> GL WL SL CL R \<Psi> g1"
    unfolding g1_def publish_dropped_bag_counts_on_destination_node_def
    by (rule publishing_phase [OF assms(1-3)]) (simp_all add: node_continues_def)
  have l1: "find_link pg k g1 = find_link pg k g" for k
    unfolding g1_def publish_dropped_bag_counts_on_destination_node_def
    by (rule find_link_update_node [OF commit_inv_graph [OF assms(1)]]) simp
  define g2 where "g2 = publish_device_matched_audio_window_contracts_on_destination_node pg p g1"
  have g2: "commit_inv pg valid g2 \<and> phase pg GN WN SN \<Phi> GL WL SL CL R \<Psi> g2"
    unfolding g2_def publish_device_matched_audio_window_contracts_on_destination_node_def
    by (rule publishing_phase [OF _ _ assms(3)]) (use g1 in \<open>simp_all add: node_continues_def\<close>)
  have "find_link pg k g2 = find_link pg k g1" for k
    unfolding g2_def publish_device_matched_audio_window_contracts_on_destination_node_def
    by (rule find_link_update_node) (use g1 commit_inv_graph in auto)
  moreover have "g' = g \<or> g' = g2"
    using assms(4) by (auto simp: wire_rust_dest_def and_then_Inr_iff g1_def g2_def split: if_splits)
  ultimately show ?thesis using assms(1,2) g2 l1 by auto
qed

lemma open_iceoryx2_service_phase:
  assumes inv: "commit_inv pg valid g" and ph: "phase pg GN WN SN \<Phi> GL WL SL CL R \<Psi> g" and st: "stable_phase \<Phi> \<Psi>"
    and op: "open_iceoryx2_service pg env l g = Inr g'"
    and \<Psi>': "\<And>k w. k \<noteq> l \<Longrightarrow> \<Psi> k w \<Longrightarrow> \<Psi>' k w"
      "\<And>w. \<Psi> l w \<Longrightarrow> \<Psi>' l (w\<lparr>lk_state_component := Some LinkWired\<rparr>)"
  shows "commit_inv pg valid g' \<and> phase pg GN WN SN \<Phi> GL WL SL CL R \<Psi>' g'"
proof -
  obtain g1 where g1: "g' = update_link pg l (\<lambda>w. w\<lparr>lk_state_component := Some LinkWired\<rparr>) g1"
    "commit_inv pg valid g1" "phase pg GN WN SN \<Phi> GL WL SL CL R \<Psi> g1"
    using op inv ph wire_rust_dest_phase [OF inv ph st]
    by (auto simp: open_iceoryx2_service_def and_then_Inr_iff Let_def split: option.splits if_splits)
  have "asserts pg (node_assert GN WN SN \<Phi>) (link_assert GL WL SL CL R \<Psi>') g'"
    unfolding g1(1)
  proof (rule asserts_update_link [OF g1(2) g1(3) [unfolded phase_def]])
    show "link_assert GL WL SL CL R \<Psi>' k x" if "k \<noteq> l" "link_assert GL WL SL CL R \<Psi> k x" for k x
      using that \<Psi>'(1) by (auto simp: link_assert_def split: option.splits)
    show "link_assert GL WL SL CL R \<Psi>' l None" if "link_assert GL WL SL CL R \<Psi> l None"
      using that by (auto simp: link_assert_def)
    show "link_assert GL WL SL CL R \<Psi>' l (Some (w\<lparr>lk_state_component := Some LinkWired\<rparr>))"
      if "link_assert GL WL SL CL R \<Psi> l (Some w)" for w
      using that \<Psi>'(2) by (auto simp: link_assert_def settled_link_def touches_def)
  qed simp_all
  moreover have "commit_inv pg valid g'" unfolding g1(1) by (rule commit_inv_update_link [OF g1(2)]) simp_all
  ultimately show ?thesis by (simp add: phase_def)
qed

lemma wire_step_triple:
  assumes o: "others_behave pg valid known env" and w: "within known GN WN SN GL WL SL" and l: "l \<in> WL"
    and \<Phi>: "\<And>p n n'. \<Phi> p n \<Longrightarrow> node_continues n n' \<Longrightarrow> \<Phi> p n'"
    and E: "\<And>l g w e. commit_inv pg valid g \<Longrightarrow> find_link pg l g = Some w \<Longrightarrow>
      open_iceoryx2_service pg (ce_wiring env) l g = Inl e \<Longrightarrow> e \<in> E"
  shows "triple pg valid E
    (phase pg GN WN SN \<Phi> GL WL SL CL R (\<lambda>l w. l \<in> D \<longrightarrow> lk_state_component w = Some LinkWired))
    (wire_step pg env l)
    (phase pg GN WN SN \<Phi> GL WL SL CL R (\<lambda>k w. k \<in> insert l D \<longrightarrow> lk_state_component w = Some LinkWired))"
    (is "triple _ _ _ ?P _ ?Q")
proof -
  have st: "stable_phase \<Phi> (\<lambda>l w. l \<in> D \<longrightarrow> lk_state_component w = Some LinkWired)"
    using \<Phi> unfolding stable_phase_def link_continues_def by metis
  have "triple pg valid E ?P (wire_locked pg env l) ?Q"
  proof (rule tripleI)
    fix s :: "'g commit_state"
    assume a: "commit_inv pg valid (cs_graph s)" "?P (cs_graph s)"
    then obtain w where f: "find_link pg l (cs_graph s) = Some w" using wanted_link l by blast
    show "outcome pg valid E ?Q (wire_locked pg env l s)"
    proof (cases "open_iceoryx2_service pg (ce_wiring env) l (cs_graph s)")
      case (Inl e)
      then show ?thesis using f a(1) E [OF a(1) f Inl] by (simp add: wire_locked_def outcome_raise Let_def)
    next
      case (Inr g')
      have "commit_inv pg valid g' \<and> ?Q g'"
        by (rule open_iceoryx2_service_phase [OF a st Inr]) auto
      then show ?thesis using f Inr by (simp add: wire_locked_def outcome_succeed Let_def)
    qed
  qed
  from triple_acquire_phase [OF o w st this] show ?thesis by (simp add: wire_step_def [abs_def])
qed

lemma config_step_triple:
  assumes o: "others_behave pg valid known env" and w: "within known GN WN SN GL WL SL" and st: "stable_phase \<Phi> \<Psi>"
    and E: "\<And>q c e. ce_apply_config env q c = Some e \<Longrightarrow> e \<in> E"
      "ProcessorNotFound (config_not_found_message p) \<in> E"
  shows "triple pg valid E (phase pg GN WN SN \<Phi> GL WL SL CL R \<Psi>) (config_step pg env p)
    (phase pg GN WN SN \<Phi> GL WL SL CL R \<Psi>)" (is "triple _ _ _ ?P _ _")
proof -
  have "triple pg valid E ?P (config_locked pg env p) ?P"
  proof (rule tripleI)
    fix s :: "'g commit_state"
    assume "commit_inv pg valid (cs_graph s)" "?P (cs_graph s)"
    then show "outcome pg valid E ?P (config_locked pg env p s)"
      using E by (auto simp: config_locked_def outcome_succeed outcome_raise split: option.splits)
  qed
  from triple_acquire_phase [OF o w st this] show ?thesis by (simp add: config_step_def [abs_def])
qed

lemma carry_out_removals:
  assumes o: "others_behave pg valid known env"
    and k: "within known {} WN SN {} WL SL" "set ps \<subseteq> known" "set ls \<subseteq> known"
    and disj: "WN \<inter> set ps = {}" "WL \<inter> set ls = {}"
  shows "triple pg valid E
    (phase pg {} WN SN (\<lambda>_ _. True) {} WL SL (set ls) (set ps) (\<lambda>_ w. \<forall>p \<in> set ps. \<not> touches p w))
    (and_then_step (for_each (remove_link pg env) ls) (for_each (destroy_processor pg env) ps))
    (phase pg (set ps) WN SN (\<lambda>_ _. True) (set ls) WL SL (set ls) (set ps) (\<lambda>_ w. \<forall>p \<in> set ps. \<not> touches p w))"
proof -
  let ?T = "\<lambda>_ _. True" and ?apart = "\<lambda>_ w. \<forall>p \<in> set ps. \<not> touches p w"
  let ?ph = "\<lambda>GN GL. phase pg GN WN SN ?T GL WL SL (set ls) (set ps) ?apart"
  have apart: "stable_phase ?T ?apart" unfolding stable_phase_def using touches_continues by blast
  have "triple pg valid E (?ph {} {}) (for_each (remove_link pg env) ls) (?ph {} (set ls))"
    by (rule triple_for_each [where S = "?ph {}"], rule remove_link_triple [OF o _ apart])
      (use k disj in \<open>auto simp: within_def\<close>)
  moreover have "triple pg valid E (?ph {} (set ls)) (for_each (destroy_processor pg env) ps) (?ph (set ps) (set ls))"
    by (rule triple_for_each [where S = "\<lambda>D. ?ph D (set ls)"], rule destroy_processor_triple [OF o _ apart])
      (use k disj in \<open>auto simp: within_def\<close>)
  ultimately show ?thesis by (rule triple_seq)
qed

lemma carry_out_additions:
  assumes o: "others_behave pg valid known env" and w: "within known GN WN SN GL WL SL" and sub: "set ps \<subseteq> WN"
    and E: "\<And>n e. ce_create env n = Some e \<Longrightarrow> e \<in> E" "\<And>q e. ce_spawn_thread env q = Some e \<Longrightarrow> e \<in> E"
  shows "triple pg valid E (phase pg GN WN SN (\<lambda>_ _. True) GL WL SL CL R (\<lambda>_ _. True))
    (and_then_step (for_each (prepare_step pg env) ps)
       (and_then_step (for_each (spawn_processor pg env) ps) (for_each (await_ready pg env) ps)))
    (phase pg GN WN SN (\<lambda>p n. p \<in> set ps \<longrightarrow> ce_ready env p \<longrightarrow> nd_instance n) GL WL SL CL R (\<lambda>_ _. True))"
proof -
  let ?ph = "\<lambda>\<Phi>. phase pg GN WN SN \<Phi> GL WL SL CL R (\<lambda>_ _. True)"
  let ?prepared = "\<lambda>D p n. p \<in> D \<longrightarrow> nd_ready_barrier n"
  let ?attached = "\<lambda>D p n. p \<in> set ps \<longrightarrow> nd_thread_handle n \<and> (p \<in> D \<longrightarrow> ce_ready env p \<longrightarrow> nd_instance n)"
  have "triple pg valid E (?ph (?prepared {})) (for_each (prepare_step pg env) ps) (?ph (?prepared (set ps)))"
    by (rule triple_for_each [where S = "\<lambda>D. ?ph (?prepared D)"], rule prepare_step_triple [OF o w])
      (use sub in \<open>auto simp: stable_phase_def node_continues_def prepare_node_def\<close>)
  then have prepare: "triple pg valid E (?ph (\<lambda>_ _. True)) (for_each (prepare_step pg env) ps) (?ph (may_spawn (set ps) {}))"
    by (rule triple_weaken) (auto simp: may_spawn_def elim!: phase_weaken)
  have "triple pg valid E (?ph (may_spawn (set ps) {})) (for_each (spawn_processor pg env) ps) (?ph (may_spawn (set ps) (set ps)))"
    by (rule triple_for_each [where S = "\<lambda>D. ?ph (may_spawn (set ps) D)"], rule spawn_processor_triple [OF o w])
      (use sub E in auto)
  then have spawn: "triple pg valid E (?ph (may_spawn (set ps) {})) (for_each (spawn_processor pg env) ps) (?ph (?attached {}))"
    by (rule triple_weaken) (auto simp: may_spawn_def elim!: phase_weaken)
  have "triple pg valid E (?ph (?attached {})) (for_each (await_ready pg env) ps) (?ph (?attached (set ps)))"
    by (rule triple_for_each [where S = "\<lambda>D. ?ph (?attached D)"], rule await_ready_triple [OF o w])
      (use sub in auto)
  then have ready: "triple pg valid E (?ph (?attached {})) (for_each (await_ready pg env) ps) (?ph (\<lambda>p n. p \<in> set ps \<longrightarrow> ce_ready env p \<longrightarrow> nd_instance n))"
    by (rule triple_weaken) (auto elim!: phase_weaken)
  show ?thesis by (intro triple_seq [OF prepare] triple_seq [OF spawn] ready)
qed

lemma carry_out_links_and_configs:
  assumes o: "others_behave pg valid known env" and w: "within known GN WN SN GL WL SL" and sub: "set ls \<subseteq> WL"
    and \<Phi>: "\<And>p n n'. \<Phi> p n \<Longrightarrow> node_continues n n' \<Longrightarrow> \<Phi> p n'"
    and E: "\<And>l g w e. commit_inv pg valid g \<Longrightarrow> find_link pg l g = Some w \<Longrightarrow>
        open_iceoryx2_service pg (ce_wiring env) l g = Inl e \<Longrightarrow> e \<in> E"
      "\<And>q c e. ce_apply_config env q c = Some e \<Longrightarrow> e \<in> E"
      "\<And>p. p \<in> set cs \<Longrightarrow> ProcessorNotFound (config_not_found_message p) \<in> E"
  shows "triple pg valid E (phase pg GN WN SN \<Phi> GL WL SL CL R (\<lambda>_ _. True))
    (and_then_step (for_each (wire_step pg env) ls)
       (and_then_step (for_each (config_step pg env) cs)
         (\<lambda>s. succeed (publish CompilerDidCompile ((acquire_lock env s)\<lparr>cs_compiled_at := Some (ce_now env)\<rparr>)))))
    (phase pg GN WN SN \<Phi> GL WL SL CL R (\<lambda>l w. l \<in> set ls \<longrightarrow> lk_state_component w = Some LinkWired))"
proof -
  let ?ph = "\<lambda>D. phase pg GN WN SN \<Phi> GL WL SL CL R (\<lambda>l w. l \<in> D \<longrightarrow> lk_state_component w = Some LinkWired)"
  have st: "stable_phase \<Phi> (\<lambda>l w. l \<in> D \<longrightarrow> lk_state_component w = Some LinkWired)" for D
    using \<Phi> unfolding stable_phase_def link_continues_def by metis
  have wire: "triple pg valid E (?ph {}) (for_each (wire_step pg env) ls) (?ph (set ls))"
    by (rule triple_for_each [where S = ?ph], rule wire_step_triple [OF o w _ \<Phi> E(1)]) (use sub in auto)
  have config: "triple pg valid E (?ph (set ls)) (for_each (config_step pg env) cs) (?ph (set ls))"
    by (rule triple_for_each [where S = "\<lambda>_. ?ph (set ls)"], rule config_step_triple [OF o w st]) (use E in auto)
  have "triple pg valid E (?ph (set ls)) (\<lambda>s. succeed (publish CompilerDidCompile (s\<lparr>cs_compiled_at := Some (ce_now env)\<rparr>))) (?ph (set ls))"
    by (rule tripleI) (simp add: outcome_succeed)
  from triple_acquire_phase [OF o w st this] have final: "triple pg valid E (?ph (set ls))
      (\<lambda>s. succeed (publish CompilerDidCompile ((acquire_lock env s)\<lparr>cs_compiled_at := Some (ce_now env)\<rparr>))) (?ph (set ls))" .
  show ?thesis using triple_seq [OF wire triple_seq [OF config final]] by simp
qed

lemma and_then_step_assoc: "and_then_step (and_then_step f h) k = and_then_step f (and_then_step h k)"
  by (rule ext) (auto simp: and_then_step_def split: prod.splits sum.splits)

lemma for_each_append: "for_each f (xs @ ys) = and_then_step (for_each f xs) (for_each f ys)"
proof (induction xs)
  case Nil
  show ?case by (rule ext) (simp add: and_then_step_def succeed_def)
qed (simp add: and_then_step_assoc)

text \<open>A batch that adds a processor it has just removed goes no further than preparing it.\<close>

lemma carry_out_gives_up:
  fixes plan env
  defines "A \<equiv> set (processors_to_add plan)" and "R \<equiv> set (processors_to_remove plan)" and "C \<equiv> set (links_to_remove plan)"
  assumes o: "others_behave pg valid known env"
    and k: "within known R WN SN C WL SL" "A - R \<subseteq> WN" "WN \<inter> R = {}" "WL \<inter> C = {}" "A \<inter> R \<noteq> {}"
    and E: "\<And>p. p \<in> A \<inter> R \<Longrightarrow> ProcessorNotFound (not_found_message p) \<in> E"
  shows "triple pg valid E (phase pg {} WN SN (\<lambda>_ _. True) {} WL SL C R (\<lambda>_ w. \<forall>p \<in> R. \<not> touches p w))
    (carry_out pg env plan) (\<lambda>_. False)"
proof -
  let ?ph = "\<lambda>\<Phi>. phase pg R WN SN \<Phi> C WL SL C R (\<lambda>_ _. True)"
  have "triple pg valid E
      (phase pg {} WN SN (\<lambda>_ _. True) {} WL SL C R (\<lambda>_ w. \<forall>p \<in> R. \<not> touches p w))
      (and_then_step (for_each (remove_link pg env) (links_to_remove plan)) (for_each (destroy_processor pg env) (processors_to_remove plan)))
      (phase pg R WN SN (\<lambda>_ _. True) C WL SL C R (\<lambda>_ w. \<forall>p \<in> R. \<not> touches p w))"
    using k unfolding R_def C_def by (intro carry_out_removals [OF o]) (auto simp: within_def)
  then have removals: "triple pg valid E
      (phase pg {} WN SN (\<lambda>_ _. True) {} WL SL C R (\<lambda>_ w. \<forall>p \<in> R. \<not> touches p w))
      (and_then_step (for_each (remove_link pg env) (links_to_remove plan)) (for_each (destroy_processor pg env) (processors_to_remove plan)))
      (?ph (\<lambda>_ _. True))"
    by (rule triple_weaken) (auto elim!: phase_weaken)
  obtain xs p ys where ps: "processors_to_add plan = xs @ p # ys" "p \<in> R" "set xs \<inter> R = {}"
    using k(5) split_list_first_prop [of "processors_to_add plan" "\<lambda>p. p \<in> R"] unfolding A_def by blast
  let ?prepared = "\<lambda>D q n. q \<in> D \<longrightarrow> nd_ready_barrier n"
  have st: "stable_phase (?prepared D) (\<lambda>_ _. True)" for D by (auto simp: stable_phase_def node_continues_def)
  have "triple pg valid E (?ph (?prepared {})) (for_each (prepare_step pg env) xs) (?ph (?prepared (set xs)))"
    by (rule triple_for_each [where S = "\<lambda>D. ?ph (?prepared D)"], rule prepare_step_triple [OF o k(1)])
      (use k(2) ps in \<open>auto simp: A_def stable_phase_def node_continues_def prepare_node_def\<close>)
  then have before: "triple pg valid E (?ph (\<lambda>_ _. True)) (for_each (prepare_step pg env) xs) (?ph (?prepared (set xs)))"
    by simp
  have "p \<in> A \<inter> R" using ps by (simp add: A_def)
  note here = prepare_missing_triple [OF o k(1) st [of "set xs"] ps(2) E [OF this]]
  have never: "triple pg valid E (\<lambda>_. False) f (\<lambda>_. False)" for f by (simp add: triple_def)
  have prepare: "triple pg valid E (?ph (\<lambda>_ _. True)) (for_each (prepare_step pg env) (processors_to_add plan)) (\<lambda>_. False)"
    unfolding ps(1) for_each_append for_each.simps by (rule triple_seq [OF before triple_seq [OF here never]])
  show ?thesis unfolding carry_out_def
    by (rule triple_seq [OF removals triple_seq [OF prepare never], unfolded and_then_step_assoc])
qed

lemma carry_out_triple:
  fixes plan env
  defines "A \<equiv> set (processors_to_add plan)" and "L \<equiv> set (links_to_add plan)"
    and "R \<equiv> set (processors_to_remove plan)" and "C \<equiv> set (links_to_remove plan)"
  assumes o: "others_behave pg valid known env"
    and k: "within known R WN SN C WL SL" "A \<subseteq> WN" "L \<subseteq> WL" "WN \<inter> R = {}" "WL \<inter> C = {}"
    and E: "\<And>n e. ce_create env n = Some e \<Longrightarrow> e \<in> E" "\<And>q e. ce_spawn_thread env q = Some e \<Longrightarrow> e \<in> E"
      "\<And>l g w e. commit_inv pg valid g \<Longrightarrow> find_link pg l g = Some w \<Longrightarrow>
        open_iceoryx2_service pg (ce_wiring env) l g = Inl e \<Longrightarrow> e \<in> E"
      "\<And>q c e. ce_apply_config env q c = Some e \<Longrightarrow> e \<in> E"
      "\<And>p. p \<in> set (config_updates plan) \<Longrightarrow> ProcessorNotFound (config_not_found_message p) \<in> E"
  shows "triple pg valid E
    (phase pg {} WN SN (\<lambda>_ _. True) {} WL SL C R (\<lambda>_ w. \<forall>p \<in> R. \<not> touches p w))
    (carry_out pg env plan)
    (phase pg R WN SN (\<lambda>p n. p \<in> A \<longrightarrow> ce_ready env p \<longrightarrow> nd_instance n) C WL SL C R
      (\<lambda>l w. l \<in> L \<longrightarrow> lk_state_component w = Some LinkWired))"
proof -
  have "triple pg valid E
      (phase pg {} WN SN (\<lambda>_ _. True) {} WL SL C R (\<lambda>_ w. \<forall>p \<in> R. \<not> touches p w))
      (and_then_step (for_each (remove_link pg env) (links_to_remove plan)) (for_each (destroy_processor pg env) (processors_to_remove plan)))
      (phase pg R WN SN (\<lambda>_ _. True) C WL SL C R (\<lambda>_ w. \<forall>p \<in> R. \<not> touches p w))"
    using k unfolding R_def C_def by (intro carry_out_removals [OF o]) (auto simp: within_def)
  then have removals: "triple pg valid E
      (phase pg {} WN SN (\<lambda>_ _. True) {} WL SL C R (\<lambda>_ w. \<forall>p \<in> R. \<not> touches p w))
      (and_then_step (for_each (remove_link pg env) (links_to_remove plan)) (for_each (destroy_processor pg env) (processors_to_remove plan)))
      (phase pg R WN SN (\<lambda>_ _. True) C WL SL C R (\<lambda>_ _. True))"
    by (rule triple_weaken) (auto elim!: phase_weaken)
  note additions = carry_out_additions [OF o k(1) k(2) [unfolded A_def] E(1,2)]
  note links = carry_out_links_and_configs [OF o k(1) k(3) [unfolded L_def] _ E(3,4,5)]
  have "triple pg valid E (phase pg {} WN SN (\<lambda>_ _. True) {} WL SL C R (\<lambda>_ w. \<forall>p \<in> R. \<not> touches p w)) (carry_out pg env plan)
      (phase pg R WN SN (\<lambda>p n. p \<in> set (processors_to_add plan) \<longrightarrow> ce_ready env p \<longrightarrow> nd_instance n) C WL SL C R
        (\<lambda>l w. l \<in> set (links_to_add plan) \<longrightarrow> lk_state_component w = Some LinkWired))"
    unfolding carry_out_def
    by (rule triple_seq [OF removals triple_seq [OF additions links], unfolded and_then_step_assoc])
      (auto simp: node_continues_def)
  then show ?thesis by (simp add: A_def L_def)
qed

end

subsection \<open>The plan\<close>

definition marked :: "processor_node option \<Rightarrow> bool" where
  "marked x \<longleftrightarrow> (case x of None \<Rightarrow> True | Some n \<Rightarrow> nd_pending_deletion n)"

definition marked_link :: "link option \<Rightarrow> bool" where
  "marked_link x \<longleftrightarrow> (case x of None \<Rightarrow> True | Some w \<Rightarrow> lk_pending_deletion w)"

text \<open>
  Whatever a batch removes is marked for deletion or already absent, except for the processors that
  \<open>stop\<close> has queued: \<open>stops\<close> says whether it may have.
\<close>

definition log_consistent :: "'g digraph_api \<Rightarrow> bool \<Rightarrow> pending_operation list \<Rightarrow> 'g \<Rightarrow> bool" where
  "log_consistent pg stops ops g \<longleftrightarrow>
     (\<not> stops \<longrightarrow> (\<forall>p. RemoveProcessor p \<in> set ops \<longrightarrow> marked (find_node pg p g))) \<and>
     (\<forall>l. RemoveLink l \<in> set ops \<longrightarrow> marked_link (find_link pg l g))"

definition unmarked :: "'g digraph_api \<Rightarrow> pending_operation list \<Rightarrow> 'g \<Rightarrow> string set" where
  "unmarked pg ops g = {p. RemoveProcessor p \<in> set ops \<and> \<not> marked (find_node pg p g)}"

definition ids_of :: "pending_operation list \<Rightarrow> string set" where
  "ids_of ops = {i. \<exists>op \<in> set ops. op_processor_id op = Some i \<or> op_link_id op = Some i}"

text \<open>
  \<open>KN\<close> and \<open>KL\<close> are the processors and links the batch leaves alone: they were there when it was
  committed, it does not remove them, and no removed processor is at an end of such a link. \<open>U\<close>
  are the processors it removes unmarked.
\<close>

definition plan_node :: "string set \<Rightarrow> string set \<Rightarrow> pending_operation list \<Rightarrow> pending_operation list \<Rightarrow> compilation_plan \<Rightarrow>
    string \<Rightarrow> processor_node option \<Rightarrow> bool" where
  "plan_node U KN ops pre plan p x \<longleftrightarrow> (RemoveProcessor p \<in> set ops \<longrightarrow> p \<in> U \<or> marked x)
     \<and> (p \<in> KN \<longrightarrow> x \<noteq> None) \<and> (p \<in> set (processors_to_add plan) \<longrightarrow> x \<noteq> None)
     \<and> (AddProcessor p \<in> set pre \<longrightarrow> p \<notin> set (processors_to_add plan) \<longrightarrow> settled x)"

definition plan_link :: "string set \<Rightarrow> pending_operation list \<Rightarrow> pending_operation list \<Rightarrow> compilation_plan \<Rightarrow>
    string \<Rightarrow> link option \<Rightarrow> bool" where
  "plan_link KL ops pre plan l x \<longleftrightarrow> (RemoveLink l \<in> set ops \<longrightarrow> marked_link x)
     \<and> (l \<in> KL \<longrightarrow> (case x of None \<Rightarrow> False | Some w \<Rightarrow> \<forall>p. RemoveProcessor p \<in> set ops \<longrightarrow> \<not> touches p w))
     \<and> (l \<in> set (links_to_add plan) \<longrightarrow> x \<noteq> None)
     \<and> (AddLink l \<in> set pre \<longrightarrow> l \<notin> set (links_to_add plan) \<longrightarrow>
          (case x of None \<Rightarrow> True | Some w \<Rightarrow> lk_pending_deletion w \<or> lk_state_component w = Some LinkWired))"

definition plan_sorted :: "string set \<Rightarrow> pending_operation list \<Rightarrow> pending_operation list \<Rightarrow> compilation_plan \<Rightarrow> bool" where
  "plan_sorted U ops pre plan \<longleftrightarrow>
     set (processors_to_remove plan) = {p. RemoveProcessor p \<in> set pre}
     \<and> set (links_to_remove plan) = {l. RemoveLink l \<in> set pre}
     \<and> set (config_updates plan) = {p. UpdateProcessorConfig p \<in> set pre}
     \<and> set (processors_to_add plan) \<subseteq> {p. AddProcessor p \<in> set pre \<and> (RemoveProcessor p \<in> set ops \<longrightarrow> p \<in> U)}
     \<and> set (links_to_add plan) \<subseteq> {l. AddLink l \<in> set pre \<and> RemoveLink l \<notin> set ops}"

lemma stable_plan:
  assumes "ids_of ops \<union> KN \<union> KL \<subseteq> known" "set pre \<subseteq> set ops" "plan_sorted U ops pre plan"
  shows "stable_assertions known (plan_node U KN ops pre plan) (plan_link KL ops pre plan)"
proof -
  have "plan_node U KN ops pre plan p x" "plan_link KL ops pre plan p y" if "p \<notin> known" for p x y
  proof -
    have "AddProcessor p \<notin> set ops" "RemoveProcessor p \<notin> set ops" "AddLink p \<notin> set ops" "RemoveLink p \<notin> set ops"
      "p \<notin> KN" "p \<notin> KL"
      using that assms(1) by (force simp: ids_of_def)+
    then show "plan_node U KN ops pre plan p x" "plan_link KL ops pre plan p y"
      using assms(2,3) by (auto simp: plan_node_def plan_link_def plan_sorted_def)
  qed
  moreover have "plan_node U KN ops pre plan p (Some n')" if "plan_node U KN ops pre plan p (Some n)" "node_continues n n'" for p n n'
    using that by (auto simp: plan_node_def marked_def settled_def node_continues_def)
  moreover have "plan_link KL ops pre plan l (Some w')" if "plan_link KL ops pre plan l (Some w)" "link_continues w w'" for l w w'
    using that touches_continues [OF that(2)] by (auto simp: plan_link_def marked_link_def link_continues_def)
  ultimately show ?thesis unfolding stable_assertions_def by blast
qed

definition unplanned_nodes :: "pending_operation list \<Rightarrow> compilation_plan \<Rightarrow> string set" where
  "unplanned_nodes ops plan = {p. AddProcessor p \<in> set ops} - set (processors_to_add plan)"

definition unplanned_links :: "pending_operation list \<Rightarrow> compilation_plan \<Rightarrow> string set" where
  "unplanned_links ops plan = {l. AddLink l \<in> set ops} - set (links_to_add plan)"

text \<open>What taking the lock finds, for an assertion that is stable.\<close>

lemma acquire_stable:
  assumes "others_behave pg valid known env" "stable_assertions known NA LA"
    and "commit_inv pg valid (cs_graph s)" "asserts pg NA LA (cs_graph s)"
  shows "commit_inv pg valid (cs_graph (acquire_lock env s))" "asserts pg NA LA (cs_graph (acquire_lock env s))"
proof -
  have "graph_continues pg valid known (cs_graph s) (cs_graph (acquire_lock env s))"
    using assms(1,3) by (simp add: others_behave_def)
  then show "commit_inv pg valid (cs_graph (acquire_lock env s))" "asserts pg NA LA (cs_graph (acquire_lock env s))"
    using asserts_acquire [OF assms(2) _ assms(4)] by (auto simp: graph_continues_def)
qed

definition plan_inv ::
    "'g digraph_api \<Rightarrow> ('g \<Rightarrow> bool) \<Rightarrow> string set \<Rightarrow> string set \<Rightarrow> string set \<Rightarrow> pending_operation list \<Rightarrow>
      pending_operation list \<Rightarrow> compilation_plan \<Rightarrow> 'g \<Rightarrow> bool" where
  "plan_inv pg valid U KN KL ops pre plan g \<longleftrightarrow> commit_inv pg valid g \<and> plan_sorted U ops pre plan
     \<and> asserts pg (plan_node U KN ops pre plan) (plan_link KL ops pre plan) g"

context digraph
begin

lemma categorise_step:
  assumes o: "others_behave pg valid known env" and ids: "ids_of ops \<union> KN \<union> KL \<subseteq> known" and sub: "set (pre @ [op]) \<subseteq> set ops"
    and inv: "plan_inv pg valid U KN KL ops pre plan (cs_graph s)"
    and c: "categorise pg env op (plan, s) = (plan', s')"
  shows "plan_inv pg valid U KN KL ops (pre @ [op]) plan' (cs_graph s')"
proof -
  note inv = inv [unfolded plan_inv_def]
  have st: "stable_assertions known (plan_node U KN ops pre plan) (plan_link KL ops pre plan)"
    using stable_plan [OF ids] sub inv by simp
  note acq = acquire_stable [OF o st, of s]
  show ?thesis
  proof (cases op)
    case (AddProcessor p)
    let ?g = "cs_graph (acquire_lock env s)"
    have g: "commit_inv pg valid ?g" "asserts pg (plan_node U KN ops pre plan) (plan_link KL ops pre plan) ?g"
      using acq inv by auto
    have e: "traversal_exists (vertex pg p ?g) \<longleftrightarrow> find_node pg p ?g \<noteq> None"
      using find_node_None_iff [OF commit_inv_graph [OF g(1)], of p] by (simp add: traversal_exists_def)
    define fresh where "fresh \<longleftrightarrow> (\<exists>n. find_node pg p ?g = Some n \<and> \<not> nd_pending_deletion n \<and> \<not> nd_instance n)"
    have r: "s' = acquire_lock env s"
      "plan' = (if fresh then plan\<lparr>processors_to_add := processors_to_add plan @ [p]\<rparr> else plan)"
      using c e by (auto simp: AddProcessor Let_def fresh_def split: option.splits if_splits)
    have p: "plan_node U KN ops pre plan p (find_node pg p ?g)" using g(2) by (simp add: asserts_def)
    then have "fresh \<Longrightarrow> RemoveProcessor p \<in> set ops \<Longrightarrow> p \<in> U" by (auto simp: plan_node_def marked_def fresh_def)
    then have "plan_sorted U ops (pre @ [op]) plan'" using inv by (auto simp: plan_sorted_def r AddProcessor)
    moreover have "plan_node U KN ops (pre @ [op]) plan' q (find_node pg q ?g)" for q
    proof (cases "q = p")
      case True
      then show ?thesis using p by (cases "find_node pg p ?g") (auto simp: plan_node_def r AddProcessor fresh_def settled_def)
    next
      case False
      moreover have "plan_node U KN ops pre plan q (find_node pg q ?g)" using g(2) by (simp add: asserts_def)
      ultimately show ?thesis by (auto simp: plan_node_def r AddProcessor)
    qed
    moreover have "plan_link KL ops (pre @ [op]) plan' l (find_link pg l ?g)" for l
      using g(2) by (auto simp: asserts_def plan_link_def r AddProcessor)
    ultimately show ?thesis using g(1) by (simp add: plan_inv_def asserts_def r(1))
  next
    case (AddLink l)
    let ?g = "cs_graph (acquire_lock env s)"
    have g: "commit_inv pg valid ?g" "asserts pg (plan_node U KN ops pre plan) (plan_link KL ops pre plan) ?g"
      using acq inv by auto
    define fresh where "fresh \<longleftrightarrow>
      (\<exists>w. find_link pg l ?g = Some w \<and> \<not> lk_pending_deletion w \<and> lk_state_component w \<noteq> Some LinkWired)"
    have r: "s' = acquire_lock env s"
      "plan' = (if fresh then plan\<lparr>links_to_add := links_to_add plan @ [l]\<rparr> else plan)"
      using c by (auto simp: AddLink Let_def fresh_def split: option.splits if_splits)
    have l: "plan_link KL ops pre plan l (find_link pg l ?g)" using g(2) by (simp add: asserts_def)
    then have "fresh \<Longrightarrow> RemoveLink l \<notin> set ops" by (auto simp: plan_link_def marked_link_def fresh_def)
    then have "plan_sorted U ops (pre @ [op]) plan'" using inv by (auto simp: plan_sorted_def r AddLink)
    moreover have "plan_link KL ops (pre @ [op]) plan' k (find_link pg k ?g)" for k
    proof (cases "k = l")
      case True
      then show ?thesis using l by (cases "find_link pg l ?g") (auto simp: plan_link_def r AddLink fresh_def)
    next
      case False
      moreover have "plan_link KL ops pre plan k (find_link pg k ?g)" using g(2) by (simp add: asserts_def)
      ultimately show ?thesis by (auto simp: plan_link_def r AddLink)
    qed
    moreover have "plan_node U KN ops (pre @ [op]) plan' q (find_node pg q ?g)" for q
      using g(2) by (auto simp: asserts_def plan_node_def r AddLink)
    ultimately show ?thesis using g(1) by (simp add: plan_inv_def asserts_def r(1))
  qed (use c inv in \<open>auto simp: plan_inv_def plan_sorted_def asserts_def plan_node_def plan_link_def\<close>)
qed

lemma categorise_all:
  assumes o: "others_behave pg valid known env" and ids: "ids_of ops \<union> KN \<union> KL \<subseteq> known"
  shows "plan_inv pg valid U KN KL ops pre plan (cs_graph s) \<Longrightarrow> set (pre @ post) \<subseteq> set ops \<Longrightarrow>
    fold (categorise pg env) post (plan, s) = (plan', s') \<Longrightarrow> plan_inv pg valid U KN KL ops (pre @ post) plan' (cs_graph s')"
proof (induction post arbitrary: pre plan s)
  case (Cons op post)
  obtain plan1 s1 where c: "categorise pg env op (plan, s) = (plan1, s1)" by fastforce
  have "plan_inv pg valid U KN KL ops (pre @ [op]) plan1 (cs_graph s1)"
    by (rule categorise_step [OF o ids _ Cons.prems(1) c]) (use Cons.prems(2) in simp)
  from Cons.IH [OF this] show ?case using Cons.prems c by simp
qed simp

text \<open>What a batch leaves alone.\<close>

lemma log_consistent_plan:
  assumes "commit_inv pg valid g" "log_consistent pg stops ops g"
    and "\<And>p. p \<in> KN \<Longrightarrow> find_node pg p g \<noteq> None"
    and "\<And>l. l \<in> KL \<Longrightarrow> \<exists>w. find_link pg l g = Some w \<and> (\<forall>p. RemoveProcessor p \<in> set ops \<longrightarrow> \<not> touches p w)"
  shows "plan_inv pg valid (unmarked pg ops g) KN KL ops [] empty_plan g"
proof -
  have "plan_link KL ops [] empty_plan l (find_link pg l g)" for l
    using assms(2) assms(4) [of l] by (auto simp: plan_link_def log_consistent_def empty_plan_def)
  moreover have "plan_node (unmarked pg ops g) KN ops [] empty_plan p (find_node pg p g)" for p
    using assms(3) by (auto simp: plan_node_def unmarked_def empty_plan_def)
  ultimately show ?thesis
    using assms(1) by (simp add: plan_inv_def plan_sorted_def asserts_def) (simp add: empty_plan_def)
qed

lemma make_plan_phase:
  assumes o: "others_behave pg valid known env" and ids: "ids_of ops \<union> KN \<union> KL \<subseteq> known"
    and inv: "plan_inv pg valid U KN KL ops [] empty_plan (cs_graph s)"
    and m: "make_plan pg env ops s = (plan, s')"
  shows "commit_inv pg valid (cs_graph s')" and "plan_sorted U ops ops plan"
    and "phase pg {} (set (processors_to_add plan) \<union> KN) (unplanned_nodes ops plan) (\<lambda>_ _. True)
      {} (set (links_to_add plan) \<union> KL) (unplanned_links ops plan) (set (links_to_remove plan))
      (set (processors_to_remove plan)) (\<lambda>_ w. \<forall>p \<in> set (processors_to_remove plan). \<not> touches p w) (cs_graph s')"
proof -
  obtain plan1 s1 where f: "fold (categorise pg env) ops (empty_plan, s) = (plan1, s1)" by fastforce
  have i: "plan_inv pg valid U KN KL ops ops plan1 (cs_graph s1)"
    using categorise_all [OF o ids inv _ f] by simp
  let ?g = "cs_graph (acquire_lock env s1)"
  have r: "s' = acquire_lock env s1" "plan = drop_link_adds_into_removed_processors pg ?g plan1"
    using m f by (auto simp: make_plan_def Let_def simp del: cs_graph_steps)
  have st: "stable_assertions known (plan_node U KN ops ops plan1) (plan_link KL ops ops plan1)"
    using stable_plan [OF ids] i by (simp add: plan_inv_def)
  have g: "commit_inv pg valid ?g" "asserts pg (plan_node U KN ops ops plan1) (plan_link KL ops ops plan1) ?g"
    using acquire_stable [OF o st] i by (auto simp: plan_inv_def)
  have same: "processors_to_add plan = processors_to_add plan1" "processors_to_remove plan = processors_to_remove plan1"
    "links_to_remove plan = links_to_remove plan1" "config_updates plan = config_updates plan1"
    "set (links_to_add plan) \<subseteq> set (links_to_add plan1)"
    by (auto simp: r(2) drop_link_adds_into_removed_processors_def)
  have kept: "\<exists>w. find_link pg l ?g = Some w \<and> (\<forall>p \<in> set (processors_to_remove plan). \<not> touches p w)"
    if "l \<in> set (links_to_add plan)" for l
  proof -
    have "plan_link KL ops ops plan1 l (find_link pg l ?g)" using g(2) by (simp add: asserts_def)
    then have "find_link pg l ?g \<noteq> None" using that same(5) by (auto simp: plan_link_def)
    then show ?thesis using that
      by (auto simp: r(2) drop_link_adds_into_removed_processors_def touches_def Let_def split: if_splits option.splits)
  qed
  have dropped: "settled_link (set (processors_to_remove plan)) c (find_link pg l ?g)"
    if "l \<in> set (links_to_add plan1)" "l \<notin> set (links_to_add plan)" for l c
    using that by (auto simp: r(2) drop_link_adds_into_removed_processors_def settled_link_def touches_def Let_def
        split: if_splits option.splits)
  show "commit_inv pg valid (cs_graph s')" using g(1) r(1) by simp
  show sorted: "plan_sorted U ops ops plan" using i same by (auto simp: plan_inv_def plan_sorted_def)
  have "node_assert {} (set (processors_to_add plan) \<union> KN) (unplanned_nodes ops plan) (\<lambda>_ _. True) p (find_node pg p ?g)" for p
  proof -
    have "plan_node U KN ops ops plan1 p (find_node pg p ?g)" using g(2) by (simp add: asserts_def)
    then show ?thesis by (auto simp: node_assert_def plan_node_def unplanned_nodes_def same split: option.splits)
  qed
  moreover have "link_assert {} (set (links_to_add plan) \<union> KL) (unplanned_links ops plan) (set (links_to_remove plan))
      (set (processors_to_remove plan)) (\<lambda>_ w. \<forall>p \<in> set (processors_to_remove plan). \<not> touches p w)
      l (find_link pg l ?g)" for l
  proof -
    have pl: "plan_link KL ops ops plan1 l (find_link pg l ?g)" using g(2) by (simp add: asserts_def)
    have "settled_link (set (processors_to_remove plan)) (l \<in> set (links_to_remove plan)) (find_link pg l ?g)"
      if "l \<in> unplanned_links ops plan"
    proof (cases "l \<in> set (links_to_add plan1)")
      case True
      then show ?thesis using dropped that by (auto simp: unplanned_links_def)
    next
      case False
      then show ?thesis using pl that sorted
        by (auto simp: unplanned_links_def plan_link_def plan_sorted_def settled_link_def marked_link_def split: option.splits)
    qed
    moreover have "\<exists>w. find_link pg l ?g = Some w \<and> (\<forall>p \<in> set (processors_to_remove plan). \<not> touches p w)" if "l \<in> KL"
      using pl that sorted by (auto simp: plan_link_def plan_sorted_def split: option.splits)
    ultimately show ?thesis using kept [of l] by (auto simp: link_assert_def)
  qed
  ultimately show "phase pg {} (set (processors_to_add plan) \<union> KN) (unplanned_nodes ops plan) (\<lambda>_ _. True)
      {} (set (links_to_add plan) \<union> KL) (unplanned_links ops plan) (set (links_to_remove plan))
      (set (processors_to_remove plan)) (\<lambda>_ w. \<forall>p \<in> set (processors_to_remove plan). \<not> touches p w) (cs_graph s')"
    by (simp add: phase_def asserts_def r(1))
qed

end

end
