(* ===== verification/Graph_Runtime.thy ===== *)
theory Graph_Runtime
  imports Graph_Commit
begin

text \<open>
  The runtime's operations and the commit together: every batch the operations can log is
  consistent with the graph they leave, the operations change the graph only in ways a commit under
  way tolerates, and a commit of such a batch carries it out.
\<close>

subsection \<open>A commit carries out its batch\<close>

definition ids_in_use :: "'g digraph_api \<Rightarrow> pending_operation list \<Rightarrow> 'g \<Rightarrow> string set" where
  "ids_in_use pg ops g = ids_of ops \<union> {p. find_node pg p g \<noteq> None} \<union> {l. find_link pg l g \<noteq> None}"

text \<open>The errors of the operations a commit calls, for a processor or a link that is there.\<close>

definition commit_errors ::
    "'g digraph_api \<Rightarrow> ('g \<Rightarrow> bool) \<Rightarrow> 'g compiler_env \<Rightarrow> pending_operation list \<Rightarrow> graph_error set" where
  "commit_errors pg valid env ops =
     {e. (\<exists>n. ce_create env n = Some e) \<or> (\<exists>p. ce_spawn_thread env p = Some e)
       \<or> (\<exists>l g w. commit_inv pg valid g \<and> find_link pg l g = Some w
            \<and> open_iceoryx2_service pg (ce_wiring env) l g = Inl e)
       \<or> (\<exists>p c. ce_apply_config env p c = Some e)
       \<or> (\<exists>p. UpdateProcessorConfig p \<in> set ops \<and> e = ProcessorNotFound (config_not_found_message p))}"

text \<open>A processor that the batch both adds and removes, and that nobody has marked.\<close>

definition given_up :: "'g digraph_api \<Rightarrow> pending_operation list \<Rightarrow> 'g \<Rightarrow> graph_error set" where
  "given_up pg ops g = {ProcessorNotFound (not_found_message p) | p. AddProcessor p \<in> set ops \<and> p \<in> unmarked pg ops g}"

definition batch_done :: "'g digraph_api \<Rightarrow> 'g compiler_env \<Rightarrow> pending_operation list \<Rightarrow> 'g \<Rightarrow> 'g \<Rightarrow> bool" where
  "batch_done pg env ops g g' \<longleftrightarrow>
     (\<forall>p. RemoveProcessor p \<in> set ops \<longrightarrow> find_node pg p g' = None)
     \<and> (\<forall>l. RemoveLink l \<in> set ops \<longrightarrow> find_link pg l g' = None)
     \<and> (\<forall>p n. AddProcessor p \<in> set ops \<longrightarrow> find_node pg p g' = Some n \<longrightarrow>
          nd_instance n \<or> nd_pending_deletion n \<or> \<not> ce_ready env p)
     \<and> (\<forall>l w. AddLink l \<in> set ops \<longrightarrow> find_link pg l g' = Some w \<longrightarrow>
          lk_state_component w = Some LinkWired \<or> lk_pending_deletion w)
     \<and> (\<forall>p. find_node pg p g \<noteq> None \<longrightarrow> RemoveProcessor p \<notin> set ops \<longrightarrow> find_node pg p g' \<noteq> None)
     \<and> (\<forall>l w. find_link pg l g = Some w \<longrightarrow> RemoveLink l \<notin> set ops \<longrightarrow>
          (\<forall>p. RemoveProcessor p \<in> set ops \<longrightarrow> \<not> touches p w) \<longrightarrow> find_link pg l g' \<noteq> None)"

context digraph
begin

lemma link_end_present:
  assumes "graph_inv pg valid g" "find_link pg l g = Some w" "touches p w"
  shows "find_node pg p g \<noteq> None"
proof -
  obtain x where x: "x \<in> set (edge_references pg g)" "edge_link x = w"
    using assms(2) unfolding find_link_iff [OF assms(1)] by blast
  then have "edge_agrees (node_references pg g) x" using assms(1) by (simp add: graph_inv_def)
  then obtain i n where "(i, n) \<in> set (node_references pg g)" "nd_id n = p"
    using assms(3) x(2) unfolding edge_agrees_def touches_def by blast
  then have "find_node pg p g = Some n" using find_node_iff [OF assms(1)] by blast
  then show ?thesis by simp
qed

lemma phase_batch_done:
  assumes inv: "commit_inv pg valid g'" and sorted: "plan_sorted U ops ops plan"
    and ph: "phase pg (set (processors_to_remove plan)) (set (processors_to_add plan) \<union> KN) (unplanned_nodes ops plan)
        (\<lambda>p n. p \<in> set (processors_to_add plan) \<longrightarrow> ce_ready env p \<longrightarrow> nd_instance n)
        (set (links_to_remove plan)) (set (links_to_add plan) \<union> KL) (unplanned_links ops plan) (set (links_to_remove plan))
        (set (processors_to_remove plan)) (\<lambda>l w. l \<in> set (links_to_add plan) \<longrightarrow> lk_state_component w = Some LinkWired) g'"
    and KN: "KN = {p. find_node pg p g \<noteq> None \<and> RemoveProcessor p \<notin> set ops}"
    and KL: "KL = {l. \<exists>w. find_link pg l g = Some w \<and> RemoveLink l \<notin> set ops
      \<and> (\<forall>p. RemoveProcessor p \<in> set ops \<longrightarrow> \<not> touches p w)}"
  shows "batch_done pg env ops g g'"
proof -
  note sets = sorted [unfolded plan_sorted_def]
  have node: "node_assert (set (processors_to_remove plan)) (set (processors_to_add plan) \<union> KN) (unplanned_nodes ops plan)
      (\<lambda>p n. p \<in> set (processors_to_add plan) \<longrightarrow> ce_ready env p \<longrightarrow> nd_instance n) p (find_node pg p g')" for p
    using ph by (simp add: phase_def asserts_def)
  have link: "link_assert (set (links_to_remove plan)) (set (links_to_add plan) \<union> KL) (unplanned_links ops plan)
      (set (links_to_remove plan)) (set (processors_to_remove plan))
      (\<lambda>l w. l \<in> set (links_to_add plan) \<longrightarrow> lk_state_component w = Some LinkWired) l (find_link pg l g')" for l
    using ph by (simp add: phase_def asserts_def)
  have gone: "find_node pg p g' = None" if "RemoveProcessor p \<in> set ops" for p
    using node [of p] sets that by (auto simp: node_assert_def)
  have "nd_instance n \<or> nd_pending_deletion n \<or> \<not> ce_ready env p" if "AddProcessor p \<in> set ops" "find_node pg p g' = Some n" for p n
    using node [of p] that by (auto simp: node_assert_def unplanned_nodes_def settled_def)
  moreover have "lk_state_component w = Some LinkWired \<or> lk_pending_deletion w"
    if "AddLink l \<in> set ops" "find_link pg l g' = Some w" for l w
  proof -
    have "\<not> touches p w" if "p \<in> set (processors_to_remove plan)" for p
      using link_end_present [OF commit_inv_graph [OF inv] \<open>find_link pg l g' = Some w\<close>] gone sets that by blast
    then show ?thesis using link [of l] that
      by (auto simp: link_assert_def unplanned_links_def settled_link_def)
  qed
  moreover have "find_link pg l g' = None" if "RemoveLink l \<in> set ops" for l
    using link [of l] sets that by (auto simp: link_assert_def)
  moreover have "find_node pg p g' \<noteq> None" if "find_node pg p g \<noteq> None" "RemoveProcessor p \<notin> set ops" for p
    using node [of p] that by (auto simp: node_assert_def KN split: option.splits)
  moreover have "find_link pg l g' \<noteq> None" if "find_link pg l g = Some w" "RemoveLink l \<notin> set ops"
    "\<forall>p. RemoveProcessor p \<in> set ops \<longrightarrow> \<not> touches p w" for l w
    using link [of l] that by (auto simp: link_assert_def KL split: option.splits)
  ultimately show ?thesis using gone unfolding batch_done_def by blast
qed

lemma phase_fewer:
  assumes "phase pg GN WN SN \<Phi> GL WL SL CL R \<Psi> g" "WN' \<subseteq> WN"
  shows "phase pg GN WN' SN \<Phi> GL WL SL CL R \<Psi> g"
proof -
  have "node_assert GN WN' SN \<Phi> p x" if "node_assert GN WN SN \<Phi> p x" for p x
    using that assms(2) by (auto simp: node_assert_def)
  then show ?thesis using assms(1) by (simp add: phase_def asserts_def)
qed

lemma compile_outcome:
  assumes inv: "commit_inv pg valid (cs_graph s)" "log_consistent pg stops ops (cs_graph s)"
    and o: "others_behave pg valid (ids_in_use pg ops (cs_graph s)) env"
  shows "outcome pg valid (commit_errors pg valid env ops \<union> given_up pg ops (cs_graph s)) (batch_done pg env ops (cs_graph s)) (compile pg env ops s)"
proof -
  define KN where "KN = {p. find_node pg p (cs_graph s) \<noteq> None \<and> RemoveProcessor p \<notin> set ops}"
  define KL where "KL = {l. \<exists>w. find_link pg l (cs_graph s) = Some w \<and> RemoveLink l \<notin> set ops
      \<and> (\<forall>p. RemoveProcessor p \<in> set ops \<longrightarrow> \<not> touches p w)}"
  let ?E = "commit_errors pg valid env ops \<union> given_up pg ops (cs_graph s)"
  let ?A = "\<lambda>plan. set (processors_to_add plan)" and ?R = "\<lambda>plan. set (processors_to_remove plan)"
  let ?known = "ids_in_use pg ops (cs_graph s)" and ?s = "s\<lparr>cs_result := empty_result\<rparr>"
  have ids: "ids_of ops \<union> KN \<union> KL \<subseteq> ?known" by (auto simp: ids_in_use_def KN_def KL_def)
  have start: "plan_inv pg valid (unmarked pg ops (cs_graph s)) KN KL ops [] empty_plan (cs_graph ?s)"
    using log_consistent_plan [OF inv, of KN KL] by (auto simp: KN_def KL_def)
  obtain plan s1 where m: "make_plan pg env ops ?s = (plan, s1)" by fastforce
  note P = make_plan_phase [OF o ids start m]
  note sets = P(2) [unfolded plan_sorted_def]
  let ?final = "phase pg (set (processors_to_remove plan)) (set (processors_to_add plan) \<union> KN) (unplanned_nodes ops plan)
        (\<lambda>p n. p \<in> set (processors_to_add plan) \<longrightarrow> ce_ready env p \<longrightarrow> nd_instance n)
        (set (links_to_remove plan)) (set (links_to_add plan) \<union> KL) (unplanned_links ops plan) (set (links_to_remove plan))
        (set (processors_to_remove plan)) (\<lambda>l w. l \<in> set (links_to_add plan) \<longrightarrow> lk_state_component w = Some LinkWired)"
  have final: "batch_done pg env ops (cs_graph s) g'" if "commit_inv pg valid g'" "?final g'" for g'
    by (rule phase_batch_done [OF that(1) P(2) that(2) KN_def KL_def])
  show ?thesis
  proof (cases "plan_is_empty plan")
    case True
    then have "?final (cs_graph s1)"
      using phase_weaken [OF P(3)] unfolding plan_is_empty_def by simp
    then show ?thesis using True m final [OF P(1)] P(1) by (simp add: compile_def outcome_succeed)
  next
    case False
    have known: "AddProcessor p \<in> set ops \<or> RemoveProcessor p \<in> set ops \<or> AddLink p \<in> set ops \<or> RemoveLink p \<in> set ops
        \<Longrightarrow> p \<in> ?known" for p
      unfolding ids_in_use_def ids_of_def by (auto intro: bexI [rotated])
    have planned: "?A plan \<union> KN \<subseteq> ?known" using sets ids known by blast
    have within: "within ?known (?R plan) WN (unplanned_nodes ops plan)
        (set (links_to_remove plan)) (set (links_to_add plan) \<union> KL) (unplanned_links ops plan)"
      if "WN \<subseteq> ?A plan \<union> KN" for WN
      using subset_trans [OF that planned] sets ids known
      by (auto simp: within_def unplanned_nodes_def unplanned_links_def)
    have apart: "KN \<inter> ?R plan = {}" "(set (links_to_add plan) \<union> KL) \<inter> set (links_to_remove plan) = {}"
      using sets by (auto simp: KN_def KL_def)
    let ?s1 = "publish CompilerWillCompile s1"
    have "outcome pg valid ?E ?final (carry_out pg env plan ?s1)"
    proof (cases "?A plan \<inter> ?R plan = {}")
      case True
      have "triple pg valid ?E
        (phase pg {} (?A plan \<union> KN) (unplanned_nodes ops plan) (\<lambda>_ _. True)
          {} (set (links_to_add plan) \<union> KL) (unplanned_links ops plan) (set (links_to_remove plan))
          (?R plan) (\<lambda>_ w. \<forall>p \<in> ?R plan. \<not> touches p w))
        (carry_out pg env plan) ?final"
      proof (rule carry_out_triple [OF o])
        show "(?A plan \<union> KN) \<inter> ?R plan = {}" using True apart(1) by auto
        show "ProcessorNotFound (config_not_found_message p) \<in> ?E" if "p \<in> set (config_updates plan)" for p
          using that sets unfolding commit_errors_def by blast
      qed (use apart(2) within in simp_all, unfold commit_errors_def, blast+)
      from tripleD [OF this, of ?s1] P(1,3) show ?thesis by simp
    next
      case added_again: False
      have "triple pg valid ?E
        (phase pg {} (?A plan - ?R plan \<union> KN) (unplanned_nodes ops plan) (\<lambda>_ _. True)
          {} (set (links_to_add plan) \<union> KL) (unplanned_links ops plan) (set (links_to_remove plan))
          (?R plan) (\<lambda>_ w. \<forall>p \<in> ?R plan. \<not> touches p w))
        (carry_out pg env plan) (\<lambda>_. False)"
      proof (rule carry_out_gives_up [OF o within])
        show "ProcessorNotFound (not_found_message p) \<in> ?E" if "p \<in> ?A plan \<inter> ?R plan" for p
          using that sets unfolding given_up_def by blast
      qed (use added_again apart in blast)+
      from tripleD [OF this, of ?s1] P(1) phase_fewer [OF P(3), of "?A plan - ?R plan \<union> KN"]
      have "outcome pg valid ?E (\<lambda>_. False) (carry_out pg env plan ?s1)" by auto
      then show ?thesis by (auto simp: outcome_def split: sum.splits)
    qed
    then show ?thesis using False m final
      by (auto simp: compile_def outcome_def split: sum.splits)
  qed
qed

end

subsection \<open>The operations between two commits\<close>

text \<open>
  What may happen between two commits, and between two acquisitions of the lock by one: an operation
  of the runtime inside its scope, the publication of an event, and what the thread of a processor
  writes to its own node. Ids are never handed out twice: a new one is not in \<open>known\<close>, not in
  the graph and not in the log.
\<close>

definition thread_writes :: "(processor_node \<Rightarrow> processor_node) \<Rightarrow> bool" where
  "thread_writes f \<longleftrightarrow> (\<forall>n. nd_id (f n) = nd_id n \<and> nd_subprocess_handle (f n) = nd_subprocess_handle n
     \<and> node_continues n (f n))"

inductive runner_step ::
    "'g digraph_api \<Rightarrow> processor_registry \<Rightarrow> (string \<Rightarrow> u64) \<Rightarrow> string set \<Rightarrow> 'g runner \<Rightarrow> 'g runner \<Rightarrow> bool"
  for pg :: "'g digraph_api" and reg :: processor_registry and checksum :: "string \<Rightarrow> u64" and known :: "string set"
where
  add: "add_processor_scope pg reg checksum cuid spec r = Some (x, r') \<Longrightarrow> CHR ''.'' \<notin> set cuid \<Longrightarrow>
    ''P'' @ cuid \<notin> known \<union> ids_in_use pg (fst r) (runner_graph r) \<Longrightarrow> runner_step pg reg checksum known r r'"
| remove: "remove_processor_scope pg p r = (y, r') \<Longrightarrow> runner_step pg reg checksum known r r'"
| connect: "connect_scope pg cuid from_ref to_ref r = (x, r') \<Longrightarrow>
    ''L'' @ cuid \<notin> known \<union> ids_in_use pg (fst r) (runner_graph r) \<Longrightarrow> runner_step pg reg checksum known r r'"
| disconnect: "disconnect_scope pg l r = (z, r') \<Longrightarrow> runner_step pg reg checksum known r r'"
| configure: "runner_step pg reg checksum known r (update_config_scope pg checksum p config r)"
| report: "runner_step pg reg checksum known r (emit event r)"
| thread: "thread_writes f \<Longrightarrow> runner_step pg reg checksum known r (change_graph (update_node pg p f) r)"

text \<open>The other threads while a commit is under way: any number of such steps before each acquisition.\<close>

definition others_operate ::
    "'g digraph_api \<Rightarrow> processor_registry \<Rightarrow> (string \<Rightarrow> u64) \<Rightarrow> string set \<Rightarrow> 'g compiler_env \<Rightarrow> bool" where
  "others_operate pg reg checksum known env \<longleftrightarrow>
     (\<forall>k g. \<exists>r r'. fst r = [] \<and> runner_graph r = g \<and> (runner_step pg reg checksum known)\<^sup>*\<^sup>* r r'
        \<and> runner_graph r' = ce_others env k g)"

text \<open>
  The states the runtime gets into from an empty graph, through every operation it has; \<open>stop\<close> may
  be among them where \<open>stops\<close> says so. \<open>late\<close> is what other threads logged while the commit was
  under way, by operations or by \<open>stop\<close>, which writes to the log only.
\<close>

inductive reachable_runner ::
    "'g digraph_api \<Rightarrow> ('g \<Rightarrow> bool) \<Rightarrow> processor_registry \<Rightarrow> (string \<Rightarrow> u64) \<Rightarrow> bool \<Rightarrow> 'g runner \<Rightarrow> bool"
  for pg :: "'g digraph_api" and valid :: "'g \<Rightarrow> bool" and reg :: processor_registry and checksum :: "string \<Rightarrow> u64"
    and stops :: bool
where
  new: "valid (cs_graph s) \<Longrightarrow> node_references pg (cs_graph s) = [] \<Longrightarrow> edge_references pg (cs_graph s) = [] \<Longrightarrow>
    reachable_runner pg valid reg checksum stops ([], s)"
| operate: "reachable_runner pg valid reg checksum stops r \<Longrightarrow> runner_step pg reg checksum {} r r' \<Longrightarrow>
    reachable_runner pg valid reg checksum stops r'"
| stop: "stops \<Longrightarrow> reachable_runner pg valid reg checksum stops r \<Longrightarrow>
    reachable_runner pg valid reg checksum stops (stop_scope pg r)"
| commit: "reachable_runner pg valid reg checksum stops (ops, s) \<Longrightarrow>
    others_operate pg reg checksum (ids_in_use pg ops (cs_graph s)) env \<Longrightarrow>
    commit pg env (ops, s) = (result, left_over, s') \<Longrightarrow> log_consistent pg stops late (cs_graph s') \<Longrightarrow>
    reachable_runner pg valid reg checksum stops (late, s')"

definition runner_inv :: "'g digraph_api \<Rightarrow> ('g \<Rightarrow> bool) \<Rightarrow> bool \<Rightarrow> 'g runner \<Rightarrow> bool" where
  "runner_inv pg valid stops r \<longleftrightarrow> commit_inv pg valid (runner_graph r) \<and> log_consistent pg stops (fst r) (runner_graph r)"

definition follows :: "'g digraph_api \<Rightarrow> ('g \<Rightarrow> bool) \<Rightarrow> bool \<Rightarrow> string set \<Rightarrow> 'g runner \<Rightarrow> 'g runner \<Rightarrow> bool" where
  "follows pg valid stops known r r' \<longleftrightarrow> (runner_inv pg valid stops r \<longrightarrow>
     runner_inv pg valid stops r' \<and> graph_continues pg valid known (runner_graph r) (runner_graph r'))"

lemma graph_continuesD:
  assumes "graph_continues pg valid known g g'"
  shows "commit_inv pg valid g'"
    and "find_node pg p g = Some n \<Longrightarrow> \<exists>n'. find_node pg p g' = Some n' \<and> node_continues n n'"
    and "find_node pg p g = None \<Longrightarrow> p \<in> known \<Longrightarrow> find_node pg p g' = None"
    and "find_link pg l g = Some w \<Longrightarrow> \<exists>w'. find_link pg l g' = Some w' \<and> link_continues w w'"
    and "find_link pg l g = None \<Longrightarrow> l \<in> known \<Longrightarrow> find_link pg l g' = None"
proof -
  have n: "case find_node pg p g of Some n \<Rightarrow> (\<exists>n'. find_node pg p g' = Some n' \<and> node_continues n n')
      | None \<Rightarrow> p \<in> known \<longrightarrow> find_node pg p g' = None"
    and l: "case find_link pg l g of Some w \<Rightarrow> (\<exists>w'. find_link pg l g' = Some w' \<and> link_continues w w')
      | None \<Rightarrow> l \<in> known \<longrightarrow> find_link pg l g' = None"
    using assms by (simp_all add: graph_continues_def)
  show "commit_inv pg valid g'" using assms by (simp add: graph_continues_def)
  show "find_node pg p g = Some n \<Longrightarrow> \<exists>n'. find_node pg p g' = Some n' \<and> node_continues n n'"
    and "find_node pg p g = None \<Longrightarrow> p \<in> known \<Longrightarrow> find_node pg p g' = None" using n by simp_all
  show "find_link pg l g = Some w \<Longrightarrow> \<exists>w'. find_link pg l g' = Some w' \<and> link_continues w w'"
    and "find_link pg l g = None \<Longrightarrow> l \<in> known \<Longrightarrow> find_link pg l g' = None" using l by simp_all
qed

lemma graph_continuesI:
  assumes "commit_inv pg valid g'"
    and "\<And>p n. find_node pg p g = Some n \<Longrightarrow> \<exists>n'. find_node pg p g' = Some n' \<and> node_continues n n'"
    and "\<And>p. find_node pg p g = None \<Longrightarrow> p \<in> known \<Longrightarrow> find_node pg p g' = None"
    and "\<And>l w. find_link pg l g = Some w \<Longrightarrow> \<exists>w'. find_link pg l g' = Some w' \<and> link_continues w w'"
    and "\<And>l. find_link pg l g = None \<Longrightarrow> l \<in> known \<Longrightarrow> find_link pg l g' = None"
  shows "graph_continues pg valid known g g'"
  unfolding graph_continues_def using assms by (simp split: option.splits)

lemma node_continues_trans: "node_continues n n' \<Longrightarrow> node_continues n' n'' \<Longrightarrow> node_continues n n''"
  by (simp add: node_continues_def)

lemma link_continues_trans: "link_continues w w' \<Longrightarrow> link_continues w' w'' \<Longrightarrow> link_continues w w''"
  by (simp add: link_continues_def)

lemma graph_continues_trans:
  assumes a: "graph_continues pg valid known g g'" and b: "graph_continues pg valid known g' g''"
  shows "graph_continues pg valid known g g''"
proof (rule graph_continuesI)
  show "commit_inv pg valid g''" by (rule graph_continuesD(1) [OF b])
  show "\<exists>n'. find_node pg p g'' = Some n' \<and> node_continues n n'" if "find_node pg p g = Some n" for p n
    using graph_continuesD(2) [OF a that] graph_continuesD(2) [OF b] node_continues_trans by blast
  show "\<exists>w'. find_link pg l g'' = Some w' \<and> link_continues w w'" if "find_link pg l g = Some w" for l w
    using graph_continuesD(4) [OF a that] graph_continuesD(4) [OF b] link_continues_trans by blast
qed (use graph_continuesD(3,5) [OF a] graph_continuesD(3,5) [OF b] in blast)+

lemma graph_continues_known:
  assumes c: "graph_continues pg valid known g g'" and "known' \<subseteq> known"
  shows "graph_continues pg valid known' g g'"
  by (rule graph_continuesI) (use graph_continuesD [OF c] assms(2) in blast)+

lemma follows_trans: "follows pg valid stops known r r' \<Longrightarrow> follows pg valid stops known r' r'' \<Longrightarrow> follows pg valid stops known r r''"
  by (auto simp: follows_def intro: graph_continues_trans)

lemma log_consistent_append:
  "log_consistent pg stops (ops @ ops') g \<longleftrightarrow> log_consistent pg stops ops g \<and> log_consistent pg stops ops' g"
  by (auto simp: log_consistent_def)

lemma log_consistent_Nil [simp]: "log_consistent pg stops [] g"
  by (simp add: log_consistent_def)

lemma log_consistent_adds: "(\<And>op. op \<in> set ops \<Longrightarrow> \<not> is_remove op) \<Longrightarrow> log_consistent pg stops ops g"
  by (force simp: log_consistent_def)

lemma log_consistent_continues:
  assumes "log_consistent pg stops ops g" and c: "graph_continues pg valid known g g'" and "ids_of ops \<subseteq> known"
  shows "log_consistent pg stops ops g'"
proof -
  have "marked (find_node pg p g')" if r: "RemoveProcessor p \<in> set ops" and "\<not> stops" for p
  proof (cases "find_node pg p g")
    case None
    moreover have "p \<in> known" using r assms(3) by (force simp: ids_of_def)
    ultimately show ?thesis using graph_continuesD(3) [OF c] by (simp add: marked_def)
  next
    case (Some n)
    moreover have "marked (find_node pg p g)" using r \<open>\<not> stops\<close> assms(1) by (simp add: log_consistent_def)
    ultimately show ?thesis using graph_continuesD(2) [OF c Some] by (auto simp: marked_def node_continues_def)
  qed
  moreover have "marked_link (find_link pg l g')" if r: "RemoveLink l \<in> set ops" for l
  proof (cases "find_link pg l g")
    case None
    moreover have "l \<in> known" using r assms(3) by (force simp: ids_of_def)
    ultimately show ?thesis using graph_continuesD(5) [OF c] by (simp add: marked_link_def)
  next
    case (Some w)
    moreover have "marked_link (find_link pg l g)" using r assms(1) by (simp add: log_consistent_def)
    ultimately show ?thesis using graph_continuesD(4) [OF c Some] by (auto simp: marked_link_def link_continues_def)
  qed
  ultimately show ?thesis by (simp add: log_consistent_def)
qed

lemma followsI:
  assumes "commit_inv pg valid (runner_graph r) \<Longrightarrow>
      graph_continues pg valid (known \<union> ids_of (fst r)) (runner_graph r) (runner_graph r')"
    and "fst r' = fst r @ logged" "commit_inv pg valid (runner_graph r) \<Longrightarrow> log_consistent pg stops logged (runner_graph r')"
  shows "follows pg valid stops known r r'"
  unfolding follows_def
proof
  assume r: "runner_inv pg valid stops r"
  then have c: "graph_continues pg valid (known \<union> ids_of (fst r)) (runner_graph r) (runner_graph r')"
    using assms(1) by (simp add: runner_inv_def)
  moreover have "log_consistent pg stops (fst r) (runner_graph r')"
    by (rule log_consistent_continues [OF _ c]) (use r in \<open>auto simp: runner_inv_def\<close>)
  moreover have "graph_continues pg valid known (runner_graph r) (runner_graph r')"
    using graph_continues_known [OF c] by simp
  ultimately show "runner_inv pg valid stops r' \<and> graph_continues pg valid known (runner_graph r) (runner_graph r')"
    using assms(2,3) r graph_continuesD(1) [OF c] by (auto simp: runner_inv_def log_consistent_append)
qed

lemma node_continues_refl [simp]: "node_continues n n"
  by (simp add: node_continues_def)

lemma link_continues_refl [simp]: "link_continues w w"
  by (simp add: link_continues_def)

lemma graph_continues_refl: "commit_inv pg valid g \<Longrightarrow> graph_continues pg valid known g g"
  by (simp add: graph_continues_def split: option.splits)

lemma runner_graph_steps [simp]:
  "runner_graph (log_op op r) = runner_graph r"
  "runner_graph (emit event r) = runner_graph r"
  "runner_graph (change_graph f r) = f (runner_graph r)"
  by (simp_all add: runner_graph_def log_op_def emit_def change_graph_def)

lemma fst_steps [simp]:
  "fst (log_op op r) = fst r @ [op]"
  "fst (emit event r) = fst r"
  "fst (change_graph f r) = fst r"
  by (simp_all add: log_op_def emit_def change_graph_def)

lemma fold_log_op [simp]:
  "fst (fold (\<lambda>x. log_op (f x)) xs r) = fst r @ map f xs"
  "runner_graph (fold (\<lambda>x. log_op (f x)) xs r) = runner_graph r"
  by (induction xs arbitrary: r) simp_all

context digraph
begin

lemma update_node_continues:
  assumes inv: "commit_inv pg valid g" and f: "\<And>n. nd_id (f n) = nd_id n" "\<And>n. node_continues n (f n)"
    and "\<And>n. nd_subprocess_handle (f n) \<Longrightarrow> nd_subprocess_handle n"
  shows "graph_continues pg valid known g (update_node pg p f g)"
proof (rule graph_continuesI)
  show "commit_inv pg valid (update_node pg p f g)" by (rule commit_inv_update_node [OF inv f(1) assms(4)])
qed (auto simp: find_node_update_node [OF commit_inv_graph [OF inv] f(1)]
    find_link_update_node [OF commit_inv_graph [OF inv] f(1)] f(2) split: if_splits)

lemma mark_link_continues:
  assumes inv: "commit_inv pg valid g"
  shows "graph_continues pg valid known g (update_link pg l (\<lambda>w. w\<lparr>lk_pending_deletion := True\<rparr>) g)"
    and "marked_link (find_link pg l (update_link pg l (\<lambda>w. w\<lparr>lk_pending_deletion := True\<rparr>) g))"
proof -
  let ?h = "\<lambda>w :: link. w\<lparr>lk_pending_deletion := True\<rparr>"
  have link: "find_link pg k (update_link pg l ?h g) = (if k = l then map_option ?h (find_link pg k g) else find_link pg k g)" for k
    by (rule find_link_update_link [OF commit_inv_graph [OF inv]]) simp_all
  have node: "find_node pg p (update_link pg l ?h g) = find_node pg p g" for p
    by (rule find_node_update_link [OF commit_inv_graph [OF inv]]) simp_all
  show "graph_continues pg valid known g (update_link pg l ?h g)"
  proof (rule graph_continuesI)
    show "commit_inv pg valid (update_link pg l ?h g)" by (rule commit_inv_update_link [OF inv]) simp_all
  qed (auto simp: link node link_continues_def split: if_splits)
  show "marked_link (find_link pg l (update_link pg l ?h g))"
    by (simp add: link marked_link_def split: option.splits)
qed

lemma follows_remove_link: "follows pg valid stops known r (log_op (RemoveLink l) (mark_link_pending_deletion pg l r))"
proof (rule followsI)
  assume "commit_inv pg valid (runner_graph r)"
  note mark = mark_link_continues [OF this, where l = l]
  show "graph_continues pg valid (known \<union> ids_of (fst r)) (runner_graph r)
      (runner_graph (log_op (RemoveLink l) (mark_link_pending_deletion pg l r)))"
    using mark(1) by (simp add: mark_link_pending_deletion_def)
  show "log_consistent pg stops [RemoveLink l] (runner_graph (log_op (RemoveLink l) (mark_link_pending_deletion pg l r)))"
    using mark(2) by (simp add: mark_link_pending_deletion_def log_consistent_def)
qed (simp add: mark_link_pending_deletion_def)

lemma follows_refl: "follows pg valid stops known r r"
  by (simp add: follows_def runner_inv_def graph_continues_refl)

lemma follows_remove_links:
  "follows pg valid stops known r (fold (\<lambda>l r. log_op (RemoveLink l) (mark_link_pending_deletion pg l r)) ls r)"
proof (induction ls arbitrary: r)
  case Nil
  then show ?case by (simp add: follows_refl)
next
  case (Cons l ls)
  show ?case using follows_trans [OF follows_remove_link Cons.IH] by simp
qed

lemma follows_mark_node:
  "follows pg valid stops known r (log_op (RemoveProcessor p) (change_graph (update_node pg p (\<lambda>n. n\<lparr>nd_pending_deletion := True\<rparr>)) r))"
proof (rule followsI)
  let ?f = "\<lambda>n :: processor_node. n\<lparr>nd_pending_deletion := True\<rparr>"
  assume inv: "commit_inv pg valid (runner_graph r)"
  have "graph_continues pg valid (known \<union> ids_of (fst r)) (runner_graph r) (update_node pg p ?f (runner_graph r))"
    by (rule update_node_continues [OF inv]) (simp_all add: node_continues_def)
  then show "graph_continues pg valid (known \<union> ids_of (fst r)) (runner_graph r)
      (runner_graph (log_op (RemoveProcessor p) (change_graph (update_node pg p ?f) r)))" by simp
  have "find_node pg p (update_node pg p ?f (runner_graph r)) = map_option ?f (find_node pg p (runner_graph r))"
    using find_node_update_node [OF commit_inv_graph [OF inv], of ?f p p] by simp
  then show "log_consistent pg stops [RemoveProcessor p] (runner_graph (log_op (RemoveProcessor p) (change_graph (update_node pg p ?f) r)))"
    by (simp add: log_consistent_def marked_def split: option.splits)
qed simp

lemma follows_remove_processor:
  assumes "remove_processor_scope pg p r = (y, r')"
  shows "follows pg valid stops known r r'"
  using assms
  by (auto simp: remove_processor_scope_def Let_def simp del: fold_append split: if_splits
      intro: follows_refl follows_trans [OF follows_remove_links follows_mark_node])

lemma follows_add_processor:
  assumes a: "add_processor_scope pg reg checksum cuid spec r = Some (x, r')" and dot: "CHR ''.'' \<notin> set cuid"
    and fresh: "''P'' @ cuid \<notin> known \<union> ids_in_use pg (fst r) (runner_graph r)"
  shows "follows pg valid stops known r r'"
proof (cases "commit_inv pg valid (runner_graph r)")
  case False
  then show ?thesis by (simp add: follows_def runner_inv_def)
next
  case True
  let ?g = "runner_graph r"
  note inv = commit_inv_graph [OF True]
  obtain i g' assigned where v: "add_v pg reg checksum cuid spec ?g = Some ([i], g')" "valid g'"
    "node_references pg g' = node_references pg ?g @ [(i, node_of_spec reg checksum cuid spec assigned)]"
    "edge_references pg g' = edge_references pg ?g"
    using add_v_refs [OF inv_valid [OF inv]] by metis
  have none: "find_node pg (''P'' @ cuid) ?g = None" using fresh by (auto simp: ids_in_use_def)
  have new: "graph_inv pg valid g'"
    "find_node pg q g' = (if q = ''P'' @ cuid then Some (node_of_spec reg checksum cuid spec assigned) else find_node pg q ?g)"
    "find_link pg l g' = find_link pg l ?g" for q l
    using graph_inv_new_node [OF inv v(2,4,3)] none dot by simp_all
  have "\<not> nd_subprocess_handle (node_of_spec reg checksum cuid spec assigned)"
    by (simp add: node_of_spec_def processor_node_new_def Let_def split_def)
  then have inv': "commit_inv pg valid g'"
    using commit_inv_no_child [OF True] new by (intro commit_invI) (auto split: if_splits)
  have g: "runner_graph r' = g'" using a v(1) by (auto simp: add_processor_scope_def Let_def split: option.splits if_splits)
  obtain logged where l: "fst r' = fst r @ logged" "\<And>op. op \<in> set logged \<Longrightarrow> \<not> is_remove op"
    using a v(1) by (auto simp: add_processor_scope_def Let_def split: option.splits if_splits)
  show ?thesis
  proof (rule followsI)
    show "graph_continues pg valid (known \<union> ids_of (fst r)) ?g (runner_graph r')"
      unfolding g
    proof (rule graph_continuesI)
      show "find_node pg p g' = None" if "find_node pg p ?g = None" "p \<in> known \<union> ids_of (fst r)" for p
        using that fresh by (auto simp: new ids_in_use_def)
      show "\<exists>n'. find_node pg p g' = Some n' \<and> node_continues n n'" if "find_node pg p ?g = Some n" for p n
        using that none by (auto simp: new)
    qed (use inv' in \<open>simp_all add: new\<close>)
    show "fst r' = fst r @ logged" by (rule l(1))
    show "log_consistent pg stops logged (runner_graph r')" using l(2) by (rule log_consistent_adds)
  qed
qed

lemma follows_connect:
  assumes c: "connect_scope pg cuid from_ref to_ref r = (x, r')"
    and fresh: "''L'' @ cuid \<notin> known \<union> ids_in_use pg (fst r) (runner_graph r)"
  shows "follows pg valid stops known r r'"
proof (cases "commit_inv pg valid (runner_graph r) \<and> r' \<noteq> r")
  case False
  then show ?thesis using follows_refl [of stops known r] by (auto simp: follows_def runner_inv_def)
next
  case True
  let ?g = "runner_graph r"
  note inv = commit_inv_graph [OF conjunct1 [OF True]]
  obtain ixs g' where a: "add_e pg cuid from_ref to_ref ?g = (ixs, g')" by fastforce
  have none: "find_link pg (''L'' @ cuid) ?g = None" using fresh by (auto simp: ids_in_use_def)
  define logged where "logged = map (\<lambda>w. AddLink (lk_id w)) (link_iter pg ixs g')"
  have g: "runner_graph r' = g'" and l: "fst r' = fst r @ logged"
    using c a True by (auto simp: connect_scope_def logged_def Let_def split: option.splits if_splits sum.splits)
  have adds: "log_consistent pg stops logged h" for h by (rule log_consistent_adds) (auto simp: logged_def)
  from inv none a have "graph_continues pg valid (known \<union> ids_of (fst r)) ?g g'"
  proof (cases rule: add_e_cases)
    case refused
    then show ?thesis using True by (simp add: graph_continues_refl)
  next
    case (added e w)
    show ?thesis
    proof (rule graph_continuesI)
      show "commit_inv pg valid g'"
        using commit_inv_no_child [OF conjunct1 [OF True]] added by (intro commit_invI) auto
      show "find_link pg k g' = None" if "find_link pg k ?g = None" "k \<in> known \<union> ids_of (fst r)" for k
        using that fresh by (auto simp: added ids_in_use_def)
      show "\<exists>w'. find_link pg k g' = Some w' \<and> link_continues v w'" if "find_link pg k ?g = Some v" for k v
        using that none by (auto simp: added)
    qed (simp_all add: added)
  qed
  then show ?thesis using l adds by (intro followsI [where logged = logged]) (simp_all add: g)
qed

lemma runner_step_follows: "runner_step pg reg checksum known r r' \<Longrightarrow> follows pg valid stops known r r'"
proof (induction rule: runner_step.induct)
  case (disconnect l r z r')
  then show ?case
    by (auto simp: disconnect_scope_def Let_def split: option.splits intro: follows_refl follows_remove_link)
next
  case (configure r p config)
  show ?case
  proof (rule followsI)
    assume inv: "commit_inv pg valid (runner_graph r)"
    have "graph_continues pg valid (known \<union> ids_of (fst r)) (runner_graph r)
        (update_node pg p (set_config checksum config) (runner_graph r))"
      by (rule update_node_continues [OF inv]) (simp_all add: set_config_def node_continues_def)
    then show "graph_continues pg valid (known \<union> ids_of (fst r)) (runner_graph r)
        (runner_graph (update_config_scope pg checksum p config r))" by (simp add: update_config_scope_def)
  qed (auto simp: update_config_scope_def intro: log_consistent_adds)
next
  case (report r event)
  show ?case by (rule followsI [where logged = "[]"]) (auto simp: graph_continues_refl log_consistent_adds)
next
  case (thread f r p)
  show ?case
  proof (rule followsI [where logged = "[]"])
    assume inv: "commit_inv pg valid (runner_graph r)"
    have "graph_continues pg valid (known \<union> ids_of (fst r)) (runner_graph r) (update_node pg p f (runner_graph r))"
      by (rule update_node_continues [OF inv]) (use thread in \<open>simp_all add: thread_writes_def\<close>)
    then show "graph_continues pg valid (known \<union> ids_of (fst r)) (runner_graph r)
        (runner_graph (change_graph (update_node pg p f) r))" by simp
  qed (auto intro: log_consistent_adds)
qed (auto intro: follows_add_processor follows_remove_processor follows_connect)

lemma runner_steps_follow: "(runner_step pg reg checksum known)\<^sup>*\<^sup>* r r' \<Longrightarrow> follows pg valid stops known r r'"
  by (induction rule: rtranclp_induct) (auto intro: follows_refl follows_trans runner_step_follows)

lemma others_operate_behave:
  assumes "others_operate pg reg checksum known env"
  shows "others_behave pg valid known env"
  unfolding others_behave_def
proof (intro allI impI)
  fix k g
  assume g: "commit_inv pg valid g"
  obtain r r' where r: "fst r = []" "runner_graph r = g" "(runner_step pg reg checksum known)\<^sup>*\<^sup>* r r'"
    "runner_graph r' = ce_others env k g"
    using assms unfolding others_operate_def by blast
  have "runner_inv pg valid stops r" using g r(1,2) by (simp add: runner_inv_def log_consistent_adds)
  then show "graph_continues pg valid known g (ce_others env k g)"
    using runner_steps_follow [OF r(3)] r by (simp add: follows_def)
qed

lemma commit_outcome:
  assumes inv: "runner_inv pg valid stops (ops, s)" and o: "others_operate pg reg checksum (ids_in_use pg ops (cs_graph s)) env"
    and c: "commit pg env (ops, s) = (result, left_over, s')"
  shows "left_over = [] \<and> commit_inv pg valid (cs_graph s')
    \<and> (case result of Inl e \<Rightarrow> e \<in> commit_errors pg valid env ops \<or> stops \<and> e \<in> given_up pg ops (cs_graph s)
       | Inr _ \<Rightarrow> batch_done pg env ops (cs_graph s) (cs_graph s'))"
proof (cases "ops = []")
  case True
  then show ?thesis using inv c by (auto simp: commit_def runner_inv_def runner_graph_def batch_done_def)
next
  case False
  have "given_up pg ops (cs_graph s) = {}" if "\<not> stops"
    using inv that by (auto simp: runner_inv_def log_consistent_def given_up_def unmarked_def runner_graph_def)
  moreover have "outcome pg valid (commit_errors pg valid env ops \<union> given_up pg ops (cs_graph s))
      (batch_done pg env ops (cs_graph s)) (compile pg env ops s)"
    using compile_outcome [of s stops, OF _ _ others_operate_behave [OF o]] inv by (simp add: runner_inv_def runner_graph_def)
  moreover have "compile pg env ops s = (result, s')" "left_over = []"
    using False c by (auto simp: commit_def split: prod.splits)
  ultimately show ?thesis by (auto simp: outcome_def split: sum.splits)
qed

lemma reachable_runner_inv: "reachable_runner pg valid reg checksum stops r \<Longrightarrow> runner_inv pg valid stops r"
proof (induction rule: reachable_runner.induct)
  case (new s)
  then show ?case by (simp add: runner_inv_def runner_graph_def commit_inv_def graph_inv_def log_consistent_adds)
next
  case (operate r r')
  then show ?case using runner_step_follows by (simp add: follows_def)
next
  case (stop r)
  then show ?case
    by (auto simp: runner_inv_def stop_scope_def log_consistent_append) (auto simp: log_consistent_def)
next
  case (commit ops s env result left_over s' late)
  then show ?case using commit_outcome by (simp add: runner_inv_def runner_graph_def)
qed

end

text \<open>An operation as a whole, from its scope to its last event, is a run of such steps.\<close>

lemma runner_step_emits: "(runner_step pg reg checksum known)\<^sup>*\<^sup>* r (fold emit events r)"
proof (induction events arbitrary: r)
  case (Cons event events)
  show ?case using converse_rtranclp_into_rtranclp [OF runner_step.report Cons.IH] by simp
qed simp

lemma reachable_runner_steps:
  "(runner_step pg reg checksum {})\<^sup>*\<^sup>* r r' \<Longrightarrow> reachable_runner pg valid reg checksum stops r \<Longrightarrow>
     reachable_runner pg valid reg checksum stops r'"
  by (induction rule: rtranclp_induct) (auto intro: reachable_runner.operate)

lemma commit_live_reachable:
  assumes r: "reachable_runner pg valid reg checksum stops r"
    and o: "others_operate pg reg checksum (ids_in_use pg (fst r) (runner_graph r)) env"
    and c: "commit_live_graph_change pg env live r = (result, r1)"
  shows "reachable_runner pg valid reg checksum stops r1"
proof (cases live)
  case True
  obtain ops s where s: "r = (ops, s)" by fastforce
  then obtain s' where "commit pg env (ops, s) = (result, [], s')" "r1 = ([], s')"
    using c True by (auto simp: commit_live_graph_change_def commit_def split: if_splits prod.splits)
  moreover have "log_consistent pg stops [] (cs_graph s')" by (simp add: log_consistent_adds)
  ultimately show ?thesis using r o s reachable_runner.commit by (metis fst_conv runner_graph_def snd_conv)
next
  case False
  then show ?thesis using c r by (simp add: commit_live_graph_change_def)
qed

lemma after_commit_reachable:
  assumes r: "reachable_runner pg valid reg checksum stops r"
    and o: "others_operate pg reg checksum (ids_in_use pg (fst r) (runner_graph r)) env"
    and a: "after_commit pg env live (scoped, r) events = (x, r')"
  shows "reachable_runner pg valid reg checksum stops r'"
proof (cases scoped)
  case (Inl e)
  then show ?thesis using r a by (simp add: after_commit_def)
next
  case (Inr y)
  obtain result r1 where c: "commit_live_graph_change pg env live r = (result, r1)"
    by (cases "commit_live_graph_change pg env live r")
  have "r' = r1 \<or> r' = fold emit (events y) r1"
    using a Inr c by (auto simp: after_commit_def split: sum.splits)
  then show ?thesis using commit_live_reachable [OF r o c] reachable_runner_steps [OF runner_step_emits] by blast
qed

lemma scoped_operation_reachable:
  assumes "reachable_runner pg valid reg checksum stops r" "runner_step pg reg checksum {} r r1"
    and "others_operate pg reg checksum (ids_in_use pg (fst r1) (runner_graph r1)) env"
    and "after_commit pg env live (scoped, r1) events = (x, r')"
  shows "reachable_runner pg valid reg checksum stops r'"
  using after_commit_reachable [OF reachable_runner.operate [OF assms(1,2)] assms(3,4)] .

text \<open>\<open>interrupted\<close>: other threads keep to the rules during the commit that follows an operation.\<close>

definition interrupted ::
    "'g digraph_api \<Rightarrow> processor_registry \<Rightarrow> (string \<Rightarrow> u64) \<Rightarrow> 'g compiler_env \<Rightarrow> bool" where
  "interrupted pg reg checksum env \<longleftrightarrow>
     (\<forall>r. others_operate pg reg checksum (ids_in_use pg (fst r) (runner_graph r)) env)"

lemma operations_reachable:
  assumes r: "reachable_runner pg valid reg checksum stops r" and o: "interrupted pg reg checksum env"
  shows "remove_processor_impl pg env live p r = (x, r') \<Longrightarrow> reachable_runner pg valid reg checksum stops r'"
    and "disconnect_impl pg env live l r = (x, r') \<Longrightarrow> reachable_runner pg valid reg checksum stops r'"
    and "''L'' @ cuid \<notin> ids_in_use pg (fst r) (runner_graph r) \<Longrightarrow>
      connect_impl pg env live cuid from_ref to_ref r = (y, r') \<Longrightarrow> reachable_runner pg valid reg checksum stops r'"
    and "''P'' @ cuid \<notin> ids_in_use pg (fst r) (runner_graph r) \<Longrightarrow> CHR ''.'' \<notin> set cuid \<Longrightarrow>
      reg = we_registry (ce_wiring env) \<Longrightarrow>
      add_processor_impl pg env resolve checksum live cuid spec r = Some (z, r') \<Longrightarrow> reachable_runner pg valid reg checksum stops r'"
    and "update_processor_config pg to_value checksum p config r = (x, r') \<Longrightarrow> reachable_runner pg valid reg checksum stops r'"
    and "stops \<Longrightarrow> stop_and_commit pg env live r = (x, r') \<Longrightarrow> reachable_runner pg valid reg checksum stops r'"
proof -
  show "reachable_runner pg valid reg checksum stops r'" if "stops" "stop_and_commit pg env live r = (x, r')"
    using commit_live_reachable [OF reachable_runner.stop [OF that(1) r] spec [OF o [unfolded interrupted_def]]] that(2)
    by (simp add: stop_and_commit_def)
  note scoped = scoped_operation_reachable [OF r _ spec [OF o [unfolded interrupted_def]]]
  show "reachable_runner pg valid reg checksum stops r'" if "remove_processor_impl pg env live p r = (x, r')"
  proof (cases "remove_processor_scope pg p r" rule: prod.exhaust)
    case (Pair y r1)
    then show ?thesis using scoped [OF runner_step.remove [OF Pair]] that by (simp add: remove_processor_impl_def)
  qed
  show "reachable_runner pg valid reg checksum stops r'" if "disconnect_impl pg env live l r = (x, r')"
  proof (cases "disconnect_scope pg l r" rule: prod.exhaust)
    case (Pair y r1)
    have "reachable_runner pg valid reg checksum stops (snd (after_commit pg env live (y, r1) events))" for events
      by (rule scoped [OF runner_step.disconnect [OF Pair] prod.collapse [symmetric]])
    then have "reachable_runner pg valid reg checksum stops (snd (disconnect_impl pg env live l r))"
      by (simp add: disconnect_impl_def Pair)
    then show ?thesis by (simp add: that)
  qed
  show "reachable_runner pg valid reg checksum stops r'"
    if "''L'' @ cuid \<notin> ids_in_use pg (fst r) (runner_graph r)" "connect_impl pg env live cuid from_ref to_ref r = (y, r')"
  proof (cases "connect_scope pg cuid from_ref to_ref (emit (RuntimeWillConnect (src_processor_id from_ref)
      (src_port_name from_ref) (dst_processor_id to_ref) (dst_port_name to_ref)) r)" rule: prod.exhaust)
    case (Pair scoped r1)
    let ?will = "RuntimeWillConnect (src_processor_id from_ref) (src_port_name from_ref)
        (dst_processor_id to_ref) (dst_port_name to_ref)"
    have step: "runner_step pg reg checksum {} (emit ?will r) r1"
      by (rule runner_step.connect [OF Pair]) (use that in simp)
    have "reachable_runner pg valid reg checksum stops (emit ?will r)"
      by (rule reachable_runner.operate [OF r runner_step.report])
    note scoped = scoped_operation_reachable [OF this step spec [OF o [unfolded interrupted_def]] prod.collapse [symmetric]]
    have "reachable_runner pg valid reg checksum stops (snd (connect_impl pg env live cuid from_ref to_ref r))"
      unfolding connect_impl_def Pair snd_apfst by (rule scoped)
    then show ?thesis by (simp add: that)
  qed
  show "reachable_runner pg valid reg checksum stops r'"
    if "''P'' @ cuid \<notin> ids_in_use pg (fst r) (runner_graph r)" "CHR ''.'' \<notin> set cuid" "reg = we_registry (ce_wiring env)"
      "add_processor_impl pg env resolve checksum live cuid spec r = Some (z, r')"
  proof (cases "resolve (sp_name spec)")
    case None
    note given = that
    obtain y r1 where s: "add_processor_scope pg reg checksum cuid spec r = Some (y, r1)"
      "after_commit pg env live (y, r1) (\<lambda>_. [GraphDidChange]) = (z, r')"
      using given(3,4) None by (auto simp: add_processor_impl_def)
    have "runner_step pg reg checksum {} r r1" by (rule runner_step.add [OF s(1) that(2)]) (use that(1) in simp)
    then show ?thesis by (rule scoped [OF _ s(2)])
  qed (use that(4) r in \<open>auto simp: add_processor_impl_def\<close>)
  show "reachable_runner pg valid reg checksum stops r'" if "update_processor_config pg to_value checksum p config r = (x, r')"
    using that r by (auto simp: update_processor_config_def split: sum.splits
        intro!: reachable_runner.operate [OF _ runner_step.report] intro: reachable_runner.operate runner_step.configure)
qed

text \<open>C2: whatever the runtime has done before, a commit carries out the batch it takes. It empties
  the log and keeps the invariant of the graph, and other threads may run operations of their own
  between any two acquisitions of the lock. When it succeeds, every processor and link the batch
  removes is gone, everything else that was there is still there, every processor the batch adds has
  its instance and every link it adds is wired, unless it has been marked for deletion meanwhile, or
  the processor's thread died before it was ready, which the commit does not report. When it fails,
  the error is one of an instance, a thread, a service or a configuration it tried to set up, or of
  a configuration update for a processor without instance. It never fails to drop a processor or a
  link of the batch, in whatever order they were added and removed; it fails to find one only after
  \<open>stop\<close>, which queues removals without marking, and then only a processor the batch both adds and
  removes.\<close>

theorem commit_carries_out_its_batch:
  assumes "digraph pg valid" "reachable_runner pg valid reg checksum stops (ops, s)"
    and "others_operate pg reg checksum (ids_in_use pg ops (cs_graph s)) env"
    and "commit pg env (ops, s) = (result, left_over, s')"
  shows "left_over = [] \<and> commit_inv pg valid (cs_graph s')
    \<and> (case result of Inl e \<Rightarrow> e \<in> commit_errors pg valid env ops \<or> stops \<and> e \<in> given_up pg ops (cs_graph s)
       | Inr _ \<Rightarrow> batch_done pg env ops (cs_graph s) (cs_graph s'))"
  using digraph.commit_outcome [OF assms(1) digraph.reachable_runner_inv [OF assms(1,2)] assms(3,4)] .

subsection \<open>A concrete run\<close>

text \<open>
  A camera and a display are added and connected, and the camera is removed again before anything is
  committed: one batch adds the camera and its link and removes both.
\<close>

definition no_result_state :: "list_digraph \<Rightarrow> list_digraph commit_state" where
  "no_result_state g = \<lparr>cs_graph = g, cs_acquisitions = 0, cs_compiled_at = None, cs_result = empty_result, cs_events = []\<rparr>"

definition quiet_env :: "list_digraph compiler_env" where
  "quiet_env = \<lparr>ce_wiring = \<lparr>we_registry = sample_registry, we_out_of_process = \<lambda>_. False, we_is_reactive = \<lambda>_. False,
       we_has_mailboxes = \<lambda>_. True, we_open_service = \<lambda>_ _ _. None, we_open_notify_service = \<lambda>_ _. None,
       we_wire_port = \<lambda>_ _ _ _. None\<rparr>,
     ce_create = \<lambda>_. None, ce_spawn_thread = \<lambda>_. None, ce_ready = \<lambda>_. True, ce_apply_config = \<lambda>_ _. None, ce_others = \<lambda>_ g. g, ce_now = 7\<rparr>"

definition sample_link_ends :: "output_link_port_ref \<times> input_link_port_ref" where
  "sample_link_ends = (\<lparr>src_processor_id = ''Pa'', src_port_name = ''video''\<rparr>, \<lparr>dst_processor_id = ''Pb'', dst_port_name = ''frames''\<rparr>)"

definition after_adding :: "string \<Rightarrow> string \<Rightarrow> list_digraph runner \<Rightarrow> list_digraph runner" where
  "after_adding cuid path r =
     (case add_processor_scope list_digraph_api sample_registry (\<lambda>_. 0) cuid (sample_spec path) r of
        Some (_, r') \<Rightarrow> r' | None \<Rightarrow> r)"

definition sample_start :: "list_digraph runner" where
  "sample_start = ([], no_result_state \<lparr>lg_nodes = [], lg_edges = []\<rparr>)"

definition sample_processors :: "list_digraph runner" where
  "sample_processors = after_adding ''b'' ''app::Display'' (after_adding ''a'' ''app::Camera'' sample_start)"

definition sample_connected :: "list_digraph runner" where
  "sample_connected = snd (connect_scope list_digraph_api ''c'' (fst sample_link_ends) (snd sample_link_ends) sample_processors)"

definition sample_batch :: "list_digraph runner" where
  "sample_batch = snd (remove_processor_scope list_digraph_api ''Pa'' sample_connected)"

definition unused :: "'g digraph_api \<Rightarrow> string \<Rightarrow> 'g runner \<Rightarrow> bool" where
  "unused pg i r \<longleftrightarrow> list_all (\<lambda>op. op_processor_id op \<noteq> Some i \<and> op_link_id op \<noteq> Some i) (fst r)
     \<and> find_node pg i (runner_graph r) = None \<and> find_link pg i (runner_graph r) = None"

lemma unused_not_in_use: "unused pg i r \<Longrightarrow> i \<notin> {} \<union> ids_in_use pg (fst r) (runner_graph r)"
  by (auto simp: unused_def ids_in_use_def ids_of_def list_all_iff)

lemma after_adding_step:
  assumes "add_processor_scope list_digraph_api sample_registry (\<lambda>_. 0) cuid (sample_spec path) r \<noteq> None"
    and "CHR ''.'' \<notin> set cuid" "unused list_digraph_api (''P'' @ cuid) r"
  shows "runner_step list_digraph_api sample_registry (\<lambda>_. 0) {} r (after_adding cuid path r)"
proof -
  obtain x where "add_processor_scope list_digraph_api sample_registry (\<lambda>_. 0) cuid (sample_spec path) r
      = Some (x, after_adding cuid path r)"
    using assms(1) by (auto simp: after_adding_def)
  then show ?thesis using assms(2) unused_not_in_use [OF assms(3)] by (rule runner_step.add)
qed

lemma sample_batch_reachable:
  "reachable_runner list_digraph_api list_digraph_valid sample_registry (\<lambda>_. 0) stops sample_batch"
proof -
  let ?reachable = "reachable_runner list_digraph_api list_digraph_valid sample_registry (\<lambda>_. 0) stops"
  have "?reachable sample_start" unfolding sample_start_def
    by (rule reachable_runner.new) (simp_all add: no_result_state_def list_digraph_valid_def list_digraph_api_def)
  then have "?reachable (after_adding ''a'' ''app::Camera'' sample_start)"
    by (rule reachable_runner.operate) (rule after_adding_step, code_simp+)
  then have "?reachable sample_processors" unfolding sample_processors_def
    by (rule reachable_runner.operate) (rule after_adding_step, code_simp+)
  moreover have "unused list_digraph_api (''L'' @ ''c'') sample_processors" by code_simp
  ultimately have "?reachable sample_connected" unfolding sample_connected_def
    using unused_not_in_use by (blast intro: reachable_runner.operate runner_step.connect prod.collapse [symmetric])
  then show ?thesis unfolding sample_batch_def
    by (blast intro: reachable_runner.operate runner_step.remove prod.collapse [symmetric])
qed

lemma quiet_env_operates: "others_operate list_digraph_api reg checksum known quiet_env"
  unfolding others_operate_def
proof (intro allI exI conjI)
  fix g k
  show "fst ([] :: pending_operation list, no_result_state g) = []" by simp
  show "runner_graph ([], no_result_state g) = g" by (simp add: runner_graph_def no_result_state_def)
  then show "runner_graph ([], no_result_state g) = ce_others quiet_env k g" by (simp add: quiet_env_def)
qed simp

lemma sample_batch_succeeds: "fst (commit list_digraph_api quiet_env sample_batch) = Inr ()"
  by code_simp

lemma sample_batch_log:
  "fst sample_batch = [AddProcessor ''Pa'', AddProcessor ''Pb'', AddLink ''Lc'', RemoveLink ''Lc'', RemoveProcessor ''Pa'']"
  by code_simp

theorem commit_carries_out_its_batch_witness:
  "\<exists>s'. commit list_digraph_api quiet_env sample_batch = (Inr (), [], s')
     \<and> commit_inv list_digraph_api list_digraph_valid (cs_graph s')
     \<and> find_node list_digraph_api ''Pa'' (cs_graph s') = None \<and> find_link list_digraph_api ''Lc'' (cs_graph s') = None
     \<and> (\<exists>n. find_node list_digraph_api ''Pb'' (cs_graph s') = Some n \<and> (nd_instance n \<or> nd_pending_deletion n))"
proof -
  obtain left_over s' where c: "commit list_digraph_api quiet_env (fst sample_batch, snd sample_batch) = (Inr (), left_over, s')"
    using sample_batch_succeeds by (metis prod.collapse)
  have "reachable_runner list_digraph_api list_digraph_valid sample_registry (\<lambda>_. 0) False (fst sample_batch, snd sample_batch)"
    using sample_batch_reachable by simp
  note carried_out = commit_carries_out_its_batch [OF ldg.digraph_axioms this quiet_env_operates c]
  then have "batch_done list_digraph_api quiet_env (fst sample_batch) (cs_graph (snd sample_batch)) (cs_graph s')" by simp
  moreover have "find_node list_digraph_api ''Pb'' (cs_graph (snd sample_batch)) \<noteq> None" by code_simp
  ultimately have "find_node list_digraph_api ''Pa'' (cs_graph s') = None" "find_link list_digraph_api ''Lc'' (cs_graph s') = None"
      "\<exists>n. find_node list_digraph_api ''Pb'' (cs_graph s') = Some n \<and> (nd_instance n \<or> nd_pending_deletion n)"
    unfolding batch_done_def sample_batch_log by (auto simp: quiet_env_def)
  then show ?thesis using carried_out c by auto
qed

text \<open>
  Neither exception can be left out. A processor added since the last commit is both added and
  removed by the batch of \<open>stop\<close>: the removal comes first, and the commit gives up when it
  prepares the processor it has just removed. And a commit whose processor never reports ready
  succeeds all the same, without an instance.
\<close>

lemma stop_of_an_uncommitted_processor_fails:
  "fst (stop_and_commit list_digraph_api quiet_env True (after_adding ''a'' ''app::Camera'' sample_start))
     = Inl (ProcessorNotFound (not_found_message ''Pa''))"
  by code_simp

lemma commit_without_an_instance_succeeds:
  "(case commit list_digraph_api (quiet_env\<lparr>ce_ready := \<lambda>_. False\<rparr>) (after_adding ''a'' ''app::Camera'' sample_start) of
      (result, _, s') \<Rightarrow> result = Inr () \<and> map_option nd_instance (find_node list_digraph_api ''Pa'' (cs_graph s')) = Some False)"
  by code_simp

end
