(* ===== verification/Spec2Isabelle.thy ===== *)
theory Spec2Isabelle
  imports Ipc_Wire Channel_Egress Channel_Name Mailbox Surface_Leases Pixel_Pool Surface_Share
    Surface_Registry Encoded_Ordering Audio_Rings Jpeg_File Input_Ports Mp4_Recording Graph_Runtime
begin

text \<open>
  A verification library for streamlib, a Rust engine that runs graphs of media processors.
  Processors exchange bags of bytes through shared-memory channels and hand GPU surfaces to one
  another by id; built-in processors capture, encode, decode and play media. All paths below are
  under \<open>src/\<close>.

  How the parts fit together. An output port frames a payload and publishes it on the channel whose
  name is derived from its source (\<open>Ipc_Wire\<close>, \<open>Channel_Name\<close>), after the egress check of its
  channel (\<open>Channel_Egress\<close>). The receiving side puts the frame in the bounded mailbox of an input
  port, as deep as the port's delivery profile says, and counts what it evicts per link
  (\<open>Mailbox\<close>); the port hands its reader the queued bags, or windows
  of a declared length that the window stage cuts from them (\<open>Audio_Window\<close>, \<open>Input_Ports\<close>). A bag that carries a picture names a slot of the pixel-buffer pool and a
  generation of it (\<open>Pixel_Pool\<close>); a consumer in another process checks the slot out, which is
  recorded as a lease (\<open>Surface_Leases\<close>) and answered from the table of file descriptors
  (\<open>Surface_Share\<close>); adapters guard a surface while it is read or written (\<open>Surface_Registry\<close>). The
  media built-ins number encoded frames and gate them on sync points (\<open>Encoded_Ordering\<close>), and
  move audio between device callbacks and the graph (\<open>Audio_Rings\<close>). The graph of processors itself is kept by the runtime, whose operations log what
  is to be done, and brought into effect by the compiler's commits (\<open>Processor_Graph\<close>,
  \<open>Link_Wiring\<close>, \<open>Graph_Compiler\<close>). JPEG files are decoded in
  software up to the coefficients (\<open>Jpeg_Entropy\<close>, \<open>Jpeg_Scan\<close>, \<open>Jpeg_Headers\<close>, \<open>Jpeg_Color\<close>, \<open>Jpeg_Decode\<close>).

  Conventions. \<open>Prelude\<close> holds the shared types and lemmas. A struct is a record with the fields
  of the source, an enum a datatype, an operation a function from the state to the state and its
  result; \<open>Result\<close> is a sum with the error on the left and \<open>?\<close> is \<open>and_then\<close>; a hash map is an
  association list with distinct keys, read by \<open>map_of\<close>. A \<open>w\<close>-bit integer is a word where its
  wrap-around can be observed, and a natural number or an integer where the source guards it, which
  is said at the definition. A condition-variable wait is a list of what the other threads did in
  the meantime. Loops are structural, or come with a measure, or, where
  nothing but the data ends them (the retries of \<open>Mailbox\<close> and \<open>Audio_Rings\<close>, the windows of
  \<open>Input_Ports\<close>, the search for a display name in \<open>Processor_Graph\<close>), are partial functions that
  are proved to return. Code that is not under \<open>src/\<close> (Vulkan, crossbeam's queue, the MessagePack codec, the rubato
  resampler, iceoryx2, the mp4-atom box encoders, petgraph)
  is a parameter of the definitions that call it.

  The theories, what they model and what they show:

  \<^item> \<open>Ipc_Wire\<close> (\<open>runtime/streamlib-ipc-types/src/lib.rs\<close>): port and topic keys, the frame header
    and event payloads as bytes. Headers round-trip; a slice is routed exactly to the port it was
    written for; a payload is returned only when it is whole.
  \<^item> \<open>Channel_Egress\<close> (the same file and \<open>runtime/streamlib-engine/src/iceoryx2/channel_ceiling.rs\<close>):
    trust tiers, ceilings, admission of a payload and its warnings. Over any run a payload is
    refused exactly above the ceiling and the quarter-of-ceiling warning is given at most once.
  \<^item> \<open>Channel_Name\<close> (\<open>iceoryx2/channel_name.rs\<close>): the derived name is within its length and keeps
    the port name, and two names are equal only for equal ports where nothing was shortened; one
    boundary case yields a name the grammar refuses, which is a finding.
  \<^item> \<open>Mailbox\<close> (\<open>delivery_profile.rs\<close>, \<open>dropped_bag_counters.rs\<close>, \<open>mailbox.rs\<close>): the mailbox over an
    abstract concurrent queue (locales \<open>bounded_queue\<close> and \<open>frame_queue\<close>, interpreted on the list
    queue) refines a bounded drop-oldest FIFO that counts every eviction against its link; handing a
    mailbox over loses no frame.
  \<^item> \<open>Surface_Leases\<close>, \<open>Pixel_Pool\<close> (\<open>core/context/\<close>): published frame ids, the check-out registry and
    the pool manager. Locale \<open>hand_off_ledger\<close> states what the pool needs of the registry. In every
    reachable state of pool and registry a checked-out frame keeps its slot and generation, and an
    acquisition hands out only a slot nobody holds.
  \<^item> \<open>Surface_Share\<close> (\<open>linux/surface_share/\<close>): the surface table owns each descriptor exactly once and
    answers a check-out with what was registered.
  \<^item> \<open>Surface_Registry\<close>: the generic adapter registry with the locale \<open>surface_registration\<close>, and the
    OpenGL adapter on it: guards are exclusive in every reachable state.
  \<^item> \<open>Encoded_Ordering\<close>, \<open>Audio_Rings\<close> (\<open>runtime/streamlib-media-builtins/src/\<close>): the gate feeds a
    decoder only unbroken runs that start at a sync point, and counts losses exactly; the playback
    ring neither loses, repeats nor reorders a byte and cannot deadlock; the capture ring accounts
    for every block.
  \<^item> \<open>Jpeg_Entropy\<close>, \<open>Jpeg_Scan\<close>, \<open>Jpeg_Headers\<close> (\<open>sdk/vulkan-jpeg/src/\<close>): the bit reader returns the
    destuffed bits; a Huffman table decodes its canonical code and nothing else; decoding a scan
    inverts a reference encoder that lays the data units out by the arithmetic of T.81 Annex A, apart
    from the decoder's loops (\<open>standard_scan\<close>), for every interleaved sampling and restart interval, and
    for one component with 1x1 factors (others are not decoded as the standard lays them out); headers that the parsers accept make every access of the scan in bounds.
  \<^item> \<open>Color_Info\<close> (\<open>video_frame.rs\<close>, \<open>h273_color_vui_translation.rs\<close>, \<open>v4l2_color.rs\<close> of the media
    built-ins, \<open>core/color/\<close> of the engine): the colour vocabularies and their translations; a
    description survives the bytes of a video bitstream, and which axes survive a V4L2 device.
  \<^item> \<open>Jpeg_Color\<close>, \<open>Jpeg_Decode\<close>, \<open>Jpeg_File\<close> (\<open>sdk/vulkan-jpeg/src/\<close>): application segments, the
    walk over the headers and the decoder. An ICC profile is reassembled in any order of its
    fragments; decoding a whole file inverts the reference writer of \<open>Jpeg_File\<close>.
  \<^item> \<open>Audio_Window\<close>, \<open>Audio_Window_Spec\<close>, \<open>Audio_Window_Readiness\<close> (\<open>iceoryx2/audio_window/\<close>,
    \<open>sdk/streamlib-processor-schema/src/audio_window_contract.rs\<close>): the window contract, the audio-block
    bag and the accumulator. For every sequence of calls the accumulator answers as a specification
    that keeps the whole stream of a run and cuts the k-th window k hops into it. The readiness gate
    promises no window in vain once a run is under way; that it does at the start of a resampled
    run, and that the length check of a bag wraps, are findings.
  \<^item> \<open>Input_Ports\<close> (\<open>iceoryx2/input.rs\<close>): the port table over mailboxes and window stages, the
    subscribers bound to it, reads and readiness. A yes to the readiness question is followed by a
    read that gives something; growing the buffer and reading again loses nothing.
  \<^item> \<open>Annex_B\<close> (\<open>mp4_annex_b_access_unit.rs\<close> of the media built-ins, with the engine's start-code
    scanner): access units and the length-prefixed samples of an MP4 track hold the same NAL units, and
    each parameter set is kept with those of its kind.
  \<^item> \<open>Mp4_Sample_Entry\<close>, \<open>Mp4_Writer\<close> (\<open>mp4_track_sample_entry.rs\<close>, \<open>opus_stream_layout.rs\<close>,
    \<open>encoded_video_frame.rs\<close>, \<open>encoded_audio_packet.rs\<close>, \<open>mp4_fragmented_file_writer.rs\<close>): the sample
    entries and the whole fragmented writer, one track per link. \<open>Mp4_Fragments\<close>, \<open>Mp4_Timeline\<close> and
    \<open>Mp4_Recording\<close> show that a reader of a finished file finds on each track exactly what the track
    accepted, each sample at the time its stamp names; a fragment of 2 GiB would break the offsets,
    which is a finding.
  \<^item> \<open>Processor_Graph\<close> (\<open>core/graph/\<close>): processors, links, traversals and the operations that add and
    drop them, over petgraph (locale \<open>digraph\<close>, interpreted on a graph of two vectors). Adding a
    processor always ends and gives it a display name of its own.
  \<^item> \<open>Link_Wiring\<close> (\<open>core/compiler/compiler_ops/open_iceoryx2_service_op.rs\<close>): the checks that refuse
    a link, the sizing of its channel, and what opening and closing leave on the graph.
  \<^item> \<open>Graph_Compiler\<close> (\<open>core/compiler/\<close>, \<open>core/runtime/operations_runtime.rs\<close>, \<open>runtime.rs\<close>): the log of
    pending operations, the plan, the phases of a commit and the runtime's operations. A commit takes
    the lock of the graph piecewise; what other threads do in between is a function applied at every
    acquisition. \<open>Graph_Commit\<close> has the logic of assertions that survive such interference and
    the correctness of every phase; \<open>Graph_Runtime\<close> shows that the runtime's own operations interfere
    only within it, and that a commit carries out its batch in every reachable state. That
    a commit after \<open>stop\<close> may trip over a processor it both adds and removes, and that it does not
    report a processor whose thread dies before it is ready, are findings.

  Bounds and fuel. \<open>Jpeg_Entropy.skip_fill_bytes\<close> has the length of the input as fuel, which the loop
  cannot exceed because each step moves the cursor; all other loops need none.

  Not modelled, and why. Vulkan, CUDA, Metal and OpenGL calls, GPU kernels and shaders, windowing,
  camera and audio devices, sockets and process spawning are effects outside the language; the
  video bitstream parsers and codec utilities under \<open>vulkan/video\<close> are ports of vendor code; the
  vendored \<open>moq-transport\<close> is third-party; macros generate code; the Python and TypeScript SDKs are in
  other languages. Floating-point signal processing is not modelled; the audio window
  stage moves samples whose arithmetic is a parameter. The
  runtime's start, pause and resume, taps, the subprocess bridge, the network clients and the
  processors around devices and codecs are mostly calls into these, with little state of their own.
\<close>

end
